(* ===== verification/Udaq_Prelude.thy ===== *)
theory Udaq_Prelude
  imports Main "HOL-Library.Word" "HOL-Library.Multiset" "HOL-Library.Monad_Syntax" "HOL-Library.Char_ord"
begin

text \<open>
  Shared vocabulary of the development: C integer arithmetic that HOL does not have under the
  same meaning, first-match search and update on lists (the C code walks linked lists with
  \<^verbatim>\<open>while((p=p->next)!=head)\<close> and stops at the first hit), and the lemma collections the
  component theories extend.
\<close>

unbundle bit_operations_syntax

named_theorems rtr_defs \<open>operations of the router that carry no loop of their own\<close>
named_theorems rtr_consts \<open>numeric constants of the headers\<close>
named_theorems frame_simps \<open>fields an operation leaves alone\<close>

section \<open>C arithmetic\<close>

text \<open>Division and remainder of C on signed integers truncate towards zero.\<close>

definition c_div :: "int \<Rightarrow> int \<Rightarrow> int" where
  "c_div a b = sgn a * sgn b * (\<bar>a\<bar> div \<bar>b\<bar>)"

definition c_mod :: "int \<Rightarrow> int \<Rightarrow> int" where
  "c_mod a b = a - c_div a b * b"

lemma c_div_nonneg: "0 \<le> a \<Longrightarrow> 0 < b \<Longrightarrow> c_div a b = a div b"
  by (cases "a = 0") (simp_all add: c_div_def)

lemma c_mod_nonneg: "0 \<le> a \<Longrightarrow> 0 < b \<Longrightarrow> c_mod a b = a mod b"
  by (simp add: c_mod_def c_div_nonneg minus_div_mult_eq_mod)

lemma c_div_mod_eq: "c_div a b * b + c_mod a b = a"
  by (simp add: c_mod_def)

text \<open>The idiom \<^verbatim>\<open>((size+3)>>2)<<2\<close>: round up to a multiple of four.\<close>

definition round4 :: "int \<Rightarrow> int" where
  "round4 n = push_bit 2 (drop_bit 2 (n + 3))"

lemma round4_eq: "round4 n = 4 * ((n + 3) div 4)"
  by (simp add: round4_def push_bit_eq_mult drop_bit_eq_div)

lemma round4_ge: "n \<le> round4 n"
  unfolding round4_eq by presburger

lemma round4_less: "round4 n < n + 4"
  unfolding round4_eq by presburger

lemma round4_dvd: "4 dvd round4 n"
  by (simp add: round4_eq)

lemma round4_idem [simp]: "round4 (round4 n) = round4 n"
  unfolding round4_eq by presburger

lemma round4_pos: "0 < n \<Longrightarrow> 0 < round4 n"
  using round4_ge [of n] by linarith

text \<open>A result stored into a 32 bit \<^verbatim>\<open>int\<close>.\<close>

definition c_int :: "int \<Rightarrow> int" where
  "c_int i = sint (word_of_int i :: 32 word)"

lemma c_int_id: "- (2 ^ 31) \<le> i \<Longrightarrow> i < 2 ^ 31 \<Longrightarrow> c_int i = i"
  by (simp add: c_int_def signed_of_int signed_take_bit_int_eq_self)

text \<open>\<^verbatim>\<open>atoi\<close>: blanks, a sign, then decimal digits up to the first other character.\<close>

definition is_digit :: "char \<Rightarrow> bool" where
  "is_digit c \<longleftrightarrow> CHR ''0'' \<le> c \<and> c \<le> CHR ''9''"

fun digits :: "int \<Rightarrow> string \<Rightarrow> int" where
  "digits a [] = a"
| "digits a (c # cs) = (if is_digit c then digits (10 * a + (of_char c - 48)) cs else a)"

definition atoi :: "string \<Rightarrow> int" where
  "atoi s =
     (case dropWhile (\<lambda>c. c = CHR '' '' \<or> c = CHR 0x09) s of
        [] \<Rightarrow> 0
      | c # cs \<Rightarrow> if c = CHR ''-'' then - digits 0 cs else if c = CHR ''+'' then digits 0 cs else digits 0 (c # cs))"

section \<open>First match in a list\<close>

text \<open>
  \<open>split_first P xs\<close> is the walk to the first element with \<open>P\<close>, with what is before
  and after it: where the C code keeps a pointer to a list node, the model keeps its position.
\<close>

fun split_first :: "('a \<Rightarrow> bool) \<Rightarrow> 'a list \<Rightarrow> ('a list \<times> 'a \<times> 'a list) option" where
  "split_first P [] = None"
| "split_first P (x # xs) =
     (if P x then Some ([], x, xs)
      else case split_first P xs of
             None \<Rightarrow> None
           | Some (pre, y, post) \<Rightarrow> Some (x # pre, y, post))"

lemma split_first_SomeD:
  "split_first P xs = Some (pre, x, post) \<Longrightarrow>
   xs = pre @ x # post \<and> P x \<and> (\<forall>y \<in> set pre. \<not> P y)"
  by (induction P xs arbitrary: pre rule: split_first.induct)
     (auto split: if_splits option.splits)

lemma split_first_None_iff: "split_first P xs = None \<longleftrightarrow> (\<forall>x \<in> set xs. \<not> P x)"
  by (induction P xs rule: split_first.induct) (auto split: option.splits)

lemma split_first_append [simp]:
  "\<forall>y \<in> set pre. \<not> P y \<Longrightarrow> P x \<Longrightarrow> split_first P (pre @ x # post) = Some (pre, x, post)"
  by (induction pre) auto

lemma split_first_ex:
  "x \<in> set xs \<Longrightarrow> P x \<Longrightarrow> \<exists>pre y post. split_first P xs = Some (pre, y, post)"
  using split_first_None_iff [of P xs] by (cases "split_first P xs") auto

lemma in_set_tl: "x \<in> set (tl xs) \<Longrightarrow> x \<in> set xs"
  by (cases xs) auto

section \<open>Sums and counts\<close>

lemma sum_list_map_append [simp]:
  "sum_list (map f (xs @ y # ys)) = sum_list (map f xs) + (f y + sum_list (map f ys))"
  for f :: "'a \<Rightarrow> 'b :: comm_monoid_add"
  by simp

lemma count_list_eq_mset: "count_list xs x = count (mset xs) x"
  by (induction xs) auto

lemma sum_list_int_conv: "int (sum_list (map f xs)) = sum_list (map (\<lambda>x. int (f x)) xs)"
  by (induction xs) auto

lemma mset_add_subD:
  assumes "A + B \<subseteq># C"
  shows "A \<subseteq># C" "B \<subseteq># C" "A \<subseteq># C - B"
proof -
  have "count A x + count B x \<le> count C x" for x
    using assms by (metis count_union mset_subset_eq_count)
  then show "A \<subseteq># C" "B \<subseteq># C" "A \<subseteq># C - B"
    by (auto intro!: mset_subset_eqI intro: add_leD1 add_leD2 simp: add_le_imp_le_diff)
qed

end
