(* ===== verification/Router_Types.thy ===== *)
theory Router_Types
  imports Udaq_Prelude
begin

text \<open>
  The data of the buffer router: the message block and the protocol constants of
  \<^verbatim>\<open>router.h\<close>, the private limits and list nodes of \<^verbatim>\<open>router_priv.h\<close>, the System V message
  queue calls the router makes, and the router's global variables as one record.

  The circular lists with a head node become HOL lists: \<^verbatim>\<open>insert_item(head, x)\<close> appends,
  \<^verbatim>\<open>remove_item(x)\<close> deletes at the node. A \<^verbatim>\<open>rtr_shmbuf_t\<close> node is shared: it sits in one of
  the lists \<^verbatim>\<open>shm_used\<close>/\<^verbatim>\<open>shm_free\<close> and is pointed to from the buffer lists of processes, so
  nodes carry an identity \<open>sid\<close> (their address) and a buffer list holds identities.
  Following a pointer to a node that is in neither list is a use after \<^verbatim>\<open>free()\<close>.
\<close>

section \<open>Constants\<close>

text \<open>Commands of the router protocol (\<^verbatim>\<open>router.h\<close>).\<close>

definition RTR_CONNECT :: int where [rtr_consts]: "RTR_CONNECT = 1"
definition RTR_DISCONNECT :: int where [rtr_consts]: "RTR_DISCONNECT = 2"
definition RTR_REFUSE :: int where [rtr_consts]: "RTR_REFUSE = 3"
definition RTR_BUFFER :: int where [rtr_consts]: "RTR_BUFFER = 4"
definition RTR_RELEASE :: int where [rtr_consts]: "RTR_RELEASE = 5"
definition RTR_GETBUF :: int where [rtr_consts]: "RTR_GETBUF = 6"
definition RTR_SUSPEND :: int where [rtr_consts]: "RTR_SUSPEND = 7"
definition RTR_STATUS :: int where [rtr_consts]: "RTR_STATUS = 50"
definition RTR_TERMINATE :: int where [rtr_consts]: "RTR_TERMINATE = 100"

definition ROUTER_VERSION :: int where [rtr_consts]: "ROUTER_VERSION = (push_bit 8 3) OR 0"
definition ROUTER_VERSION_MIN :: int where [rtr_consts]: "ROUTER_VERSION_MIN = (push_bit 8 3) OR 0"

definition RTR_MTYPE_ROUTER :: int where [rtr_consts]: "RTR_MTYPE_ROUTER = 1"
definition RTR_NAME_LEN :: nat where [rtr_consts]: "RTR_NAME_LEN = 31"

text \<open>Connection modes: \<^verbatim>\<open>O_RDONLY\<close> (the same value as \<^verbatim>\<open>O_ALL\<close>) and \<^verbatim>\<open>O_WRONLY\<close> are the
  values of \<^verbatim>\<open>fcntl.h\<close>, \<^verbatim>\<open>O_SAMPLE\<close> is the router's own.\<close>

definition O_RDONLY :: int where [rtr_consts]: "O_RDONLY = 0"
definition O_WRONLY :: int where [rtr_consts]: "O_WRONLY = 1"
definition O_ALL :: int where [rtr_consts]: "O_ALL = 0"
definition O_SAMPLE :: int where [rtr_consts]: "O_SAMPLE = 8"

text \<open>Limits (\<^verbatim>\<open>router_priv.h\<close>).\<close>

definition RTR_MNOSENDMSG :: int where [rtr_consts]: "RTR_MNOSENDMSG = 1000"
definition RTR_DEF_SHMSIZE :: int where [rtr_consts]: "RTR_DEF_SHMSIZE = 0x100000 * 64"
definition RTR_MAXSAMPBUF :: int where [rtr_consts]: "RTR_MAXSAMPBUF = 30"
definition RTR_MAXSENDBUF :: int where [rtr_consts]: "RTR_MAXSENDBUF = 100"
definition RTR_MAXWRITEBUF :: int where [rtr_consts]: "RTR_MAXWRITEBUF = 5"

section \<open>Messages and list nodes\<close>

record rtr_msg =
  mtype :: int
  mpid :: int
  cmd :: int
  arg0 :: int
  arg1 :: int
  arg2 :: int
  mname :: string

record rtr_shmbuf =
  sid :: nat
  sbuf :: int
  ssize :: int
  scount :: int

record rtr_proc =
  pid :: int
  flag :: int
  cnt :: int
  cnt_total :: int
  c_time :: int
  l_time :: int
  bl :: "nat list"
  pname :: string

text \<open>The six statistics counters of \<^verbatim>\<open>listen.c\<close>.\<close>

record rtr_stat =
  InKBytes :: int
  InBytes :: int
  OutKBytes :: int
  OutBytes :: int
  InBlocks :: int
  OutBlocks :: int

section \<open>System V message queues\<close>

text \<open>
  A message queue of the kernel, as the router uses it: messages in order of arrival, a bound on
  their number, and whether the queue still exists. With \<^verbatim>\<open>IPC_NOWAIT\<close> a call never sleeps, so
  \<^verbatim>\<open>EINTR\<close> cannot occur.
\<close>

datatype errno = EAGAIN | ENOMSG | EIDRM | EEXIST | ENOENT | EINTR | EINVAL

record msgq =
  mq_msgs :: "rtr_msg list"
  mq_cap :: nat
  mq_live :: bool

definition msgsnd_nowait :: "rtr_msg \<Rightarrow> msgq \<Rightarrow> errno + msgq" where
  "msgsnd_nowait m q =
     (if \<not> mq_live q then Inl EIDRM
      else if length (mq_msgs q) < mq_cap q then Inr (q\<lparr>mq_msgs := mq_msgs q @ [m]\<rparr>)
      else Inl EAGAIN)"

text \<open>\<^verbatim>\<open>msgrcv\<close> with a positive type takes the first message of that type.\<close>

definition msgrcv_nowait :: "int \<Rightarrow> msgq \<Rightarrow> errno + (rtr_msg \<times> msgq)" where
  "msgrcv_nowait typ q =
     (if \<not> mq_live q then Inl EIDRM
      else case split_first (\<lambda>m. mtype m = typ) (mq_msgs q) of
             None \<Rightarrow> Inl ENOMSG
           | Some (pre, m, post) \<Rightarrow> Inr (m, q\<lparr>mq_msgs := pre @ post\<rparr>))"

section \<open>The router's state\<close>

text \<open>
  \<open>mok\<close> says which calls of \<^verbatim>\<open>malloc()\<close> succeed: the \<open>n\<close>-th call succeeds iff \<open>mok n\<close>,
  and then returns the address \<open>n\<close>, which no live node has. \<open>now\<close> is what \<^verbatim>\<open>time()\<close> returns.
  \<open>mb\<close> is the list of pending requests, \<open>que\<close> the list of messages that did not fit into
  the kernel's queue yet.
\<close>

record rtr =
  shm_used :: "rtr_shmbuf list"
  shm_free :: "rtr_shmbuf list"
  pl :: "rtr_proc list"
  msg_count :: int
  max_num_msg :: int
  shmsize :: int
  stat :: rtr_stat
  mb :: "rtr_msg list"
  que :: "rtr_msg list"
  que_count :: int
  end_flag :: bool
  q_in :: msgq
  q_out :: msgq
  proc_name :: string
  now :: int
  next_id :: nat
  mok :: "nat \<Rightarrow> bool"

definition malloc :: "rtr \<Rightarrow> nat option \<times> rtr" where
  "malloc s = (if mok s (next_id s) then Some (next_id s) else None, s\<lparr>next_id := Suc (next_id s)\<rparr>)"

lemma malloc_simps [simp]:
  "fst (malloc s) = (if mok s (next_id s) then Some (next_id s) else None)"
  "snd (malloc s) = s\<lparr>next_id := Suc (next_id s)\<rparr>"
  by (simp_all add: malloc_def)

text \<open>\<^verbatim>\<open>strncpy(dst, src, n)\<close> into a field that is then terminated at index \<open>n\<close>.\<close>

definition strncpy :: "nat \<Rightarrow> string \<Rightarrow> string" where
  "strncpy n cs = take n (takeWhile (\<lambda>c. c \<noteq> CHR 0x00) cs)"

lemma length_strncpy: "length (strncpy n cs) \<le> n"
  by (simp add: strncpy_def)

section \<open>Laws of the message queue\<close>

text \<open>
  What a client of a queue with typed messages may rely on: a sent message arrives at the end of
  the stream of its type, and leaves every other stream alone; a receive takes the head of a stream.
\<close>

locale typed_queue =
  fixes snd_op :: "'m \<Rightarrow> 'q \<Rightarrow> 'e + 'q"
    and rcv_op :: "int \<Rightarrow> 'q \<Rightarrow> 'e + ('m \<times> 'q)"
    and typ_of :: "'m \<Rightarrow> int"
    and stream :: "int \<Rightarrow> 'q \<Rightarrow> 'm list"
  assumes snd_stream: "snd_op m q = Inr q' \<Longrightarrow>
      stream t q' = stream t q @ (if typ_of m = t then [m] else [])"
    and rcv_stream: "rcv_op t q = Inr (m, q') \<Longrightarrow>
      stream t q = m # stream t q' \<and> (\<forall>u. u \<noteq> t \<longrightarrow> stream u q' = stream u q)"
begin

fun snd_all :: "'m list \<Rightarrow> 'q \<Rightarrow> 'e + 'q" where
  "snd_all [] q = Inr q"
| "snd_all (m # ms) q = (case snd_op m q of Inl e \<Rightarrow> Inl e | Inr q' \<Rightarrow> snd_all ms q')"

lemma snd_all_stream:
  "snd_all ms q = Inr q' \<Longrightarrow> stream t q' = stream t q @ filter (\<lambda>m. typ_of m = t) ms"
proof (induction ms arbitrary: q)
  case Nil
  then show ?case by simp
next
  case (Cons m ms)
  then obtain r where "snd_op m q = Inr r" and "snd_all ms r = Inr q'"
    by (auto split: sum.splits)
  with Cons.IH [of r] snd_stream [of m q r t] show ?case by simp
qed

lemma fifo:
  assumes "stream t q = []" and "snd_all ms q = Inr q'" and "rcv_op t q' = Inr (m, q'')"
  shows "\<exists>rest. filter (\<lambda>m. typ_of m = t) ms = m # rest \<and> stream t q'' = rest"
  using rcv_stream [OF assms(3)] snd_all_stream [OF assms(2), of t] assms(1) by auto

end

definition mq_stream :: "int \<Rightarrow> msgq \<Rightarrow> rtr_msg list" where
  "mq_stream t q = filter (\<lambda>m. mtype m = t) (mq_msgs q)"

interpretation mq: typed_queue msgsnd_nowait msgrcv_nowait mtype mq_stream
proof unfold_locales
  fix m q q' t
  assume "msgsnd_nowait m q = Inr q'"
  then show "mq_stream t q' = mq_stream t q @ (if mtype m = t then [m] else [])"
    by (auto simp: msgsnd_nowait_def mq_stream_def split: if_splits)
next
  fix t q m q'
  assume "msgrcv_nowait t q = Inr (m, q')"
  then obtain pre post where "split_first (\<lambda>m. mtype m = t) (mq_msgs q) = Some (pre, m, post)"
    and q': "q' = q\<lparr>mq_msgs := pre @ post\<rparr>"
    by (auto simp: msgrcv_nowait_def split: if_splits option.splits)
  then show "mq_stream t q = m # mq_stream t q' \<and> (\<forall>u. u \<noteq> t \<longrightarrow> mq_stream u q' = mq_stream u q)"
    by (auto dest!: split_first_SomeD simp: mq_stream_def filter_False)
qed

end
