(* ===== verification/Router_Alloc.thy ===== *)
theory Router_Alloc
  imports Router_Types
begin

text \<open>
  The shared memory allocator of the router: first fit with splitting (\<^verbatim>\<open>get_shm\<close>) and release with
  coalescing (\<^verbatim>\<open>shm_free_insert\<close>), both of \<^verbatim>\<open>listen.c\<close>. The interface the rest of the router relies on
  is the locale \<open>byte_allocator\<close>, stated over the set of free bytes.
\<close>

section \<open>Operations\<close>

text \<open>
  The walk of \<^verbatim>\<open>get_shm\<close> over the free list stops at the first block that is at least as large as the
  request; a larger one is split and its head is handed out.
\<close>

definition first_fit :: "int \<Rightarrow> rtr_shmbuf list \<Rightarrow> (rtr_shmbuf list \<times> rtr_shmbuf \<times> rtr_shmbuf list) option" where
  "first_fit n fs = split_first (\<lambda>b. ssize b = n \<or> ssize b > n) fs"

definition get_shm :: "int \<Rightarrow> rtr \<Rightarrow> nat option \<times> rtr" where
  "get_shm n0 s =
     (let n = round4 n0 in
      case first_fit n (shm_free s) of
        None \<Rightarrow> (None, s)
      | Some (pre, b, post) \<Rightarrow>
          if ssize b = n then
            (Some (sid b), s\<lparr>shm_free := pre @ post, shm_used := shm_used s @ [b]\<rparr>)
          else
            (case malloc s of
               (None, s1) \<Rightarrow> (None, s1)
             | (Some i, s1) \<Rightarrow>
                 (Some i,
                  s1\<lparr>shm_free := pre @ b\<lparr>sbuf := sbuf b + n, ssize := ssize b - n\<rparr> # post,
                     shm_used := shm_used s1 @ [\<lparr>sid = i, sbuf = sbuf b, ssize = n, scount = 0\<rparr>]\<rparr>)))"

text \<open>
  \<^verbatim>\<open>shm_free_insert\<close> on the list that starts behind the head node: the result code and the new list.
  On a conflict the block is freed without being inserted.
\<close>

fun shm_free_insert :: "rtr_shmbuf \<Rightarrow> rtr_shmbuf list \<Rightarrow> int \<times> rtr_shmbuf list" where
  "shm_free_insert shm [] = (0, [shm])"
| "shm_free_insert shm (s # ss) =
     (if sbuf shm + ssize shm \<le> sbuf s then
        (if sbuf shm + ssize shm = sbuf s
         then (0, s\<lparr>sbuf := sbuf shm, ssize := ssize s + ssize shm\<rparr> # ss)
         else (0, shm # s # ss))
      else if sbuf shm < sbuf s + ssize s then (-1, s # ss)
      else if sbuf shm = sbuf s + ssize s then
        (case ss of
           [] \<Rightarrow> (0, [s\<lparr>ssize := ssize s + ssize shm\<rparr>])
         | t # ts \<Rightarrow>
             if sbuf t = sbuf shm + ssize shm
             then (0, s\<lparr>ssize := ssize s + (ssize shm + ssize t)\<rparr> # ts)
             else if sbuf t < sbuf shm + ssize shm then (-1, s # ss)
             else (0, s\<lparr>ssize := ssize s + ssize shm\<rparr> # ss))
      else (case shm_free_insert shm ss of (r, l) \<Rightarrow> (r, s # l)))"

section \<open>Areas and the shape of the free list\<close>

definition bytes :: "rtr_shmbuf \<Rightarrow> int set" where
  "bytes b = {sbuf b ..< sbuf b + ssize b}"

definition area :: "rtr_shmbuf list \<Rightarrow> int set" where
  "area bs = (\<Union>b \<in> set bs. bytes b)"

text \<open>Sorted by address, no empty block, and no two blocks touch: everything is coalesced.\<close>

definition free_ok :: "rtr_shmbuf list \<Rightarrow> bool" where
  "free_ok fs \<longleftrightarrow> sorted_wrt (\<lambda>b c. sbuf b + ssize b < sbuf c) fs \<and> (\<forall>b \<in> set fs. 0 < ssize b)"

lemma area_simps [simp]:
  "area [] = {}" "area (b # bs) = bytes b \<union> area bs" "area (bs @ cs) = area bs \<union> area cs"
  by (auto simp: area_def)

lemma free_ok_simps [simp]:
  "free_ok []"
  "free_ok (b # bs) \<longleftrightarrow> 0 < ssize b \<and> (\<forall>c \<in> set bs. sbuf b + ssize b < sbuf c) \<and> free_ok bs"
  by (auto simp: free_ok_def)

lemma free_ok_append:
  "free_ok (xs @ ys) \<longleftrightarrow>
   free_ok xs \<and> free_ok ys \<and> (\<forall>b \<in> set xs. \<forall>c \<in> set ys. sbuf b + ssize b < sbuf c)"
  by (induction xs) auto

lemma bytes_start: "0 < ssize b \<Longrightarrow> sbuf b \<in> bytes b"
  by (simp add: bytes_def)

lemma bytes_in_area: "b \<in> set bs \<Longrightarrow> bytes b \<subseteq> area bs"
  by (auto simp: area_def)

lemma area_memE:
  assumes "x \<in> area bs" obtains b where "b \<in> set bs" and "x \<in> bytes b"
  using assms by (auto simp: area_def)

lemma start_in_area: "free_ok fs \<Longrightarrow> b \<in> set fs \<Longrightarrow> sbuf b \<in> area fs"
  using bytes_start [of b] bytes_in_area [of b fs] by (auto simp: free_ok_def)

text \<open>A run of free bytes lies inside one block: the gaps between blocks are never empty.\<close>

lemma run_in_one_block:
  assumes "free_ok fs" and "0 < n" and "{p ..< p + n} \<subseteq> area fs"
  shows "\<exists>b \<in> set fs. {p ..< p + n} \<subseteq> bytes b"
  using assms(1,3)
proof (induction fs)
  case Nil
  with assms(2) show ?case by simp
next
  case (Cons b bs)
  let ?e = "sbuf b + ssize b"
  have gap: "?e \<notin> area (b # bs)"
    using Cons.prems(1) by (auto simp: bytes_def elim!: area_memE)
  have ge: "x \<in> area bs \<Longrightarrow> ?e < x" for x
    using Cons.prems(1) by (fastforce simp: bytes_def elim!: area_memE)
  show ?case
  proof (cases "p < ?e")
    case True
    have "p + n \<le> ?e"
    proof (rule ccontr)
      assume "\<not> p + n \<le> ?e"
      with True have "?e \<in> {p ..< p + n}" by simp
      with Cons.prems(2) gap show False by blast
    qed
    moreover have "p \<in> bytes b"
      using Cons.prems(2) assms(2) True ge [of p] by fastforce
    ultimately show ?thesis by (auto simp: bytes_def)
  next
    case False
    have "{p ..< p + n} \<subseteq> area bs"
    proof
      fix x assume "x \<in> {p ..< p + n}"
      with Cons.prems(2) False show "x \<in> area bs" by (auto simp: bytes_def)
    qed
    with Cons show ?thesis by auto
  qed
qed

section \<open>Allocation\<close>

text \<open>The part of \<^verbatim>\<open>get_shm\<close> that concerns the free list: position handed out and the remaining list.\<close>

definition take_fit :: "int \<Rightarrow> rtr_shmbuf list \<Rightarrow> (int \<times> rtr_shmbuf list) option" where
  "take_fit n fs =
     (case first_fit n fs of
        None \<Rightarrow> None
      | Some (pre, b, post) \<Rightarrow>
          Some (sbuf b,
                if ssize b = n then pre @ post
                else pre @ b\<lparr>sbuf := sbuf b + n, ssize := ssize b - n\<rparr> # post))"

lemma bytes_disjoint_in_free:
  assumes "free_ok (pre @ b # post)"
  shows "bytes b \<inter> area pre = {}" and "bytes b \<inter> area post = {}"
  using assms by (fastforce simp: free_ok_append bytes_def elim!: area_memE)+

lemma take_fit_sound:
  assumes ok: "free_ok fs" and n: "0 < n" and t: "take_fit n fs = Some (p, fs')"
  shows "{p ..< p + n} \<subseteq> area fs \<and> area fs' = area fs - {p ..< p + n} \<and> free_ok fs'"
proof -
  from t obtain pre b post where sf: "split_first (\<lambda>b. ssize b = n \<or> ssize b > n) fs = Some (pre, b, post)"
    and p: "p = sbuf b"
    and fs': "fs' = (if ssize b = n then pre @ post
                else pre @ b\<lparr>sbuf := sbuf b + n, ssize := ssize b - n\<rparr> # post)"
    by (auto simp: take_fit_def first_fit_def split: option.splits)
  from split_first_SomeD [OF sf] have fs: "fs = pre @ b # post" and ge: "n \<le> ssize b" by auto
  have dis: "bytes b \<inter> area pre = {}" "bytes b \<inter> area post = {}"
    using bytes_disjoint_in_free ok unfolding fs by blast+
  have sub: "{p ..< p + n} \<subseteq> bytes b"
    using ge by (auto simp: p bytes_def)
  show ?thesis
  proof (cases "ssize b = n")
    case True
    then have "bytes b = {p ..< p + n}" by (simp add: p bytes_def)
    with dis ok True show ?thesis unfolding fs fs' by (auto simp: free_ok_append)
  next
    case False
    let ?b = "b\<lparr>sbuf := sbuf b + n, ssize := ssize b - n\<rparr>"
    have "bytes ?b = bytes b - {p ..< p + n}"
      using n ge by (auto simp: p bytes_def)
    with dis sub False have "area fs' = area fs - {p ..< p + n}"
      unfolding fs fs' by auto
    moreover have "free_ok fs'"
      using ok False ge n unfolding fs fs' by (fastforce simp: free_ok_append)
    ultimately show ?thesis using sub unfolding fs by auto
  qed
qed

lemma take_fit_complete:
  assumes "free_ok fs" and "0 < n" and "{p ..< p + n} \<subseteq> area fs"
  shows "\<exists>q fs'. take_fit n fs = Some (q, fs')"
proof -
  obtain b where b: "b \<in> set fs" "{p ..< p + n} \<subseteq> bytes b"
    using run_in_one_block [OF assms] by blast
  have "p \<in> bytes b" and "p + n - 1 \<in> bytes b"
    using b(2) assms(2) by auto
  then have "ssize b = n \<or> ssize b > n" by (simp add: bytes_def) linarith
  then obtain pre c post where
    "split_first (\<lambda>b. ssize b = n \<or> ssize b > n) fs = Some (pre, c, post)"
    using split_first_ex [OF b(1), of "\<lambda>b. ssize b = n \<or> ssize b > n"] by blast
  then show ?thesis by (simp add: take_fit_def first_fit_def)
qed

section \<open>Release\<close>

lemma disjoint_ends:
  assumes "bytes b \<inter> bytes c = {}" and "0 < ssize b" and "0 < ssize c"
  shows "sbuf b + ssize b \<le> sbuf c \<or> sbuf c + ssize c \<le> sbuf b"
proof (rule ccontr)
  assume "\<not> ?thesis"
  then have "max (sbuf b) (sbuf c) \<in> bytes b \<inter> bytes c"
    using assms(2,3) by (auto simp: bytes_def)
  with assms(1) show False by simp
qed

lemma bytes_join:
  "sbuf c = sbuf b + ssize b \<Longrightarrow> 0 < ssize b \<Longrightarrow> 0 < ssize c \<Longrightarrow>
   bytes b \<union> bytes c = {sbuf b ..< sbuf b + (ssize b + ssize c)}"
  by (auto simp: bytes_def)

lemma bytes_update [simp]:
  "bytes (b\<lparr>ssize := n\<rparr>) = {sbuf b ..< sbuf b + n}"
  "bytes (b\<lparr>sbuf := p, ssize := n\<rparr>) = {p ..< p + n}"
  "bytes (b\<lparr>scount := k\<rparr>) = bytes b"
  by (simp_all add: bytes_def)

text \<open>The block that follows \<open>shm\<close> when \<open>shm\<close> is right behind \<open>s\<close>.\<close>

lemma next_block_behind:
  assumes "free_ok (s # t # ts)" and "0 < ssize shm" and "bytes shm \<inter> area (s # t # ts) = {}"
    and "sbuf shm = sbuf s + ssize s"
  shows "0 < ssize t \<and> sbuf shm + ssize shm \<le> sbuf t"
proof -
  have "0 < ssize t" "bytes shm \<inter> bytes t = {}" "sbuf s + ssize s < sbuf t"
    using assms(1,3) by auto
  with disjoint_ends [of shm t] assms(2,4) show ?thesis by auto
qed

lemma shm_free_insert_area:
  assumes "free_ok fs" and "0 < ssize b" and "bytes b \<inter> area fs = {}"
  shows "fst (shm_free_insert b fs) = 0 \<and> area (snd (shm_free_insert b fs)) = bytes b \<union> area fs"
  using assms
proof (induction b fs rule: shm_free_insert.induct)
  case (1 shm)
  then show ?case by simp
next
  case (2 shm s ss)
  have s: "0 < ssize s" "free_ok ss" and dis: "bytes shm \<inter> bytes s = {}" "bytes shm \<inter> area ss = {}"
    using "2.prems" by auto
  note ends = disjoint_ends [OF dis(1) "2.prems"(2) s(1)]
  consider "sbuf shm = sbuf s + ssize s" | "sbuf shm + ssize shm \<le> sbuf s"
    | (later) "\<not> sbuf shm + ssize shm \<le> sbuf s" "\<not> sbuf shm < sbuf s + ssize s"
        "sbuf shm \<noteq> sbuf s + ssize s"
    using ends by linarith
  then show ?case
  proof cases
    case 1
    note join = bytes_join [of shm s, OF 1 s(1) "2.prems"(2)]
    show ?thesis
    proof (cases ss)
      case Nil
      with 1 join "2.prems"(2) s show ?thesis by (simp add: Un_commute)
    next
      case (Cons t ts)
      note t = next_block_behind [OF "2.prems"(1) [unfolded Cons] "2.prems"(2) "2.prems"(3) [unfolded Cons] 1]
      show ?thesis
      proof (cases "sbuf t = sbuf shm + ssize shm")
        case True
        with bytes_join [of t "s\<lparr>ssize := ssize s + ssize shm\<rparr>"] t 1 s(1) "2.prems"(2) join
        have "{sbuf s ..< sbuf s + (ssize s + (ssize shm + ssize t))} = bytes s \<union> bytes shm \<union> bytes t"
          by (simp add: add.assoc)
        with Cons 1 True s(1) "2.prems"(2) show ?thesis by (simp add: Un_ac)
      next
        case False
        with Cons 1 t s(1) "2.prems"(2) show ?thesis by (simp add: join [symmetric] Un_ac)
      qed
    qed
  next
    case 2
    show ?thesis
    proof (cases "sbuf shm + ssize shm = sbuf s")
      case True
      with bytes_join [of s shm] s(1) \<open>0 < ssize shm\<close>
      have "{sbuf shm ..< sbuf shm + (ssize s + ssize shm)} = bytes shm \<union> bytes s"
        by (simp add: add.commute)
      with True show ?thesis by (simp add: Un_assoc)
    next
      case False
      with 2 show ?thesis by simp
    qed
  next
    case later
    with "2.IH" [OF later s(2) "2.prems"(2) dis(2)] show ?thesis
      by (simp add: split_beta Un_left_commute)
  qed
qed

lemma shm_free_insert_ok:
  assumes "free_ok fs" and "0 < ssize b" and "bytes b \<inter> area fs = {}"
  shows "free_ok (snd (shm_free_insert b fs))"
  using assms
proof (induction b fs rule: shm_free_insert.induct)
  case (1 shm)
  then show ?case by simp
next
  case (2 shm s ss)
  have s: "0 < ssize s" "free_ok ss" "\<forall>c \<in> set ss. sbuf s + ssize s < sbuf c"
    and dis: "bytes shm \<inter> bytes s = {}" "bytes shm \<inter> area ss = {}"
    using "2.prems" by auto
  note ends = disjoint_ends [OF dis(1) "2.prems"(2) s(1)]
  consider "sbuf shm = sbuf s + ssize s" | "sbuf shm + ssize shm \<le> sbuf s"
    | (later) "\<not> sbuf shm + ssize shm \<le> sbuf s" "\<not> sbuf shm < sbuf s + ssize s"
        "sbuf shm \<noteq> sbuf s + ssize s"
    using ends by linarith
  then show ?case
  proof cases
    case 1
    show ?thesis
    proof (cases ss)
      case Nil
      with 1 s "2.prems"(2) show ?thesis by simp
    next
      case (Cons t ts)
      note t = next_block_behind [OF "2.prems"(1) [unfolded Cons] "2.prems"(2) "2.prems"(3) [unfolded Cons] 1]
      have ts: "free_ok (t # ts)" using s(2) Cons by simp
      show ?thesis
        using Cons 1 t s(1) "2.prems"(2) ts
        by (cases "sbuf t = sbuf shm + ssize shm") (simp_all, fastforce+)
    qed
  next
    case 2
    then have "\<forall>c \<in> set ss. sbuf shm + ssize shm < sbuf c"
      using s by fastforce
    with 2 s \<open>0 < ssize shm\<close> show ?thesis by (cases "sbuf shm + ssize shm = sbuf s") auto
  next
    case later
    let ?l = "snd (shm_free_insert shm ss)"
    have ok: "free_ok ?l"
      by (rule "2.IH" [OF later s(2) "2.prems"(2) dis(2)])
    have "\<forall>c \<in> set ?l. sbuf s + ssize s < sbuf c"
    proof
      fix c assume "c \<in> set ?l"
      then have "sbuf c \<in> bytes shm \<union> area ss"
        using start_in_area [OF ok] shm_free_insert_area [OF s(2) "2.prems"(2) dis(2)] by auto
      then show "sbuf s + ssize s < sbuf c"
        using s(3) later by (fastforce simp: bytes_def elim!: area_memE)
    qed
    with ok later s(1) show ?thesis by (simp add: split_beta)
  qed
qed

section \<open>The interface of the allocator\<close>

text \<open>
  What the router relies on. \<open>avail h\<close> is the set of free bytes, \<open>range b\<close> the bytes of a block.
  Allocation takes a run of free bytes, and finds one whenever there is one; a block that does not
  overlap the free bytes can always be given back.
\<close>

locale byte_allocator =
  fixes alloc :: "int \<Rightarrow> 'h \<Rightarrow> (int \<times> 'h) option"
    and dealloc :: "'b \<Rightarrow> 'h \<Rightarrow> int \<times> 'h"
    and range :: "'b \<Rightarrow> int set"
    and avail :: "'h \<Rightarrow> int set"
    and invar :: "'h \<Rightarrow> bool"
  assumes alloc_sound: "invar h \<Longrightarrow> 0 < n \<Longrightarrow> alloc n h = Some (p, h') \<Longrightarrow>
      {p ..< p + n} \<subseteq> avail h \<and> avail h' = avail h - {p ..< p + n} \<and> invar h'"
    and alloc_complete: "invar h \<Longrightarrow> 0 < n \<Longrightarrow> {p ..< p + n} \<subseteq> avail h \<Longrightarrow> \<exists>q h'. alloc n h = Some (q, h')"
    and dealloc_sound: "invar h \<Longrightarrow> range b \<noteq> {} \<Longrightarrow> range b \<inter> avail h = {} \<Longrightarrow>
      fst (dealloc b h) = 0 \<and> avail (snd (dealloc b h)) = range b \<union> avail h \<and> invar (snd (dealloc b h))"
begin

text \<open>The blocks in use and the free bytes tile the whole memory \<open>tot\<close>.\<close>

definition tiled :: "int set \<Rightarrow> 'b list \<Rightarrow> 'h \<Rightarrow> bool" where
  "tiled tot bs h \<longleftrightarrow>
     invar h \<and> sorted_wrt (\<lambda>b c. range b \<inter> range c = {}) bs \<and>
     (\<forall>b \<in> set bs. range b \<noteq> {} \<and> range b \<inter> avail h = {}) \<and>
     (\<Union>b \<in> set bs. range b) \<union> avail h = tot"

lemma tiled_alloc:
  assumes t: "tiled tot bs h" and n: "0 < n" and a: "alloc n h = Some (p, h')"
    and b: "range b = {p ..< p + n}"
  shows "tiled tot (bs @ [b]) h'"
proof -
  have inv: "invar h" using t by (simp add: tiled_def)
  note s = alloc_sound [OF inv n a]
  have "range c \<inter> range b = {}" "range c \<inter> avail h' = {}" if "c \<in> set bs" for c
  proof -
    have "range c \<inter> avail h = {}" using t that by (simp add: tiled_def)
    with s b show "range c \<inter> range b = {}" "range c \<inter> avail h' = {}" by blast+
  qed
  moreover have "range b \<noteq> {}" "range b \<inter> avail h' = {}"
    using n s b by auto
  moreover have "range b \<union> avail h' = avail h" using s b by auto
  ultimately show ?thesis
    using t s by (auto simp: tiled_def sorted_wrt_append)
qed

lemma tiled_mem:
  "tiled tot (xs @ b # ys) h \<Longrightarrow> invar h \<and> range b \<noteq> {} \<and> range b \<inter> avail h = {}"
  by (simp add: tiled_def)

lemma tiled_dealloc:
  assumes t: "tiled tot (xs @ b # ys) h"
  shows "fst (dealloc b h) = 0 \<and> tiled tot (xs @ ys) (snd (dealloc b h))"
proof -
  have "invar h" "range b \<noteq> {}" "range b \<inter> avail h = {}"
    using tiled_mem [OF t] by auto
  note d = dealloc_sound [OF this]
  have "range c \<inter> range b = {}" if "c \<in> set (xs @ ys)" for c
    using t that by (auto simp: tiled_def sorted_wrt_append Int_commute)
  with t d show ?thesis
    by (auto simp: tiled_def sorted_wrt_append)
qed

text \<open>Memory is never lost: with no block in use everything is free again.\<close>

lemma tiled_Nil: "tiled tot [] h \<longleftrightarrow> invar h \<and> avail h = tot"
  by (auto simp: tiled_def)

lemma tiled_map:
  "tiled tot bs h \<longleftrightarrow>
     invar h \<and> sorted_wrt (\<lambda>A B. A \<inter> B = {}) (map range bs) \<and>
     (\<forall>A \<in> set (map range bs). A \<noteq> {} \<and> A \<inter> avail h = {}) \<and>
     \<Union> (set (map range bs)) \<union> avail h = tot"
  by (simp add: tiled_def sorted_wrt_map)

lemma tiled_cong: "map range bs = map range cs \<Longrightarrow> tiled tot bs h = tiled tot cs h"
  by (simp only: tiled_map)

text \<open>A block in use never overlaps another one, nor a free byte.\<close>

lemma tiled_disjoint:
  assumes "tiled tot bs h" and "i < length bs" and "j < length bs" and "i \<noteq> j"
  shows "range (bs ! i) \<inter> range (bs ! j) = {}"
proof -
  have srt: "sorted_wrt (\<lambda>b c. range b \<inter> range c = {}) bs"
    using assms(1) by (simp add: tiled_def)
  show ?thesis
  proof (cases "i < j")
    case True
    with sorted_wrt_nth_less [OF srt] assms(3) show ?thesis by blast
  next
    case False
    with assms(4) have "j < i" by simp
    with sorted_wrt_nth_less [OF srt] assms(2) show ?thesis by blast
  qed
qed

lemma tiled_inj:
  assumes t: "tiled tot bs h" and b: "b \<in> set bs" and c: "c \<in> set bs" and x: "x \<in> range b" "x \<in> range c"
  shows "b = c"
proof -
  obtain i j where "i < length bs" "j < length bs" "bs ! i = b" "bs ! j = c"
    using b c by (metis in_set_conv_nth)
  with tiled_disjoint [OF t, of i j] x show ?thesis by (cases "i = j") auto
qed

lemma alloc_dealloc:
  assumes "invar h" and "0 < n" and "alloc n h = Some (p, h')" and "range b = {p ..< p + n}"
  shows "avail (snd (dealloc b h')) = avail h"
proof -
  note s = alloc_sound [OF assms(1-3)]
  have "range b \<noteq> {}" "range b \<inter> avail h' = {}" using s assms(2,4) by auto
  with dealloc_sound [of h' b] s assms(4) show ?thesis by auto
qed

end

interpretation shm: byte_allocator take_fit shm_free_insert bytes area free_ok
proof unfold_locales
  fix h n p h'
  assume "free_ok h" "0 < n" "take_fit n h = Some (p, h')"
  then show "{p ..< p + n} \<subseteq> area h \<and> area h' = area h - {p ..< p + n} \<and> free_ok h'"
    by (rule take_fit_sound)
next
  fix h n p
  assume "free_ok h" "0 < n" "{p ..< p + n} \<subseteq> area h"
  then show "\<exists>q h'. take_fit n h = Some (q, h')"
    by (rule take_fit_complete)
next
  fix h b
  assume "free_ok h" "bytes b \<noteq> {}" "bytes b \<inter> area h = {}"
  then show "fst (shm_free_insert b h) = 0 \<and> area (snd (shm_free_insert b h)) = bytes b \<union> area h \<and>
      free_ok (snd (shm_free_insert b h))"
    using shm_free_insert_area [of h b] shm_free_insert_ok [of h b] by (simp add: bytes_def)
qed

section \<open>The allocator inside the router's state\<close>

text \<open>
  Identities and reference counts of the nodes: an insertion keeps the node it merges into, and
  every other node it touches is unchanged.
\<close>

declare shm_free_insert.simps [simp del]

lemma shm_free_insert_shape:
  "\<exists>s'. sid s' = sid s \<and> scount s' = scount s \<and>
     (snd (shm_free_insert b (s # ss)) = s' # ss \<or> snd (shm_free_insert b (s # ss)) = b # s' # ss \<or>
      snd (shm_free_insert b (s # ss)) = s' # tl ss \<or>
      snd (shm_free_insert b (s # ss)) = s' # snd (shm_free_insert b ss))"
proof -
  let ?R = "snd (shm_free_insert b (s # ss))"
  have "?R = s\<lparr>sbuf := sbuf b, ssize := ssize s + ssize b\<rparr> # ss \<or> ?R = b # s # ss \<or> ?R = s # ss \<or>
        ?R = s\<lparr>ssize := ssize s + ssize b\<rparr> # ss \<or>
        ?R = s\<lparr>ssize := ssize s + (ssize b + ssize (hd ss))\<rparr> # tl ss \<or>
        ?R = s # snd (shm_free_insert b ss)"
    unfolding shm_free_insert.simps(2)
    by (cases ss) (simp_all add: split_beta)
  then consider
      "?R = s\<lparr>sbuf := sbuf b, ssize := ssize s + ssize b\<rparr> # ss"
    | "?R = b # s # ss \<or> ?R = s # ss \<or> ?R = s # snd (shm_free_insert b ss)"
    | "?R = s\<lparr>ssize := ssize s + ssize b\<rparr> # ss"
    | "?R = s\<lparr>ssize := ssize s + (ssize b + ssize (hd ss))\<rparr> # tl ss"
    by blast
  then show ?thesis
  proof cases
    case 1
    then show ?thesis by (intro exI [of _ "s\<lparr>sbuf := sbuf b, ssize := ssize s + ssize b\<rparr>"]) simp
  next
    case 2
    then show ?thesis by (intro exI [of _ s]) auto
  next
    case 3
    then show ?thesis by (intro exI [of _ "s\<lparr>ssize := ssize s + ssize b\<rparr>"]) simp
  next
    case 4
    then show ?thesis
      by (intro exI [of _ "s\<lparr>ssize := ssize s + (ssize b + ssize (hd ss))\<rparr>"]) simp
  qed
qed

lemma shm_free_insert_elems:
  assumes "c \<in> set (snd (shm_free_insert b fs))"
  shows "c = b \<or> (\<exists>d \<in> set fs. sid c = sid d \<and> scount c = scount d)"
  using assms
proof (induction fs)
  case Nil
  then show ?case by (simp add: shm_free_insert.simps)
next
  case (Cons s ss)
  with shm_free_insert_shape [of s b ss] show ?case
    by (cases ss) auto
qed

lemma sids_shm_free_insert: "sid ` set (snd (shm_free_insert b fs)) \<subseteq> insert (sid b) (sid ` set fs)"
  by (force dest: shm_free_insert_elems)

lemma scount_shm_free_insert:
  "\<forall>c \<in> set fs. scount c = 0 \<Longrightarrow> scount b = 0 \<Longrightarrow> \<forall>c \<in> set (snd (shm_free_insert b fs)). scount c = 0"
  by (force dest: shm_free_insert_elems)

lemma distinct_sids_shm_free_insert:
  "distinct (map sid fs) \<Longrightarrow> sid b \<notin> sid ` set fs \<Longrightarrow> distinct (map sid (snd (shm_free_insert b fs)))"
proof (induction fs)
  case Nil
  then show ?case by (simp add: shm_free_insert.simps)
next
  case (Cons s ss)
  have "sid s \<notin> sid ` set (snd (shm_free_insert b ss))"
    using sids_shm_free_insert [of b ss] Cons.prems by auto
  with Cons shm_free_insert_shape [of s b ss] show ?case
    by (cases ss) auto
qed

text \<open>
  What \<^verbatim>\<open>get_shm\<close> does to the state when it succeeds: one new block with reference count 0 at the end of
  the used list, of the rounded size, cut from the free list by \<open>take_fit\<close>; its node is the free
  node itself or a new one.
\<close>

lemma get_shm_Some:
  assumes g: "get_shm n0 s = (Some i, s')" and z: "\<forall>b \<in> set (shm_free s). scount b = 0"
  obtains b fs' k where "take_fit (round4 n0) (shm_free s) = Some (sbuf b, fs')"
    and "sid b = i" and "ssize b = round4 n0" and "scount b = 0"
    and "s' = s\<lparr>shm_free := fs', shm_used := shm_used s @ [b], next_id := k\<rparr>"
    and "k = next_id s \<and> (\<exists>pre post. shm_free s = pre @ b # post \<and> fs' = pre @ post) \<or>
         k = Suc (next_id s) \<and> i = next_id s \<and> map sid fs' = map sid (shm_free s)"
    and "\<forall>b \<in> set fs'. scount b = 0"
proof -
  from g obtain pre b post where ff: "first_fit (round4 n0) (shm_free s) = Some (pre, b, post)"
    by (auto simp: get_shm_def Let_def split: option.splits)
  then have fs: "shm_free s = pre @ b # post"
    by (auto simp: first_fit_def dest: split_first_SomeD)
  show thesis
  proof (cases "ssize b = round4 n0")
    case True
    with g ff have "sid b = i" "s' = s\<lparr>shm_free := pre @ post, shm_used := shm_used s @ [b], next_id := next_id s\<rparr>"
      by (auto simp: get_shm_def)
    with True ff fs z show thesis
      by (intro that [of b "pre @ post" "next_id s"]) (auto simp: take_fit_def)
  next
    case False
    let ?b = "b\<lparr>sbuf := sbuf b + round4 n0, ssize := ssize b - round4 n0\<rparr>"
    let ?n = "\<lparr>sid = next_id s, sbuf = sbuf b, ssize = round4 n0, scount = 0\<rparr>"
    from False g ff have "next_id s = i"
      "s' = s\<lparr>shm_free := pre @ ?b # post, shm_used := shm_used s @ [?n], next_id := Suc (next_id s)\<rparr>"
      by (auto simp: get_shm_def malloc_def Let_def split: if_splits)
    with False ff fs z show thesis
      by (intro that [of ?n "pre @ ?b # post" "Suc (next_id s)"]) (auto simp: take_fit_def)
  qed
qed

lemma get_shm_None:
  assumes "get_shm n0 s = (None, s')"
  shows "s' = s \<or> s' = s\<lparr>next_id := Suc (next_id s)\<rparr> \<and> \<not> mok s (next_id s)"
  using assms by (auto simp: get_shm_def Let_def malloc_def split: option.splits if_splits)

text \<open>With working \<^verbatim>\<open>malloc\<close>, a request fails only if no run of free bytes of the rounded size is left.\<close>

lemma get_shm_None_full:
  assumes "get_shm n0 s = (None, s')" and "mok s (next_id s)" and "free_ok (shm_free s)" and "0 < n0"
  shows "s' = s \<and> \<not> (\<exists>p. {p ..< p + round4 n0} \<subseteq> area (shm_free s))"
proof -
  have "first_fit (round4 n0) (shm_free s) = None" and s': "s' = s"
    using assms(1,2) by (auto simp: get_shm_def Let_def malloc_def split: option.splits if_splits)
  then have "take_fit (round4 n0) (shm_free s) = None" by (simp add: take_fit_def)
  with s' shm.alloc_complete [OF assms(3) round4_pos [OF assms(4)]] show ?thesis by auto
qed

end
