(* ===== verification/Router_Listen.thy ===== *)
theory Router_Listen
  imports Router_Alloc
begin

text \<open>
  The message handlers of the router (\<^verbatim>\<open>router/src/listen.c\<close>): buffer lists of processes, sending
  through the overflow queue, distribution of a filled buffer to the consumers, release of buffers,
  requests of writers, and the dispatcher \<^verbatim>\<open>message()\<close> with the loop \<^verbatim>\<open>do_listen()\<close> around it.

  Functions that follow pointers to buffer nodes return an option: \<open>None\<close> is the use of a node that
  was freed. All other failures are the return codes of the C code. Texts for the error log and the
  marks \<^verbatim>\<open>*\<close>, \<^verbatim>\<open>.\<close> on the terminal are not part of the state.
\<close>

section \<open>Statistics\<close>

definition init_stat :: "rtr \<Rightarrow> rtr" where
  "init_stat s = s\<lparr>stat := \<lparr>InKBytes = 0, InBytes = 0, OutKBytes = 0, OutBytes = 0, InBlocks = 0, OutBlocks = 0\<rparr>\<rparr>"

definition stat_in :: "int \<Rightarrow> rtr_stat \<Rightarrow> rtr_stat" where
  "stat_in n st =
     (let b = InBytes st + n; k = c_div b 1024
      in st\<lparr>InBlocks := InBlocks st + 1, InKBytes := InKBytes st + k, InBytes := b - k * 1024\<rparr>)"

definition stat_out :: "int \<Rightarrow> rtr_stat \<Rightarrow> rtr_stat" where
  "stat_out n st =
     (let b = OutBytes st + n; k = c_div b 1024
      in st\<lparr>OutBlocks := OutBlocks st + 1, OutKBytes := OutKBytes st + k, OutBytes := b - k * 1024\<rparr>)"

section \<open>Names of commands, for the status display\<close>

definition commands :: "string list" where
  "commands = [''   null'', ''connect'', '' discon'', '' refuse'', '' buffer'',
     ''release'', '' getbuf'', ''suspend'', ''unknwon'', ''unknwon'']"

definition str_cmd :: "int \<Rightarrow> string" where
  "str_cmd c =
     (if 0 < c \<and> c < 10 then commands ! nat c
      else if c = RTR_STATUS then '' status''
      else if c = RTR_TERMINATE then ''   term''
      else ''unknwon'')"

section \<open>Buffer lists\<close>

definition shm_at :: "rtr \<Rightarrow> nat \<Rightarrow> rtr_shmbuf option" where
  "shm_at s i = find (\<lambda>b. sid b = i) (shm_used s @ shm_free s)"

text \<open>The walk of \<^verbatim>\<open>pl_remove_buf\<close>: \<open>d\<close> follows a pointer and reads the position of the buffer.\<close>

fun bl_remove :: "(nat \<Rightarrow> int option) \<Rightarrow> int \<Rightarrow> nat list \<Rightarrow> (bool \<times> nat list) option" where
  "bl_remove d b [] = Some (False, [])"
| "bl_remove d b (i # is) =
     (case d i of
        None \<Rightarrow> None
      | Some p \<Rightarrow>
          if p = b then Some (True, is)
          else (case bl_remove d b is of None \<Rightarrow> None | Some (r, l) \<Rightarrow> Some (r, i # l)))"

definition pl_remove_buf :: "rtr \<Rightarrow> rtr_proc \<Rightarrow> int \<Rightarrow> (int \<times> rtr_proc) option" where
  "pl_remove_buf s p b =
     (case bl_remove (\<lambda>i. map_option sbuf (shm_at s i)) b (bl p) of
        None \<Rightarrow> None
      | Some (True, l) \<Rightarrow> Some (0, p\<lparr>bl := l\<rparr>)
      | Some (False, l) \<Rightarrow> Some (-1, p))"

section \<open>Sending messages\<close>

definition que_msg :: "rtr_msg \<Rightarrow> rtr \<Rightarrow> int \<times> rtr" where
  "que_msg m s =
     (case malloc s of
        (None, s1) \<Rightarrow> (-1, s1)
      | (Some _, s1) \<Rightarrow> (0, s1\<lparr>que := que s1 @ [m], que_count := que_count s1 + 1\<rparr>))"

fun que_snd_loop :: "rtr_msg list \<Rightarrow> int \<Rightarrow> msgq \<Rightarrow> int \<times> rtr_msg list \<times> int \<times> msgq" where
  "que_snd_loop [] c q = (0, [], c, q)"
| "que_snd_loop (m # ms) c q =
     (case msgsnd_nowait m q of
        Inr q' \<Rightarrow> que_snd_loop ms (c - 1) q'
      | Inl e \<Rightarrow> (if e = EAGAIN then 1 else -1, m # ms, c, q))"

definition que_snd :: "rtr \<Rightarrow> int \<times> rtr" where
  "que_snd s =
     (if msg_count s - que_count s \<ge> max_num_msg s then (1, s)
      else case que_snd_loop (que s) (que_count s) (q_out s) of
             (r, ms, c, q) \<Rightarrow> (r, s\<lparr>que := ms, que_count := c, q_out := q\<rparr>))"

definition send_msg :: "int \<Rightarrow> int \<Rightarrow> int \<Rightarrow> int \<Rightarrow> int \<Rightarrow> rtr \<Rightarrow> int \<times> rtr" where
  "send_msg t com a1 a2 a3 s =
     (let m = \<lparr>mtype = t, mpid = RTR_MTYPE_ROUTER, cmd = com, arg0 = a1, arg1 = a2, arg2 = a3,
               mname = strncpy RTR_NAME_LEN (proc_name s)\<rparr>;
          s1 = snd (que_msg m s);
          s2 = snd (que_snd s1)
      in (0, s2))"

section \<open>Distribution of a buffer\<close>

text \<open>A consumer that must get every buffer, and holds as many as it may.\<close>

definition must_full :: "rtr_proc \<Rightarrow> bool" where
  "must_full p \<longleftrightarrow> flag p AND (O_WRONLY OR O_SAMPLE) = 0 \<and> cnt p \<ge> RTR_MAXSENDBUF"

definition check_max_buf :: "rtr \<Rightarrow> int" where
  "check_max_buf s = (if \<exists>p \<in> set (pl s). must_full p then 1 else 0)"

definition shm_inc :: "nat \<Rightarrow> rtr \<Rightarrow> rtr" where
  "shm_inc i s =
     s\<lparr>shm_used := map (\<lambda>b. if sid b = i then b\<lparr>scount := scount b + 1\<rparr> else b) (shm_used s)\<rparr>"

text \<open>One consumer takes the buffer: the body of the loop of \<^verbatim>\<open>send_buf\<close> after its guards.\<close>

definition grab :: "nat \<Rightarrow> int \<Rightarrow> rtr_proc \<Rightarrow> rtr_proc" where
  "grab i t p = p\<lparr>bl := bl p @ [i], cnt := cnt p + 1, cnt_total := cnt_total p + 1, l_time := t\<rparr>"

fun send_buf_loop :: "rtr_shmbuf \<Rightarrow> int \<Rightarrow> rtr_proc list \<Rightarrow> rtr \<Rightarrow> int \<times> rtr_proc list \<times> rtr" where
  "send_buf_loop shm n [] s = (0, [], s)"
| "send_buf_loop shm n (p # ps) s =
     (if flag p AND O_WRONLY \<noteq> 0 \<or> flag p AND O_SAMPLE \<noteq> 0 \<and> cnt p \<ge> RTR_MAXSAMPBUF then
        (case send_buf_loop shm n ps s of (r, ps', s') \<Rightarrow> (r, p # ps', s'))
      else if flag p AND O_SAMPLE = 0 \<and> cnt p \<ge> RTR_MAXSENDBUF then (-1, p # ps, s)
      else
        (case malloc s of
           (None, s1) \<Rightarrow> (-1, p # ps, s1)
         | (Some _, s1) \<Rightarrow>
             (case send_msg (pid p) RTR_BUFFER (sbuf shm) n 0 s1 of
                (e, s2) \<Rightarrow>
                  if e \<noteq> 0 then (-1, p # ps, s2)
                  else
                    (case send_buf_loop shm n ps
                            (shm_inc (sid shm) (s2\<lparr>msg_count := msg_count s2 + 1\<rparr>)) of
                       (r, ps', s') \<Rightarrow> (r, grab (sid shm) (now s) p # ps', s')))))"

definition send_buf :: "rtr_shmbuf \<Rightarrow> int \<Rightarrow> rtr \<Rightarrow> int \<times> rtr" where
  "send_buf shm n0 s =
     (let n = (if n0 > ssize shm then ssize shm else n0) in
      if \<exists>p \<in> set (pl s). must_full p then (2, s)
      else
        (case send_buf_loop shm n (pl s) s of
           (r, ps, s1) \<Rightarrow>
             let s2 = s1\<lparr>pl := ps\<rparr> in
             if r \<noteq> 0 then (r, s2)
             else (0, if msg_count s2 = msg_count s then s2 else s2\<lparr>stat := stat_out n (stat s2)\<rparr>)))"

section \<open>Release of a buffer\<close>

text \<open>\<^verbatim>\<open>shm->count--\<close>, and back to the free list when nobody refers to the buffer any more.\<close>

definition shm_put :: "nat \<Rightarrow> rtr \<Rightarrow> rtr" where
  "shm_put i s =
     (case split_first (\<lambda>b. sid b = i) (shm_used s) of
        None \<Rightarrow> s
      | Some (pre, b, post) \<Rightarrow>
          let c = scount b - 1 in
          if c \<le> 0
          then s\<lparr>shm_used := pre @ post,
                 shm_free := snd (shm_free_insert (b\<lparr>scount := 0\<rparr>) (shm_free s))\<rparr>
          else s\<lparr>shm_used := pre @ b\<lparr>scount := c\<rparr> # post\<rparr>)"

text \<open>The first loop of \<^verbatim>\<open>release_buf\<close>: the process drops its reference.\<close>

definition dec_cnt :: "int \<Rightarrow> rtr_proc \<Rightarrow> rtr_proc" where
  "dec_cnt r p = (if r = 0 \<and> cnt p > 0 then p\<lparr>cnt := cnt p - 1\<rparr> else p)"

definition drop_ref :: "int \<Rightarrow> int \<Rightarrow> rtr \<Rightarrow> rtr option" where
  "drop_ref pd b s =
     (case split_first (\<lambda>p. pid p = pd) (pl s) of
        None \<Rightarrow> Some s
      | Some (pre, p, post) \<Rightarrow>
          (case pl_remove_buf s p b of
             None \<Rightarrow> None
           | Some (r, p') \<Rightarrow>
               Some (s\<lparr>pl := pre @ dec_cnt r p' # post\<rparr>)))"

text \<open>\<^verbatim>\<open>pl->flag\<close> after a search for a process: the head node's flag is 0.\<close>

definition flag_of :: "int \<Rightarrow> rtr \<Rightarrow> int" where
  "flag_of pd s = (case split_first (\<lambda>p. pid p = pd) (pl s) of None \<Rightarrow> 0 | Some (_, p, _) \<Rightarrow> flag p)"

definition release_buf :: "int \<Rightarrow> int \<Rightarrow> int \<Rightarrow> rtr \<Rightarrow> (int \<times> rtr) option" where
  "release_buf pd b n s =
     (case drop_ref pd b s of
        None \<Rightarrow> None
      | Some s1 \<Rightarrow>
          (case split_first (\<lambda>c. sbuf c = b) (shm_used s1) of
             None \<Rightarrow> Some (-1, s1)
           | Some (_, shm, _) \<Rightarrow>
               (case (if flag_of pd s AND O_WRONLY \<noteq> 0 \<and> n > 0
                      then send_buf shm n (s1\<lparr>stat := stat_in n (stat s1)\<rparr>) else (0, s1)) of
                  (r, s2) \<Rightarrow>
                    if r < 0 then Some (-1, s2)
                    else let s3 = shm_put (sid shm) s2 in Some (0, s3\<lparr>msg_count := msg_count s3 - 1\<rparr>))))"

text \<open>Without a buffer to pass on (\<open>n \<le> 0\<close>) a release only drops references.\<close>

lemma shm_put_frame [frame_simps]:
  "pl (shm_put i s) = pl s" "msg_count (shm_put i s) = msg_count s" "que (shm_put i s) = que s"
  "q_in (shm_put i s) = q_in s" "q_out (shm_put i s) = q_out s" "mb (shm_put i s) = mb s"
  "que_count (shm_put i s) = que_count s" "stat (shm_put i s) = stat s"
  "shmsize (shm_put i s) = shmsize s" "max_num_msg (shm_put i s) = max_num_msg s"
  "next_id (shm_put i s) = next_id s" "mok (shm_put i s) = mok s" "end_flag (shm_put i s) = end_flag s"
  by (auto simp: shm_put_def Let_def split: option.splits)

lemma drop_ref_shape: "drop_ref pd b s = Some s1 \<Longrightarrow> s1 = s\<lparr>pl := pl s1\<rparr>"
  by (auto simp: drop_ref_def split: option.splits prod.splits)

lemma release_buf_nonpos:
  assumes "n \<le> 0"
  shows "release_buf pd b n s =
     (case drop_ref pd b s of
        None \<Rightarrow> None
      | Some s1 \<Rightarrow>
          (case split_first (\<lambda>c. sbuf c = b) (shm_used s1) of
             None \<Rightarrow> Some (-1, s1)
           | Some (_, shm, _) \<Rightarrow>
               Some (0, (shm_put (sid shm) s1)\<lparr>msg_count := msg_count s1 - 1\<rparr>)))"
  using assms by (auto simp: release_buf_def Let_def frame_simps split: option.splits)

definition held_len :: "int \<Rightarrow> rtr \<Rightarrow> nat" where
  "held_len pd s = (case split_first (\<lambda>p. pid p = pd) (pl s) of None \<Rightarrow> 0 | Some (_, p, _) \<Rightarrow> length (bl p))"

lemma bl_remove_length: "bl_remove d b is = Some (True, l) \<Longrightarrow> length l < length is"
  by (induction d b "is" arbitrary: l rule: bl_remove.induct) (auto split: option.splits if_splits)

lemma drop_ref_pl:
  assumes "drop_ref pd b s = Some s1" and "split_first (\<lambda>p. pid p = pd) (pl s) = Some (pre, p, post)"
  shows "\<exists>r p'. pl_remove_buf s p b = Some (r, p') \<and>
    pl s1 = pre @ dec_cnt r p' # post"
  using assms by (cases "pl_remove_buf s p b") (auto simp: drop_ref_def split_beta)

lemma pl_remove_buf_pid: "pl_remove_buf s p b = Some (r, p') \<Longrightarrow> pid p' = pid p"
  by (auto simp: pl_remove_buf_def split: option.splits bool.splits)

lemma release_neg_held_len:
  assumes sf: "split_first (\<lambda>p. pid p = pd) (pl s) = Some (pre, p, post)" and bl: "bl p = i # is"
    and at: "shm_at s i = Some b" and rel: "release_buf pd (sbuf b) (-1) s = Some (r, s')"
  shows "held_len pd s' < held_len pd s"
proof -
  obtain s1 where d: "drop_ref pd (sbuf b) s = Some s1" and pls: "pl s' = pl s1"
    using rel by (auto simp: release_buf_nonpos frame_simps split: option.splits)
  obtain r' p' where rm: "pl_remove_buf s p (sbuf b) = Some (r', p')" and
    pl1: "pl s1 = pre @ dec_cnt r' p' # post"
    using drop_ref_pl [OF d sf] by auto
  have "r' = 0 \<and> length (bl p') < length (bl p)"
    using rm bl at by (auto simp: pl_remove_buf_def split: option.splits bool.splits)
  moreover have "pid p' = pd" "\<forall>q \<in> set pre. pid q \<noteq> pd"
    using pl_remove_buf_pid [OF rm] split_first_SomeD [OF sf] by auto
  ultimately show ?thesis
    using pls pl1 sf by (auto simp: held_len_def dec_cnt_def)
qed

text \<open>
  The loop of \<^verbatim>\<open>pl_release_buf_all\<close> restarts from the head of the buffer list after every release
  (\<^verbatim>\<open>bl = &pl->bl\<close>); each release removes one entry, so it ends.
\<close>

function release_all :: "int \<Rightarrow> rtr \<Rightarrow> rtr option" where
  "release_all pd s =
     (case split_first (\<lambda>p. pid p = pd) (pl s) of
        None \<Rightarrow> Some s
      | Some (_, p, _) \<Rightarrow>
          (case bl p of
             [] \<Rightarrow> Some s
           | i # _ \<Rightarrow>
               (case shm_at s i of
                  None \<Rightarrow> None
                | Some b \<Rightarrow>
                    (case release_buf pd (sbuf b) (-1) s of
                       None \<Rightarrow> None
                     | Some (_, s') \<Rightarrow> release_all pd s'))))"
  by pat_completeness auto
termination
  by (relation "measure (\<lambda>(pd, s). held_len pd s)") (auto dest: release_neg_held_len)

declare release_all.simps [simp del]

definition pl_release_buf_all :: "int \<Rightarrow> rtr \<Rightarrow> (int \<times> rtr) option" where
  "pl_release_buf_all pd s =
     (case split_first (\<lambda>p. pid p = pd) (pl s) of
        None \<Rightarrow> Some (-1, s)
      | Some _ \<Rightarrow> map_option (\<lambda>s'. (0, s')) (release_all pd s))"

section \<open>Connections\<close>

definition new_pl :: "int \<Rightarrow> int \<Rightarrow> string \<Rightarrow> rtr \<Rightarrow> bool \<times> rtr" where
  "new_pl i f nm s =
     (case malloc s of
        (None, s1) \<Rightarrow> (False, s1)
      | (Some _, s1) \<Rightarrow>
          (True, s1\<lparr>pl := pl s1 @ [\<lparr>pid = i, flag = f, cnt = 0, cnt_total = 0, c_time = now s1, l_time = now s1,
                                  bl = [], pname = strncpy RTR_NAME_LEN nm\<rparr>]\<rparr>))"

definition remove_pl :: "int \<Rightarrow> rtr \<Rightarrow> (int \<times> rtr) option" where
  "remove_pl pd s =
     (case pl_release_buf_all pd s of
        None \<Rightarrow> None
      | Some (_, s1) \<Rightarrow>
          (case split_first (\<lambda>p. pid p = pd) (pl s1) of
             None \<Rightarrow> Some (-1, s1)
           | Some (pre, _, post) \<Rightarrow> Some (0, s1\<lparr>pl := pre @ post\<rparr>)))"

section \<open>Requests of writers\<close>

text \<open>
  Codes of \<^verbatim>\<open>get_buf\<close>: 0 with the node handed out, 2 pending, -1 refused, -2 unknown process.
  When \<^verbatim>\<open>new_bl\<close> fails the block goes back to the free list as it is (with its count still 1).
\<close>

definition get_buf :: "int \<Rightarrow> int \<Rightarrow> rtr \<Rightarrow> int \<times> rtr_shmbuf option \<times> rtr" where
  "get_buf pd n0 s =
     (case split_first (\<lambda>p. pid p = pd) (pl s) of
        None \<Rightarrow> (-2, None, s)
      | Some (pre, p, post) \<Rightarrow>
          if flag p AND O_WRONLY = 0 then (-1, None, s)
          else if cnt p \<ge> RTR_MAXWRITEBUF then (2, None, s)
          else
            let n = round4 n0 in
            if n > shmsize s then (-1, None, s)
            else
              (case get_shm n s of
                 (None, s1) \<Rightarrow> (2, None, s1)
               | (Some i, s1) \<Rightarrow>
                   let s2 = shm_inc i s1 in
                   (case malloc s2 of
                      (None, s3) \<Rightarrow>
                        (case split_first (\<lambda>b. sid b = i) (shm_used s3) of
                           None \<Rightarrow> (-1, None, s3)
                         | Some (upre, b, upost) \<Rightarrow>
                             (-1, None, s3\<lparr>shm_used := upre @ upost,
                                          shm_free := snd (shm_free_insert b (shm_free s3))\<rparr>))
                    | (Some _, s3) \<Rightarrow>
                        (0, find (\<lambda>b. sid b = i) (shm_used s3),
                         s3\<lparr>pl := pre @ grab i (now s3) p # post, msg_count := msg_count s3 + 1\<rparr>))))"

section \<open>The dispatcher\<close>

text \<open>\<^verbatim>\<open>case RTR_CONNECT\<close>.\<close>

definition msg_connect :: "rtr_msg \<Rightarrow> rtr \<Rightarrow> rtr" where
  "msg_connect m s =
     (if \<exists>p \<in> set (pl s). pid p = mpid m then s
      else if arg0 m \<noteq> O_RDONLY \<and> arg0 m \<noteq> O_WRONLY \<and> arg0 m \<noteq> O_SAMPLE
        then snd (send_msg (mpid m) RTR_REFUSE 0 0 0 s)
      else if arg1 m < ROUTER_VERSION_MIN then snd (send_msg (mpid m) RTR_REFUSE 0 0 0 s)
      else if arg1 m > ROUTER_VERSION then snd (send_msg (mpid m) RTR_REFUSE 0 0 0 s)
      else
        (case new_pl (mpid m) (arg0 m) (mname m) s of
           (False, s1) \<Rightarrow> snd (send_msg (mpid m) RTR_REFUSE 0 0 0 s1)
         | (True, s1) \<Rightarrow> snd (send_msg (mpid m) RTR_CONNECT 0 0 0 s1)))"

text \<open>
  \<^verbatim>\<open>case RTR_DISCONNECT\<close>: first the messages to the process that are still in the overflow queue (every
  one of them is treated as a buffer, and \<^verbatim>\<open>que_count\<close> is not adjusted), then those in the kernel's
  queues, then the buffers the process holds.
\<close>

fun disc_que :: "int \<Rightarrow> rtr_msg list \<Rightarrow> rtr \<Rightarrow> (rtr_msg list \<times> rtr) option" where
  "disc_que pd [] s = Some ([], s)"
| "disc_que pd (m # ms) s =
     (if mtype m = pd then
        (case release_buf pd (arg0 m) (-1) s of
           None \<Rightarrow> None
         | Some (_, s1) \<Rightarrow> disc_que pd ms s1)
      else
        (case disc_que pd ms s of None \<Rightarrow> None | Some (ms', s1) \<Rightarrow> Some (m # ms', s1)))"

lemma msgrcv_nowait_length: "msgrcv_nowait t q = Inr (m, q') \<Longrightarrow> length (mq_msgs q') < length (mq_msgs q)"
  by (auto simp: msgrcv_nowait_def split: if_splits option.splits dest!: split_first_SomeD)

text \<open>
  The receive loops take messages of the process until none is left. A release with size -1 does not
  touch a queue, so taking them all first is the same as releasing after each receive.
\<close>

function drain_q :: "int \<Rightarrow> msgq \<Rightarrow> rtr_msg list \<times> msgq" where
  "drain_q t q =
     (case msgrcv_nowait t q of
        Inl _ \<Rightarrow> ([], q)
      | Inr (m, q') \<Rightarrow> (case drain_q t q' of (ms, q'') \<Rightarrow> (m # ms, q'')))"
  by pat_completeness auto
termination
  by (relation "measure (\<lambda>(t, q). length (mq_msgs q))") (auto dest: msgrcv_nowait_length)

declare drain_q.simps [simp del]

fun release_msgs :: "int \<Rightarrow> rtr_msg list \<Rightarrow> rtr \<Rightarrow> rtr option" where
  "release_msgs pd [] s = Some s"
| "release_msgs pd (m # ms) s =
     (if cmd m = RTR_BUFFER then
        (case release_buf pd (arg0 m) (-1) s of
           None \<Rightarrow> None
         | Some (_, s1) \<Rightarrow> release_msgs pd ms s1)
      else release_msgs pd ms s)"

definition msg_disconnect :: "rtr_msg \<Rightarrow> rtr \<Rightarrow> rtr option" where
  "msg_disconnect m s =
     (case disc_que (mpid m) (que s) s of
        None \<Rightarrow> None
      | Some (qs, s1) \<Rightarrow>
          (case drain_q (mpid m) (q_out s1) of
             (ms, qo) \<Rightarrow>
               (case release_msgs (mpid m) ms (s1\<lparr>que := qs, q_out := qo\<rparr>) of
                  None \<Rightarrow> None
                | Some s2 \<Rightarrow>
                    (case drain_q (mpid m) (q_in s2) of
                       (ms', qi) \<Rightarrow>
                         (case release_msgs (mpid m) ms' (s2\<lparr>q_in := qi\<rparr>) of
                            None \<Rightarrow> None
                          | Some s3 \<Rightarrow> map_option snd (remove_pl (mpid m) s3))))))"

text \<open>\<^verbatim>\<open>case RTR_RELEASE\<close>: a writer waits while a consumer that must get all buffers is full.\<close>

definition msg_release :: "rtr_msg \<Rightarrow> rtr \<Rightarrow> (int \<times> rtr) option" where
  "msg_release m s =
     (if flag_of (mpid m) s AND O_WRONLY \<noteq> 0 \<and> check_max_buf s \<noteq> 0 then Some (1, s)
      else map_option (\<lambda>(r, s'). (0, s')) (release_buf (mpid m) (arg0 m) (arg1 m) s))"

definition msg_getbuf :: "rtr_msg \<Rightarrow> rtr \<Rightarrow> int \<times> rtr" where
  "msg_getbuf m s =
     (case get_buf (mpid m) (arg0 m) s of
        (r, b, s1) \<Rightarrow>
          if r = -1 then (0, snd (send_msg (mpid m) RTR_REFUSE 0 0 0 s1))
          else if r = 2 then (1, s1)
          else if r = 0 then
            (case b of
               None \<Rightarrow> (0, s1)
             | Some shm \<Rightarrow> (0, snd (send_msg (mpid m) RTR_BUFFER (sbuf shm) (ssize shm) 0 s1)))
          else (0, s1))"

text \<open>\<^verbatim>\<open>message()\<close>: 0 done, 1 pending, -1 terminate.\<close>

definition message :: "rtr_msg \<Rightarrow> rtr \<Rightarrow> (int \<times> rtr) option" where
  "message m s =
     (if cmd m = RTR_CONNECT then Some (0, msg_connect m s)
      else if cmd m = RTR_DISCONNECT then map_option (\<lambda>s'. (0, s')) (msg_disconnect m s)
      else if cmd m = RTR_RELEASE then msg_release m s
      else if cmd m = RTR_GETBUF then Some (msg_getbuf m s)
      else if cmd m = RTR_STATUS then Some (0, s)
      else if cmd m = RTR_TERMINATE then Some (-1, s\<lparr>end_flag := True\<rparr>)
      else Some (0, s))"

section \<open>What the handlers leave alone\<close>

definition env :: "rtr \<Rightarrow> rtr_msg list \<times> int \<times> int \<times> string \<times> int \<times> (nat \<Rightarrow> bool)" where
  "env s = (mb s, shmsize s, max_num_msg s, proc_name s, now s, mok s)"

lemma malloc_frame [frame_simps]:
  "env (snd (malloc s)) = env s" "q_in (snd (malloc s)) = q_in s"
  by (simp_all add: env_def)

lemma send_msg_frame [frame_simps]:
  "fst (send_msg t c a1 a2 a3 s) = 0"
  "env (snd (send_msg t c a1 a2 a3 s)) = env s" "q_in (snd (send_msg t c a1 a2 a3 s)) = q_in s"
  "pl (snd (send_msg t c a1 a2 a3 s)) = pl s" "shm_used (snd (send_msg t c a1 a2 a3 s)) = shm_used s"
  "shm_free (snd (send_msg t c a1 a2 a3 s)) = shm_free s" "msg_count (snd (send_msg t c a1 a2 a3 s)) = msg_count s"
  "stat (snd (send_msg t c a1 a2 a3 s)) = stat s" "end_flag (snd (send_msg t c a1 a2 a3 s)) = end_flag s"
  by (auto simp: send_msg_def que_msg_def que_snd_def env_def malloc_def Let_def split: prod.splits)

lemma shm_inc_frame [frame_simps]:
  "env (shm_inc i s) = env s" "q_in (shm_inc i s) = q_in s" "pl (shm_inc i s) = pl s"
  "shm_free (shm_inc i s) = shm_free s" "msg_count (shm_inc i s) = msg_count s" "next_id (shm_inc i s) = next_id s"
  "que (shm_inc i s) = que s" "q_out (shm_inc i s) = q_out s" "mok (shm_inc i s) = mok s" "now (shm_inc i s) = now s"
  "shmsize (shm_inc i s) = shmsize s" "stat (shm_inc i s) = stat s" "que_count (shm_inc i s) = que_count s"
  by (simp_all add: shm_inc_def env_def)

lemma env_upd [frame_simps]:
  "env (s\<lparr>msg_count := c\<rparr>) = env s" "env (s\<lparr>pl := ps\<rparr>) = env s" "env (s\<lparr>stat := st\<rparr>) = env s"
  "env (s\<lparr>shm_used := u\<rparr>) = env s" "env (s\<lparr>shm_free := f\<rparr>) = env s" "env (s\<lparr>next_id := i\<rparr>) = env s"
  "env (s\<lparr>que := q\<rparr>) = env s" "env (s\<lparr>q_out := k\<rparr>) = env s" "env (s\<lparr>q_in := k\<rparr>) = env s"
  "env (s\<lparr>que_count := c\<rparr>) = env s" "env (s\<lparr>end_flag := e\<rparr>) = env s"
  by (simp_all add: env_def)

text \<open>The state after one consumer has been served, and the loop in terms of it.\<close>

definition served :: "rtr_shmbuf \<Rightarrow> int \<Rightarrow> rtr_proc \<Rightarrow> rtr \<Rightarrow> rtr" where
  "served shm n p s =
     shm_inc (sid shm)
       ((snd (send_msg (pid p) RTR_BUFFER (sbuf shm) n 0 (snd (malloc s))))\<lparr>msg_count := msg_count s + 1\<rparr>)"

definition skipped :: "rtr_proc \<Rightarrow> bool" where
  "skipped p \<longleftrightarrow> flag p AND O_WRONLY \<noteq> 0 \<or> flag p AND O_SAMPLE \<noteq> 0 \<and> cnt p \<ge> RTR_MAXSAMPBUF"

lemma send_buf_loop_Cons:
  "send_buf_loop shm n (p # ps) s =
     (if skipped p then (case send_buf_loop shm n ps s of (r, ps', s') \<Rightarrow> (r, p # ps', s'))
      else if flag p AND O_SAMPLE = 0 \<and> cnt p \<ge> RTR_MAXSENDBUF then (-1, p # ps, s)
      else if \<not> mok s (next_id s) then (-1, p # ps, snd (malloc s))
      else (case send_buf_loop shm n ps (served shm n p s) of
              (r, ps', s') \<Rightarrow> (r, grab (sid shm) (now s) p # ps', s')))"
  unfolding skipped_def served_def send_buf_loop.simps(2)
  by (simp add: malloc_def split_beta frame_simps)

declare send_buf_loop.simps(2) [simp del]

lemma served_frame [frame_simps]:
  "env (served shm n p s) = env s" "q_in (served shm n p s) = q_in s"
  "pl (served shm n p s) = pl s" "shm_free (served shm n p s) = shm_free s"
  "msg_count (served shm n p s) = msg_count s + 1" "stat (served shm n p s) = stat s"
  by (simp_all add: served_def frame_simps)

lemma send_buf_loop_frame:
  "send_buf_loop shm n ps s = (r, ps', s') \<Longrightarrow> env s' = env s \<and> q_in s' = q_in s"
proof (induction ps arbitrary: s r ps' s')
  case (Cons p ps)
  from Cons.prems show ?case
    by (auto simp: send_buf_loop_Cons frame_simps split: if_splits prod.splits dest!: Cons.IH)
qed simp

lemma send_buf_frame: "send_buf shm n s = (r, s') \<Longrightarrow> env s' = env s \<and> q_in s' = q_in s"
  by (auto simp: send_buf_def Let_def frame_simps split: if_splits prod.splits dest!: send_buf_loop_frame)

lemma drop_ref_frame: "drop_ref pd b s = Some s1 \<Longrightarrow> env s1 = env s \<and> q_in s1 = q_in s"
  by (auto simp: drop_ref_def frame_simps split: option.splits)

lemma shm_put_env [frame_simps]: "env (shm_put i s) = env s"
  by (auto simp: shm_put_def Let_def frame_simps split: option.splits)

lemma release_buf_frame: "release_buf pd b n s = Some (r, s') \<Longrightarrow> env s' = env s \<and> q_in s' = q_in s"
  by (auto simp: release_buf_def Let_def frame_simps split: option.splits if_splits prod.splits
      dest!: drop_ref_frame send_buf_frame)

lemma get_shm_frame: "get_shm n s = (r, s') \<Longrightarrow> env s' = env s \<and> q_in s' = q_in s"
  by (auto simp: get_shm_def malloc_def Let_def frame_simps split: option.splits if_splits prod.splits)

lemma get_buf_frame: "get_buf pd n s = (r, b, s') \<Longrightarrow> env s' = env s \<and> q_in s' = q_in s"
  by (auto simp: get_buf_def Let_def malloc_def frame_simps split: option.splits if_splits prod.splits
      dest!: get_shm_frame)

lemma release_all_frame: "release_all pd s = Some s' \<Longrightarrow> env s' = env s \<and> q_in s' = q_in s"
proof (induction pd s rule: release_all.induct)
  case (1 pd s)
  note eq = "1.prems" [unfolded release_all.simps [of pd s]]
  show ?case
  proof (cases "split_first (\<lambda>p. pid p = pd) (pl s)")
    case (Some q)
    obtain pre p post where q: "q = (pre, p, post)" by (cases q) auto
    show ?thesis
    proof (cases "bl p")
      case (Cons i js)
      with eq Some q obtain b r s1 where at: "shm_at s i = Some b"
        and rel: "release_buf pd (sbuf b) (-1) s = Some (r, s1)" and rest: "release_all pd s1 = Some s'"
        by (auto split: option.splits)
      from "1.IH" [OF Some q [symmetric] refl Cons at rel refl rest] release_buf_frame [OF rel]
      show ?thesis by simp
    qed (use eq Some q in simp)
  qed (use eq in simp)
qed

lemma remove_pl_frame: "remove_pl pd s = Some (r, s') \<Longrightarrow> env s' = env s \<and> q_in s' = q_in s"
  by (auto simp: remove_pl_def pl_release_buf_all_def frame_simps split: option.splits prod.splits
      dest!: release_all_frame)

lemma disc_que_frame: "disc_que pd ms s = Some (ms', s') \<Longrightarrow> env s' = env s \<and> q_in s' = q_in s"
proof (induction pd ms s arbitrary: ms' s' rule: disc_que.induct)
  case (2 pd m ms s)
  then show ?case
    by (auto split: if_splits option.splits dest!: release_buf_frame)
qed simp

lemma release_msgs_frame: "release_msgs pd ms s = Some s' \<Longrightarrow> env s' = env s \<and> q_in s' = q_in s"
proof (induction pd ms s rule: release_msgs.induct)
  case (2 pd m ms s)
  then show ?case
    by (auto split: if_splits option.splits dest!: release_buf_frame)
qed simp

lemma drain_q_length: "drain_q t q = (ms, q') \<Longrightarrow> length (mq_msgs q') \<le> length (mq_msgs q)"
proof (induction t q arbitrary: ms q' rule: drain_q.induct)
  case (1 t q)
  show ?case
  proof (cases "msgrcv_nowait t q")
    case (Inl e)
    with "1.prems" show ?thesis by (simp add: drain_q.simps [of t q])
  next
    case (Inr x)
    obtain m q1 where x: "x = (m, q1)" by (cases x)
    obtain ms1 where "drain_q t q1 = (ms1, q')"
      using "1.prems" Inr x by (auto simp: drain_q.simps [of t q] split: prod.splits)
    from "1.IH" [OF Inr x [symmetric] this] msgrcv_nowait_length [OF Inr [unfolded x]] show ?thesis by simp
  qed
qed

lemma msg_disconnect_frame:
  assumes "msg_disconnect m s = Some s'"
  shows "env s' = env s \<and> length (mq_msgs (q_in s')) \<le> length (mq_msgs (q_in s))"
proof -
  obtain qs s1 where 1: "disc_que (mpid m) (que s) s = Some (qs, s1)"
    using assms by (auto simp: msg_disconnect_def split: option.splits)
  obtain ms qo where 2: "drain_q (mpid m) (q_out s1) = (ms, qo)" by fastforce
  obtain s2 where 3: "release_msgs (mpid m) ms (s1\<lparr>que := qs, q_out := qo\<rparr>) = Some s2"
    using assms 1 2 by (auto simp: msg_disconnect_def split: option.splits)
  obtain ms' qi where 4: "drain_q (mpid m) (q_in s2) = (ms', qi)" by fastforce
  obtain s3 where 5: "release_msgs (mpid m) ms' (s2\<lparr>q_in := qi\<rparr>) = Some s3"
    using assms 1 2 3 4 by (auto simp: msg_disconnect_def split: option.splits)
  obtain r where 6: "remove_pl (mpid m) s3 = Some (r, s')"
    using assms 1 2 3 4 5 by (auto simp: msg_disconnect_def)
  from disc_que_frame [OF 1] release_msgs_frame [OF 3] release_msgs_frame [OF 5]
    remove_pl_frame [OF 6] drain_q_length [OF 4]
  show ?thesis by (simp add: frame_simps)
qed

lemma msg_connect_frame: "env (msg_connect m s) = env s \<and> q_in (msg_connect m s) = q_in s"
  by (auto simp: msg_connect_def new_pl_def malloc_def frame_simps split: prod.splits bool.splits)

lemma msg_getbuf_frame: "msg_getbuf m s = (r, s') \<Longrightarrow> env s' = env s \<and> q_in s' = q_in s"
  by (auto simp: msg_getbuf_def frame_simps split: prod.splits if_splits option.splits dest!: get_buf_frame)

lemma message_frame:
  assumes "message m s = Some (r, s')"
  shows "env s' = env s \<and> length (mq_msgs (q_in s')) \<le> length (mq_msgs (q_in s))"
  using assms
  by (auto simp: message_def msg_release_def frame_simps split: if_splits
      dest!: msg_disconnect_frame release_buf_frame msg_getbuf_frame)
     (use msg_connect_frame [of m s] in simp_all)

lemma message_frame_mb: "message m s = Some (r, s') \<Longrightarrow> mb s' = mb s"
  using message_frame [of m s r s'] by (simp add: env_def)

section \<open>The listener\<close>

text \<open>
  \<^verbatim>\<open>do_listen\<close> first retries the pending messages in their order. The first argument collects the
  messages that stay pending; \<open>None\<close> as the code means that the walk reached the head node.
\<close>

fun do_pending :: "rtr_msg list \<Rightarrow> rtr_msg list \<Rightarrow> rtr \<Rightarrow> (int option \<times> rtr) option" where
  "do_pending pre [] s = Some (None, s)"
| "do_pending pre (m # ms) s =
     (case message m s of
        None \<Rightarrow> None
      | Some (r, s') \<Rightarrow>
          if r = 0 then Some (Some 0, s'\<lparr>mb := pre @ ms\<rparr>)
          else if r = 1 then do_pending (pre @ [m]) ms s'
          else Some (Some 1, s'))"

text \<open>
  Then it receives. The call blocks when no message for the router is there: \<open>Blocked\<close>. A message
  that cannot be served yet is put at the end of the pending list and the next one is received.
\<close>

datatype listen_result = Ret int | Blocked

function do_receive :: "rtr \<Rightarrow> (listen_result \<times> rtr) option" where
  "do_receive s =
     (case msgrcv_nowait RTR_MTYPE_ROUTER (q_in s) of
        Inl e \<Rightarrow> Some (if e = ENOMSG then Blocked else Ret (-1), s)
      | Inr (m, q') \<Rightarrow>
          let m' = m\<lparr>mname := strncpy RTR_NAME_LEN (mname m)\<rparr> in
          (case message m' (s\<lparr>q_in := q'\<rparr>) of
             None \<Rightarrow> None
           | Some (r, s1) \<Rightarrow>
               if r = 0 then Some (Ret 0, s1)
               else if r = 1 then
                 (case malloc s1 of
                    (None, s2) \<Rightarrow> do_receive s2
                  | (Some _, s2) \<Rightarrow> do_receive (s2\<lparr>mb := mb s2 @ [m']\<rparr>))
               else Some (Ret 1, s1)))"
  by pat_completeness auto
termination
  by (relation "measure (\<lambda>s. length (mq_msgs (q_in s)))")
     (auto simp: malloc_def dest!: message_frame msgrcv_nowait_length split: if_splits)

declare do_receive.simps [simp del]

definition do_listen :: "rtr \<Rightarrow> (listen_result \<times> rtr) option" where
  "do_listen s =
     (let s0 = snd (que_snd s) in
      case do_pending [] (mb s0) s0 of
        None \<Rightarrow> None
      | Some (Some r, s1) \<Rightarrow> Some (Ret r, s1)
      | Some (None, s1) \<Rightarrow> do_receive s1)"

text \<open>Every iteration that returns 0 has served one message, so the loop of \<^verbatim>\<open>listen()\<close> gets to a point
  where it stops or waits.\<close>

definition work :: "rtr \<Rightarrow> nat" where
  "work s = length (mb s) + length (mq_msgs (q_in s))"

lemma que_snd_frame [frame_simps]:
  "env (snd (que_snd s)) = env s" "q_in (snd (que_snd s)) = q_in s" "end_flag (snd (que_snd s)) = end_flag s"
  by (auto simp: que_snd_def env_def split: prod.splits)

lemma do_pending_work:
  assumes "do_pending pre ms s = Some (r, s')" and "mb s = pre @ ms"
  shows "(r = Some 0 \<longrightarrow> work s' < work s) \<and> (r = None \<longrightarrow> mb s' = mb s \<and> work s' \<le> work s)"
  using assms
proof (induction pre ms s arbitrary: r s' rule: do_pending.induct)
  case (2 pre m ms s)
  from "2.prems"(1) obtain c s1 where m: "message m s = Some (c, s1)"
    by (auto split: option.splits)
  note fr = message_frame [OF m]
  have mb1: "mb s1 = mb s" using fr by (simp add: env_def)
  show ?case
  proof (cases "c = 1")
    case True
    from "2.IH" [OF m refl _ True, of r s'] "2.prems" m True mb1 fr show ?thesis
      by (auto simp: work_def)
  next
    case False
    with "2.prems" m fr show ?thesis by (auto simp: work_def split: if_splits)
  qed
qed simp

lemma do_receive_work: "do_receive s = Some (Ret 0, s') \<Longrightarrow> work s' < work s"
proof (induction s rule: do_receive.induct)
  case (1 s)
  note eq = "1.prems" [unfolded do_receive.simps [of s]]
  from eq obtain m q' where rc: "msgrcv_nowait RTR_MTYPE_ROUTER (q_in s) = Inr (m, q')"
    by (auto split: sum.splits if_splits)
  let ?m = "m\<lparr>mname := strncpy RTR_NAME_LEN (mname m)\<rparr>"
  from eq rc obtain r s1 where ms: "message ?m (s\<lparr>q_in := q'\<rparr>) = Some (r, s1)"
    by (auto simp: Let_def split: option.splits)
  note len = msgrcv_nowait_length [OF rc] and fr = message_frame [OF ms]
  have mb1: "mb s1 = mb s" using fr by (simp add: env_def)
  show ?case
  proof (cases "r = 1")
    case False
    with eq rc ms len fr mb1 show ?thesis by (auto simp: Let_def work_def split: if_splits)
  next
    case True
    define s2 where "s2 = snd (malloc s1)"
    show ?thesis
    proof (cases "mok s1 (next_id s1)")
      case mok: True
      then have ma: "malloc s1 = (Some (next_id s1), s2)" by (simp add: malloc_def s2_def)
      with eq rc ms True have "do_receive (s2\<lparr>mb := mb s2 @ [?m]\<rparr>) = Some (Ret 0, s')"
        by (simp add: Let_def)
      with "1.IH" rc ms True ma have "work s' < work (s2\<lparr>mb := mb s2 @ [?m]\<rparr>)" by simp
      with len fr mb1 show ?thesis by (simp add: work_def s2_def)
    next
      case mok: False
      then have ma: "malloc s1 = (None, s2)" by (simp add: malloc_def s2_def)
      with eq rc ms True have "do_receive s2 = Some (Ret 0, s')"
        by (simp add: Let_def)
      with "1.IH" rc ms True ma have "work s' < work s2" by simp
      with len fr mb1 show ?thesis by (simp add: work_def s2_def)
    qed
  qed
qed

lemma do_listen_work: "do_listen s = Some (Ret 0, s') \<Longrightarrow> work s' < work s"
proof -
  assume a: "do_listen s = Some (Ret 0, s')"
  let ?s = "snd (que_snd s)"
  have w: "work ?s = work s" "mb ?s = mb s"
    using que_snd_frame [of s] by (simp_all add: work_def env_def)
  from a obtain r s1 where p: "do_pending [] (mb ?s) ?s = Some (r, s1)"
    by (auto simp: do_listen_def Let_def split: option.splits)
  note dp = do_pending_work [OF p]
  show ?thesis
  proof (cases r)
    case None
    with a p have "do_receive s1 = Some (Ret 0, s')" by (simp add: do_listen_def Let_def)
    with do_receive_work dp None w show ?thesis by fastforce
  next
    case (Some c)
    with a p dp w show ?thesis by (simp add: do_listen_def Let_def)
  qed
qed

text \<open>\<^verbatim>\<open>while(!end_flag){ if(do_listen(0)) break; }\<close>, up to the point where it ends or waits for a message.\<close>

datatype listen_end = Ended | Waiting

function listen_loop :: "rtr \<Rightarrow> (listen_end \<times> rtr) option" where
  "listen_loop s =
     (if end_flag s then Some (Ended, s)
      else case do_listen s of
             None \<Rightarrow> None
           | Some (Blocked, s1) \<Rightarrow> Some (Waiting, s1)
           | Some (Ret r, s1) \<Rightarrow> if r \<noteq> 0 then Some (Ended, s1) else listen_loop s1)"
  by pat_completeness auto
termination
  by (relation "measure work") (auto dest: do_listen_work)

declare listen_loop.simps [simp del]

definition listen_init :: "rtr \<Rightarrow> rtr" where
  "listen_init s = s\<lparr>mb := [], que := [], que_count := 0, end_flag := False\<rparr>"

definition listen :: "rtr \<Rightarrow> (listen_end \<times> rtr) option" where
  "listen s = listen_loop (listen_init s)"

end
