(* ===== verification/Router_Inv.thy ===== *)
theory Router_Inv
  imports Router_Listen
begin

text \<open>
  The invariant of the router and its preservation. It ties the allocator, the reference counts, the
  buffer lists of the processes and the message counter together: every block in use is referred to
  by exactly as many buffer list entries as its count says, so a buffer goes back to the free list when
  the last holder gives it up and not before.
\<close>

section \<open>References\<close>

definition refs :: "rtr_proc list \<Rightarrow> nat \<Rightarrow> nat" where
  "refs ps i = sum_list (map (\<lambda>p. count_list (bl p) i) ps)"

definition nheld :: "rtr_proc list \<Rightarrow> nat" where
  "nheld ps = sum_list (map (\<lambda>p. length (bl p)) ps)"

lemma refs_simps [simp]:
  "refs [] i = 0" "refs (p # ps) i = count_list (bl p) i + refs ps i" "refs (ps @ qs) i = refs ps i + refs qs i"
  by (simp_all add: refs_def)

lemma total_simps [simp]:
  "nheld [] = 0" "nheld (p # ps) = length (bl p) + nheld ps" "nheld (ps @ qs) = nheld ps + nheld qs"
  by (simp_all add: nheld_def)

lemma refs_pos_iff: "0 < refs ps i \<longleftrightarrow> (\<exists>p \<in> set ps. i \<in> set (bl p))"
  by (induction ps) (auto simp: count_list_0_iff)

section \<open>Limits\<close>

text \<open>The modes a connection can have, and how many buffers it may hold in each.\<close>

definition limit_of :: "int \<Rightarrow> int" where
  "limit_of f = (if f = O_WRONLY then RTR_MAXWRITEBUF else if f = O_SAMPLE then RTR_MAXSAMPBUF else RTR_MAXSENDBUF)"

definition proc_ok :: "nat set \<Rightarrow> rtr_proc \<Rightarrow> bool" where
  "proc_ok ids p \<longleftrightarrow>
     flag p \<in> {O_RDONLY, O_WRONLY, O_SAMPLE} \<and> cnt p = int (length (bl p)) \<and> cnt p \<le> limit_of (flag p) \<and>
     set (bl p) \<subseteq> ids"

lemma flag_bits [simp]:
  "O_RDONLY AND O_WRONLY = 0" "O_SAMPLE AND O_WRONLY = 0" "O_WRONLY AND O_WRONLY = 1"
  "O_RDONLY AND O_SAMPLE = 0" "O_SAMPLE AND O_SAMPLE = 8" "O_WRONLY AND O_SAMPLE = 0"
  "O_RDONLY AND (O_WRONLY OR O_SAMPLE) = 0" "O_WRONLY AND (O_WRONLY OR O_SAMPLE) = 1"
  "O_SAMPLE AND (O_WRONLY OR O_SAMPLE) = 8"
  by (simp_all add: rtr_consts)

lemma flag_neq [simp]: "O_RDONLY \<noteq> O_WRONLY" "O_RDONLY \<noteq> O_SAMPLE" "O_WRONLY \<noteq> O_SAMPLE"
  "O_WRONLY \<noteq> O_RDONLY" "O_SAMPLE \<noteq> O_RDONLY" "O_SAMPLE \<noteq> O_WRONLY" "O_WRONLY \<noteq> 0" "O_SAMPLE \<noteq> 0"
  by (simp_all add: rtr_consts)

lemma proc_ok_mono: "proc_ok ids p \<Longrightarrow> ids \<subseteq> ids' \<Longrightarrow> proc_ok ids' p"
  by (auto simp: proc_ok_def)

lemma proc_ok_limit_pos: "proc_ok ids p \<Longrightarrow> 0 \<le> cnt p"
  by (simp add: proc_ok_def)

section \<open>The invariant\<close>

text \<open>
  \<open>owed d i\<close> is a reference to node \<open>i\<close> that has left the buffer lists but not the count yet; between
  messages there is none (\<open>d = None\<close>).
\<close>

definition owed :: "nat option \<Rightarrow> nat \<Rightarrow> nat" where
  "owed d i = (if d = Some i then 1 else 0)"

definition ref_ok :: "nat option \<Rightarrow> rtr_proc list \<Rightarrow> rtr_shmbuf \<Rightarrow> bool" where
  "ref_ok d ps b \<longleftrightarrow> 0 < scount b \<and> scount b = int (refs ps (sid b)) + int (owed d (sid b))"

definition heap_ok :: "rtr \<Rightarrow> bool" where
  "heap_ok s \<longleftrightarrow>
     distinct (map sid (shm_used s @ shm_free s)) \<and>
     (\<forall>b \<in> set (shm_used s @ shm_free s). sid b < next_id s) \<and>
     shm.tiled {0 ..< shmsize s} (shm_used s) (shm_free s) \<and>
     (\<forall>b \<in> set (shm_free s). scount b = 0) \<and> 0 < shmsize s"

definition rtr_inv_owed :: "nat option \<Rightarrow> rtr \<Rightarrow> bool" where
  "rtr_inv_owed d s \<longleftrightarrow>
     heap_ok s \<and>
     distinct (map pid (pl s)) \<and>
     (\<forall>p \<in> set (pl s). proc_ok (sid ` set (shm_used s)) p) \<and>
     (\<forall>b \<in> set (shm_used s). ref_ok d (pl s) b) \<and>
     msg_count s = int (nheld (pl s)) + (if d = None then 0 else 1)"

definition rtr_inv :: "rtr \<Rightarrow> bool" where
  "rtr_inv s \<longleftrightarrow> rtr_inv_owed None s"

lemma heap_ok_cong:
  assumes "heap_ok s" and "shm_used s' = shm_used s" and "shm_free s' = shm_free s" and "shmsize s' = shmsize s"
    and "next_id s \<le> next_id s'"
  shows "heap_ok s'"
  using assms by (auto simp: heap_ok_def dest: bspec intro: less_le_trans)

lemma rtr_inv_cong:
  assumes "rtr_inv_owed d s" and "shm_used s' = shm_used s" and "shm_free s' = shm_free s" and "shmsize s' = shmsize s"
    and "next_id s \<le> next_id s'" and "pl s' = pl s" and "msg_count s' = msg_count s"
  shows "rtr_inv_owed d s'"
proof -
  have "heap_ok s'"
    using assms heap_ok_cong [of s s'] by (simp add: rtr_inv_owed_def)
  with assms show ?thesis unfolding rtr_inv_owed_def by metis
qed

lemma rtr_inv_next_id: "rtr_inv_owed d s \<Longrightarrow> next_id s \<le> k \<Longrightarrow> rtr_inv_owed d (s\<lparr>next_id := k\<rparr>)"
  by (rule rtr_inv_cong) simp_all

lemma heap_okI:
  assumes "distinct (map sid us)" and "distinct (map sid fs)" and "sid ` set us \<inter> sid ` set fs = {}"
    and "\<And>i. i \<in> sid ` set us \<union> sid ` set fs \<Longrightarrow> i < next_id s"
    and "shm.tiled {0 ..< shmsize s} us fs" and "\<forall>b \<in> set fs. scount b = 0"
    and "shm_used s = us" and "shm_free s = fs" and "0 < shmsize s"
  shows "heap_ok s"
  using assms by (auto simp: heap_ok_def)

lemma heap_okD:
  assumes "heap_ok s"
  shows "distinct (map sid (shm_used s))" "distinct (map sid (shm_free s))"
    "sid ` set (shm_used s) \<inter> sid ` set (shm_free s) = {}"
    "i \<in> sid ` set (shm_used s) \<union> sid ` set (shm_free s) \<Longrightarrow> i < next_id s"
    "shm.tiled {0 ..< shmsize s} (shm_used s) (shm_free s)" "\<forall>b \<in> set (shm_free s). scount b = 0"
    "0 < shmsize s"
  using assms by (auto simp: heap_ok_def)

lemma rtr_inv_owedI:
  assumes "heap_ok s" and "distinct (map pid (pl s))"
    and "\<And>p. p \<in> set (pl s) \<Longrightarrow> proc_ok (sid ` set (shm_used s)) p"
    and "\<And>b. b \<in> set (shm_used s) \<Longrightarrow> ref_ok d (pl s) b"
    and "msg_count s = int (nheld (pl s)) + (if d = None then 0 else 1)"
  shows "rtr_inv_owed d s"
  using assms by (auto simp: rtr_inv_owed_def)

lemma rtr_inv_owedD:
  assumes "rtr_inv_owed d s"
  shows "heap_ok s" "distinct (map pid (pl s))" "p \<in> set (pl s) \<Longrightarrow> proc_ok (sid ` set (shm_used s)) p"
    "msg_count s = int (nheld (pl s)) + (if d = None then 0 else 1)"
    "b \<in> set (shm_used s) \<Longrightarrow> ref_ok d (pl s) b"
  using assms by (auto simp: rtr_inv_owed_def)

section \<open>Reference counts\<close>

definition bump :: "nat \<Rightarrow> int \<Rightarrow> rtr_shmbuf list \<Rightarrow> rtr_shmbuf list" where
  "bump i k us = map (\<lambda>b. if sid b = i then b\<lparr>scount := scount b + k\<rparr> else b) us"

lemma shm_inc_bump: "shm_inc i s = s\<lparr>shm_used := bump i 1 (shm_used s)\<rparr>"
  by (simp add: shm_inc_def bump_def)

lemma bump_simps [simp]:
  "bump i 0 us = us" "bump i k (bump i l us) = bump i (k + l) us" "map sid (bump i k us) = map sid us"
  "map bytes (bump i k us) = map bytes us" "map sbuf (bump i k us) = map sbuf us"
  by (auto simp: bump_def comp_def intro!: map_idI)

lemma sids_bump [simp]: "sid ` set (bump i k us) = sid ` set us"
  by (metis bump_simps(3) list.set_map)

lemma bump_append [simp]: "bump i k (us @ vs) = bump i k us @ bump i k vs"
  by (simp add: bump_def)

lemma bump_notin: "i \<notin> sid ` set us \<Longrightarrow> bump i k us = us"
  by (auto simp: bump_def intro!: map_idI)

lemma bump_elem:
  "c \<in> set (bump i k us) \<Longrightarrow>
   \<exists>b \<in> set us. sid c = sid b \<and> sbuf c = sbuf b \<and> ssize c = ssize b \<and> scount c = scount b + (if sid b = i then k else 0)"
  by (auto simp: bump_def)

lemma tiled_bump [simp]: "shm.tiled tot (bump i k us) fs = shm.tiled tot us fs"
  by (rule shm.tiled_cong) simp

lemma heap_ok_bump [simp]: "heap_ok (s\<lparr>shm_used := bump i k (shm_used s)\<rparr>) = heap_ok s"
proof -
  have "(\<forall>b \<in> set (bump i k us). sid b < n) = (\<forall>j \<in> sid ` set (bump i k us). j < n)" for us n
    by blast
  then have "(\<forall>b \<in> set (bump i k us). sid b < n) = (\<forall>b \<in> set us. sid b < n)" for us n
    by simp
  then show ?thesis
    by (simp add: heap_ok_def ball_Un)
qed

section \<open>Distribution keeps the invariant\<close>

lemma grab_simps [simp]:
  "bl (grab i t p) = bl p @ [i]" "pid (grab i t p) = pid p" "flag (grab i t p) = flag p"
  "cnt (grab i t p) = cnt p + 1"
  by (simp_all add: grab_def)

text \<open>What the loop of \<^verbatim>\<open>send_buf\<close> does to the processes: each one is left alone or takes the buffer.\<close>

definition took :: "nat \<Rightarrow> rtr_proc \<Rightarrow> rtr_proc \<Rightarrow> bool" where
  "took i p p' \<longleftrightarrow> p' = p \<or> (\<exists>t. p' = grab i t p) \<and> \<not> skipped p \<and> \<not> must_full p"

lemma took_refs: "list_all2 (took i) ps ps' \<Longrightarrow>
   nheld ps \<le> nheld ps' \<and> refs ps' j = refs ps j + (if j = i then nheld ps' - nheld ps else 0)"
  by (induction rule: list_all2_induct) (auto simp: took_def)

lemma took_pids: "list_all2 (took i) ps ps' \<Longrightarrow> map pid ps' = map pid ps"
  by (induction rule: list_all2_induct) (auto simp: took_def)

lemma took_proc_ok:
  assumes "took i p p'" and "proc_ok ids p" and "i \<in> ids"
  shows "proc_ok ids p'"
proof -
  consider "flag p = O_RDONLY" | "flag p = O_WRONLY" | "flag p = O_SAMPLE"
    using assms(2) by (auto simp: proc_ok_def)
  then show ?thesis
    using assms by cases (auto simp: took_def proc_ok_def skipped_def must_full_def limit_of_def)
qed

lemma took_procs_ok:
  "list_all2 (took i) ps ps' \<Longrightarrow> \<forall>p \<in> set ps. proc_ok ids p \<Longrightarrow> i \<in> ids \<Longrightarrow> \<forall>p \<in> set ps'. proc_ok ids p"
  by (induction rule: list_all2_induct) (auto intro: took_proc_ok)

lemma send_msg_next_id: "next_id s \<le> next_id (snd (send_msg t c a1 a2 a3 s))"
  by (auto simp: send_msg_def que_msg_def que_snd_def malloc_def Let_def split: prod.splits)

lemma served_used: "shm_used (served shm n p s) = bump (sid shm) 1 (shm_used s)"
  by (simp add: served_def shm_inc_bump frame_simps)

lemma served_next_id: "next_id s \<le> next_id (served shm n p s)"
  using send_msg_next_id [of "s\<lparr>next_id := Suc (next_id s)\<rparr>" "pid p" RTR_BUFFER "sbuf shm" n 0]
  by (simp add: served_def shm_inc_def)

lemma mok_served [simp]: "mok (served shm n p s) = mok s" "now (served shm n p s) = now s"
  using served_frame(1) [of shm n p s] by (simp_all add: env_def)

text \<open>With working \<^verbatim>\<open>malloc\<close> and no full consumer the loop serves everybody and returns 0.\<close>

lemma send_buf_loop_ok:
  assumes "\<forall>k. mok s k" and "\<forall>p \<in> set ps. \<not> must_full p" and "send_buf_loop shm n ps s = (r, ps', s')"
  shows "r = 0 \<and> list_all2 (took (sid shm)) ps ps' \<and> shm_free s' = shm_free s \<and>
    shm_used s' = bump (sid shm) (int (nheld ps') - int (nheld ps)) (shm_used s) \<and>
    msg_count s' = msg_count s + (int (nheld ps') - int (nheld ps)) \<and> next_id s \<le> next_id s'"
  using assms
proof (induction ps arbitrary: s r ps' s')
  case (Cons p ps)
  have nf: "\<forall>p \<in> set ps. \<not> must_full p" using Cons.prems by simp
  show ?case
  proof (cases "skipped p")
    case True
    with Cons.prems(3) obtain qs where "send_buf_loop shm n ps s = (r, qs, s')" "ps' = p # qs"
      by (auto simp: send_buf_loop_Cons split: prod.splits)
    with Cons.IH [OF Cons.prems(1) nf, of r qs s'] show ?thesis by (simp add: took_def)
  next
    case False
    have nm: "\<not> (flag p AND O_SAMPLE = 0 \<and> cnt p \<ge> RTR_MAXSENDBUF)"
      using False Cons.prems(2) by (auto simp: skipped_def must_full_def bit.conj_disj_distrib)
    with False Cons.prems(1,3) obtain qs where
      q: "send_buf_loop shm n ps (served shm n p s) = (r, qs, s')" "ps' = grab (sid shm) (now s) p # qs"
      by (auto simp: send_buf_loop_Cons split: prod.splits)
    have "took (sid shm) p (grab (sid shm) (now s) p)"
      using False Cons.prems(2) by (auto simp: took_def)
    moreover have "int (nheld ps') - int (nheld (p # ps)) = int (nheld qs) - int (nheld ps) + 1"
      using q(2) by simp
    ultimately show ?thesis
      using Cons.IH [of "served shm n p s" r qs s', OF _ nf q(1)] Cons.prems(1) q(2) served_next_id [of s shm n p]
      by (simp add: served_used frame_simps algebra_simps)
  qed
qed simp

lemma send_buf_inv:
  assumes inv: "rtr_inv_owed (Some i) s" and i: "i \<in> sid ` set (shm_used s)" and shm: "sid shm = i"
    and mok: "\<forall>k. mok s k" and sb: "send_buf shm n s = (r, s')"
  shows "0 \<le> r \<and> rtr_inv_owed (Some i) s' \<and> sid ` set (shm_used s') = sid ` set (shm_used s)"
proof (cases "\<exists>p \<in> set (pl s). must_full p")
  case True
  with sb inv show ?thesis by (auto simp: send_buf_def Let_def)
next
  case False
  define n' where "n' = (if n > ssize shm then ssize shm else n)"
  obtain c ps s1 where lp: "send_buf_loop shm n' (pl s) s = (c, ps, s1)" by (metis surj_pair)
  have nf: "\<forall>p \<in> set (pl s). \<not> must_full p" using False by blast
  note ok = send_buf_loop_ok [OF mok nf lp]
  let ?k = "int (nheld ps) - int (nheld (pl s))"
  have tk: "list_all2 (took i) (pl s) ps" using ok shm by simp
  have s': "r = 0" "pl s' = ps" "shm_used s' = bump i ?k (shm_used s)" "shm_free s' = shm_free s"
    "msg_count s' = msg_count s + ?k" "shmsize s' = shmsize s" "next_id s \<le> next_id s'"
    using sb ok lp False shm send_buf_loop_frame [OF lp]
    by (auto simp: send_buf_def Let_def n'_def [symmetric] env_def split: if_splits)
  have "heap_ok (s\<lparr>shm_used := bump i ?k (shm_used s)\<rparr>)"
    using inv by (simp add: rtr_inv_owed_def)
  then have "heap_ok s'" by (rule heap_ok_cong) (use s' in simp_all)
  moreover have "distinct (map pid ps)"
    using inv took_pids [OF tk] by (simp add: rtr_inv_owed_def)
  moreover have "\<forall>p \<in> set ps. proc_ok (sid ` set (shm_used s)) p"
    using inv took_procs_ok [OF tk _ i] by (simp add: rtr_inv_owed_def)
  moreover have "ref_ok (Some i) ps c"
    if "c \<in> set (bump i ?k (shm_used s))" for c
  proof -
    obtain b where b: "b \<in> set (shm_used s)" "sid c = sid b" "scount c = scount b + (if sid b = i then ?k else 0)"
      using bump_elem [OF \<open>c \<in> _\<close>] by blast
    from rtr_inv_owedD(5) [OF inv b(1)] b took_refs [OF tk, of "sid b"] show ?thesis
      by (auto simp: ref_ok_def)
  qed
  ultimately have "rtr_inv_owed (Some i) s'"
    using s' rtr_inv_owedD(4) [OF inv] by (intro rtr_inv_owedI) auto
  with s' show ?thesis by simp
qed

section \<open>Release keeps the invariant\<close>

lemma split_used:
  assumes "heap_ok s" and "i \<in> sid ` set (shm_used s)"
  obtains pre b post where "split_first (\<lambda>b. sid b = i) (shm_used s) = Some (pre, b, post)"
    and "shm_used s = pre @ b # post" and "sid b = i" and "i \<notin> sid ` set (pre @ post)"
    and "i \<notin> sid ` set (shm_free s)"
proof -
  from assms(2) obtain b0 where "b0 \<in> set (shm_used s)" "sid b0 = i" by blast
  then obtain pre b post where sf: "split_first (\<lambda>b. sid b = i) (shm_used s) = Some (pre, b, post)"
    using split_first_ex [of b0 "shm_used s" "\<lambda>b. sid b = i"] by blast
  with split_first_SomeD [OF sf] assms(1) show thesis
    by (intro that [OF sf]) (auto simp: heap_ok_def)
qed

lemma shm_put_inv:
  assumes inv: "rtr_inv_owed (Some i) s" and i: "i \<in> sid ` set (shm_used s)"
  shows "rtr_inv_owed None ((shm_put i s)\<lparr>msg_count := msg_count s - 1\<rparr>)"
proof -
  have hp: "heap_ok s" using inv by (simp add: rtr_inv_owed_def)
  obtain pre b post where sf: "split_first (\<lambda>b. sid b = i) (shm_used s) = Some (pre, b, post)"
    and us: "shm_used s = pre @ b # post" and b: "sid b = i" and ni: "i \<notin> sid ` set (pre @ post)"
    and nf: "i \<notin> sid ` set (shm_free s)"
    by (rule split_used [OF hp i])
  have cb: "scount b = int (refs (pl s) i) + 1"
    using rtr_inv_owedD(5) [OF inv, of b] us b by (simp add: ref_ok_def owed_def)
  have rest: "c \<in> set (pre @ post) \<Longrightarrow> ref_ok None (pl s) c" for c
    using rtr_inv_owedD(5) [OF inv, of c] us ni by (auto simp: ref_ok_def owed_def)
  have mc: "msg_count s - 1 = int (nheld (pl s))"
    using inv by (simp add: rtr_inv_owed_def)
  show ?thesis
  proof (cases "scount b - 1 \<le> 0")
    case True
    with cb have r0: "refs (pl s) i = 0" by simp
    let ?b = "b\<lparr>scount := 0\<rparr>"
    let ?fs = "snd (shm_free_insert ?b (shm_free s))"
    have put: "shm_put i s = s\<lparr>shm_used := pre @ post, shm_free := ?fs\<rparr>"
      using sf True by (simp add: shm_put_def)
    have "shm.tiled {0..<shmsize s} (pre @ ?b # post) (shm_free s)"
      using hp us shm.tiled_cong [of "pre @ ?b # post" "pre @ b # post"] by (simp add: heap_ok_def)
    then have tiled: "shm.tiled {0..<shmsize s} (pre @ post) ?fs"
      by (simp add: shm.tiled_dealloc)
    have d: "distinct (map sid ?fs)"
      using hp nf b by (intro distinct_sids_shm_free_insert) (auto simp: heap_ok_def)
    have sub: "sid ` set ?fs \<subseteq> insert i (sid ` set (shm_free s))"
      using sids_shm_free_insert [of ?b "shm_free s"] b by simp
    have z: "\<forall>c \<in> set ?fs. scount c = 0"
      using hp by (intro scount_shm_free_insert) (auto simp: heap_ok_def)
    have "sid ` set (pre @ post) \<inter> insert i (sid ` set (shm_free s)) = {}"
      using heap_okD(3) [OF hp] us ni by auto
    with sub have dis: "sid ` set (pre @ post) \<inter> sid ` set ?fs = {}" by blast
    have lt: "j < next_id s" if "j \<in> sid ` set (pre @ post) \<union> sid ` set ?fs" for j
      using that sub heap_okD(4) [OF hp, of j] us b by auto
    have du: "distinct (map sid (pre @ post))"
      using heap_okD(1) [OF hp] us by simp
    have "heap_ok (s\<lparr>shm_used := pre @ post, shm_free := ?fs\<rparr>)"
      by (rule heap_okI [OF du d dis _ _ z]) (use lt tiled heap_okD(7) [OF hp] in simp_all)
    then have "heap_ok ((shm_put i s)\<lparr>msg_count := msg_count s - 1\<rparr>)"
      unfolding put by (rule heap_ok_cong) simp_all
    moreover have "proc_ok (sid ` set (pre @ post)) p" if "p \<in> set (pl s)" for p
    proof -
      have "i \<notin> set (bl p)" using r0 that refs_pos_iff [of "pl s" i] by auto
      with rtr_inv_owedD(3) [OF inv that] us b show ?thesis by (auto simp: proc_ok_def)
    qed
    ultimately show ?thesis
      using rtr_inv_owedD(2) [OF inv] rest mc put by (intro rtr_inv_owedI) auto
  next
    case False
    let ?b = "b\<lparr>scount := scount b - 1\<rparr>"
    have put: "shm_put i s = s\<lparr>shm_used := pre @ ?b # post\<rparr>"
      using sf False by (simp add: shm_put_def)
    have "shm.tiled {0..<shmsize s} (pre @ ?b # post) (shm_free s)"
      using hp us shm.tiled_cong [of "pre @ ?b # post" "pre @ b # post"] by (simp add: heap_ok_def)
    then have "heap_ok ((shm_put i s)\<lparr>msg_count := msg_count s - 1\<rparr>)"
      using heap_okD [OF hp] us put
      by (intro heap_okI [where us = "pre @ ?b # post" and fs = "shm_free s"]) auto
    moreover have "sid ` set (pre @ ?b # post) = sid ` set (shm_used s)" using us by auto
    ultimately show ?thesis
      using rtr_inv_owedD [OF inv] rest mc cb False b put
      by (intro rtr_inv_owedI) (auto simp: ref_ok_def owed_def)
  qed
qed

section \<open>Who holds what\<close>

text \<open>The position of a node in use, and the positions of the buffers a process holds.\<close>

definition posn :: "rtr_shmbuf list \<Rightarrow> nat \<Rightarrow> int" where
  "posn us i = (case find (\<lambda>b. sid b = i) us of None \<Rightarrow> 0 | Some b \<Rightarrow> sbuf b)"

definition held_by :: "rtr_shmbuf list \<Rightarrow> rtr_proc list \<Rightarrow> int \<Rightarrow> int multiset" where
  "held_by us ps pd =
     (case split_first (\<lambda>p. pid p = pd) ps of
        None \<Rightarrow> {#}
      | Some (_, p, _) \<Rightarrow> image_mset (posn us) (mset (bl p)))"

definition held :: "rtr \<Rightarrow> int \<Rightarrow> int multiset" where
  "held s = held_by (shm_used s) (pl s)"

lemma find_node:
  "distinct (map sid us) \<Longrightarrow> b \<in> set us \<Longrightarrow> find (\<lambda>c. sid c = sid b) us = Some b"
  by (induction us) auto

lemma posn_node: "distinct (map sid us) \<Longrightarrow> b \<in> set us \<Longrightarrow> posn us (sid b) = sbuf b"
  by (simp add: posn_def find_node)

lemma posn_bump [simp]: "posn (bump i k us) = posn us"
proof
  fix j show "posn (bump i k us) j = posn us j"
    by (induction us) (auto simp: posn_def bump_def)
qed

lemma held_by_bump [simp]: "held_by (bump i k us) ps = held_by us ps"
  by (auto simp: held_by_def fun_eq_iff split: option.splits)

lemma shm_at_used:
  assumes "heap_ok s" and "b \<in> set (shm_used s)"
  shows "shm_at s (sid b) = Some b"
  using assms find_node [of "shm_used s @ shm_free s" b] by (simp add: shm_at_def heap_ok_def)

lemma used_pos_inj:
  assumes "heap_ok s" and "b \<in> set (shm_used s)" and "c \<in> set (shm_used s)" and "sbuf b = sbuf c"
  shows "b = c"
proof -
  have t: "shm.tiled {0 ..< shmsize s} (shm_used s) (shm_free s)" by (rule heap_okD(5) [OF assms(1)])
  have "bytes b \<noteq> {}" "bytes c \<noteq> {}"
    using t assms(2,3) by (auto simp: shm.tiled_def)
  then have "sbuf b \<in> bytes b" "sbuf b \<in> bytes c" using assms(4) by (auto simp: bytes_def)
  with shm.tiled_inj [OF t assms(2,3)] show ?thesis by blast
qed

lemma bl_remove_notin:
  "\<forall>i \<in> set is. d i = Some (f i) \<Longrightarrow> b \<notin> f ` set is \<Longrightarrow> bl_remove d b is = Some (False, is)"
  by (induction "is") auto

lemma bl_remove_in:
  "\<forall>i \<in> set is. d i = Some (f i) \<Longrightarrow> b \<in> f ` set is \<Longrightarrow>
   \<exists>xs i ys. is = xs @ i # ys \<and> f i = b \<and> bl_remove d b is = Some (True, xs @ ys)"
proof (induction "is")
  case (Cons j js)
  show ?case
  proof (cases "f j = b")
    case True
    with Cons.prems show ?thesis by (intro exI [of _ "[]"]) auto
  next
    case False
    with Cons obtain xs i ys where "js = xs @ i # ys" "f i = b" "bl_remove d b js = Some (True, xs @ ys)"
      by auto
    with False Cons.prems show ?thesis by (intro exI [of _ "j # xs"]) auto
  qed
qed simp

text \<open>The buffer list of a process only has nodes in use, so following its pointers is safe.\<close>

lemma bl_deref:
  assumes "heap_ok s" and "proc_ok (sid ` set (shm_used s)) p"
  shows "\<forall>i \<in> set (bl p). map_option sbuf (shm_at s i) = Some (posn (shm_used s) i)"
proof
  fix i assume "i \<in> set (bl p)"
  with assms(2) obtain b where "b \<in> set (shm_used s)" "i = sid b" by (auto simp: proc_ok_def)
  with assms(1) show "map_option sbuf (shm_at s i) = Some (posn (shm_used s) i)"
    by (simp add: shm_at_used posn_node heap_okD)
qed

lemma split_proc:
  assumes "distinct (map pid ps)" and "split_first (\<lambda>p. pid p = pd) ps = Some (pre, p, post)"
  shows "ps = pre @ p # post" "pid p = pd" "pd \<notin> pid ` set pre" "pd \<notin> pid ` set post"
  using assms split_first_SomeD [OF assms(2)] by auto

lemma held_by_simps [simp]:
  "held_by us [] pd = {#}"
  "held_by us (p # ps) pd = (if pid p = pd then image_mset (posn us) (mset (bl p)) else held_by us ps pd)"
  by (auto simp: held_by_def split: option.splits)

lemma held_by_append [simp]:
  "held_by us (ps @ qs) pd = (if pd \<in> pid ` set ps then held_by us ps pd else held_by us qs pd)"
  by (induction ps) auto

lemma held_by_unknown: "pd \<notin> pid ` set ps \<Longrightarrow> held_by us ps pd = {#}"
  by (induction ps) auto

lemma held_known: "b \<in># held_by us ps pd \<Longrightarrow> pd \<in> pid ` set ps"
  using held_by_unknown [of pd ps us] by fastforce

lemma dec_cnt_simps [simp]:
  "pid (dec_cnt r p) = pid p" "flag (dec_cnt r p) = flag p" "bl (dec_cnt r p) = bl p"
  by (simp_all add: dec_cnt_def)

lemma proc_ok_drop: "proc_ok ids p \<Longrightarrow> bl p = xs @ i # ys \<Longrightarrow> proc_ok ids (dec_cnt 0 (p\<lparr>bl := xs @ ys\<rparr>))"
  by (auto simp: proc_ok_def dec_cnt_def)

text \<open>A process gives up one reference: the count of its node is now one ahead of the lists.\<close>

lemma drop_ref_held:
  assumes inv: "rtr_inv_owed None s" and held: "b \<in># held s pd"
  obtains s1 c where "drop_ref pd b s = Some s1" and "s1 = s\<lparr>pl := pl s1\<rparr>" and "c \<in> set (shm_used s)"
    and "sbuf c = b" and "rtr_inv_owed (Some (sid c)) s1" and "held s1 = (held s)(pd := held s pd - {#b#})"
    and "map (\<lambda>p. (pid p, flag p)) (pl s1) = map (\<lambda>p. (pid p, flag p)) (pl s)"
proof -
  let ?us = "shm_used s"
  have hp: "heap_ok s" using inv by (rule rtr_inv_owedD)
  obtain p0 where "p0 \<in> set (pl s)" "pid p0 = pd"
    using held_known [of b ?us "pl s" pd] held by (auto simp: held_def)
  then obtain pre p post where sf: "split_first (\<lambda>p. pid p = pd) (pl s) = Some (pre, p, post)"
    using split_first_ex [of p0 "pl s" "\<lambda>p. pid p = pd"] by blast
  note pls = split_proc [OF rtr_inv_owedD(2) [OF inv] sf]
  have pok: "proc_ok (sid ` set ?us) p" using rtr_inv_owedD(3) [OF inv, of p] pls by simp
  note dr = bl_deref [OF hp pok]
  have "b \<in> posn ?us ` set (bl p)" using held pls by (auto simp: held_def)
  then obtain xs i ys where blp: "bl p = xs @ i # ys" and pi: "posn ?us i = b"
    and br: "bl_remove (\<lambda>i. map_option sbuf (shm_at s i)) b (bl p) = Some (True, xs @ ys)"
    using bl_remove_in [OF dr] by blast
  obtain c where c: "c \<in> set ?us" "i = sid c" using pok blp by (auto simp: proc_ok_def)
  let ?p = "dec_cnt 0 (p\<lparr>bl := xs @ ys\<rparr>)"
  let ?s = "s\<lparr>pl := pre @ ?p # post\<rparr>"
  have "drop_ref pd b s = Some ?s"
    using sf br by (simp add: drop_ref_def pl_remove_buf_def)
  moreover have "sbuf c = b" using pi c posn_node [of ?us c] heap_okD(1) [OF hp] by simp
  moreover have "rtr_inv_owed (Some (sid c)) ?s"
  proof (rule rtr_inv_owedI)
    show "heap_ok ?s" using hp by (rule heap_ok_cong) simp_all
    show "distinct (map pid (pl ?s))" using rtr_inv_owedD(2) [OF inv] pls by simp
    show "proc_ok (sid ` set (shm_used ?s)) q" if "q \<in> set (pl ?s)" for q
      using that rtr_inv_owedD(3) [OF inv] proc_ok_drop [OF pok blp] pls by auto
    show "ref_ok (Some (sid c)) (pl ?s) d" if "d \<in> set (shm_used ?s)" for d
      using rtr_inv_owedD(5) [OF inv, of d] that pls blp c by (auto simp: ref_ok_def owed_def)
    show "msg_count ?s = int (nheld (pl ?s)) + (if Some (sid c) = None then 0 else 1)"
      using rtr_inv_owedD(4) [OF inv] pls blp by simp
  qed
  moreover have "held ?s = (held s)(pd := held s pd - {#b#})"
    using pls blp pi by (auto simp: held_def fun_eq_iff)
  moreover have "map (\<lambda>p. (pid p, flag p)) (pl ?s) = map (\<lambda>p. (pid p, flag p)) (pl s)"
    using pls by simp
  ultimately show thesis using that [of ?s c] c by simp
qed

text \<open>What is on its way to the processes: the kernel's queue and then the overflow queue.\<close>

definition out :: "rtr \<Rightarrow> rtr_msg list" where
  "out s = mq_msgs (q_out s) @ que s"

definition buf_msgs :: "int \<Rightarrow> rtr_msg list \<Rightarrow> int multiset" where
  "buf_msgs pd ms = image_mset arg0 (mset (filter (\<lambda>m. mtype m = pd \<and> cmd m = RTR_BUFFER) ms))"

lemma buf_msgs_simps [simp]:
  "buf_msgs pd [] = {#}" "buf_msgs pd (ms @ ns) = buf_msgs pd ms + buf_msgs pd ns"
  "buf_msgs pd (m # ms) = (if mtype m = pd \<and> cmd m = RTR_BUFFER then {#arg0 m#} else {#}) + buf_msgs pd ms"
  by (auto simp: buf_msgs_def)

lemma buf_msgs_none: "pd \<notin> mtype ` set ms \<Longrightarrow> buf_msgs pd ms = {#}"
  by (induction ms) auto

lemma que_snd_loop_out:
  "que_snd_loop ms c q = (r, ms', c', q') \<Longrightarrow>
   mq_msgs q' @ ms' = mq_msgs q @ ms \<and> mq_live q' = mq_live q \<and> mq_cap q' = mq_cap q"
  by (induction ms c q rule: que_snd_loop.induct)
     (auto simp: msgsnd_nowait_def split: if_splits sum.splits)

text \<open>The overflow queue neither loses nor reorders messages.\<close>

lemma que_snd_out: "out (snd (que_snd s)) = out s"
  by (auto simp: que_snd_def out_def split: prod.splits dest: que_snd_loop_out)

lemma send_msg_out:
  assumes "\<forall>k. mok s k"
  shows "out (snd (send_msg t com a1 a2 a3 s)) =
    out s @ [\<lparr>mtype = t, mpid = RTR_MTYPE_ROUTER, cmd = com, arg0 = a1, arg1 = a2, arg2 = a3,
              mname = strncpy RTR_NAME_LEN (proc_name s)\<rparr>]"
  using assms by (simp add: send_msg_def Let_def que_snd_out que_msg_def malloc_def) (simp add: out_def)

lemma out_upd [simp]:
  "out (s\<lparr>msg_count := c\<rparr>) = out s" "out (s\<lparr>pl := ps\<rparr>) = out s" "out (s\<lparr>stat := st\<rparr>) = out s"
  "out (s\<lparr>shm_used := u\<rparr>) = out s" "out (s\<lparr>shm_free := f\<rparr>) = out s" "out (s\<lparr>next_id := i\<rparr>) = out s"
  "out (s\<lparr>mb := ms\<rparr>) = out s" "out (s\<lparr>q_in := qi\<rparr>) = out s" "out (s\<lparr>end_flag := e\<rparr>) = out s"
  by (simp_all add: out_def)

lemma out_shm_inc [simp]: "out (shm_inc i s) = out s" "out (shm_put i s) = out s"
  by (simp_all add: out_def frame_simps)

text \<open>Every consumer that takes the buffer is sent exactly one message about it.\<close>

lemma send_buf_loop_out:
  assumes "\<forall>k. mok s k" and "\<forall>p \<in> set ps. \<not> must_full p" and "distinct (map pid ps)"
    and "posn us (sid shm) = sbuf shm" and "send_buf_loop shm n ps s = (r, ps', s')"
  shows "\<exists>new. out s' = out s @ new \<and> (\<forall>m \<in> set new. cmd m = RTR_BUFFER) \<and> mtype ` set new \<subseteq> pid ` set ps \<and>
    (\<forall>qd. held_by us ps' qd = held_by us ps qd + buf_msgs qd new)"
  using assms
proof (induction ps arbitrary: s r ps' s')
  case (Cons p ps)
  have nf: "\<forall>p \<in> set ps. \<not> must_full p" and ds: "distinct (map pid ps)" using Cons.prems by auto
  show ?case
  proof (cases "skipped p")
    case True
    with Cons.prems(5) obtain qs where "send_buf_loop shm n ps s = (r, qs, s')" and p': "ps' = p # qs"
      by (auto simp: send_buf_loop_Cons split: prod.splits)
    from Cons.IH [OF Cons.prems(1) nf ds Cons.prems(4) this(1)] obtain new where
      "out s' = out s @ new" "\<forall>m \<in> set new. cmd m = RTR_BUFFER" "mtype ` set new \<subseteq> pid ` set ps"
      "\<forall>qd. held_by us qs qd = held_by us ps qd + buf_msgs qd new"
      by blast
    with p' Cons.prems(3) buf_msgs_none [of "pid p" new] show ?thesis by (intro exI [of _ new]) auto
  next
    case False
    have "\<not> (flag p AND O_SAMPLE = 0 \<and> cnt p \<ge> RTR_MAXSENDBUF)"
      using False Cons.prems(2) by (auto simp: skipped_def must_full_def bit.conj_disj_distrib)
    with False Cons.prems(1,5) obtain qs where
      q: "send_buf_loop shm n ps (served shm n p s) = (r, qs, s')" "ps' = grab (sid shm) (now s) p # qs"
      by (auto simp: send_buf_loop_Cons split: prod.splits)
    obtain m where m: "out (served shm n p s) = out s @ [m]" "mtype m = pid p" "cmd m = RTR_BUFFER" "arg0 m = sbuf shm"
      using Cons.prems(1) by (simp add: served_def send_msg_out)
    have "\<forall>k. mok (served shm n p s) k" using Cons.prems(1) by simp
    from Cons.IH [OF this nf ds Cons.prems(4) q(1)] obtain new where
      "out s' = out s @ m # new" "\<forall>m \<in> set new. cmd m = RTR_BUFFER" "mtype ` set new \<subseteq> pid ` set ps"
      "\<forall>qd. held_by us qs qd = held_by us ps qd + buf_msgs qd new"
      using m by auto
    with q(2) m Cons.prems(3,4) buf_msgs_none [of "pid p" new] show ?thesis by (intro exI [of _ "m # new"]) auto
  qed
qed simp

end
