(* ===== verification/Router_Own.thy ===== *)
theory Router_Own
  imports Router_Inv
begin

text \<open>
  Every handler of the router as a step on the ownership of buffers: what \<^verbatim>\<open>release_buf\<close>,
  \<^verbatim>\<open>get_buf\<close>, \<^verbatim>\<open>new_pl\<close> and \<^verbatim>\<open>remove_pl\<close> do to the invariant, to the buffers each process holds and
  to the messages on their way out.
\<close>

section \<open>Release\<close>

lemma posn_remove: "sid b \<noteq> j \<Longrightarrow> posn (pre @ post) j = posn (pre @ b # post) j"
  by (induction pre) (auto simp: posn_def)

lemma held_by_cong:
  "(\<And>p i. p \<in> set ps \<Longrightarrow> i \<in> set (bl p) \<Longrightarrow> posn us i = posn us' i) \<Longrightarrow> held_by us ps pd = held_by us' ps pd"
proof (induction ps)
  case (Cons p ps)
  then have "image_mset (posn us) (mset (bl p)) = image_mset (posn us') (mset (bl p))"
    using Cons.prems [of p] by (intro image_mset_cong) auto
  moreover have "held_by us ps pd = held_by us' ps pd"
    by (rule Cons.IH) (use Cons.prems in auto)
  ultimately show ?case by simp
qed simp

lemma posn_count [simp]: "posn (pre @ b\<lparr>scount := k\<rparr> # post) = posn (pre @ b # post)"
proof
  fix j show "posn (pre @ b\<lparr>scount := k\<rparr> # post) j = posn (pre @ b # post) j"
    by (induction pre) (auto simp: posn_def)
qed

lemma shm_put_held:
  assumes inv: "rtr_inv_owed (Some i) s" and i: "i \<in> sid ` set (shm_used s)"
  shows "held (shm_put i s) = held s"
proof -
  obtain pre b post where sf: "split_first (\<lambda>b. sid b = i) (shm_used s) = Some (pre, b, post)"
    and us: "shm_used s = pre @ b # post" and b: "sid b = i"
    by (rule split_used [OF rtr_inv_owedD(1) [OF inv] i])
  show ?thesis
  proof (cases "scount b - 1 \<le> 0")
    case True
    then have "refs (pl s) i = 0"
      using rtr_inv_owedD(5) [OF inv, of b] us b by (simp add: ref_ok_def owed_def)
    then have "p \<in> set (pl s) \<Longrightarrow> i \<notin> set (bl p)" for p
      using refs_pos_iff [of "pl s" i] by auto
    then have "held_by (pre @ post) (pl s) pd = held_by (pre @ b # post) (pl s) pd" for pd
      using b by (intro held_by_cong posn_remove) auto
    with True sf us show ?thesis by (simp add: held_def shm_put_def fun_eq_iff)
  next
    case False
    with sf us show ?thesis by (simp add: held_def shm_put_def held_by_def fun_eq_iff split: option.split)
  qed
qed

lemma split_pos:
  assumes "heap_ok s" and "c \<in> set (shm_used s)"
  shows "\<exists>pre post. split_first (\<lambda>b. sbuf b = sbuf c) (shm_used s) = Some (pre, c, post)"
proof -
  obtain pre b post where sf: "split_first (\<lambda>b. sbuf b = sbuf c) (shm_used s) = Some (pre, b, post)"
    using split_first_ex [OF assms(2), of "\<lambda>b. sbuf b = sbuf c"] by auto
  with used_pos_inj [OF assms(1) _ assms(2), of b] split_first_SomeD [OF sf] show ?thesis by auto
qed

text \<open>The effect of the distribution of a buffer on the ownership of buffers.\<close>

definition delivers :: "rtr \<Rightarrow> rtr \<Rightarrow> bool" where
  "delivers s s' \<longleftrightarrow>
     (\<exists>new. out s' = out s @ new \<and> (\<forall>m \<in> set new. cmd m = RTR_BUFFER) \<and>
        (\<forall>qd. held s' qd = held s qd + buf_msgs qd new))"

lemma delivers_refl: "out s' = out s \<Longrightarrow> held s' = held s \<Longrightarrow> delivers s s'"
  unfolding delivers_def by (intro exI [of _ "[]"]) simp

lemma send_buf_delivers:
  assumes inv: "rtr_inv_owed (Some i) s" and shm: "shm \<in> set (shm_used s)" and i: "sid shm = i"
    and mok: "\<forall>k. mok s k" and sb: "send_buf shm n s = (r, s')"
  shows "delivers s s'"
proof (cases "\<exists>p \<in> set (pl s). must_full p")
  case True
  with sb show ?thesis by (auto simp: send_buf_def Let_def intro: delivers_refl)
next
  case False
  define n' where "n' = (if n > ssize shm then ssize shm else n)"
  obtain c ps s1 where lp: "send_buf_loop shm n' (pl s) s = (c, ps, s1)" by (metis surj_pair)
  have nf: "\<forall>p \<in> set (pl s). \<not> must_full p" using False by blast
  have pos: "posn (shm_used s) (sid shm) = sbuf shm"
    using posn_node [OF _ shm] heap_okD(1) [OF rtr_inv_owedD(1) [OF inv]] by simp
  from send_buf_loop_out [OF mok nf rtr_inv_owedD(2) [OF inv] pos lp] obtain new where
    new: "out s1 = out s @ new" "\<forall>m \<in> set new. cmd m = RTR_BUFFER"
      "\<forall>qd. held_by (shm_used s) ps qd = held_by (shm_used s) (pl s) qd + buf_msgs qd new"
    by blast
  have "shm_used s1 = bump (sid shm) (int (nheld ps) - int (nheld (pl s))) (shm_used s)"
    using send_buf_loop_ok [OF mok nf lp] by blast
  with new sb lp False show ?thesis
    by (auto simp: delivers_def send_buf_def Let_def n'_def [symmetric] held_def split: if_splits)
qed

lemma release_buf_held:
  assumes inv: "rtr_inv s" and mok: "\<forall>k. mok s k" and b: "b \<in># held s pd"
  obtains s1 s' where "release_buf pd b n s = Some (0, s')" and "rtr_inv s'"
    and "held s1 = (held s)(pd := held s pd - {#b#})" and "out s1 = out s" and "delivers s1 s'"
proof -
  obtain s1 c where d: "drop_ref pd b s = Some s1" and s1: "s1 = s\<lparr>pl := pl s1\<rparr>"
    and c: "c \<in> set (shm_used s)" "sbuf c = b" and inv1: "rtr_inv_owed (Some (sid c)) s1"
    and h1: "held s1 = (held s)(pd := held s pd - {#b#})"
    using drop_ref_held [OF inv [unfolded rtr_inv_def] b] by metis
  have c1: "c \<in> set (shm_used s1)" and mok1: "\<forall>k. mok s1 k" and o1: "out s1 = out s"
    using c mok by (subst s1; simp)+
  obtain pre post where sf: "split_first (\<lambda>x. sbuf x = b) (shm_used s1) = Some (pre, c, post)"
    using split_pos [OF rtr_inv_owedD(1) [OF inv1] c1] c(2) by blast
  obtain r s2 where w: "(if flag_of pd s AND O_WRONLY \<noteq> 0 \<and> n > 0
      then send_buf c n (s1\<lparr>stat := stat_in n (stat s1)\<rparr>) else (0, s1)) = (r, s2)" by fastforce
  have inv1': "rtr_inv_owed (Some (sid c)) (s1\<lparr>stat := stat_in n (stat s1)\<rparr>)"
    by (rule rtr_inv_cong [OF inv1]) simp_all
  have 2: "0 \<le> r \<and> rtr_inv_owed (Some (sid c)) s2 \<and> sid c \<in> sid ` set (shm_used s2) \<and> delivers s1 s2"
  proof (cases "flag_of pd s AND O_WRONLY \<noteq> 0 \<and> n > 0")
    case True
    with w have sb: "send_buf c n (s1\<lparr>stat := stat_in n (stat s1)\<rparr>) = (r, s2)" by simp
    have "delivers (s1\<lparr>stat := stat_in n (stat s1)\<rparr>) s2"
      by (rule send_buf_delivers [OF inv1' _ refl _ sb]) (use c1 mok1 in simp_all)
    then have "delivers s1 s2" by (simp add: delivers_def held_def)
    moreover have "sid c \<in> sid ` set (shm_used (s1\<lparr>stat := stat_in n (stat s1)\<rparr>))" using c1 by auto
    ultimately show ?thesis using send_buf_inv [OF inv1' _ refl _ sb] mok1 c1 by simp
  next
    case False
    with w inv1 c1 show ?thesis by (auto intro: delivers_refl)
  qed
  let ?s = "(shm_put (sid c) s2)\<lparr>msg_count := msg_count s2 - 1\<rparr>"
  have rel: "release_buf pd b n s = Some (0, ?s)"
    using d sf w 2 by (simp add: release_buf_def frame_simps)
  have inv': "rtr_inv ?s" using shm_put_inv [of "sid c" s2] 2 by (simp add: rtr_inv_def)
  have "held ?s = held s2" using shm_put_held [of "sid c" s2] 2 by (simp add: held_def)
  with 2 have "delivers s1 ?s" by (simp add: delivers_def)
  with that [OF rel inv' h1 o1] show thesis .
qed

section \<open>Releases that pass nothing on\<close>

text \<open>What a release with size -1 leaves alone, beside \<open>env\<close> and \<open>q_in\<close>.\<close>

definition links :: "rtr \<Rightarrow> rtr_msg list \<times> msgq \<times> msgq \<times> (int \<times> int) list \<times> (nat \<Rightarrow> bool) \<times> bool" where
  "links s = (que s, q_out s, q_in s, map (\<lambda>p. (pid p, flag p)) (pl s), mok s, end_flag s)"

lemma links_pids: "links s' = links s \<Longrightarrow> map pid (pl s') = map pid (pl s)"
proof -
  assume "links s' = links s"
  then have "map fst (map (\<lambda>p. (pid p, flag p)) (pl s')) = map fst (map (\<lambda>p. (pid p, flag p)) (pl s))"
    by (simp add: links_def)
  then show ?thesis by (simp add: comp_def)
qed

lemma links_out: "links s' = links s \<Longrightarrow> out s' = out s"
  by (simp add: links_def out_def)

lemma drop_ref_links: "drop_ref pd b s = Some s1 \<Longrightarrow> links s1 = links s"
  by (auto simp: drop_ref_def links_def pl_remove_buf_def split: option.splits prod.splits bool.splits
      dest!: split_first_SomeD)

lemma release_neg_links: "release_buf pd b (-1) s = Some (r, s') \<Longrightarrow> links s' = links s"
  by (auto simp: release_buf_nonpos links_def frame_simps split: option.splits dest!: drop_ref_links)

lemma release_neg_held:
  assumes "rtr_inv s" and "\<forall>k. mok s k" and "b \<in># held s pd"
  obtains s' where "release_buf pd b (-1) s = Some (0, s')" and "rtr_inv s'"
    and "held s' = (held s)(pd := held s pd - {#b#})" and "links s' = links s"
proof -
  obtain s1 s' where r: "release_buf pd b (-1) s = Some (0, s')" and i: "rtr_inv s'"
    and h1: "held s1 = (held s)(pd := held s pd - {#b#})" "out s1 = out s" and d: "delivers s1 s'"
    by (rule release_buf_held [OF assms, of "-1"])
  note l = release_neg_links [OF r]
  have "held s' = held s1"
    using d h1(2) links_out [OF l] by (auto simp: delivers_def fun_eq_iff)
  with that [OF r i _ l] h1(1) show thesis by simp
qed

lemma links_mok: "links s' = links s \<Longrightarrow> \<forall>k. mok s k \<Longrightarrow> \<forall>k. mok s' k"
  by (simp add: links_def)

text \<open>\<^verbatim>\<open>pl_release_buf_all\<close>: afterwards the process holds nothing.\<close>

lemma release_all_held:
  assumes "rtr_inv s" and "\<forall>k. mok s k"
  shows "\<exists>s'. release_all pd s = Some s' \<and> rtr_inv s' \<and> held s' = (held s)(pd := {#}) \<and> links s' = links s"
  using assms
proof (induction pd s rule: release_all.induct)
  case (1 pd s)
  note inv = "1.prems"(1) [unfolded rtr_inv_def]
  show ?case
  proof (cases "split_first (\<lambda>p. pid p = pd) (pl s)")
    case None
    then have "held s pd = {#}" by (simp add: held_def held_by_def)
    with None "1.prems" show ?thesis by (auto simp: release_all.simps [of pd s])
  next
    case (Some q)
    obtain pre p post where q: "q = (pre, p, post)" by (cases q) auto
    note pls = split_proc [OF rtr_inv_owedD(2) [OF inv] Some [unfolded q]]
    have hd: "held s pd = image_mset (posn (shm_used s)) (mset (bl p))"
      using pls by (simp add: held_def)
    show ?thesis
    proof (cases "bl p")
      case Nil
      with hd Some q "1.prems" show ?thesis by (auto simp: release_all.simps [of pd s])
    next
      case (Cons i js)
      have "i \<in> sid ` set (shm_used s)"
        using rtr_inv_owedD(3) [OF inv, of p] pls Cons by (auto simp: proc_ok_def)
      then obtain b where b: "b \<in> set (shm_used s)" "i = sid b" by blast
      have at: "shm_at s i = Some b" using shm_at_used [OF rtr_inv_owedD(1) [OF inv] b(1)] b(2) by simp
      have "posn (shm_used s) i = sbuf b"
        using posn_node [OF _ b(1)] heap_okD(1) [OF rtr_inv_owedD(1) [OF inv]] b(2) by simp
      with hd Cons have "sbuf b \<in># held s pd" by auto
      then obtain s1 where rel: "release_buf pd (sbuf b) (-1) s = Some (0, s1)" and i1: "rtr_inv s1"
        and h1: "held s1 = (held s)(pd := held s pd - {#sbuf b#})" and l1: "links s1 = links s"
        using release_neg_held [OF "1.prems"] by metis
      from "1.IH" [OF Some q [symmetric] refl Cons at rel refl i1 links_mok [OF l1 "1.prems"(2)]]
      obtain s' where "release_all pd s1 = Some s'" "rtr_inv s'" "held s' = (held s1)(pd := {#})" "links s' = links s1"
        by blast
      with h1 l1 Some q Cons at rel show ?thesis by (auto simp: release_all.simps [of pd s])
    qed
  qed
qed

lemma remove_empty_proc:
  assumes inv: "rtr_inv s" and pls: "pl s = pre @ p # post" "pid p \<notin> pid ` set pre" and bl: "held s (pid p) = {#}"
  shows "rtr_inv (s\<lparr>pl := pre @ post\<rparr>) \<and> held (s\<lparr>pl := pre @ post\<rparr>) = held s"
proof -
  note inv' = inv [unfolded rtr_inv_def]
  have e: "bl p = []" using bl pls by (simp add: held_def)
  have "pid p \<notin> pid ` set post" using rtr_inv_owedD(2) [OF inv'] pls by simp
  then have "held (s\<lparr>pl := pre @ post\<rparr>) = held s"
    using pls e by (auto simp: held_def fun_eq_iff held_by_unknown)
  moreover have "rtr_inv_owed None (s\<lparr>pl := pre @ post\<rparr>)"
  proof (rule rtr_inv_owedI)
    show "heap_ok (s\<lparr>pl := pre @ post\<rparr>)"
      using rtr_inv_owedD(1) [OF inv'] by (rule heap_ok_cong) simp_all
    show "ref_ok None (pl (s\<lparr>pl := pre @ post\<rparr>)) b" if "b \<in> set (shm_used (s\<lparr>pl := pre @ post\<rparr>))" for b
      using rtr_inv_owedD(5) [OF inv', of b] that pls e by (simp add: ref_ok_def)
  qed (use rtr_inv_owedD(2-4) [OF inv'] pls e in auto)
  ultimately show ?thesis by (simp add: rtr_inv_def)
qed

lemma remove_pl_held:
  assumes "rtr_inv s" and "\<forall>k. mok s k"
  shows "\<exists>r s'. remove_pl pd s = Some (r, s') \<and> rtr_inv s' \<and> held s' = (held s)(pd := {#}) \<and> mok s' = mok s \<and>
     que s' = que s \<and> q_out s' = q_out s \<and> q_in s' = q_in s \<and> pd \<notin> pid ` set (pl s')"
proof (cases "split_first (\<lambda>p. pid p = pd) (pl s)")
  case None
  then have "held s pd = {#}" "pd \<notin> pid ` set (pl s)"
    by (simp add: held_def held_by_def) (use None in \<open>auto simp: split_first_None_iff\<close>)
  with None assms show ?thesis by (auto simp: remove_pl_def pl_release_buf_all_def)
next
  case (Some q)
  obtain s1 where r: "release_all pd s = Some s1" and i: "rtr_inv s1"
    and h: "held s1 = (held s)(pd := {#})" and l: "links s1 = links s"
    using release_all_held [OF assms] by blast
  obtain pre0 p0 post0 where q: "q = (pre0, p0, post0)" by (cases q) auto
  have "pd \<in> pid ` set (pl s)" using Some q by (auto dest!: split_first_SomeD)
  then have "pd \<in> pid ` set (pl s1)" by (metis links_pids [OF l] list.set_map)
  then obtain p1 where "p1 \<in> set (pl s1)" "pid p1 = pd" by blast
  then obtain pre p post where sf: "split_first (\<lambda>p. pid p = pd) (pl s1) = Some (pre, p, post)"
    using split_first_ex [of p1 "pl s1" "\<lambda>p. pid p = pd"] by blast
  note pls = split_proc [OF rtr_inv_owedD(2) [OF i [unfolded rtr_inv_def]] sf]
  have "rtr_inv (s1\<lparr>pl := pre @ post\<rparr>)" "held (s1\<lparr>pl := pre @ post\<rparr>) = held s1"
    using remove_empty_proc [OF i pls(1)] pls h by auto
  with Some q r sf h l pls show ?thesis
    by (auto simp: remove_pl_def pl_release_buf_all_def links_def image_Un)
qed

section \<open>Requests\<close>

lemma get_shm_inv:
  assumes hp: "heap_ok s" and n: "0 < n" and g: "get_shm n s = (Some i, s1)"
  obtains b fs k where "s1 = s\<lparr>shm_free := fs, shm_used := shm_used s @ [b], next_id := k\<rparr>"
    and "sid b = i" and "ssize b = round4 n" and "scount b = 0" and "i \<notin> sid ` set (shm_used s)"
    and "next_id s \<le> k" and "heap_ok s1"
proof -
  obtain b fs k where tf: "take_fit (round4 n) (shm_free s) = Some (sbuf b, fs)"
    and b: "sid b = i" "ssize b = round4 n" "scount b = 0"
    and s1: "s1 = s\<lparr>shm_free := fs, shm_used := shm_used s @ [b], next_id := k\<rparr>"
    and k: "k = next_id s \<and> (\<exists>pre post. shm_free s = pre @ b # post \<and> fs = pre @ post) \<or>
         k = Suc (next_id s) \<and> i = next_id s \<and> map sid fs = map sid (shm_free s)"
    and z: "\<forall>b \<in> set fs. scount b = 0"
    using get_shm_Some [OF g heap_okD(6) [OF hp]] by metis
  note h = heap_okD [OF hp]
  have "bytes b = {sbuf b ..< sbuf b + round4 n}" using b by (simp add: bytes_def)
  then have tl: "shm.tiled {0 ..< shmsize s} (shm_used s @ [b]) fs"
    using shm.tiled_alloc [OF h(5) round4_pos [OF n] tf] by simp
  have sids: "i \<notin> sid ` set (shm_used s)" "i \<notin> sid ` set fs" "distinct (map sid fs)"
      "sid ` set (shm_used s) \<inter> sid ` set fs = {}" "\<And>j. j \<in> sid ` set fs \<Longrightarrow> j < k" "i < k" "next_id s \<le> k"
  proof -
    from k consider (old) pre post where "k = next_id s" "shm_free s = pre @ b # post" "fs = pre @ post"
      | (new) "k = Suc (next_id s)" "i = next_id s" "map sid fs = map sid (shm_free s)" by blast
    then have "i \<notin> sid ` set (shm_used s) \<and> i \<notin> sid ` set fs \<and> distinct (map sid fs) \<and>
      sid ` set (shm_used s) \<inter> sid ` set fs = {} \<and> (\<forall>j \<in> sid ` set fs. j < k) \<and> i < k \<and> next_id s \<le> k"
    proof cases
      case old
      with h(2,3) h(4) b show ?thesis by auto
    next
      case new
      have eq: "sid ` set fs = sid ` set (shm_free s)" using new(3) by (metis list.set_map)
      with new h(2,3) h(4) show ?thesis by (fastforce intro: less_SucI)
    qed
    then show "i \<notin> sid ` set (shm_used s)" "i \<notin> sid ` set fs" "distinct (map sid fs)"
      "sid ` set (shm_used s) \<inter> sid ` set fs = {}" "\<And>j. j \<in> sid ` set fs \<Longrightarrow> j < k" "i < k" "next_id s \<le> k"
      by blast+
  qed
  have lt: "j < k" if "j \<in> sid ` set (shm_used s @ [b]) \<union> sid ` set fs" for j
    using that sids(5-7) h(4) [of j] b by auto
  have "heap_ok s1"
    by (rule heap_okI [where us = "shm_used s @ [b]" and fs = fs])
       (use s1 h(1,7) sids(1-4) b lt tl z in auto)
  with that [OF s1] b sids show thesis by blast
qed

lemma find_fresh: "i \<notin> sid ` set us \<Longrightarrow> sid b = i \<Longrightarrow> find (\<lambda>c. sid c = i) (us @ [b]) = Some b"
  by (induction us) auto

text \<open>
  A request of a writer either takes a fresh block, which the writer then holds, or changes nothing.
\<close>

lemma get_buf_held:
  assumes inv: "rtr_inv s" and mok: "\<forall>k. mok s k" and n: "0 < n" and g: "get_buf pd n s = (r, ob, s')"
  shows "(\<exists>b. r = 0 \<and> ob = Some b \<and> b \<in> set (shm_used s') \<and> ssize b = round4 n \<and> rtr_inv s' \<and>
      held s' = (held s)(pd := held s pd + {#sbuf b#}) \<and> links s' = links s) \<or> r \<in> {2, -1, -2} \<and> ob = None \<and> s' = s"
proof (cases "\<exists>i s1 pre p post. get_shm (round4 n) s = (Some i, s1) \<and>
    split_first (\<lambda>p. pid p = pd) (pl s) = Some (pre, p, post) \<and> flag p AND O_WRONLY \<noteq> 0 \<and>
    cnt p < RTR_MAXWRITEBUF \<and> round4 n \<le> shmsize s")
  case False
  have "s1 = s" if "get_shm (round4 n) s = (None, s1)" for s1
    using get_shm_None [OF that] mok by auto
  then have "r \<in> {2, -1, -2} \<and> ob = None \<and> s' = s"
    using False g by (auto simp: get_buf_def Let_def not_le not_less split: option.splits if_splits prod.splits)
  then show ?thesis by blast
next
  case True
  then obtain i s1 pre p post where gs: "get_shm (round4 n) s = (Some i, s1)"
    and sf: "split_first (\<lambda>p. pid p = pd) (pl s) = Some (pre, p, post)"
    and w: "flag p AND O_WRONLY \<noteq> 0" "cnt p < RTR_MAXWRITEBUF" "round4 n \<le> shmsize s" by blast
  note inv' = inv [unfolded rtr_inv_def]
  obtain b fs k where s1: "s1 = s\<lparr>shm_free := fs, shm_used := shm_used s @ [b], next_id := k\<rparr>"
    and b: "sid b = i" "ssize b = round4 n" "scount b = 0" "i \<notin> sid ` set (shm_used s)"
    and k: "next_id s \<le> k" and hp: "heap_ok s1"
    using get_shm_inv [OF rtr_inv_owedD(1) [OF inv'] round4_pos [OF n] gs] by (metis round4_idem)
  note pls = split_proc [OF rtr_inv_owedD(2) [OF inv'] sf]
  let ?b = "b\<lparr>scount := 1\<rparr>"
  define t where "t = s\<lparr>shm_free := fs, shm_used := shm_used s @ [?b], next_id := Suc k,
    pl := pre @ grab i (now s) p # post, msg_count := msg_count s + 1\<rparr>"
  have inc: "shm_inc i s1 = s\<lparr>shm_free := fs, shm_used := shm_used s @ [?b], next_id := k\<rparr>"
    using s1 b bump_notin [OF b(4), of 1] by (simp add: shm_inc_bump) (simp add: bump_def)
  have "r = 0 \<and> ob = Some ?b \<and> s' = t"
    using g gs sf w mok b(1,4) unfolding get_buf_def
    by (auto simp: Let_def inc malloc_def t_def find_fresh)
  moreover have "rtr_inv_owed None t"
  proof (rule rtr_inv_owedI)
    show "heap_ok t"
      using heap_okD [OF hp] s1 b(1)
      by (intro heap_okI [where us = "shm_used s @ [?b]" and fs = fs])
         (auto simp: t_def less_Suc_eq shm.tiled_cong [of "shm_used s @ [?b]" "shm_used s @ [b]"] bytes_def)
    show "distinct (map pid (pl t))" using rtr_inv_owedD(2) [OF inv'] pls by (simp add: t_def)
    show "proc_ok (sid ` set (shm_used t)) q" if "q \<in> set (pl t)" for q
    proof (cases "q = grab i (now s) p")
      case True
      have "proc_ok (sid ` set (shm_used s)) p" using rtr_inv_owedD(3) [OF inv'] pls by simp
      with True w b(1) show ?thesis
        by (auto simp: proc_ok_def t_def limit_of_def)
    next
      case False
      with that pls rtr_inv_owedD(3) [OF inv', of q] show ?thesis
        by (auto simp: t_def intro: proc_ok_mono)
    qed
    have "p \<in> set (pl s) \<Longrightarrow> i \<notin> set (bl p)" for p
      using rtr_inv_owedD(3) [OF inv', of p] b(4) by (auto simp: proc_ok_def)
    then have r0: "refs (pl s) i = 0" using refs_pos_iff [of "pl s" i] by auto
    show "ref_ok None (pl t) c" if "c \<in> set (shm_used t)" for c
    proof (cases "c = ?b")
      case True
      with r0 b(1) pls show ?thesis by (simp add: t_def ref_ok_def owed_def)
    next
      case False
      with that have c: "c \<in> set (shm_used s)" by (simp add: t_def)
      then have "sid c \<noteq> i" using b(4) by auto
      then have "refs (pl t) (sid c) = refs (pl s) (sid c)" using pls by (simp add: t_def)
      with rtr_inv_owedD(5) [OF inv' c] show ?thesis by (simp add: ref_ok_def)
    qed
    show "msg_count t = int (nheld (pl t)) + (if None = None then 0 else 1)"
      using rtr_inv_owedD(4) [OF inv'] pls by (simp add: t_def)
  qed
  moreover have "held t = (held s)(pd := held s pd + {#sbuf b#})"
  proof
    fix qd
    have old: "posn (shm_used s @ [?b]) j = posn (shm_used s) j" if "j \<in> sid ` set (shm_used s)" for j
    proof -
      have "sid ?b \<noteq> j" using that b(1,4) by auto
      then show ?thesis using posn_remove [of ?b j "shm_used s" "[]"] by simp
    qed
    have "q \<in> set (pl s) \<Longrightarrow> j \<in> set (bl q) \<Longrightarrow> j \<in> sid ` set (shm_used s)" for q j
      using rtr_inv_owedD(3) [OF inv', of q] by (auto simp: proc_ok_def)
    then have "held_by (shm_used s @ [?b]) (pl s) qd = held_by (shm_used s) (pl s) qd"
      by (intro held_by_cong old)
    moreover have "posn (shm_used s @ [?b]) i = sbuf b"
      using posn_node [of "shm_used s @ [?b]" ?b] b heap_okD(1) [OF rtr_inv_owedD(1) [OF inv']] by simp
    ultimately show "held t qd = ((held s)(pd := held s pd + {#sbuf b#})) qd"
      using pls by (auto simp: held_def t_def)
  qed
  ultimately show ?thesis
    using b pls by (auto simp: rtr_inv_def t_def links_def)
qed

end
