(* ===== verification/Router_System.thy ===== *)
theory Router_System
  imports Router_Own
begin

text \<open>
  The router together with its clients. A client program follows the protocol of \<^verbatim>\<open>router_lib.c\<close>: it
  gives back only buffers it got, and before it disconnects it waits for the replies to its requests.
  The invariant says of every buffer a process holds where it is: announced to the process, in the
  hands of the process, or on its way back.
\<close>

section \<open>Disconnection\<close>

lemma disc_que_held:
  assumes "rtr_inv s" and "\<forall>k. mok s k" and "image_mset arg0 (mset (filter (\<lambda>m. mtype m = pd) ms)) \<subseteq># held s pd"
  shows "\<exists>s'. disc_que pd ms s = Some (filter (\<lambda>m. mtype m \<noteq> pd) ms, s') \<and> rtr_inv s' \<and> links s' = links s \<and>
     held s' = (held s)(pd := held s pd - image_mset arg0 (mset (filter (\<lambda>m. mtype m = pd) ms)))"
  using assms
proof (induction pd ms s rule: disc_que.induct)
  case (2 pd m ms s)
  show ?case
  proof (cases "mtype m = pd")
    case False
    with "2.IH"(2) "2.prems" show ?thesis by auto
  next
    case True
    let ?M = "image_mset arg0 (mset (filter (\<lambda>m. mtype m = pd) ms))"
    have sub: "add_mset (arg0 m) ?M \<subseteq># held s pd" using "2.prems"(3) True by simp
    then have "arg0 m \<in># held s pd" by (rule mset_subset_eq_insertD [THEN conjunct1])
    then obtain s1 where rel: "release_buf pd (arg0 m) (-1) s = Some (0, s1)" and i1: "rtr_inv s1"
      and h1: "held s1 = (held s)(pd := held s pd - {#arg0 m#})" and l1: "links s1 = links s"
      using release_neg_held [OF "2.prems"(1,2)] by metis
    have "?M \<subseteq># held s1 pd" using sub h1 by (simp add: insert_subset_eq_iff)
    from "2.IH"(1) [OF True rel refl i1 links_mok [OF l1 "2.prems"(2)] this] rel True h1 l1 show ?thesis
      by (auto simp: diff_diff_add_mset fun_eq_iff)
  qed
qed auto

lemma release_msgs_held:
  assumes "rtr_inv s" and "\<forall>k. mok s k" and "\<forall>m \<in> set ms. mtype m = pd" and "buf_msgs pd ms \<subseteq># held s pd"
  shows "\<exists>s'. release_msgs pd ms s = Some s' \<and> rtr_inv s' \<and> links s' = links s \<and>
     held s' = (held s)(pd := held s pd - buf_msgs pd ms)"
  using assms
proof (induction pd ms s rule: release_msgs.induct)
  case (2 pd m ms s)
  show ?case
  proof (cases "cmd m = RTR_BUFFER")
    case False
    with "2.IH"(2) "2.prems" show ?thesis by auto
  next
    case True
    have sub: "add_mset (arg0 m) (buf_msgs pd ms) \<subseteq># held s pd" using "2.prems"(3,4) True by simp
    then have "arg0 m \<in># held s pd" by (rule mset_subset_eq_insertD [THEN conjunct1])
    then obtain s1 where rel: "release_buf pd (arg0 m) (-1) s = Some (0, s1)" and i1: "rtr_inv s1"
      and h1: "held s1 = (held s)(pd := held s pd - {#arg0 m#})" and l1: "links s1 = links s"
      using release_neg_held [OF "2.prems"(1,2)] by metis
    have "buf_msgs pd ms \<subseteq># held s1 pd" using sub h1 by (simp add: insert_subset_eq_iff)
    moreover have "\<forall>m \<in> set ms. mtype m = pd" using "2.prems"(3) by simp
    ultimately show ?thesis
      using "2.IH"(1) [OF True rel refl i1 links_mok [OF l1 "2.prems"(2)]] "2.prems"(3) rel True h1 l1
      by (auto simp: diff_diff_add_mset fun_eq_iff)
  qed
qed auto

lemma drain_q_eq:
  "mq_live q \<Longrightarrow> drain_q t q = (filter (\<lambda>m. mtype m = t) (mq_msgs q), q\<lparr>mq_msgs := filter (\<lambda>m. mtype m \<noteq> t) (mq_msgs q)\<rparr>)"
proof (induction t q rule: drain_q.induct)
  case (1 t q)
  show ?case
  proof (cases "split_first (\<lambda>m. mtype m = t) (mq_msgs q)")
    case None
    then have "\<forall>m \<in> set (mq_msgs q). mtype m \<noteq> t" by (simp add: split_first_None_iff)
    with None "1.prems" show ?thesis
      by (simp add: drain_q.simps [of t q] msgrcv_nowait_def filter_id_conv [THEN iffD2])
  next
    case (Some x)
    obtain pre m post where x: "x = (pre, m, post)" by (cases x) auto
    note sf = split_first_SomeD [OF Some [unfolded x]]
    have rc: "msgrcv_nowait t q = Inr (m, q\<lparr>mq_msgs := pre @ post\<rparr>)"
      using Some x "1.prems" by (simp add: msgrcv_nowait_def)
    from "1.IH" [OF rc refl] "1.prems" rc sf show ?thesis
      by (simp add: drain_q.simps [of t q] filter_False filter_id_conv [THEN iffD2])
  qed
qed

lemma buf_msgs_filter [simp]:
  "buf_msgs qd (filter (\<lambda>m. mtype m \<noteq> pd) ms) = (if qd = pd then {#} else buf_msgs qd ms)"
  "buf_msgs qd (filter (\<lambda>m. mtype m = pd) ms) = (if qd = pd then buf_msgs qd ms else {#})"
  by (induction ms) auto

lemma msg_disconnect_held:
  assumes inv: "rtr_inv s" and mok: "\<forall>k. mok s k" and live: "mq_live (q_out s)" "mq_live (q_in s)"
    and qin: "\<forall>m' \<in> set (mq_msgs (q_in s)). mtype m' \<noteq> mpid m"
    and que: "\<forall>m' \<in> set (que s). mtype m' = mpid m \<longrightarrow> cmd m' = RTR_BUFFER"
    and own: "buf_msgs (mpid m) (out s) \<subseteq># held s (mpid m)"
  shows "\<exists>s'. msg_disconnect m s = Some s' \<and> rtr_inv s' \<and> held s' = (held s)(mpid m := {#}) \<and>
    out s' = filter (\<lambda>m'. mtype m' \<noteq> mpid m) (out s) \<and> q_in s' = q_in s \<and> mok s' = mok s \<and> mq_live (q_out s') \<and>
    mpid m \<notin> pid ` set (pl s')"
proof -
  let ?pd = "mpid m"
  have "filter (\<lambda>m. mtype m = ?pd) (que s) = filter (\<lambda>m. mtype m = ?pd \<and> cmd m = RTR_BUFFER) (que s)"
    using que by (intro filter_cong) auto
  then have qm: "image_mset arg0 (mset (filter (\<lambda>m. mtype m = ?pd) (que s))) = buf_msgs ?pd (que s)"
    by (simp add: buf_msgs_def)
  have sub: "buf_msgs ?pd (que s) \<subseteq># held s ?pd"
    "buf_msgs ?pd (mq_msgs (q_out s)) \<subseteq># held s ?pd - buf_msgs ?pd (que s)"
    using mset_add_subD [of "buf_msgs ?pd (mq_msgs (q_out s))" "buf_msgs ?pd (que s)" "held s ?pd"] own
    by (simp_all add: out_def)
  obtain s1 where 1: "disc_que ?pd (que s) s = Some (filter (\<lambda>m. mtype m \<noteq> ?pd) (que s), s1)" "rtr_inv s1"
    "links s1 = links s" "held s1 = (held s)(?pd := held s ?pd - buf_msgs ?pd (que s))"
    using disc_que_held [OF inv mok, of ?pd "que s"] qm sub by auto
  let ?qo = "(q_out s)\<lparr>mq_msgs := filter (\<lambda>m. mtype m \<noteq> ?pd) (mq_msgs (q_out s))\<rparr>"
  define s1' where "s1' = s1\<lparr>que := filter (\<lambda>m. mtype m \<noteq> ?pd) (que s), q_out := ?qo\<rparr>"
  have dr: "drain_q ?pd (q_out s1) = (filter (\<lambda>m. mtype m = ?pd) (mq_msgs (q_out s)), ?qo)"
    using 1(3) live drain_q_eq [of "q_out s"] by (simp add: links_def)
  have "rtr_inv s1'" using 1(2) unfolding rtr_inv_def s1'_def by (rule rtr_inv_cong) simp_all
  moreover have "\<forall>k. mok s1' k" using 1(3) mok by (simp add: s1'_def links_def)
  moreover have "held s1' = held s1" by (simp add: s1'_def held_def)
  ultimately obtain s2 where 2: "release_msgs ?pd (filter (\<lambda>m. mtype m = ?pd) (mq_msgs (q_out s))) s1' = Some s2"
    "rtr_inv s2" "links s2 = links s1'"
    "held s2 = (held s)(?pd := held s ?pd - buf_msgs ?pd (que s) - buf_msgs ?pd (mq_msgs (q_out s)))"
    using release_msgs_held [of s1' "filter (\<lambda>m. mtype m = ?pd) (mq_msgs (q_out s))" ?pd] sub 1(4) by auto
  have qi: "q_in s2 = q_in s" using 1(3) 2(3) by (simp add: links_def s1'_def)
  then have dr2: "drain_q ?pd (q_in s2) = ([], q_in s)"
    using qin live drain_q_eq [of "q_in s" ?pd] by (simp add: filter_False filter_id_conv [THEN iffD2])
  have mok2: "\<forall>k. mok s2 k" using 1(3) 2(3) mok by (simp add: links_def s1'_def)
  obtain r s' where 3: "remove_pl ?pd s2 = Some (r, s')" "rtr_inv s'" "held s' = (held s2)(?pd := {#})"
    "mok s' = mok s2" "que s' = que s2" "q_out s' = q_out s2" "q_in s' = q_in s2" "?pd \<notin> pid ` set (pl s')"
    using remove_pl_held [OF 2(2) mok2] by blast
  have "s2\<lparr>q_in := q_in s\<rparr> = s2" using qi by simp
  then have "msg_disconnect m s = Some s'"
    using 1(1) dr 2(1) dr2 3(1) by (simp add: msg_disconnect_def s1'_def)
  moreover have "out s' = filter (\<lambda>m. mtype m \<noteq> ?pd) (out s)" "q_in s' = q_in s" "mok s' = mok s" "mq_live (q_out s')"
    using 1(3) 2(3) 3(4-7) qi live by (simp_all add: out_def links_def s1'_def)
  ultimately show ?thesis using 2(4) 3 by auto
qed

text \<open>The entries of the other processes stay as they are, whatever is released.\<close>

definition others :: "int \<Rightarrow> rtr \<Rightarrow> rtr_proc list" where
  "others pd s = filter (\<lambda>p. pid p \<noteq> pd) (pl s)"

lemma drop_ref_others: "drop_ref pd b s = Some s1 \<Longrightarrow> others pd s1 = others pd s"
proof (cases "split_first (\<lambda>p. pid p = pd) (pl s)")
  case (Some x)
  assume d: "drop_ref pd b s = Some s1"
  obtain pre p post where x: "x = (pre, p, post)" by (cases x) auto
  note sf = Some [unfolded x]
  obtain r p' where rm: "pl_remove_buf s p b = Some (r, p')" and pl1: "pl s1 = pre @ dec_cnt r p' # post"
    using drop_ref_pl [OF d sf] by auto
  have "pid (dec_cnt r p') = pd" "pl s = pre @ p # post" "pid p = pd"
    using pl_remove_buf_pid [OF rm] split_first_SomeD [OF sf] by (auto simp: dec_cnt_def)
  then show ?thesis by (simp add: others_def pl1)
qed (auto simp: drop_ref_def)

lemma release_neg_others: "release_buf pd b (-1) s = Some (r, s') \<Longrightarrow> others pd s' = others pd s"
  by (auto simp: release_buf_nonpos frame_simps others_def split: option.splits dest!: drop_ref_others)

lemma disc_que_others: "disc_que pd ms s = Some (ms', s') \<Longrightarrow> others pd s' = others pd s"
proof (induction pd ms s arbitrary: ms' s' rule: disc_que.induct)
  case (2 pd m ms s)
  then show ?case by (auto split: if_splits option.splits dest!: release_neg_others)
qed simp

lemma release_msgs_others: "release_msgs pd ms s = Some s' \<Longrightarrow> others pd s' = others pd s"
proof (induction pd ms s rule: release_msgs.induct)
  case (2 pd m ms s)
  then show ?case by (auto split: if_splits option.splits dest!: release_neg_others)
qed simp

lemma release_all_others: "release_all pd s = Some s' \<Longrightarrow> others pd s' = others pd s"
proof (induction pd s rule: release_all.induct)
  case (1 pd s)
  note eq = "1.prems" [unfolded release_all.simps [of pd s]]
  show ?case
  proof (cases "split_first (\<lambda>p. pid p = pd) (pl s)")
    case (Some q)
    obtain pre p post where q: "q = (pre, p, post)" by (cases q) auto
    show ?thesis
    proof (cases "bl p")
      case (Cons i js)
      with eq Some q obtain b r s1 where at: "shm_at s i = Some b"
        and rel: "release_buf pd (sbuf b) (-1) s = Some (r, s1)" and rest: "release_all pd s1 = Some s'"
        by (auto split: option.splits)
      from "1.IH" [OF Some q [symmetric] refl Cons at rel refl rest] release_neg_others [OF rel]
      show ?thesis by simp
    qed (use eq Some q in simp)
  qed (use eq in simp)
qed

lemma remove_pl_others:
  assumes "remove_pl pd s = Some (r, s')"
  shows "others pd s' = others pd s"
proof -
  obtain k s1 where s1: "pl_release_buf_all pd s = Some (k, s1)"
    using assms by (auto simp: remove_pl_def split: option.splits)
  then have o: "others pd s1 = others pd s"
    by (auto simp: pl_release_buf_all_def split: option.splits dest: release_all_others)
  show ?thesis
  proof (cases "split_first (\<lambda>p. pid p = pd) (pl s1)")
    case (Some x)
    obtain pre p post where x: "x = (pre, p, post)" by (cases x) auto
    then have "pl s1 = pre @ p # post" "pid p = pd" using split_first_SomeD [OF Some [unfolded x]] by auto
    then show ?thesis using assms s1 Some x o by (auto simp: remove_pl_def others_def)
  qed (use assms s1 o in \<open>simp add: remove_pl_def\<close>)
qed

lemma msg_disconnect_others:
  assumes "msg_disconnect m s = Some s'"
  shows "others (mpid m) s' = others (mpid m) s"
proof -
  obtain qs s1 where 1: "disc_que (mpid m) (que s) s = Some (qs, s1)"
    using assms by (auto simp: msg_disconnect_def split: option.splits)
  obtain ms qo where 2: "drain_q (mpid m) (q_out s1) = (ms, qo)" by fastforce
  obtain s2 where 3: "release_msgs (mpid m) ms (s1\<lparr>que := qs, q_out := qo\<rparr>) = Some s2"
    using assms 1 2 by (auto simp: msg_disconnect_def split: option.splits)
  obtain ms' qi where 4: "drain_q (mpid m) (q_in s2) = (ms', qi)" by fastforce
  obtain s3 where 5: "release_msgs (mpid m) ms' (s2\<lparr>q_in := qi\<rparr>) = Some s3"
    using assms 1 2 3 4 by (auto simp: msg_disconnect_def split: option.splits)
  obtain r where 6: "remove_pl (mpid m) s3 = Some (r, s')"
    using assms 1 2 3 4 5 by (auto simp: msg_disconnect_def)
  show ?thesis
    using disc_que_others [OF 1] release_msgs_others [OF 3] release_msgs_others [OF 5] remove_pl_others [OF 6]
    by (simp add: others_def)
qed

lemma msg_disconnect_removes:
  assumes "msg_disconnect m s = Some s'" and "mpid m \<notin> pid ` set (pl s')"
  shows "pl s' = filter (\<lambda>p. pid p \<noteq> mpid m) (pl s)"
proof -
  have "filter (\<lambda>p. pid p \<noteq> mpid m) (pl s') = pl s'" using assms(2) by (force simp: filter_id_conv)
  with msg_disconnect_others [OF assms(1)] show ?thesis by (simp add: others_def)
qed

section \<open>Requests in flight\<close>

definition rel_msgs :: "int \<Rightarrow> rtr_msg multiset \<Rightarrow> int multiset" where
  "rel_msgs pd ms = image_mset arg0 {#m \<in># ms. mpid m = pd \<and> cmd m = RTR_RELEASE#}"

lemma rel_msgs_simps [simp]:
  "rel_msgs pd {#} = {#}" "rel_msgs pd (ms + ns) = rel_msgs pd ms + rel_msgs pd ns"
  "rel_msgs pd (add_mset m ms) =
     (if mpid m = pd \<and> cmd m = RTR_RELEASE then add_mset (arg0 m) (rel_msgs pd ms) else rel_msgs pd ms)"
  by (auto simp: rel_msgs_def)

text \<open>
  A request is in order when it does not claim to come from the router, when it asks for a positive
  size, and when a process that says goodbye has no other request on its way, has forgotten its
  buffers, and waits for no reply.
\<close>

definition req_ok :: "(int \<Rightarrow> int multiset) \<Rightarrow> rtr_msg multiset \<Rightarrow> rtr_msg list \<Rightarrow> rtr_msg \<Rightarrow> bool" where
  "req_ok has ms os m \<longleftrightarrow>
     mpid m \<noteq> RTR_MTYPE_ROUTER \<and> (cmd m = RTR_GETBUF \<longrightarrow> 0 < arg0 m) \<and>
     (cmd m = RTR_DISCONNECT \<longrightarrow>
        {#x \<in># ms. mpid x = mpid m#} = {#m#} \<and> has (mpid m) = {#} \<and>
        (\<forall>x \<in> set os. mtype x = mpid m \<longrightarrow> cmd x = RTR_BUFFER))"

definition sys_ok :: "(int \<Rightarrow> int multiset) \<Rightarrow> rtr_msg multiset \<Rightarrow> rtr \<Rightarrow> bool" where
  "sys_ok has ms s \<longleftrightarrow>
     rtr_inv s \<and> (\<forall>k. mok s k) \<and> mq_live (q_out s) \<and> mq_live (q_in s) \<and>
     (\<forall>m \<in> set (mq_msgs (q_in s)). mtype m = RTR_MTYPE_ROUTER) \<and>
     (\<forall>pd. buf_msgs pd (out s) + (has pd + rel_msgs pd ms) \<subseteq># held s pd) \<and>
     (\<forall>m \<in># ms. req_ok has ms (out s) m)"

lemma sys_okD:
  assumes "sys_ok has ms s"
  shows "rtr_inv s" "\<forall>k. mok s k" "mq_live (q_out s)" "mq_live (q_in s)"
    "\<forall>m \<in> set (mq_msgs (q_in s)). mtype m = RTR_MTYPE_ROUTER"
    "buf_msgs pd (out s) + (has pd + rel_msgs pd ms) \<subseteq># held s pd"
    "m \<in># ms \<Longrightarrow> req_ok has ms (out s) m"
  using assms by (auto simp: sys_ok_def)

lemma req_ok_consume:
  assumes ok: "req_ok has (add_mset m ms) os d" and d: "d \<in># ms"
    and os: "\<forall>x \<in> set os'. x \<in> set os \<or> cmd x = RTR_BUFFER \<or> mtype x = mpid m"
  shows "req_ok has ms os' d"
proof (cases "cmd d = RTR_DISCONNECT")
  case True
  have eq: "{#x \<in># add_mset m ms. mpid x = mpid d#} = {#d#}" using ok True by (simp add: req_ok_def)
  have "mpid m \<noteq> mpid d"
  proof
    assume "mpid m = mpid d"
    then have "{#x \<in># ms. mpid x = mpid d#} = {#}" using eq by auto
    with d show False by auto
  qed
  with eq ok os True show ?thesis by (auto simp: req_ok_def)
next
  case False
  with ok show ?thesis by (auto simp: req_ok_def)
qed

lemma sys_ok_consume:
  assumes ok: "sys_ok has (add_mset m ms) s" and "rtr_inv s'" and "\<forall>k. mok s' k" and "mq_live (q_out s')"
    and "q_in s' = q_in s" and "\<And>pd. buf_msgs pd (out s') + (has pd + rel_msgs pd ms) \<subseteq># held s' pd"
    and "\<forall>x \<in> set (out s'). x \<in> set (out s) \<or> cmd x = RTR_BUFFER \<or> mtype x = mpid m"
  shows "sys_ok has ms s'"
proof -
  have "req_ok has ms (out s') x" if "x \<in># ms" for x
    using req_ok_consume [OF sys_okD(7) [OF ok] that assms(7)] that by simp
  with assms sys_okD(4,5) [OF ok] show ?thesis by (simp add: sys_ok_def)
qed

text \<open>The kernel's queue stays alive under every handler.\<close>

lemma send_msg_live [simp]: "mq_live (q_out (snd (send_msg t c a1 a2 a3 s))) = mq_live (q_out s)"
  by (auto simp: send_msg_def que_msg_def que_snd_def malloc_def Let_def split: prod.splits if_splits
      dest!: que_snd_loop_out)

lemma send_msg_mok [simp]: "mok (snd (send_msg t c a1 a2 a3 s)) = mok s"
  using send_msg_frame(2) [of t c a1 a2 a3 s] by (simp add: env_def)

lemma send_buf_loop_live: "send_buf_loop shm n ps s = (r, ps', s') \<Longrightarrow> mq_live (q_out s') = mq_live (q_out s)"
proof (induction ps arbitrary: s r ps' s')
  case (Cons p ps)
  have "mq_live (q_out (served shm n p s)) = mq_live (q_out s)"
    by (simp add: served_def frame_simps)
  with Cons.prems show ?case
    by (auto simp: send_buf_loop_Cons split: if_splits prod.splits dest!: Cons.IH)
qed simp

lemma release_buf_live: "release_buf pd b n s = Some (r, s') \<Longrightarrow> mq_live (q_out s') = mq_live (q_out s)"
  by (auto simp: release_buf_def send_buf_def Let_def frame_simps split: option.splits if_splits prod.splits
      dest!: drop_ref_links send_buf_loop_live) (auto simp: links_def)

section \<open>Each request keeps the system in order\<close>

lemma sub_mset_release:
  assumes "B + (H + add_mset b R) \<subseteq># (T :: 'a multiset)"
  shows "b \<in># T" "B + N + (H + R) \<subseteq># T - {#b#} + N"
proof -
  have 1: "add_mset b (B + (H + R)) \<subseteq># T" using assms by simp
  then show "b \<in># T" by (rule mset_subset_eq_insertD [THEN conjunct1])
  from 1 have "B + (H + R) \<subseteq># T - {#b#}" by (simp add: insert_subset_eq_iff)
  then have "B + (H + R) + N \<subseteq># T - {#b#} + N" by (rule subset_mset.add_right_mono)
  then show "B + N + (H + R) \<subseteq># T - {#b#} + N" by (simp add: union_ac)
qed

lemma release_sys_ok:
  assumes ok: "sys_ok has (add_mset m ms) s" and c: "cmd m = RTR_RELEASE"
  shows "\<exists>s'. release_buf (mpid m) (arg0 m) n s = Some (0, s') \<and> sys_ok has ms s'"
proof -
  let ?pd = "mpid m"
  note d = sys_okD [OF ok]
  have sub: "buf_msgs ?pd (out s) + (has ?pd + add_mset (arg0 m) (rel_msgs ?pd ms)) \<subseteq># held s ?pd"
    using d(6) [of ?pd] c by simp
  obtain s1 s' where r: "release_buf ?pd (arg0 m) n s = Some (0, s')" and i: "rtr_inv s'"
    and s1: "held s1 = (held s)(?pd := held s ?pd - {#arg0 m#})" "out s1 = out s" and dl: "delivers s1 s'"
    by (rule release_buf_held [OF d(1,2) sub_mset_release(1) [OF sub], of n])
  obtain new where new: "out s' = out s @ new" "\<forall>m \<in> set new. cmd m = RTR_BUFFER"
    "\<And>qd. held s' qd = held s1 qd + buf_msgs qd new"
    using dl s1(2) by (auto simp: delivers_def)
  note fr = release_buf_frame [OF r]
  have "sys_ok has ms s'"
  proof (rule sys_ok_consume [OF ok i])
    show "\<forall>k. mok s' k" "mq_live (q_out s')" "q_in s' = q_in s"
      using fr d(2,3) release_buf_live [OF r] by (auto simp: env_def)
    show "buf_msgs pd (out s') + (has pd + rel_msgs pd ms) \<subseteq># held s' pd" for pd
    proof (cases "pd = ?pd")
      case True
      with new s1(1) sub_mset_release(2) [OF sub, of "buf_msgs ?pd new"] show ?thesis by simp
    next
      case False
      have "buf_msgs pd (out s) + (has pd + rel_msgs pd ms) + buf_msgs pd new \<subseteq># held s pd + buf_msgs pd new"
        using d(6) [of pd] False by simp
      with False new s1(1) show ?thesis by (simp add: union_ac)
    qed
    show "\<forall>x \<in> set (out s'). x \<in> set (out s) \<or> cmd x = RTR_BUFFER \<or> mtype x = ?pd"
      using new(1,2) by auto
  qed
  with r show ?thesis by blast
qed

lemma disconnect_sys_ok:
  assumes ok: "sys_ok has (add_mset m ms) s" and c: "cmd m = RTR_DISCONNECT"
  shows "\<exists>s'. msg_disconnect m s = Some s' \<and> sys_ok has ms s'"
proof -
  let ?pd = "mpid m"
  note d = sys_okD [OF ok]
  have rq: "?pd \<noteq> RTR_MTYPE_ROUTER" "{#x \<in># ms. mpid x = ?pd#} = {#}" "has ?pd = {#}"
    "\<forall>x \<in> set (out s). mtype x = ?pd \<longrightarrow> cmd x = RTR_BUFFER"
    using d(7) [of m] c by (auto simp: req_ok_def)
  have "{#x \<in># ms. mpid x = ?pd \<and> cmd x = RTR_RELEASE#} = {#}"
    using rq(2) by auto
  then have rel: "rel_msgs ?pd ms = {#}" by (simp add: rel_msgs_def)
  obtain s' where s': "msg_disconnect m s = Some s'" "rtr_inv s'" "held s' = (held s)(?pd := {#})"
    "out s' = filter (\<lambda>x. mtype x \<noteq> ?pd) (out s)" "q_in s' = q_in s" "mok s' = mok s" "mq_live (q_out s')"
    using msg_disconnect_held [OF d(1-4), of m] d(5) rq(1,4) mset_add_subD(1) [OF d(6) [of ?pd]]
    by (auto simp: out_def)
  have "buf_msgs pd (out s') + (has pd + rel_msgs pd ms) \<subseteq># held s' pd" for pd
    using d(6) [of pd] c rq(3) rel s'(3,4) by (auto simp: rtr_consts)
  with s' d(2) have "sys_ok has ms s'"
    by (intro sys_ok_consume [OF ok]) auto
  with s'(1) show ?thesis by blast
qed

lemma send_msg_inv: "rtr_inv s \<Longrightarrow> rtr_inv (snd (send_msg t c a1 a2 a3 s))"
  unfolding rtr_inv_def
  by (rule rtr_inv_cong) (use send_msg_frame [of t c a1 a2 a3 s] send_msg_next_id in \<open>auto simp: env_def\<close>)

lemma send_msg_held [simp]: "held (snd (send_msg t c a1 a2 a3 s)) = held s"
  by (simp add: held_def frame_simps)

text \<open>A reply to the sender of a request that gives nothing back.\<close>

lemma reply_sys_ok:
  assumes ok: "sys_ok has (add_mset m ms) s" and c: "cmd m \<noteq> RTR_RELEASE" and i: "rtr_inv s1"
    and s1: "out s1 = out s" "q_in s1 = q_in s" "mok s1 = mok s" "mq_live (q_out s1)"
    and h: "\<And>pd. held s1 pd = held s pd + (if pd = mpid m \<and> com = RTR_BUFFER then {#a1#} else {#})"
  shows "sys_ok has ms (snd (send_msg (mpid m) com a1 a2 a3 s1))"
proof (rule sys_ok_consume [OF ok send_msg_inv [OF i]])
  note d = sys_okD [OF ok]
  have mok1: "\<forall>k. mok s1 k" using d(2) s1(3) by simp
  show "\<forall>k. mok (snd (send_msg (mpid m) com a1 a2 a3 s1)) k" using mok1 by simp
  show "mq_live (q_out (snd (send_msg (mpid m) com a1 a2 a3 s1)))" using s1 by simp
  show "q_in (snd (send_msg (mpid m) com a1 a2 a3 s1)) = q_in s" using s1 by (simp add: frame_simps)
  have os: "out (snd (send_msg (mpid m) com a1 a2 a3 s1)) =
     out s @ [\<lparr>mtype = mpid m, mpid = RTR_MTYPE_ROUTER, cmd = com, arg0 = a1, arg1 = a2, arg2 = a3,
              mname = strncpy RTR_NAME_LEN (proc_name s1)\<rparr>]"
    using send_msg_out [OF mok1] s1 by simp
  show "\<forall>x \<in> set (out (snd (send_msg (mpid m) com a1 a2 a3 s1))).
      x \<in> set (out s) \<or> cmd x = RTR_BUFFER \<or> mtype x = mpid m"
    by (auto simp: os)
  show "buf_msgs pd (out (snd (send_msg (mpid m) com a1 a2 a3 s1))) + (has pd + rel_msgs pd ms)
      \<subseteq># held (snd (send_msg (mpid m) com a1 a2 a3 s1)) pd" for pd
    using d(6) [of pd] c by (auto simp: os h)
qed

lemma drop_sys_ok:
  assumes "sys_ok has (add_mset m ms) s" and "cmd m \<noteq> RTR_RELEASE"
  shows "sys_ok has ms s"
  by (rule sys_ok_consume [OF assms(1)]) (use sys_okD [OF assms(1)] assms(2) in auto)

lemma connect_sys_ok:
  assumes ok: "sys_ok has (add_mset m ms) s" and c: "cmd m = RTR_CONNECT"
  shows "sys_ok has ms (msg_connect m s)"
proof -
  note d = sys_okD [OF ok] and inv = sys_okD(1) [OF ok, unfolded rtr_inv_def]
  have c': "cmd m \<noteq> RTR_RELEASE" using c by (simp add: rtr_consts)
  have refuse: "sys_ok has ms (snd (send_msg (mpid m) RTR_REFUSE 0 0 0 s))"
    by (rule reply_sys_ok [OF ok c' d(1)]) (use d(3) in \<open>auto simp: rtr_consts\<close>)
  define p where "p = \<lparr>pid = mpid m, flag = arg0 m, cnt = 0, cnt_total = 0, c_time = now s, l_time = now s,
    bl = [], pname = strncpy RTR_NAME_LEN (mname m)\<rparr>"
  define s1 where "s1 = s\<lparr>next_id := Suc (next_id s), pl := pl s @ [p]\<rparr>"
  have np: "new_pl (mpid m) (arg0 m) (mname m) s = (True, s1)"
    using d(2) by (simp add: new_pl_def malloc_def s1_def p_def)
  show ?thesis
  proof (cases "mpid m \<in> pid ` set (pl s) \<or> arg0 m \<notin> {O_RDONLY, O_WRONLY, O_SAMPLE} \<or> arg1 m \<noteq> ROUTER_VERSION")
    case True
    have "ROUTER_VERSION_MIN = ROUTER_VERSION" by (simp add: rtr_consts)
    with True drop_sys_ok [OF ok c'] refuse show ?thesis
      by (auto simp: msg_connect_def image_iff)
  next
    case False
    have "rtr_inv_owed None s1"
    proof (rule rtr_inv_owedI)
      show "heap_ok s1" using rtr_inv_owedD(1) [OF inv] by (rule heap_ok_cong) (simp_all add: s1_def)
      show "distinct (map pid (pl s1))" using rtr_inv_owedD(2) [OF inv] False by (auto simp: s1_def p_def)
      show "proc_ok (sid ` set (shm_used s1)) q" if "q \<in> set (pl s1)" for q
        using that rtr_inv_owedD(3) [OF inv, of q] False
        by (auto simp: s1_def) (auto simp: p_def proc_ok_def limit_of_def rtr_consts)
      show "ref_ok None (pl s1) b" if "b \<in> set (shm_used s1)" for b
        using that rtr_inv_owedD(5) [OF inv, of b] by (simp add: s1_def ref_ok_def p_def)
      show "msg_count s1 = int (nheld (pl s1)) + (if None = None then 0 else 1)"
        using rtr_inv_owedD(4) [OF inv] by (simp add: s1_def p_def)
    qed
    then have "sys_ok has ms (snd (send_msg (mpid m) RTR_CONNECT 0 0 0 s1))"
      using d(3) False
      by (intro reply_sys_ok [OF ok c'])
         (auto simp: rtr_inv_def s1_def held_def p_def held_by_unknown rtr_consts)
    with False np show ?thesis by (auto simp: msg_connect_def image_iff rtr_consts)
  qed
qed

lemma getbuf_sys_ok:
  assumes ok: "sys_ok has (add_mset m ms) s" and c: "cmd m = RTR_GETBUF" and g: "msg_getbuf m s = (r, s')"
  shows "r = 0 \<and> sys_ok has ms s' \<and> q_in s' = q_in s \<or> r = 1 \<and> s' = s"
proof -
  note d = sys_okD [OF ok]
  have c': "cmd m \<noteq> RTR_RELEASE" using c by (simp add: rtr_consts)
  have n: "0 < arg0 m" using d(7) [of m] c by (simp add: req_ok_def)
  have refuse: "sys_ok has ms (snd (send_msg (mpid m) RTR_REFUSE 0 0 0 s))"
    by (rule reply_sys_ok [OF ok c' d(1)]) (use d(3) in \<open>auto simp: rtr_consts\<close>)
  obtain e ob s1 where gb: "get_buf (mpid m) (arg0 m) s = (e, ob, s1)" by (metis surj_pair)
  from get_buf_held [OF d(1,2) n gb] show ?thesis
  proof
    assume "e \<in> {2, -1, -2} \<and> ob = None \<and> s1 = s"
    with gb g refuse drop_sys_ok [OF ok c'] show ?thesis
      by (auto simp: msg_getbuf_def frame_simps)
  next
    assume "\<exists>b. e = 0 \<and> ob = Some b \<and> b \<in> set (shm_used s1) \<and> ssize b = round4 (arg0 m) \<and> rtr_inv s1 \<and>
      held s1 = (held s)(mpid m := held s (mpid m) + {#sbuf b#}) \<and> links s1 = links s"
    then obtain b where b: "e = 0" "ob = Some b" "rtr_inv s1" "links s1 = links s"
      "held s1 = (held s)(mpid m := held s (mpid m) + {#sbuf b#})" by blast
    have "sys_ok has ms (snd (send_msg (mpid m) RTR_BUFFER (sbuf b) (ssize b) 0 s1))"
      by (rule reply_sys_ok [OF ok c' b(3) links_out [OF b(4)]])
         (use b(4,5) d(3) in \<open>auto simp: links_def\<close>)
    with b gb g show ?thesis by (auto simp: msg_getbuf_def frame_simps links_def)
  qed
qed

lemma sys_ok_upd [simp]:
  "sys_ok has ms (s\<lparr>mb := x\<rparr>) = sys_ok has ms s" "sys_ok has ms (s\<lparr>end_flag := e\<rparr>) = sys_ok has ms s"
  by (simp_all add: sys_ok_def held_def rtr_inv_def rtr_inv_owed_def heap_ok_def)

text \<open>
  The dispatcher: a request in order is never a use after \<^verbatim>\<open>free()\<close>; when it is served the others stay in
  order, when it stays pending nothing has changed.
\<close>

lemma message_sys_ok:
  assumes ok: "sys_ok has (add_mset m ms) s"
  shows "\<exists>r s'. message m s = Some (r, s') \<and> q_in s' = q_in s \<and> mb s' = mb s \<and>
     (r = 0 \<and> sys_ok has ms s' \<or> r = 1 \<and> s' = s \<or> r = -1 \<and> cmd m = RTR_TERMINATE \<and> s' = s\<lparr>end_flag := True\<rparr>)"
proof -
  consider (con) "cmd m = RTR_CONNECT" | (dis) "cmd m = RTR_DISCONNECT" | (rel) "cmd m = RTR_RELEASE"
    | (get) "cmd m = RTR_GETBUF" | (ter) "cmd m = RTR_TERMINATE"
    | (oth) "cmd m \<notin> {RTR_CONNECT, RTR_DISCONNECT, RTR_RELEASE, RTR_GETBUF, RTR_TERMINATE}" by blast
  then show ?thesis
  proof cases
    case con
    then show ?thesis
      using connect_sys_ok [OF ok] msg_connect_frame [of m s] by (simp add: message_def env_def)
  next
    case dis
    then obtain s' where s': "msg_disconnect m s = Some s'" "sys_ok has ms s'"
      using disconnect_sys_ok [OF ok] by blast
    have q: "q_in s' = q_in s"
      using s'(1) msg_disconnect_held [OF sys_okD(1-4) [OF ok], of m] sys_okD(5) [OF ok]
        sys_okD(7) [OF ok, of m] mset_add_subD(1) [OF sys_okD(6) [OF ok, of "mpid m"]] dis
      by (auto simp: req_ok_def out_def)
    from s' q msg_disconnect_frame [OF s'(1)] dis show ?thesis
      by (simp add: message_def env_def rtr_consts)
  next
    case rel
    obtain s' where s': "release_buf (mpid m) (arg0 m) (arg1 m) s = Some (0, s')" "sys_ok has ms s'"
      using release_sys_ok [OF ok rel] by blast
    with rel release_buf_frame [OF s'(1)] show ?thesis
      by (auto simp: message_def msg_release_def env_def rtr_consts)
  next
    case get
    obtain r s' where g: "msg_getbuf m s = (r, s')" by fastforce
    from getbuf_sys_ok [OF ok get g] msg_getbuf_frame [OF g] get g show ?thesis
      by (auto simp: message_def env_def rtr_consts)
  next
    case ter
    then show ?thesis by (simp add: message_def rtr_consts)
  next
    case oth
    then show ?thesis using drop_sys_ok [OF ok] by (auto simp: message_def)
  qed
qed

end
