(* ===== verification/Router_Steps.thy ===== *)
theory Router_Steps
  imports Router_System
begin

text \<open>
  The listener and the clients as a transition system: clients put requests into the router's queue and
  take replies out of theirs, the router runs \<^verbatim>\<open>do_listen\<close>. The invariant of the system is kept by every
  step, for any number of clients and any interleaving.
\<close>

section \<open>The listener keeps the system in order\<close>

definition inflight :: "rtr \<Rightarrow> rtr_msg multiset" where
  "inflight s = mset (mb s) + mset (mq_msgs (q_in s))"

text \<open>Cutting the name of a message does not matter to the protocol.\<close>

lemma req_ok_rename:
  assumes "req_ok has (add_mset m ms) os d" and "d \<in># ms"
  shows "req_ok has (add_mset (m\<lparr>mname := x\<rparr>) ms) os d"
proof (cases "cmd d = RTR_DISCONNECT")
  case True
  have eq: "{#y \<in># add_mset m ms. mpid y = mpid d#} = {#d#}" using assms True by (simp add: req_ok_def)
  have "mpid m \<noteq> mpid d"
  proof
    assume "mpid m = mpid d"
    then have "{#y \<in># ms. mpid y = mpid d#} = {#}" using eq by auto
    with assms(2) show False by auto
  qed
  with eq assms True show ?thesis by (auto simp: req_ok_def)
next
  case False
  with assms show ?thesis by (auto simp: req_ok_def)
qed

lemma sys_ok_rename:
  assumes "sys_ok has (add_mset m ms) s"
  shows "sys_ok has (add_mset (m\<lparr>mname := x\<rparr>) ms) s"
proof -
  have "req_ok has (add_mset (m\<lparr>mname := x\<rparr>) ms) (out s) (m\<lparr>mname := x\<rparr>)"
    using sys_okD(7) [OF assms, of m] by (auto simp: req_ok_def)
  moreover have "rel_msgs pd (add_mset (m\<lparr>mname := x\<rparr>) ms) = rel_msgs pd (add_mset m ms)" for pd by simp
  ultimately show ?thesis
    using sys_okD(1-5) [OF assms] sys_okD(6) [OF assms] req_ok_rename [OF sys_okD(7) [OF assms]]
    unfolding sys_ok_def by auto
qed

lemma sys_ok_qin:
  "sys_ok has ms s \<Longrightarrow> mq_live q \<Longrightarrow> \<forall>m \<in> set (mq_msgs q). mtype m = RTR_MTYPE_ROUTER \<Longrightarrow> sys_ok has ms (s\<lparr>q_in := q\<rparr>)"
  by (simp add: sys_ok_def held_def rtr_inv_def rtr_inv_owed_def heap_ok_def)

lemma do_pending_ok:
  assumes "sys_ok has (inflight s) s" and "mb s = pre @ ms"
  shows "\<exists>r s'. do_pending pre ms s = Some (r, s') \<and> sys_ok has (inflight s') s'"
  using assms
proof (induction pre ms s rule: do_pending.induct)
  case (2 pre m ms s)
  let ?rest = "mset pre + mset ms + mset (mq_msgs (q_in s))"
  have in_eq: "inflight s = add_mset m ?rest" using "2.prems"(2) by (simp add: inflight_def)
  then obtain r s1 where ms: "message m s = Some (r, s1)" and fr: "q_in s1 = q_in s" "mb s1 = mb s"
    and cs: "r = 0 \<and> sys_ok has ?rest s1 \<or> r = 1 \<and> s1 = s \<or>
             r = -1 \<and> cmd m = RTR_TERMINATE \<and> s1 = s\<lparr>end_flag := True\<rparr>"
    using message_sys_ok [of has m ?rest s] "2.prems"(1) by auto
  from cs consider "r = 0" "sys_ok has ?rest s1" | "r = 1" "s1 = s" | "r = -1" "s1 = s\<lparr>end_flag := True\<rparr>" by blast
  then show ?case
  proof cases
    case 1
    with ms fr show ?thesis by (simp add: inflight_def)
  next
    case 2
    have "mb s = (pre @ [m]) @ ms" using "2.prems"(2) by simp
    from "2.IH" [OF ms refl _ 2(1)] 2 "2.prems"(1) this ms show ?thesis by simp
  next
    case 3
    with ms "2.prems"(1) show ?thesis by (simp add: inflight_def)
  qed
qed auto

lemma do_receive_ok:
  assumes "sys_ok has (inflight s) s"
  shows "\<exists>r s'. do_receive s = Some (r, s') \<and> sys_ok has (inflight s') s'"
  using assms
proof (induction s rule: do_receive.induct)
  case (1 s)
  note d = sys_okD [OF "1.prems"]
  show ?case
  proof (cases "split_first (\<lambda>m. mtype m = RTR_MTYPE_ROUTER) (mq_msgs (q_in s))")
    case None
    with "1.prems" d(4) show ?thesis by (simp add: do_receive.simps [of s] msgrcv_nowait_def)
  next
    case (Some x)
    obtain pre m post where x: "x = (pre, m, post)" by (cases x) auto
    let ?q = "(q_in s)\<lparr>mq_msgs := pre @ post\<rparr>" and ?m = "m\<lparr>mname := strncpy RTR_NAME_LEN (mname m)\<rparr>"
    have rc: "msgrcv_nowait RTR_MTYPE_ROUTER (q_in s) = Inr (m, ?q)"
      using Some x d(4) by (simp add: msgrcv_nowait_def)
    have qm: "mq_msgs (q_in s) = pre @ m # post" using split_first_SomeD [OF Some [unfolded x]] by simp
    let ?s = "s\<lparr>q_in := ?q\<rparr>" and ?rest = "mset (mb s) + mset (pre @ post)"
    have "sys_ok has (add_mset ?m ?rest) ?s"
      using sys_ok_rename [of has m ?rest s] "1.prems" d(4,5) qm
      by (intro sys_ok_qin) (auto simp: inflight_def)
    from message_sys_ok [OF this] obtain r s1 where
      ms: "message ?m ?s = Some (r, s1)" and fr: "q_in s1 = ?q" "mb s1 = mb s"
      and cs: "r = 0 \<and> sys_ok has ?rest s1 \<or> r = 1 \<and> s1 = ?s \<or>
               r = -1 \<and> cmd m = RTR_TERMINATE \<and> s1 = ?s\<lparr>end_flag := True\<rparr>"
      by auto
    from cs consider "r = 0" "sys_ok has ?rest s1" | "r = 1" "s1 = ?s"
      | "r = -1" "cmd m = RTR_TERMINATE" "s1 = ?s\<lparr>end_flag := True\<rparr>" by blast
    then show ?thesis
    proof cases
      case 1
      with rc ms fr show ?thesis by (simp add: do_receive.simps [of s] inflight_def)
    next
      case 2
      let ?s2 = "s1\<lparr>next_id := Suc (next_id s1)\<rparr>"
      have ma: "malloc s1 = (Some (next_id s1), ?s2)" using 2 d(2) by (simp add: malloc_def)
      let ?s3 = "?s2\<lparr>mb := mb ?s2 @ [?m]\<rparr>"
      have "sys_ok has (add_mset ?m ?rest) ?s2"
        using \<open>sys_ok has (add_mset ?m ?rest) ?s\<close> 2
        by (simp add: sys_ok_def held_def rtr_inv_def rtr_inv_next_id out_def)
      then have "sys_ok has (inflight ?s3) ?s3" using 2 by (simp add: inflight_def union_ac)
      with "1.IH"(2) [OF rc refl refl ms refl _ 2(1) ma [symmetric] refl] 2(1)
      have "\<exists>r s'. do_receive ?s3 = Some (r, s') \<and> sys_ok has (inflight s') s'" by simp
      with rc ms ma 2 show ?thesis by (simp add: do_receive.simps [of s])
    next
      case 3
      have "sys_ok has ?rest s1"
        using drop_sys_ok [OF \<open>sys_ok has (add_mset ?m ?rest) ?s\<close>] 3 by (simp add: rtr_consts)
      with rc ms fr 3 show ?thesis by (simp add: do_receive.simps [of s] inflight_def)
    qed
  qed
qed

lemma que_snd_sys_ok:
  assumes "sys_ok has ms s"
  shows "sys_ok has ms (snd (que_snd s))"
proof -
  let ?s = "snd (que_snd s)"
  have eq: "shm_used ?s = shm_used s" "shm_free ?s = shm_free s" "pl ?s = pl s" "msg_count ?s = msg_count s"
    "next_id ?s = next_id s" "shmsize ?s = shmsize s" "mok ?s = mok s" "mq_live (q_out ?s) = mq_live (q_out s)"
    by (auto simp: que_snd_def split: prod.splits dest: que_snd_loop_out)
  then have "rtr_inv ?s" "held ?s = held s"
    using sys_okD(1) [OF assms] rtr_inv_cong [of None s ?s] by (auto simp: rtr_inv_def held_def)
  with eq que_snd_out [of s] que_snd_frame(2) [of s] assms show ?thesis
    unfolding sys_ok_def by auto
qed

lemma do_listen_ok:
  assumes "sys_ok has (inflight s) s"
  shows "\<exists>r s'. do_listen s = Some (r, s') \<and> sys_ok has (inflight s') s'"
proof -
  let ?s = "snd (que_snd s)"
  have "inflight ?s = inflight s"
    using que_snd_frame [of s] by (simp add: inflight_def env_def)
  then have "sys_ok has (inflight ?s) ?s" using que_snd_sys_ok [OF assms] by simp
  then obtain r s1 where p: "do_pending [] (mb ?s) ?s = Some (r, s1)" "sys_ok has (inflight s1) s1"
    using do_pending_ok [of has ?s "[]" "mb ?s"] by auto
  show ?thesis
  proof (cases r)
    case None
    with p do_receive_ok [OF p(2)] show ?thesis by (simp add: do_listen_def Let_def)
  next
    case (Some c)
    with p show ?thesis by (simp add: do_listen_def Let_def)
  qed
qed

lemma listen_loop_ok:
  assumes "sys_ok has (inflight s) s"
  shows "\<exists>e s'. listen_loop s = Some (e, s') \<and> sys_ok has (inflight s') s'"
  using assms
proof (induction s rule: listen_loop.induct)
  case (1 s)
  obtain r s1 where dl: "do_listen s = Some (r, s1)" and ok: "sys_ok has (inflight s1) s1"
    using do_listen_ok [OF "1.prems"] by blast
  show ?case
  proof (cases "end_flag s \<or> r \<noteq> Ret 0")
    case True
    with dl ok "1.prems" show ?thesis
      by (cases r) (auto simp: listen_loop.simps [of s])
  next
    case False
    with "1.IH" [of "(r, s1)" r s1 0] dl ok show ?thesis by (simp add: listen_loop.simps [of s])
  qed
qed

section \<open>Clients\<close>

text \<open>
  What a client program that follows the protocol of \<^verbatim>\<open>router_lib.c\<close> may send, and the buffers it has
  afterwards: it releases only a buffer it has, it requests a positive size, and it disconnects when the
  router owes it no reply and has no request of it any more. A process that has disconnected is silent.
\<close>

definition gone :: "int \<Rightarrow> rtr \<Rightarrow> bool" where
  "gone pd s \<longleftrightarrow> (\<exists>m \<in># inflight s. mpid m = pd \<and> cmd m = RTR_DISCONNECT)"

definition client_send :: "rtr_msg \<Rightarrow> rtr \<Rightarrow> (int \<Rightarrow> int multiset) \<Rightarrow> (int \<Rightarrow> int multiset) option" where
  "client_send m s has =
     (if mtype m \<noteq> RTR_MTYPE_ROUTER \<or> mpid m = RTR_MTYPE_ROUTER \<or> gone (mpid m) s then None
      else if cmd m = RTR_RELEASE then
        (if arg0 m \<in># has (mpid m) then Some (has(mpid m := has (mpid m) - {#arg0 m#})) else None)
      else if cmd m = RTR_GETBUF then (if 0 < arg0 m then Some has else None)
      else if cmd m = RTR_DISCONNECT then
        (if (\<exists>x \<in># inflight s. mpid x = mpid m) \<or> (\<exists>x \<in> set (out s). mtype x = mpid m \<and> cmd x \<noteq> RTR_BUFFER)
         then None else Some (has(mpid m := {#})))
      else Some has)"

definition client_recv :: "rtr_msg \<Rightarrow> int \<Rightarrow> (int \<Rightarrow> int multiset) \<Rightarrow> int \<Rightarrow> int multiset" where
  "client_recv m pd has = (if cmd m = RTR_BUFFER then has(pd := has pd + {#arg0 m#}) else has)"

inductive step :: "(int \<Rightarrow> int multiset) \<times> rtr \<Rightarrow> (int \<Rightarrow> int multiset) \<times> rtr \<Rightarrow> bool" where
  send: "client_send m s has = Some has' \<Longrightarrow> msgsnd_nowait m (q_in s) = Inr q \<Longrightarrow>
    step (has, s) (has', s\<lparr>q_in := q\<rparr>)"
| recv: "\<not> gone pd s \<Longrightarrow> msgrcv_nowait pd (q_out s) = Inr (m, q) \<Longrightarrow>
    step (has, s) (client_recv m pd has, s\<lparr>q_out := q\<rparr>)"
| listen: "do_listen s = Some (r, s') \<Longrightarrow> step (has, s) (has, s')"

lemma snd_sys_ok:
  assumes ok: "sys_ok has (inflight s) s" and c: "client_send m s has = Some has'"
    and q: "msgsnd_nowait m (q_in s) = Inr q"
  shows "sys_ok has' (inflight (s\<lparr>q_in := q\<rparr>)) (s\<lparr>q_in := q\<rparr>)"
proof -
  note d = sys_okD [OF ok]
  have qm: "mq_msgs q = mq_msgs (q_in s) @ [m]" "mq_live q"
    using q by (auto simp: msgsnd_nowait_def split: if_splits)
  have t: "mtype m = RTR_MTYPE_ROUTER" "mpid m \<noteq> RTR_MTYPE_ROUTER" "\<not> gone (mpid m) s"
    using c by (auto simp: client_send_def split: if_splits)
  have old: "req_ok has' (add_mset m (inflight s)) (out s) x" if x: "x \<in># inflight s" for x
  proof -
    have "cmd x = RTR_DISCONNECT \<Longrightarrow> mpid x \<noteq> mpid m" using t(3) x by (auto simp: gone_def)
    moreover have "pd \<noteq> mpid m \<Longrightarrow> has' pd = has pd" for pd
      using c by (auto simp: client_send_def split: if_splits)
    ultimately show ?thesis using d(7) [OF x] by (auto simp: req_ok_def)
  qed
  have new: "req_ok has' (add_mset m (inflight s)) (out s) m"
    using c t by (auto simp: req_ok_def client_send_def rtr_consts split: if_splits)
  have own: "has' pd + rel_msgs pd (add_mset m (inflight s)) \<subseteq># has pd + rel_msgs pd (inflight s)" for pd
    using c by (auto simp: client_send_def insert_subset_eq_iff union_ac split: if_splits)
  have own': "buf_msgs pd (out s) + (has' pd + rel_msgs pd (add_mset m (inflight s))) \<subseteq># held s pd" for pd
    using subset_mset.order_trans [OF subset_mset.add_left_mono [OF own [of pd]] d(6) [of pd]] by simp
  have "sys_ok has' (add_mset m (inflight s)) s"
    using d(1-5) old new own' unfolding sys_ok_def by auto
  moreover have "inflight (s\<lparr>q_in := q\<rparr>) = add_mset m (inflight s)" using qm by (simp add: inflight_def)
  ultimately show ?thesis using sys_ok_qin [of has' _ s q] qm d(5) t(1) by auto
qed

lemma rcv_sys_ok:
  assumes ok: "sys_ok has (inflight s) s" and g: "\<not> gone pd s" and q: "msgrcv_nowait pd (q_out s) = Inr (m, q)"
  shows "sys_ok (client_recv m pd has) (inflight (s\<lparr>q_out := q\<rparr>)) (s\<lparr>q_out := q\<rparr>)"
proof -
  note d = sys_okD [OF ok]
  obtain pre post where qm: "mq_msgs (q_out s) = pre @ m # post" "q = (q_out s)\<lparr>mq_msgs := pre @ post\<rparr>" "mtype m = pd"
    using q by (auto simp: msgrcv_nowait_def split: if_splits option.splits dest!: split_first_SomeD)
  have os: "out (s\<lparr>q_out := q\<rparr>) = pre @ post @ que s" "out s = pre @ m # post @ que s"
    using qm by (simp_all add: out_def)
  have own: "buf_msgs qd (pre @ post @ que s) + (client_recv m pd has qd + rel_msgs qd (inflight s)) \<subseteq># held s qd" for qd
    using d(6) [of qd] qm(3) by (auto simp: os client_recv_def union_ac)
  have rq: "req_ok (client_recv m pd has) (inflight s) (pre @ post @ que s) x" if x: "x \<in># inflight s" for x
  proof -
    have "cmd x = RTR_DISCONNECT \<Longrightarrow> mpid x \<noteq> pd" using g x by (auto simp: gone_def)
    with d(7) [OF x] show ?thesis by (auto simp: req_ok_def os client_recv_def)
  qed
  have "rtr_inv (s\<lparr>q_out := q\<rparr>)" using d(1) unfolding rtr_inv_def by (rule rtr_inv_cong) simp_all
  with d(2-5) own rq qm(2) show ?thesis
    unfolding sys_ok_def by (auto simp: os [unfolded qm(2)] held_def inflight_def)
qed

section \<open>Reachable states\<close>

text \<open>
  One induction for every run: the invariant survives each step, and the router never gets stuck on a
  dangling pointer.
\<close>

lemma step_sys_ok:
  assumes "step (has, s) (has', s')" and "sys_ok has (inflight s) s"
  shows "sys_ok has' (inflight s') s'"
  using assms(1)
proof (cases rule: step.cases)
  case (send m q)
  with snd_sys_ok [OF assms(2)] show ?thesis by blast
next
  case (recv pd m q)
  with rcv_sys_ok [OF assms(2)] show ?thesis by blast
next
  case (listen r)
  with do_listen_ok [OF assms(2)] show ?thesis by auto
qed

lemma steps_sys_ok:
  assumes "step\<^sup>*\<^sup>* x y" and "sys_ok (fst x) (inflight (snd x)) (snd x)"
  shows "sys_ok (fst y) (inflight (snd y)) (snd y)"
  using assms
proof (induction rule: rtranclp_induct)
  case (step y z)
  then show ?case using step_sys_ok [of "fst y" "snd y" "fst z" "snd z"] by simp
qed

end
