(* ===== verification/Kernel_IPC.thy ===== *)
theory Kernel_IPC
  imports Router_Types
begin

text \<open>
  The System V IPC objects the router and its clients share: shared memory segments and message queues,
  both named by 32 bit keys, with the calls of \<^verbatim>\<open>router.c\<close> and \<^verbatim>\<open>router_lib.c\<close> that create, find and
  remove them. An identifier is modelled by the key of its object, \<open>None\<close> is the identifier -1.
\<close>

type_synonym key = "32 word"

record kernel =
  kshm :: "key \<Rightarrow> int option"
  kmsg :: "key \<Rightarrow> msgq option"
  kshm_max :: int
  kmsg_cap :: nat

text \<open>\<^verbatim>\<open>shmget\<close> and \<^verbatim>\<open>msgget\<close> with \<^verbatim>\<open>IPC_CREAT|IPC_EXCL\<close>, without flags, and \<^verbatim>\<open>IPC_RMID\<close>.\<close>

definition shmget_excl :: "key \<Rightarrow> int \<Rightarrow> kernel \<Rightarrow> errno + kernel" where
  "shmget_excl k n K =
     (if kshm K k \<noteq> None then Inl EEXIST
      else if n > kshm_max K then Inl EINVAL
      else Inr (K\<lparr>kshm := (kshm K)(k \<mapsto> n)\<rparr>))"

definition shmget :: "key \<Rightarrow> kernel \<Rightarrow> key option" where
  "shmget k K = (if kshm K k = None then None else Some k)"

definition shm_rmid :: "key \<Rightarrow> kernel \<Rightarrow> kernel" where
  "shm_rmid k K = K\<lparr>kshm := (kshm K)(k := None)\<rparr>"

definition msgget_excl :: "key \<Rightarrow> kernel \<Rightarrow> errno + kernel" where
  "msgget_excl k K =
     (if kmsg K k \<noteq> None then Inl EEXIST
      else Inr (K\<lparr>kmsg := (kmsg K)(k \<mapsto> \<lparr>mq_msgs = [], mq_cap = kmsg_cap K, mq_live = True\<rparr>)\<rparr>))"

definition msgget :: "key \<Rightarrow> kernel \<Rightarrow> key option" where
  "msgget k K = (if kmsg K k = None then None else Some k)"

definition msg_rmid :: "key \<Rightarrow> kernel \<Rightarrow> errno + kernel" where
  "msg_rmid k K = (if kmsg K k = None then Inl EINVAL else Inr (K\<lparr>kmsg := (kmsg K)(k := None)\<rparr>))"

section \<open>Keys\<close>

text \<open>\<^verbatim>\<open>*(int*)str\<close> on a little endian machine: four bytes read as one integer.\<close>

definition bytes_num :: "string \<Rightarrow> nat" where
  "bytes_num cs = foldr (\<lambda>c n. of_char c + 256 * n) cs 0"

definition int_of_chars :: "string \<Rightarrow> 32 word" where
  "int_of_chars cs = word_of_nat (bytes_num (take 4 cs))"

text \<open>\<^verbatim>\<open>get_key\<close>: the first four characters of the name, filled up with blanks, plus \<^verbatim>\<open>rtr \<close> and the user.\<close>

definition get_key :: "string \<Rightarrow> 32 word \<Rightarrow> key" where
  "get_key name uid =
     (let str = strncpy 4 name @ ''    ''
      in int_of_chars str + int_of_chars ''rtr '' + uid)"

definition get_key_out :: "string \<Rightarrow> 32 word \<Rightarrow> key" where
  "get_key_out name uid = get_key name uid + int_of_chars ''out ''"

lemma bytes_num_simps [simp]: "bytes_num [] = 0" "bytes_num (c # cs) = of_char c + 256 * bytes_num cs"
  by (simp_all add: bytes_num_def)

lemma of_char_less_256: "(of_char c :: nat) < 256"
  using nat_of_char_less_256 by blast

lemma bytes_num_less: "bytes_num cs < 256 ^ length cs"
proof (induction cs)
  case (Cons c cs)
  then have "of_char c + 256 * bytes_num cs < 256 + 256 * (256 ^ length cs - 1)"
    using of_char_less_256 [of c] by (intro add_less_le_mono mult_le_mono2) simp_all
  also have "\<dots> = 256 ^ length (c # cs)" by (simp add: algebra_simps)
  finally show ?case by simp
qed simp

lemma bytes_num_inj: "length cs = length ds \<Longrightarrow> bytes_num cs = bytes_num ds \<Longrightarrow> cs = ds"
proof (induction cs ds rule: list_induct2)
  case (Cons c cs d ds)
  have "(of_char c + 256 * bytes_num cs) mod 256 = (of_char d + 256 * bytes_num ds) mod 256"
    using Cons.prems by simp
  then have "of_char c = (of_char d :: nat)"
    using of_char_less_256 [of c] of_char_less_256 [of d] by simp
  with Cons show ?case by simp
qed simp

lemma int_of_chars_inj:
  assumes "length cs = 4" and "length ds = 4" and "int_of_chars cs = int_of_chars ds"
  shows "cs = ds"
proof -
  have "bytes_num cs < 2 ^ 32" "bytes_num ds < 2 ^ 32"
    using bytes_num_less [of cs] bytes_num_less [of ds] assms by simp_all
  then have "bytes_num cs = bytes_num ds"
    using assms by (simp add: int_of_chars_def word_of_nat_eq_iff take_bit_nat_eq_self)
  with assms show ?thesis by (simp add: bytes_num_inj)
qed

definition pad4 :: "string \<Rightarrow> string" where
  "pad4 name = take 4 (strncpy 4 name @ ''    '')"

lemma length_pad4 [simp]: "length (pad4 name) = 4"
  by (simp add: pad4_def)

lemma get_key_pad: "get_key name uid = int_of_chars (pad4 name) + int_of_chars ''rtr '' + uid"
  by (simp add: get_key_def Let_def int_of_chars_def pad4_def del: take_append)

end
