(* ===== verification/Router_Main.thy ===== *)
theory Router_Main
  imports Router_Steps Kernel_IPC
begin

text \<open>
  The main program of the router (\<^verbatim>\<open>router/src/router.c\<close>): options, creation of the shared memory and
  the two message queues, the initial lists, the listener, and the removal of everything at the end.
\<close>

section \<open>State\<close>

record rmain =
  rt :: rtr
  krn :: kernel
  shm_key :: key
  msg_key_in :: key
  msg_key_out :: key
  shm_id :: "key option"
  msg_id_in :: "key option"
  msg_id_out :: "key option"

section \<open>Creation and removal\<close>

definition init_shm :: "rmain \<Rightarrow> int \<times> rmain" where
  "init_shm x =
     (let s = (rt x)\<lparr>shm_used := [], shm_free := []\<rparr> in
      case malloc s of
        (None, s1) \<Rightarrow> (-1, x\<lparr>rt := s1\<rparr>)
      | (Some i, s1) \<Rightarrow>
          (0, x\<lparr>rt := s1\<lparr>shm_free := [\<lparr>sid = i, sbuf = 0, ssize = shmsize s1, scount = 0\<rparr>]\<rparr>\<rparr>))"

definition init_pl :: "rmain \<Rightarrow> int \<times> rmain" where
  "init_pl x = (0, x\<lparr>rt := (rt x)\<lparr>pl := []\<rparr>\<rparr>)"

definition create_shm :: "rmain \<Rightarrow> int \<times> rmain" where
  "create_shm x =
     (case shmget_excl (shm_key x) (shmsize (rt x)) (krn x) of
        Inl _ \<Rightarrow> (-1, x\<lparr>shm_id := None\<rparr>)
      | Inr K \<Rightarrow> (0, x\<lparr>shm_id := Some (shm_key x), krn := K\<rparr>))"

text \<open>
  The test after the second \<^verbatim>\<open>msgget\<close> looks at \<^verbatim>\<open>msg_id_in\<close> again, so a failure for the output queue goes
  unnoticed.
\<close>

definition create_msg :: "rmain \<Rightarrow> int \<times> rmain" where
  "create_msg x =
     (case msgget_excl (msg_key_in x) (krn x) of
        Inl _ \<Rightarrow> (-1, x\<lparr>msg_id_in := None\<rparr>)
      | Inr K \<Rightarrow>
          let x1 = x\<lparr>msg_id_in := Some (msg_key_in x), krn := K\<rparr>;
              x2 = (case msgget_excl (msg_key_out x1) (krn x1) of
                      Inl _ \<Rightarrow> x1\<lparr>msg_id_out := None\<rparr>
                    | Inr K2 \<Rightarrow> x1\<lparr>msg_id_out := Some (msg_key_out x1), krn := K2\<rparr>)
          in if msg_id_in x2 = None then (-1, x2)
             else (0, x2\<lparr>rt := (rt x2)\<lparr>max_num_msg := RTR_MNOSENDMSG, msg_count := 0\<rparr>\<rparr>))"

text \<open>
  \<^verbatim>\<open>remove_msg\<close> does the same twice: it looks the queue up unless it has its identifier, and removes it. If
  the input queue is not found or cannot be removed it returns without a look at the output queue.
\<close>

definition remove_queue :: "key option \<Rightarrow> key \<Rightarrow> kernel \<Rightarrow> key option \<times> kernel \<times> bool" where
  "remove_queue i k K =
     (case (if i = None then msgget k K else i) of
        None \<Rightarrow> (None, K, False)
      | Some j \<Rightarrow> (case msg_rmid j K of Inl _ \<Rightarrow> (Some j, K, False) | Inr K' \<Rightarrow> (None, K', True)))"

definition remove_msg :: "rmain \<Rightarrow> rmain" where
  "remove_msg x =
     (case remove_queue (msg_id_in x) (msg_key_in x) (krn x) of
        (i, K, ok) \<Rightarrow>
          let x1 = x\<lparr>msg_id_in := i, krn := K\<rparr> in
          if \<not> ok then x1
          else (case remove_queue (msg_id_out x1) (msg_key_out x1) (krn x1) of
                  (j, K', ok') \<Rightarrow> x1\<lparr>msg_id_out := j, krn := K'\<rparr>))"

definition clear_shmbuf :: "rmain \<Rightarrow> rmain" where
  "clear_shmbuf x = x\<lparr>rt := (rt x)\<lparr>shm_used := [], shm_free := []\<rparr>\<rparr>"

definition remove_shm :: "rmain \<Rightarrow> rmain" where
  "remove_shm x =
     (case shm_id x of
        None \<Rightarrow>
          (case shmget (shm_key x) (krn x) of
             None \<Rightarrow> x
           | Some k \<Rightarrow> x\<lparr>krn := shm_rmid k (krn x), shm_id := None\<rparr>)
      | Some k \<Rightarrow> (clear_shmbuf x)\<lparr>krn := shm_rmid k (krn x), shm_id := None\<rparr>)"

definition cleanup :: "rmain \<Rightarrow> rmain" where
  "cleanup x = remove_shm (remove_msg x)"

section \<open>Options\<close>

datatype parsed = Usage int | Options bool int string

fun parse_args :: "bool \<Rightarrow> int \<Rightarrow> string list \<Rightarrow> parsed" where
  "parse_args r n [] = Usage 1"
| "parse_args r n (a # as) =
     (if take 1 a \<noteq> ''-'' then Options r n a
      else if length a \<noteq> 2 then Usage 1
      else if a ! 1 = CHR ''b'' then
        (case as of
           [] \<Rightarrow> Usage 1
         | v # as' \<Rightarrow> let m = c_int (atoi v * 0x400) in if m \<le> 0 then Usage 1 else parse_args r m as')
      else if a ! 1 = CHR ''r'' then parse_args True n as
      else Usage 1)"

section \<open>The program\<close>

datatype main_result = Exit int | Serving

text \<open>
  From the options to the call of \<^verbatim>\<open>listen()\<close>: \<open>Exit\<close> with the code of \<^verbatim>\<open>exit()\<close>, or \<open>Serving\<close> when the
  router is ready. \<open>setup\<close> is the part after the keys are made and the old objects are removed.
\<close>

definition setup_objects :: "rmain \<Rightarrow> main_result \<times> rmain" where
  "setup_objects x2 =
     (case create_shm x2 of
        (e1, x3) \<Rightarrow>
          if e1 \<noteq> 0 then (Exit 1, x3)
          else (case init_shm (x3\<lparr>rt := init_stat (rt x3)\<rparr>) of
            (e2, x4) \<Rightarrow>
              if e2 \<noteq> 0 then (Exit 1, remove_shm x4)
              else (case init_pl x4 of
                (e3, x5) \<Rightarrow>
                  if e3 \<noteq> 0 then (Exit 1, remove_shm x5)
                  else (case create_msg x5 of
                    (e4, x6) \<Rightarrow> if e4 \<noteq> 0 then (Exit 1, remove_shm x6) else (Serving, x6)))))"

definition make_keys :: "int \<Rightarrow> string \<Rightarrow> 32 word \<Rightarrow> rmain \<Rightarrow> rmain" where
  "make_keys n a uid x =
     x\<lparr>rt := (rt x)\<lparr>shmsize := n, proc_name := ''rtr-'' @ a\<rparr>,
       shm_key := get_key a uid, msg_key_in := get_key a uid, msg_key_out := get_key_out a uid\<rparr>"

definition start :: "string list \<Rightarrow> 32 word \<Rightarrow> rmain \<Rightarrow> main_result \<times> rmain" where
  "start args uid x0 =
     (case parse_args False (shmsize (rt x0)) args of
        Usage e \<Rightarrow> (Exit e, x0)
      | Options r n a \<Rightarrow>
          let x1 = make_keys n (take 4 a) uid x0
          in setup_objects (if r then remove_msg (remove_shm x1) else x1))"

text \<open>The queues \<^verbatim>\<open>listen()\<close> works on; without an output queue every \<^verbatim>\<open>msgsnd\<close> fails.\<close>

definition dead_queue :: msgq where
  "dead_queue = \<lparr>mq_msgs = [], mq_cap = 0, mq_live = False\<rparr>"

definition queue_of :: "key option \<Rightarrow> kernel \<Rightarrow> msgq" where
  "queue_of i K = (case i of None \<Rightarrow> dead_queue | Some k \<Rightarrow> (case kmsg K k of None \<Rightarrow> dead_queue | Some q \<Rightarrow> q))"

definition attach_queues :: "rmain \<Rightarrow> rtr" where
  "attach_queues x = (rt x)\<lparr>q_in := queue_of (msg_id_in x) (krn x), q_out := queue_of (msg_id_out x) (krn x)\<rparr>"

text \<open>\<^verbatim>\<open>main\<close>: when the listener ends, everything is removed; while it waits for messages the router serves.\<close>

definition main :: "string list \<Rightarrow> 32 word \<Rightarrow> rmain \<Rightarrow> (main_result \<times> rmain) option" where
  "main args uid x0 =
     (case start args uid x0 of
        (Exit e, x) \<Rightarrow> Some (Exit e, x)
      | (Serving, x) \<Rightarrow>
          (case listen (attach_queues x) of
             None \<Rightarrow> None
           | Some (Ended, s) \<Rightarrow> Some (Exit 0, cleanup (x\<lparr>rt := s\<rparr>))
           | Some (Waiting, s) \<Rightarrow> Some (Serving, x\<lparr>rt := s\<rparr>)))"

section \<open>What a start leaves in the kernel\<close>

lemma get_key_out_neq: "get_key_out a uid \<noteq> get_key a uid"
  by (simp add: get_key_out_def int_of_chars_def)

definition ipc :: "kernel \<Rightarrow> (key \<Rightarrow> int option) \<times> (key \<Rightarrow> msgq option)" where
  "ipc K = (kshm K, kmsg K)"

text \<open>A process that has not touched the kernel yet, with enough memory for its lists.\<close>

definition fresh_process :: "rmain \<Rightarrow> bool" where
  "fresh_process x \<longleftrightarrow>
     (\<forall>k. mok (rt x) k) \<and> shm_id x = None \<and> msg_id_in x = None \<and> msg_id_out x = None \<and> 0 < shmsize (rt x) \<and>
     pl (rt x) = []"

lemma parse_args_size: "parse_args r n as = Options r' m a \<Longrightarrow> 0 < n \<Longrightarrow> 0 < m"
proof (induction r n "as" rule: parse_args.induct)
  case (2 r n a as)
  then show ?case
    by (auto simp: Let_def split: if_splits list.splits)
qed simp

definition booted :: "rmain \<Rightarrow> rtr" where
  "booted x = (init_stat (rt x))
     \<lparr>shm_used := [], shm_free := [\<lparr>sid = next_id (rt x), sbuf = 0, ssize = shmsize (rt x), scount = 0\<rparr>],
      pl := [], next_id := Suc (next_id (rt x)), max_num_msg := RTR_MNOSENDMSG, msg_count := 0\<rparr>"

definition new_queue :: "kernel \<Rightarrow> msgq" where
  "new_queue K = \<lparr>mq_msgs = [], mq_cap = kmsg_cap K, mq_live = True\<rparr>"

text \<open>The outcome of \<open>setup_objects\<close> is decided by the kernel's tables alone.\<close>

lemma setup_objects_eq:
  assumes "\<forall>k. mok (rt x) k" and "msg_key_out x \<noteq> msg_key_in x"
  shows "kshm (krn x) (shm_key x) \<noteq> None \<or> shmsize (rt x) > kshm_max (krn x) \<Longrightarrow>
      setup_objects x = (Exit 1, x\<lparr>shm_id := None\<rparr>)"
    and "kshm (krn x) (shm_key x) = None \<Longrightarrow> shmsize (rt x) \<le> kshm_max (krn x) \<Longrightarrow> kmsg (krn x) (msg_key_in x) \<noteq> None \<Longrightarrow>
      fst (setup_objects x) = Exit 1 \<and> krn (snd (setup_objects x)) = krn x"
    and "kshm (krn x) (shm_key x) = None \<Longrightarrow> shmsize (rt x) \<le> kshm_max (krn x) \<Longrightarrow> kmsg (krn x) (msg_key_in x) = None \<Longrightarrow>
      setup_objects x = (Serving, x\<lparr>rt := booted x, shm_id := Some (shm_key x), msg_id_in := Some (msg_key_in x),
        msg_id_out := (if kmsg (krn x) (msg_key_out x) = None then Some (msg_key_out x) else None),
        krn := (krn x)\<lparr>kshm := (kshm (krn x))(shm_key x \<mapsto> shmsize (rt x)),
          kmsg := (if kmsg (krn x) (msg_key_out x) = None
                   then (kmsg (krn x))(msg_key_in x \<mapsto> new_queue (krn x), msg_key_out x \<mapsto> new_queue (krn x))
                   else (kmsg (krn x))(msg_key_in x \<mapsto> new_queue (krn x)))\<rparr>\<rparr>)"
proof -
  show "kshm (krn x) (shm_key x) \<noteq> None \<or> shmsize (rt x) > kshm_max (krn x) \<Longrightarrow>
      setup_objects x = (Exit 1, x\<lparr>shm_id := None\<rparr>)"
    by (auto simp: setup_objects_def create_shm_def shmget_excl_def)
  assume a: "kshm (krn x) (shm_key x) = None" "shmsize (rt x) \<le> kshm_max (krn x)"
  note defs = setup_objects_def create_shm_def shmget_excl_def init_shm_def init_pl_def create_msg_def
    msgget_excl_def malloc_def init_stat_def Let_def
  show "kmsg (krn x) (msg_key_in x) \<noteq> None \<Longrightarrow> fst (setup_objects x) = Exit 1 \<and> krn (snd (setup_objects x)) = krn x"
  proof -
    assume "kmsg (krn x) (msg_key_in x) \<noteq> None"
    moreover have "(krn x)\<lparr>kshm := (kshm (krn x))(shm_key x := None)\<rparr> = krn x"
      using a(1) by (simp add: fun_upd_idem)
    ultimately show ?thesis
      using a assms(1) by (auto simp: defs remove_shm_def clear_shmbuf_def shm_rmid_def)
  qed
  show "kmsg (krn x) (msg_key_in x) = None \<Longrightarrow>
      setup_objects x = (Serving, x\<lparr>rt := booted x, shm_id := Some (shm_key x), msg_id_in := Some (msg_key_in x),
        msg_id_out := (if kmsg (krn x) (msg_key_out x) = None then Some (msg_key_out x) else None),
        krn := (krn x)\<lparr>kshm := (kshm (krn x))(shm_key x \<mapsto> shmsize (rt x)),
          kmsg := (if kmsg (krn x) (msg_key_out x) = None
                   then (kmsg (krn x))(msg_key_in x \<mapsto> new_queue (krn x), msg_key_out x \<mapsto> new_queue (krn x))
                   else (kmsg (krn x))(msg_key_in x \<mapsto> new_queue (krn x)))\<rparr>\<rparr>)"
    using a assms by (auto simp: defs booted_def new_queue_def)
qed

section \<open>The router that starts to listen\<close>

lemma booted_sys_ok:
  assumes "\<forall>k. mok (rt x) k" and "0 < shmsize (rt x)" and "mq_live qi" "mq_msgs qi = []" and "mq_live qo" "mq_msgs qo = []"
  shows "sys_ok (\<lambda>_. {#}) {#} (listen_init ((booted x)\<lparr>q_in := qi, q_out := qo\<rparr>))"
proof -
  let ?s = "listen_init ((booted x)\<lparr>q_in := qi, q_out := qo\<rparr>)"
  have "heap_ok ?s"
    using assms(2) by (auto simp: heap_ok_def listen_init_def booted_def init_stat_def shm.tiled_Nil bytes_def)
  then have "rtr_inv ?s"
    unfolding rtr_inv_def
    by (rule rtr_inv_owedI) (simp_all add: listen_init_def booted_def init_stat_def)
  then show ?thesis
    using assms by (simp add: sys_ok_def listen_init_def booted_def init_stat_def out_def)
qed

text \<open>
  The states of the router and its clients after a successful start: \<open>reachable args uid x0 has s\<close> says that
  a process in state \<open>x0\<close> started with the arguments \<open>args\<close> serves, and that some run of the clients and
  the listener leads to the router state \<open>s\<close> with the buffers \<open>has\<close> in the hands of the clients.
\<close>

definition reachable :: "string list \<Rightarrow> 32 word \<Rightarrow> rmain \<Rightarrow> (int \<Rightarrow> int multiset) \<Rightarrow> rtr \<Rightarrow> bool" where
  "reachable args uid x0 has s \<longleftrightarrow>
     fresh_process x0 \<and>
     (\<exists>x. start args uid x0 = (Serving, x) \<and> msg_id_out x \<noteq> None \<and>
        step\<^sup>*\<^sup>* (\<lambda>_. {#}, listen_init (attach_queues x)) (has, s))"

lemma remove_shm_frame:
  "rt (remove_shm x) = (if shm_id x = None then rt x else rt (clear_shmbuf x))"
  "shm_key (remove_shm x) = shm_key x" "msg_key_in (remove_shm x) = msg_key_in x"
  "msg_key_out (remove_shm x) = msg_key_out x" "msg_id_in (remove_shm x) = msg_id_in x"
  "msg_id_out (remove_shm x) = msg_id_out x" "kmsg (krn (remove_shm x)) = kmsg (krn x)"
  "shm_id (remove_shm x) = None" "kshm_max (krn (remove_shm x)) = kshm_max (krn x)"
  by (simp_all add: remove_shm_def clear_shmbuf_def shm_rmid_def split: option.split)

definition main_frame :: "rmain \<Rightarrow> rtr \<times> key \<times> key \<times> key \<times> (key \<Rightarrow> int option) \<times> key option \<times> int" where
  "main_frame x = (rt x, shm_key x, msg_key_in x, msg_key_out x, kshm (krn x), shm_id x, kshm_max (krn x))"

lemma remove_queue_kshm: "remove_queue i k K = (j, K', ok) \<Longrightarrow> kshm K' = kshm K \<and> kshm_max K' = kshm_max K"
  by (auto simp: remove_queue_def msg_rmid_def split: option.splits if_splits)

lemma main_frame_remove_msg: "main_frame (remove_msg x) = main_frame x"
  unfolding remove_msg_def Let_def main_frame_def
  by (auto split: prod.split dest!: remove_queue_kshm)

lemma remove_msg_frame:
  "rt (remove_msg x) = rt x" "shm_key (remove_msg x) = shm_key x" "msg_key_in (remove_msg x) = msg_key_in x"
  "msg_key_out (remove_msg x) = msg_key_out x" "kshm (krn (remove_msg x)) = kshm (krn x)"
  "shm_id (remove_msg x) = shm_id x" "kshm_max (krn (remove_msg x)) = kshm_max (krn x)"
  using main_frame_remove_msg [of x] by (simp_all add: main_frame_def)

lemmas remove_frame = remove_shm_frame remove_msg_frame

lemma make_keys_simps [simp]:
  "krn (make_keys n a uid x) = krn x" "mok (rt (make_keys n a uid x)) = mok (rt x)"
  "shmsize (rt (make_keys n a uid x)) = n" "shm_key (make_keys n a uid x) = get_key a uid"
  "msg_key_in (make_keys n a uid x) = get_key a uid" "msg_key_out (make_keys n a uid x) = get_key_out a uid"
  "shm_id (make_keys n a uid x) = shm_id x" "msg_id_in (make_keys n a uid x) = msg_id_in x"
  "msg_id_out (make_keys n a uid x) = msg_id_out x"
  by (simp_all add: make_keys_def)

lemma start_sys_ok:
  assumes f: "fresh_process x0" and st: "start args uid x0 = (Serving, x)" and o: "msg_id_out x \<noteq> None"
  shows "sys_ok (\<lambda>_. {#}) (inflight (listen_init (attach_queues x))) (listen_init (attach_queues x))"
proof -
  obtain r n a where pa: "parse_args False (shmsize (rt x0)) args = Options r n a"
    using st by (auto simp: start_def split: parsed.splits)
  define x1 where "x1 = make_keys n (take 4 a) uid x0"
  define x2 where "x2 = (if r then remove_msg (remove_shm x1) else x1)"
  have se: "setup_objects x2 = (Serving, x)" using st pa by (cases r) (simp_all add: start_def x1_def x2_def Let_def)
  have x2: "\<forall>k. mok (rt x2) k" "shmsize (rt x2) = n" "msg_key_out x2 \<noteq> msg_key_in x2"
    using f get_key_out_neq
    by (auto simp: x2_def x1_def remove_frame fresh_process_def clear_shmbuf_def)
  have n: "0 < n" using parse_args_size [OF pa] f by (simp add: fresh_process_def)
  note eq = setup_objects_eq [OF x2(1,3)]
  have free: "kshm (krn x2) (shm_key x2) = None" "shmsize (rt x2) \<le> kshm_max (krn x2)" "kmsg (krn x2) (msg_key_in x2) = None"
    using eq(1,2) se by force+
  have x: "rt x = booted x2" "msg_id_in x = Some (msg_key_in x2)" "msg_id_out x = Some (msg_key_out x2)"
    "kmsg (krn x) = (kmsg (krn x2))(msg_key_in x2 \<mapsto> new_queue (krn x2), msg_key_out x2 \<mapsto> new_queue (krn x2))"
    using eq(3) [OF free] se o by (auto split: if_splits)
  have "attach_queues x = (booted x2)\<lparr>q_in := new_queue (krn x2), q_out := new_queue (krn x2)\<rparr>"
    using x x2(3) by (simp add: attach_queues_def queue_of_def)
  moreover from this have "inflight (listen_init (attach_queues x)) = {#}"
    by (simp add: inflight_def listen_init_def new_queue_def)
  ultimately show ?thesis
    using booted_sys_ok [of x2 "new_queue (krn x2)" "new_queue (krn x2)"] x2 n by (simp add: new_queue_def)
qed

lemma reachable_sys_ok: "reachable args uid x0 has s \<Longrightarrow> sys_ok has (inflight s) s"
  unfolding reachable_def using start_sys_ok steps_sys_ok by fastforce

end
