(* ===== verification/Router_Correct.thy ===== *)
theory Router_Correct
  imports Router_Main
begin

text \<open>
  The properties of the router as a whole, on every state that a run of the router with protocol-abiding
  clients can reach, and an executable run that shows such states.
\<close>

section \<open>Runs as event lists\<close>

datatype event = Send rtr_msg | Recv int | Listen

fun exec :: "event \<Rightarrow> (int \<Rightarrow> int multiset) \<times> rtr \<Rightarrow> ((int \<Rightarrow> int multiset) \<times> rtr) option" where
  "exec (Send m) (has, s) =
     (case client_send m s has of
        None \<Rightarrow> None
      | Some has' \<Rightarrow> (case msgsnd_nowait m (q_in s) of Inl _ \<Rightarrow> None | Inr q \<Rightarrow> Some (has', s\<lparr>q_in := q\<rparr>)))"
| "exec (Recv pd) (has, s) =
     (if gone pd s then None
      else case msgrcv_nowait pd (q_out s) of
             Inl _ \<Rightarrow> None
           | Inr (m, q) \<Rightarrow> Some (client_recv m pd has, s\<lparr>q_out := q\<rparr>))"
| "exec Listen (has, s) = (case do_listen s of None \<Rightarrow> None | Some (_, s') \<Rightarrow> Some (has, s'))"

fun run :: "event list \<Rightarrow> (int \<Rightarrow> int multiset) \<times> rtr \<Rightarrow> ((int \<Rightarrow> int multiset) \<times> rtr) option" where
  "run [] x = Some x"
| "run (e # es) x = (case exec e x of None \<Rightarrow> None | Some y \<Rightarrow> run es y)"

lemma exec_step: "exec e x = Some y \<Longrightarrow> step x y"
  by (induction e x rule: exec.induct)
     (auto split: option.splits sum.splits if_splits intro: step.intros)

lemma run_steps: "run es x = Some y \<Longrightarrow> step\<^sup>*\<^sup>* x y"
proof (induction es arbitrary: x)
  case (Cons e es)
  then obtain z where "exec e x = Some z" "run es z = Some y" by (auto split: option.splits)
  with Cons.IH exec_step show ?case by (meson converse_rtranclp_into_rtranclp)
qed simp

section \<open>An example run\<close>

definition demo_process :: rmain where
  "demo_process =
     \<lparr>rt = \<lparr>shm_used = [], shm_free = [], pl = [], msg_count = 0, max_num_msg = 0, shmsize = 4096,
            stat = \<lparr>InKBytes = 0, InBytes = 0, OutKBytes = 0, OutBytes = 0, InBlocks = 0, OutBlocks = 0\<rparr>,
            mb = [], que = [], que_count = 0, end_flag = False, q_in = dead_queue, q_out = dead_queue,
            proc_name = [], now = 0, next_id = 0, mok = \<lambda>_. True\<rparr>,
      krn = \<lparr>kshm = \<lambda>_. None, kmsg = \<lambda>_. None, kshm_max = 1000000, kmsg_cap = 16\<rparr>,
      shm_key = 0, msg_key_in = 0, msg_key_out = 0, shm_id = None, msg_id_in = None, msg_id_out = None\<rparr>"

definition req :: "int \<Rightarrow> int \<Rightarrow> int \<Rightarrow> int \<Rightarrow> rtr_msg" where
  "req p c a b = \<lparr>mtype = RTR_MTYPE_ROUTER, mpid = p, cmd = c, arg0 = a, arg1 = b, arg2 = 0, mname = ''x''\<rparr>"

definition demo_events :: "event list" where
  "demo_events =
     [Send (req 100 RTR_CONNECT O_WRONLY ROUTER_VERSION), Listen, Recv 100,
      Send (req 200 RTR_CONNECT O_RDONLY ROUTER_VERSION), Listen, Recv 200,
      Send (req 100 RTR_GETBUF 10 0), Listen, Recv 100,
      Send (req 100 RTR_RELEASE 0 10), Listen, Recv 200]"

definition demo_router :: rtr where
  "demo_router = listen_init
     (\<lparr>shm_used = [], shm_free = [\<lparr>sid = 0, sbuf = 0, ssize = 4096, scount = 0\<rparr>], pl = [], msg_count = 0,
       max_num_msg = RTR_MNOSENDMSG, shmsize = 4096,
       stat = \<lparr>InKBytes = 0, InBytes = 0, OutKBytes = 0, OutBytes = 0, InBlocks = 0, OutBlocks = 0\<rparr>,
       mb = [], que = [], que_count = 0, end_flag = False,
       q_in = \<lparr>mq_msgs = [], mq_cap = 16, mq_live = True\<rparr>, q_out = \<lparr>mq_msgs = [], mq_cap = 16, mq_live = True\<rparr>,
       proc_name = ''rtr-a'', now = 0, next_id = 1, mok = \<lambda>_. True\<rparr>)"

lemma demo_start:
  "\<exists>x. start [''a''] 0 demo_process = (Serving, x) \<and> msg_id_out x \<noteq> None \<and>
     listen_init (attach_queues x) = demo_router"
proof -
  let ?x = "make_keys 4096 ''a'' 0 demo_process"
  have "start [''a''] 0 demo_process = setup_objects ?x"
    by (simp add: start_def demo_process_def)
  moreover have "\<forall>k. mok (rt ?x) k" "msg_key_out ?x \<noteq> msg_key_in ?x"
    using get_key_out_neq by (simp_all add: demo_process_def)
  moreover have "kshm (krn ?x) (shm_key ?x) = None" "shmsize (rt ?x) \<le> kshm_max (krn ?x)" "kmsg (krn ?x) (msg_key_in ?x) = None"
    "kmsg (krn ?x) (msg_key_out ?x) = None"
    by (simp_all add: demo_process_def)
  ultimately show ?thesis
    by (simp add: setup_objects_eq(3) attach_queues_def queue_of_def get_key_out_neq booted_def new_queue_def init_stat_def demo_router_def)
      (simp add: make_keys_def demo_process_def)
qed

definition demo_final :: rtr where
  "demo_final =
     \<lparr>shm_used = [\<lparr>sid = 5, sbuf = 0, ssize = 12, scount = 1\<rparr>],
      shm_free = [\<lparr>sid = 0, sbuf = 12, ssize = 4084, scount = 0\<rparr>],
      pl = [\<lparr>pid = 100, flag = 1, cnt = 0, cnt_total = 1, c_time = 0, l_time = 0, bl = [], pname = ''x''\<rparr>,
            \<lparr>pid = 200, flag = 0, cnt = 1, cnt_total = 1, c_time = 0, l_time = 0, bl = [5], pname = ''x''\<rparr>],
      msg_count = 1, max_num_msg = 1000, shmsize = 4096,
      stat = \<lparr>InKBytes = 0, InBytes = 10, OutKBytes = 0, OutBytes = 10, InBlocks = 1, OutBlocks = 1\<rparr>,
      mb = [], que = [], que_count = 0, end_flag = False,
      q_in = \<lparr>mq_msgs = [], mq_cap = 16, mq_live = True\<rparr>, q_out = \<lparr>mq_msgs = [], mq_cap = 16, mq_live = True\<rparr>,
      proc_name = ''rtr-a'', now = 0, next_id = 10, mok = \<lambda>_. True\<rparr>"

lemmas eval_router = req_def rtr_consts client_send_def gone_def inflight_def msgsnd_nowait_def msgrcv_nowait_def
  do_listen_def que_snd_def do_receive.simps message_def msg_connect_def new_pl_def malloc_def send_msg_def
  que_msg_def strncpy_def Let_def listen_init_def client_recv_def out_def msg_getbuf_def get_buf_def get_shm_def
  first_fit_def round4_eq shm_inc_def grab_def msg_release_def flag_of_def check_max_buf_def must_full_def
  release_buf_def drop_ref_def pl_remove_buf_def shm_at_def stat_in_def stat_out_def c_div_def send_buf_def
  dec_cnt_def shm_put_def send_buf_loop.simps(2) msg_disconnect_def drain_q.simps remove_pl_def pl_release_buf_all_def
  release_all.simps shm_free_insert.simps

lemma demo_run: "run demo_events (\<lambda>_. {#}, demo_router) = Some ((\<lambda>_. {#})(200 := {#0#}), demo_final)"
  by (simp add: demo_events_def demo_router_def demo_final_def eval_router eval_nat_numeral fun_eq_iff)

text \<open>The same run before the writer gives its buffer back.\<close>

definition demo_mid :: rtr where
  "demo_mid =
     \<lparr>shm_used = [\<lparr>sid = 5, sbuf = 0, ssize = 12, scount = 1\<rparr>],
      shm_free = [\<lparr>sid = 0, sbuf = 12, ssize = 4084, scount = 0\<rparr>],
      pl = [\<lparr>pid = 100, flag = 1, cnt = 1, cnt_total = 1, c_time = 0, l_time = 0, bl = [5], pname = ''x''\<rparr>,
            \<lparr>pid = 200, flag = 0, cnt = 0, cnt_total = 0, c_time = 0, l_time = 0, bl = [], pname = ''x''\<rparr>],
      msg_count = 1, max_num_msg = 1000, shmsize = 4096,
      stat = \<lparr>InKBytes = 0, InBytes = 0, OutKBytes = 0, OutBytes = 0, InBlocks = 0, OutBlocks = 0\<rparr>,
      mb = [], que = [], que_count = 0, end_flag = False,
      q_in = \<lparr>mq_msgs = [], mq_cap = 16, mq_live = True\<rparr>, q_out = \<lparr>mq_msgs = [], mq_cap = 16, mq_live = True\<rparr>,
      proc_name = ''rtr-a'', now = 0, next_id = 8, mok = \<lambda>_. True\<rparr>"

lemma demo_mid_run: "run (take 9 demo_events) (\<lambda>_. {#}, demo_router) = Some ((\<lambda>_. {#})(100 := {#0#}), demo_mid)"
  by (simp add: demo_events_def demo_router_def demo_mid_def eval_router eval_nat_numeral)

lemma run_append: "run (es @ fs) x = (case run es x of None \<Rightarrow> None | Some y \<Rightarrow> run fs y)"
  by (induction es arbitrary: x) (auto split: option.splits)

lemma demo_reach:
  assumes "run es (\<lambda>_. {#}, demo_router) = Some (has, s)"
  shows "reachable [''a''] 0 demo_process has s"
proof -
  obtain x where "start [''a''] 0 demo_process = (Serving, x)" "msg_id_out x \<noteq> None"
    "listen_init (attach_queues x) = demo_router"
    using demo_start by blast
  moreover have "fresh_process demo_process"
    by (simp add: fresh_process_def demo_process_def)
  ultimately show ?thesis
    using run_steps [OF assms] by (auto simp: reachable_def)
qed

lemmas demo_reachable = demo_reach [OF demo_run]
lemmas demo_mid_reachable = demo_reach [OF demo_mid_run]

lemma demo_mid_send:
  assumes "exec (Send m) ((\<lambda>_. {#})(100 := {#0#}), demo_mid) = Some (has, s)"
  shows "reachable [''a''] 0 demo_process has s"
  by (rule demo_reach [of "take 9 demo_events @ [Send m]"]) (simp add: run_append demo_mid_run assms del: exec.simps)

section \<open>Safety of every run\<close>

lemma free_ok_whole:
  assumes f: "free_ok fs" and a: "area fs = {0 ..< n}" and n: "0 < n"
  shows "\<exists>b. fs = [b] \<and> bytes b = {0 ..< n}"
proof -
  obtain b where b: "b \<in> set fs" "{0 ..< n} \<subseteq> bytes b"
    using run_in_one_block [OF f n, of 0] a by auto
  then have eq: "bytes b = {0 ..< n}" using bytes_in_area [of b fs] a by blast
  obtain xs ys where fs: "fs = xs @ b # ys" using b(1) by (meson split_list)
  have "sbuf c \<notin> bytes b" if "c \<in> set (xs @ ys)" for c
  proof -
    have "0 < ssize c" using that f fs by (auto simp: free_ok_def)
    moreover have "sbuf c + ssize c < sbuf b \<or> sbuf b + ssize b < sbuf c"
      using that f fs by (auto simp: free_ok_append)
    ultimately show ?thesis by (auto simp: bytes_def)
  qed
  moreover have "sbuf c \<in> bytes b" if "c \<in> set (xs @ ys)" for c
    using start_in_area [OF f, of c] that fs a eq by auto
  ultimately have "xs @ ys = []" by (cases "xs @ ys") auto
  with fs eq show ?thesis by simp
qed


text \<open>C1: In every state that a run with protocol-abiding clients can reach, \<^verbatim>\<open>do_listen\<close> returns or waits for a
  message, and the loop of \<^verbatim>\<open>listen()\<close> gets to a point where it ends or waits: the router never follows a
  pointer to a freed buffer node and never loops forever.\<close>

theorem router_never_dangles:
  assumes "reachable args uid x0 has s"
  shows "(\<exists>r s'. do_listen s = Some (r, s')) \<and> (\<exists>e s'. listen_loop s = Some (e, s'))"
  using do_listen_ok listen_loop_ok reachable_sys_ok [OF assms] by blast

theorem router_never_dangles_witness:
  "(\<exists>r s'. do_listen demo_final = Some (r, s')) \<and> (\<exists>e s'. listen_loop demo_final = Some (e, s'))"
  by (rule router_never_dangles [OF demo_reachable])

text \<open>C2: A buffer in the hands of a client is a block in use of positive size inside the shared memory; it
  overlaps neither the free memory nor any other block in use, so nobody else is given these bytes.\<close>

theorem client_buffers_exclusive:
  assumes "reachable args uid x0 has s" and "b \<in># has pd"
  shows "\<exists>c \<in> set (shm_used s). sbuf c = b \<and> 0 < ssize c \<and> bytes c \<subseteq> {0 ..< shmsize s} \<and>
     bytes c \<inter> area (shm_free s) = {} \<and> (\<forall>d \<in> set (shm_used s). d \<noteq> c \<longrightarrow> bytes c \<inter> bytes d = {})"
proof -
  note ok = reachable_sys_ok [OF assms(1)]
  have "has pd \<subseteq># held s pd"
    using mset_add_subD(1) [OF mset_add_subD(2) [OF sys_okD(6) [OF ok, of pd]]] .
  with assms(2) have b: "b \<in># held s pd" by (rule mset_subset_eqD [rotated])
  obtain c where c: "c \<in> set (shm_used s)" "sbuf c = b"
    using drop_ref_held [OF sys_okD(1) [OF ok, unfolded rtr_inv_def] b] by metis
  have t: "shm.tiled {0 ..< shmsize s} (shm_used s) (shm_free s)"
    by (rule heap_okD(5) [OF rtr_inv_owedD(1) [OF sys_okD(1) [OF ok, unfolded rtr_inv_def]]])
  then have "bytes c \<noteq> {}" "bytes c \<subseteq> {0 ..< shmsize s}" "bytes c \<inter> area (shm_free s) = {}"
    using c(1) by (auto simp: shm.tiled_def)
  moreover from this have "0 < ssize c" by (simp add: bytes_def)
  moreover have "bytes c \<inter> bytes d = {}" if "d \<in> set (shm_used s)" "d \<noteq> c" for d
    using shm.tiled_inj [OF t c(1) that(1)] that(2) by blast
  ultimately show ?thesis using c by blast
qed

theorem client_buffers_exclusive_witness:
  "\<exists>c \<in> set (shm_used demo_final). sbuf c = 0 \<and> 0 < ssize c \<and> bytes c \<subseteq> {0 ..< shmsize demo_final} \<and>
     bytes c \<inter> area (shm_free demo_final) = {}"
proof -
  have "0 \<in># ((\<lambda>_. {#})(200 := {#0#})) 200" by simp
  from client_buffers_exclusive [OF demo_reachable this] show ?thesis by blast
qed

text \<open>C3: The reference count of a block in use is positive and is exactly the number of entries for it in the
  buffer lists of the connected processes; \<^verbatim>\<open>msg_count\<close> is the number of all entries.\<close>

theorem reference_counts_exact:
  assumes "reachable args uid x0 has s"
  shows "(\<forall>c \<in> set (shm_used s). 0 < scount c \<and> scount c = int (refs (pl s) (sid c))) \<and>
     msg_count s = int (nheld (pl s))"
  using sys_okD(1) [OF reachable_sys_ok [OF assms]]
  by (auto simp: rtr_inv_def rtr_inv_owed_def ref_ok_def owed_def)

theorem reference_counts_exact_witness:
  "scount (hd (shm_used demo_final)) = int (refs (pl demo_final) (sid (hd (shm_used demo_final)))) \<and>
     msg_count demo_final = int (nheld (pl demo_final))"
  using reference_counts_exact [OF demo_reachable] by (simp add: demo_final_def)

text \<open>C4: The counter of a process is the length of its buffer list, and no writer ever holds more than 5
  buffers, no sampling reader more than 30 and no other reader more than 100.\<close>

theorem buffer_limits:
  assumes "reachable args uid x0 has s" and "p \<in> set (pl s)"
  shows "cnt p = int (length (bl p)) \<and>
     cnt p \<le> (if flag p = O_WRONLY then 5 else if flag p = O_SAMPLE then 30 else 100)"
proof -
  have "proc_ok (sid ` set (shm_used s)) p"
    using rtr_inv_owedD(3) [OF sys_okD(1) [OF reachable_sys_ok [OF assms(1)], unfolded rtr_inv_def] assms(2)] .
  then show ?thesis
    by (auto simp: proc_ok_def limit_of_def RTR_MAXWRITEBUF_def RTR_MAXSAMPBUF_def RTR_MAXSENDBUF_def split: if_splits)
qed

theorem buffer_limits_witness:
  "cnt (pl demo_final ! 1) = int (length (bl (pl demo_final ! 1))) \<and>
     cnt (pl demo_final ! 1) \<le> (if flag (pl demo_final ! 1) = O_WRONLY then 5
       else if flag (pl demo_final ! 1) = O_SAMPLE then 30 else 100)"
  by (rule buffer_limits [OF demo_reachable]) (simp add: demo_final_def)

text \<open>C5: Memory is never lost and never stays fragmented: once no process is connected, no block is in use and
  the free list is one block with the whole shared memory.\<close>

theorem no_leak:
  assumes "reachable args uid x0 has s" and "pl s = []"
  shows "shm_used s = [] \<and> msg_count s = 0 \<and> (\<exists>b. shm_free s = [b] \<and> bytes b = {0 ..< shmsize s})"
proof -
  note inv = sys_okD(1) [OF reachable_sys_ok [OF assms(1)], unfolded rtr_inv_def]
  have u: "shm_used s = []"
  proof (rule ccontr)
    assume "shm_used s \<noteq> []"
    then obtain c where "c \<in> set (shm_used s)" by (cases "shm_used s") auto
    with rtr_inv_owedD(5) [OF inv this] assms(2) show False by (auto simp: ref_ok_def owed_def)
  qed
  with heap_okD(5) [OF rtr_inv_owedD(1) [OF inv]] have f: "free_ok (shm_free s)" "area (shm_free s) = {0 ..< shmsize s}"
    by (simp_all add: shm.tiled_Nil)
  from free_ok_whole [OF f heap_okD(7) [OF rtr_inv_owedD(1) [OF inv]]] u assms(2) rtr_inv_owedD(4) [OF inv]
  show ?thesis by simp
qed

theorem no_leak_witness:
  "shm_used demo_router = [] \<and> msg_count demo_router = 0 \<and>
     (\<exists>b. shm_free demo_router = [b] \<and> bytes b = {0 ..< shmsize demo_router})"
proof (rule no_leak)
  show "reachable [''a''] 0 demo_process (\<lambda>_. {#}) demo_router"
    by (rule demo_reach [of "[]"]) simp
  show "pl demo_router = []" by (simp add: demo_router_def listen_init_def)
qed

section \<open>Distribution\<close>

text \<open>The message a consumer gets about a buffer.\<close>

definition notice :: "rtr_shmbuf \<Rightarrow> int \<Rightarrow> rtr \<Rightarrow> rtr_proc \<Rightarrow> rtr_msg" where
  "notice shm n s p = \<lparr>mtype = pid p, mpid = RTR_MTYPE_ROUTER, cmd = RTR_BUFFER, arg0 = sbuf shm, arg1 = n, arg2 = 0,
     mname = strncpy RTR_NAME_LEN (proc_name s)\<rparr>"

lemma served_out: "\<forall>k. mok s k \<Longrightarrow> out (served shm n p s) = out s @ [notice shm n s p]"
  by (simp add: served_def send_msg_out notice_def)

lemma served_names [simp]: "proc_name (served shm n p s) = proc_name s"
  using served_frame(1) [of shm n p s] by (simp add: env_def)

lemma send_buf_loop_spec:
  assumes "\<forall>k. mok s k" and "\<forall>p \<in> set ps. \<not> must_full p"
  shows "\<exists>s'. send_buf_loop shm n ps s =
       (0, map (\<lambda>p. if skipped p then p else grab (sid shm) (now s) p) ps, s') \<and>
     out s' = out s @ map (notice shm n s) (filter (\<lambda>p. \<not> skipped p) ps)"
  using assms
proof (induction ps arbitrary: s)
  case (Cons p ps)
  show ?case
  proof (cases "skipped p")
    case True
    with Cons.IH [of s] Cons.prems show ?thesis by (auto simp: send_buf_loop_Cons)
  next
    case False
    have nm: "\<not> (flag p AND O_SAMPLE = 0 \<and> cnt p \<ge> RTR_MAXSENDBUF)"
      using False Cons.prems(2) by (auto simp: skipped_def must_full_def bit.conj_disj_distrib)
    have eq: "notice shm n (served shm n p s) = notice shm n s" by (simp add: notice_def fun_eq_iff)
    from Cons.IH [of "served shm n p s"] Cons.prems obtain s' where
      "send_buf_loop shm n ps (served shm n p s) =
         (0, map (\<lambda>p. if skipped p then p else grab (sid shm) (now s) p) ps, s')"
      "out s' = (out s @ [notice shm n s p]) @ map (notice shm n s) (filter (\<lambda>p. \<not> skipped p) ps)"
      by (auto simp: served_out eq)
    with False nm Cons.prems(1) show ?thesis by (auto simp: send_buf_loop_Cons)
  qed
qed simp

lemma flag_of_eq: "split_first (\<lambda>p. pid p = pd) (pl s) = Some (pre, p, post) \<Longrightarrow> flag_of pd s = flag p"
  by (simp add: flag_of_def)

text \<open>A writer drops its reference: only its own entry changes, and writers get no notice.\<close>

lemma drop_ref_readers:
  assumes d: "drop_ref pd b s = Some s1" and w: "flag_of pd s AND O_WRONLY \<noteq> 0"
  shows "filter (\<lambda>p. \<not> skipped p) (pl s1) = filter (\<lambda>p. \<not> skipped p) (pl s) \<and>
    ((\<exists>p \<in> set (pl s1). must_full p) = (\<exists>p \<in> set (pl s). must_full p))"
proof -
  obtain pre p post where sf: "split_first (\<lambda>p. pid p = pd) (pl s) = Some (pre, p, post)"
    using w by (cases "split_first (\<lambda>p. pid p = pd) (pl s)") (auto simp: flag_of_def)
  obtain r p' where rm: "pl_remove_buf s p b = Some (r, p')" and pl1: "pl s1 = pre @ dec_cnt r p' # post"
    using drop_ref_pl [OF d sf] by blast
  have fl: "flag p AND O_WRONLY \<noteq> 0" "flag (dec_cnt r p') = flag p"
    using w sf rm by (auto simp: flag_of_eq pl_remove_buf_def split: option.splits bool.splits)
  then have "skipped p" "skipped (dec_cnt r p')" "\<not> must_full p" "\<not> must_full (dec_cnt r p')"
    by (auto simp: skipped_def must_full_def bit.conj_disj_distrib or_eq_0_iff)
  with split_first_SomeD [OF sf] pl1 show ?thesis by simp
qed

lemma send_buf_notices:
  assumes "\<forall>k. mok s k" and "\<not> (\<exists>p \<in> set (pl s). must_full p)"
  shows "out (snd (send_buf c n s)) =
    out s @ map (notice c (min n (ssize c)) s) (filter (\<lambda>p. \<not> skipped p) (pl s))"
proof -
  define n' where "n' = (if n > ssize c then ssize c else n)"
  have n': "n' = min n (ssize c)" by (simp add: n'_def min_def)
  obtain s' where "send_buf_loop c n' (pl s) s =
      (0, map (\<lambda>p. if skipped p then p else grab (sid c) (now s) p) (pl s), s')"
    "out s' = out s @ map (notice c n' s) (filter (\<lambda>p. \<not> skipped p) (pl s))"
    using send_buf_loop_spec [of s "pl s" c n'] assms by blast
  with assms(2) show ?thesis
    unfolding send_buf_def n'_def [symmetric] n' [symmetric] by (simp add: Let_def)
qed

text \<open>C6: When a writer gives back a filled buffer and no consumer that must get everything is full, every
  reader and every sampling reader below its limit gets exactly one message about it, in the order of the
  process list, with the size cut to the size of the block; nobody else gets one.\<close>

theorem release_reaches_every_reader:
  assumes inv: "rtr_inv s" and mok: "\<forall>k. mok s k" and b: "b \<in># held s pd"
    and w: "flag_of pd s AND O_WRONLY \<noteq> 0" and n: "0 < n" and nf: "check_max_buf s = 0"
  shows "\<exists>c \<in> set (shm_used s). sbuf c = b \<and>
    (\<exists>s'. release_buf pd b n s = Some (0, s') \<and>
      out s' = out s @ map (notice c (min n (ssize c)) s) (filter (\<lambda>p. \<not> skipped p) (pl s)))"
proof -
  obtain s1 c where d: "drop_ref pd b s = Some s1" and s1: "s1 = s\<lparr>pl := pl s1\<rparr>"
    and c: "c \<in> set (shm_used s)" "sbuf c = b" and inv1: "rtr_inv_owed (Some (sid c)) s1"
    using drop_ref_held [OF inv [unfolded rtr_inv_def] b] by metis
  have c1: "c \<in> set (shm_used s1)" and o1: "out s1 = out s" and pn: "proc_name s1 = proc_name s" and mok1: "\<forall>k. mok s1 k"
    using c mok by (subst s1; simp)+
  obtain pre post where sf: "split_first (\<lambda>x. sbuf x = b) (shm_used s1) = Some (pre, c, post)"
    using split_pos [OF rtr_inv_owedD(1) [OF inv1] c1] c(2) by blast
  let ?s1 = "s1\<lparr>stat := stat_in n (stat s1)\<rparr>"
  have nf1: "\<not> (\<exists>p \<in> set (pl s1). must_full p)"
    using drop_ref_readers [OF d w] nf by (auto simp: check_max_buf_def split: if_splits)
  then have o2: "out (snd (send_buf c n ?s1)) =
      out s @ map (notice c (min n (ssize c)) s) (filter (\<lambda>p. \<not> skipped p) (pl s))"
    using send_buf_notices [of ?s1 c n] mok1 drop_ref_readers [OF d w] o1 pn by (simp add: notice_def)
  obtain s' where r: "release_buf pd b n s = Some (0, s')"
    using release_buf_held [OF inv mok b, of n] by metis
  have "out s' = out (snd (send_buf c n ?s1))"
    using r d sf w n by (auto simp: release_buf_def Let_def split: prod.splits if_splits)
  with r o2 c show ?thesis by auto
qed

theorem release_reaches_every_reader_witness:
  "\<exists>c \<in> set (shm_used demo_mid). sbuf c = 0 \<and>
    (\<exists>s'. release_buf 100 0 10 demo_mid = Some (0, s') \<and>
      out s' = out demo_mid @ map (notice c (min 10 (ssize c)) demo_mid) (filter (\<lambda>p. \<not> skipped p) (pl demo_mid)))"
proof (rule release_reaches_every_reader)
  note ok = reachable_sys_ok [OF demo_mid_reachable]
  show "rtr_inv demo_mid" "\<forall>k. mok demo_mid k" using sys_okD [OF ok] by auto
  show "0 \<in># held demo_mid 100" by (simp add: held_def demo_mid_def posn_def)
qed (simp_all add: demo_mid_def flag_of_def rtr_consts check_max_buf_def must_full_def)

section \<open>Requests\<close>

lemma disconnect_effect:
  assumes "rtr_inv s" and "\<forall>k. mok s k" and "mq_live (q_out s)" and "mq_live (q_in s)"
    and "\<forall>x \<in> set (mq_msgs (q_in s)). mtype x \<noteq> mpid m"
    and "\<forall>x \<in> set (que s). mtype x = mpid m \<longrightarrow> cmd x = RTR_BUFFER"
    and "buf_msgs (mpid m) (out s) \<subseteq># held s (mpid m)" and "cmd m = RTR_DISCONNECT"
  shows "\<exists>s'. message m s = Some (0, s') \<and> rtr_inv s' \<and> pl s' = filter (\<lambda>p. pid p \<noteq> mpid m) (pl s) \<and>
     out s' = filter (\<lambda>x. mtype x \<noteq> mpid m) (out s) \<and> held s' = (held s)(mpid m := {#}) \<and> q_in s' = q_in s"
proof -
  obtain s' where s': "msg_disconnect m s = Some s'" "rtr_inv s'" "held s' = (held s)(mpid m := {#})"
    "out s' = filter (\<lambda>x. mtype x \<noteq> mpid m) (out s)" "mpid m \<notin> pid ` set (pl s')" "q_in s' = q_in s"
    using msg_disconnect_held [OF assms(1-7)] by blast
  with msg_disconnect_removes [OF s'(1,5)] assms(8) show ?thesis by (simp add: message_def rtr_consts)
qed

text \<open>C7: A disconnection removes the process and nothing else. The list of processes loses the entries of the process,
  and every other entry stays as it is, with its counters, times and buffers, in its place; every message to the process is
  removed, from the overflow queue and from the kernel's queue, and every other message stays, in order; every buffer the
  process held, announced or not, is given up, and the others hold what they held; the requests that wait are not
  touched. The state is any sound one, whether the process still holds buffers or has requests under way; what is
  waiting for it in the overflow queue are buffers, which the code takes every message there for
  (\<open>waiting_reply_is_taken_for_a_buffer\<close> shows what another one does).\<close>

theorem disconnect_forgets:
  assumes "rtr_inv s" and "\<forall>k. mok s k" and "mq_live (q_out s)" and "mq_live (q_in s)"
    and "\<forall>x \<in> set (mq_msgs (q_in s)). mtype x \<noteq> mpid m"
    and "\<forall>x \<in> set (que s). mtype x = mpid m \<longrightarrow> cmd x = RTR_BUFFER"
    and "buf_msgs (mpid m) (out s) \<subseteq># held s (mpid m)" and "cmd m = RTR_DISCONNECT"
  shows "\<exists>s'. message m s = Some (0, s') \<and> rtr_inv s' \<and> pl s' = filter (\<lambda>p. pid p \<noteq> mpid m) (pl s) \<and>
     out s' = filter (\<lambda>x. mtype x \<noteq> mpid m) (out s) \<and> held s' = (held s)(mpid m := {#}) \<and> q_in s' = q_in s"
  by (rule disconnect_effect [OF assms])

text \<open>The states a run reaches are of this kind.\<close>

theorem reached_disconnect:
  assumes "reachable args uid x0 has s" and "m \<in># inflight s" and "cmd m = RTR_DISCONNECT"
  shows "\<exists>s'. message m s = Some (0, s') \<and> rtr_inv s' \<and> pl s' = filter (\<lambda>p. pid p \<noteq> mpid m) (pl s) \<and>
     out s' = filter (\<lambda>x. mtype x \<noteq> mpid m) (out s) \<and> held s' = (held s)(mpid m := {#}) \<and> q_in s' = q_in s"
proof -
  note d = sys_okD [OF reachable_sys_ok [OF assms(1)]]
  have rq: "mpid m \<noteq> RTR_MTYPE_ROUTER" "\<forall>x \<in> set (que s). mtype x = mpid m \<longrightarrow> cmd x = RTR_BUFFER"
    using d(7) [OF assms(2)] assms(3) by (auto simp: req_ok_def out_def)
  show ?thesis
    by (rule disconnect_effect [OF d(1-4)]) (use d(5) rq assms(3) mset_add_subD(1) [OF d(6) [of "mpid m"]] in auto)
qed

text \<open>
  A reader that is refused or accepted while the kernel's queue is full has its reply in the overflow queue. When it
  disconnects before it has read it, the reply is taken for a notice of the buffer whose position is the argument, 0:
  the block at the start of the shared memory loses a reference that the process never had. Here process 200
  holds that block, which is freed under it.
\<close>

definition reply_waits :: rtr where
  "reply_waits = demo_final
     \<lparr>pl := pl demo_final @ [\<lparr>pid = 300, flag = 0, cnt = 0, cnt_total = 0, c_time = 0, l_time = 0, bl = [], pname = ''y''\<rparr>],
      que := [\<lparr>mtype = 300, mpid = RTR_MTYPE_ROUTER, cmd = RTR_CONNECT, arg0 = 0, arg1 = 0, arg2 = 0, mname = ''rtr-a''\<rparr>],
      que_count := 1\<rparr>"

theorem waiting_reply_is_taken_for_a_buffer:
  "held reply_waits 200 = {#0#} \<and> held reply_waits 300 = {#} \<and> (\<forall>b \<in> set (shm_used reply_waits). 0 < scount b) \<and>
   (\<exists>s'. message (req 300 RTR_DISCONNECT 0 0) reply_waits = Some (0, s') \<and> shm_used s' = [] \<and>
      (\<exists>p \<in> set (pl s'). pid p = 200 \<and> bl p = [5]) \<and> \<not> rtr_inv s')"
proof -
  obtain s' where s': "message (req 300 RTR_DISCONNECT 0 0) reply_waits = Some (0, s')" "shm_used s' = []"
    "\<exists>p \<in> set (pl s'). pid p = 200 \<and> bl p = [5]"
    by (simp add: reply_waits_def demo_final_def eval_router)
  have "\<not> rtr_inv s'"
    using s'(2,3) rtr_inv_owedD(3) [of None s'] by (force simp: rtr_inv_def proc_ok_def)
  with s' show ?thesis
    by (auto simp: reply_waits_def demo_final_def held_def posn_def)
qed

lemma get_buf_pending:
  assumes "get_buf pd n s = (2, b, s')" and "\<forall>k. mok s k" and "free_ok (shm_free s)" and "0 < n"
  shows "(\<exists>p \<in> set (pl s). pid p = pd \<and> cnt p \<ge> RTR_MAXWRITEBUF) \<or>
    \<not> (\<exists>q. {q ..< q + round4 n} \<subseteq> area (shm_free s))"
proof -
  obtain pre p post where sf: "split_first (\<lambda>p. pid p = pd) (pl s) = Some (pre, p, post)"
    using assms(1) by (auto simp: get_buf_def split: option.splits)
  show ?thesis
  proof (cases "cnt p \<ge> RTR_MAXWRITEBUF")
    case True
    with split_first_SomeD [OF sf] show ?thesis by auto
  next
    case False
    then obtain s1 where "get_shm (round4 n) s = (None, s1)"
      using assms(1) sf by (auto simp: get_buf_def Let_def split: if_splits option.splits prod.splits)
    from get_shm_None_full [OF this _ assms(3) round4_pos [OF assms(4)]] assms(2) show ?thesis by simp
  qed
qed

theorem disconnect_forgets_witness:
  "\<exists>s'. message (req 200 RTR_DISCONNECT 0 0) demo_final = Some (0, s') \<and> map pid (pl s') = [100] \<and>
     held s' = (held demo_final)(200 := {#}) \<and> rtr_inv s'"
proof -
  let ?m = "req 200 RTR_DISCONNECT 0 0"
  note d = sys_okD [OF reachable_sys_ok [OF demo_reachable]]
  have h: "\<forall>x \<in> set (mq_msgs (q_in demo_final)). mtype x \<noteq> mpid ?m"
    "\<forall>x \<in> set (que demo_final). mtype x = mpid ?m \<longrightarrow> cmd x = RTR_BUFFER"
    "buf_msgs (mpid ?m) (out demo_final) \<subseteq># held demo_final (mpid ?m)" "cmd ?m = RTR_DISCONNECT"
    by (simp_all add: demo_final_def out_def req_def)
  from disconnect_forgets [OF d(1-4) h] obtain s' where
    "message ?m demo_final = Some (0, s')" "rtr_inv s'" "pl s' = filter (\<lambda>p. pid p \<noteq> mpid ?m) (pl demo_final)"
    "held s' = (held demo_final)(mpid ?m := {#})"
    by blast
  then show ?thesis by (auto simp: req_def demo_final_def)
qed

text \<open>A request of a writer is put off only when the writer already holds five buffers or no run of free
  bytes of the rounded size exists, and then nothing has changed: first fit with coalescing never misses
  memory that is there.\<close>

theorem request_waits_only_when_full:
  assumes "reachable args uid x0 has s" and "m \<in># inflight s" and "cmd m = RTR_GETBUF" and "message m s = Some (1, s')"
  shows "s' = s \<and> ((\<exists>p \<in> set (pl s). pid p = mpid m \<and> cnt p \<ge> RTR_MAXWRITEBUF) \<or>
    \<not> (\<exists>q. {q ..< q + round4 (arg0 m)} \<subseteq> area (shm_free s)))"
proof -
  note ok = reachable_sys_ok [OF assms(1)]
  have n: "0 < arg0 m" using sys_okD(7) [OF ok assms(2)] assms(3) by (simp add: req_ok_def)
  have f: "free_ok (shm_free s)"
    using heap_okD(5) [OF rtr_inv_owedD(1) [OF sys_okD(1) [OF ok, unfolded rtr_inv_def]]] by (simp add: shm.tiled_def)
  obtain r b s1 where g: "get_buf (mpid m) (arg0 m) s = (r, b, s1)" by (metis surj_pair)
  have r: "r = 2" "s' = s1"
    using assms(3,4) g by (auto simp: message_def msg_getbuf_def rtr_consts split: if_splits option.splits)
  with get_buf_held [OF sys_okD(1,2) [OF ok] n g] get_buf_pending [OF g [unfolded r(1)] sys_okD(2) [OF ok] f n]
  show ?thesis by auto
qed

theorem request_waits_only_when_full_witness:
  "let s = demo_mid\<lparr>q_in := \<lparr>mq_msgs = [req 100 RTR_GETBUF 4090 0], mq_cap = 16, mq_live = True\<rparr>\<rparr> in
   (\<exists>p \<in> set (pl s). pid p = 100 \<and> cnt p \<ge> RTR_MAXWRITEBUF) \<or>
    \<not> (\<exists>q. {q ..< q + round4 4090} \<subseteq> area (shm_free s))"
proof -
  let ?m = "req 100 RTR_GETBUF 4090 0"
  let ?s = "demo_mid\<lparr>q_in := \<lparr>mq_msgs = [?m], mq_cap = 16, mq_live = True\<rparr>\<rparr>"
  have r: "reachable [''a''] 0 demo_process ((\<lambda>_. {#})(100 := {#0#})) ?s"
    by (rule demo_mid_send [of ?m]) (simp add: demo_mid_def eval_router)
  have "message ?m ?s = Some (1, ?s)"
    by (simp add: demo_mid_def eval_router)
  from request_waits_only_when_full [OF r _ _ this] show ?thesis
    by (simp add: inflight_def Let_def) (simp add: req_def)
qed

section \<open>Bookkeeping\<close>

text \<open>The statistics lose nothing: kilobytes and rest together are the bytes routed so far, the rest stays
  below one kilobyte.\<close>

theorem statistics_exact:
  assumes "0 \<le> n" and "0 \<le> InBytes st" and "InBytes st < 1024"
  shows "InKBytes (stat_in n st) * 1024 + InBytes (stat_in n st) = InKBytes st * 1024 + InBytes st + n \<and>
     0 \<le> InBytes (stat_in n st) \<and> InBytes (stat_in n st) < 1024 \<and> InBlocks (stat_in n st) = InBlocks st + 1"
proof -
  let ?x = "InBytes st + n"
  have "c_div ?x 1024 = ?x div 1024" using assms by (simp add: c_div_nonneg)
  then have st: "InKBytes (stat_in n st) = InKBytes st + ?x div 1024" "InBytes (stat_in n st) = ?x mod 1024"
    "InBlocks (stat_in n st) = InBlocks st + 1"
    by (simp_all add: stat_in_def Let_def minus_div_mult_eq_mod)
  have "?x div 1024 * 1024 + ?x mod 1024 = ?x" by (rule div_mult_mod_eq)
  then show ?thesis unfolding st by (simp add: distrib_right)
qed

theorem statistics_exact_witness:
  "InKBytes (stat_in 2000 (stat demo_final)) * 1024 + InBytes (stat_in 2000 (stat demo_final)) =
     InKBytes (stat demo_final) * 1024 + InBytes (stat demo_final) + 2000"
  using statistics_exact [of 2000 "stat demo_final"] by (simp add: demo_final_def)

text \<open>Messages to the clients leave in the order in which they were sent, whatever the kernel's queue can
  take: a send appends one message to what is on its way, a retry of the overflow queue loses and reorders
  nothing, and when it reports success the overflow queue is empty.\<close>

theorem replies_keep_their_order:
  assumes "\<forall>k. mok s k"
  shows "out (snd (que_snd s)) = out s \<and>
    (\<exists>m. mtype m = t \<and> cmd m = c \<and> arg0 m = a1 \<and> out (snd (send_msg t c a1 a2 a3 s)) = out s @ [m]) \<and>
    (fst (que_snd s) = 0 \<longrightarrow> que (snd (que_snd s)) = [])"
proof -
  have "que_snd_loop ms k q = (0, ms', k', q') \<Longrightarrow> ms' = []" for ms k q ms' k' q'
    by (induction ms k q rule: que_snd_loop.induct) (auto split: sum.splits if_splits)
  then have "fst (que_snd s) = 0 \<longrightarrow> que (snd (que_snd s)) = []"
    by (auto simp: que_snd_def split: prod.splits)
  then show ?thesis by (simp add: que_snd_out send_msg_out [OF assms])
qed

theorem replies_keep_their_order_witness:
  "out (snd (que_snd demo_final)) = out demo_final \<and>
    (\<exists>m. mtype m = 200 \<and> cmd m = RTR_REFUSE \<and> arg0 m = 0 \<and>
       out (snd (send_msg 200 RTR_REFUSE 0 0 0 demo_final)) = out demo_final @ [m])"
  using replies_keep_their_order [of demo_final 200 RTR_REFUSE 0 0 0] by (simp add: demo_final_def)

section \<open>Start and end of the program\<close>

text \<open>A start that fails without \<^verbatim>\<open>-r\<close> leaves the kernel's objects exactly as they were.\<close>

theorem failed_start_leaves_nothing:
  assumes f: "fresh_process x0" and st: "start args uid x0 = (Exit e, x)"
    and nr: "\<forall>n a. parse_args False (shmsize (rt x0)) args \<noteq> Options True n a"
  shows "krn x = krn x0"
proof (cases "parse_args False (shmsize (rt x0)) args")
  case (Usage c)
  with st show ?thesis by (simp add: start_def)
next
  case (Options r n a)
  with nr have r: "\<not> r" by auto
  let ?x = "make_keys n (take 4 a) uid x0"
  have se: "setup_objects ?x = (Exit e, x)" using st Options r by (simp add: start_def)
  have "\<forall>k. mok (rt ?x) k" "msg_key_out ?x \<noteq> msg_key_in ?x"
    using f get_key_out_neq by (simp_all add: fresh_process_def)
  note eq = setup_objects_eq [OF this]
  show ?thesis
  proof (cases "kshm (krn ?x) (shm_key ?x) = None \<and> shmsize (rt ?x) \<le> kshm_max (krn ?x)")
    case True
    with eq(2,3) se show ?thesis by (cases "kmsg (krn ?x) (msg_key_in ?x) = None") auto
  next
    case False
    with eq(1) se show ?thesis by auto
  qed
qed

theorem failed_start_leaves_nothing_witness:
  "krn (snd (start [''-x''] 0 demo_process)) = krn demo_process"
  by (rule failed_start_leaves_nothing [of demo_process "[''-x'']" 0 1])
     (simp_all add: fresh_process_def start_def, simp_all add: demo_process_def)

lemma start_Serving_ids:
  assumes f: "fresh_process x0" and st: "start args uid x0 = (Serving, x)" and o: "msg_id_out x \<noteq> None"
  shows "shm_id x = Some (shm_key x) \<and> msg_id_in x = Some (msg_key_in x) \<and> msg_id_out x = Some (msg_key_out x) \<and>
    msg_key_out x \<noteq> msg_key_in x \<and> kmsg (krn x) (msg_key_in x) \<noteq> None \<and> kmsg (krn x) (msg_key_out x) \<noteq> None"
proof -
  obtain r n a where pa: "parse_args False (shmsize (rt x0)) args = Options r n a"
    using st by (auto simp: start_def split: parsed.splits)
  define x1 where "x1 = make_keys n (take 4 a) uid x0"
  define x2 where "x2 = (if r then remove_msg (remove_shm x1) else x1)"
  have se: "setup_objects x2 = (Serving, x)" using st pa by (cases r) (simp_all add: start_def x1_def x2_def Let_def)
  have x2: "\<forall>k. mok (rt x2) k" "msg_key_out x2 \<noteq> msg_key_in x2"
    using f get_key_out_neq
    by (auto simp: x2_def x1_def remove_frame fresh_process_def clear_shmbuf_def)
  note eq = setup_objects_eq [OF x2]
  have free: "kshm (krn x2) (shm_key x2) = None" "shmsize (rt x2) \<le> kshm_max (krn x2)" "kmsg (krn x2) (msg_key_in x2) = None"
    using eq(1,2) se by force+
  from eq(3) [OF free] se o x2(2) show ?thesis by (auto split: if_splits)
qed

text \<open>At the end the router removes the shared memory segment and both message queues it created, and no
  other object of the kernel.\<close>

theorem cleanup_removes_exactly_its_objects:
  assumes "fresh_process x0" and "start args uid x0 = (Serving, x)" and "msg_id_out x \<noteq> None"
  shows "kshm (krn (cleanup (x\<lparr>rt := s\<rparr>))) = (kshm (krn x))(shm_key x := None) \<and>
    kmsg (krn (cleanup (x\<lparr>rt := s\<rparr>))) = (kmsg (krn x))(msg_key_in x := None, msg_key_out x := None)"
  using start_Serving_ids [OF assms]
  by (auto simp: cleanup_def remove_msg_def remove_queue_def msg_rmid_def remove_shm_def shm_rmid_def clear_shmbuf_def)

theorem cleanup_removes_exactly_its_objects_witness:
  "\<exists>x. start [''a''] 0 demo_process = (Serving, x) \<and>
    kshm (krn (cleanup (x\<lparr>rt := demo_final\<rparr>))) = (kshm (krn x))(shm_key x := None)"
proof -
  obtain x where "start [''a''] 0 demo_process = (Serving, x)" "msg_id_out x \<noteq> None" using demo_start by blast
  with cleanup_removes_exactly_its_objects [of demo_process "[''a'']" 0 x demo_final] show ?thesis
    by (auto simp: fresh_process_def demo_process_def)
qed

section \<open>Deviations\<close>

text \<open>A stale output queue survives even \<^verbatim>\<open>-r\<close> when there is no input queue, and the failure to create it goes
  unnoticed: the router serves without an output queue, so no client ever gets a reply.\<close>

theorem stale_output_queue_unnoticed:
  assumes f: "fresh_process x0" and a: "take 1 a \<noteq> ''-''" and K: "kshm (krn x0) (get_key (take 4 a) uid) = None"
    "kmsg (krn x0) (get_key (take 4 a) uid) = None" "kmsg (krn x0) (get_key_out (take 4 a) uid) = Some q"
    "shmsize (rt x0) \<le> kshm_max (krn x0)"
  shows "fst (start [''-r'', a] uid x0) = Serving \<and> msg_id_out (snd (start [''-r'', a] uid x0)) = None \<and>
    q_out (attach_queues (snd (start [''-r'', a] uid x0))) = dead_queue"
proof -
  let ?x = "make_keys (shmsize (rt x0)) (take 4 a) uid x0"
  have ids: "shm_id ?x = None" "msg_id_in ?x = None" using f by (simp_all add: fresh_process_def)
  have "remove_msg (remove_shm ?x) = ?x"
    using K(1,2) ids by (simp add: remove_shm_def shmget_def remove_msg_def remove_queue_def msgget_def)
  then have "start [''-r'', a] uid x0 = setup_objects ?x"
    using a by (simp add: start_def)
  moreover have "\<forall>k. mok (rt ?x) k" "msg_key_out ?x \<noteq> msg_key_in ?x"
    using f get_key_out_neq by (simp_all add: fresh_process_def)
  ultimately show ?thesis
    using K by (simp add: setup_objects_eq(3) attach_queues_def queue_of_def)
qed

theorem stale_output_queue_unnoticed_witness:
  "let x = demo_process\<lparr>krn := (krn demo_process)\<lparr>kmsg := [get_key_out ''a'' 0 \<mapsto> dead_queue]\<rparr>\<rparr> in
   fst (start [''-r'', ''a''] 0 x) = Serving \<and> msg_id_out (snd (start [''-r'', ''a''] 0 x)) = None"
proof -
  let ?x = "demo_process\<lparr>krn := (krn demo_process)\<lparr>kmsg := [get_key_out ''a'' 0 \<mapsto> dead_queue]\<rparr>\<rparr>"
  have "get_key ''a'' 0 \<noteq> get_key_out ''a'' 0" using get_key_out_neq [of "''a''" 0] by auto
  with stale_output_queue_unnoticed [of ?x "''a''" 0 dead_queue] show ?thesis
    by (simp add: fresh_process_def Let_def) (simp add: demo_process_def)
qed

text \<open>\<^verbatim>\<open>release_buf\<close> does not require that the sender holds the buffer, or is connected: a release from a process
  that is not in the list (such as a request of a writer that was put off and is retried after the writer
  has disconnected) returns memory to the free list that another process still holds.\<close>

theorem release_by_stranger_frees:
  assumes inv: "rtr_inv s" and c: "c \<in> set (shm_used s)" "scount c = 1" and m: "cmd m = RTR_RELEASE" "arg0 m = sbuf c"
    and st: "mpid m \<notin> pid ` set (pl s)"
  shows "\<exists>s'. message m s = Some (0, s') \<and> pl s' = pl s \<and> 0 < refs (pl s') (sid c) \<and>
    bytes c \<subseteq> area (shm_free s') \<and> sid c \<notin> sid ` set (shm_used s')"
proof -
  note inv' = inv [unfolded rtr_inv_def]
  have hp: "heap_ok s" by (rule rtr_inv_owedD(1) [OF inv'])
  have nn: "split_first (\<lambda>p. pid p = mpid m) (pl s) = None" using st unfolding split_first_None_iff by (metis imageI)
  obtain us vs where sf: "split_first (\<lambda>x. sbuf x = sbuf c) (shm_used s) = Some (us, c, vs)"
    using split_pos [OF hp c(1)] by blast
  have us: "shm_used s = us @ c # vs" using split_first_SomeD [OF sf] by simp
  have sf2: "split_first (\<lambda>b. sid b = sid c) (shm_used s) = Some (us, c, vs)"
  proof -
    have "sid c \<notin> sid ` set us" using heap_okD(1) [OF hp] us by simp
    then have "\<forall>y \<in> set us. sid y \<noteq> sid c" by (metis imageI)
    with us show ?thesis by simp
  qed
  let ?s = "(shm_put (sid c) s)\<lparr>msg_count := msg_count s - 1\<rparr>"
  have "message m s = Some (0, ?s)"
    using nn sf m
    by (simp add: message_def msg_release_def flag_of_def release_buf_def drop_ref_def rtr_consts frame_simps)
  moreover have "shm_free ?s = snd (shm_free_insert (c\<lparr>scount := 0\<rparr>) (shm_free s))" "shm_used ?s = us @ vs"
    using sf2 c(2) by (simp_all add: shm_put_def)
  moreover have "bytes c \<subseteq> area (snd (shm_free_insert (c\<lparr>scount := 0\<rparr>) (shm_free s)))"
  proof -
    have "bytes (c\<lparr>scount := 0\<rparr>) = bytes c" by (simp add: bytes_def)
    moreover have "free_ok (shm_free s)" "bytes c \<noteq> {}" "bytes c \<inter> area (shm_free s) = {}"
      using heap_okD(5) [OF hp] c(1) by (auto simp: shm.tiled_def)
    ultimately show ?thesis using shm.dealloc_sound [of "shm_free s" "c\<lparr>scount := 0\<rparr>"] by auto
  qed
  moreover have "0 < refs (pl s) (sid c)"
    using rtr_inv_owedD(5) [OF inv' c(1)] c(2) by (simp add: ref_ok_def owed_def)
  moreover have "sid c \<notin> sid ` set (us @ vs)" using heap_okD(1) [OF hp] us by auto
  ultimately show ?thesis by (auto simp: frame_simps)
qed

theorem release_by_stranger_frees_witness:
  "\<exists>s'. message (req 300 RTR_RELEASE 0 10) demo_mid = Some (0, s') \<and> pl s' = pl demo_mid \<and>
     0 < refs (pl s') 5 \<and> {0 ..< 12} \<subseteq> area (shm_free s')"
  using release_by_stranger_frees [of demo_mid "\<lparr>sid = 5, sbuf = 0, ssize = 12, scount = 1\<rparr>" "req 300 RTR_RELEASE 0 10"]
    sys_okD(1) [OF reachable_sys_ok [OF demo_mid_reachable]]
  by (auto simp: req_def bytes_def) (auto simp: demo_mid_def)

text \<open>A request for a negative size is not refused: the block handed out has a negative size and the free
  list afterwards overlaps memory that is in use.\<close>

theorem negative_request_corrupts_memory:
  "\<exists>s'. message (req 100 RTR_GETBUF (-4) 0) demo_mid = Some (0, s') \<and>
     (\<exists>b \<in> set (shm_used s'). bytes b \<inter> area (shm_free s') \<noteq> {}) \<and> (\<exists>b \<in> set (shm_used s'). ssize b < 0)"
proof -
  have "\<exists>s'. message (req 100 RTR_GETBUF (-4) 0) demo_mid = Some (0, s') \<and>
      shm_used s' = [\<lparr>sid = 5, sbuf = 0, ssize = 12, scount = 1\<rparr>, \<lparr>sid = 8, sbuf = 12, ssize = -4, scount = 1\<rparr>] \<and>
      shm_free s' = [\<lparr>sid = 0, sbuf = 8, ssize = 4088, scount = 0\<rparr>]"
    by (simp add: demo_mid_def eval_router eval_nat_numeral)
  moreover have "(8::int) \<in> {0 ..< 12} \<inter> {8 ..< 4096}" by simp
  ultimately show ?thesis by (fastforce simp: bytes_def)
qed

end
