(* ===== verification/Router_Lib.thy ===== *)
theory Router_Lib
  imports Router_Correct
begin

text \<open>
  The client library (\<^verbatim>\<open>router/src/router_lib.c\<close>): descriptors, connection, request, reception and release
  of buffers. A call that would sleep in \<^verbatim>\<open>msgsnd\<close> or \<^verbatim>\<open>msgrcv\<close> yields \<open>None\<close>; \<^verbatim>\<open>router_connect\<close> is split at
  the point where it waits for the reply.
\<close>

section \<open>Descriptors\<close>

record rtr_desc =
  d_open :: int
  d_connect :: int
  d_key :: key
  d_key_in :: key
  d_key_out :: key
  d_msg_id_in :: "key option"
  d_msg_id_out :: "key option"
  d_shm_id :: "key option"
  d_shm_buf :: "int option"
  d_fmode :: int
  d_msg_snd :: rtr_msg
  d_msg_rcv :: rtr_msg

text \<open>
  \<open>desc\<close> is \<open>None\<close> while the pointer is NULL; \<open>junk\<close> is what freshly allocated memory contains. \<open>shmat_at\<close>
  is the address \<^verbatim>\<open>shmat\<close> returns, \<open>None\<close> when it fails. \<open>ures\<close> is the uninitialised variable \<^verbatim>\<open>res\<close> of
  \<^verbatim>\<open>router_request_buf\<close>, \<open>eintr\<close> whether \<^verbatim>\<open>errno\<close> happens to be \<^verbatim>\<open>EINTR\<close> there.
\<close>

record client =
  desc :: "rtr_desc list option"
  junk :: rtr_desc
  desc_mok :: bool
  cpid :: int
  ckrn :: kernel
  shmat_at :: "int option"
  ures :: int
  eintr :: bool

definition MNODESC :: nat where
  "MNODESC = 8"

fun first_closed :: "rtr_desc list \<Rightarrow> nat option" where
  "first_closed [] = None"
| "first_closed (d # ds) = (if d_open d = 0 then Some 0 else map_option Suc (first_closed ds))"

definition fresh_desc :: "rtr_desc \<Rightarrow> rtr_desc" where
  "fresh_desc d = d\<lparr>d_open := 1, d_connect := 1, d_key := 0, d_key_in := 0, d_key_out := 0, d_msg_id_in := None,
     d_msg_id_out := None, d_shm_id := None, d_shm_buf := None, d_fmode := 0\<rparr>"

definition open_fd :: "client \<Rightarrow> int \<times> client" where
  "open_fd c =
     (let c1 = (case desc c of
                  Some ds \<Rightarrow> c
                | None \<Rightarrow> if desc_mok c then c\<lparr>desc := Some (replicate MNODESC ((junk c)\<lparr>d_open := 0\<rparr>))\<rparr> else c)
      in case desc c1 of
           None \<Rightarrow> (-1, c1)
         | Some ds \<Rightarrow>
             (case first_closed ds of
                None \<Rightarrow> (-1, c1)
              | Some i \<Rightarrow> (int i, c1\<lparr>desc := Some (ds[i := fresh_desc (ds ! i)])\<rparr>)))"

definition check_fd :: "int \<Rightarrow> client \<Rightarrow> int" where
  "check_fd fd c =
     (if fd < 0 \<or> int MNODESC \<le> fd then -1
      else case desc c of
             None \<Rightarrow> -1
           | Some ds \<Rightarrow> if d_open (ds ! nat fd) = 0 then -1 else 0)"

definition dsc :: "int \<Rightarrow> client \<Rightarrow> rtr_desc" where
  "dsc fd c = the (desc c) ! nat fd"

definition upd_desc :: "int \<Rightarrow> (rtr_desc \<Rightarrow> rtr_desc) \<Rightarrow> client \<Rightarrow> client" where
  "upd_desc fd f c = c\<lparr>desc := map_option (\<lambda>ds. ds[nat fd := f (ds ! nat fd)]) (desc c)\<rparr>"

definition close_fd :: "int \<Rightarrow> client \<Rightarrow> int \<times> client" where
  "close_fd fd c =
     (if check_fd fd c \<noteq> 0 then (-1, c) else (0, upd_desc fd (\<lambda>d. d\<lparr>d_open := 0\<rparr>) c))"

definition get_shmbuf :: "int \<Rightarrow> client \<Rightarrow> int option" where
  "get_shmbuf fd c = (if check_fd fd c \<noteq> 0 then None else d_shm_buf (dsc fd c))"

section \<open>Queues through their identifiers\<close>

text \<open>\<^verbatim>\<open>msgsnd\<close> that may sleep: \<open>None\<close> while the queue is full, \<open>Some (False, _)\<close> on an error.\<close>

definition ksend :: "key option \<Rightarrow> rtr_msg \<Rightarrow> kernel \<Rightarrow> (bool \<times> kernel) option" where
  "ksend i m K =
     (case i of
        None \<Rightarrow> Some (False, K)
      | Some k \<Rightarrow>
          (case kmsg K k of
             None \<Rightarrow> Some (False, K)
           | Some q \<Rightarrow>
               (case msgsnd_nowait m q of
                  Inl e \<Rightarrow> if e = EAGAIN then None else Some (False, K)
                | Inr q' \<Rightarrow> Some (True, K\<lparr>kmsg := (kmsg K)(k \<mapsto> q')\<rparr>))))"

text \<open>\<^verbatim>\<open>msgrcv\<close> that may sleep: \<open>None\<close> while there is no message of the type, \<open>Inl\<close> on an error.\<close>

definition krecv :: "key option \<Rightarrow> int \<Rightarrow> kernel \<Rightarrow> (errno + rtr_msg \<times> kernel) option" where
  "krecv i t K =
     (case i of
        None \<Rightarrow> Some (Inl EINVAL)
      | Some k \<Rightarrow>
          (case kmsg K k of
             None \<Rightarrow> Some (Inl EINVAL)
           | Some q \<Rightarrow>
               (case msgrcv_nowait t q of
                  Inl e \<Rightarrow> if e = ENOMSG then None else Some (Inl e)
                | Inr (m, q') \<Rightarrow> Some (Inr (m, K\<lparr>kmsg := (kmsg K)(k \<mapsto> q')\<rparr>)))))"

section \<open>Connections\<close>

definition router_disconnect :: "int \<Rightarrow> client \<Rightarrow> client option" where
  "router_disconnect fd c =
     (if check_fd fd c \<noteq> 0 then Some c
      else
        (let c1 = (if d_connect (dsc fd c) \<noteq> 0
                   then upd_desc fd (\<lambda>d. d\<lparr>d_msg_snd := (d_msg_snd d)\<lparr>mtype := RTR_MTYPE_ROUTER, mpid := cpid c, cmd := RTR_DISCONNECT\<rparr>\<rparr>) c
                   else c)
         in case (if d_connect (dsc fd c) \<noteq> 0
                  then map_option snd (ksend (d_msg_id_out (dsc fd c1)) (d_msg_snd (dsc fd c1)) (ckrn c1))
                  else Some (ckrn c1)) of
              None \<Rightarrow> None
            | Some K \<Rightarrow> Some (snd (close_fd fd (upd_desc fd (\<lambda>d. d\<lparr>d_shm_buf := None\<rparr>) (c1\<lparr>ckrn := K\<rparr>))))))"

text \<open>\<^verbatim>\<open>router_connect\<close> up to the point where the request has been sent. A failure disconnects and gives -1.\<close>

definition fail_connect :: "int \<Rightarrow> client \<Rightarrow> (int \<times> client) option" where
  "fail_connect fd c = map_option (\<lambda>c'. (-1, c')) (router_disconnect fd c)"

definition router_connect_send :: "string \<Rightarrow> 32 word \<Rightarrow> string \<Rightarrow> int \<Rightarrow> client \<Rightarrow> (int \<times> client) option" where
  "router_connect_send router uid name mode c0 =
     (case open_fd c0 of
        (fd, c) \<Rightarrow>
          if fd < 0 then Some (-1, c)
          else if mode \<noteq> O_ALL \<and> mode \<noteq> O_SAMPLE \<and> mode \<noteq> O_WRONLY then fail_connect fd c
          else
            let ki = get_key_out router uid; ko = get_key router uid;
                c1 = upd_desc fd (\<lambda>d. d\<lparr>d_fmode := mode, d_key := ko, d_key_in := ki, d_key_out := ko,
                                       d_msg_id_in := msgget ki (ckrn c)\<rparr>) c
            in if d_msg_id_in (dsc fd c1) = None then fail_connect fd c1
               else
                 let c2 = upd_desc fd (\<lambda>d. d\<lparr>d_msg_id_out := msgget ko (ckrn c)\<rparr>) c1
                 in if d_msg_id_out (dsc fd c2) = None then fail_connect fd c2
                    else
                      let c3 = upd_desc fd (\<lambda>d. d\<lparr>d_msg_snd := (d_msg_snd d)\<lparr>mtype := RTR_MTYPE_ROUTER, mpid := cpid c, cmd := RTR_CONNECT,
                                   mname := strncpy RTR_NAME_LEN name, arg0 := d_fmode d, arg1 := ROUTER_VERSION, arg2 := 0\<rparr>\<rparr>) c2
                      in (case ksend (d_msg_id_out (dsc fd c3)) (d_msg_snd (dsc fd c3)) (ckrn c3) of
                            None \<Rightarrow> None
                          | Some (False, K) \<Rightarrow> fail_connect fd c3
                          | Some (True, K) \<Rightarrow> Some (fd, c3\<lparr>ckrn := K\<rparr>)))"

text \<open>The rest of \<^verbatim>\<open>router_connect\<close>: the reply, and the shared memory.\<close>

definition router_connect_reply :: "int \<Rightarrow> client \<Rightarrow> (int \<times> client) option" where
  "router_connect_reply fd c =
     (case krecv (d_msg_id_in (dsc fd c)) (cpid c) (ckrn c) of
        None \<Rightarrow> None
      | Some (Inl e) \<Rightarrow> fail_connect fd c
      | Some (Inr (m, K)) \<Rightarrow>
          let c1 = upd_desc fd (\<lambda>d. d\<lparr>d_msg_rcv := m\<rparr>) (c\<lparr>ckrn := K\<rparr>)
          in if cmd m \<noteq> RTR_CONNECT then fail_connect fd c1
             else
               let c2 = upd_desc fd (\<lambda>d. d\<lparr>d_connect := 1, d_shm_id := shmget (d_key d) K\<rparr>) c1
               in if d_shm_id (dsc fd c2) = None then fail_connect fd c2
                  else
                    let c3 = upd_desc fd (\<lambda>d. d\<lparr>d_shm_buf := shmat_at c\<rparr>) c2
                    in if d_shm_buf (dsc fd c3) = None then fail_connect fd c3 else Some (fd, c3))"

text \<open>The signal handler \<^verbatim>\<open>cleanup\<close>: every open descriptor is disconnected before the process ends.\<close>

fun lib_cleanup :: "int list \<Rightarrow> client \<Rightarrow> client option" where
  "lib_cleanup [] c = Some c"
| "lib_cleanup (i # is) c =
     (if check_fd i c = 0
      then (case router_disconnect i c of None \<Rightarrow> None | Some c' \<Rightarrow> lib_cleanup is c')
      else lib_cleanup is c)"

section \<open>Buffers\<close>

text \<open>
  \<^verbatim>\<open>router_request_buf\<close> tests the variable \<^verbatim>\<open>res\<close>, which nothing has assigned. With the value -1 and \<^verbatim>\<open>errno\<close>
  equal to \<^verbatim>\<open>EINTR\<close> the loop sends again and again and does not return.
\<close>

definition router_request_buf :: "int \<Rightarrow> int \<Rightarrow> client \<Rightarrow> (int \<times> client) option" where
  "router_request_buf fd n c =
     (if check_fd fd c \<noteq> 0 then Some (-1, c)
      else
        let c1 = upd_desc fd (\<lambda>d. d\<lparr>d_msg_snd := (d_msg_snd d)\<lparr>mtype := RTR_MTYPE_ROUTER, mpid := cpid c, cmd := RTR_GETBUF,
                     arg0 := n, arg1 := 0, arg2 := 0\<rparr>\<rparr>) c
        in (case ksend (d_msg_id_out (dsc fd c1)) (d_msg_snd (dsc fd c1)) (ckrn c1) of
              None \<Rightarrow> None
            | Some (False, K) \<Rightarrow> Some (-1, c1)
            | Some (True, K) \<Rightarrow>
                if ures c = -1 then (if eintr c then None else Some (-1, c1\<lparr>ckrn := K\<rparr>))
                else Some (0, c1\<lparr>ckrn := K\<rparr>)))"

text \<open>The loop of \<^verbatim>\<open>router_get_buf\<close> drops every message that is not a buffer.\<close>

definition kmsgs :: "key option \<Rightarrow> kernel \<Rightarrow> rtr_msg list" where
  "kmsgs i K = (case i of None \<Rightarrow> [] | Some k \<Rightarrow> (case kmsg K k of None \<Rightarrow> [] | Some q \<Rightarrow> mq_msgs q))"

lemma krecv_length: "krecv i t K = Some (Inr (m, K')) \<Longrightarrow> length (kmsgs i K') < length (kmsgs i K)"
  by (auto simp: krecv_def kmsgs_def split: option.splits sum.splits if_splits dest!: msgrcv_nowait_length)

function get_buf_loop :: "key option \<Rightarrow> int \<Rightarrow> kernel \<Rightarrow> (errno + rtr_msg \<times> kernel) option" where
  "get_buf_loop i t K =
     (case krecv i t K of
        None \<Rightarrow> None
      | Some (Inl e) \<Rightarrow> Some (Inl e)
      | Some (Inr (m, K')) \<Rightarrow> if cmd m = RTR_BUFFER then Some (Inr (m, K')) else get_buf_loop i t K')"
  by pat_completeness auto
termination
  by (relation "measure (\<lambda>(i, t, K). length (kmsgs i K))") (auto dest: krecv_length)

declare get_buf_loop.simps [simp del]

text \<open>The result: the return code, the pointer and the size.\<close>

definition router_get_buf :: "int \<Rightarrow> client \<Rightarrow> (int \<times> int \<times> int \<times> client) option" where
  "router_get_buf fd c =
     (if check_fd fd c \<noteq> 0 then Some (-1, 0, 0, c)
      else
        (case get_buf_loop (d_msg_id_in (dsc fd c)) (cpid c) (ckrn c) of
           None \<Rightarrow> None
         | Some (Inl e) \<Rightarrow> Some (-1, 0, 0, c)
         | Some (Inr (m, K)) \<Rightarrow>
             let c1 = upd_desc fd (\<lambda>d. d\<lparr>d_msg_rcv := m\<rparr>) (c\<lparr>ckrn := K\<rparr>)
             in Some (0, the (d_shm_buf (dsc fd c)) + arg0 m, arg1 m, c1)))"

definition router_release_buf :: "int \<Rightarrow> int \<Rightarrow> int \<Rightarrow> client \<Rightarrow> (int \<times> client) option" where
  "router_release_buf fd p n c =
     (if check_fd fd c \<noteq> 0 then Some (-1, c)
      else
        let c1 = upd_desc fd (\<lambda>d. d\<lparr>d_msg_snd := (d_msg_snd d)\<lparr>mtype := RTR_MTYPE_ROUTER, mpid := cpid c, cmd := RTR_RELEASE,
                     arg0 := p - the (d_shm_buf d), arg1 := n, arg2 := 0\<rparr>\<rparr>) c
        in (case ksend (d_msg_id_out (dsc fd c1)) (d_msg_snd (dsc fd c1)) (ckrn c1) of
              None \<Rightarrow> None
            | Some (False, K) \<Rightarrow> Some (-1, c1)
            | Some (True, K) \<Rightarrow> Some (0, c1\<lparr>ckrn := K\<rparr>)))"

section \<open>Descriptors behave\<close>

definition desc_ok :: "client \<Rightarrow> bool" where
  "desc_ok c \<longleftrightarrow> (\<forall>ds. desc c = Some ds \<longrightarrow> length ds = MNODESC)"

lemma check_fd_cases:
  "check_fd fd c = 0 \<longleftrightarrow> 0 \<le> fd \<and> fd < int MNODESC \<and> (\<exists>ds. desc c = Some ds \<and> d_open (ds ! nat fd) \<noteq> 0)"
  "check_fd fd c \<noteq> 0 \<longleftrightarrow> check_fd fd c = -1"
  by (auto simp: check_fd_def split: option.splits)

lemma dsc_upd: "desc_ok c \<Longrightarrow> check_fd fd c = 0 \<Longrightarrow> dsc fd (upd_desc fd f c) = f (dsc fd c)"
  by (auto simp: check_fd_cases dsc_def upd_desc_def desc_ok_def)

lemma upd_desc_simps [simp]:
  "ckrn (upd_desc fd f c) = ckrn c" "cpid (upd_desc fd f c) = cpid c" "desc_ok (upd_desc fd f c) = desc_ok c"
  "dsc fd (c\<lparr>ckrn := K\<rparr>) = dsc fd c" "desc_ok (c\<lparr>ckrn := K\<rparr>) = desc_ok c" "check_fd fd (c\<lparr>ckrn := K\<rparr>) = check_fd fd c"
  by (auto simp: upd_desc_def desc_ok_def dsc_def check_fd_def)

lemma check_fd_upd:
  "desc_ok c \<Longrightarrow> check_fd fd c = 0 \<Longrightarrow> d_open (f (dsc fd c)) \<noteq> 0 \<Longrightarrow> check_fd fd (upd_desc fd f c) = 0"
  by (auto simp: check_fd_cases dsc_def upd_desc_def desc_ok_def)

lemma first_closed_Some:
  "first_closed ds = Some i \<Longrightarrow> i < length ds \<and> d_open (ds ! i) = 0 \<and> (\<forall>j < i. d_open (ds ! j) \<noteq> 0)"
proof (induction ds arbitrary: i)
  case (Cons d ds)
  then show ?case by (cases i) (auto simp: nth_Cons less_Suc_eq_0_disj split: if_splits)
qed simp

lemma first_closed_None: "first_closed ds = None \<longleftrightarrow> (\<forall>d \<in> set ds. d_open d \<noteq> 0)"
  by (induction ds) auto

text \<open>\<^verbatim>\<open>open_fd\<close> hands out the lowest closed descriptor and leaves the others as they are.\<close>

lemma open_fd_desc:
  assumes "desc_ok c" and "open_fd c = (fd, c')" and "0 \<le> fd"
  obtains ds i where "fd = int i" and "i < MNODESC" and "length ds = MNODESC" and "d_open (ds ! i) = 0"
    and "\<forall>j < i. d_open (ds ! j) \<noteq> 0" and "c' = c\<lparr>desc := Some (ds[i := fresh_desc (ds ! i)])\<rparr>"
    and "desc c = Some ds \<or> desc c = None \<and> ds = replicate MNODESC ((junk c)\<lparr>d_open := 0\<rparr>)"
proof (cases "desc c")
  case None
  with assms have m: "desc_mok c" by (auto simp: open_fd_def Let_def split: if_splits)
  let ?ds = "replicate MNODESC ((junk c)\<lparr>d_open := 0\<rparr>)"
  have fc: "first_closed ?ds = Some 0" by (simp add: MNODESC_def eval_nat_numeral)
  with assms(2) None m have "fd = int 0" "c' = c\<lparr>desc := Some (?ds[0 := fresh_desc (?ds ! 0)])\<rparr>"
    by (auto simp: open_fd_def Let_def)
  with None fc show thesis by (intro that [of 0 ?ds]) (auto simp: MNODESC_def)
next
  case (Some ds)
  then have l: "length ds = MNODESC" using assms(1) by (simp add: desc_ok_def)
  from Some assms(2,3) obtain i where "first_closed ds = Some i" "fd = int i"
    "c' = c\<lparr>desc := Some (ds[i := fresh_desc (ds ! i)])\<rparr>"
    by (auto simp: open_fd_def Let_def split: option.splits)
  with first_closed_Some [of ds i] l Some show thesis by (intro that [of i ds]) auto
qed

section \<open>Messages\<close>

text \<open>A successful send appends to the queue, a successful reception takes the first message of the type.\<close>

lemma ksend_True: "ksend i m K = Some (True, K') \<Longrightarrow> kmsgs i K' = kmsgs i K @ [m]"
  by (auto simp: ksend_def kmsgs_def msgsnd_nowait_def split: option.splits sum.splits if_splits)

definition kstream :: "key option \<Rightarrow> int \<Rightarrow> kernel \<Rightarrow> rtr_msg list" where
  "kstream i t K = filter (\<lambda>m. mtype m = t) (kmsgs i K)"

lemma krecv_stream: "krecv i t K = Some (Inr (m, K')) \<Longrightarrow> kstream i t K = m # kstream i t K'"
  by (auto simp: krecv_def kstream_def kmsgs_def msgrcv_nowait_def filter_False split: option.splits sum.splits if_splits
      dest!: split_first_SomeD)

lemma get_buf_loop_stream:
  "get_buf_loop i t K = Some (Inr (m, K')) \<Longrightarrow>
   \<exists>skip. kstream i t K = skip @ m # kstream i t K' \<and> (\<forall>x \<in> set skip. cmd x \<noteq> RTR_BUFFER) \<and> cmd m = RTR_BUFFER"
proof (induction i t K rule: get_buf_loop.induct)
  case (1 i t K)
  note eq = "1.prems" [unfolded get_buf_loop.simps [of i t K]]
  from eq obtain x K1 where k: "krecv i t K = Some (Inr (x, K1))"
    by (auto split: option.splits sum.splits)
  show ?case
  proof (cases "cmd x = RTR_BUFFER")
    case True
    with eq k krecv_stream [OF k] show ?thesis by (intro exI [of _ "[]"]) simp
  next
    case False
    with eq k have "get_buf_loop i t K1 = Some (Inr (m, K'))" by simp
    from "1.IH" [OF k refl refl False this] obtain skip where
      "kstream i t K1 = skip @ m # kstream i t K'" "\<forall>x \<in> set skip. cmd x \<noteq> RTR_BUFFER" "cmd m = RTR_BUFFER" by blast
    with krecv_stream [OF k] False show ?thesis by (intro exI [of _ "x # skip"]) simp
  qed
qed

section \<open>Properties of the library\<close>

definition demo_msg :: "int \<Rightarrow> int \<Rightarrow> rtr_msg" where
  "demo_msg c a = \<lparr>mtype = 100, mpid = 1, cmd = c, arg0 = a, arg1 = 32, arg2 = 0, mname = []\<rparr>"

definition demo_desc :: rtr_desc where
  "demo_desc = \<lparr>d_open = 0, d_connect = 0, d_key = 0, d_key_in = 0, d_key_out = 0, d_msg_id_in = None, d_msg_id_out = None,
     d_shm_id = None, d_shm_buf = None, d_fmode = 0, d_msg_snd = demo_msg 0 0, d_msg_rcv = demo_msg 0 0\<rparr>"

definition demo_client :: client where
  "demo_client =
     \<lparr>desc = Some (demo_desc\<lparr>d_open := 1, d_connect := 1, d_msg_id_in := Some 1, d_msg_id_out := Some 2, d_shm_buf := Some 5000\<rparr>
                  # replicate 7 demo_desc),
      junk = demo_desc, desc_mok = True, cpid = 100,
      ckrn = \<lparr>kshm = \<lambda>_. None,
              kmsg = [1 \<mapsto> \<lparr>mq_msgs = [demo_msg RTR_REFUSE 0, demo_msg RTR_BUFFER 64], mq_cap = 16, mq_live = True\<rparr>,
                      2 \<mapsto> \<lparr>mq_msgs = [], mq_cap = 16, mq_live = True\<rparr>],
              kshm_max = 1000, kmsg_cap = 16\<rparr>,
      shmat_at = Some 5000, ures = 0, eintr = False\<rparr>"

lemma demo_client_ok: "desc_ok demo_client"
  by (simp add: desc_ok_def demo_client_def MNODESC_def)

lemmas eval_client = demo_client_def demo_desc_def demo_msg_def router_get_buf_def router_release_buf_def check_fd_def
  dsc_def upd_desc_def get_buf_loop.simps krecv_def ksend_def msgrcv_nowait_def msgsnd_nowait_def rtr_consts MNODESC_def Let_def

text \<open>\<^verbatim>\<open>router_get_buf\<close> returns the first buffer that is waiting for the process, skips only messages that are not
  buffers, and the pointer is the position of the buffer in the attached shared memory.\<close>

theorem get_buf_returns_first_buffer:
  assumes "router_get_buf fd c = Some (0, p, n, c')"
  shows "\<exists>skip m. kstream (d_msg_id_in (dsc fd c)) (cpid c) (ckrn c) =
        skip @ m # kstream (d_msg_id_in (dsc fd c)) (cpid c) (ckrn c') \<and>
     (\<forall>x \<in> set skip. cmd x \<noteq> RTR_BUFFER) \<and> cmd m = RTR_BUFFER \<and>
     p = the (d_shm_buf (dsc fd c)) + arg0 m \<and> n = arg1 m"
proof -
  obtain m K where g: "get_buf_loop (d_msg_id_in (dsc fd c)) (cpid c) (ckrn c) = Some (Inr (m, K))"
    and r: "p = the (d_shm_buf (dsc fd c)) + arg0 m" "n = arg1 m" "ckrn c' = K"
    using assms by (auto simp: router_get_buf_def Let_def split: if_splits option.splits sum.splits)
  from get_buf_loop_stream [OF g] r show ?thesis by auto
qed

lemma demo_get_buf: "\<exists>c'. router_get_buf 0 demo_client = Some (0, 5064, 32, c')"
  by (simp add: eval_client)

theorem get_buf_returns_first_buffer_witness:
  "\<exists>m :: rtr_msg. cmd m = RTR_BUFFER \<and> (5064 :: int) = the (d_shm_buf (dsc 0 demo_client)) + arg0 m \<and> 32 = arg1 m"
proof -
  obtain c' where "router_get_buf 0 demo_client = Some (0, 5064, 32, c')" using demo_get_buf by blast
  from get_buf_returns_first_buffer [OF this] show ?thesis by auto
qed

text \<open>What \<^verbatim>\<open>router_get_buf\<close> has returned, \<^verbatim>\<open>router_release_buf\<close> gives back: the release carries exactly the
  position the router announced, the caller's process id and size, and is addressed to the router.\<close>

theorem release_gives_back_what_was_got:
  assumes ok: "desc_ok c" and g: "router_get_buf fd c = Some (0, p, n, c1)"
    and r: "router_release_buf fd p k c1 = Some (0, c2)"
  shows "\<exists>x. kmsgs (d_msg_id_out (dsc fd c)) (ckrn c2) = kmsgs (d_msg_id_out (dsc fd c)) (ckrn c1) @ [x] \<and>
     cmd x = RTR_RELEASE \<and> mtype x = RTR_MTYPE_ROUTER \<and> mpid x = cpid c \<and> arg0 x = arg0 (d_msg_rcv (dsc fd c1)) \<and> arg1 x = k"
proof -
  have fd: "check_fd fd c = 0" using g by (auto simp: router_get_buf_def split: if_splits)
  obtain m K where p: "p = the (d_shm_buf (dsc fd c)) + arg0 m"
    and c1: "c1 = upd_desc fd (\<lambda>d. d\<lparr>d_msg_rcv := m\<rparr>) (c\<lparr>ckrn := K\<rparr>)"
    using g fd by (auto simp: router_get_buf_def Let_def split: option.splits sum.splits)
  have d1: "dsc fd c1 = (dsc fd c)\<lparr>d_msg_rcv := m\<rparr>" and ok1: "desc_ok c1" and pid1: "cpid c1 = cpid c"
    using ok fd by (simp_all add: c1 dsc_upd)
  have fd1: "check_fd fd c1 = 0" using r by (auto simp: router_release_buf_def split: if_splits)
  let ?c = "upd_desc fd (\<lambda>d. d\<lparr>d_msg_snd := (d_msg_snd d)\<lparr>mtype := RTR_MTYPE_ROUTER, mpid := cpid c1, cmd := RTR_RELEASE,
                     arg0 := p - the (d_shm_buf d), arg1 := k, arg2 := 0\<rparr>\<rparr>) c1"
  have dc: "d_msg_id_out (dsc fd ?c) = d_msg_id_out (dsc fd c)"
    "d_msg_snd (dsc fd ?c) = (d_msg_snd (dsc fd c))\<lparr>mtype := RTR_MTYPE_ROUTER, mpid := cpid c, cmd := RTR_RELEASE,
       arg0 := arg0 m, arg1 := k, arg2 := 0\<rparr>"
    using dsc_upd [OF ok1 fd1] d1 pid1 p by simp_all
  obtain K2 where "ksend (d_msg_id_out (dsc fd ?c)) (d_msg_snd (dsc fd ?c)) (ckrn c1) = Some (True, K2)" "ckrn c2 = K2"
    using r fd1 by (auto simp: router_release_buf_def Let_def split: option.splits bool.splits)
  with ksend_True [of "d_msg_id_out (dsc fd ?c)" "d_msg_snd (dsc fd ?c)" "ckrn c1" K2] dc d1 show ?thesis by simp
qed

theorem release_gives_back_what_was_got_witness:
  "\<exists>c1 c2 x. router_get_buf 0 demo_client = Some (0, 5064, 32, c1) \<and> router_release_buf 0 5064 32 c1 = Some (0, c2) \<and>
     kmsgs (Some 2) (ckrn c2) = kmsgs (Some 2) (ckrn c1) @ [x] \<and> cmd x = RTR_RELEASE \<and> arg1 x = 32"
proof -
  have "\<exists>c1 c2. router_get_buf 0 demo_client = Some (0, 5064, 32, c1) \<and> router_release_buf 0 5064 32 c1 = Some (0, c2)"
    by (simp add: eval_client)
  then obtain c1 c2 where 1: "router_get_buf 0 demo_client = Some (0, 5064, 32, c1)"
    and 2: "router_release_buf 0 5064 32 c1 = Some (0, c2)" by blast
  have "d_msg_id_out (dsc 0 demo_client) = Some 2" by (simp add: demo_client_def dsc_def)
  with release_gives_back_what_was_got [OF demo_client_ok 1 2] 1 2 show ?thesis by auto
qed

lemma open_fd_takes_lowest':
  assumes "desc_ok c" and "open_fd c = (fd, c')" and "0 \<le> fd"
  shows "check_fd fd c' = 0" "desc_ok c'" "cpid c' = cpid c" "ckrn c' = ckrn c"
proof -
  obtain ds i where "fd = int i" "i < MNODESC" "length ds = MNODESC" "c' = c\<lparr>desc := Some (ds[i := fresh_desc (ds ! i)])\<rparr>"
    by (rule open_fd_desc [OF assms])
  then show "check_fd fd c' = 0" "desc_ok c'" "cpid c' = cpid c" "ckrn c' = ckrn c"
    by (auto simp: check_fd_cases fresh_desc_def desc_ok_def)
qed

text \<open>\<^verbatim>\<open>open_fd\<close> returns the lowest closed descriptor, below 8; afterwards it is open and every other descriptor
  is as before.\<close>

theorem open_fd_takes_lowest:
  assumes "desc_ok c" and "open_fd c = (fd, c')" and "0 \<le> fd"
  shows "fd < 8 \<and> check_fd fd c = -1 \<and> check_fd fd c' = 0 \<and> (\<forall>j. 0 \<le> j \<and> j < fd \<longrightarrow> check_fd j c = 0) \<and>
    (\<forall>j. j \<noteq> fd \<longrightarrow> check_fd j c' = check_fd j c) \<and> desc_ok c'"
proof -
  obtain ds i where i: "fd = int i" "i < MNODESC" "length ds = MNODESC" "d_open (ds ! i) = 0"
    "\<forall>j < i. d_open (ds ! j) \<noteq> 0" and c': "c' = c\<lparr>desc := Some (ds[i := fresh_desc (ds ! i)])\<rparr>"
    and ds: "desc c = Some ds \<or> desc c = None \<and> ds = replicate MNODESC ((junk c)\<lparr>d_open := 0\<rparr>)"
    by (rule open_fd_desc [OF assms])
  have "check_fd j c = (if 0 \<le> j \<and> j < int MNODESC \<and> d_open (ds ! nat j) \<noteq> 0 then 0 else -1)" for j
    using ds by (auto simp: check_fd_def)
  moreover have "check_fd j c' = (if 0 \<le> j \<and> j < int MNODESC \<and> (nat j = i \<or> d_open (ds ! nat j) \<noteq> 0) then 0 else -1)" for j
    using i by (auto simp: check_fd_def c' nth_list_update fresh_desc_def)
  ultimately show ?thesis using i c' by (auto simp: desc_ok_def MNODESC_def)
qed

theorem open_fd_takes_lowest_witness:
  "fst (open_fd demo_client) < 8 \<and> check_fd (fst (open_fd demo_client)) (snd (open_fd demo_client)) = 0"
proof -
  have "0 \<le> fst (open_fd demo_client)" by (simp add: open_fd_def demo_client_def demo_desc_def Let_def eval_nat_numeral)
  with open_fd_takes_lowest [OF demo_client_ok, of "fst (open_fd demo_client)" "snd (open_fd demo_client)"]
  show ?thesis by simp
qed

text \<open>Two router names have the same keys exactly when their first four characters, filled up with blanks,
  agree; the two queues of one router have different keys.\<close>

theorem keys_identify_routers:
  "(get_key a uid = get_key b uid \<longleftrightarrow> pad4 a = pad4 b) \<and> get_key_out a uid \<noteq> get_key a uid"
  using int_of_chars_inj [of "pad4 a" "pad4 b"] get_key_out_neq by (auto simp: get_key_pad)

text \<open>The request \<^verbatim>\<open>router_connect\<close> sends is one the router accepts: unless the process is connected already, the
  router adds it with the requested mode and replies with \<^verbatim>\<open>RTR_CONNECT\<close>, which is what the library waits for.\<close>

theorem connect_request_is_accepted:
  assumes ok: "desc_ok c0" and s: "router_connect_send router uid name mode c0 = Some (fd, c)" and fd: "0 \<le> fd"
    and rtr: "\<forall>k. mok s k" "cpid c0 \<notin> pid ` set (pl s)"
  shows "\<exists>x p y. kmsgs (Some (get_key router uid)) (ckrn c) = kmsgs (Some (get_key router uid)) (ckrn c0) @ [x] \<and>
     pl (msg_connect x s) = pl s @ [p] \<and> pid p = cpid c0 \<and> flag p = mode \<and> cnt p = 0 \<and> bl p = [] \<and>
     out (msg_connect x s) = out s @ [y] \<and> cmd y = RTR_CONNECT \<and> mtype y = cpid c0"
proof -
  obtain f c1 where o: "open_fd c0 = (f, c1)" by fastforce
  have fail: "fail_connect g x \<noteq> Some (fd, y)" for g x y
    using fd by (auto simp: fail_connect_def)
  have f0: "0 \<le> f" and mode: "mode = O_ALL \<or> mode = O_SAMPLE \<or> mode = O_WRONLY"
    using s o fd fail by (auto simp: router_connect_send_def split: if_splits)
  note od = open_fd_takes_lowest' [OF ok o f0]
  let ?k = "get_key router uid" and ?ki = "get_key_out router uid"
  let ?c1 = "upd_desc f (\<lambda>d. d\<lparr>d_fmode := mode, d_key := ?k, d_key_in := ?ki, d_key_out := ?k, d_msg_id_in := msgget ?ki (ckrn c1)\<rparr>) c1"
  let ?c2 = "upd_desc f (\<lambda>d. d\<lparr>d_msg_id_out := msgget ?k (ckrn c1)\<rparr>) ?c1"
  let ?c3 = "upd_desc f (\<lambda>d. d\<lparr>d_msg_snd := (d_msg_snd d)\<lparr>mtype := RTR_MTYPE_ROUTER, mpid := cpid c1, cmd := RTR_CONNECT,
      mname := strncpy RTR_NAME_LEN name, arg0 := d_fmode d, arg1 := ROUTER_VERSION, arg2 := 0\<rparr>\<rparr>) ?c2"
  let ?x = "d_msg_snd (dsc f ?c3)"
  have op: "d_open (dsc f c1) \<noteq> 0" using od by (simp add: check_fd_cases dsc_def) auto
  have ok1: "check_fd f ?c1 = 0" using od op by (simp add: check_fd_upd)
  have op1: "d_open (dsc f ?c1) \<noteq> 0" using od op by (simp add: dsc_upd)
  have ok2: "check_fd f ?c2 = 0" using od ok1 op1 by (simp add: check_fd_upd)
  have x: "cmd ?x = RTR_CONNECT" "mpid ?x = cpid c0" "arg0 ?x = mode" "arg1 ?x = ROUTER_VERSION"
    using od ok1 ok2 by (simp_all add: dsc_upd)
  have mo: "d_msg_id_out (dsc f ?c3) = msgget ?k (ckrn c0)"
    using od ok1 ok2 by (simp add: dsc_upd)
  obtain K where ks: "ksend (d_msg_id_out (dsc f ?c3)) ?x (ckrn c0) = Some (True, K)" "ckrn c = K"
    using s o f0 mode fail od
    by (auto simp: router_connect_send_def Let_def split: if_splits option.splits bool.splits)
  then have "d_msg_id_out (dsc f ?c3) = Some ?k"
    using mo by (cases "msgget ?k (ckrn c0)") (auto simp: ksend_def msgget_def split: if_splits)
  with ksend_True [of "Some ?k" ?x "ckrn c0" K] ks
  have app: "kmsgs (Some ?k) (ckrn c) = kmsgs (Some ?k) (ckrn c0) @ [?x]" by simp
  have "mode \<in> {O_RDONLY, O_WRONLY, O_SAMPLE}" using mode by (auto simp: rtr_consts)
  with x rtr have mc: "msg_connect ?x s = snd (send_msg (cpid c0) RTR_CONNECT 0 0 0 (snd (new_pl (cpid c0) mode (mname ?x) s)))"
    by (auto simp: msg_connect_def new_pl_def malloc_def image_iff rtr_consts)
  have mok1: "\<forall>k. mok (snd (new_pl (cpid c0) mode (mname ?x) s)) k"
    using rtr by (simp add: new_pl_def malloc_def)
  have np: "pl (snd (new_pl (cpid c0) mode (mname ?x) s)) =
      pl s @ [\<lparr>pid = cpid c0, flag = mode, cnt = 0, cnt_total = 0, c_time = now s, l_time = now s, bl = [],
              pname = strncpy RTR_NAME_LEN (mname ?x)\<rparr>]" "out (snd (new_pl (cpid c0) mode (mname ?x) s)) = out s"
    using rtr by (simp_all add: new_pl_def malloc_def)
  have "\<exists>p. pl (msg_connect ?x s) = pl s @ [p] \<and> pid p = cpid c0 \<and> flag p = mode \<and> cnt p = 0 \<and> bl p = []"
    unfolding mc by (simp add: frame_simps np)
  moreover have "\<exists>y. out (msg_connect ?x s) = out s @ [y] \<and> cmd y = RTR_CONNECT \<and> mtype y = cpid c0"
    unfolding mc by (simp add: send_msg_out [OF mok1] np)
  ultimately show ?thesis using app by blast
qed

theorem connect_request_is_accepted_witness:
  "\<exists>fd c x p. router_connect_send ''a'' 0 ''reader'' O_SAMPLE
       (demo_client\<lparr>ckrn := (ckrn demo_client)\<lparr>kmsg := [get_key ''a'' 0 \<mapsto> \<lparr>mq_msgs = [], mq_cap = 16, mq_live = True\<rparr>,
          get_key_out ''a'' 0 \<mapsto> dead_queue]\<rparr>\<rparr>) = Some (fd, c) \<and>
     pl (msg_connect x demo_router) = pl demo_router @ [p] \<and> pid p = 100 \<and> flag p = O_SAMPLE"
proof -
  let ?c = "demo_client\<lparr>ckrn := (ckrn demo_client)\<lparr>kmsg := [get_key ''a'' 0 \<mapsto> \<lparr>mq_msgs = [], mq_cap = 16, mq_live = True\<rparr>,
          get_key_out ''a'' 0 \<mapsto> dead_queue]\<rparr>\<rparr>"
  have ne: "get_key ''a'' 0 \<noteq> get_key_out ''a'' 0" using get_key_out_neq [of "''a''" 0] by auto
  have "\<exists>c. router_connect_send ''a'' 0 ''reader'' O_SAMPLE ?c = Some (1, c)"
    using ne by (simp add: router_connect_send_def open_fd_def demo_client_def demo_desc_def fresh_desc_def Let_def
      upd_desc_def dsc_def msgget_def ksend_def msgsnd_nowait_def eval_nat_numeral)
  then obtain c where c: "router_connect_send ''a'' 0 ''reader'' O_SAMPLE ?c = Some (1, c)" by blast
  have "desc_ok ?c" "cpid ?c \<notin> pid ` set (pl demo_router)" "\<forall>k. mok demo_router k" "cpid ?c = 100"
    using demo_client_ok by (simp_all add: demo_client_def demo_router_def listen_init_def desc_ok_def)
  with connect_request_is_accepted [OF _ c, of demo_router] c show ?thesis by auto
qed

end
