(* ===== verification/Ring_Buffer.thy ===== *)
theory Ring_Buffer
  imports Udaq_Prelude
begin

text \<open>
  The ring buffer between the collector thread and the transfer thread (\<^verbatim>\<open>gr/ring_buf.c\<close>): a fixed number
  of blocks in a circle, a start index and a fill count. Both operations run under one mutex, so a thread
  either waits (\<open>None\<close>) or performs its whole operation; the waiting itself, with the mutex and the two condition
  variables, is in \<^verbatim>\<open>Ring_Threads\<close>. The contract of a bounded queue is the locale
  \<open>bounded_fifo\<close>; it gives the property of every interleaving of producers and consumers.
\<close>

section \<open>The ring\<close>

type_synonym blk = "16 word list"

definition QSIZE :: nat where
  "QSIZE = 128"

definition BLK_BUF_SIZE :: nat where
  "BLK_BUF_SIZE = 0x2000"

record ring_buf =
  start_idx :: nat
  num_full :: nat
  shm_hdl :: "blk list"

text \<open>
  \<^verbatim>\<open>new_rb\<close> with \<^verbatim>\<open>max_que_num\<close> blocks; \<open>ok\<close> says whether \<^verbatim>\<open>malloc\<close> delivers, \<open>mem\<close> what the memory contains. The
  pointer array has \<^verbatim>\<open>QSIZE\<close> entries: the loop writes behind it when \<^verbatim>\<open>max_que_num\<close> is larger. The result
  of \<^verbatim>\<open>malloc\<close> is used before it is tested. Both are \<open>None\<close>.
\<close>

definition new_rb :: "bool \<Rightarrow> blk list \<Rightarrow> int \<Rightarrow> ring_buf option" where
  "new_rb ok mem max_que_num =
     (if \<not> ok \<or> max_que_num > int QSIZE then None
      else Some \<lparr>start_idx = 0, num_full = 0, shm_hdl = take (nat max_que_num) mem\<rparr>)"

text \<open>\<open>q\<close> is \<^verbatim>\<open>max_que_num\<close>, \<open>n\<close> the size of a block in words.\<close>

definition put_rb_data :: "nat \<Rightarrow> nat \<Rightarrow> blk \<Rightarrow> ring_buf \<Rightarrow> ring_buf option" where
  "put_rb_data q n data rb =
     (if num_full rb = q then None
      else Some (rb\<lparr>shm_hdl := (shm_hdl rb)[(start_idx rb + num_full rb) mod q := take n data],
                    num_full := num_full rb + 1\<rparr>))"

definition get_rb_data :: "nat \<Rightarrow> nat \<Rightarrow> ring_buf \<Rightarrow> (blk \<times> ring_buf) option" where
  "get_rb_data q n rb =
     (if num_full rb = 0 then None
      else Some (take n (shm_hdl rb ! start_idx rb),
                 rb\<lparr>start_idx := (start_idx rb + 1) mod q, num_full := num_full rb - 1\<rparr>))"

section \<open>The contract\<close>

text \<open>
  A bounded queue: \<open>contents\<close> is what it holds, oldest first. Inserting waits exactly when it is full, removing
  exactly when it is empty.
\<close>

locale bounded_fifo =
  fixes put :: "'a \<Rightarrow> 'q \<Rightarrow> 'q option"
    and get :: "'q \<Rightarrow> ('a \<times> 'q) option"
    and contents :: "'q \<Rightarrow> 'a list"
    and good :: "'a \<Rightarrow> bool"
    and invar :: "'q \<Rightarrow> bool"
    and cap :: nat
  assumes put_full: "invar r \<Longrightarrow> put x r = None \<longleftrightarrow> length (contents r) = cap"
    and put_ok: "invar r \<Longrightarrow> good x \<Longrightarrow> put x r = Some r' \<Longrightarrow> invar r' \<and> contents r' = contents r @ [x]"
    and get_empty: "invar r \<Longrightarrow> get r = None \<longleftrightarrow> contents r = []"
    and get_ok: "invar r \<Longrightarrow> get r = Some (x, r') \<Longrightarrow> invar r' \<and> contents r = x # contents r'"
begin

text \<open>
  A run of any number of threads: \<open>trace ins outs r r'\<close> says that some interleaving of insertions and
  removals leads from \<open>r\<close> to \<open>r'\<close>, with \<open>ins\<close> inserted and \<open>outs\<close> removed in this order.
\<close>

inductive trace :: "'a list \<Rightarrow> 'a list \<Rightarrow> 'q \<Rightarrow> 'q \<Rightarrow> bool" where
  stop: "trace [] [] r r"
| insert: "good x \<Longrightarrow> put x r = Some r1 \<Longrightarrow> trace ins outs r1 r' \<Longrightarrow> trace (x # ins) outs r r'"
| remove: "get r = Some (x, r1) \<Longrightarrow> trace ins outs r1 r' \<Longrightarrow> trace ins (x # outs) r r'"

lemma trace_fifo: "trace ins outs r r' \<Longrightarrow> invar r \<Longrightarrow> invar r' \<and> contents r @ ins = outs @ contents r'"
proof (induction rule: trace.induct)
  case (insert x r r1 ins outs r')
  with put_ok [of r x r1] show ?case by auto
next
  case (remove r x r1 ins outs r')
  with get_ok [of r x r1] show ?case by auto
qed simp

lemma progress: "invar r \<Longrightarrow> 0 < cap \<Longrightarrow> put x r \<noteq> None \<or> get r \<noteq> None"
  using put_full [of r x] get_empty [of r] by auto

end

section \<open>The ring keeps the contract\<close>

definition rb_contents :: "nat \<Rightarrow> ring_buf \<Rightarrow> blk list" where
  "rb_contents q rb = map (\<lambda>k. shm_hdl rb ! ((start_idx rb + k) mod q)) [0 ..< num_full rb]"

definition rb_ok :: "nat \<Rightarrow> nat \<Rightarrow> ring_buf \<Rightarrow> bool" where
  "rb_ok q n rb \<longleftrightarrow>
     0 < q \<and> length (shm_hdl rb) = q \<and> start_idx rb < q \<and> num_full rb \<le> q \<and> (\<forall>b \<in> set (rb_contents q rb). length b = n)"

lemma length_rb_contents [simp]: "length (rb_contents q rb) = num_full rb"
  by (simp add: rb_contents_def)

lemma rb_slots_distinct:
  assumes "k < l" and "l < q"
  shows "(s + k) mod q \<noteq> (s + l) mod (q :: nat)"
proof
  assume eq: "(s + k) mod q = (s + l) mod q"
  define a d where "a = (s + k) mod q" and "d = l - k"
  have d: "0 < d" "d < q" "a < q" and l: "s + l = (s + k) + d" using assms by (auto simp: a_def d_def)
  have "(a + d) mod q = (s + l) mod q" unfolding l a_def by (rule mod_add_left_eq)
  then have "(a + d) mod q = a" using eq by (simp add: a_def)
  moreover have "(a + d) mod q = (if a + d < q then a + d else a + d - q)"
    using d by (simp add: mod_if)
  ultimately show False using d by (auto split: if_splits)
qed

lemma put_rb_contents:
  assumes "rb_ok q n rb" and "length data = n" and "put_rb_data q n data rb = Some rb'"
  shows "rb_ok q n rb' \<and> rb_contents q rb' = rb_contents q rb @ [data]"
proof -
  let ?i = "(start_idx rb + num_full rb) mod q"
  have nf: "num_full rb < q" and rb': "rb' = rb\<lparr>shm_hdl := (shm_hdl rb)[?i := data], num_full := num_full rb + 1\<rparr>"
    using assms by (auto simp: put_rb_data_def rb_ok_def split: if_splits)
  have "?i < length (shm_hdl rb)" using assms(1) by (simp add: rb_ok_def)
  then have new: "(shm_hdl rb)[?i := data] ! ?i = data" by simp
  have old: "(shm_hdl rb)[?i := data] ! ((start_idx rb + k) mod q) = shm_hdl rb ! ((start_idx rb + k) mod q)"
    if "k < num_full rb" for k
    using rb_slots_distinct [OF that nf, of "start_idx rb"] by (metis nth_list_update_neq)
  from new old have c: "rb_contents q rb' = rb_contents q rb @ [data]"
    by (simp add: rb_contents_def rb')
  then have "\<forall>b \<in> set (rb_contents q rb'). length b = n"
    using assms(1,2) by (auto simp: rb_ok_def)
  moreover have "length (shm_hdl rb') = q" "start_idx rb' < q" "num_full rb' \<le> q" "0 < q"
    using assms(1) nf by (auto simp: rb_ok_def rb')
  ultimately show ?thesis using c by (simp add: rb_ok_def)
qed

lemma get_rb_contents:
  assumes "rb_ok q n rb" and "get_rb_data q n rb = Some (x, rb')"
  shows "rb_ok q n rb' \<and> rb_contents q rb = x # rb_contents q rb'"
proof -
  have nf: "0 < num_full rb" and x: "x = take n (shm_hdl rb ! start_idx rb)"
    and rb': "rb' = rb\<lparr>start_idx := (start_idx rb + 1) mod q, num_full := num_full rb - 1\<rparr>"
    using assms(2) by (auto simp: get_rb_data_def split: if_splits)
  have "[0 ..< num_full rb] = 0 # map Suc [0 ..< num_full rb - 1]"
    using nf by (metis One_nat_def Suc_pred map_Suc_upt upt_conv_Cons)
  then have "rb_contents q rb = shm_hdl rb ! start_idx rb # rb_contents q rb'"
    using assms(1) by (simp add: rb_contents_def rb' rb_ok_def mod_add_left_eq add.commute [of 1] mod_Suc_eq)
  moreover from this have "length (shm_hdl rb ! start_idx rb) = n"
    using assms(1) by (simp add: rb_ok_def)
  ultimately have c: "rb_contents q rb = x # rb_contents q rb'" by (simp add: x)
  with assms(1) nf show ?thesis by (auto simp: rb_ok_def rb')
qed

interpretation rb: bounded_fifo "put_rb_data q n" "get_rb_data q n" "rb_contents q" "\<lambda>b. length b = n" "rb_ok q n" q
  for q n
proof unfold_locales
  fix r x
  assume "rb_ok q n r"
  then show "put_rb_data q n x r = None \<longleftrightarrow> length (rb_contents q r) = q"
    by (simp add: put_rb_data_def)
next
  fix r x r'
  assume "rb_ok q n r" "length x = n" "put_rb_data q n x r = Some r'"
  then show "rb_ok q n r' \<and> rb_contents q r' = rb_contents q r @ [x]"
    by (rule put_rb_contents)
next
  fix r
  assume "rb_ok q n r"
  then show "get_rb_data q n r = None \<longleftrightarrow> rb_contents q r = []"
    by (metis get_rb_data_def length_0_conv length_rb_contents option.distinct(1))
next
  fix r x r'
  assume "rb_ok q n r" "get_rb_data q n r = Some (x, r')"
  then show "rb_ok q n r' \<and> rb_contents q r = x # rb_contents q r'"
    by (rule get_rb_contents)
qed

section \<open>Runs of threads\<close>

text \<open>One critical section of some thread: a producer puts a block, a consumer takes one.\<close>

datatype rb_op = Put blk | Get

fun rb_run :: "nat \<Rightarrow> nat \<Rightarrow> rb_op list \<Rightarrow> ring_buf \<Rightarrow> (blk list \<times> ring_buf) option" where
  "rb_run q n [] r = Some ([], r)"
| "rb_run q n (Put b # ops) r =
     (case put_rb_data q n b r of None \<Rightarrow> None | Some r1 \<Rightarrow> rb_run q n ops r1)"
| "rb_run q n (Get # ops) r =
     (case get_rb_data q n r of
        None \<Rightarrow> None
      | Some (b, r1) \<Rightarrow> (case rb_run q n ops r1 of None \<Rightarrow> None | Some (outs, r2) \<Rightarrow> Some (b # outs, r2)))"

definition puts :: "rb_op list \<Rightarrow> blk list" where
  "puts ops = concat (map (\<lambda>x. case x of Put b \<Rightarrow> [b] | Get \<Rightarrow> []) ops)"

lemma puts_simps [simp]: "puts [] = []" "puts (Put b # ops) = b # puts ops" "puts (Get # ops) = puts ops"
  by (simp_all add: puts_def)

lemma rb_run_trace:
  "rb_run q n ops r = Some (outs, r') \<Longrightarrow> \<forall>b \<in> set (puts ops). length b = n \<Longrightarrow> rb.trace q n (puts ops) outs r r'"
proof (induction q n ops r arbitrary: outs rule: rb_run.induct)
  case (1 q n r)
  then show ?case by (auto intro: rb.trace.stop)
next
  case (2 q n b ops r)
  then show ?case by (auto split: option.splits intro: rb.trace.insert)
next
  case (3 q n ops r)
  from "3.prems"(1) obtain b r1 os where g: "get_rb_data q n r = Some (b, r1)" and r: "rb_run q n ops r1 = Some (os, r')"
    and o: "outs = b # os"
    by (auto split: option.splits)
  have "rb.trace q n (puts ops) os r1 r'"
    using "3.IH" [OF g refl r] "3.prems"(2) by simp
  with g o show ?case by (auto intro: rb.trace.remove)
qed

definition demo_rb :: ring_buf where
  "demo_rb = \<lparr>start_idx = 0, num_full = 0, shm_hdl = [[0], [0]]\<rparr>"

text \<open>C8: Whatever the interleaving of the producing and consuming threads, the ring buffer loses, duplicates and
  reorders nothing: the blocks taken out, followed by those still inside, are the blocks that were inside,
  followed by those put in.\<close>

theorem ring_buffer_is_fifo:
  assumes "rb_ok q n r" and "\<forall>b \<in> set (puts ops). length b = n" and "rb_run q n ops r = Some (outs, r')"
  shows "rb_contents q r @ puts ops = outs @ rb_contents q r' \<and> rb_ok q n r'"
  using rb.trace_fifo [OF rb_run_trace [OF assms(3,2)] assms(1)] by simp

theorem ring_buffer_is_fifo_witness:
  "\<exists>outs r'. rb_run 2 1 [Put [1], Put [2], Get, Put [3], Get] demo_rb = Some (outs, r') \<and>
     rb_contents 2 demo_rb @ [[1], [2], [3]] = outs @ rb_contents 2 r'"
proof -
  obtain outs r' where r: "rb_run 2 1 [Put [1], Put [2], Get, Put [3], Get] demo_rb = Some (outs, r')"
    by (simp add: demo_rb_def put_rb_data_def get_rb_data_def)
  have "rb_ok 2 1 demo_rb" by (simp add: rb_ok_def demo_rb_def rb_contents_def)
  from ring_buffer_is_fifo [OF this _ r] r show ?thesis by auto
qed

end
