(* ===== verification/Ring_Threads.thy ===== *)
theory Ring_Threads
  imports Ring_Buffer
begin

text \<open>
  The threads around the ring buffer of \<^verbatim>\<open>gr/ring_buf.c\<close>: the mutex \<open>buf_lock\<close>, the two condition variables
  \<open>notfull\<close> and \<open>notempty\<close>, and any number of threads that call \<^verbatim>\<open>put_rb_data\<close> and \<^verbatim>\<open>get_rb_data\<close>. What may go
  wrong here is a wake-up that gets lost: a thread that sleeps although its condition holds and that nobody is
  going to wake. The theory shows that every state reached accounts for its sleepers, and that the calls in
  progress run to an end in which a thread sleeps only for want of blocks or of room.
\<close>

section \<open>The threads\<close>

text \<open>
  Where a thread is. \<open>Lock_put\<close> and \<open>Lock_get\<close> want the mutex: at the call, and again inside
  \<^verbatim>\<open>pthread_cond_wait\<close> once it is woken, since the \<^verbatim>\<open>while\<close> tests the condition anew. \<open>In_put\<close> and \<open>In_get\<close> hold the
  mutex, in front of the test. \<open>Wait_full\<close> and \<open>Wait_empty\<close> sleep on \<open>notfull\<close> and \<open>notempty\<close>.
\<close>

datatype rb_pc =
  Outside
| Lock_put blk
| In_put blk
| Wait_full blk
| Lock_get
| In_get
| Wait_empty

text \<open>The ring, the thread that holds the mutex, the threads, and what has been put in and taken out so far.\<close>

record rb_sys =
  the_ring :: ring_buf
  buf_lock :: "nat option"
  pcs :: "rb_pc list"
  given :: "blk list"
  taken :: "blk list"

text \<open>
  \<^verbatim>\<open>pthread_cond_signal\<close>: wakes one of the threads that sleep on the variable, whichever the system chooses
  (\<open>j\<close>), and does nothing when there is none. \<open>None\<close> when the choice \<open>j\<close> is not possible.
\<close>

fun on_notempty :: "rb_pc \<Rightarrow> bool" where
  "on_notempty Wait_empty \<longleftrightarrow> True"
| "on_notempty _ \<longleftrightarrow> False"

fun on_notfull :: "rb_pc \<Rightarrow> bool" where
  "on_notfull (Wait_full _) \<longleftrightarrow> True"
| "on_notfull _ \<longleftrightarrow> False"

fun awake :: "rb_pc \<Rightarrow> rb_pc" where
  "awake Wait_empty = Lock_get"
| "awake (Wait_full d) = Lock_put d"
| "awake p = p"

definition cond_signal :: "(rb_pc \<Rightarrow> bool) \<Rightarrow> nat \<Rightarrow> rb_pc list \<Rightarrow> rb_pc list option" where
  "cond_signal w j ps =
     (if \<not> list_ex w ps then Some ps
      else if j < length ps \<and> w (ps ! j) then Some (ps[j := awake (ps ! j)])
      else None)"

text \<open>
  One step: a thread calls one of the two functions, a thread gets the mutex, the thread with the mutex goes on
  to the end of the call or to sleep (\<open>j\<close> is the thread its signal wakes), or a sleeping thread wakes up without
  a signal, as \<^verbatim>\<open>pthread_cond_wait\<close> may.
\<close>

datatype rb_act =
  Call_put nat blk
| Call_get nat
| Take_lock nat
| Go_on nat nat
| Spurious nat

fun locked :: "rb_pc \<Rightarrow> rb_pc option" where
  "locked (Lock_put d) = Some (In_put d)"
| "locked Lock_get = Some In_get"
| "locked _ = None"

definition put_section :: "nat \<Rightarrow> nat \<Rightarrow> nat \<Rightarrow> nat \<Rightarrow> blk \<Rightarrow> rb_sys \<Rightarrow> rb_sys option" where
  "put_section q n i j d s =
     (case put_rb_data q n d (the_ring s) of
        None \<Rightarrow> Some (s\<lparr>pcs := (pcs s)[i := Wait_full d], buf_lock := None\<rparr>)
      | Some r \<Rightarrow>
          (case cond_signal on_notempty j (pcs s) of
             None \<Rightarrow> None
           | Some ps \<Rightarrow> Some (s\<lparr>the_ring := r, pcs := ps[i := Outside], buf_lock := None, given := given s @ [d]\<rparr>)))"

definition get_section :: "nat \<Rightarrow> nat \<Rightarrow> nat \<Rightarrow> nat \<Rightarrow> rb_sys \<Rightarrow> rb_sys option" where
  "get_section q n i j s =
     (case get_rb_data q n (the_ring s) of
        None \<Rightarrow> Some (s\<lparr>pcs := (pcs s)[i := Wait_empty], buf_lock := None\<rparr>)
      | Some (d, r) \<Rightarrow>
          (case cond_signal on_notfull j (pcs s) of
             None \<Rightarrow> None
           | Some ps \<Rightarrow> Some (s\<lparr>the_ring := r, pcs := ps[i := Outside], buf_lock := None, taken := taken s @ [d]\<rparr>)))"

fun rb_step :: "nat \<Rightarrow> nat \<Rightarrow> rb_act \<Rightarrow> rb_sys \<Rightarrow> rb_sys option" where
  "rb_step q n (Call_put i d) s =
     (if i < length (pcs s) \<and> pcs s ! i = Outside \<and> length d = n
      then Some (s\<lparr>pcs := (pcs s)[i := Lock_put d]\<rparr>) else None)"
| "rb_step q n (Call_get i) s =
     (if i < length (pcs s) \<and> pcs s ! i = Outside then Some (s\<lparr>pcs := (pcs s)[i := Lock_get]\<rparr>) else None)"
| "rb_step q n (Take_lock i) s =
     (if i < length (pcs s) \<and> buf_lock s = None then
        (case locked (pcs s ! i) of
           None \<Rightarrow> None
         | Some p \<Rightarrow> Some (s\<lparr>pcs := (pcs s)[i := p], buf_lock := Some i\<rparr>))
      else None)"
| "rb_step q n (Go_on i j) s =
     (if i < length (pcs s) \<and> buf_lock s = Some i then
        (case pcs s ! i of
           In_put d \<Rightarrow> put_section q n i j d s
         | In_get \<Rightarrow> get_section q n i j s
         | _ \<Rightarrow> None)
      else None)"
| "rb_step q n (Spurious i) s =
     (if i < length (pcs s) \<and> (on_notfull (pcs s ! i) \<or> on_notempty (pcs s ! i))
      then Some (s\<lparr>pcs := (pcs s)[i := awake (pcs s ! i)]\<rparr>) else None)"

text \<open>The states reached from a new ring and \<open>t\<close> threads, none of which has called anything yet.\<close>

definition rb_start :: "nat \<Rightarrow> ring_buf \<Rightarrow> rb_sys" where
  "rb_start t r = \<lparr>the_ring = r, buf_lock = None, pcs = replicate t Outside, given = [], taken = []\<rparr>"

inductive rb_reach :: "nat \<Rightarrow> nat \<Rightarrow> nat \<Rightarrow> rb_sys \<Rightarrow> bool" for q n t where
  start: "0 < q \<Longrightarrow> new_rb True mem (int q) = Some r \<Longrightarrow> q \<le> length mem \<Longrightarrow> rb_reach q n t (rb_start t r)"
| step: "rb_reach q n t s \<Longrightarrow> rb_step q n a s = Some s' \<Longrightarrow> rb_reach q n t s'"

section \<open>Counting threads\<close>

definition cnt :: "('a \<Rightarrow> bool) \<Rightarrow> 'a list \<Rightarrow> nat" where
  "cnt p xs = length (filter p xs)"

lemma cnt_simps [simp]: "cnt p [] = 0" "cnt p (x # xs) = of_bool (p x) + cnt p xs"
  by (simp_all add: cnt_def)

lemma cnt_replicate [simp]: "\<not> p x \<Longrightarrow> cnt p (replicate k x) = 0"
  by (simp add: cnt_def)

lemma cnt_update: "i < length xs \<Longrightarrow> cnt p (xs[i := y]) + of_bool (p (xs ! i)) = cnt p xs + of_bool (p y)"
proof (induction xs arbitrary: i)
  case (Cons x xs)
  then show ?case by (cases i) (auto simp: add.assoc)
qed simp

lemma cnt_pos: "i < length xs \<Longrightarrow> p (xs ! i) \<Longrightarrow> 0 < cnt p xs"
  by (auto simp: cnt_def filter_empty_conv)

lemma cnt_zero: "cnt p xs = 0 \<longleftrightarrow> (\<forall>x \<in> set xs. \<not> p x)"
  by (auto simp: cnt_def filter_empty_conv)

text \<open>The threads that are going to take a block, and those that are going to put one in, without being woken.\<close>

fun getting :: "rb_pc \<Rightarrow> bool" where
  "getting Lock_get \<longleftrightarrow> True"
| "getting In_get \<longleftrightarrow> True"
| "getting _ \<longleftrightarrow> False"

fun putting :: "rb_pc \<Rightarrow> bool" where
  "putting (Lock_put _) \<longleftrightarrow> True"
| "putting (In_put _) \<longleftrightarrow> True"
| "putting _ \<longleftrightarrow> False"

fun inside :: "rb_pc \<Rightarrow> bool" where
  "inside (In_put _) \<longleftrightarrow> True"
| "inside In_get \<longleftrightarrow> True"
| "inside _ \<longleftrightarrow> False"

fun data_of :: "rb_pc \<Rightarrow> blk option" where
  "data_of (Lock_put d) = Some d"
| "data_of (In_put d) = Some d"
| "data_of (Wait_full d) = Some d"
| "data_of _ = None"

section \<open>The invariant\<close>

text \<open>
  The mutex is held exactly by the thread inside; if a consumer sleeps, there are at least as many consumers
  awake as blocks in the ring, and if a producer sleeps, at least as many producers awake as free places.
\<close>

definition threads_ok :: "nat \<Rightarrow> nat option \<Rightarrow> nat \<Rightarrow> nat \<Rightarrow> rb_pc list \<Rightarrow> bool" where
  "threads_ok n l blocks room ps \<longleftrightarrow>
     (\<forall>i < length ps. (inside (ps ! i) \<longleftrightarrow> l = Some i) \<and> (\<forall>d. data_of (ps ! i) = Some d \<longrightarrow> length d = n)) \<and>
     (\<forall>i. l = Some i \<longrightarrow> i < length ps) \<and>
     (0 < cnt on_notempty ps \<longrightarrow> blocks \<le> cnt getting ps) \<and>
     (0 < cnt on_notfull ps \<longrightarrow> room \<le> cnt putting ps)"

definition rb_inv :: "nat \<Rightarrow> nat \<Rightarrow> nat \<Rightarrow> rb_sys \<Rightarrow> bool" where
  "rb_inv q n t s \<longleftrightarrow>
     rb_ok q n (the_ring s) \<and> length (pcs s) = t \<and>
     threads_ok n (buf_lock s) (num_full (the_ring s)) (q - num_full (the_ring s)) (pcs s) \<and>
     given s = taken s @ rb_contents q (the_ring s)"

lemma rb_inv_start:
  assumes "0 < q" and "new_rb True mem (int q) = Some r" and "q \<le> length mem"
  shows "rb_inv q n t (rb_start t r)"
  using assms
  by (auto simp: rb_inv_def threads_ok_def rb_start_def new_rb_def rb_ok_def rb_contents_def split: if_splits)

text \<open>One thread goes from one place to another.\<close>

lemma threads_ok_move:
  assumes ok: "threads_ok n l a b ps" and i: "i < length ps"
    and lock: "inside p \<longleftrightarrow> l' = Some i" "\<And>k. k \<noteq> i \<Longrightarrow> l' = Some k \<longleftrightarrow> l = Some k"
    and data: "\<And>d. data_of p = Some d \<Longrightarrow> length d = n"
    and empty: "0 < cnt on_notempty (ps[i := p]) \<Longrightarrow> a' \<le> cnt getting (ps[i := p])"
    and full: "0 < cnt on_notfull (ps[i := p]) \<Longrightarrow> b' \<le> cnt putting (ps[i := p])"
  shows "threads_ok n l' a' b' (ps[i := p])"
proof -
  have "(inside (ps[i := p] ! k) \<longleftrightarrow> l' = Some k) \<and> (\<forall>d. data_of (ps[i := p] ! k) = Some d \<longrightarrow> length d = n)"
    if "k < length ps" for k
    using ok that lock(1) lock(2) [of k] data by (cases "k = i") (simp_all add: threads_ok_def)
  moreover have "k < length ps" if "l' = Some k" for k
    using ok that lock(2) [of k] i by (cases "k = i") (simp_all add: threads_ok_def)
  ultimately show ?thesis using empty full by (simp add: threads_ok_def)
qed

text \<open>What a move does to the counts.\<close>

lemma cnt_move: "i < length ps \<Longrightarrow> cnt f (ps[i := p]) = cnt f ps - of_bool (f (ps ! i)) + of_bool (f p)"
  using cnt_update [of i ps f p] cnt_pos [of i ps f] by auto

lemma on_notfull_cases: "on_notfull p \<Longrightarrow> (\<And>d. p = Wait_full d \<Longrightarrow> P) \<Longrightarrow> P"
  by (cases p) auto

lemma on_notempty_cases: "on_notempty p \<Longrightarrow> (p = Wait_empty \<Longrightarrow> P) \<Longrightarrow> P"
  by (cases p) auto

lemma threads_ok_outside: "threads_ok n l a b ps \<Longrightarrow> i < length ps \<Longrightarrow> \<not> inside (ps ! i) \<Longrightarrow> l \<noteq> Some i"
  by (auto simp: threads_ok_def)

lemma threads_okD:
  assumes "threads_ok n l a b ps"
  shows "0 < cnt on_notempty ps \<Longrightarrow> a \<le> cnt getting ps" and "0 < cnt on_notfull ps \<Longrightarrow> b \<le> cnt putting ps"
  using assms by (simp_all add: threads_ok_def)

text \<open>
  A call, or a thread that wakes up: when a thread of the variable is woken, there is one more that will take a
  block, or put one in.
\<close>

lemma threads_ok_lock_put:
  assumes ok: "threads_ok n l a b ps" and i: "i < length ps" and w: "ps ! i = Outside \<or> ps ! i = Wait_full d"
    and d: "length d = n"
  shows "threads_ok n l a (b + of_bool (on_notfull (ps ! i))) (ps[i := Lock_put d])"
proof (rule threads_ok_move [OF ok i])
  have "l \<noteq> Some i" using threads_ok_outside [OF ok i] w by auto
  then show "inside (Lock_put d) \<longleftrightarrow> l = Some i" by simp
next
  fix e assume "data_of (Lock_put d) = Some e"
  then show "length e = n" using d by simp
next
  assume "0 < cnt on_notempty (ps[i := Lock_put d])"
  then show "a \<le> cnt getting (ps[i := Lock_put d])"
    using w threads_okD(1) [OF ok] by (elim disjE) (simp_all add: cnt_move [OF i])
next
  assume "0 < cnt on_notfull (ps[i := Lock_put d])"
  then show "b + of_bool (on_notfull (ps ! i)) \<le> cnt putting (ps[i := Lock_put d])"
    using w threads_okD(2) [OF ok] cnt_pos [OF i, of on_notfull] by (elim disjE) (simp_all add: cnt_move [OF i])
qed (rule refl)

lemma threads_ok_lock_get:
  assumes ok: "threads_ok n l a b ps" and i: "i < length ps" and w: "ps ! i = Outside \<or> ps ! i = Wait_empty"
  shows "threads_ok n l (a + of_bool (on_notempty (ps ! i))) b (ps[i := Lock_get])"
proof (rule threads_ok_move [OF ok i])
  have "l \<noteq> Some i" using threads_ok_outside [OF ok i] w by auto
  then show "inside Lock_get \<longleftrightarrow> l = Some i" by simp
next
  fix e assume "data_of Lock_get = Some e"
  then show "length e = n" by simp
next
  assume "0 < cnt on_notempty (ps[i := Lock_get])"
  then show "a + of_bool (on_notempty (ps ! i)) \<le> cnt getting (ps[i := Lock_get])"
    using w threads_okD(1) [OF ok] cnt_pos [OF i, of on_notempty] by (elim disjE) (simp_all add: cnt_move [OF i])
next
  assume "0 < cnt on_notfull (ps[i := Lock_get])"
  then show "b \<le> cnt putting (ps[i := Lock_get])"
    using w threads_okD(2) [OF ok] by (elim disjE) (simp_all add: cnt_move [OF i])
qed (rule refl)

lemma locked_same:
  assumes "locked x = Some p"
  shows "data_of p = data_of x" "inside p" "on_notempty p = on_notempty x" "on_notfull p = on_notfull x"
    "getting p = getting x" "putting p = putting x"
  using assms by (cases x; auto)+

lemma threads_ok_take_lock:
  assumes ok: "threads_ok n None a b ps" and i: "i < length ps" and p: "locked (ps ! i) = Some p"
  shows "threads_ok n (Some i) a b (ps[i := p])"
proof -
  have same: "cnt f (ps[i := p]) = cnt f ps" if "f p = f (ps ! i)" for f
    using cnt_update [OF i, of f p] that by simp
  show ?thesis
  proof (rule threads_ok_move [OF ok i])
    fix d assume "data_of p = Some d"
    then show "length d = n" using ok i locked_same(1) [OF p] by (simp add: threads_ok_def)
  next
    assume "0 < cnt on_notempty (ps[i := p])"
    then show "a \<le> cnt getting (ps[i := p])"
      using threads_okD(1) [OF ok] by (simp add: same locked_same [OF p])
  next
    assume "0 < cnt on_notfull (ps[i := p])"
    then show "b \<le> cnt putting (ps[i := p])"
      using threads_okD(2) [OF ok] by (simp add: same locked_same [OF p])
  qed (auto simp: locked_same(2) [OF p])
qed
text \<open>A signal leaves one consumer more, or one producer more, or nobody asleep.\<close>

lemma no_waiter: "\<not> list_ex w ps \<Longrightarrow> cnt w ps = 0"
  by (simp add: cnt_zero list_ex_iff)

lemma signal_notempty:
  assumes ok: "threads_ok n l a b ps" and s: "cond_signal on_notempty j ps = Some ps1"
  shows "threads_ok n l (Suc a) b ps1"
proof (cases "list_ex on_notempty ps")
  case True
  then have j: "j < length ps" "ps ! j = Wait_empty" and ps1: "ps1 = ps[j := Lock_get]"
    using s by (auto simp: cond_signal_def elim: on_notempty_cases split: if_splits)
  show ?thesis using threads_ok_lock_get [OF ok j(1)] j(2) by (simp add: ps1)
next
  case False
  then have "ps1 = ps" using s by (simp add: cond_signal_def)
  with ok no_waiter [OF False] show ?thesis by (simp add: threads_ok_def)
qed

lemma signal_notfull:
  assumes ok: "threads_ok n l a b ps" and s: "cond_signal on_notfull j ps = Some ps1"
  shows "threads_ok n l a (Suc b) ps1"
proof (cases "list_ex on_notfull ps")
  case True
  then obtain d where j: "j < length ps" "ps ! j = Wait_full d" and ps1: "ps1 = ps[j := Lock_put d]"
    using s by (auto simp: cond_signal_def elim: on_notfull_cases split: if_splits)
  have "length d = n" using ok j by (auto simp: threads_ok_def)
  with threads_ok_lock_put [OF ok j(1)] j(2) show ?thesis by (simp add: ps1)
next
  case False
  then have "ps1 = ps" using s by (simp add: cond_signal_def)
  with ok no_waiter [OF False] show ?thesis by (simp add: threads_ok_def)
qed

lemma signal_keeps:
  assumes "cond_signal w j ps = Some ps1"
  shows "length ps1 = length ps" and "\<not> w (ps ! i) \<Longrightarrow> ps1 ! i = ps ! i"
  using assms by (auto simp: cond_signal_def nth_list_update split: if_splits)

text \<open>The thread inside leaves, or goes to sleep.\<close>

lemma threads_ok_leave:
  assumes ok: "threads_ok n (Some i) a b ps" and i: "i < length ps" and p: "p = Outside \<or> on_notempty p \<or> on_notfull p"
    and data: "\<And>d. data_of p = Some d \<Longrightarrow> length d = n"
    and empty: "0 < cnt on_notempty ps + of_bool (on_notempty p) \<Longrightarrow> a' \<le> cnt getting ps - of_bool (getting (ps ! i))"
    and full: "0 < cnt on_notfull ps + of_bool (on_notfull p) \<Longrightarrow> b' \<le> cnt putting ps - of_bool (putting (ps ! i))"
  shows "threads_ok n None a' b' (ps[i := p])"
proof -
  have "inside (ps ! i)" using ok i by (simp add: threads_ok_def)
  then have "\<not> on_notempty (ps ! i)" "\<not> on_notfull (ps ! i)" by (cases "ps ! i"; simp)+
  moreover have "\<not> getting p" "\<not> putting p" "\<not> inside p" using p by (cases p; simp)+
  ultimately show ?thesis
    using empty full data by (intro threads_ok_move [OF ok i]) (simp_all add: cnt_move [OF i])
qed

lemma put_section_inv:
  assumes inv: "rb_inv q n t s" and i: "i < length (pcs s)" "buf_lock s = Some i" "pcs s ! i = In_put d"
    and r: "put_section q n i j d s = Some s'"
  shows "rb_inv q n t s'"
proof (cases "put_rb_data q n d (the_ring s)")
  case None
  have ok: "threads_ok n (Some i) (num_full (the_ring s)) (q - num_full (the_ring s)) (pcs s)" and rb: "rb_ok q n (the_ring s)"
    using inv i(2) by (simp_all add: rb_inv_def)
  have full: "num_full (the_ring s) = q" using rb.put_full [OF rb, of d] None by simp
  have d: "length d = n" using ok i by (simp add: threads_ok_def)
  have "threads_ok n None (num_full (the_ring s)) (q - num_full (the_ring s)) ((pcs s)[i := Wait_full d])"
    by (rule threads_ok_leave [OF ok i(1)]) (use d threads_okD(1) [OF ok] i(3) full in simp_all)
  with None inv r show ?thesis by (auto simp: put_section_def rb_inv_def)
next
  case (Some r1)
  then obtain ps where sg: "cond_signal on_notempty j (pcs s) = Some ps"
    and s': "s' = s\<lparr>the_ring := r1, pcs := ps[i := Outside], buf_lock := None, given := given s @ [d]\<rparr>"
    using r by (auto simp: put_section_def split: option.splits)
  have ok: "threads_ok n (Some i) (num_full (the_ring s)) (q - num_full (the_ring s)) (pcs s)" and rb: "rb_ok q n (the_ring s)"
    using inv i(2) by (simp_all add: rb_inv_def)
  have d: "length d = n" using ok i by (simp add: threads_ok_def)
  have c: "rb_ok q n r1" "rb_contents q r1 = rb_contents q (the_ring s) @ [d]" using put_rb_contents [OF rb d Some] by simp_all
  then have nf: "num_full r1 = Suc (num_full (the_ring s))" by (metis length_append_singleton length_rb_contents)
  have l: "length ps = length (pcs s)" "ps ! i = In_put d" using signal_keeps(1) [OF sg] signal_keeps(2) [OF sg, of i] i(3) by simp_all
  note ok1 = signal_notempty [OF ok sg]
  have "threads_ok n None (num_full r1) (q - num_full r1) (ps[i := Outside])"
    by (rule threads_ok_leave [OF ok1]) (use i l nf threads_okD [OF ok1] in simp_all)
  with c inv show ?thesis by (simp add: rb_inv_def s' l)
qed

lemma get_section_inv:
  assumes inv: "rb_inv q n t s" and i: "i < length (pcs s)" "buf_lock s = Some i" "pcs s ! i = In_get"
    and r: "get_section q n i j s = Some s'"
  shows "rb_inv q n t s'"
proof (cases "get_rb_data q n (the_ring s)")
  case None
  have ok: "threads_ok n (Some i) (num_full (the_ring s)) (q - num_full (the_ring s)) (pcs s)" and rb: "rb_ok q n (the_ring s)"
    using inv i(2) by (simp_all add: rb_inv_def)
  have empty: "num_full (the_ring s) = 0" using None by (simp add: get_rb_data_def split: if_splits)
  have "threads_ok n None (num_full (the_ring s)) (q - num_full (the_ring s)) ((pcs s)[i := Wait_empty])"
    by (rule threads_ok_leave [OF ok i(1)]) (use threads_okD(2) [OF ok] i(3) empty in simp_all)
  with None inv r show ?thesis by (auto simp: get_section_def rb_inv_def)
next
  case (Some dr)
  then obtain d r1 ps where g: "get_rb_data q n (the_ring s) = Some (d, r1)"
    and sg: "cond_signal on_notfull j (pcs s) = Some ps"
    and s': "s' = s\<lparr>the_ring := r1, pcs := ps[i := Outside], buf_lock := None, taken := taken s @ [d]\<rparr>"
    using r by (auto simp: get_section_def split: option.splits prod.splits)
  have ok: "threads_ok n (Some i) (num_full (the_ring s)) (q - num_full (the_ring s)) (pcs s)" and rb: "rb_ok q n (the_ring s)"
    using inv i(2) by (simp_all add: rb_inv_def)
  have c: "rb_ok q n r1" "rb_contents q (the_ring s) = d # rb_contents q r1" using get_rb_contents [OF rb g] by simp_all
  then have nf: "num_full (the_ring s) = Suc (num_full r1)" by (metis length_Cons length_rb_contents)
  moreover have "num_full (the_ring s) \<le> q" using rb by (simp add: rb_ok_def)
  ultimately have room: "q - num_full r1 = Suc (q - num_full (the_ring s))" by simp
  have l: "length ps = length (pcs s)" "ps ! i = In_get" using signal_keeps(1) [OF sg] signal_keeps(2) [OF sg, of i] i(3) by simp_all
  note ok1 = signal_notfull [OF ok sg]
  have "threads_ok n None (num_full r1) (q - num_full r1) (ps[i := Outside])"
    by (rule threads_ok_leave [OF ok1]) (use i l nf room threads_okD [OF ok1] in simp_all)
  with c inv show ?thesis by (simp add: rb_inv_def s' l)
qed
lemma rb_step_inv:
  assumes inv: "rb_inv q n t s" and r: "rb_step q n a s = Some s'"
  shows "rb_inv q n t s'"
proof -
  have ok: "threads_ok n (buf_lock s) (num_full (the_ring s)) (q - num_full (the_ring s)) (pcs s)"
    using inv by (simp add: rb_inv_def)
  have move: "rb_inv q n t (s\<lparr>pcs := ps\<rparr>)"
    if "threads_ok n (buf_lock s) c e ps" "num_full (the_ring s) \<le> c" "q - num_full (the_ring s) \<le> e" "length ps = length (pcs s)"
    for c e ps
    using that inv by (auto simp: rb_inv_def threads_ok_def)
  show ?thesis
  proof (cases a)
    case (Call_put i d)
    with r have i: "i < length (pcs s)" "pcs s ! i = Outside" "length d = n" and s': "s' = s\<lparr>pcs := (pcs s)[i := Lock_put d]\<rparr>"
      by (simp_all split: if_splits)
    show ?thesis unfolding s' by (rule move [OF threads_ok_lock_put [OF ok i(1) _ i(3)]]) (use i in simp_all)
  next
    case (Call_get i)
    with r have i: "i < length (pcs s)" "pcs s ! i = Outside" and s': "s' = s\<lparr>pcs := (pcs s)[i := Lock_get]\<rparr>"
      by (simp_all split: if_splits)
    show ?thesis unfolding s' by (rule move [OF threads_ok_lock_get [OF ok i(1)]]) (use i in simp_all)
  next
    case (Take_lock i)
    with r obtain p where i: "i < length (pcs s)" "buf_lock s = None" "locked (pcs s ! i) = Some p"
      and s': "s' = s\<lparr>pcs := (pcs s)[i := p], buf_lock := Some i\<rparr>"
      by (auto split: if_splits option.splits)
    show ?thesis using threads_ok_take_lock [OF ok [unfolded i(2)] i(1,3)] inv by (simp add: rb_inv_def s')
  next
    case (Go_on i j)
    with r have i: "i < length (pcs s)" "buf_lock s = Some i" by (simp_all split: if_splits)
    from Go_on r consider d where "pcs s ! i = In_put d" "put_section q n i j d s = Some s'"
      | "pcs s ! i = In_get" "get_section q n i j s = Some s'"
      by (auto split: if_splits rb_pc.splits)
    then show ?thesis by cases (use put_section_inv [OF inv i] get_section_inv [OF inv i] in blast)+
  next
    case (Spurious i)
    with r have i: "i < length (pcs s)" and s': "s' = s\<lparr>pcs := (pcs s)[i := awake (pcs s ! i)]\<rparr>"
      by (simp_all split: if_splits)
    from Spurious r consider d where "pcs s ! i = Wait_full d" | "pcs s ! i = Wait_empty"
      by (auto elim: on_notempty_cases on_notfull_cases split: if_splits)
    then show ?thesis
    proof cases
      case 1
      have "length d = n" using ok i 1 by (simp add: threads_ok_def)
      from move [OF threads_ok_lock_put [OF ok i _ this]] 1 show ?thesis by (simp add: s')
    next
      case 2
      from move [OF threads_ok_lock_get [OF ok i]] 2 show ?thesis by (simp add: s')
    qed
  qed
qed

lemma rb_reach_inv: "rb_reach q n t s \<Longrightarrow> rb_inv q n t s"
  by (induction rule: rb_reach.induct) (blast intro: rb_inv_start rb_step_inv)+

section \<open>The calls in progress come to an end\<close>

text \<open>The steps that need neither a new call nor a wake-up without a signal.\<close>

fun quiet :: "rb_act \<Rightarrow> bool" where
  "quiet (Take_lock _) \<longleftrightarrow> True"
| "quiet (Go_on _ _) \<longleftrightarrow> True"
| "quiet _ \<longleftrightarrow> False"

fun rb_steps :: "nat \<Rightarrow> nat \<Rightarrow> rb_act list \<Rightarrow> rb_sys \<Rightarrow> rb_sys option" where
  "rb_steps q n [] s = Some s"
| "rb_steps q n (a # as) s = (case rb_step q n a s of None \<Rightarrow> None | Some s1 \<Rightarrow> rb_steps q n as s1)"

lemma rb_steps_reach: "rb_steps q n as s = Some s' \<Longrightarrow> rb_reach q n t s \<Longrightarrow> rb_reach q n t s'"
  by (induction q n as s rule: rb_steps.induct) (auto split: option.splits intro: rb_reach.step)

text \<open>
  The steps a thread can still make by itself, counted so that waking another thread is paid for by the end of
  the call.
\<close>

fun steps_left :: "rb_pc \<Rightarrow> nat" where
  "steps_left Outside = 0"
| "steps_left (Lock_put _) = 4"
| "steps_left Lock_get = 4"
| "steps_left (In_put _) = 3"
| "steps_left In_get = 3"
| "steps_left (Wait_full _) = 2"
| "steps_left Wait_empty = 2"

definition load :: "rb_pc list \<Rightarrow> nat" where
  "load ps = sum_list (map steps_left ps)"

lemma load_update: "i < length ps \<Longrightarrow> load (ps[i := p]) + steps_left (ps ! i) = load ps + steps_left p"
proof (induction ps arbitrary: i)
  case (Cons x ps)
  then show ?case by (cases i) (auto simp: load_def add.assoc)
qed simp

lemma load_bound: "load ps \<le> 4 * length ps"
proof -
  have "steps_left p \<le> 4" for p by (cases p) simp_all
  then show ?thesis by (induction ps) (simp_all add: load_def add_mono)
qed

lemma load_signal:
  assumes "cond_signal w j ps = Some ps1" and "w = on_notempty \<or> w = on_notfull"
  shows "load ps1 \<le> load ps + 2"
proof (cases "list_ex w ps")
  case True
  then have j: "j < length ps" "w (ps ! j)" "ps1 = ps[j := awake (ps ! j)]"
    using assms(1) by (simp_all add: cond_signal_def split: if_splits)
  have "steps_left (awake (ps ! j)) = steps_left (ps ! j) + 2"
    using j(2) assms(2) by (cases "ps ! j") auto
  with load_update [OF j(1), of "awake (ps ! j)"] j(3) show ?thesis by simp
next
  case False
  with assms(1) show ?thesis by (simp add: cond_signal_def)
qed

lemma load_section:
  assumes i: "i < length (pcs s)"
    and "pcs s ! i = In_put d \<and> put_section q n i j d s = Some s' \<or> pcs s ! i = In_get \<and> get_section q n i j s = Some s'"
  shows "load (pcs s') < load (pcs s)"
proof -
  have st: "steps_left (pcs s ! i) = 3" and ni: "\<not> on_notempty (pcs s ! i)" "\<not> on_notfull (pcs s ! i)" using assms(2) by auto
  from assms(2) consider p where "pcs s' = (pcs s)[i := p]" "steps_left p = 2"
    | w ps where "cond_signal w j (pcs s) = Some ps" "w = on_notempty \<or> w = on_notfull" "pcs s' = ps[i := Outside]"
    by (auto simp: put_section_def get_section_def split: option.splits)
  then show ?thesis
  proof cases
    case 1
    then show ?thesis using load_update [OF i, of p] st by simp
  next
    case 2
    have "length ps = length (pcs s)" "ps ! i = pcs s ! i"
      using signal_keeps(1) [OF 2(1)] signal_keeps(2) [OF 2(1), of i] 2(2) ni by auto
    then show ?thesis using load_update [of i ps Outside] load_signal [OF 2(1,2)] i st 2(3) by simp
  qed
qed

lemma load_quiet:
  assumes "quiet a" and r: "rb_step q n a s = Some s'"
  shows "load (pcs s') < load (pcs s)"
proof (cases a)
  case (Take_lock i)
  with r obtain p where i: "i < length (pcs s)" "locked (pcs s ! i) = Some p" and s': "pcs s' = (pcs s)[i := p]"
    by (auto split: if_splits option.splits)
  have "steps_left p < steps_left (pcs s ! i)" using i(2) by (cases "pcs s ! i") auto
  then show ?thesis using load_update [OF i(1), of p] by (simp add: s')
next
  case (Go_on i j)
  with r have i: "i < length (pcs s)" by (simp split: if_splits)
  from Go_on r show ?thesis
    by (auto split: if_splits rb_pc.splits intro: load_section [OF i])
qed (use assms in simp_all)

lemma quiet_run_length:
  "rb_steps q n as s = Some s' \<Longrightarrow> list_all quiet as \<Longrightarrow> length as + load (pcs s') \<le> load (pcs s)"
proof (induction q n as s rule: rb_steps.induct)
  case (2 q n a as s)
  then obtain s1 where s1: "rb_step q n a s = Some s1" "rb_steps q n as s1 = Some s'" by (auto split: option.splits)
  have "length as + load (pcs s') \<le> load (pcs s1)" using 2 s1 by simp
  moreover have "load (pcs s1) < load (pcs s)" using load_quiet [OF _ s1(1)] "2.prems" by simp
  ultimately show ?case by simp
qed simp
section \<open>No wake-up is lost\<close>

text \<open>No thread can do anything by itself any more.\<close>

definition at_rest :: "nat \<Rightarrow> nat \<Rightarrow> rb_sys \<Rightarrow> bool" where
  "at_rest q n s \<longleftrightarrow> (\<forall>a. quiet a \<longrightarrow> rb_step q n a s = None)"

lemma signal_possible: "\<exists>j ps1. cond_signal w j ps = Some ps1"
proof (cases "list_ex w ps")
  case True
  then obtain j where "j < length ps" "w (ps ! j)" by (auto simp: list_ex_length)
  then show ?thesis by (auto simp: cond_signal_def)
qed (auto simp: cond_signal_def)

lemma holder_goes_on:
  assumes inv: "rb_inv q n t s" and l: "buf_lock s = Some i"
  shows "\<exists>j. rb_step q n (Go_on i j) s \<noteq> None"
proof -
  obtain j1 ps1 where s1: "cond_signal on_notempty j1 (pcs s) = Some ps1" using signal_possible by blast
  obtain j2 ps2 where s2: "cond_signal on_notfull j2 (pcs s) = Some ps2" using signal_possible by blast
  have i: "i < length (pcs s)" "inside (pcs s ! i)" using inv l by (simp_all add: rb_inv_def threads_ok_def)
  then consider d where "pcs s ! i = In_put d" | "pcs s ! i = In_get" by (cases "pcs s ! i") auto
  then show ?thesis
  proof cases
    case 1
    have "put_section q n i j1 d s \<noteq> None" by (simp add: put_section_def s1 split: option.split)
    then show ?thesis using i l 1 by (intro exI [of _ j1]) simp
  next
    case 2
    have "get_section q n i j2 s \<noteq> None" by (simp add: get_section_def s2 split: option.split)
    then show ?thesis using i l 2 by (intro exI [of _ j2]) simp
  qed
qed

lemma rest_sleeps:
  assumes inv: "rb_inv q n t s" and rest: "at_rest q n s"
  shows "buf_lock s = None" and "\<And>i. i < t \<Longrightarrow> pcs s ! i = Outside \<or> on_notempty (pcs s ! i) \<or> on_notfull (pcs s ! i)"
proof -
  show l: "buf_lock s = None"
    using holder_goes_on [OF inv] rest by (metis at_rest_def not_None_eq quiet.simps(2))
  fix i assume i: "i < t"
  then have i': "i < length (pcs s)" using inv by (simp add: rb_inv_def)
  have "rb_step q n (Take_lock i) s = None" using rest by (simp only: at_rest_def quiet.simps)
  then have "locked (pcs s ! i) = None" using i' l by (simp split: option.splits)
  moreover have "\<not> inside (pcs s ! i)" using inv i l by (simp add: rb_inv_def threads_ok_def)
  ultimately show "pcs s ! i = Outside \<or> on_notempty (pcs s ! i) \<or> on_notfull (pcs s ! i)"
    by (cases "pcs s ! i") simp_all
qed

lemma rest_empty_or_full:
  assumes inv: "rb_inv q n t s" and rest: "at_rest q n s" and i: "i < t"
  shows "on_notempty (pcs s ! i) \<Longrightarrow> rb_contents q (the_ring s) = []"
    and "on_notfull (pcs s ! i) \<Longrightarrow> length (rb_contents q (the_ring s)) = q"
proof -
  have i': "i < length (pcs s)" and len: "length (pcs s) = t" using inv i by (simp_all add: rb_inv_def)
  have ok: "threads_ok n (buf_lock s) (num_full (the_ring s)) (q - num_full (the_ring s)) (pcs s)"
    and q: "num_full (the_ring s) \<le> q" using inv by (simp_all add: rb_inv_def rb_ok_def)
  have "\<not> getting p \<and> \<not> putting p" if "p \<in> set (pcs s)" for p
  proof -
    from that obtain k where "k < length (pcs s)" "pcs s ! k = p" unfolding in_set_conv_nth by blast
    then have "k < t" "pcs s ! k = p" using len by simp_all
    with rest_sleeps(2) [OF inv rest, of k] show ?thesis by (cases p) simp_all
  qed
  then have no: "cnt getting (pcs s) = 0" "cnt putting (pcs s) = 0" by (simp_all add: cnt_zero)
  show "rb_contents q (the_ring s) = []" if "on_notempty (pcs s ! i)"
    using threads_okD(1) [OF ok cnt_pos [where p = on_notempty, OF i' that]] no by (metis le_zero_eq length_0_conv length_rb_contents)
  show "length (rb_contents q (the_ring s)) = q" if "on_notfull (pcs s ! i)"
    using threads_okD(2) [OF ok cnt_pos [where p = on_notfull, OF i' that]] no q by simp
qed

text \<open>Two threads and a ring of two blocks: the consumer comes first and has to be woken by the producer.\<close>

definition two_threads :: "rb_act list" where
  "two_threads = [Call_get 0, Take_lock 0, Go_on 0 0, Call_put 1 [7]]"

definition the_exchange :: "rb_act list" where
  "the_exchange = [Take_lock 1, Go_on 1 0, Take_lock 0, Go_on 0 1]"

lemma two_threads_reached:
  "\<exists>s. rb_steps 2 1 two_threads (rb_start 2 demo_rb) = Some s \<and> rb_reach 2 1 2 s \<and>
     pcs s = [Wait_empty, Lock_put [7]] \<and> (\<exists>s'. rb_steps 2 1 the_exchange s = Some s' \<and> taken s' = [[7]])"
proof -
  obtain s where s: "rb_steps 2 1 two_threads (rb_start 2 demo_rb) = Some s" "pcs s = [Wait_empty, Lock_put [7]]"
    "\<exists>s'. rb_steps 2 1 the_exchange s = Some s' \<and> taken s' = [[7]]"
    by (simp add: two_threads_def the_exchange_def rb_start_def demo_rb_def put_section_def get_section_def put_rb_data_def
        get_rb_data_def cond_signal_def numeral_2_eq_2)
  have "rb_reach 2 1 2 (rb_start 2 demo_rb)"
    by (rule rb_reach.start [where mem = "[[0], [0]]"]) (simp_all add: new_rb_def QSIZE_def demo_rb_def)
  with s rb_steps_reach [OF s(1)] show ?thesis by blast
qed

text \<open>C9: No wake-up is lost. Take any number of threads that call \<^verbatim>\<open>put_rb_data\<close> and \<^verbatim>\<open>get_rb_data\<close> on a new ring of
  1 to 128 blocks, in any interleaving and with any choice of the thread a signal wakes, and any state they
  reach. Without further calls at most four steps for each thread are left, whatever the order; and when nothing
  is left to do, the mutex is free, every thread has returned or sleeps, a sleeping consumer means that the ring
  is empty and a sleeping producer that it is full. In every state at most one thread is inside, and the blocks
  put in are those taken out, in order, followed by those still in the ring.\<close>

theorem no_wakeup_is_lost:
  assumes "rb_reach q n t s" and "list_all quiet as" and "rb_steps q n as s = Some s'"
  shows "length as \<le> 4 * t \<and>
    (at_rest q n s' \<longrightarrow> buf_lock s' = None \<and>
       (\<forall>i < t. pcs s' ! i = Outside \<or>
          pcs s' ! i = Wait_empty \<and> rb_contents q (the_ring s') = [] \<or>
          (\<exists>d. pcs s' ! i = Wait_full d) \<and> length (rb_contents q (the_ring s')) = q)) \<and>
    (\<forall>i < t. inside (pcs s' ! i) \<longleftrightarrow> buf_lock s' = Some i) \<and>
    given s' = taken s' @ rb_contents q (the_ring s')"
proof (intro conjI impI)
  have inv: "rb_inv q n t s'" using rb_reach_inv [OF rb_steps_reach [OF assms(3,1)]] .
  have "length (pcs s) = t" using rb_reach_inv [OF assms(1)] by (simp add: rb_inv_def)
  then show "length as \<le> 4 * t" using quiet_run_length [OF assms(3,2)] load_bound [of "pcs s"] by simp
  show "\<forall>i < t. inside (pcs s' ! i) \<longleftrightarrow> buf_lock s' = Some i" and "given s' = taken s' @ rb_contents q (the_ring s')"
    using inv by (simp_all add: rb_inv_def threads_ok_def)
  assume rest: "at_rest q n s'"
  show "buf_lock s' = None" by (rule rest_sleeps(1) [OF inv rest])
  show "\<forall>i < t. pcs s' ! i = Outside \<or> pcs s' ! i = Wait_empty \<and> rb_contents q (the_ring s') = [] \<or>
      (\<exists>d. pcs s' ! i = Wait_full d) \<and> length (rb_contents q (the_ring s')) = q"
  proof (intro allI impI)
    fix i assume i: "i < t"
    from rest_sleeps(2) [OF inv rest i] rest_empty_or_full [OF inv rest i]
    show "pcs s' ! i = Outside \<or> pcs s' ! i = Wait_empty \<and> rb_contents q (the_ring s') = [] \<or>
        (\<exists>d. pcs s' ! i = Wait_full d) \<and> length (rb_contents q (the_ring s')) = q"
      by (cases "pcs s' ! i") simp_all
  qed
qed

theorem no_wakeup_is_lost_witness:
  "\<exists>s s'. rb_steps 2 1 two_threads (rb_start 2 demo_rb) = Some s \<and> pcs s = [Wait_empty, Lock_put [7]] \<and>
     rb_steps 2 1 the_exchange s = Some s' \<and> taken s' = [[7]] \<and> length the_exchange \<le> 4 * 2 \<and>
     given s' = [[7]] @ rb_contents 2 (the_ring s')"
proof -
  obtain s s' where s: "rb_steps 2 1 two_threads (rb_start 2 demo_rb) = Some s" "rb_reach 2 1 2 s"
    "pcs s = [Wait_empty, Lock_put [7]]" "rb_steps 2 1 the_exchange s = Some s'" "taken s' = [[7]]"
    using two_threads_reached by blast
  have "list_all quiet the_exchange" by (simp add: the_exchange_def)
  from no_wakeup_is_lost [OF s(2) this s(4)] s show ?thesis by auto
qed

end
