(* ===== verification/Net_IO.thy ===== *)
theory Net_IO
  imports Udaq_Prelude
begin

text \<open>
  Transfer of exact byte counts over a stream (\<^verbatim>\<open>net/readn.c\<close>, \<^verbatim>\<open>net/writen.c\<close>). The peer and the kernel are
  a list of what the successive calls of \<^verbatim>\<open>read\<close> and \<^verbatim>\<open>write\<close> return.
\<close>

type_synonym byte = "8 word"

datatype rd = Data "byte list" | Eintr | Fail

text \<open>
  \<^verbatim>\<open>read(fd, ptr, nleft)\<close> never delivers more than \<open>nleft\<close> bytes; an empty answer is the end of the stream.
  When the list is used up the call blocks (\<open>None\<close>).
\<close>

fun readn :: "nat \<Rightarrow> rd list \<Rightarrow> ((int \<times> byte list) \<times> rd list) option" where
  "readn 0 rs = Some ((0, []), rs)"
| "readn (Suc k) [] = None"
| "readn (Suc k) (Eintr # rs) = readn (Suc k) rs"
| "readn (Suc k) (Fail # rs) = Some ((-1, []), rs)"
| "readn (Suc k) (Data [] # rs) = Some ((0, []), rs)"
| "readn (Suc k) (Data (b # bs) # rs) =
     (let ds = take (Suc k) (b # bs);
          rest = drop (Suc k) (b # bs);
          rs' = (if rest = [] then rs else Data rest # rs)
      in case readn (Suc k - length ds) rs' of
           None \<Rightarrow> None
         | Some ((r, xs), rs'') \<Rightarrow> if r < 0 then Some ((-1, []), rs'') else Some ((int (length ds) + r, ds @ xs), rs''))"

text \<open>
  \<^verbatim>\<open>write\<close>: how many bytes it takes, or a failure. A result of 0 is treated like a failure with the \<^verbatim>\<open>errno\<close>
  that is there, modelled by \<open>WFail\<close> and \<open>WEintr\<close>.
\<close>

datatype wr = Took nat | WEintr | WFail

fun writen :: "byte list \<Rightarrow> wr list \<Rightarrow> ((int \<times> byte list) \<times> wr list) option" where
  "writen [] ws = Some ((0, []), ws)"
| "writen (b # bs) [] = None"
| "writen (b # bs) (WEintr # ws) = writen (b # bs) ws"
| "writen (b # bs) (WFail # ws) = Some ((-1, []), ws)"
| "writen (b # bs) (Took 0 # ws) = Some ((-1, []), ws)"
| "writen (b # bs) (Took (Suc k) # ws) =
     (case writen (drop (Suc k) (b # bs)) ws of
        None \<Rightarrow> None
      | Some ((r, sent), ws') \<Rightarrow>
          if r < 0 then Some ((-1, take (Suc k) (b # bs) @ sent), ws')
          else Some ((int (length (take (Suc k) (b # bs))) + r, take (Suc k) (b # bs) @ sent), ws'))"

section \<open>What they deliver\<close>

text \<open>The bytes a peer sends before the first end or failure.\<close>

fun stream_of :: "rd list \<Rightarrow> byte list" where
  "stream_of [] = []"
| "stream_of (Eintr # rs) = stream_of rs"
| "stream_of (Fail # rs) = []"
| "stream_of (Data [] # rs) = []"
| "stream_of (Data (b # bs) # rs) = (b # bs) @ stream_of rs"

lemma readn_spec:
  "readn n rs = Some ((r, xs), rs') \<Longrightarrow> 0 \<le> r \<Longrightarrow>
   r = int (length xs) \<and> xs = take n (stream_of rs) \<and> (r = int n \<or> xs = stream_of rs)"
proof (induction n rs arbitrary: r xs rs' rule: readn.induct)
  case (6 k b bs rs)
  define ds where "ds = take (Suc k) (b # bs)"
  define rest where "rest = drop (Suc k) (b # bs)"
  define rs1 where "rs1 = (if rest = [] then rs else Data rest # rs)"
  from "6.prems" obtain r1 ys where
    rd: "readn (Suc k - length ds) rs1 = Some ((r1, ys), rs')" and r1: "0 \<le> r1"
    and eq: "r = int (length ds) + r1" "xs = ds @ ys"
    unfolding readn.simps ds_def rest_def rs1_def by (auto simp: Let_def split: option.splits if_splits)
  have IH: "r1 = int (length ys) \<and> ys = take (Suc k - length ds) (stream_of rs1) \<and>
      (r1 = int (Suc k - length ds) \<or> ys = stream_of rs1)"
    using "6.IH" [OF ds_def rest_def rs1_def rd r1] .
  have st: "stream_of rs1 = rest @ stream_of rs" unfolding rs1_def by (cases rest) auto
  have le: "length ds \<le> Suc k" and dr: "ds @ rest = b # bs" by (simp_all add: ds_def rest_def)
  have whole: "stream_of (Data (b # bs) # rs) = ds @ stream_of rs1"
    using dr st by (metis append_assoc stream_of.simps(5))
  have "take (Suc k) (ds @ stream_of rs1) = ds @ take (Suc k - length ds) (stream_of rs1)"
    using le by simp
  with IH eq whole le show ?case by auto
qed auto

lemma writen_spec:
  "writen bs ws = Some ((r, sent), ws') \<Longrightarrow> 0 \<le> r \<Longrightarrow> r = int (length bs) \<and> sent = bs"
proof (induction bs ws arbitrary: r sent rule: writen.induct)
  case (6 b bs k ws)
  from "6.prems" obtain r1 s1 where w: "writen (drop (Suc k) (b # bs)) ws = Some ((r1, s1), ws')" and r1: "0 \<le> r1"
    and eq: "r = int (length (take (Suc k) (b # bs))) + r1" "sent = take (Suc k) (b # bs) @ s1"
    by (auto split: option.splits if_splits)
  from "6.IH" [OF w r1] eq show ?case by auto
qed auto

text \<open>Data that \<^verbatim>\<open>writen\<close> has sent, in whatever pieces the kernel took it, arrives complete and in order at a reader
  that asks \<^verbatim>\<open>readn\<close> for that many bytes, however the stream is cut into pieces and interrupted on the way.\<close>

theorem exact_transfer:
  assumes "writen bs ws = Some ((r, sent), ws')" and "0 \<le> r" and "stream_of rs = sent"
    and "readn (length bs) rs = Some ((r2, xs), rs')" and "0 \<le> r2"
  shows "r = int (length bs) \<and> r2 = int (length bs) \<and> xs = bs"
  using writen_spec [OF assms(1,2)] readn_spec [OF assms(4,5)] assms(3) by auto

theorem exact_transfer_witness:
  "\<exists>sent r2 xs. writen [1, 2, 3] [Took 2, WEintr, Took 5] = Some ((3, sent), []) \<and>
     readn 3 [Data [1], Eintr, Data [2, 3]] = Some ((r2, xs), []) \<and> r2 = 3 \<and> xs = [1, 2, 3]"
proof -
  have w: "writen [1, 2, 3] [Took 2, WEintr, Took 5] = Some ((3, [1, 2, 3]), [])"
    by (simp add: numeral_2_eq_2 numeral_eq_Suc)
  have r: "readn 3 [Data [1], Eintr, Data [2, 3]] = Some ((3, [1, 2, 3]), [])"
    by (simp add: Let_def numeral_eq_Suc)
  have three: "length [1, 2, 3 :: byte] = 3"
    by simp
  from exact_transfer [OF w _ _ r [folded three]] w r show ?thesis
    by (simp add: three)
qed

end
