(* ===== verification/GR_Lib.thy ===== *)
theory GR_Lib
  imports Ring_Buffer Net_IO
begin

text \<open>
  Blocks of the Grand Raiden collector (\<^verbatim>\<open>gr/grlib.c\<close>): the run start and run end blocks, and the transfer of a
  block with an acknowledgement. Buffers are lists of 16 bit words; writing outside one is avoided by the
  sizes, which are part of the statements.
\<close>

section \<open>Data\<close>

definition MAX_MSG :: nat where
  "MAX_MSG = 256"

definition BLK_HEADER_START :: "16 word" where "BLK_HEADER_START = 0xf01"
definition BLK_HEADER_END :: "16 word" where "BLK_HEADER_END = 0xf02"

record cmd_msgbuf =
  cm_type :: int
  command :: char
  cm_run :: "32 word"
  comment :: string

text \<open>\<^verbatim>\<open>(unsigned short)c\<close> for a signed \<^verbatim>\<open>char\<close>.\<close>

definition short_of_char :: "char \<Rightarrow> 16 word" where
  "short_of_char c = (if (of_char c :: nat) < 128 then of_char c else of_char c + 0xff00)"

definition DAQ_VERSION :: "16 word" where
  "DAQ_VERSION = (push_bit 8 4) OR 0"

text \<open>Consecutive assignments \<^verbatim>\<open>buf[i] = ...; buf[i+1] = ...;\<close>\<close>

fun store :: "nat \<Rightarrow> 16 word list \<Rightarrow> blk \<Rightarrow> blk" where
  "store i [] buf = buf"
| "store i (w # ws) buf = store (Suc i) ws (buf[i := w])"

text \<open>\<^verbatim>\<open>for(i=a; i<b; i++) buf[i] = 0;\<close>\<close>

definition zero_fill :: "nat \<Rightarrow> nat \<Rightarrow> blk \<Rightarrow> blk" where
  "zero_fill a b buf = store a (replicate (b - a) 0) buf"

section \<open>Run blocks of the collector\<close>

text \<open>
  The loop over the comment: up to the terminating 0 the characters are copied to \<^verbatim>\<open>buf[13..]\<close>. The first
  component is \<^verbatim>\<open>i_max\<close>, \<open>None\<close> when the loop ends without having set it.
\<close>

fun copy_comment :: "nat \<Rightarrow> string \<Rightarrow> blk \<Rightarrow> nat option \<times> blk" where
  "copy_comment i [] buf = (None, buf)"
| "copy_comment i (c # cs) buf =
     (if c = CHR 0x00 then (Some (i + 13), buf) else copy_comment (Suc i) cs (buf[i + 13 := short_of_char c]))"

definition run_header :: "16 word \<Rightarrow> int \<Rightarrow> 16 word list" where
  "run_header bid tm =
     [0xffff, 6, bid, word_of_nat BLK_BUF_SIZE - 6, 0, 0, 0, DAQ_VERSION, 0x0304, 0x0102,
      word_of_int (drop_bit 16 tm), word_of_int (tm AND 0xffff)]"

text \<open>The common body of \<^verbatim>\<open>encode_run_start\<close> and \<^verbatim>\<open>encode_run_end\<close>; \<open>None\<close> is the use of the unset \<^verbatim>\<open>i_max\<close>.\<close>

definition encode_info :: "16 word \<Rightarrow> int \<Rightarrow> blk \<Rightarrow> nat \<Rightarrow> cmd_msgbuf \<Rightarrow> blk option" where
  "encode_info bid tm buf n mb =
     (let b1 = store 0 (run_header bid tm) buf;
          b2 = b1[12 := ucast (cm_run mb)]
      in case copy_comment 0 (take MAX_MSG (comment mb)) b2 of
           (None, b3) \<Rightarrow> None
         | (Some i, b3) \<Rightarrow>
             let e = max i (n - 2)
             in Some ((zero_fill i (n - 2) b3)[e := 0xffef, Suc e := 2]))"

text \<open>\<^verbatim>\<open>encode_run_start\<close> also keeps the message for the run end block in the static \<^verbatim>\<open>cmb\<close>.\<close>

definition encode_run_start :: "int \<Rightarrow> blk \<Rightarrow> nat \<Rightarrow> cmd_msgbuf \<Rightarrow> (blk \<times> cmd_msgbuf) option" where
  "encode_run_start tm buf n mb = map_option (\<lambda>b. (b, mb)) (encode_info BLK_HEADER_START tm buf n mb)"

definition encode_run_end :: "int \<Rightarrow> blk \<Rightarrow> nat \<Rightarrow> cmd_msgbuf \<Rightarrow> blk option" where
  "encode_run_end tm buf n cmb = encode_info BLK_HEADER_END tm buf n cmb"

section \<open>Run blocks of the test mode\<close>

text \<open>
  \<^verbatim>\<open>send_run_start\<close> copies the comment to \<^verbatim>\<open>buf[3..]\<close>, over the header it has just written, and then clears
  from word 256 on.
\<close>

definition send_run_start :: "int \<Rightarrow> blk \<Rightarrow> nat \<Rightarrow> string \<Rightarrow> blk" where
  "send_run_start tm buf n com =
     (let b1 = store 0 [0xffff, 6, BLK_HEADER_START, word_of_nat BLK_BUF_SIZE - 6, 0, 0, 0, DAQ_VERSION, 0x0304, 0x0102,
                        word_of_int (drop_bit 8 tm), word_of_int (tm AND 0xff)] buf;
          b2 = store 3 (map short_of_char (take MAX_MSG com)) b1;
          b3 = zero_fill MAX_MSG (n - 2) b2;
          e = max MAX_MSG (n - 2)
      in b3[e := 0xffef, Suc e := 2])"

definition send_run_end :: "blk \<Rightarrow> nat \<Rightarrow> blk" where
  "send_run_end buf n =
     (let b1 = store 0 [0xffff, 6, BLK_HEADER_END] buf;
          b2 = zero_fill 3 (n - 2) b1;
          e = max 3 (n - 2)
      in b2[e := 0xffef, Suc e := 2])"

section \<open>Acknowledged transfer\<close>

definition SEND_BLK_SUCCESS :: "16 word" where "SEND_BLK_SUCCESS = 1"
definition SEND_BLK_FAIL :: "16 word" where "SEND_BLK_FAIL = 0"

text \<open>
  \<^verbatim>\<open>send_blk_buf\<close> against the acknowledgements of the peer: how often the block was sent. An end of the stream
  terminates the program (\<open>None\<close>).
\<close>

fun send_blk_buf :: "16 word list \<Rightarrow> nat option" where
  "send_blk_buf [] = None"
| "send_blk_buf (a # as) = (if a = SEND_BLK_SUCCESS then Some 1 else map_option Suc (send_blk_buf as))"

text \<open>
  \<^verbatim>\<open>ack_blk_buf\<close> against what each \<^verbatim>\<open>Readn\<close> delivers: the acknowledgements written and the block with the result.
  \<open>n\<close> is the size in words, a read that delivers nothing ends the transfer with -1.
\<close>

fun ack_blk_buf :: "nat \<Rightarrow> byte list list \<Rightarrow> 16 word list \<times> (int \<times> byte list) option" where
  "ack_blk_buf n [] = ([], None)"
| "ack_blk_buf n (d # ds) =
     (if d = [] then ([], Some (-1, []))
      else if length d div 2 = n then ([SEND_BLK_SUCCESS], Some (int n, d))
      else (case ack_blk_buf n ds of (as, r) \<Rightarrow> (SEND_BLK_FAIL # as, r)))"

section \<open>Lemmas on buffers\<close>

lemma length_store [simp]: "length (store i ws buf) = length buf"
  by (induction ws arbitrary: i buf) auto

lemma nth_store:
  "i + length ws \<le> length buf \<Longrightarrow>
   store i ws buf ! k = (if i \<le> k \<and> k < i + length ws then ws ! (k - i) else buf ! k)"
proof (induction ws arbitrary: i buf)
  case (Cons w ws)
  then show ?case by (auto simp: nth_Cons' nth_list_update)
qed auto

lemma length_zero_fill [simp]: "length (zero_fill a b buf) = length buf"
  by (simp add: zero_fill_def)

lemma nth_zero_fill: "b \<le> length buf \<Longrightarrow> a \<le> b \<Longrightarrow> zero_fill a b buf ! k = (if a \<le> k \<and> k < b then 0 else buf ! k)"
  by (auto simp: zero_fill_def nth_store)

lemma copy_comment_None: "fst (copy_comment i cs buf) = None \<longleftrightarrow> CHR 0x00 \<notin> set cs"
  by (induction i cs buf rule: copy_comment.induct) auto

lemma store_eq:
  assumes "i + length ws \<le> length buf"
  shows "store i ws buf = take i buf @ ws @ drop (i + length ws) buf"
  using assms by (intro nth_equalityI) (auto simp: nth_store nth_append)

lemma copy_comment_Some:
  assumes "CHR 0x00 \<in> set cs" and "i + length cs + 13 \<le> length buf"
  shows "copy_comment i cs buf =
    (Some (i + length (takeWhile (\<lambda>c. c \<noteq> CHR 0x00) cs) + 13),
     store (i + 13) (map short_of_char (takeWhile (\<lambda>c. c \<noteq> CHR 0x00) cs)) buf)"
  using assms by (induction cs arbitrary: i buf) auto

lemma short_of_char_nonzero: "c \<noteq> CHR 0x00 \<Longrightarrow> short_of_char c \<noteq> 0"
  by (cases c) (auto simp: short_of_char_def of_char_def)

text \<open>The common end of the run blocks: zeros up to the trailer and the trailer.\<close>

lemma zeros_and_trailer:
  assumes "length buf = n" and "i \<le> n - 2" and "2 \<le> n"
  shows "(zero_fill i (n - 2) buf)[n - 2 := u, Suc (n - 2) := v] = take i buf @ replicate (n - 2 - i) 0 @ [u, v]"
  using assms by (intro nth_equalityI) (auto simp: nth_zero_fill nth_append nth_list_update nth_Cons')

section \<open>The run blocks\<close>

text \<open>What a run block says: header, run number, comment, zeros and trailer.\<close>

definition run_block :: "16 word \<Rightarrow> int \<Rightarrow> nat \<Rightarrow> cmd_msgbuf \<Rightarrow> blk" where
  "run_block bid tm n mb =
     (let us = takeWhile (\<lambda>c. c \<noteq> CHR 0x00) (take MAX_MSG (comment mb))
      in run_header bid tm @ ucast (cm_run mb) # map short_of_char us @
         replicate (n - 15 - length us) 0 @ [0xffef, 2])"

lemma length_run_header [simp]: "length (run_header bid tm) = 12"
  by (simp add: run_header_def)

lemma length_run_block:
  assumes "MAX_MSG + 15 \<le> n"
  shows "length (run_block bid tm n mb) = n"
  using assms length_takeWhile_le [of "\<lambda>c. c \<noteq> CHR 0x00" "take MAX_MSG (comment mb)"]
  by (simp add: run_block_def Let_def MAX_MSG_def)

lemma encode_info_eq:
  assumes n: "length buf = n" "MAX_MSG + 15 \<le> n" and z: "CHR 0x00 \<in> set (take MAX_MSG (comment mb))"
  shows "encode_info bid tm buf n mb = Some (run_block bid tm n mb)"
proof -
  define us where "us = takeWhile (\<lambda>c. c \<noteq> CHR 0x00) (take MAX_MSG (comment mb))"
  have us: "length us \<le> 256"
    using length_takeWhile_le [of "\<lambda>c. c \<noteq> CHR 0x00" "take MAX_MSG (comment mb)"] by (simp add: us_def MAX_MSG_def)
  define b2 where "b2 = (store 0 (run_header bid tm) buf)[12 := ucast (cm_run mb)]"
  have b2: "b2 = run_header bid tm @ ucast (cm_run mb) # drop 13 buf"
    using n by (simp add: b2_def store_eq MAX_MSG_def list_update_append Cons_nth_drop_Suc [symmetric])
  have c: "copy_comment 0 (take MAX_MSG (comment mb)) b2 = (Some (length us + 13), store 13 (map short_of_char us) b2)"
    using copy_comment_Some [OF z, of 0 b2] n unfolding us_def [symmetric] by (simp add: b2_def MAX_MSG_def)
  have s: "store 13 (map short_of_char us) b2
      = run_header bid tm @ ucast (cm_run mb) # map short_of_char us @ drop (13 + length us) buf"
    using n us by (simp add: b2 store_eq MAX_MSG_def add.commute)
  have e: "max (length us + 13) (n - 2) = n - 2"
    using n us by (simp add: MAX_MSG_def)
  have l: "length (run_header bid tm @ ucast (cm_run mb) # map short_of_char us @ drop (13 + length us) buf) = n"
    "length us + 13 \<le> n - 2" "2 \<le> n"
    using n us by (simp_all add: MAX_MSG_def)
  show ?thesis
    unfolding encode_info_def Let_def b2_def [symmetric] c s prod.case option.case e zeros_and_trailer [OF l] run_block_def us_def [symmetric]
    by (simp add: diff_diff_eq add.commute)
qed

text \<open>How the readers of the data take a run block apart: the comment up to the first 0 and the 32 bit time.\<close>

definition read_comment :: "blk \<Rightarrow> string" where
  "read_comment b = map (\<lambda>w. char_of (unat w)) (takeWhile (\<lambda>w. w \<noteq> 0) (drop 13 b))"

definition read_time :: "blk \<Rightarrow> int" where
  "read_time b = uint (b ! 10) * 2 ^ 16 + uint (b ! 11)"

lemma char_of_short_of_char [simp]: "char_of (unat (short_of_char c)) = c"
proof -
  have b: "(of_char c :: nat) < 256"
    by (rule nat_of_char_less_256)
  have w: "(of_char c :: 16 word) = word_of_nat (of_char c)"
    by (simp add: of_nat_of_char)
  have u: "unat (short_of_char c) = of_char c \<or> unat (short_of_char c) = of_char c + 65280"
    using mod_less [of "of_char c" 65536] mod_less [of "of_char c + 65280" 65536] b
    unfolding short_of_char_def w by (auto simp: unat_word_ariths unat_of_nat take_bit_eq_mod simp del: nat_of_char_less_256)
  have "char_of (of_char c + 65280 :: nat) = (char_of (of_char c :: nat) :: char)"
    unfolding char_of_quasi_inj using mod_mult_self1 [of "of_char c" 255 "256 :: nat"] by simp
  with u show ?thesis by auto
qed

lemma map_char_of_short [simp]: "map ((\<lambda>w. char_of (unat w)) \<circ> short_of_char) cs = cs"
  by (induction cs) auto

lemma length_takeWhile_less_mem: "x \<in> set xs \<Longrightarrow> \<not> P x \<Longrightarrow> length (takeWhile P xs) < length xs"
  by (induction xs) auto

lemma takeWhile_comment:
  assumes "CHR 0x00 \<notin> set us"
  shows "takeWhile (\<lambda>w. w \<noteq> 0) (map short_of_char us @ 0 # ws) = map short_of_char us"
  using assms by (induction us) (auto simp: short_of_char_nonzero)

lemma read_comment_run_block:
  assumes "MAX_MSG + 15 \<le> n" and z: "CHR 0x00 \<in> set (take MAX_MSG (comment mb))"
  shows "read_comment (run_block bid tm n mb) = takeWhile (\<lambda>c. c \<noteq> CHR 0x00) (take MAX_MSG (comment mb))"
proof -
  define us where "us = takeWhile (\<lambda>c. c \<noteq> CHR 0x00) (take MAX_MSG (comment mb))"
  have nz: "CHR 0x00 \<notin> set us"
    unfolding us_def using set_takeWhileD by fastforce
  from z have "length us < length (take MAX_MSG (comment mb))"
    unfolding us_def by (rule length_takeWhile_less_mem) simp
  with assms(1) obtain k where "n - 15 - length us = Suc k"
    by (cases "n - 15 - length us") auto
  then show ?thesis
    unfolding read_comment_def run_block_def us_def [symmetric] Let_def by (simp add: takeWhile_comment [OF nz])
qed

lemma read_time_run_block: "read_time (run_block bid tm n mb) = tm mod 2 ^ 32"
proof -
  have "tm mod 2 ^ 32 = tm div 2 ^ 16 mod 2 ^ 16 * 2 ^ 16 + tm mod 2 ^ 16"
    using mod_mult2_eq' [of tm "2 ^ 16" "2 ^ 16"] by simp
  moreover have "tm AND 0xffff = tm mod 2 ^ 16"
    using take_bit_eq_mask [of 16 tm] by (simp add: mask_eq_exp_minus_1 take_bit_eq_mod)
  ultimately show ?thesis
    by (simp add: read_time_def run_block_def run_header_def Let_def uint_word_of_int_eq drop_bit_eq_div take_bit_eq_mod)
qed

section \<open>Properties\<close>

text \<open>C10: The run start and run end blocks of a run, written over any old contents of the buffers, have the size of
  the buffer and say the same of the run: block header, data format version, byte order mark, the low 16 bits of the
  run number, the comment as the operator typed it, zeros and the trailer; each carries its own time.\<close>

theorem run_blocks_describe_the_run:
  assumes "length buf = n" and "length buf' = n" and "MAX_MSG + 15 \<le> n"
    and "CHR 0x00 \<in> set (take MAX_MSG (comment mb))"
  shows "\<exists>s e cmb. encode_run_start t1 buf n mb = Some (s, cmb) \<and> encode_run_end t2 buf' n cmb = Some e \<and>
     s ! 2 = BLK_HEADER_START \<and> e ! 2 = BLK_HEADER_END \<and> read_time s = t1 mod 2 ^ 32 \<and> read_time e = t2 mod 2 ^ 32 \<and>
     (\<forall>b\<in>{s, e}. length b = n \<and> take 2 b = [0xffff, 6] \<and> b ! 7 = DAQ_VERSION \<and> b ! 12 = ucast (cm_run mb) \<and>
        read_comment b = takeWhile (\<lambda>c. c \<noteq> CHR 0x00) (take MAX_MSG (comment mb)) \<and> drop (n - 2) b = [0xffef, 2])"
proof -
  have len: "length (takeWhile (\<lambda>c. c \<noteq> CHR 0x00) (take MAX_MSG (comment mb))) \<le> 256"
    using length_takeWhile_le [of "\<lambda>c. c \<noteq> CHR 0x00" "take MAX_MSG (comment mb)"] by (simp add: MAX_MSG_def)
  have size: "length (run_block bid tm n mb) = n" "drop (n - 2) (run_block bid tm n mb) = [0xffef, 2]" for bid tm
    using assms(3) len by (simp_all add: run_block_def Let_def MAX_MSG_def drop_Cons')
  have words: "take 2 (run_block bid tm n mb) = [0xffff, 6]" "run_block bid tm n mb ! 2 = bid"
      "run_block bid tm n mb ! 7 = DAQ_VERSION" "run_block bid tm n mb ! 12 = ucast (cm_run mb)" for bid tm
    by (simp_all add: run_block_def run_header_def Let_def)
  show ?thesis
    using size words read_comment_run_block [OF assms(3,4)]
    by (simp add: encode_run_start_def encode_run_end_def encode_info_eq [OF assms(1,3,4)] encode_info_eq [OF assms(2,3,4)]
        read_time_run_block)
qed

theorem run_blocks_describe_the_run_witness:
  "\<exists>s e cmb. encode_run_start 70000 (replicate 271 7) 271 \<lparr> cm_type = 1, command = CHR 0x01, cm_run = 0x12345, comment = ''test'' @ [CHR 0x00] \<rparr>
       = Some (s, cmb) \<and>
     encode_run_end 80000 (replicate 271 9) 271 cmb = Some e \<and> read_time s = 70000 \<and> read_time e = 80000 \<and>
     s ! 12 = 0x2345 \<and> e ! 12 = 0x2345 \<and> read_comment s = ''test'' \<and> read_comment e = ''test'' \<and> drop 269 e = [0xffef, 2]"
proof -
  let ?m = "\<lparr> cm_type = 1, command = CHR 0x01, cm_run = 0x12345, comment = ''test'' @ [CHR 0x00] \<rparr>"
  have "CHR 0x00 \<in> set (take MAX_MSG (comment ?m))"
    by (simp add: MAX_MSG_def)
  then show ?thesis
    using run_blocks_describe_the_run [of "replicate 271 7" 271 "replicate 271 9" ?m 70000 80000]
    by (force simp: MAX_MSG_def)
qed

text \<open>The run start block of the test mode is not readable as a block: whatever the comment, its block size,
  block number, event number, data version and byte order words are characters of the comment.\<close>

theorem test_run_start_overwrites_header:
  assumes "length buf = n" and "MAX_MSG + 5 \<le> n" and "length com = MAX_MSG"
  shows "take 3 (send_run_start tm buf n com) = [0xffff, 6, BLK_HEADER_START] \<and>
    (\<forall>k < 253. send_run_start tm buf n com ! (k + 3) = short_of_char (com ! k))"
  using assms
  by (auto simp: send_run_start_def Let_def MAX_MSG_def nth_store nth_zero_fill nth_list_update numeral_3_eq_3 numeral_2_eq_2 take_Suc_conv_app_nth)

theorem test_run_start_overwrites_header_witness:
  "\<exists>b. b = send_run_start 0 (replicate 300 0) 300 (replicate 256 CHR ''x'') \<and>
     take 3 b = [0xffff, 6, BLK_HEADER_START] \<and> b ! 3 = 0x78 \<and> b ! 7 = 0x78"
proof -
  let ?b = "send_run_start 0 (replicate 300 0) 300 (replicate 256 CHR ''x'')"
  have "take 3 ?b = [0xffff, 6, BLK_HEADER_START] \<and> (\<forall>k < 253. ?b ! (k + 3) = short_of_char (replicate 256 CHR ''x'' ! k))"
    by (rule test_run_start_overwrites_header) (simp_all add: MAX_MSG_def)
  then have h: "take 3 ?b = [0xffff, 6, BLK_HEADER_START]" and c: "k < 253 \<Longrightarrow> ?b ! (k + 3) = short_of_char CHR ''x''" for k
    by auto
  show ?thesis
    using h c [of 0] c [of 4] by (simp add: short_of_char_def of_char_def)
qed

text \<open>An acknowledged transfer ends at both sides together: when the receiver gets a whole block, the sender stops
  after exactly as many transmissions as the receiver answered; when the connection ends before, the sender terminates.\<close>

theorem acknowledged_transfer_agrees:
  assumes "ack_blk_buf n ds = (as, Some (r, d))"
  shows "if r = -1 then send_blk_buf as = None \<and> (\<forall>a\<in>set as. a = SEND_BLK_FAIL)
     else send_blk_buf as = Some (length as) \<and> r = int n \<and> length d div 2 = n \<and> d \<noteq> [] \<and> d = ds ! (length as - 1)"
  using assms
proof (induction n ds arbitrary: as rule: ack_blk_buf.induct)
  case (2 n d' ds)
  then show ?case
    by (auto simp: SEND_BLK_SUCCESS_def SEND_BLK_FAIL_def nth_Cons' split: if_splits prod.splits)
qed simp

theorem acknowledged_transfer_agrees_witness:
  "\<exists>d. ack_blk_buf 2 [[1, 2], [1, 2, 3, 4]] = ([0, 1], Some (2, d)) \<and> send_blk_buf [0, 1] = Some 2 \<and> d = [1, 2, 3, 4]"
  using acknowledged_transfer_agrees [of 2 "[[1, 2], [1, 2, 3, 4]]" "[0, 1]" 2 "[1, 2, 3, 4]"]
  by (simp add: SEND_BLK_SUCCESS_def SEND_BLK_FAIL_def)

end
