(* ===== verification/GR_Modules.thy ===== *)
theory GR_Modules
  imports GR_Lib
begin

text \<open>
  The VME modules of the Grand Raiden collector: the RPV130 I/O register (\<^verbatim>\<open>librpv.c\<close>), the LeCroy 1190 memories
  (\<^verbatim>\<open>liblrm.c\<close>) and the VTS801 scaler (\<^verbatim>\<open>libvts801.c\<close>). A register write is an entry of a trace of VME operations;
  what a register read delivers is an argument, since the hardware decides it.
\<close>

section \<open>VME operations\<close>

datatype vme_op =
    RpvPulse "16 word"
  | RpvLevel "16 word"
  | RpvCsr1 "16 word"
  | RpvCsr2 "16 word"
  | LrmMem nat nat "16 word"
  | LrmPtr nat "16 word"
  | LrmEnable nat "16 word"
  | VtsGate nat nat "32 word"
  | RingPut blk

section \<open>RPV130\<close>

definition RPV_OREG_BUF1 :: "16 word" where "RPV_OREG_BUF1 = 1"
definition RPV_OREG_BUF2 :: "16 word" where "RPV_OREG_BUF2 = 2"
definition RPV_OREG_INIT :: "16 word" where "RPV_OREG_INIT = 4"
definition RPV_OREG_VETO :: "16 word" where "RPV_OREG_VETO = 8"

text \<open>Each operation maps \<^verbatim>\<open>rpv_current_level\<close> to its new value and the writes it makes; \<open>None\<close> is \<^verbatim>\<open>exit(1)\<close>.\<close>

definition rpv_init :: "16 word \<Rightarrow> 16 word \<times> vme_op list" where
  "rpv_init lvl =
     (let lvl' = RPV_OREG_VETO OR RPV_OREG_BUF1 OR RPV_OREG_BUF2
      in (lvl', [RpvLevel lvl', RpvCsr1 3, RpvCsr2 3, RpvPulse RPV_OREG_INIT, RpvLevel lvl']))"

definition rpv_clr :: "vme_op list" where
  "rpv_clr = [RpvCsr1 3, RpvCsr2 3]"

definition rpv_ena :: "16 word \<Rightarrow> 16 word \<times> vme_op list" where
  "rpv_ena lvl = (let lvl' = lvl AND NOT RPV_OREG_VETO in (lvl', [RpvLevel lvl']))"

definition rpv_dis :: "16 word \<Rightarrow> 16 word \<times> vme_op list" where
  "rpv_dis lvl = (let lvl' = lvl OR RPV_OREG_VETO in (lvl', [RpvLevel lvl']))"

definition rpv_dis_buf :: "int \<Rightarrow> 16 word \<Rightarrow> (16 word \<times> vme_op list) option" where
  "rpv_dis_buf i lvl =
     (if i = 1 then let lvl' = lvl AND NOT RPV_OREG_BUF1 in Some (lvl', [RpvLevel lvl'])
      else if i = 2 then let lvl' = lvl AND NOT RPV_OREG_BUF2 in Some (lvl', [RpvLevel lvl'])
      else if i = 3 then let lvl' = lvl AND (NOT RPV_OREG_BUF1 AND NOT RPV_OREG_BUF2) in Some (lvl', [RpvLevel lvl'])
      else None)"

definition rpv_ena_buf :: "int \<Rightarrow> 16 word \<Rightarrow> (16 word \<times> vme_op list) option" where
  "rpv_ena_buf i lvl =
     (if i = 1 then let lvl' = lvl OR RPV_OREG_BUF1 in Some (lvl', [RpvLevel lvl'])
      else if i = 2 then let lvl' = lvl OR RPV_OREG_BUF2 in Some (lvl', [RpvLevel lvl'])
      else if i = 3 then let lvl' = lvl OR (RPV_OREG_BUF1 OR RPV_OREG_BUF2) in Some (lvl', [RpvLevel lvl'])
      else None)"

section \<open>LeCroy 1190\<close>

definition LRM_LEN :: nat where "LRM_LEN = 0x10000"
definition LRM_FFP_ENA :: "16 word" where "LRM_FFP_ENA = 1"
definition LRM_VME_ENA :: "16 word" where "LRM_VME_ENA = 0"

definition lrm_ena :: "nat \<Rightarrow> vme_op list" where
  "lrm_ena i = [LrmEnable i LRM_FFP_ENA]"

definition lrm_dis :: "nat \<Rightarrow> vme_op list" where
  "lrm_dis i = [LrmEnable i LRM_VME_ENA]"

definition lrm_init :: "nat \<Rightarrow> vme_op list" where
  "lrm_init i = map (\<lambda>k. LrmMem i k 0) [0 ..< LRM_LEN] @ [LrmPtr i 0]"

definition lrm_reset :: "nat \<Rightarrow> vme_op list" where
  "lrm_reset i = [LrmMem i 0 0]"

text \<open>
  \<^verbatim>\<open>lrm_get\<close> copies the memory words, \<^verbatim>\<open>lrm_get2\<close> every second one; \<open>ptr\<close> is the value read from \<^verbatim>\<open>mem_ptr\<close>, \<open>mem\<close>
  the memory. The result is the number of words and the buffer.
\<close>

definition lrm_get :: "16 word \<Rightarrow> (nat \<Rightarrow> 16 word) \<Rightarrow> blk \<Rightarrow> nat \<Rightarrow> 16 word \<times> blk" where
  "lrm_get ptr mem buf max_size =
     (if max_size > unat ptr then (ptr, store 0 (map mem [0 ..< unat ptr]) buf)
      else (word_of_nat max_size, store 0 (map mem [0 ..< max_size]) buf))"

definition lrm_get2 :: "16 word \<Rightarrow> (nat \<Rightarrow> 16 word) \<Rightarrow> blk \<Rightarrow> nat \<Rightarrow> 16 word \<times> blk" where
  "lrm_get2 ptr mem buf max_size =
     (if max_size > unat ptr then (ptr, store 0 (map (\<lambda>i. mem (2 * i)) [0 ..< unat ptr]) buf)
      else (word_of_nat max_size, store 0 (map (\<lambda>i. mem (2 * i)) [0 ..< max_size]) buf))"

section \<open>VTS801\<close>

definition vts801_reset :: "vme_op list" where
  "vts801_reset = [VtsGate 0 0 0]"

text \<open>The inner loop over the 16 channels of a gate, the body of the outer loop, and the whole function.\<close>

definition vts_channel :: "(nat \<Rightarrow> 32 word) \<Rightarrow> nat \<Rightarrow> blk \<times> nat \<Rightarrow> blk \<times> nat" where
  "vts_channel g j s =
     (let ldata = g j AND 0xffffff
      in ((fst s)[snd s := ucast (ldata AND 0xffff), snd s + 1 := ucast (drop_bit 16 ldata AND 0xff)], snd s + 2))"

definition vts_gate :: "(nat \<Rightarrow> nat \<Rightarrow> 32 word) \<Rightarrow> nat \<Rightarrow> blk \<times> nat \<times> nat \<times> nat \<Rightarrow> blk \<times> nat \<times> nat \<times> nat" where
  "vts_gate gate i = (\<lambda>(buf, hdr, cur, cnt).
     case fold (vts_channel (gate i)) [0 ..< 16] (buf, cur) of
       (buf', cur') \<Rightarrow> (buf'[hdr := 0x6000 OR (2 * 16)], cur', cur' + 1, cnt + 2 * 16 + 1))"

definition vts801_read :: "(nat \<Rightarrow> nat \<Rightarrow> 32 word) \<Rightarrow> blk \<Rightarrow> nat \<times> blk" where
  "vts801_read gate sbuf =
     (case fold (vts_gate gate) [0 ..< 4] (sbuf, 0, 1, 0) of (buf, hdr, cur, cnt) \<Rightarrow> (cnt, buf))"

section \<open>Lemmas\<close>

text \<open>What is in the buffer after \<^verbatim>\<open>lrm_get2\<close> and the loop that clears the rest.\<close>

definition lrm_block :: "nat \<Rightarrow> 16 word \<Rightarrow> (nat \<Rightarrow> 16 word) \<Rightarrow> blk" where
  "lrm_block n ptr mem = (let w = min n (unat ptr) in map (\<lambda>i. mem (2 * i)) [0 ..< w] @ replicate (n - w) 0)"

lemma length_lrm_block [simp]: "length (lrm_block n ptr mem) = n"
  by (simp add: lrm_block_def Let_def)

lemma zero_fill_rest: "length buf = n \<Longrightarrow> i \<le> n \<Longrightarrow> zero_fill i n buf = take i buf @ replicate (n - i) 0"
  by (simp add: zero_fill_def store_eq)

lemma lrm_get2_block:
  assumes "lrm_get2 ptr mem buf n = (w, buf')" and "length buf = n" and "n < 2 ^ 16"
  shows "zero_fill (unat w) n buf' = lrm_block n ptr mem"
proof -
  have "unat (word_of_nat (length buf) :: 16 word) = length buf"
    using assms(2,3) by (simp add: unat_of_nat take_bit_eq_mod)
  then show ?thesis
    using assms by (auto simp: lrm_get2_def lrm_block_def Let_def zero_fill_rest store_eq min_def split: if_splits)
qed

lemma store_update: "i < k \<Longrightarrow> (store k ws b)[i := v] = store k ws (b[i := v])"
  by (induction ws arbitrary: k b) (auto simp: list_update_swap)

lemma store_append: "store i (us @ vs) b = store (i + length us) vs (store i us b)"
  by (induction us arbitrary: i b) auto

text \<open>The words of one scaler channel and of one gate, and of the whole read out.\<close>

definition vts_words :: "32 word \<Rightarrow> 16 word list" where
  "vts_words w = [ucast ((w AND 0xffffff) AND 0xffff), ucast (drop_bit 16 (w AND 0xffffff) AND 0xff)]"

definition vts_region :: "(nat \<Rightarrow> 32 word) \<Rightarrow> 16 word list" where
  "vts_region g = 0x6020 # concat (map (\<lambda>j. vts_words (g j)) [0 ..< 16])"

lemma length_vts_words [simp]: "length (vts_words w) = 2"
  by (simp add: vts_words_def)

lemma length_concat_words: "length (concat (map (\<lambda>j. vts_words (g j)) js)) = 2 * length js"
  by (induction js) auto

lemma vts_channel_eq: "vts_channel g j (b, c) = (store c (vts_words (g j)) b, c + 2)"
  by (simp add: vts_channel_def vts_words_def Let_def)

lemma length_vts_region [simp]: "length (vts_region g) = 33"
  by (simp add: vts_region_def length_concat_words)

lemma length_concat_regions: "length (concat (map (\<lambda>i. vts_region (gate i)) is)) = 33 * length is"
  by (induction "is") auto

lemma fold_vts_channel:
  "fold (vts_channel g) js (b, c) = (store c (concat (map (\<lambda>j. vts_words (g j)) js)) b, c + 2 * length js)"
  by (induction js arbitrary: b c) (auto simp: vts_channel_eq store_append)

lemma vts_gate_eq:
  "vts_gate gate i (b, h, Suc h, cnt) = (store h (vts_region (gate i)) b, h + 33, h + 34, cnt + 33)"
  by (simp add: vts_gate_def fold_vts_channel vts_region_def store_update)

lemma fold_vts_gate:
  "fold (vts_gate gate) is (b, h, Suc h, cnt) =
     (store h (concat (map (\<lambda>i. vts_region (gate i)) is)) b, h + 33 * length is, Suc (h + 33 * length is), cnt + 33 * length is)"
proof (induction "is" arbitrary: b h cnt)
  case (Cons i "is")
  have "fold (vts_gate gate) (i # is) (b, h, Suc h, cnt)
      = fold (vts_gate gate) is (store h (vts_region (gate i)) b, h + 33, Suc (h + 33), cnt + 33)"
    by (simp add: vts_gate_eq add.commute)
  then show ?case
    unfolding Cons.IH by (simp add: store_append)
qed simp

lemma vts801_read_eq:
  assumes "132 \<le> length sbuf"
  shows "vts801_read gate sbuf = (132, concat (map (\<lambda>i. vts_region (gate i)) [0 ..< 4]) @ drop 132 sbuf)"
  using fold_vts_gate [of gate "[0 ..< 4]" sbuf 0 0] assms
  by (simp add: vts801_read_def store_eq length_concat_regions)

lemma nth_concat_words:
  "j < length js \<Longrightarrow> r < 2 \<Longrightarrow> concat (map (\<lambda>j. vts_words (g j)) js) ! (2 * j + r) = vts_words (g (js ! j)) ! r"
proof (induction js arbitrary: j)
  case (Cons k ks)
  then show ?case
    by (cases j) (auto simp: nth_append)
qed simp

lemma nth_concat_regions:
  "i < length is \<Longrightarrow> r < 33 \<Longrightarrow> concat (map (\<lambda>i. vts_region (gate i)) is) ! (33 * i + r) = vts_region (gate (is ! i)) ! r"
proof (induction "is" arbitrary: i)
  case (Cons k ks)
  then show ?case
    by (cases i) (auto simp: nth_append)
qed simp

lemma vts_words_value: "uint (vts_words w ! 0) + 2 ^ 16 * uint (vts_words w ! 1) = uint w mod 2 ^ 24"
proof -
  have m: "(w AND 0xffffff) = take_bit 24 w" "x AND 0xffff = take_bit 16 x" "x AND 0xff = take_bit 8 x" for x :: "32 word"
    using take_bit_eq_mask [of 24 w] take_bit_eq_mask [of 16 x] take_bit_eq_mask [of 8 x]
    by (simp_all add: mask_eq_exp_minus_1)
  have u: "uint w mod 2 ^ 24 = uint w mod 2 ^ 16 + 2 ^ 16 * (uint w div 2 ^ 16 mod 2 ^ 8)"
    using mod_mult2_eq' [of "uint w" "2 ^ 16" "2 ^ 8"] by simp
  show ?thesis
    using u unfolding take_bit_eq_mod [symmetric] drop_bit_eq_div [symmetric]
    by (simp add: vts_words_def m unsigned_ucast_eq unsigned_take_bit_eq unsigned_drop_bit_eq drop_bit_take_bit)
qed

section \<open>Properties\<close>

text \<open>The read out of the scaler is four regions of 33 words, each with the header 0x6020, and every one of the
  64 counters of 24 bits can be read back from it; the rest of the buffer is not touched.\<close>

theorem scaler_readout_is_complete:
  assumes "132 \<le> length sbuf" and "vts801_read gate sbuf = (n, b)"
  shows "n = 132 \<and> length b = length sbuf \<and> drop 132 b = drop 132 sbuf \<and>
    (\<forall>i < 4. b ! (33 * i) = 0x6020 \<and>
       (\<forall>j < 16. uint (b ! (33 * i + 2 * j + 1)) + 2 ^ 16 * uint (b ! (33 * i + 2 * j + 2)) = uint (gate i j) mod 2 ^ 24))"
proof -
  let ?rs = "concat (map (\<lambda>i. vts_region (gate i)) [0 ..< 4])"
  have b: "n = 132" "b = ?rs @ drop 132 sbuf" and l: "length ?rs = 132"
    using assms by (auto simp: vts801_read_eq length_concat_regions)
  have r: "b ! (33 * i + r) = vts_region (gate i) ! r" if "i < 4" "r < 33" for i r
    using nth_concat_regions [of i "[0 ..< 4]" r gate] that l by (simp add: b(2) nth_append)
  have w: "vts_region (gate i) ! (2 * j + 1 + s) = vts_words (gate i j) ! s" if "j < 16" "s < 2" for i j s
    using nth_concat_words [of j "[0 ..< 16]" s "gate i"] that by (simp add: vts_region_def)
  have v: "uint (b ! (33 * i + 2 * j + 1)) + 2 ^ 16 * uint (b ! (33 * i + 2 * j + 2)) = uint (gate i j) mod 2 ^ 24"
    if "i < 4" "j < 16" for i j
    using that r [of i "2 * j + 1 + 0"] r [of i "2 * j + 1 + 1"] w [of j 0 i] w [of j 1 i] vts_words_value [of "gate i j"]
    by (simp add: add.assoc)
  show ?thesis
    using r [of _ 0] v l assms(1) by (auto simp: b vts_region_def)
qed

theorem scaler_readout_is_complete_witness:
  "\<exists>b. vts801_read (\<lambda>i j. 0x12345678) (replicate 200 7) = (132, b) \<and> b ! 33 = 0x6020 \<and> b ! 199 = 7 \<and>
     uint (b ! 34) + 2 ^ 16 * uint (b ! 35) = 0x345678"
proof -
  obtain n b where e: "vts801_read (\<lambda>i j. 0x12345678) (replicate 200 7) = (n, b)"
    by fastforce
  then have f: "n = 132" "drop 132 b = replicate 68 7" and
    g: "i < 4 \<Longrightarrow> b ! (33 * i) = 0x6020"
      "i < 4 \<Longrightarrow> j < 16 \<Longrightarrow> uint (b ! (33 * i + 2 * j + 1)) + 2 ^ 16 * uint (b ! (33 * i + 2 * j + 2)) = 0x345678" for i j
    using scaler_readout_is_complete [OF _ e] by auto
  have "drop 132 b ! 67 = 7" "length b = 200"
    using f(2) scaler_readout_is_complete [OF _ e] by simp_all
  then have "b ! 199 = 7"
    by simp
  then show ?thesis
    using e f(1) g(1) [of 1] g(2) [of 1 0] by simp
qed

end
