(* ===== verification/GR_Collect.thy ===== *)
theory GR_Collect
  imports GR_Modules
begin

text \<open>
  The Grand Raiden collector: the command thread of \<^verbatim>\<open>gr/grcollect.c\<close> and the read out loop of
  \<^verbatim>\<open>gr/collect_data.c\<close>. The threads share the run state, which every one of them reads and changes under its lock, and
  the command message \<^verbatim>\<open>mb\<close>, which has no lock. An iteration of the read out loop is therefore two steps: the part
  under the lock, and the rest, between which commands may come in. What the hardware delivers is an argument of
  the second step; what is written to the hardware and to the ring buffer is a trace.
\<close>

section \<open>Run state and commands\<close>

definition RUN_STOP :: int where "RUN_STOP = 0"
definition RUN_START :: int where "RUN_START = 1"
definition RUN_OFF :: int where "RUN_OFF = 2"
definition RUN_ON :: int where "RUN_ON = 3"

definition GR_CMD_START :: int where "GR_CMD_START = 1"
definition GR_CMD_STOP :: int where "GR_CMD_STOP = 2"
definition GR_CMD_RESET :: int where "GR_CMD_RESET = 3"
definition GR_CMD_INIT :: int where "GR_CMD_INIT = 4"
definition GR_CMD_EXIT :: int where "GR_CMD_EXIT = 5"

definition GR_CMD_VALID :: "int \<Rightarrow> bool" where
  "GR_CMD_VALID a \<longleftrightarrow> a > 0 \<and> a < 6"

definition MAX_LRM_NUM :: nat where "MAX_LRM_NUM = 12"

text \<open>
  \<open>status\<close> and \<open>mb\<close> are the shared variables, \<open>cmb\<close> is the static copy in \<^verbatim>\<open>grlib.c\<close>, \<open>rpv_current_level\<close> the static
  variable of \<^verbatim>\<open>librpv.c\<close>; the others are the variables of \<^verbatim>\<open>collect_data\<close>. \<open>seen\<close> is the run state with which the loop
  has left the lock, if it is between the two steps. \<open>vme_trace\<close> is what was written so far.
\<close>

record gr =
  status :: int
  mb :: cmd_msgbuf
  cmb :: cmd_msgbuf
  rpv_current_level :: "16 word"
  local_flag :: bool
  buf :: blk
  sbuf :: blk
  count :: int
  i_buf :: int
  p_buf :: nat
  strange_value_count :: int
  seen :: "int option"
  vme_trace :: "vme_op list"

definition emit :: "vme_op list \<Rightarrow> gr \<Rightarrow> gr" where
  "emit ops s = s\<lparr>vme_trace := vme_trace s @ ops\<rparr>"

text \<open>\<^verbatim>\<open>if(local_flag == 0) put_rb_data(rb, b);\<close>\<close>

definition put_data :: "blk \<Rightarrow> gr \<Rightarrow> gr" where
  "put_data b s = (if local_flag s then s else emit [RingPut b] s)"

text \<open>
  The byte swap of the run number in \<^verbatim>\<open>collect_cmd\<close>: the four bytes, as signed \<^verbatim>\<open>char\<close>, are joined by \<^verbatim>\<open>||\<close>.
\<close>

definition swap_run :: "32 word \<Rightarrow> 32 word" where
  "swap_run r =
     (let d0 = ucast (drop_bit 24 (r AND 0xff000000)) :: 8 word;
          d1 = ucast (drop_bit 16 (r AND 0xff0000)) :: 8 word;
          d2 = ucast (drop_bit 8 (r AND 0xff00)) :: 8 word;
          d3 = ucast (r AND 0xff) :: 8 word
      in if push_bit 24 (scast d1 :: 32 word) \<noteq> 0 \<or> push_bit 16 (scast d0 :: 32 word) \<noteq> 0 \<or>
            push_bit 8 (scast d3 :: 32 word) \<noteq> 0 \<or> (scast d2 :: 32 word) \<noteq> 0 then 1 else 0)"

definition int_of_char :: "char \<Rightarrow> int" where
  "int_of_char c = (let n = (of_char c :: int) in if n < 128 then n else n - 256)"

datatype cmd_result = Go gr | Exit0

text \<open>
  One command connection: \<open>None\<close> when the client closes it before sending anything, otherwise the contents of the
  message buffer after the read.
\<close>

definition collect_cmd :: "cmd_msgbuf option \<Rightarrow> gr \<Rightarrow> cmd_result" where
  "collect_cmd inp s =
     (case inp of
        None \<Rightarrow> Go s
      | Some m \<Rightarrow>
          let s1 = s\<lparr>mb := m\<lparr>cm_run := swap_run (cm_run m)\<rparr>\<rparr>;
              cmd = int_of_char (command m)
          in if GR_CMD_VALID cmd then
               if cmd = GR_CMD_START then Go (if status s1 = RUN_OFF then s1\<lparr>status := RUN_START\<rparr> else s1)
               else if cmd = GR_CMD_STOP then
                 Go (if status s1 = RUN_ON \<or> status s1 = RUN_START then s1\<lparr>status := RUN_STOP\<rparr> else s1)
               else if cmd = GR_CMD_EXIT then Exit0
               else Go s1
             else Go s1)"

section \<open>The read out loop\<close>

text \<open>What the hardware and the clock deliver during one iteration.\<close>

record hw =
  ff :: "16 word"
  ptr_test :: "nat \<Rightarrow> 16 word"
  ptr_get :: "nat \<Rightarrow> 16 word"
  mem :: "nat \<Rightarrow> nat \<Rightarrow> 16 word"
  gate :: "nat \<Rightarrow> nat \<Rightarrow> 32 word"
  now :: int

text \<open>The part under the lock: \<^verbatim>\<open>RUN_START\<close> becomes \<^verbatim>\<open>RUN_ON\<close> and \<^verbatim>\<open>RUN_STOP\<close> becomes \<^verbatim>\<open>RUN_OFF\<close>.\<close>

definition loop_lock :: "gr \<Rightarrow> gr" where
  "loop_lock s =
     (let s1 = s\<lparr>seen := Some (status s)\<rparr>
      in if status s = RUN_START then s1\<lparr>status := RUN_ON\<rparr>
         else if status s = RUN_STOP then s1\<lparr>status := RUN_OFF\<rparr>
         else s1)"

definition set_level :: "16 word \<times> vme_op list \<Rightarrow> gr \<Rightarrow> gr" where
  "set_level r s = emit (snd r) (s\<lparr>rpv_current_level := fst r\<rparr>)"

definition run_start :: "hw \<Rightarrow> gr \<Rightarrow> gr option" where
  "run_start h s =
     (case encode_run_start (now h) (buf s) BLK_BUF_SIZE (mb s) of
        None \<Rightarrow> None
      | Some (b, c) \<Rightarrow>
          let s1 = put_data b (s\<lparr>buf := b, cmb := c\<rparr>);
              s2 = s1\<lparr>buf := replicate BLK_BUF_SIZE 0, sbuf := replicate BLK_BUF_SIZE 0\<rparr>;
              s3 = emit (concat (map (\<lambda>i. LrmMem i 0 0 # lrm_ena i) [0 ..< MAX_LRM_NUM]) @ vts801_reset) s2;
              s4 = set_level (rpv_init (rpv_current_level s3)) s3;
              s5 = set_level (rpv_ena (rpv_current_level s4)) s4
          in Some s5)"

text \<open>\<^verbatim>\<open>lrm_word = lrm_get2(lrm[i],buf,BLK_BUF_SIZE); for(j=lrm_word; ...) buf[j] = 0;\<close>\<close>

definition get_lrm :: "hw \<Rightarrow> nat \<Rightarrow> gr \<Rightarrow> gr" where
  "get_lrm h i s =
     (case lrm_get2 (ptr_get h i) (mem h i) (buf s) BLK_BUF_SIZE of
        (w, b) \<Rightarrow> s\<lparr>buf := zero_fill (unat w) BLK_BUF_SIZE b\<rparr>)"

text \<open>The bodies of the three loops over the memories.\<close>

definition single_lrm :: "hw \<Rightarrow> nat \<Rightarrow> gr \<Rightarrow> gr" where
  "single_lrm h i s =
     (if unat (ptr_test h i) > 0 then
        let s1 = get_lrm h i (emit (lrm_dis i) s)
        in emit (lrm_reset i @ lrm_ena i) (put_data (buf s1) s1)
      else emit (lrm_reset i) s)"

definition double_lrm :: "hw \<Rightarrow> nat \<Rightarrow> gr \<Rightarrow> gr" where
  "double_lrm h i s =
     (if unat (ptr_test h i) > 0 then
        let s1 = get_lrm h i (emit (lrm_dis i) s)
        in emit (lrm_reset i @ lrm_ena i) (put_data (buf s1) s1)
      else s)"

definition stop_lrm :: "hw \<Rightarrow> nat \<Rightarrow> gr \<Rightarrow> gr" where
  "stop_lrm h i s =
     (if unat (ptr_test h i) > 0 then
        let s1 = emit (lrm_reset i @ lrm_ena i) (get_lrm h i (emit (lrm_dis i) s))
        in (put_data (buf s1) s1)\<lparr>buf := replicate BLK_BUF_SIZE 0\<rparr>
      else s)"

text \<open>\<^verbatim>\<open>for(i=a; i<MAX_LRM_NUM; i+=2)\<close>\<close>

definition every_other :: "nat \<Rightarrow> nat list" where
  "every_other a = filter (\<lambda>i. even (i - a)) [a ..< MAX_LRM_NUM]"

definition read_scaler :: "hw \<Rightarrow> gr \<Rightarrow> gr" where
  "read_scaler h s =
     (let b = snd (vts801_read (gate h) (sbuf s))
      in put_data b (emit vts801_reset (s\<lparr>sbuf := b\<rparr>)))"

definition TOGGLE_BUF :: "nat \<Rightarrow> nat" where
  "TOGGLE_BUF a = a XOR 1"

definition single_ovf :: "hw \<Rightarrow> gr \<Rightarrow> gr option" where
  "single_ovf h s =
     (let s1 = read_scaler h (s\<lparr>count := count s + 1\<rparr>);
          k = nat (i_buf s1 - 1);
          s2 = fold (single_lrm h) (every_other k) s1;
          s3 = s2\<lparr>p_buf := k\<rparr>
      in map_option (\<lambda>r. set_level r s3) (rpv_ena_buf (i_buf s3) (rpv_current_level s3)))"

definition double_pass :: "hw \<Rightarrow> gr \<Rightarrow> gr option" where
  "double_pass h s =
     (let s1 = s\<lparr>p_buf := TOGGLE_BUF (p_buf s), count := count s + 1\<rparr>;
          s2 = fold (double_lrm h) (every_other (p_buf s1)) s1
      in map_option (\<lambda>r. set_level r s2) (rpv_ena_buf (int (p_buf s2) + 1) (rpv_current_level s2)))"

definition double_ovf :: "hw \<Rightarrow> gr \<Rightarrow> gr option" where
  "double_ovf h s = Option.bind (double_pass h (read_scaler h s)) (double_pass h)"

definition veto_and_mask :: "gr \<Rightarrow> gr option" where
  "veto_and_mask s =
     (let s1 = set_level (rpv_dis (rpv_current_level s)) s;
          s2 = emit rpv_clr s1
      in map_option (\<lambda>r. let s3 = set_level r s2 in set_level (rpv_ena (rpv_current_level s3)) s3)
           (rpv_dis_buf (i_buf s2) (rpv_current_level s2)))"

definition run_on :: "hw \<Rightarrow> gr \<Rightarrow> gr option" where
  "run_on h s =
     (let i = uint (ff h AND 0x00ff);
          s1 = s\<lparr>i_buf := i, strange_value_count := strange_value_count s + (if 3 < i then 1 else 0)\<rparr>
      in if 0 < i \<and> i \<le> 3 then
           Option.bind (veto_and_mask s1) (if i = 1 \<or> i = 2 then single_ovf h else double_ovf h)
         else Some s1)"

definition run_stop :: "hw \<Rightarrow> gr \<Rightarrow> gr option" where
  "run_stop h s =
     (let s1 = set_level (rpv_dis (rpv_current_level s)) s;
          s2 = read_scaler h (s1\<lparr>count := count s1 + 1, p_buf := TOGGLE_BUF (p_buf s1)\<rparr>);
          s3 = fold (stop_lrm h) (every_other (p_buf s2)) s2
      in case encode_run_end (now h) (replicate BLK_BUF_SIZE 0) BLK_BUF_SIZE (cmb s3) of
           None \<Rightarrow> None
         | Some b \<Rightarrow> Some ((put_data b (s3\<lparr>buf := b\<rparr>))\<lparr>count := 0, i_buf := 1, p_buf := 1\<rparr>))"

definition loop_body :: "hw \<Rightarrow> gr \<Rightarrow> gr option" where
  "loop_body h s =
     (case seen s of
        None \<Rightarrow> None
      | Some st \<Rightarrow>
          let s1 = s\<lparr>seen := None\<rparr>
          in if st = RUN_START then run_start h s1
             else if st = RUN_ON then run_on h s1
             else if st = RUN_STOP then run_stop h s1
             else Some s1)"

text \<open>Initialisation of the modules before the loop.\<close>

definition collect_init :: "gr \<Rightarrow> gr" where
  "collect_init s =
     emit (concat (map lrm_reset [0 ..< MAX_LRM_NUM]) @ vts801_reset @ concat (map lrm_ena [0 ..< MAX_LRM_NUM]))
       (s\<lparr>count := 0, i_buf := 1, p_buf := 1, strange_value_count := 0\<rparr>)"

section \<open>What the parts of an iteration write\<close>

text \<open>The blocks a trace hands to the ring buffer.\<close>

fun ring_puts :: "vme_op list \<Rightarrow> blk list" where
  "ring_puts [] = []"
| "ring_puts (RingPut b # ops) = b # ring_puts ops"
| "ring_puts (_ # ops) = ring_puts ops"

lemma puts_append [simp]: "ring_puts (us @ vs) = ring_puts us @ ring_puts vs"
  by (induction us rule: ring_puts.induct) auto

definition put_ops :: "bool \<Rightarrow> blk \<Rightarrow> vme_op list" where
  "put_ops loc b = (if loc then [] else [RingPut b])"

definition gr_ok :: "gr \<Rightarrow> bool" where
  "gr_ok s \<longleftrightarrow> length (buf s) = BLK_BUF_SIZE \<and> length (sbuf s) = BLK_BUF_SIZE \<and> p_buf s < 2"

definition lrm_data :: "hw \<Rightarrow> nat \<Rightarrow> blk" where
  "lrm_data h i = lrm_block BLK_BUF_SIZE (ptr_get h i) (mem h i)"

definition single_ops :: "hw \<Rightarrow> bool \<Rightarrow> nat \<Rightarrow> vme_op list" where
  "single_ops h loc i =
     (if ptr_test h i = 0 then lrm_reset i
      else lrm_dis i @ put_ops loc (lrm_data h i) @ lrm_reset i @ lrm_ena i)"

definition double_ops :: "hw \<Rightarrow> bool \<Rightarrow> nat \<Rightarrow> vme_op list" where
  "double_ops h loc i =
     (if ptr_test h i = 0 then [] else lrm_dis i @ put_ops loc (lrm_data h i) @ lrm_reset i @ lrm_ena i)"

definition stop_ops :: "hw \<Rightarrow> bool \<Rightarrow> nat \<Rightarrow> vme_op list" where
  "stop_ops h loc i =
     (if ptr_test h i = 0 then [] else lrm_dis i @ lrm_reset i @ lrm_ena i @ put_ops loc (lrm_data h i))"

lemma BLK_BUF_SIZE_bounds: "BLK_BUF_SIZE < 2 ^ 16" "MAX_MSG + 15 \<le> BLK_BUF_SIZE" "132 \<le> BLK_BUF_SIZE"
  by (simp_all add: BLK_BUF_SIZE_def MAX_MSG_def)

lemma put_data_eq: "put_data b s = s\<lparr>vme_trace := vme_trace s @ put_ops (local_flag s) b\<rparr>"
  by (simp add: put_data_def put_ops_def emit_def)

lemma get_lrm_eq: "length (buf s) = BLK_BUF_SIZE \<Longrightarrow> get_lrm h i s = s\<lparr>buf := lrm_data h i\<rparr>"
  using lrm_get2_block [OF _ _ BLK_BUF_SIZE_bounds(1), of "ptr_get h i" "mem h i" "buf s"]
  by (simp add: get_lrm_def lrm_data_def split: prod.splits)

text \<open>One step of a loop over the memories changes the buffer and extends the trace, and nothing else.\<close>

definition writes :: "vme_op list \<Rightarrow> gr \<Rightarrow> gr \<Rightarrow> bool" where
  "writes ops s s' \<longleftrightarrow> (\<exists>b. length b = BLK_BUF_SIZE \<and> s' = s\<lparr>buf := b, vme_trace := vme_trace s @ ops\<rparr>)"

lemma unat_pos_iff: "0 < unat w \<longleftrightarrow> w \<noteq> 0"
  by (simp add: unat_gt_0)

lemma single_lrm_writes: "length (buf s) = BLK_BUF_SIZE \<Longrightarrow> writes (single_ops h (local_flag s) i) s (single_lrm h i s)"
  unfolding writes_def
  by (rule exI [of _ "if ptr_test h i = 0 then buf s else lrm_data h i"])
    (simp add: single_lrm_def single_ops_def get_lrm_eq put_data_eq emit_def unat_pos_iff Let_def lrm_data_def)

lemma double_lrm_writes: "length (buf s) = BLK_BUF_SIZE \<Longrightarrow> writes (double_ops h (local_flag s) i) s (double_lrm h i s)"
  unfolding writes_def
  by (rule exI [of _ "if ptr_test h i = 0 then buf s else lrm_data h i"])
    (simp add: double_lrm_def double_ops_def get_lrm_eq put_data_eq emit_def unat_pos_iff Let_def lrm_data_def)

lemma stop_lrm_writes: "length (buf s) = BLK_BUF_SIZE \<Longrightarrow> writes (stop_ops h (local_flag s) i) s (stop_lrm h i s)"
  unfolding writes_def
  by (rule exI [of _ "if ptr_test h i = 0 then buf s else replicate BLK_BUF_SIZE 0"])
    (simp add: stop_lrm_def stop_ops_def get_lrm_eq put_data_eq emit_def unat_pos_iff Let_def)

lemma writes_fold:
  assumes step: "\<And>i s. length (buf s) = BLK_BUF_SIZE \<Longrightarrow> writes (ops (local_flag s) i) s (f i s)"
    and "length (buf s) = BLK_BUF_SIZE"
  shows "writes (concat (map (ops (local_flag s)) is)) s (fold f is s)"
  using assms(2)
proof (induction "is" arbitrary: s)
  case Nil
  then show ?case by (auto simp: writes_def)
next
  case (Cons i "is")
  from step [OF Cons.prems, of i] obtain b where b: "length b = BLK_BUF_SIZE"
    "f i s = s\<lparr>buf := b, vme_trace := vme_trace s @ ops (local_flag s) i\<rparr>"
    by (auto simp: writes_def)
  with Cons.IH [of "f i s"] show ?case
    by (auto simp: writes_def)
qed

lemma single_fold:
  "length (buf s) = BLK_BUF_SIZE \<Longrightarrow> writes (concat (map (single_ops h (local_flag s)) is)) s (fold (single_lrm h) is s)"
  by (rule writes_fold) (rule single_lrm_writes)

lemma double_fold:
  "length (buf s) = BLK_BUF_SIZE \<Longrightarrow> writes (concat (map (double_ops h (local_flag s)) is)) s (fold (double_lrm h) is s)"
  by (rule writes_fold) (rule double_lrm_writes)

lemma stop_fold:
  "length (buf s) = BLK_BUF_SIZE \<Longrightarrow> writes (concat (map (stop_ops h (local_flag s)) is)) s (fold (stop_lrm h) is s)"
  by (rule writes_fold) (rule stop_lrm_writes)


definition scaler_data :: "hw \<Rightarrow> blk \<Rightarrow> blk" where
  "scaler_data h b = concat (map (\<lambda>i. vts_region (gate h i)) [0 ..< 4]) @ drop 132 b"

lemma length_scaler_data [simp]: "length b = BLK_BUF_SIZE \<Longrightarrow> length (scaler_data h b) = BLK_BUF_SIZE"
  using BLK_BUF_SIZE_bounds(3) by (simp add: scaler_data_def length_concat_regions)

lemma read_scaler_eq:
  "length (sbuf s) = BLK_BUF_SIZE \<Longrightarrow>
   read_scaler h s = s\<lparr>sbuf := scaler_data h (sbuf s),
                       vme_trace := vme_trace s @ vts801_reset @ put_ops (local_flag s) (scaler_data h (sbuf s))\<rparr>"
  using BLK_BUF_SIZE_bounds(3)
  by (simp add: read_scaler_def scaler_data_def vts801_read_eq put_data_eq emit_def Let_def)

text \<open>The output register: the bits of buffer 1, 2 or of both (3).\<close>

definition buf_bits :: "int \<Rightarrow> 16 word" where
  "buf_bits i = (if i = 1 then RPV_OREG_BUF1 else if i = 2 then RPV_OREG_BUF2 else RPV_OREG_BUF1 OR RPV_OREG_BUF2)"

lemma rpv_dis_buf_eq:
  "1 \<le> i \<Longrightarrow> i \<le> 3 \<Longrightarrow> rpv_dis_buf i lvl = Some (lvl AND NOT (buf_bits i), [RpvLevel (lvl AND NOT (buf_bits i))])"
  by (auto simp: rpv_dis_buf_def buf_bits_def Let_def)

lemma rpv_ena_buf_eq:
  "1 \<le> i \<Longrightarrow> i \<le> 3 \<Longrightarrow> rpv_ena_buf i lvl = Some (lvl OR buf_bits i, [RpvLevel (lvl OR buf_bits i)])"
  by (auto simp: rpv_ena_buf_def buf_bits_def Let_def)

definition masked :: "int \<Rightarrow> 16 word \<Rightarrow> 16 word" where
  "masked i lvl = ((lvl OR RPV_OREG_VETO) AND NOT (buf_bits i)) AND NOT RPV_OREG_VETO"

definition mask_ops :: "int \<Rightarrow> 16 word \<Rightarrow> vme_op list" where
  "mask_ops i lvl =
     [RpvLevel (lvl OR RPV_OREG_VETO), RpvCsr1 3, RpvCsr2 3, RpvLevel ((lvl OR RPV_OREG_VETO) AND NOT (buf_bits i)),
      RpvLevel (masked i lvl)]"

lemma veto_and_mask_eq:
  assumes "1 \<le> i_buf s" and "i_buf s \<le> 3"
  shows "veto_and_mask s =
    Some (s\<lparr>rpv_current_level := masked (i_buf s) (rpv_current_level s),
            vme_trace := vme_trace s @ mask_ops (i_buf s) (rpv_current_level s)\<rparr>)"
  using assms
  by (simp add: veto_and_mask_def set_level_def emit_def rpv_dis_def rpv_clr_def rpv_ena_def rpv_dis_buf_eq mask_ops_def masked_def Let_def)

lemma single_ovf_eq:
  assumes "gr_ok s" and i: "1 \<le> i_buf s" "i_buf s \<le> 2"
  shows "\<exists>b. length b = BLK_BUF_SIZE \<and> single_ovf h s =
    Some (s\<lparr>rpv_current_level := rpv_current_level s OR buf_bits (i_buf s), buf := b,
            sbuf := scaler_data h (sbuf s), count := count s + 1, p_buf := nat (i_buf s - 1),
            vme_trace := vme_trace s @ vts801_reset @ put_ops (local_flag s) (scaler_data h (sbuf s)) @
              concat (map (single_ops h (local_flag s)) (every_other (nat (i_buf s - 1)))) @
              [RpvLevel (rpv_current_level s OR buf_bits (i_buf s))]\<rparr>)"
proof -
  define s1 where "s1 = read_scaler h (s\<lparr>count := count s + 1\<rparr>)"
  have s1: "s1 = s\<lparr>count := count s + 1, sbuf := scaler_data h (sbuf s),
      vme_trace := vme_trace s @ vts801_reset @ put_ops (local_flag s) (scaler_data h (sbuf s))\<rparr>"
    using assms(1) by (simp add: s1_def read_scaler_eq gr_ok_def)
  have "length (buf s1) = BLK_BUF_SIZE"
    using assms(1) by (simp add: s1 gr_ok_def)
  from single_fold [OF this, of h "every_other (nat (i_buf s1 - 1))"] obtain b where
    "length b = BLK_BUF_SIZE" "fold (single_lrm h) (every_other (nat (i_buf s1 - 1))) s1
      = s1\<lparr>buf := b, vme_trace := vme_trace s1 @ concat (map (single_ops h (local_flag s1)) (every_other (nat (i_buf s1 - 1))))\<rparr>"
    by (auto simp: writes_def)
  then show ?thesis
    unfolding single_ovf_def s1_def [symmetric] Let_def using i
    by (intro exI [of _ b]) (simp add: s1 rpv_ena_buf_eq set_level_def emit_def)
qed

lemma double_pass_eq:
  assumes "gr_ok s"
  defines "q \<equiv> 1 - p_buf s"
  shows "\<exists>b. length b = BLK_BUF_SIZE \<and> double_pass h s =
    Some (s\<lparr>rpv_current_level := rpv_current_level s OR buf_bits (int q + 1), buf := b, count := count s + 1, p_buf := q,
            vme_trace := vme_trace s @ concat (map (double_ops h (local_flag s)) (every_other q)) @
              [RpvLevel (rpv_current_level s OR buf_bits (int q + 1))]\<rparr>)"
proof -
  have q: "TOGGLE_BUF (p_buf s) = q" "q < 2"
    using assms(1) less_2_cases [of "p_buf s"] by (auto simp: q_def TOGGLE_BUF_def gr_ok_def)
  have "length (buf (s\<lparr>p_buf := q, count := count s + 1\<rparr>)) = BLK_BUF_SIZE"
    using assms(1) by (simp add: gr_ok_def)
  from double_fold [OF this, of h "every_other q"] obtain b where
    "length b = BLK_BUF_SIZE" "fold (double_lrm h) (every_other q) (s\<lparr>p_buf := q, count := count s + 1\<rparr>)
      = s\<lparr>p_buf := q, count := count s + 1, buf := b, vme_trace := vme_trace s @ concat (map (double_ops h (local_flag s)) (every_other q))\<rparr>"
    by (auto simp: writes_def)
  then show ?thesis
    unfolding double_pass_def q(1) Let_def using q(2)
    by (intro exI [of _ b]) (simp add: rpv_ena_buf_eq set_level_def emit_def)
qed

section \<open>Read out under protection\<close>

text \<open>
  The memories of even index belong to buffer 1, those of odd index to buffer 2. A memory may be switched from the front
  end to VME access when the veto is on or its buffer is taken out of the output register. \<open>guarded l ops\<close> checks
  this for a trace that starts with the level \<open>l\<close>.
\<close>

definition lrm_safe :: "16 word \<Rightarrow> nat \<Rightarrow> bool" where
  "lrm_safe l i \<longleftrightarrow> l AND RPV_OREG_VETO \<noteq> 0 \<or> l AND (if even i then RPV_OREG_BUF1 else RPV_OREG_BUF2) = 0"

fun guarded :: "16 word \<Rightarrow> vme_op list \<Rightarrow> bool" where
  "guarded l [] = True"
| "guarded l (RpvLevel w # ops) = guarded w ops"
| "guarded l (LrmEnable i e # ops) = ((e = LRM_VME_ENA \<longrightarrow> lrm_safe l i) \<and> guarded l ops)"
| "guarded l (_ # ops) = guarded l ops"

lemma guarded_lrm_ops:
  assumes "lrm_safe l i"
  shows "guarded l (single_ops h loc i @ ops) = guarded l ops" "guarded l (double_ops h loc i @ ops) = guarded l ops"
    "guarded l (stop_ops h loc i @ ops) = guarded l ops"
  using assms
  by (simp_all add: single_ops_def double_ops_def stop_ops_def lrm_dis_def lrm_ena_def lrm_reset_def put_ops_def
      LRM_FFP_ENA_def LRM_VME_ENA_def)

lemma guarded_lrm_loop:
  assumes "\<And>i. i \<in> set is \<Longrightarrow> lrm_safe l i"
  shows "guarded l (concat (map (single_ops h loc) is) @ ops) = guarded l ops"
    "guarded l (concat (map (double_ops h loc) is) @ ops) = guarded l ops"
    "guarded l (concat (map (stop_ops h loc) is) @ ops) = guarded l ops"
  using assms by (induction "is") (simp_all add: guarded_lrm_ops)

lemma guarded_put_ops [simp]: "guarded l (put_ops loc b @ ops) = guarded l ops" "guarded l (put_ops loc b)"
  "guarded l (vts801_reset @ ops) = guarded l ops"
  by (simp_all add: put_ops_def vts801_reset_def)

lemma puts_put_ops [simp]: "ring_puts (put_ops False b) = [b]" "ring_puts vts801_reset = []" "ring_puts (mask_ops i l) = []"
  by (simp_all add: put_ops_def vts801_reset_def mask_ops_def)

lemma every_other_parity: "i \<in> set (every_other a) \<Longrightarrow> even i = even a"
  by (auto simp: every_other_def)

text \<open>Which level protects which buffer.\<close>

lemma buf_bits_simps [simp]:
  "buf_bits 1 = RPV_OREG_BUF1" "buf_bits 2 = RPV_OREG_BUF2" "buf_bits 3 = RPV_OREG_BUF1 OR RPV_OREG_BUF2"
  by (simp_all add: buf_bits_def)

lemma masked_and: "masked i l AND buf_bits i = 0"
  unfolding masked_def by (rule bit_word_eqI) (auto simp: bit_simps)

lemma masked_both_and: "masked 3 l AND RPV_OREG_BUF1 = 0" "masked 3 l AND RPV_OREG_BUF2 = 0"
  unfolding masked_def buf_bits_simps by (rule bit_word_eqI, auto simp: bit_simps)+

lemma buf_bits_disjoint: "RPV_OREG_BUF1 AND RPV_OREG_BUF2 = 0" "RPV_OREG_BUF2 AND RPV_OREG_BUF1 = 0"
  by (simp_all add: RPV_OREG_BUF1_def RPV_OREG_BUF2_def)

lemma safe_masked_single: "i = 1 \<or> i = 2 \<Longrightarrow> k \<in> set (every_other (nat (i - 1))) \<Longrightarrow> lrm_safe (masked i l) k"
  using every_other_parity [of k "nat (i - 1)"] masked_and [of i l] by (auto simp: lrm_safe_def)

lemma safe_masked_both: "lrm_safe (masked 3 l) k"
  using masked_both_and by (simp add: lrm_safe_def)

lemma safe_masked_other:
  assumes "q < 2" and "k \<in> set (every_other (1 - q))"
  shows "lrm_safe (masked 3 l OR buf_bits (int q + 1)) k"
  using every_other_parity [OF assms(2)] less_2_cases [OF assms(1)]
  by (auto simp: lrm_safe_def bit.conj_disj_distrib2 masked_both_and buf_bits_disjoint)

lemma safe_veto: "lrm_safe (l OR RPV_OREG_VETO) k"
proof -
  have "(l OR RPV_OREG_VETO) AND RPV_OREG_VETO = RPV_OREG_VETO"
    by (rule bit_word_eqI) (auto simp: bit_simps)
  then show ?thesis
    by (simp add: lrm_safe_def RPV_OREG_VETO_def)
qed

text \<open>The level of a running data acquisition: both buffers in, no veto. A whole read out comes back to it.\<close>

definition running_level :: "16 word" where
  "running_level = RPV_OREG_BUF1 OR RPV_OREG_BUF2"

lemma running_level_restored:
  "i = 1 \<or> i = 2 \<Longrightarrow> masked i running_level OR buf_bits i = running_level"
  "q < 2 \<Longrightarrow> (masked 3 running_level OR buf_bits (int q + 1)) OR buf_bits (int (1 - q) + 1) = running_level"
  by (auto simp: masked_def buf_bits_def running_level_def RPV_OREG_BUF1_def RPV_OREG_BUF2_def RPV_OREG_VETO_def less_2_cases_iff)

definition data_blocks :: "hw \<Rightarrow> nat list \<Rightarrow> blk list" where
  "data_blocks h is = map (lrm_data h) (filter (\<lambda>i. ptr_test h i \<noteq> 0) is)"

lemma puts_lrm_loop:
  "ring_puts (concat (map (single_ops h False) is)) = data_blocks h is"
  "ring_puts (concat (map (double_ops h False) is)) = data_blocks h is"
  "ring_puts (concat (map (stop_ops h False) is)) = data_blocks h is"
  by (induction "is")
    (simp_all add: data_blocks_def single_ops_def double_ops_def stop_ops_def lrm_dis_def lrm_ena_def lrm_reset_def put_ops_def)

section \<open>The phases of the loop\<close>

text \<open>What an overflow, seen as 1, 2 or 3 in the input register, hands to the ring buffer.\<close>

definition on_blocks :: "hw \<Rightarrow> gr \<Rightarrow> blk list" where
  "on_blocks h s =
     (let i = uint (ff h AND 0x00ff)
      in if i = 1 \<or> i = 2 then scaler_data h (sbuf s) # data_blocks h (every_other (nat (i - 1)))
         else if i = 3 then scaler_data h (sbuf s) # data_blocks h (every_other (1 - p_buf s)) @ data_blocks h (every_other (p_buf s))
         else [])"

definition same_run :: "gr \<Rightarrow> gr \<Rightarrow> bool" where
  "same_run s s' \<longleftrightarrow> status s' = status s \<and> mb s' = mb s \<and> local_flag s' = local_flag s \<and> seen s' = seen s"

lemma run_on_single:
  assumes "gr_ok s" and i: "uint (ff h AND 0x00ff) = i" "i = 1 \<or> i = 2"
  shows "\<exists>s' ops. run_on h s = Some s' \<and> gr_ok s' \<and> same_run s s' \<and> cmb s' = cmb s \<and> vme_trace s' = vme_trace s @ ops \<and>
     (\<not> local_flag s \<longrightarrow> ring_puts ops = on_blocks h s) \<and> p_buf s' = nat (i - 1) \<and> (\<forall>rest. guarded (rpv_current_level s) (ops @ rest) = guarded (rpv_current_level s') rest) \<and>
     rpv_current_level s' = masked i (rpv_current_level s) OR buf_bits i"
proof -
  define s1 where "s1 = s\<lparr>i_buf := i\<rparr>"
  define s2 where "s2 = s1\<lparr>rpv_current_level := masked i (rpv_current_level s), vme_trace := vme_trace s @ mask_ops i (rpv_current_level s)\<rparr>"
  have v: "veto_and_mask s1 = Some s2"
    using i(2) veto_and_mask_eq [of s1] by (auto simp: s1_def s2_def)
  have ok: "gr_ok s2" "i_buf s2 = i"
    using assms(1) by (simp_all add: s2_def s1_def gr_ok_def)
  then obtain b where b: "length b = BLK_BUF_SIZE" "single_ovf h s2 =
    Some (s2\<lparr>rpv_current_level := rpv_current_level s2 OR buf_bits i, buf := b,
            sbuf := scaler_data h (sbuf s2), count := count s2 + 1, p_buf := nat (i - 1),
            vme_trace := vme_trace s2 @ vts801_reset @ put_ops (local_flag s2) (scaler_data h (sbuf s2)) @
              concat (map (single_ops h (local_flag s2)) (every_other (nat (i - 1)))) @
              [RpvLevel (rpv_current_level s2 OR buf_bits i)]\<rparr>)"
    using single_ovf_eq [of s2 h] i(2) by auto
  have on: "run_on h s = single_ovf h s2"
    using i(2) v by (auto simp: run_on_def i(1) s1_def)
  have g: "guarded (rpv_current_level s) (mask_ops i (rpv_current_level s) @ ops) = guarded (masked i (rpv_current_level s)) ops" for ops
    by (simp add: mask_ops_def)
  show ?thesis
    unfolding on b(2) using assms(1) b(1) i(2)
    by (auto simp: s2_def s1_def gr_ok_def same_run_def g guarded_lrm_loop(1) [OF safe_masked_single] on_blocks_def i(1)
        puts_lrm_loop)
qed

lemma run_on_double:
  assumes "gr_ok s" and i: "uint (ff h AND 0x00ff) = 3"
  shows "\<exists>s' ops. run_on h s = Some s' \<and> gr_ok s' \<and> same_run s s' \<and> cmb s' = cmb s \<and> vme_trace s' = vme_trace s @ ops \<and>
     (\<not> local_flag s \<longrightarrow> ring_puts ops = on_blocks h s) \<and> p_buf s' = p_buf s \<and> (\<forall>rest. guarded (rpv_current_level s) (ops @ rest) = guarded (rpv_current_level s') rest) \<and>
     rpv_current_level s' = (masked 3 (rpv_current_level s) OR buf_bits (int (1 - p_buf s) + 1)) OR buf_bits (int (p_buf s) + 1)"
proof -
  define l where "l = masked 3 (rpv_current_level s)"
  define q where "q = 1 - p_buf s"
  have p: "p_buf s < 2" "q < 2" "1 - q = p_buf s"
    using assms(1) by (auto simp: gr_ok_def q_def)
  define s1 where "s1 = s\<lparr>i_buf := 3\<rparr>"
  define s2 where "s2 = s1\<lparr>rpv_current_level := l, vme_trace := vme_trace s @ mask_ops 3 (rpv_current_level s)\<rparr>"
  have v: "veto_and_mask s1 = Some s2"
    using veto_and_mask_eq [of s1] by (auto simp: s1_def s2_def l_def)
  define s3 where "s3 = read_scaler h s2"
  have s3: "s3 = s2\<lparr>sbuf := scaler_data h (sbuf s),
      vme_trace := vme_trace s2 @ vts801_reset @ put_ops (local_flag s) (scaler_data h (sbuf s))\<rparr>"
    using assms(1) by (simp add: s3_def read_scaler_eq gr_ok_def s2_def s1_def)
  have "gr_ok s3" "p_buf s3 = p_buf s" "rpv_current_level s3 = l" "local_flag s3 = local_flag s"
    using assms(1) by (simp_all add: s3 s2_def s1_def gr_ok_def)
  with double_pass_eq [of s3 h] obtain b where b: "length b = BLK_BUF_SIZE" "double_pass h s3 =
    Some (s3\<lparr>rpv_current_level := l OR buf_bits (int q + 1), buf := b, count := count s3 + 1, p_buf := q,
            vme_trace := vme_trace s3 @ concat (map (double_ops h (local_flag s)) (every_other q)) @
              [RpvLevel (l OR buf_bits (int q + 1))]\<rparr>)" (is "_ = Some ?s4")
    by (auto simp: q_def)
  have "gr_ok ?s4" "1 - p_buf ?s4 = p_buf s"
    using assms(1) b(1) p by (simp_all add: s3 s2_def s1_def gr_ok_def)
  with double_pass_eq [of ?s4 h] obtain b' where b': "length b' = BLK_BUF_SIZE" "double_pass h ?s4 =
    Some (?s4\<lparr>rpv_current_level := (l OR buf_bits (int q + 1)) OR buf_bits (int (p_buf s) + 1), buf := b', count := count ?s4 + 1,
       p_buf := p_buf s, vme_trace := vme_trace ?s4 @ concat (map (double_ops h (local_flag s)) (every_other (p_buf s))) @
              [RpvLevel ((l OR buf_bits (int q + 1)) OR buf_bits (int (p_buf s) + 1))]\<rparr>)"
    by (auto simp: s3 s2_def s1_def)
  have on: "run_on h s = Option.bind (double_pass h s3) (double_pass h)"
    using v by (simp add: run_on_def i s1_def double_ovf_def s3_def)
  have g: "guarded (rpv_current_level s) (mask_ops 3 (rpv_current_level s) @ ops) = guarded l ops" for ops
    by (simp add: mask_ops_def l_def)
  have safe: "k \<in> set (every_other (p_buf s)) \<Longrightarrow> lrm_safe (l OR buf_bits (int q + 1)) k" for k
    using safe_masked_other [OF p(2)] p(3) by (simp add: l_def)
  have safe2: "lrm_safe l k" for k
    by (simp add: l_def safe_masked_both)
  show ?thesis
    unfolding on b(2) b'(2) Option.bind.simps on_blocks_def i l_def [symmetric] q_def [symmetric] using assms(1) b'(1) p
    by (auto simp: s3 s2_def s1_def gr_ok_def same_run_def g guarded_lrm_loop(2) [OF safe2] guarded_lrm_loop(2) [OF safe] puts_lrm_loop)
qed

lemma run_stop_eq:
  assumes "gr_ok s" and z: "CHR 0x00 \<in> set (take MAX_MSG (comment (cmb s)))"
  shows "\<exists>s' ops. run_stop h s = Some s' \<and> gr_ok s' \<and> same_run s s' \<and> cmb s' = cmb s \<and> vme_trace s' = vme_trace s @ ops \<and>
     (\<not> local_flag s \<longrightarrow> ring_puts ops = scaler_data h (sbuf s) # data_blocks h (every_other (1 - p_buf s)) @
        [run_block BLK_HEADER_END (now h) BLK_BUF_SIZE (cmb s)]) \<and>
     (\<forall>rest. guarded (rpv_current_level s) (ops @ rest) = guarded (rpv_current_level s') rest) \<and> rpv_current_level s' = rpv_current_level s OR RPV_OREG_VETO \<and>
     p_buf s' = 1 \<and> i_buf s' = 1 \<and> count s' = 0"
proof -
  define l where "l = rpv_current_level s OR RPV_OREG_VETO"
  define q where "q = 1 - p_buf s"
  have q: "TOGGLE_BUF (p_buf s) = q"
    using assms(1) less_2_cases [of "p_buf s"] by (auto simp: q_def TOGGLE_BUF_def gr_ok_def)
  define s1 where "s1 = set_level (rpv_dis (rpv_current_level s)) s"
  define s2 where "s2 = read_scaler h (s1\<lparr>count := count s1 + 1, p_buf := TOGGLE_BUF (p_buf s1)\<rparr>)"
  have s1: "s1 = s\<lparr>rpv_current_level := l, vme_trace := vme_trace s @ [RpvLevel l]\<rparr>"
    by (simp add: s1_def set_level_def rpv_dis_def emit_def Let_def l_def)
  have s2: "s2 = s1\<lparr>count := count s1 + 1, p_buf := q, sbuf := scaler_data h (sbuf s),
      vme_trace := vme_trace s @ [RpvLevel l] @ vts801_reset @ put_ops (local_flag s) (scaler_data h (sbuf s))\<rparr>"
    using assms(1) by (simp add: s2_def read_scaler_eq gr_ok_def s1 q)
  have "length (buf s2) = BLK_BUF_SIZE" "p_buf s2 = q" "local_flag s2 = local_flag s"
    using assms(1) by (simp_all add: s2 s1 gr_ok_def)
  with stop_fold [of s2 h "every_other q"] obtain b where b: "length b = BLK_BUF_SIZE"
    "fold (stop_lrm h) (every_other (p_buf s2)) s2
     = s2\<lparr>buf := b, vme_trace := vme_trace s2 @ concat (map (stop_ops h (local_flag s)) (every_other q))\<rparr>" (is "_ = ?s3")
    by (auto simp: writes_def)
  have c: "cmb ?s3 = cmb s"
    by (simp add: s2 s1)
  have e: "encode_run_end (now h) (replicate BLK_BUF_SIZE 0) BLK_BUF_SIZE (cmb s) = Some (run_block BLK_HEADER_END (now h) BLK_BUF_SIZE (cmb s))"
    unfolding encode_run_end_def by (rule encode_info_eq [OF _ BLK_BUF_SIZE_bounds(2) z]) simp
  have len: "length (run_block BLK_HEADER_END (now h) BLK_BUF_SIZE (cmb s)) = BLK_BUF_SIZE"
    by (rule length_run_block) (rule BLK_BUF_SIZE_bounds(2))
  have st: "run_stop h s = Some ((put_data (run_block BLK_HEADER_END (now h) BLK_BUF_SIZE (cmb s))
      (?s3\<lparr>buf := run_block BLK_HEADER_END (now h) BLK_BUF_SIZE (cmb s)\<rparr>))\<lparr>count := 0, i_buf := 1, p_buf := 1\<rparr>)"
    unfolding run_stop_def s1_def [symmetric] Let_def s2_def [symmetric] b(2) c e by simp
  have safe: "lrm_safe l k" for k
    by (simp add: l_def safe_veto)
  show ?thesis
    unfolding st l_def [symmetric] q_def [symmetric] using assms(1) len
    by (auto simp: put_data_eq s2 s1 gr_ok_def same_run_def guarded_lrm_loop(3) [OF safe] puts_lrm_loop)
qed

lemma guarded_start_ops:
  "guarded l (concat (map (\<lambda>i. LrmMem i 0 0 # lrm_ena i) is) @ ops) = guarded l ops"
  "ring_puts (concat (map (\<lambda>i. LrmMem i 0 0 # lrm_ena i) is)) = []"
  by (induction "is") (simp_all add: lrm_ena_def LRM_FFP_ENA_def LRM_VME_ENA_def)

lemma run_start_eq:
  assumes "gr_ok s" and z: "CHR 0x00 \<in> set (take MAX_MSG (comment (mb s)))"
  shows "\<exists>s' ops. run_start h s = Some s' \<and> gr_ok s' \<and> same_run s s' \<and> cmb s' = mb s \<and> vme_trace s' = vme_trace s @ ops \<and>
     (\<not> local_flag s \<longrightarrow> ring_puts ops = [run_block BLK_HEADER_START (now h) BLK_BUF_SIZE (mb s)]) \<and>
     (\<forall>rest. guarded (rpv_current_level s) (ops @ rest) = guarded (rpv_current_level s') rest) \<and>
     rpv_current_level s' = running_level \<and> p_buf s' = p_buf s"
proof -
  have e: "encode_run_start (now h) (buf s) BLK_BUF_SIZE (mb s) = Some (run_block BLK_HEADER_START (now h) BLK_BUF_SIZE (mb s), mb s)"
    unfolding encode_run_start_def using assms(1)
    by (subst encode_info_eq [OF _ BLK_BUF_SIZE_bounds(2) z]) (simp_all add: gr_ok_def)
  have l: "(RPV_OREG_VETO OR RPV_OREG_BUF1 OR RPV_OREG_BUF2) AND NOT RPV_OREG_VETO = running_level"
    by (simp add: RPV_OREG_VETO_def RPV_OREG_BUF1_def RPV_OREG_BUF2_def running_level_def)
  show ?thesis
    unfolding run_start_def e using assms(1)
    by (auto simp: put_data_eq emit_def set_level_def rpv_init_def rpv_ena_def Let_def l gr_ok_def same_run_def guarded_start_ops)
qed

end
