(* ===== verification/GR_Runs.thy ===== *)
theory GR_Runs
  imports GR_Collect
begin

text \<open>
  The threads of the Grand Raiden collector together: command connections and the two steps of the read out loop in any
  order (\<open>gr_run\<close>), the invariant that every one of them keeps, the run protocol as an abstract automaton, and the properties
  of the collector.
\<close>

section \<open>The threads together\<close>

definition has_nul :: "cmd_msgbuf \<Rightarrow> bool" where
  "has_nul m \<longleftrightarrow> CHR 0x00 \<in> set (take MAX_MSG (comment m))"

text \<open>
  Runs of the threads from a state \<open>s0\<close>: commands come in at any time, between the two steps of an iteration too, with
  whatever they contain: the client fills in the comment of \<^verbatim>\<open>start\<close> only. The list has one entry for every iteration:
  the run state it saw, what the hardware delivered and the blocks it gave to the ring buffer.
\<close>

inductive gr_run :: "gr \<Rightarrow> (int \<times> hw \<times> blk list) list \<Rightarrow> gr \<Rightarrow> bool" for s0 :: gr where
  start: "gr_run s0 [] s0"
| cmd: "gr_run s0 ps s \<Longrightarrow> collect_cmd inp s = Go s' \<Longrightarrow> gr_run s0 ps s'"
| lock: "gr_run s0 ps s \<Longrightarrow> seen s = None \<Longrightarrow> gr_run s0 ps (loop_lock s)"
| body: "gr_run s0 ps s \<Longrightarrow> seen s = Some st \<Longrightarrow> loop_body h s = Some s' \<Longrightarrow>
    gr_run s0 (ps @ [(st, h, ring_puts (drop (length (vme_trace s)) (vme_trace s')))]) s'"

text \<open>
  The abstract run protocol: outside a run the loop may idle, start a run or end an empty one; inside a run it takes data
  until the run ends.
\<close>

fun run_next :: "bool \<Rightarrow> int \<Rightarrow> bool option" where
  "run_next r st =
     (if r then (if st = RUN_ON then Some True else if st = RUN_STOP then Some False else None)
      else if st = RUN_START then Some True
      else if st = RUN_STOP \<or> st = RUN_OFF then Some False else None)"

fun run_protocol :: "bool \<Rightarrow> int list \<Rightarrow> bool option" where
  "run_protocol r [] = Some r"
| "run_protocol r (st # ps) = Option.bind (run_next r st) (\<lambda>r'. run_protocol r' ps)"

lemma run_protocol_snoc: "run_protocol r (ps @ [st]) = Option.bind (run_protocol r ps) (\<lambda>r'. run_next r' st)"
  by (induction ps arbitrary: r) (auto split: bind_splits)

definition status_fits :: "bool \<Rightarrow> int \<Rightarrow> bool" where
  "status_fits r st \<longleftrightarrow> (if r then st = RUN_ON \<or> st = RUN_STOP else st = RUN_OFF \<or> st = RUN_START \<or> st = RUN_STOP)"

definition gr_inv :: "bool \<Rightarrow> gr \<Rightarrow> bool" where
  "gr_inv r s \<longleftrightarrow> gr_ok s \<and> has_nul (cmb s) \<and> (r \<longrightarrow> rpv_current_level s = running_level) \<and>
     (\<forall>rest. guarded 0 (vme_trace s @ rest) = guarded (rpv_current_level s) rest) \<and>
     (case seen s of None \<Rightarrow> status_fits r (status s)
      | Some st \<Rightarrow> (\<exists>r'. run_next r st = Some r' \<and> status_fits r' (status s)))"

text \<open>The state when \<^verbatim>\<open>main\<close> has started the read out thread: static variables are zero, the buffers on the stack have any contents.\<close>

definition zero_msg :: cmd_msgbuf where
  "zero_msg = \<lparr>cm_type = 0, command = CHR 0x00, cm_run = 0, comment = replicate MAX_MSG CHR 0x00\<rparr>"

definition gr_boot :: "bool \<Rightarrow> blk \<Rightarrow> blk \<Rightarrow> gr" where
  "gr_boot loc b sb = collect_init
     \<lparr>status = RUN_OFF, mb = zero_msg, cmb = zero_msg, rpv_current_level = 0, local_flag = loc, buf = b, sbuf = sb,
      count = 0, i_buf = 1, p_buf = 1, strange_value_count = 0, seen = None, vme_trace = []\<rparr>"

lemmas run_consts = RUN_STOP_def RUN_START_def RUN_OFF_def RUN_ON_def

lemma boot_ops:
  "guarded l (concat (map lrm_reset is) @ ops) = guarded l ops" "guarded l (concat (map lrm_ena is) @ ops) = guarded l ops"
  "ring_puts (concat (map lrm_reset is)) = []" "ring_puts (concat (map lrm_ena is)) = []"
  by (induction "is") (simp_all add: lrm_reset_def lrm_ena_def LRM_FFP_ENA_def LRM_VME_ENA_def)

lemma gr_boot_inv:
  assumes "length b = BLK_BUF_SIZE" and "length sb = BLK_BUF_SIZE"
  shows "gr_inv False (gr_boot loc b sb)"
  using assms
  by (simp add: gr_inv_def gr_boot_def collect_init_def emit_def gr_ok_def has_nul_def zero_msg_def status_fits_def boot_ops MAX_MSG_def)

lemma has_nul_run [simp]: "has_nul (m\<lparr>cm_run := x\<rparr>) = has_nul m"
  by (simp add: has_nul_def)

definition cmd_status :: "int \<Rightarrow> int \<Rightarrow> bool" where
  "cmd_status st st' \<longleftrightarrow> st' = st \<or> st = RUN_OFF \<and> st' = RUN_START \<or> (st = RUN_ON \<or> st = RUN_START) \<and> st' = RUN_STOP"

lemma collect_cmd_cases:
  assumes "collect_cmd inp s = Go s'"
  shows "s' = s \<or> (\<exists>m st. inp = Some m \<and> cmd_status (status s) st \<and>
     s' = s\<lparr>mb := m\<lparr>cm_run := swap_run (cm_run m)\<rparr>, status := st\<rparr>)"
proof (cases inp)
  case None
  with assms show ?thesis by (simp add: collect_cmd_def)
next
  case (Some m)
  then have "\<exists>st. cmd_status (status s) st \<and> s' = s\<lparr>mb := m\<lparr>cm_run := swap_run (cm_run m)\<rparr>, status := st\<rparr>"
    using assms
    by (intro exI [of _ "status s'"]) (auto simp: collect_cmd_def Let_def cmd_status_def split: if_splits)
  with Some show ?thesis by blast
qed

lemma status_fits_cmd: "status_fits r st \<Longrightarrow> cmd_status st st' \<Longrightarrow> status_fits r st'"
  by (auto simp: status_fits_def cmd_status_def run_consts split: if_splits)

lemma collect_cmd_inv:
  assumes "gr_inv r s" and "collect_cmd inp s = Go s'"
  shows "gr_inv r s'"
  using collect_cmd_cases [OF assms(2)] assms(1)
  by (auto simp: gr_inv_def gr_ok_def simp del: run_next.simps split: option.splits intro: status_fits_cmd)

lemma loop_lock_inv:
  assumes "gr_inv r s" and "seen s = None"
  shows "gr_inv r (loop_lock s)"
  using assms
  by (auto simp: gr_inv_def loop_lock_def gr_ok_def status_fits_def Let_def run_consts split: if_splits)

text \<open>What one iteration gives to the ring buffer.\<close>

definition phase_blocks :: "hw \<Rightarrow> int \<Rightarrow> gr \<Rightarrow> blk list" where
  "phase_blocks h st s =
     (if st = RUN_START then [run_block BLK_HEADER_START (now h) BLK_BUF_SIZE (mb s)]
      else if st = RUN_ON then on_blocks h s
      else if st = RUN_STOP then scaler_data h (sbuf s) # data_blocks h (every_other (1 - p_buf s)) @
        [run_block BLK_HEADER_END (now h) BLK_BUF_SIZE (cmb s)]
      else [])"

lemma run_on_quiet:
  assumes "gr_ok s" and i: "\<not> (0 < uint (ff h AND 0x00ff) \<and> uint (ff h AND 0x00ff) \<le> 3)"
  shows "\<exists>s'. run_on h s = Some s' \<and> gr_ok s' \<and> same_run s s' \<and> cmb s' = cmb s \<and> vme_trace s' = vme_trace s \<and>
     on_blocks h s = [] \<and> p_buf s' = p_buf s \<and> rpv_current_level s' = rpv_current_level s"
  using assms by (auto simp: run_on_def Let_def gr_ok_def same_run_def on_blocks_def)

lemma run_on_eq:
  assumes "gr_ok s"
  shows "\<exists>s' ops. run_on h s = Some s' \<and> gr_ok s' \<and> same_run s s' \<and> cmb s' = cmb s \<and> vme_trace s' = vme_trace s @ ops \<and>
     (\<not> local_flag s \<longrightarrow> ring_puts ops = on_blocks h s) \<and>
     (\<forall>rest. guarded (rpv_current_level s) (ops @ rest) = guarded (rpv_current_level s') rest) \<and>
     (rpv_current_level s = running_level \<longrightarrow> rpv_current_level s' = running_level)"
proof -
  have "0 \<le> uint (ff h AND 0x00ff)" by simp
  then consider "uint (ff h AND 0x00ff) = 1 \<or> uint (ff h AND 0x00ff) = 2" | "uint (ff h AND 0x00ff) = 3"
    | "\<not> (0 < uint (ff h AND 0x00ff) \<and> uint (ff h AND 0x00ff) \<le> 3)"
    by linarith
  then show ?thesis
  proof cases
    case 1
    with run_on_single [OF assms refl 1] running_level_restored(1) [OF 1] show ?thesis by metis
  next
    case 2
    have p: "1 - p_buf s < 2" "1 - (1 - p_buf s) = p_buf s"
      using assms by (auto simp: gr_ok_def)
    from run_on_double [OF assms 2] running_level_restored(2) [OF p(1), unfolded p(2)] show ?thesis by metis
  next
    case 3
    with run_on_quiet [OF assms 3] show ?thesis by fastforce
  qed
qed

lemma phase_effect:
  assumes "gr_ok s" "st = RUN_START \<longrightarrow> has_nul (mb s)" "has_nul (cmb s)" and "seen s = Some st"
  shows "\<exists>s' ops. loop_body h s = Some s' \<and> gr_ok s' \<and> same_run (s\<lparr>seen := None\<rparr>) s' \<and>
     cmb s' = (if st = RUN_START then mb s else cmb s) \<and> vme_trace s' = vme_trace s @ ops \<and> (\<not> local_flag s \<longrightarrow> ring_puts ops = phase_blocks h st s) \<and>
     (\<forall>rest. guarded (rpv_current_level s) (ops @ rest) = guarded (rpv_current_level s') rest) \<and>
     (st = RUN_START \<or> (st = RUN_ON \<and> rpv_current_level s = running_level) \<longrightarrow> rpv_current_level s' = running_level)"
proof -
  let ?s = "s\<lparr>seen := None\<rparr>"
  have ok: "gr_ok ?s" "st = RUN_START \<Longrightarrow> CHR 0x00 \<in> set (take MAX_MSG (comment (mb ?s)))"
    "CHR 0x00 \<in> set (take MAX_MSG (comment (cmb ?s)))"
    using assms by (simp_all add: gr_ok_def has_nul_def)
  have on: "on_blocks h ?s = on_blocks h s"
    by (simp add: on_blocks_def Let_def)
  consider "st = RUN_START" | "st = RUN_ON" | "st = RUN_STOP" | "st \<noteq> RUN_START" "st \<noteq> RUN_ON" "st \<noteq> RUN_STOP"
    by blast
  then show ?thesis
  proof cases
    case 1
    with assms(4) have "loop_body h s = run_start h ?s" by (simp add: loop_body_def)
    with run_start_eq [OF ok(1) ok(2) [OF 1], of h] 1 show ?thesis by (auto simp: phase_blocks_def)
  next
    case 2
    with assms(4) have "loop_body h s = run_on h ?s" by (simp add: loop_body_def run_consts)
    with run_on_eq [OF ok(1), of h] 2 show ?thesis by (auto simp: phase_blocks_def run_consts on)
  next
    case 3
    with assms(4) have "loop_body h s = run_stop h ?s" by (simp add: loop_body_def run_consts)
    with run_stop_eq [OF ok(1,3), of h] 3 show ?thesis by (auto simp: phase_blocks_def run_consts)
  next
    case 4
    with assms(4) have "loop_body h s = Some ?s" by (simp add: loop_body_def)
    with ok(1) 4 show ?thesis by (intro exI [of _ ?s] exI [of _ "[]"]) (auto simp: phase_blocks_def same_run_def)
  qed
qed

text \<open>
  The second step fails in one case: the comment of the message of a run start has no terminating 0, and the unset
  index is used.
\<close>

lemma encode_info_unterminated: "\<not> has_nul m \<Longrightarrow> encode_info bid tm b n m = None"
proof -
  assume "\<not> has_nul m"
  then have "fst (copy_comment 0 (take MAX_MSG (comment m)) b') = None" for b'
    by (simp add: copy_comment_None has_nul_def)
  then show ?thesis
    unfolding encode_info_def Let_def by (metis (no_types, lifting) case_prod_conv option.case(1) prod.collapse)
qed

lemma run_start_unterminated: "\<not> has_nul (mb s) \<Longrightarrow> run_start h s = None"
  by (simp add: run_start_def encode_run_start_def encode_info_unterminated)

lemma loop_body_stuck:
  assumes "gr_inv r s" and "seen s = Some st"
  shows "loop_body h s = None \<longleftrightarrow> st = RUN_START \<and> \<not> has_nul (mb s)"
proof (cases "st = RUN_START \<and> \<not> has_nul (mb s)")
  case True
  with assms(2) run_start_unterminated [of "s\<lparr>seen := None\<rparr>" h] show ?thesis
    by (simp add: loop_body_def has_nul_def)
next
  case False
  with assms phase_effect [of s st h] show ?thesis
    by (auto simp: gr_inv_def simp del: run_next.simps)
qed

lemma loop_body_inv:
  assumes inv: "gr_inv r s" and st: "seen s = Some st" and b: "loop_body h s \<noteq> None"
  shows "\<exists>s' ops r'. loop_body h s = Some s' \<and> run_next r st = Some r' \<and> gr_inv r' s' \<and> vme_trace s' = vme_trace s @ ops \<and>
     local_flag s' = local_flag s \<and> (\<not> local_flag s \<longrightarrow> ring_puts ops = phase_blocks h st s)"
proof -
  have n: "st = RUN_START \<longrightarrow> has_nul (mb s)"
    using loop_body_stuck [OF inv st, of h] b by blast
  from inv st obtain r' where r: "run_next r st = Some r'" "status_fits r' (status s)"
    by (auto simp: gr_inv_def simp del: run_next.simps)
  from inv st n phase_effect [of s st h] obtain s' ops where s': "loop_body h s = Some s'" "gr_ok s'" "same_run (s\<lparr>seen := None\<rparr>) s'"
    "cmb s' = (if st = RUN_START then mb s else cmb s)" "vme_trace s' = vme_trace s @ ops" "\<not> local_flag s \<longrightarrow> ring_puts ops = phase_blocks h st s"
    "\<forall>rest. guarded (rpv_current_level s) (ops @ rest) = guarded (rpv_current_level s') rest"
    "st = RUN_START \<or> (st = RUN_ON \<and> rpv_current_level s = running_level) \<longrightarrow> rpv_current_level s' = running_level"
    by (auto simp: gr_inv_def simp del: run_next.simps)
  have "r' \<longrightarrow> st = RUN_START \<or> (st = RUN_ON \<and> r)"
    using r(1) by (auto split: if_splits)
  with inv s' have l: "r' \<longrightarrow> rpv_current_level s' = running_level"
    by (auto simp: gr_inv_def simp del: run_next.simps)
  have "gr_inv r' s'"
    using inv s' l r(2) n by (auto simp: gr_inv_def same_run_def simp del: run_next.simps)
  with r(1) s' show ?thesis
    by (auto simp: same_run_def simp del: run_next.simps)
qed

text \<open>The shape of the output of an iteration.\<close>

text \<open>
  Every block of an iteration is accounted for: the blocks of the memories, in the order of the read out, and the
  run blocks, at the start and at the end only.
\<close>

definition overflow_shape :: "hw \<Rightarrow> blk list \<Rightarrow> bool" where
  "overflow_shape h bs \<longleftrightarrow>
     (let i = uint (ff h AND 0x00ff)
      in if i = 1 \<or> i = 2 then \<exists>sb. bs = scaler_data h sb # data_blocks h (every_other (nat (i - 1)))
         else if i = 3 then \<exists>sb k. k < 2 \<and> bs = scaler_data h sb # data_blocks h (every_other (1 - k)) @ data_blocks h (every_other k)
         else bs = [])"

definition phase_shape :: "int \<times> hw \<times> blk list \<Rightarrow> bool" where
  "phase_shape p \<longleftrightarrow>
     (case p of (st, h, bs) \<Rightarrow>
        (st = RUN_START \<longrightarrow> (\<exists>m. has_nul m \<and> bs = [run_block BLK_HEADER_START (now h) BLK_BUF_SIZE m])) \<and>
        (st = RUN_ON \<longrightarrow> overflow_shape h bs) \<and>
        (st = RUN_STOP \<longrightarrow> (\<exists>sb k m. k < 2 \<and> has_nul m \<and>
           bs = scaler_data h sb # data_blocks h (every_other k) @ [run_block BLK_HEADER_END (now h) BLK_BUF_SIZE m])) \<and>
        (st = RUN_OFF \<longrightarrow> bs = []))"

lemma overflow_shape_blocks:
  assumes p: "p_buf s < 2"
  shows "overflow_shape h (on_blocks h s)"
proof -
  define i where "i = uint (ff h AND 0x00ff)"
  consider "i = 1 \<or> i = 2" | "i = 3" | "\<not> (i = 1 \<or> i = 2)" "i \<noteq> 3" by blast
  then show ?thesis
  proof cases
    case 1
    then show ?thesis
      unfolding overflow_shape_def on_blocks_def Let_def i_def [symmetric] if_P [OF 1] by blast
  next
    case 2
    then have n: "\<not> (i = 1 \<or> i = 2)" by simp
    show ?thesis
      unfolding overflow_shape_def on_blocks_def Let_def i_def [symmetric] if_not_P [OF n] if_P [OF 2] using p by blast
  next
    case 3
    then show ?thesis
      unfolding overflow_shape_def on_blocks_def Let_def i_def [symmetric] if_not_P [OF 3(1)] if_not_P [OF 3(2)] by blast
  qed
qed

lemma phase_shape_blocks:
  assumes "gr_inv r s" and "seen s = Some st" and "loop_body h s \<noteq> None"
  shows "phase_shape (st, h, phase_blocks h st s)"
proof -
  have ok: "p_buf s < 2" "has_nul (cmb s)" "st = RUN_START \<longrightarrow> has_nul (mb s)"
    using assms(1) loop_body_stuck [OF assms(1,2), of h] assms(3) by (simp_all add: gr_inv_def gr_ok_def del: run_next.simps)
  have k: "1 - p_buf s < 2" using ok(1) by linarith
  consider "st = RUN_START" | "st = RUN_ON" | "st = RUN_STOP" | "st \<noteq> RUN_START" "st \<noteq> RUN_ON" "st \<noteq> RUN_STOP" by blast
  then show ?thesis
  proof cases
    case 1
    have "phase_blocks h st s = [run_block BLK_HEADER_START (now h) BLK_BUF_SIZE (mb s)]"
      by (simp add: phase_blocks_def 1)
    with 1 ok(3) show ?thesis by (auto simp: phase_shape_def run_consts)
  next
    case 2
    then have "phase_blocks h st s = on_blocks h s" by (simp add: phase_blocks_def run_consts)
    with 2 overflow_shape_blocks [OF ok(1), of h] show ?thesis by (simp add: phase_shape_def run_consts)
  next
    case 3
    then have "phase_blocks h st s =
        scaler_data h (sbuf s) # data_blocks h (every_other (1 - p_buf s)) @ [run_block BLK_HEADER_END (now h) BLK_BUF_SIZE (cmb s)]"
      by (simp add: phase_blocks_def run_consts)
    with k ok(2) have "\<exists>sb k m. k < 2 \<and> has_nul m \<and> phase_blocks h st s =
        scaler_data h sb # data_blocks h (every_other k) @ [run_block BLK_HEADER_END (now h) BLK_BUF_SIZE m]"
      by blast
    with 3 show ?thesis unfolding phase_shape_def by (simp only: run_consts prod.case) simp
  next
    case 4
    then show ?thesis by (simp add: phase_shape_def phase_blocks_def)
  qed
qed

lemma gr_run_inv:
  assumes "gr_run s0 ps s" and "gr_inv False s0"
  shows "\<exists>r. run_protocol False (map fst ps) = Some r \<and> gr_inv r s \<and> local_flag s = local_flag s0 \<and>
     (\<not> local_flag s0 \<longrightarrow> ring_puts (vme_trace s) = ring_puts (vme_trace s0) @ concat (map (\<lambda>p. snd (snd p)) ps) \<and> (\<forall>p\<in>set ps. phase_shape p))"
  using assms
proof (induction rule: gr_run.induct)
  case (cmd ps s inp s')
  have "vme_trace s' = vme_trace s" "local_flag s' = local_flag s"
    using collect_cmd_cases [OF cmd.hyps(2)] by auto
  with cmd.IH [OF cmd.prems] show ?case
    using collect_cmd_inv [OF _ cmd.hyps(2)] by metis
next
  case (lock ps s)
  have "vme_trace (loop_lock s) = vme_trace s" "local_flag (loop_lock s) = local_flag s"
    by (simp_all add: loop_lock_def Let_def)
  with lock.IH [OF lock.prems] show ?case
    using loop_lock_inv [OF _ lock.hyps(2)] by metis
next
  case (body ps s st h s')
  then obtain r where r: "run_protocol False (map fst ps) = Some r" "gr_inv r s" "local_flag s = local_flag s0"
      "\<not> local_flag s0 \<longrightarrow> ring_puts (vme_trace s) = ring_puts (vme_trace s0) @ concat (map (\<lambda>p. snd (snd p)) ps) \<and> (\<forall>p\<in>set ps. phase_shape p)"
    by blast
  have nn: "loop_body h s \<noteq> None" using body.hyps(3) by simp
  from loop_body_inv [OF r(2) body.hyps(2) nn] body.hyps(3) obtain r' ops where
    "run_next r st = Some r'" "gr_inv r' s'" "vme_trace s' = vme_trace s @ ops" "local_flag s' = local_flag s"
    "\<not> local_flag s \<longrightarrow> ring_puts ops = phase_blocks h st s"
    by (auto simp del: run_next.simps)
  with r phase_shape_blocks [OF r(2) body.hyps(2) nn] show ?case
    by (auto simp: run_protocol_snoc simp del: run_next.simps)
qed auto

text \<open>A byte, shifted within a word, is zero only when the byte is.\<close>

lemma shifted_byte_zero:
  assumes "k \<le> 24"
  shows "push_bit k (scast (d :: 8 word) :: 32 word) = 0 \<longleftrightarrow> d = 0"
proof
  assume z: "push_bit k (scast d :: 32 word) = 0"
  show "d = 0"
  proof (rule bit_word_eqI)
    fix n assume n: "n < LENGTH(8)"
    then have "min 7 n = n" by simp
    with n assms have "bit (push_bit k (scast d :: 32 word)) (n + k) = bit d n"
      by (simp add: bit_simps)
    with z show "bit d n = bit (0 :: 8 word) n" by simp
  qed
qed simp

lemma byte_masks: "(0xff000000 :: 32 word) = push_bit 24 (mask 8)" "(0xff0000 :: 32 word) = push_bit 16 (mask 8)"
  "(0xff00 :: 32 word) = push_bit 8 (mask 8)" "(0xff :: 32 word) = push_bit 0 (mask 8)"
  by (simp_all add: mask_eq_exp_minus_1 push_bit_eq_mult)

lemma byte_zero:
  assumes "k \<le> 24"
  shows "(ucast (drop_bit k (r AND push_bit k (mask 8))) :: 8 word) = 0 \<longleftrightarrow> (\<forall>n < 8. \<not> bit (r :: 32 word) (n + k))"
proof -
  have "bit (ucast (drop_bit k (r AND push_bit k (mask 8))) :: 8 word) n \<longleftrightarrow> n < 8 \<and> bit r (n + k)" for n
    using assms by (auto simp: bit_simps add.commute)
  then show ?thesis
    unfolding bit_eq_iff by auto
qed

lemma swap_run_bytes:
  "swap_run r = (if \<exists>k \<in> {24, 16, 8, 0}. \<exists>n < 8. bit r (n + k) then 1 else 0)"
proof -
  have s: "(scast (d :: 8 word) :: 32 word) = 0 \<longleftrightarrow> d = 0" for d
    using shifted_byte_zero [of 0 d] by simp
  have z: "(ucast (r AND push_bit 0 (mask 8)) :: 8 word) = 0 \<longleftrightarrow> (\<forall>n < 8. \<not> bit r (n + 0))"
    using byte_zero [of 0 r] by simp
  have le: "(8 :: nat) \<le> 24" "(16 :: nat) \<le> 24"
    by simp_all
  show ?thesis
    unfolding swap_run_def Let_def byte_masks s z shifted_byte_zero [OF order_refl] shifted_byte_zero [OF le(1)] shifted_byte_zero [OF le(2)]
      byte_zero [OF order_refl] byte_zero [OF le(1)] byte_zero [OF le(2)]
    by (rule if_cong) auto
qed

lemma swap_run_eq: "swap_run r = (if r = 0 then 0 else 1)"
proof (cases "r = 0")
  case True
  then show ?thesis by (simp add: swap_run_bytes)
next
  case False
  then obtain n where n: "bit r n" "n < 32"
    using bit_word_eqI [of r 0] by auto
  from n(2) have "n div 8 * 8 \<in> {24, 16, 8, 0}"
    by auto
  moreover have "n mod 8 < 8" "bit r (n mod 8 + n div 8 * 8)"
    using n(1) by simp_all
  ultimately show ?thesis
    using False unfolding swap_run_bytes by meson
qed

section \<open>Properties\<close>

text \<open>A run of the collector that sees one start command.\<close>

definition start_msg :: cmd_msgbuf where
  "start_msg = \<lparr>cm_type = 1, command = CHR 0x01, cm_run = 2047, comment = ''beam on'' @ [CHR 0x00]\<rparr>"

definition stop_msg :: cmd_msgbuf where
  "stop_msg = \<lparr>cm_type = 1, command = CHR 0x02, cm_run = 2047, comment = [CHR 0x00]\<rparr>"

definition demo_boot :: "bool \<Rightarrow> gr" where
  "demo_boot loc = gr_boot loc (replicate BLK_BUF_SIZE 0) (replicate BLK_BUF_SIZE 0)"

definition demo_hw :: hw where
  "demo_hw = \<lparr>ff = 0xff02, ptr_test = (\<lambda>i. if i = 3 then 2 else 0), ptr_get = (\<lambda>_. 2), mem = (\<lambda>_ k. word_of_nat k),
     gate = (\<lambda>_ _. 0), now = 0\<rparr>"

lemma gr_demo_run: "\<exists>ps s. gr_run (demo_boot loc) ps s \<and> map fst ps = [RUN_START] \<and> seen s = None"
proof -
  define s1 where "s1 = (demo_boot loc)\<lparr>mb := start_msg\<lparr>cm_run := swap_run 2047\<rparr>, status := RUN_START\<rparr>"
  have "collect_cmd (Some start_msg) (demo_boot loc) = Go s1"
    by (simp add: collect_cmd_def s1_def demo_boot_def gr_boot_def collect_init_def emit_def start_msg_def int_of_char_def
        GR_CMD_VALID_def GR_CMD_START_def Let_def of_char_def)
  then have r1: "gr_run (demo_boot loc) [] s1"
    by (rule gr_run.cmd [OF gr_run.start])
  have n: "seen s1 = None" "status s1 = RUN_START"
    by (simp_all add: s1_def demo_boot_def gr_boot_def collect_init_def emit_def)
  with gr_run.lock [OF r1] have r2: "gr_run (demo_boot loc) [] (loop_lock s1)" and st: "seen (loop_lock s1) = Some RUN_START"
    by (simp_all add: loop_lock_def Let_def)
  have "gr_inv False (demo_boot loc)"
    by (simp add: demo_boot_def gr_boot_inv)
  with gr_run_inv [OF r2] obtain r where "gr_inv r (loop_lock s1)"
    by auto
  then have ok: "gr_ok (loop_lock s1)" "has_nul (cmb (loop_lock s1))"
    by (simp_all add: gr_inv_def)
  have "mb (loop_lock s1) = start_msg\<lparr>cm_run := swap_run 2047\<rparr>"
    by (simp add: loop_lock_def Let_def n(2)) (simp add: s1_def)
  then have "RUN_START = RUN_START \<longrightarrow> has_nul (mb (loop_lock s1))"
    by (simp add: start_msg_def has_nul_def MAX_MSG_def)
  from phase_effect [OF ok(1) this ok(2) st] obtain s' where
    b: "loop_body demo_hw (loop_lock s1) = Some s'" "same_run ((loop_lock s1)\<lparr>seen := None\<rparr>) s'"
    by blast
  from gr_run.body [OF r2 st b(1)] b(2) show ?thesis
    by (fastforce simp: same_run_def)
qed

text \<open>C11: Whatever the clients send and however their commands fall between the steps of the read out loop, the output of
  the collector keeps the run protocol. A run is one run start block, then the overflows, each the scaler block
  and the blocks of the memories it concerns in the order of the read out, and at the end the scaler block, the memories of
  one buffer and one run end block; the next run starts after the end of the last, and nothing is written between runs (an end
  sequence alone can come from a run that was stopped before the loop saw its start). No run block appears anywhere
  else. In every state reached the loop can go on, with one exception: the message that lies there when a run start block
  is made has no terminated comment, as that of a \<^verbatim>\<open>stop\<close> which the client has not filled in.\<close>

theorem run_output_keeps_protocol:
  assumes "length b = BLK_BUF_SIZE" and "length sb = BLK_BUF_SIZE" and "gr_run (gr_boot False b sb) ps s"
  shows "(\<exists>r. run_protocol False (map fst ps) = Some r) \<and> (\<forall>p\<in>set ps. phase_shape p) \<and>
     ring_puts (vme_trace s) = concat (map (\<lambda>p. snd (snd p)) ps) \<and>
     (\<forall>st. seen s = Some st \<longrightarrow> (loop_body h s = None \<longleftrightarrow> st = RUN_START \<and> \<not> has_nul (mb s)))"
proof -
  from gr_run_inv [OF assms(3) gr_boot_inv [OF assms(1,2)]] obtain r where r: "run_protocol False (map fst ps) = Some r" "gr_inv r s"
    "\<not> local_flag (gr_boot False b sb) \<longrightarrow>
       ring_puts (vme_trace s) = ring_puts (vme_trace (gr_boot False b sb)) @ concat (map (\<lambda>p. snd (snd p)) ps) \<and> (\<forall>p\<in>set ps. phase_shape p)"
    by blast
  have "\<not> local_flag (gr_boot False b sb)" "ring_puts (vme_trace (gr_boot False b sb)) = []"
    by (simp_all add: gr_boot_def collect_init_def emit_def boot_ops)
  with r loop_body_stuck [OF r(2)] show ?thesis
    by simp
qed

theorem run_output_keeps_protocol_witness:
  "\<exists>ps s. gr_run (demo_boot False) ps s \<and> run_protocol False (map fst ps) = Some True \<and> ring_puts (vme_trace s) = concat (map (\<lambda>p. snd (snd p)) ps) \<and>
     (\<exists>tm m. ring_puts (vme_trace s) = [run_block BLK_HEADER_START tm BLK_BUF_SIZE m])"
proof -
  from gr_demo_run [of False] obtain ps s where r: "gr_run (demo_boot False) ps s" "map fst ps = [RUN_START]"
    by auto
  from run_output_keeps_protocol [OF _ _ r(1) [unfolded demo_boot_def]] r(2)
  have "\<forall>p\<in>set ps. phase_shape p" "ring_puts (vme_trace s) = concat (map (\<lambda>p. snd (snd p)) ps)"
    by simp_all
  with r show ?thesis
    by (intro exI [of _ ps] exI [of _ s]) (fastforce simp: phase_shape_def run_consts)
qed

text \<open>C12: During the whole life of the collector a memory module is switched from the front end to VME access only while the veto
  is on or the buffer it belongs to is taken out of the output register; during a run, between two read outs, both buffers
  are in and the veto is off.\<close>

theorem memory_access_is_protected:
  assumes "length b = BLK_BUF_SIZE" and "length sb = BLK_BUF_SIZE" and "gr_run (gr_boot loc b sb) ps s"
  shows "guarded 0 (vme_trace s) \<and>
    (run_protocol False (map fst ps) = Some True \<longrightarrow> rpv_current_level s = RPV_OREG_BUF1 OR RPV_OREG_BUF2)"
proof -
  from gr_run_inv [OF assms(3) gr_boot_inv [OF assms(1,2)]] obtain r where r: "run_protocol False (map fst ps) = Some r" "gr_inv r s"
    by blast
  from r(2) have "\<forall>rest. guarded 0 (vme_trace s @ rest) = guarded (rpv_current_level s) rest"
    by (simp add: gr_inv_def)
  then have "guarded 0 (vme_trace s @ []) = guarded (rpv_current_level s) []"
    by blast
  with r show ?thesis
    by (auto simp: gr_inv_def running_level_def)
qed

theorem memory_access_is_protected_witness:
  "\<exists>ps s. gr_run (demo_boot True) ps s \<and> guarded 0 (vme_trace s) \<and> rpv_current_level s = 3"
proof -
  from gr_demo_run [of True] obtain ps s where r: "gr_run (demo_boot True) ps s" "map fst ps = [RUN_START]"
    by auto
  from memory_access_is_protected [OF _ _ r(1) [unfolded demo_boot_def]] r show ?thesis
    by (intro exI [of _ ps] exI [of _ s]) (auto simp: run_consts RPV_OREG_BUF1_def RPV_OREG_BUF2_def)
qed

text \<open>C13: When buffer overflows come in, one read out takes everything: the scaler first, then every memory of the full buffer that
  has data, in order; when both buffers are full, every one of the twelve memories exactly once, the buffer that was not
  read last before the other.\<close>

theorem overflow_readout_is_complete:
  assumes "gr_ok s" and "\<not> local_flag s"
  shows "\<exists>s' ops. run_on h s = Some s' \<and> vme_trace s' = vme_trace s @ ops \<and>
     (uint (ff h AND 0x00ff) = 1 \<longrightarrow> ring_puts ops = scaler_data h (sbuf s) # data_blocks h [0, 2, 4, 6, 8, 10]) \<and>
     (uint (ff h AND 0x00ff) = 2 \<longrightarrow> ring_puts ops = scaler_data h (sbuf s) # data_blocks h [1, 3, 5, 7, 9, 11]) \<and>
     (uint (ff h AND 0x00ff) = 3 \<longrightarrow>
        (\<exists>is. ring_puts ops = scaler_data h (sbuf s) # data_blocks h is \<and> mset is = mset [0 ..< MAX_LRM_NUM] \<and> even (hd is) = odd (p_buf s))) \<and>
     (uint (ff h AND 0x00ff) \<notin> {1, 2, 3} \<longrightarrow> ring_puts ops = [])"
proof -
  have ev: "every_other 0 = [0, 2, 4, 6, 8, 10]" "every_other (Suc 0) = [1, 3, 5, 7, 9, 11]"
    by (simp_all add: every_other_def MAX_LRM_NUM_def upt_rec)
  have all: "[0 ..< MAX_LRM_NUM] = [0, 1, 2, 3, 4, 5, 6, 7, 8, 9, 10, 11]"
    by (simp add: MAX_LRM_NUM_def upt_rec numeral_eq_Suc)
  have p: "p_buf s = 0 \<or> p_buf s = Suc 0"
    using assms(1) by (auto simp: gr_ok_def)
  have split: "data_blocks h (xs @ ys) = data_blocks h xs @ data_blocks h ys" for xs ys
    by (simp add: data_blocks_def)
  from run_on_eq [OF assms(1), of h] assms(2) obtain s' ops where
    s': "run_on h s = Some s'" "vme_trace s' = vme_trace s @ ops" "ring_puts ops = on_blocks h s"
    by auto
  have "\<exists>is. data_blocks h (every_other (1 - p_buf s)) @ data_blocks h (every_other (p_buf s)) = data_blocks h is \<and>
      mset is = mset [0 ..< MAX_LRM_NUM] \<and> even (hd is) = odd (p_buf s)"
    using p by (intro exI [of _ "every_other (1 - p_buf s) @ every_other (p_buf s)"])
      (auto simp: split ev all add_mset_commute)
  then show ?thesis
    using s' by (intro exI [of _ s'] exI [of _ ops]) (auto simp: on_blocks_def ev)
qed

theorem overflow_readout_is_complete_witness:
  "\<exists>s' ops. run_on demo_hw (demo_boot False) = Some s' \<and> vme_trace s' = vme_trace (demo_boot False) @ ops \<and> length (ring_puts ops) = 2"
proof -
  have ok: "gr_ok (demo_boot False)" "\<not> local_flag (demo_boot False)"
    by (simp_all add: demo_boot_def gr_boot_def collect_init_def emit_def gr_ok_def)
  have "uint (ff demo_hw AND 0x00ff) = 2"
    by (simp add: demo_hw_def)
  with overflow_readout_is_complete [OF ok, of demo_hw] show ?thesis
    by (auto simp: data_blocks_def demo_hw_def)
qed

text \<open>The run number does not reach the data: whatever number a client sends, the message that is kept, and so every run block
  made from it, says 1, or 0 when the number was 0.\<close>

theorem run_number_is_lost:
  assumes "collect_cmd (Some m) s = Go s'"
  shows "cm_run (mb s') = (if cm_run m = 0 then 0 else 1) \<and>
    run_block bid tm n (mb s') ! 12 = (if cm_run m = 0 then 0 else 1)"
proof -
  have "cm_run (mb s') = swap_run (cm_run m)"
    using assms by (auto simp: collect_cmd_def Let_def split: if_splits)
  then show ?thesis
    by (simp add: swap_run_eq run_block_def run_header_def Let_def)
qed

lemma start_stop_cmds:
  assumes "status s = RUN_OFF"
  shows "collect_cmd (Some start_msg) s = Go (s\<lparr>mb := start_msg\<lparr>cm_run := 1\<rparr>, status := RUN_START\<rparr>)"
    and "status s' = RUN_START \<Longrightarrow> collect_cmd (Some stop_msg) s' = Go (s'\<lparr>mb := stop_msg\<lparr>cm_run := 1\<rparr>, status := RUN_STOP\<rparr>)"
  using assms
  by (simp_all add: collect_cmd_def start_msg_def stop_msg_def int_of_char_def swap_run_eq
      GR_CMD_VALID_def GR_CMD_START_def GR_CMD_STOP_def Let_def of_char_def)

theorem run_number_is_lost_witness:
  "\<exists>s'. collect_cmd (Some start_msg) (demo_boot False) = Go s' \<and> cm_run start_msg = 2047 \<and> cm_run (mb s') = 1"
proof -
  have "status (demo_boot False) = RUN_OFF"
    by (simp add: demo_boot_def gr_boot_def collect_init_def emit_def)
  from run_number_is_lost [OF start_stop_cmds(1) [OF this]] start_stop_cmds(1) [OF this] show ?thesis
    by (simp add: start_msg_def)
qed

text \<open>A run that is started and stopped before the read out loop looks at the run state leaves an end block without a
  start block, and the end block describes the run before it.\<close>

theorem short_run_has_no_start_block:
  assumes "gr_ok s" and "has_nul (cmb s)" and "status s = RUN_OFF" and "seen s = None" and "\<not> local_flag s"
  shows "\<exists>s1 s2 s3 ops. collect_cmd (Some start_msg) s = Go s1 \<and> collect_cmd (Some stop_msg) s1 = Go s2 \<and>
    loop_body h (loop_lock s2) = Some s3 \<and> status s3 = RUN_OFF \<and> vme_trace s3 = vme_trace s @ ops \<and>
    ring_puts ops = scaler_data h (sbuf s) # data_blocks h (every_other (1 - p_buf s)) @ [run_block BLK_HEADER_END (now h) BLK_BUF_SIZE (cmb s)]"
proof -
  define s1 where "s1 = s\<lparr>mb := start_msg\<lparr>cm_run := 1\<rparr>, status := RUN_START\<rparr>"
  define s2 where "s2 = s1\<lparr>mb := stop_msg\<lparr>cm_run := 1\<rparr>, status := RUN_STOP\<rparr>"
  have c: "collect_cmd (Some start_msg) s = Go s1" "collect_cmd (Some stop_msg) s1 = Go s2"
    using start_stop_cmds(1) [OF assms(3)] start_stop_cmds(2) [OF assms(3), of s1] by (simp_all add: s1_def s2_def)
  have l: "gr_ok (loop_lock s2)" "has_nul (mb (loop_lock s2))" "has_nul (cmb (loop_lock s2))" "seen (loop_lock s2) = Some RUN_STOP"
    "\<not> local_flag (loop_lock s2)" "vme_trace (loop_lock s2) = vme_trace s" "status (loop_lock s2) = RUN_OFF"
    using assms by (simp_all add: s1_def s2_def loop_lock_def Let_def run_consts gr_ok_def has_nul_def stop_msg_def MAX_MSG_def)
  have p: "phase_blocks h RUN_STOP (loop_lock s2) =
      scaler_data h (sbuf s) # data_blocks h (every_other (1 - p_buf s)) @ [run_block BLK_HEADER_END (now h) BLK_BUF_SIZE (cmb s)]"
    by (simp add: phase_blocks_def s1_def s2_def loop_lock_def Let_def run_consts)
  have "RUN_STOP = RUN_START \<longrightarrow> has_nul (mb (loop_lock s2))" by (simp add: run_consts)
  from phase_effect [OF l(1) this l(3,4), of h] l p obtain s3 ops where
    "loop_body h (loop_lock s2) = Some s3" "same_run ((loop_lock s2)\<lparr>seen := None\<rparr>) s3" "vme_trace s3 = vme_trace s @ ops"
    "ring_puts ops = scaler_data h (sbuf s) # data_blocks h (every_other (1 - p_buf s)) @ [run_block BLK_HEADER_END (now h) BLK_BUF_SIZE (cmb s)]"
    by auto
  with c l(7) show ?thesis
    by (auto simp: same_run_def)
qed

theorem short_run_has_no_start_block_witness:
  "\<exists>s1 s2 s3 h. collect_cmd (Some start_msg) (demo_boot False) = Go s1 \<and> collect_cmd (Some stop_msg) s1 = Go s2 \<and>
    loop_body h (loop_lock s2) = Some s3 \<and> status s3 = RUN_OFF"
proof -
  have "gr_ok (demo_boot False)" "has_nul (cmb (demo_boot False))" "status (demo_boot False) = RUN_OFF" "seen (demo_boot False) = None"
    "\<not> local_flag (demo_boot False)"
    by (simp_all add: demo_boot_def gr_boot_def collect_init_def emit_def gr_ok_def has_nul_def zero_msg_def MAX_MSG_def)
  from short_run_has_no_start_block [OF this] show ?thesis by blast
qed

end
