(* ===== verification/GR_Control.thy ===== *)
theory GR_Control
  imports GR_Runs
begin

text \<open>
  The two ends of the Grand Raiden collector: the run control client \<^verbatim>\<open>grctrl/grctrl.c\<close>, whose message the command thread
  of the collector takes, and from \<^verbatim>\<open>gr/grcollect.c\<close> the options, the threads \<^verbatim>\<open>main\<close> starts and the read out loop of
  the test mode, \<^verbatim>\<open>collect_test\<close>. The locale \<open>readout_thread\<close> states what the run protocol needs of a read out loop;
  it is interpreted on both loops of the program.
\<close>

section \<open>The run control client\<close>

text \<open>
  One call of \<^verbatim>\<open>strtok\<close> on what is left of the string: the token and the new rest. With no delimiters the token is the
  whole rest.
\<close>

definition strtok :: "char set \<Rightarrow> string \<Rightarrow> (string \<times> string) option" where
  "strtok ds s =
     (let t = dropWhile (\<lambda>c. c \<in> ds) s
      in if t = [] then None
         else Some (takeWhile (\<lambda>c. c \<notin> ds) t, drop 1 (dropWhile (\<lambda>c. c \<notin> ds) t)))"

text \<open>\<^verbatim>\<open>htonl\<close> on a little endian machine.\<close>

definition htonl32 :: "32 word \<Rightarrow> 32 word" where
  "htonl32 w =
     (push_bit 24 (w AND 0xff)) OR (push_bit 8 (w AND 0xff00)) OR (drop_bit 8 (w AND 0xff0000)) OR (drop_bit 24 w)"

text \<open>
  The end of \<^verbatim>\<open>main\<close>: the usage message before a connection is made, the end of the program with the connection open
  (a wrong command, a comment that is too long), the use of a null pointer, or the message that is written.
\<close>

datatype ctrl_end = UsageExit | ExitConnected | Crash | Sent cmd_msgbuf

definition char_of_cmd :: "int \<Rightarrow> char" where
  "char_of_cmd n = char_of (nat n)"

definition start_request :: "cmd_msgbuf \<Rightarrow> string option \<Rightarrow> ctrl_end" where
  "start_request m arg =
     (let m1 = m\<lparr>comment := replicate MAX_MSG CHR 0x00\<rparr>
      in case Option.bind arg (strtok {CHR '',''}) of
           None \<Rightarrow> Crash
         | Some (num, rest) \<Rightarrow>
             let m2 = m1\<lparr>cm_run := htonl32 (word_of_int (atoi num))\<rparr>;
                 snt = (\<lambda>com. Sent (m2\<lparr>comment := com @ drop (length com) (comment m2), command := char_of_cmd GR_CMD_START\<rparr>))
             in case strtok {} rest of
                  None \<Rightarrow> snt []
                | Some (str, _) \<Rightarrow> if length str < MAX_MSG then snt str else ExitConnected)"

text \<open>\<open>m\<close> is what the local variable \<^verbatim>\<open>mb\<close> holds before anything is assigned to it; the list starts with \<^verbatim>\<open>argv[1]\<close>.\<close>

fun grctrl :: "cmd_msgbuf \<Rightarrow> string list \<Rightarrow> ctrl_end" where
  "grctrl m [] = UsageExit"
| "grctrl m (cmd # args) =
     (if cmd = ''start'' then start_request m (case args of [] \<Rightarrow> None | a # _ \<Rightarrow> Some a)
      else if cmd = ''stop'' then Sent (m\<lparr>command := char_of_cmd GR_CMD_STOP\<rparr>)
      else if cmd = ''reset'' then Sent (m\<lparr>command := char_of_cmd GR_CMD_RESET\<rparr>)
      else if cmd = ''init'' then Sent (m\<lparr>command := char_of_cmd GR_CMD_INIT\<rparr>)
      else if cmd = ''exit'' then Sent (m\<lparr>command := char_of_cmd GR_CMD_EXIT\<rparr>)
      else ExitConnected)"

text \<open>
  The command thread sees the message, or the end of the stream when the client ends without writing. Without a
  connection there is no command thread.
\<close>

definition control :: "cmd_msgbuf \<Rightarrow> string list \<Rightarrow> gr \<Rightarrow> cmd_result" where
  "control m args s =
     (case grctrl m args of
        UsageExit \<Rightarrow> Go s
      | ExitConnected \<Rightarrow> collect_cmd None s
      | Crash \<Rightarrow> collect_cmd None s
      | Sent msg \<Rightarrow> collect_cmd (Some msg) s)"

section \<open>Options and threads of the collector\<close>

text \<open>\<^verbatim>\<open>t1\<close> is a pair of seconds and nanoseconds.\<close>

record gr_opts =
  o_test :: bool
  o_local :: bool
  o_t1 :: "int \<times> int"
  o_max_que :: int
  o_quiet :: bool

definition default_opts :: gr_opts where
  "default_opts = \<lparr>o_test = False, o_local = False, o_t1 = (0, 0), o_max_que = 64, o_quiet = False\<rparr>"

text \<open>
  The options as \<^verbatim>\<open>getopt\<close> delivers them; \<open>None\<close> is the end of the program by \<^verbatim>\<open>usage\<close>. The name of the error
  log host is not used.
\<close>

definition gr_option :: "char \<Rightarrow> string \<Rightarrow> gr_opts \<Rightarrow> gr_opts option" where
  "gr_option c arg p =
     (let interval = c_int (atoi arg)
      in if c = CHR ''t'' then Some (p\<lparr>o_test := True, o_t1 := (1, 0)\<rparr>)
         else if c = CHR ''l'' then Some (p\<lparr>o_local := True\<rparr>)
         else if c = CHR ''e'' then Some p
         else if c = CHR ''s'' then Some (p\<lparr>o_t1 := (interval, 0)\<rparr>)
         else if c = CHR ''m'' then Some (p\<lparr>o_t1 := (c_div interval 1000, c_mod interval 1000 * 1000000)\<rparr>)
         else if c = CHR ''u'' then Some (p\<lparr>o_t1 := (c_div interval 1000000, c_mod interval 1000000 * 1000)\<rparr>)
         else if c = CHR ''q'' then Some (p\<lparr>o_max_que := interval\<rparr>)
         else if c = CHR ''Q'' then Some (p\<lparr>o_quiet := True\<rparr>)
         else None)"

fun gr_options :: "(char \<times> string) list \<Rightarrow> gr_opts \<Rightarrow> gr_opts option" where
  "gr_options [] p = Some p"
| "gr_options ((c, arg) # rest) p = Option.bind (gr_option c arg p) (gr_options rest)"

datatype gr_thread = CollectTest | CollectData | CollectTcpServ

definition gr_threads :: "gr_opts \<Rightarrow> gr_thread list" where
  "gr_threads p = (if o_test p then CollectTest else CollectData) # (if o_local p then [] else [CollectTcpServ])"

section \<open>The read out loop of the test mode\<close>

text \<open>
  What an iteration depends on besides the shared variables: the time, the interval and whether a signal interrupts
  \<^verbatim>\<open>nanosleep\<close>, which fails then, as it does when the interval is not valid.
\<close>

record test_env =
  t_now :: int
  t_interval :: "int \<times> int"
  t_signal :: bool

definition nanosleep :: "int \<times> int \<Rightarrow> bool \<Rightarrow> bool" where
  "nanosleep t sig \<longleftrightarrow> 0 \<le> fst t \<and> 0 \<le> snd t \<and> snd t < 1000000000 \<and> \<not> sig"

definition test_start :: "test_env \<Rightarrow> gr \<Rightarrow> gr option" where
  "test_start e s =
     (let b = send_run_start (t_now e) (buf s) BLK_BUF_SIZE (comment (mb s))
      in Some (put_data b (s\<lparr>buf := b\<rparr>)))"

text \<open>The block is given to the ring buffer 28 times. \<open>None\<close> is the end of the program after a failed \<^verbatim>\<open>nanosleep\<close>.\<close>

definition test_on :: "test_env \<Rightarrow> gr \<Rightarrow> gr option" where
  "test_on e s =
     (let b = (buf s)[0 := 0xffff];
          s1 = ((put_data b) ^^ 28) (s\<lparr>buf := b\<rparr>);
          s2 = s1\<lparr>count := count s1 + 1\<rparr>
      in if nanosleep (t_interval e) (t_signal e) then Some s2 else None)"

definition test_stop :: "gr \<Rightarrow> gr option" where
  "test_stop s =
     (let b = send_run_end (buf s) BLK_BUF_SIZE
      in Some ((emit [RingPut b] (s\<lparr>buf := b\<rparr>))\<lparr>count := 0\<rparr>))"

definition test_body :: "test_env \<Rightarrow> gr \<Rightarrow> gr option" where
  "test_body e s =
     (case seen s of
        None \<Rightarrow> None
      | Some st \<Rightarrow>
          let s1 = s\<lparr>seen := None\<rparr>
          in if st = RUN_START then test_start e s1
             else if st = RUN_ON then test_on e s1
             else if st = RUN_STOP then test_stop s1
             else Some s1)"

text \<open>The state when \<^verbatim>\<open>main\<close> has started the test loop.\<close>

definition test_boot :: "bool \<Rightarrow> blk \<Rightarrow> int \<Rightarrow> gr" where
  "test_boot loc b c =
     \<lparr>status = RUN_OFF, mb = zero_msg, cmb = zero_msg, rpv_current_level = 0, local_flag = loc, buf = b, sbuf = [],
      count = c, i_buf = 0, p_buf = 0, strange_value_count = 0, seen = None, vme_trace = []\<rparr>"

section \<open>Threads that follow the run protocol\<close>

text \<open>
  The threads of the collector around any read out loop: command connections, whose messages satisfy \<open>ok\<close>, and the two
  steps of an iteration. The environment of the second step is whatever the loop reads from outside.
\<close>

inductive thread_run :: "(cmd_msgbuf \<Rightarrow> bool) \<Rightarrow> ('e \<Rightarrow> gr \<Rightarrow> gr option) \<Rightarrow> gr \<Rightarrow> (int \<times> blk list) list \<Rightarrow> gr \<Rightarrow> bool"
  for ok body s0 where
  start: "thread_run ok body s0 [] s0"
| cmd: "thread_run ok body s0 ps s \<Longrightarrow> (\<forall>m. inp = Some m \<longrightarrow> ok m) \<Longrightarrow> collect_cmd inp s = Go s' \<Longrightarrow>
    thread_run ok body s0 ps s'"
| lock: "thread_run ok body s0 ps s \<Longrightarrow> seen s = None \<Longrightarrow> thread_run ok body s0 ps (loop_lock s)"
| body: "thread_run ok body s0 ps s \<Longrightarrow> seen s = Some st \<Longrightarrow> body e s = Some s' \<Longrightarrow>
    thread_run ok body s0 (ps @ [(st, ring_puts (drop (length (vme_trace s)) (vme_trace s')))]) s'"

lemma collect_cmd_keeps:
  "collect_cmd inp s = Go s' \<Longrightarrow> vme_trace s' = vme_trace s \<and> local_flag s' = local_flag s"
  by (drule collect_cmd_cases) auto

lemma loop_lock_keeps [simp]: "vme_trace (loop_lock s) = vme_trace s" "local_flag (loop_lock s) = local_flag s"
  by (simp_all add: loop_lock_def Let_def)

locale readout_thread =
  fixes ok :: "cmd_msgbuf \<Rightarrow> bool" and body :: "'e \<Rightarrow> gr \<Rightarrow> gr option"
    and inv :: "bool \<Rightarrow> gr \<Rightarrow> bool" and shape :: "bool \<Rightarrow> int \<times> blk list \<Rightarrow> bool"
  assumes cmd_inv: "inv r s \<Longrightarrow> (\<forall>m. inp = Some m \<longrightarrow> ok m) \<Longrightarrow> collect_cmd inp s = Go s' \<Longrightarrow> inv r s'"
    and lock_inv: "inv r s \<Longrightarrow> seen s = None \<Longrightarrow> inv r (loop_lock s)"
    and body_step: "inv r s \<Longrightarrow> seen s = Some st \<Longrightarrow> body e s = Some s' \<Longrightarrow>
      \<exists>r' ops. run_next r st = Some r' \<and> inv r' s' \<and> vme_trace s' = vme_trace s @ ops \<and> local_flag s' = local_flag s \<and>
        shape (local_flag s) (st, ring_puts ops)"
begin

lemma keeps_protocol:
  assumes "thread_run ok body s0 ps s" and "inv False s0"
  shows "\<exists>r. run_protocol False (map fst ps) = Some r \<and> inv r s \<and> local_flag s = local_flag s0 \<and>
     (\<forall>p\<in>set ps. shape (local_flag s0) p) \<and> ring_puts (vme_trace s) = ring_puts (vme_trace s0) @ concat (map snd ps)"
  using assms
proof (induction rule: thread_run.induct)
  case (cmd ps s inp s')
  then show ?case
    using cmd_inv collect_cmd_keeps [OF cmd.hyps(3)] by fastforce
next
  case (lock ps s)
  then show ?case
    using lock_inv by fastforce
next
  case (body ps s st e s')
  then obtain r where r: "run_protocol False (map fst ps) = Some r" "inv r s" "local_flag s = local_flag s0"
      "\<forall>p\<in>set ps. shape (local_flag s0) p" "ring_puts (vme_trace s) = ring_puts (vme_trace s0) @ concat (map snd ps)"
    by blast
  from body_step [OF r(2) body.hyps(2,3)] obtain r' ops where
    "run_next r st = Some r'" "inv r' s'" "vme_trace s' = vme_trace s @ ops" "local_flag s' = local_flag s"
    "shape (local_flag s) (st, ring_puts ops)"
    by blast
  with r show ?case
    by (auto simp: run_protocol_snoc simp del: run_next.simps)
qed auto

end

text \<open>The read out loop of the modules.\<close>

lemma gr_run_thread:
  "gr_run s0 ps s \<Longrightarrow> thread_run (\<lambda>_. True) loop_body s0 (map (\<lambda>p. (fst p, snd (snd p))) ps) s"
proof (induction rule: gr_run.induct)
  case (body ps s st h s')
  from thread_run.body [OF body.IH body.hyps(2,3)] show ?case by simp
qed (auto intro: thread_run.intros)

interpretation modules: readout_thread "\<lambda>_. True" loop_body gr_inv
  "\<lambda>loc p. \<not> loc \<longrightarrow> (\<exists>h. phase_shape (fst p, h, snd p))"
proof unfold_locales
  fix r s st h s'
  assume a: "gr_inv r s" "seen s = Some st" "loop_body h s = Some s'"
  then have n: "loop_body h s \<noteq> None" by simp
  from loop_body_inv [OF a(1,2) n] a(3) obtain ops r' where
    o: "run_next r st = Some r'" "gr_inv r' s'" "vme_trace s' = vme_trace s @ ops" "local_flag s' = local_flag s"
    "\<not> local_flag s \<longrightarrow> ring_puts ops = phase_blocks h st s"
    by (auto simp del: run_next.simps)
  with phase_shape_blocks [OF a(1,2) n] have "\<not> local_flag s \<longrightarrow> phase_shape (st, h, ring_puts ops)" by simp
  then have "\<not> local_flag s \<longrightarrow> (\<exists>h. phase_shape (fst (st, ring_puts ops), h, snd (st, ring_puts ops)))" by auto
  with o show "\<exists>r' ops. run_next r st = Some r' \<and> gr_inv r' s' \<and> vme_trace s' = vme_trace s @ ops \<and> local_flag s' = local_flag s \<and>
      (\<not> local_flag s \<longrightarrow> (\<exists>h. phase_shape (fst (st, ring_puts ops), h, snd (st, ring_puts ops))))"
    by blast
qed (erule (1) collect_cmd_inv, erule (1) loop_lock_inv)

section \<open>The output of the test mode\<close>

text \<open>What the readers of the data recognise a block by, and the run end block of the test mode.\<close>

definition start_framed :: "blk \<Rightarrow> bool" where
  "start_framed b \<longleftrightarrow> length b = BLK_BUF_SIZE \<and> take 3 b = [0xffff, 6, BLK_HEADER_START] \<and> drop (BLK_BUF_SIZE - 2) b = [0xffef, 2]"

definition test_end_block :: blk where
  "test_end_block = [0xffff, 6, BLK_HEADER_END] @ replicate (BLK_BUF_SIZE - 5) 0 @ [0xffef, 2]"

definition test_shape :: "bool \<Rightarrow> int \<times> blk list \<Rightarrow> bool" where
  "test_shape loc p \<longleftrightarrow>
     (fst p = RUN_START \<longrightarrow> (if loc then snd p = [] else \<exists>b. snd p = [b] \<and> start_framed b)) \<and>
     (fst p = RUN_ON \<longrightarrow> (if loc then snd p = [] else \<exists>b. snd p = replicate 28 b \<and> start_framed b)) \<and>
     (fst p = RUN_STOP \<longrightarrow> snd p = [test_end_block]) \<and> (fst p = RUN_OFF \<longrightarrow> snd p = [])"

definition test_inv :: "bool \<Rightarrow> gr \<Rightarrow> bool" where
  "test_inv r s \<longleftrightarrow> length (buf s) = BLK_BUF_SIZE \<and> (r \<longrightarrow> start_framed (buf s)) \<and>
     (case seen s of None \<Rightarrow> status_fits r (status s)
      | Some st \<Rightarrow> (\<exists>r'. run_next r st = Some r' \<and> status_fits r' (status s)))"

lemma send_run_start_framed:
  assumes "length b0 = BLK_BUF_SIZE"
  shows "start_framed (send_run_start tm b0 BLK_BUF_SIZE com)"
proof -
  let ?b = "send_run_start tm b0 BLK_BUF_SIZE com"
  have l: "length ?b = BLK_BUF_SIZE"
    using assms by (simp add: send_run_start_def Let_def)
  have t: "take 3 ?b = [0xffff, 6, BLK_HEADER_START]"
    using assms l
    by (intro nth_equalityI)
      (auto simp: send_run_start_def Let_def MAX_MSG_def BLK_BUF_SIZE_def nth_store nth_zero_fill nth_list_update less_Suc_eq numeral_3_eq_3)
  have d: "drop (BLK_BUF_SIZE - 2) ?b = [0xffef, 2]"
    using assms l
    by (intro nth_equalityI)
      (auto simp: send_run_start_def Let_def MAX_MSG_def BLK_BUF_SIZE_def nth_list_update less_Suc_eq numeral_2_eq_2)
  from l t d show ?thesis by (simp add: start_framed_def)
qed

lemma send_run_end_eq:
  assumes "length b0 = BLK_BUF_SIZE"
  shows "send_run_end b0 BLK_BUF_SIZE = test_end_block"
  using assms zeros_and_trailer [of "store 0 [0xffff, 6, BLK_HEADER_END] b0" BLK_BUF_SIZE 3 "0xffef" 2]
  by (simp add: send_run_end_def test_end_block_def Let_def BLK_BUF_SIZE_def store_eq del: store.simps)

lemma concat_replicate_Suc: "concat (replicate (Suc n) xs) = concat (replicate n xs) @ xs"
  by (induction n) simp_all

lemma put_data_pow:
  "((put_data b) ^^ n) s = s\<lparr>vme_trace := vme_trace s @ concat (replicate n (put_ops (local_flag s) b))\<rparr>"
  by (induction n) (simp_all add: put_data_eq concat_replicate_Suc del: replicate.simps)

lemma puts_replicate: "ring_puts (concat (replicate n (put_ops loc b))) = (if loc then [] else replicate n b)"
  by (induction n) (auto simp: put_ops_def)

lemma framed_head: "start_framed b \<Longrightarrow> b[0 := 0xffff] = b"
  by (cases b) (auto simp: start_framed_def)

lemma test_body_step:
  assumes inv: "test_inv r s" and st: "seen s = Some st" and b: "test_body e s = Some s'"
  shows "\<exists>r' ops. run_next r st = Some r' \<and> test_inv r' s' \<and> vme_trace s' = vme_trace s @ ops \<and> local_flag s' = local_flag s \<and>
     test_shape (local_flag s) (st, ring_puts ops)"
proof -
  from inv st obtain r' where len: "length (buf s) = BLK_BUF_SIZE" and fr: "r \<Longrightarrow> start_framed (buf s)"
    and r: "run_next r st = Some r'" "status_fits r' (status s)"
    by (auto simp: test_inv_def simp del: run_next.simps)
  have next_inv: "test_inv r' t" if "seen t = None" "status t = status s" "length (buf t) = BLK_BUF_SIZE" "r' \<Longrightarrow> start_framed (buf t)" for t
    using that r by (simp add: test_inv_def)
  consider "st = RUN_START" | "st = RUN_ON" | "st = RUN_STOP" | "st = RUN_OFF"
    using r by (auto split: if_splits)
  then show ?thesis
  proof cases
    case 1
    let ?b = "send_run_start (t_now e) (buf s) BLK_BUF_SIZE (comment (mb s))"
    have f: "start_framed ?b"
      by (rule send_run_start_framed [OF len])
    have s': "s' = s\<lparr>seen := None, buf := ?b, vme_trace := vme_trace s @ put_ops (local_flag s) ?b\<rparr>"
      using b st 1 by (simp add: test_body_def test_start_def Let_def put_data_eq)
    have "test_inv r' s'"
      by (rule next_inv) (use f in \<open>simp_all add: s' start_framed_def\<close>)
    moreover have "test_shape (local_flag s) (st, ring_puts (put_ops (local_flag s) ?b))"
      using f 1 by (simp add: test_shape_def run_consts put_ops_def)
    ultimately show ?thesis
      using r(1) by (intro exI [of _ r'] exI [of _ "put_ops (local_flag s) ?b"]) (simp add: s')
  next
    case 2
    with r(1) have "r" by (auto simp: run_consts split: if_splits)
    with fr have f: "start_framed (buf s)" .
    let ?ops = "concat (replicate 28 (put_ops (local_flag s) (buf s)))"
    have s': "s' = s\<lparr>seen := None, count := count s + 1, vme_trace := vme_trace s @ ?ops\<rparr>"
      using b st 2 framed_head [OF f]
      by (auto simp: test_body_def test_on_def Let_def put_data_pow run_consts split: if_splits)
    have "test_inv r' s'"
      by (rule next_inv) (use f len in \<open>simp_all add: s'\<close>)
    moreover have "test_shape (local_flag s) (st, ring_puts ?ops)"
      unfolding puts_replicate using f 2 by (auto simp: test_shape_def run_consts)
    ultimately show ?thesis
      using r(1) by (intro exI [of _ r'] exI [of _ ?ops]) (simp add: s')
  next
    case 3
    have s': "s' = s\<lparr>seen := None, buf := test_end_block, count := 0, vme_trace := vme_trace s @ [RingPut test_end_block]\<rparr>"
      using b st 3 by (auto simp: test_body_def test_stop_def Let_def run_consts emit_def send_run_end_eq [OF len])
    have nr: "\<not> r'" and l: "length test_end_block = BLK_BUF_SIZE"
      using r(1) 3 by (auto simp: run_consts test_end_block_def BLK_BUF_SIZE_def split: if_splits)
    have "test_inv r' s'"
      by (rule next_inv) (use nr l in \<open>simp_all add: s'\<close>)
    moreover have "test_shape (local_flag s) (st, ring_puts [RingPut test_end_block])"
      using 3 by (simp add: test_shape_def run_consts)
    ultimately show ?thesis
      using r(1) by (intro exI [of _ r'] exI [of _ "[RingPut test_end_block]"]) (simp add: s')
  next
    case 4
    have s': "s' = s\<lparr>seen := None\<rparr>"
      using b st 4 by (simp add: test_body_def Let_def run_consts)
    have nr: "\<not> r'"
      using r(1) 4 by (auto simp: run_consts split: if_splits)
    have "test_inv r' s'"
      by (rule next_inv) (use nr len in \<open>simp_all add: s'\<close>)
    moreover have "test_shape (local_flag s) (st, ring_puts [])"
      using 4 by (simp add: test_shape_def run_consts)
    ultimately show ?thesis
      using r(1) by (intro exI [of _ r'] exI [of _ "[]"]) (simp add: s')
  qed
qed

lemma test_cmd_inv: "test_inv r s \<Longrightarrow> collect_cmd inp s = Go s' \<Longrightarrow> test_inv r s'"
  by (drule collect_cmd_cases) (auto simp: test_inv_def simp del: run_next.simps split: option.splits intro: status_fits_cmd)

lemma test_lock_inv: "test_inv r s \<Longrightarrow> seen s = None \<Longrightarrow> test_inv r (loop_lock s)"
  by (auto simp: test_inv_def loop_lock_def status_fits_def Let_def run_consts split: if_splits)

interpretation test_mode: readout_thread "\<lambda>_. True" test_body test_inv test_shape
  by unfold_locales (erule (1) test_cmd_inv, erule (1) test_lock_inv, erule (2) test_body_step)

section \<open>Lemmas on the client\<close>

lemma up_to_first:
  "x \<notin> set xs \<Longrightarrow> takeWhile (\<lambda>y. y \<noteq> x) (xs @ x # ys) = xs" "x \<notin> set xs \<Longrightarrow> dropWhile (\<lambda>y. y \<noteq> x) (xs @ x # ys) = x # ys"
  by (induction xs) auto

lemma strtok_run_comment:
  assumes "r \<noteq> []" and "CHR '','' \<notin> set r"
  shows "strtok {CHR '',''} (r @ '','' @ c) = Some (r, c)"
proof -
  have "hd r \<noteq> CHR '',''" "takeWhile (\<lambda>c. c \<noteq> CHR '','') (r @ '','' @ c) = r" "dropWhile (\<lambda>c. c \<noteq> CHR '','') (r @ '','' @ c) = '','' @ c"
    using assms up_to_first [OF assms(2), of c] by (auto simp: neq_Nil_conv)
  moreover from assms(1) this(1) have "dropWhile (\<lambda>c. c \<in> {CHR '',''}) (r @ '','' @ c) = r @ '','' @ c"
    by (cases r) auto
  ultimately show ?thesis
    by (simp add: strtok_def Let_def)
qed

lemma strtok_rest: "strtok {} c = (if c = [] then None else Some (c, []))"
proof -
  have "takeWhile (\<lambda>x. x \<notin> {}) c = c" "dropWhile (\<lambda>x. x \<notin> {}) c = []" "dropWhile (\<lambda>x. x \<in> {}) c = c"
    by (simp_all add: takeWhile_eq_all_conv dropWhile_eq_Nil_conv dropWhile_eq_self_iff)
  then show ?thesis
    by (simp add: strtok_def Let_def del: takeWhile_eq_all_conv dropWhile_eq_Nil_conv)
qed

lemma byte_of_htonl32: "drop_bit 24 (htonl32 w) = w AND 0xff" "drop_bit 16 (htonl32 w) AND 0xff = drop_bit 8 w AND 0xff"
  "drop_bit 8 (htonl32 w) AND 0xff = drop_bit 16 w AND 0xff" "htonl32 w AND 0xff = drop_bit 24 w"
proof -
  have m: "(0xff :: 32 word) = mask 8" "(0xff00 :: 32 word) = push_bit 8 (mask 8)" "(0xff0000 :: 32 word) = push_bit 16 (mask 8)"
    by (simp_all add: mask_eq_exp_minus_1 push_bit_eq_mult)
  show "drop_bit 24 (htonl32 w) = w AND 0xff" "drop_bit 16 (htonl32 w) AND 0xff = drop_bit 8 w AND 0xff"
    "drop_bit 8 (htonl32 w) AND 0xff = drop_bit 16 w AND 0xff" "htonl32 w AND 0xff = drop_bit 24 w"
    unfolding htonl32_def m
    by (rule bit_word_eqI; auto simp: bit_simps dest: bit_imp_le_length)+
qed

lemma htonl32_zero: "htonl32 w = 0 \<longleftrightarrow> w = 0"
proof
  assume z: "htonl32 w = 0"
  have m: "(0xff :: 32 word) = mask 8"
    by (simp add: mask_eq_exp_minus_1)
  have b: "w AND mask 8 = 0" "drop_bit 8 w AND mask 8 = 0" "drop_bit 16 w AND mask 8 = 0" "drop_bit 24 w = 0"
    using byte_of_htonl32 [of w] by (simp_all add: z m)
  show "w = 0"
  proof (rule bit_word_eqI)
    fix n assume n: "n < LENGTH(32)"
    have "\<not> bit w n"
    proof
      assume w: "bit w n"
      consider "n < 8" | "8 \<le> n" "n < 16" | "16 \<le> n" "n < 24" | "24 \<le> n" by linarith
      then show False
      proof cases
        case 1
        with w have "bit (w AND mask 8) n" by (simp add: bit_simps)
        with b show False by simp
      next
        case 2
        with w have "bit (drop_bit 8 w AND mask 8) (n - 8)" by (auto simp: bit_simps)
        with b show False by simp
      next
        case 3
        with w have "bit (drop_bit 16 w AND mask 8) (n - 16)" by (auto simp: bit_simps)
        with b show False by simp
      next
        case 4
        with w have "bit (drop_bit 24 w) (n - 24)" by (simp add: bit_simps)
        with b show False by simp
      qed
    qed
    then show "bit w n = bit 0 n" by simp
  qed
qed (simp add: htonl32_def)

text \<open>What the client sends for \<^verbatim>\<open>start run,comment\<close>.\<close>

definition start_sent :: "cmd_msgbuf \<Rightarrow> string \<Rightarrow> string \<Rightarrow> cmd_msgbuf" where
  "start_sent m r c = m\<lparr>command := char_of_cmd GR_CMD_START, cm_run := htonl32 (word_of_int (atoi r)),
     comment := c @ replicate (MAX_MSG - length c) CHR 0x00\<rparr>"

lemma grctrl_start:
  assumes "r \<noteq> []" and "CHR '','' \<notin> set r" and "length c < MAX_MSG"
  shows "grctrl m [''start'', r @ '','' @ c] = Sent (start_sent m r c)"
  using assms strtok_run_comment [OF assms(1,2)]
  by (simp add: start_request_def start_sent_def strtok_rest)

lemma int_of_char_of_cmd: "0 \<le> n \<Longrightarrow> n < 128 \<Longrightarrow> int_of_char (char_of_cmd n) = n"
proof -
  assume n: "0 \<le> n" "n < 128"
  have i: "(of_char c :: int) = int (of_char c :: nat)" for c :: char
    by (simp only: of_nat_of_char)
  have "(of_char (char_of (nat n) :: char) :: nat) = nat n"
    using n by simp
  with n show ?thesis
    unfolding int_of_char_def char_of_cmd_def i by (simp add: Let_def)
qed

lemmas cmd_codes = GR_CMD_VALID_def GR_CMD_START_def GR_CMD_STOP_def GR_CMD_RESET_def GR_CMD_INIT_def GR_CMD_EXIT_def

lemma start_sent_taken:
  assumes "status s = RUN_OFF"
  shows "collect_cmd (Some (start_sent m r c)) s =
    Go (s\<lparr>mb := (start_sent m r c)\<lparr>cm_run := if word_of_int (atoi r) = (0 :: 32 word) then 0 else 1\<rparr>, status := RUN_START\<rparr>)"
  using assms
  by (simp add: collect_cmd_def start_sent_def int_of_char_of_cmd cmd_codes Let_def swap_run_eq htonl32_zero)

lemma start_sent_comment:
  assumes "length c < MAX_MSG" and "CHR 0x00 \<notin> set c"
  shows "has_nul (start_sent m r c)" and "takeWhile (\<lambda>x. x \<noteq> CHR 0x00) (take MAX_MSG (comment (start_sent m r c))) = c"
proof -
  have "take MAX_MSG (comment (start_sent m r c)) = c @ CHR 0x00 # replicate (MAX_MSG - length c - 1) CHR 0x00"
    using assms(1) by (cases "MAX_MSG - length c") (simp_all add: start_sent_def)
  with assms(2) show "has_nul (start_sent m r c)"
    "takeWhile (\<lambda>x. x \<noteq> CHR 0x00) (take MAX_MSG (comment (start_sent m r c))) = c"
    by (simp_all add: has_nul_def up_to_first)
qed

lemma lock_after_start:
  assumes "gr_ok s" and "seen s = None" and "has_nul m"
  shows "\<exists>t. t = loop_lock (s\<lparr>mb := m, status := RUN_START\<rparr>) \<and> gr_ok t \<and> seen t = Some RUN_START \<and> status t = RUN_ON \<and>
    mb t = m \<and> local_flag t = local_flag s \<and> vme_trace t = vme_trace s"
  using assms by (simp add: loop_lock_def gr_ok_def Let_def)

text \<open>The second step of the iteration that starts a run, from any state that another command may have changed.\<close>

lemma body_after_start:
  assumes "gr_ok t" and "seen t = Some RUN_START" and "has_nul (mb t)" and "\<not> local_flag t"
  shows "\<exists>t' ops. loop_body h t = Some t' \<and> status t' = status t \<and> vme_trace t' = vme_trace t @ ops \<and>
    ring_puts ops = [run_block BLK_HEADER_START (now h) BLK_BUF_SIZE (mb t)]"
proof -
  let ?t = "t\<lparr>seen := None\<rparr>"
  have ok: "gr_ok ?t" "CHR 0x00 \<in> set (take MAX_MSG (comment (mb ?t)))"
    using assms by (simp_all add: gr_ok_def has_nul_def)
  have "loop_body h t = run_start h ?t"
    using assms(2) by (simp add: loop_body_def)
  with run_start_eq [OF ok, of h] assms(4) show ?thesis
    by (auto simp: same_run_def)
qed

lemma run_block_words: "run_block bid tm n m ! 2 = bid" "run_block bid tm n m ! 12 = ucast (cm_run m)"
  by (simp_all add: run_block_def run_header_def Let_def)

section \<open>Properties\<close>

text \<open>C18: A run started from the control client with \<^verbatim>\<open>start <run>,<comment>\<close> when the collector is idle reaches the data:
  the command thread turns the collector to starting, and the next iteration of the read out loop writes one run start block,
  which carries the comment as it was typed and the time, and leaves the collector taking data. Of the run number
  only remains whether it is zero.\<close>

theorem start_command_reaches_run_start:
  assumes "r \<noteq> []" and "CHR '','' \<notin> set r" and "length c < MAX_MSG" and "CHR 0x00 \<notin> set c"
    and "gr_ok s" and "status s = RUN_OFF" and "seen s = None" and "\<not> local_flag s"
  shows "\<exists>s1 s2 b. control m [''start'', r @ '','' @ c] s = Go s1 \<and> status s1 = RUN_START \<and>
     loop_body h (loop_lock s1) = Some s2 \<and> status s2 = RUN_ON \<and> ring_puts (vme_trace s2) = ring_puts (vme_trace s) @ [b] \<and>
     b ! 2 = BLK_HEADER_START \<and> read_comment b = c \<and> read_time b = now h mod 2 ^ 32 \<and>
     b ! 12 = (if word_of_int (atoi r) = (0 :: 32 word) then 0 else 1)"
proof -
  define msg where "msg = (start_sent m r c)\<lparr>cm_run := if word_of_int (atoi r) = (0 :: 32 word) then 0 else 1\<rparr>"
  have msg: "has_nul msg" "takeWhile (\<lambda>x. x \<noteq> CHR 0x00) (take MAX_MSG (comment msg)) = c"
    using start_sent_comment [OF assms(3,4)] by (simp_all add: msg_def)
  define s1 where "s1 = s\<lparr>mb := msg, status := RUN_START\<rparr>"
  have s1: "control m [''start'', r @ '','' @ c] s = Go s1" "status s1 = RUN_START"
    unfolding control_def grctrl_start [OF assms(1-3)] ctrl_end.case start_sent_taken [OF assms(6)]
    by (simp_all add: s1_def msg_def)
  from lock_after_start [OF assms(5,7) msg(1)] have t: "gr_ok (loop_lock s1)" "seen (loop_lock s1) = Some RUN_START"
    "status (loop_lock s1) = RUN_ON" "mb (loop_lock s1) = msg" "\<not> local_flag (loop_lock s1)" "vme_trace (loop_lock s1) = vme_trace s"
    using assms(8) by (auto simp: s1_def)
  have "has_nul (mb (loop_lock s1))"
    unfolding t(4) by (rule msg(1))
  from body_after_start [OF t(1,2) this t(5), of h, unfolded t(3,4,6)] obtain s2 ops where s2: "loop_body h (loop_lock s1) = Some s2" "status s2 = RUN_ON"
    "vme_trace s2 = vme_trace s @ ops" "ring_puts ops = [run_block BLK_HEADER_START (now h) BLK_BUF_SIZE msg]"
    by blast
  have "read_comment (run_block BLK_HEADER_START (now h) BLK_BUF_SIZE msg) = c"
    using read_comment_run_block [OF BLK_BUF_SIZE_bounds(2)] msg by (simp add: has_nul_def)
  moreover have "run_block BLK_HEADER_START (now h) BLK_BUF_SIZE msg ! 12 = (if word_of_int (atoi r) = (0 :: 32 word) then 0 else 1)"
    by (simp add: run_block_words msg_def)
  ultimately show ?thesis
    using s1 s2 read_time_run_block [of BLK_HEADER_START "now h" BLK_BUF_SIZE msg]
    by (intro exI [of _ s1] exI [of _ s2] exI [of _ "run_block BLK_HEADER_START (now h) BLK_BUF_SIZE msg"])
      (simp add: run_block_words)
qed

theorem start_command_reaches_run_start_witness:
  "\<exists>s1 s2 b. control zero_msg [''start'', ''2047,Pb target''] (demo_boot False) = Go s1 \<and> loop_body demo_hw (loop_lock s1) = Some s2 \<and>
     ring_puts (vme_trace s2) = [b] \<and> read_comment b = ''Pb target'' \<and> b ! 12 = 1"
proof -
  have d: "gr_ok (demo_boot False)" "status (demo_boot False) = RUN_OFF" "seen (demo_boot False) = None" "\<not> local_flag (demo_boot False)"
    "ring_puts (vme_trace (demo_boot False)) = []"
    by (simp_all add: demo_boot_def gr_boot_def collect_init_def emit_def gr_ok_def boot_ops)
  have a: "atoi ''2047'' = 2047"
    by (simp add: atoi_def is_digit_def)
  have c: "length ''Pb target'' < MAX_MSG" "CHR 0x00 \<notin> set ''Pb target''" "''2047'' \<noteq> []" "CHR '','' \<notin> set ''2047''"
    by (simp_all add: MAX_MSG_def)
  from start_command_reaches_run_start [OF c(3,4,1,2) d(1-4), of zero_msg demo_hw] d(5) a show ?thesis
    by auto
qed

text \<open>The control client changes the collector in no other way than by its command word: \<^verbatim>\<open>exit\<close> ends the collector,
  \<^verbatim>\<open>start\<close> takes an idle collector to starting, \<^verbatim>\<open>stop\<close> takes one that starts or runs to stopping, and everything else
  (no arguments, an unknown word, a comment that is too long, a missing run number) leaves the run state, the buffers and what
  was written as they are; where the client sends nothing, the command message of the run stays too.\<close>

theorem control_changes_run_state_only:
  shows "(control m args s = Exit0 \<longleftrightarrow> args \<noteq> [] \<and> hd args = ''exit'') \<and>
    (\<forall>s'. control m args s = Go s' \<longrightarrow>
       s' = s\<lparr>mb := mb s', status := status s'\<rparr> \<and>
       (status s' = status s \<or>
        args \<noteq> [] \<and> hd args = ''start'' \<and> status s = RUN_OFF \<and> status s' = RUN_START \<or>
        args \<noteq> [] \<and> hd args = ''stop'' \<and> (status s = RUN_ON \<or> status s = RUN_START) \<and> status s' = RUN_STOP) \<and>
       ((\<forall>msg. grctrl m args \<noteq> Sent msg) \<longrightarrow> s' = s))"
proof -
  have st: "start_request m a \<noteq> UsageExit \<and> (\<forall>msg. start_request m a = Sent msg \<longrightarrow> command msg = char_of_cmd GR_CMD_START)" for a
    by (auto simp: start_request_def Let_def split: option.splits prod.splits if_splits)
  show ?thesis
  proof (cases args)
    case Nil
    then show ?thesis by (simp add: control_def)
  next
    case (Cons w rest)
    let ?a = "case rest of [] \<Rightarrow> None | a # _ \<Rightarrow> Some a"
    consider "w = ''start''" | "w = ''stop''" | "w = ''reset''" | "w = ''init''" | "w = ''exit''"
      | "w \<noteq> ''start''" "w \<noteq> ''stop''" "w \<noteq> ''reset''" "w \<noteq> ''init''" "w \<noteq> ''exit''"
      by blast
    then show ?thesis
    proof cases
      case 1
      with Cons st [of ?a] show ?thesis
        by (cases "start_request m ?a")
          (auto simp: control_def collect_cmd_def int_of_char_of_cmd cmd_codes run_consts Let_def)
    next
      case 6
      with Cons show ?thesis by (auto simp: control_def collect_cmd_def)
    qed (use Cons in \<open>auto simp: control_def collect_cmd_def int_of_char_of_cmd cmd_codes run_consts Let_def\<close>)
  qed
qed

text \<open>C19: The test mode keeps the run protocol as the read out of the modules does, however commands and signals fall:
  a run is one block that starts it, data blocks 28 at a time and one block that ends it, and nothing is written between
  runs. The data blocks are the block that started the run, over and over. In local mode, where nothing takes blocks from
  the ring buffer, the end blocks are put there all the same.\<close>

theorem test_run_keeps_protocol:
  assumes "length b = BLK_BUF_SIZE" and "thread_run (\<lambda>_. True) test_body (test_boot loc b c) ps s"
  shows "(\<exists>r. run_protocol False (map fst ps) = Some r) \<and> (\<forall>p\<in>set ps. test_shape loc p) \<and>
     ring_puts (vme_trace s) = concat (map snd ps)"
proof -
  have "test_inv False (test_boot loc b c)"
    using assms(1) by (simp add: test_inv_def test_boot_def status_fits_def)
  from test_mode.keeps_protocol [OF assms(2) this] show ?thesis
    by (auto simp: test_boot_def)
qed

theorem test_run_keeps_protocol_witness:
  "\<exists>ps s. thread_run (\<lambda>_. True) test_body (test_boot True (replicate BLK_BUF_SIZE 0) 0) ps s \<and>
     run_protocol False (map fst ps) \<noteq> None \<and> ring_puts (vme_trace s) = [test_end_block]"
proof -
  let ?b = "replicate BLK_BUF_SIZE 0 :: blk"
  let ?s0 = "test_boot True ?b 0"
  let ?s1 = "?s0\<lparr>mb := start_msg\<lparr>cm_run := swap_run 2047\<rparr>, status := RUN_START\<rparr>"
  let ?s2 = "?s1\<lparr>mb := stop_msg\<lparr>cm_run := swap_run 2047\<rparr>, status := RUN_STOP\<rparr>"
  let ?s3 = "?s2\<lparr>status := RUN_OFF, seen := Some RUN_STOP\<rparr>"
  let ?s4 = "?s3\<lparr>seen := None, buf := test_end_block, vme_trace := [RingPut test_end_block], count := 0\<rparr>"
  let ?e = "\<lparr>t_now = 0, t_interval = (1, 0), t_signal = False\<rparr>"
  have c: "collect_cmd (Some start_msg) ?s0 = Go ?s1" "collect_cmd (Some stop_msg) ?s1 = Go ?s2"
    by (simp_all add: collect_cmd_def start_msg_def stop_msg_def test_boot_def int_of_char_def cmd_codes run_consts Let_def of_char_def)
  have l: "loop_lock ?s2 = ?s3"
    by (simp add: loop_lock_def test_boot_def run_consts Let_def)
  have b: "test_body ?e ?s3 = Some ?s4"
    using send_run_end_eq [of ?b] by (simp add: test_body_def test_stop_def test_boot_def run_consts Let_def emit_def)
  have "thread_run (\<lambda>_. True) test_body ?s0 [] ?s2"
    by (rule thread_run.cmd [OF thread_run.cmd [OF thread_run.start _ c(1)] _ c(2)]) simp_all
  then have "thread_run (\<lambda>_. True) test_body ?s0 [] ?s3"
    using thread_run.lock [of _ _ _ "[]" ?s2] l by (simp add: test_boot_def)
  from thread_run.body [OF this _ b, of RUN_STOP]
  have r: "thread_run (\<lambda>_. True) test_body ?s0 [(RUN_STOP, [test_end_block])] ?s4"
    by (simp add: test_boot_def)
  from test_run_keeps_protocol [OF _ r] r show ?thesis
    by fastforce
qed

section \<open>The interval of the test mode\<close>

definition interval_unit :: "char \<Rightarrow> int option" where
  "interval_unit c =
     (if c = CHR ''s'' then Some 1000000000 else if c = CHR ''m'' then Some 1000000
      else if c = CHR ''u'' then Some 1000 else None)"

lemma gr_options_append: "gr_options (xs @ ys) p = Option.bind (gr_options xs p) (gr_options ys)"
  by (induction xs p rule: gr_options.induct) (auto split: bind_splits)

lemma gr_option_interval:
  "gr_option c arg p = Some q \<Longrightarrow> c \<noteq> CHR ''t'' \<Longrightarrow> interval_unit c = None \<Longrightarrow> o_t1 q = o_t1 p"
  by (auto simp: gr_option_def interval_unit_def Let_def split: if_splits)

lemma gr_options_keep_interval:
  "gr_options xs p = Some q \<Longrightarrow> (\<forall>x\<in>set xs. fst x \<noteq> CHR ''t'' \<and> interval_unit (fst x) = None) \<Longrightarrow> o_t1 q = o_t1 p"
  by (induction xs p rule: gr_options.induct) (auto simp: bind_eq_Some_conv dest: gr_option_interval)

text \<open>The interval of the test mode: with \<^verbatim>\<open>-s\<close>, \<^verbatim>\<open>-m\<close> or \<^verbatim>\<open>-u\<close> and a number that is not negative, the loop
  sleeps that many seconds, milliseconds or microseconds, split so that \<^verbatim>\<open>nanosleep\<close> accepts it, whatever the other options
  are and in which order they come, as long as no later option sets the interval again.\<close>

theorem interval_is_slept:
  assumes "gr_options (pre @ (c, arg) # post) p = Some q" and "interval_unit c = Some k"
    and "\<forall>x\<in>set post. fst x \<noteq> CHR ''t'' \<and> interval_unit (fst x) = None"
    and "0 \<le> atoi arg" and "atoi arg < 2 ^ 31"
  shows "nanosleep (o_t1 q) False \<and> fst (o_t1 q) * 1000000000 + snd (o_t1 q) = atoi arg * k"
proof -
  define n where "n = atoi arg"
  have n: "0 \<le> n" "c_int n = n"
    using assms(4,5) by (simp_all add: n_def c_int_id)
  from assms(1) obtain p1 p2 where p2: "gr_option c arg p1 = Some p2" "gr_options post p2 = Some q"
    by (auto simp: gr_options_append bind_eq_Some_conv)
  have "o_t1 q = o_t1 p2"
    by (rule gr_options_keep_interval [OF p2(2) assms(3)])
  then have q: "o_t1 q = (if c = CHR ''s'' then (n, 0) else if c = CHR ''m'' then (n div 1000, n mod 1000 * 1000000)
       else (n div 1000000, n mod 1000000 * 1000))"
    using p2(1) assms(2) n
    by (auto simp: gr_option_def Let_def n_def [symmetric] interval_unit_def c_div_nonneg c_mod_nonneg split: if_splits)
  have m: "n mod 1000 < 1000" "0 \<le> n mod 1000" "n mod 1000000 < 1000000" "0 \<le> n mod 1000000"
    by simp_all
  have "n div 1000 * 1000000000 + n mod 1000 * 1000000 = n * 1000000"
    "n div 1000000 * 1000000000 + n mod 1000000 * 1000 = n * 1000"
    using div_mult_mod_eq [of n 1000] div_mult_mod_eq [of n 1000000] by linarith+
  with q m assms(2) n(1) show ?thesis
    unfolding n_def [symmetric] nanosleep_def interval_unit_def
    by (auto simp: pos_imp_zdiv_nonneg_iff split: if_splits)
qed

theorem interval_is_slept_witness:
  "\<exists>q. gr_options [(CHR ''t'', []), (CHR ''m'', ''2500''), (CHR ''Q'', [])] default_opts = Some q \<and>
     fst (o_t1 q) * 1000000000 + snd (o_t1 q) = 2500000000 \<and> gr_threads q = [CollectTest, CollectTcpServ]"
proof -
  have a: "atoi ''2500'' = 2500"
    by (simp add: atoi_def is_digit_def)
  have o: "gr_options ([(CHR ''t'', [])] @ (CHR ''m'', ''2500'') # [(CHR ''Q'', [])]) default_opts =
      Some \<lparr>o_test = True, o_local = False, o_t1 = (2, 500000000), o_max_que = 64, o_quiet = True\<rparr>"
    by (simp add: a gr_option_def default_opts_def c_int_id c_div_nonneg c_mod_nonneg Let_def)
  from interval_is_slept [OF o, of 1000000] a o show ?thesis
    by (simp add: interval_unit_def gr_threads_def)
qed

section \<open>Limits\<close>

text \<open>
  A command between the two steps of an iteration replaces the message the second step reads. The client leaves its
  message as it finds it on the stack when it sends \<^verbatim>\<open>stop\<close>, so the run start block of a run that is stopped at once
  can carry any comment.
\<close>

theorem early_stop_spoils_run_start:
  assumes "gr_ok s" and "seen s = Some RUN_START" and "status s = RUN_ON" and "\<not> local_flag s" and "has_nul m"
  shows "\<exists>s1 s2 b. control m [''stop''] s = Go s1 \<and> loop_body h s1 = Some s2 \<and>
     ring_puts (vme_trace s2) = ring_puts (vme_trace s) @ [b] \<and> b ! 2 = BLK_HEADER_START \<and>
     read_comment b = takeWhile (\<lambda>x. x \<noteq> CHR 0x00) (take MAX_MSG (comment m))"
proof -
  let ?m = "m\<lparr>command := char_of_cmd GR_CMD_STOP, cm_run := swap_run (cm_run m)\<rparr>"
  let ?s1 = "s\<lparr>mb := ?m, status := RUN_STOP\<rparr>"
  have c: "control m [''stop''] s = Go ?s1"
    using assms(3) by (simp add: control_def collect_cmd_def int_of_char_of_cmd cmd_codes run_consts Let_def)
  have n: "has_nul ?m"
    using assms(5) by (simp add: has_nul_def)
  from body_after_start [of ?s1 h] n assms obtain s2 ops where "loop_body h ?s1 = Some s2" "vme_trace s2 = vme_trace s @ ops"
    "ring_puts ops = [run_block BLK_HEADER_START (now h) BLK_BUF_SIZE ?m]"
    by (auto simp: gr_ok_def)
  with c n read_comment_run_block [OF BLK_BUF_SIZE_bounds(2), of ?m BLK_HEADER_START "now h"] show ?thesis
    by (intro exI [of _ ?s1] exI [of _ s2] exI [of _ "run_block BLK_HEADER_START (now h) BLK_BUF_SIZE ?m"])
      (simp add: run_block_words has_nul_def)
qed

text \<open>When there is no 0 among the characters on the stack, the run start block cannot be made at all.\<close>

theorem early_stop_without_comment:
  assumes "seen s = Some RUN_START" and "status s = RUN_ON" and "\<not> has_nul m"
  shows "\<exists>s1. control m [''stop''] s = Go s1 \<and> loop_body h s1 = None"
proof -
  let ?s1 = "s\<lparr>mb := m\<lparr>command := char_of_cmd GR_CMD_STOP, cm_run := swap_run (cm_run m)\<rparr>, status := RUN_STOP\<rparr>"
  have "control m [''stop''] s = Go ?s1"
    using assms(2) by (simp add: control_def collect_cmd_def int_of_char_of_cmd cmd_codes run_consts Let_def)
  moreover have "loop_body h ?s1 = None"
    using assms(1,3) run_start_unterminated [of "?s1\<lparr>seen := None\<rparr>" h] by (simp add: loop_body_def has_nul_def)
  ultimately show ?thesis by blast
qed

text \<open>\<^verbatim>\<open>start\<close> without a run number is not refused: the client reads through a null pointer.\<close>

theorem start_without_number_crashes: "grctrl m [''start''] = Crash" "grctrl m [''start'', '',beam''] = Sent (start_sent m ''beam'' [])"
  by (simp_all add: start_request_def strtok_def start_sent_def)

text \<open>A signal during the sleep of the test mode ends the collector, though the handler says that it is ignored.\<close>

theorem signal_ends_test_mode: "seen s = Some RUN_ON \<Longrightarrow> t_signal e \<Longrightarrow> test_body e s = None"
  by (simp add: test_body_def test_on_def nanosleep_def Let_def run_consts)

section \<open>The run state\<close>

text \<open>The run state fits the run that is going on: between two iterations, and within one what the loop has seen.\<close>

definition state_fits :: "bool \<Rightarrow> gr \<Rightarrow> bool" where
  "state_fits r s \<longleftrightarrow>
     (case seen s of
        None \<Rightarrow> status s \<in> (if r then {RUN_ON, RUN_STOP} else {RUN_OFF, RUN_START, RUN_STOP})
      | Some st \<Rightarrow>
          (r \<and> st = RUN_ON \<or> \<not> r \<and> st = RUN_START) \<and> status s \<in> {RUN_ON, RUN_STOP} \<or>
          (r \<and> st = RUN_STOP \<or> \<not> r \<and> st \<in> {RUN_STOP, RUN_OFF}) \<and> status s \<in> {RUN_OFF, RUN_START, RUN_STOP})"

lemma state_fits_inv:
  fixes s :: gr
  assumes "case seen s of None \<Rightarrow> status_fits r (status s) | Some st \<Rightarrow> (\<exists>r'. run_next r st = Some r' \<and> status_fits r' (status s))"
  shows "state_fits r s"
proof (cases "seen s")
  case None
  with assms show ?thesis by (auto simp: state_fits_def status_fits_def split: if_splits)
next
  case (Some st)
  with assms obtain r' where "run_next r st = Some r'" "status_fits r' (status s)"
    by auto
  with Some show ?thesis
    by (auto simp: state_fits_def status_fits_def run_consts split: if_splits)
qed

text \<open>C20: The run state that the threads share always fits the run that the blocks written so far show, in the read out of
  the modules as in the test mode: between two iterations it is on or stopping exactly inside a run, off, starting or stopping
  outside; and within an iteration, whatever commands came in after the loop has left the lock, the state that the loop has seen is
  one that may follow, and the shared one belongs to the run that it leads to. The branch for an undefined state, which keeps
  the lock, is never taken.\<close>

theorem run_state_fits_the_run:
  assumes "length b = BLK_BUF_SIZE" and "length sb = BLK_BUF_SIZE"
  shows "(gr_run (gr_boot loc b sb) ps s \<longrightarrow>
      (\<exists>r. run_protocol False (map fst ps) = Some r \<and> state_fits r s)) \<and>
    (thread_run (\<lambda>_. True) test_body (test_boot loc b c) qs t \<longrightarrow>
      (\<exists>r. run_protocol False (map fst qs) = Some r \<and> state_fits r t))"
proof (intro conjI impI)
  assume "gr_run (gr_boot loc b sb) ps s"
  from modules.keeps_protocol [OF gr_run_thread [OF this] gr_boot_inv [OF assms]] obtain r where
    r: "run_protocol False (map fst ps) = Some r" "gr_inv r s"
    by (auto simp: comp_def simp del: run_next.simps)
  have "state_fits r s"
    by (rule state_fits_inv) (use r(2) in \<open>simp add: gr_inv_def del: run_next.simps\<close>)
  with r(1) show "\<exists>r. run_protocol False (map fst ps) = Some r \<and> state_fits r s" by blast
next
  assume r: "thread_run (\<lambda>_. True) test_body (test_boot loc b c) qs t"
  have "test_inv False (test_boot loc b c)"
    using assms(1) by (simp add: test_inv_def test_boot_def status_fits_def)
  with test_mode.keeps_protocol [OF r] obtain r' where r': "run_protocol False (map fst qs) = Some r'" "test_inv r' t"
    by blast
  have "state_fits r' t"
    by (rule state_fits_inv) (use r'(2) in \<open>simp add: test_inv_def del: run_next.simps\<close>)
  with r'(1) show "\<exists>r. run_protocol False (map fst qs) = Some r \<and> state_fits r t" by blast
qed

theorem run_state_fits_the_run_witness:
  "\<exists>ps s. gr_run (demo_boot True) ps s \<and> map fst ps = [RUN_START] \<and> status s \<in> {RUN_ON, RUN_STOP}"
proof -
  obtain ps s where r: "gr_run (demo_boot True) ps s" "map fst ps = [RUN_START]" "seen s = None"
    using gr_demo_run [of True] by (elim exE conjE) auto
  have l: "length (replicate BLK_BUF_SIZE 0 :: blk) = BLK_BUF_SIZE" by simp
  from conjunct1 [OF run_state_fits_the_run [OF l l], THEN mp, OF r(1) [unfolded demo_boot_def]]
  obtain k where k: "run_protocol False [RUN_START] = Some k" "state_fits k s"
    unfolding r(2) by blast
  from k(1) have "k" by (simp add: run_consts)
  with k(2) r(3) have "status s \<in> {RUN_ON, RUN_STOP}" by (simp add: state_fits_def)
  with r show ?thesis
    by (intro exI [of _ ps] exI [of _ s] conjI)
qed

end
