(* ===== verification/Config.thy ===== *)
theory Config
  imports Udaq_Prelude
begin

text \<open>
  The configuration files of the VME data acquisition (\<^verbatim>\<open>config/config.c\<close>): recognition of lines by regular expressions,
  the table of parameters, and the conversion of values to numbers. \<^verbatim>\<open>long\<close> has 32 bits, as on the machines the
  programs are built for.

  \<^verbatim>\<open>errno\<close> is part of the state: the code tests it after a conversion and nothing ever sets it back to 0.
\<close>

section \<open>Regular expressions\<close>

text \<open>
  The expressions of the file are sequences of character classes, each once, optional, or repeated. An item carries the
  number of the group it stands in (0 outside of groups); an expression ends with \<^verbatim>\<open>$\<close> or not. All of them start with
  \<^verbatim>\<open>^\<close>.
\<close>

datatype quant = One | Opt | Star | Plus

type_synonym cls = "char \<Rightarrow> bool"
type_synonym item = "nat \<times> quant \<times> cls"
type_synonym regex = "item list \<times> bool"

fun fits :: "quant \<Rightarrow> cls \<Rightarrow> string \<Rightarrow> bool" where
  "fits One C u \<longleftrightarrow> length u = 1 \<and> list_all C u"
| "fits Opt C u \<longleftrightarrow> length u \<le> 1 \<and> list_all C u"
| "fits Star C u \<longleftrightarrow> list_all C u"
| "fits Plus C u \<longleftrightarrow> u \<noteq> [] \<and> list_all C u"

text \<open>A match of an expression: one string for every item.\<close>

definition is_match :: "regex \<Rightarrow> string \<Rightarrow> string list \<Rightarrow> bool" where
  "is_match r s ps \<longleftrightarrow>
     list_all2 (\<lambda>(g, q, C) u. fits q C u) (fst r) ps \<and>
     (\<exists>rest. s = concat ps @ rest \<and> (snd r \<longrightarrow> rest = []))"

text \<open>The matcher takes as much as it can for every item, which loses nothing for the expressions of the program.\<close>

fun bite :: "quant \<Rightarrow> cls \<Rightarrow> string \<Rightarrow> (string \<times> string) option" where
  "bite One C s = (case s of [] \<Rightarrow> None | c # s' \<Rightarrow> if C c then Some ([c], s') else None)"
| "bite Opt C s = (case s of [] \<Rightarrow> Some ([], []) | c # s' \<Rightarrow> if C c then Some ([c], s') else Some ([], s))"
| "bite Star C s = Some (takeWhile C s, dropWhile C s)"
| "bite Plus C s = (if takeWhile C s = [] then None else Some (takeWhile C s, dropWhile C s))"

fun scan :: "item list \<Rightarrow> string \<Rightarrow> (string list \<times> string) option" where
  "scan [] s = Some ([], s)"
| "scan ((g, q, C) # r) s =
     (case bite q C s of
        None \<Rightarrow> None
      | Some (u, s') \<Rightarrow> (case scan r s' of None \<Rightarrow> None | Some (ps, rest) \<Rightarrow> Some (u # ps, rest)))"

definition regexec :: "regex \<Rightarrow> string \<Rightarrow> string list option" where
  "regexec r s = (case scan (fst r) s of None \<Rightarrow> None | Some (ps, rest) \<Rightarrow> if snd r \<and> rest \<noteq> [] then None else Some ps)"

text \<open>\<^verbatim>\<open>pmatch[k]\<close>: what the items of group \<open>k\<close> have matched.\<close>

definition group :: "regex \<Rightarrow> nat \<Rightarrow> string list \<Rightarrow> string" where
  "group r k ps = concat (map snd (filter (\<lambda>(it, u). fst it = k) (zip (fst r) ps)))"

text \<open>Expressions in which every choice is decided by the next character.\<close>

fun nullable :: "quant \<Rightarrow> bool" where
  "nullable One = False" | "nullable Opt = True" | "nullable Star = True" | "nullable Plus = False"

fun first_char :: "item list \<Rightarrow> cls" where
  "first_char [] c \<longleftrightarrow> False"
| "first_char ((g, q, C) # r) c \<longleftrightarrow> C c \<or> nullable q \<and> first_char r c"

fun decided :: "bool \<Rightarrow> item list \<Rightarrow> bool" where
  "decided e [] \<longleftrightarrow> True"
| "decided e ((g, q, C) # r) \<longleftrightarrow>
     (q = One \<or> (\<forall>c. C c \<longrightarrow> \<not> first_char r c) \<and> (e \<or> \<not> list_all (\<lambda>(g, q, C). nullable q) r)) \<and> decided e r"

lemma scan_is_match:
  assumes "scan r s = Some (ps, rest)"
  shows "list_all2 (\<lambda>(g, q, C) u. fits q C u) r ps \<and> s = concat ps @ rest"
  using assms
proof (induction r s arbitrary: ps rule: scan.induct)
  case (2 g q C r s)
  then obtain u s' qs where b: "bite q C s = Some (u, s')" and sc: "scan r s' = Some (qs, rest)" "ps = u # qs"
    by (auto split: option.splits)
  have "fits q C u \<and> s = u @ s'"
    using b by (cases q) (auto simp: list_all_iff dest: set_takeWhileD split: list.splits if_splits)
  then show ?case
    using 2(1) [OF b refl sc(1)] sc(2) by auto
qed auto

lemma takeWhile_dropWhile_append:
  assumes "list_all C u" and "\<And>c t'. t = c # t' \<Longrightarrow> \<not> C c"
  shows "takeWhile C (u @ t) = u" "dropWhile C (u @ t) = t"
  using assms by (induction u; cases t; auto)+

lemma match_next:
  assumes "list_all2 (\<lambda>(g, q, C) u. fits q C u) r ps" and "concat ps @ rest = c # t"
    and "\<not> list_all (\<lambda>(g, q, C). nullable q) r \<or> rest = []"
  shows "first_char r c"
  using assms
proof (induction r ps rule: list_all2_induct)
  case (Cons x xs u us)
  obtain g q C where x: "x = (g, q, C)" by (cases x) auto
  show ?case
  proof (cases u)
    case Nil
    then have "nullable q" using Cons.hyps(1) x by (cases q) auto
    then show ?thesis using Cons Nil x by auto
  next
    case (Cons a list)
    then show ?thesis using Cons.hyps(1) Cons.prems x by (cases q) auto
  qed
qed auto

lemma bite_fits:
  assumes "fits q C u" and "q = One \<or> (\<forall>c t'. t = c # t' \<longrightarrow> \<not> C c)"
  shows "bite q C (u @ t) = Some (u, t)"
proof (cases q)
  case One
  then show ?thesis using assms by (cases u) auto
next
  case Opt
  then show ?thesis using assms by (cases u; cases t) auto
qed (use assms in \<open>auto simp: takeWhile_dropWhile_append\<close>)

lemma is_match_scan:
  assumes "list_all2 (\<lambda>(g, q, C) u. fits q C u) r ps" and "decided e r" and "e \<longrightarrow> rest = []"
  shows "scan r (concat ps @ rest) = Some (ps, rest)"
  using assms
proof (induction r ps rule: list_all2_induct)
  case (Cons x xs u us)
  obtain g q C where x: "x = (g, q, C)" by (cases x) auto
  have "q = One \<or> (\<forall>c t'. concat us @ rest = c # t' \<longrightarrow> \<not> C c)"
    using Cons.hyps(2) Cons.prems x match_next [of xs us rest] by auto
  then have "bite q C (u @ (concat us @ rest)) = Some (u, concat us @ rest)"
    using Cons.hyps(1) x by (intro bite_fits) auto
  then show ?case using Cons x by auto
qed auto

text \<open>Whatever strategy a matcher follows, it finds what \<open>regexec\<close> finds.\<close>

lemma regexec_unique:
  assumes "decided (snd r) (fst r)"
  shows "regexec r s = Some ps \<longleftrightarrow> is_match r s ps"
proof
  assume "regexec r s = Some ps"
  then show "is_match r s ps"
    by (auto simp: regexec_def is_match_def split: option.splits if_splits dest!: scan_is_match)
next
  assume "is_match r s ps"
  then obtain rest where l: "list_all2 (\<lambda>(g, q, C) u. fits q C u) (fst r) ps"
    and s: "s = concat ps @ rest" "snd r \<longrightarrow> rest = []"
    by (auto simp: is_match_def)
  then show "regexec r s = Some ps"
    using is_match_scan [OF l assms s(2)] by (auto simp: regexec_def)
qed

section \<open>The expressions of the file\<close>

definition blank :: cls where "blank c \<longleftrightarrow> c = CHR '' '' \<or> c = CHR 0x09"
definition white :: cls where "white c \<longleftrightarrow> blank c \<or> c = CHR 0x0D \<or> c = CHR 0x0A"
definition sign :: cls where "sign c \<longleftrightarrow> c = CHR ''+'' \<or> c = CHR ''-''"
definition hex_digit :: cls where "hex_digit c \<longleftrightarrow> is_digit c \<or> CHR ''a'' \<le> c \<and> c \<le> CHR ''f''"
definition name_char :: cls where
  "name_char c \<longleftrightarrow> CHR ''A'' \<le> c \<and> c \<le> CHR ''Z'' \<or> CHR ''a'' \<le> c \<and> c \<le> CHR ''z'' \<or> is_digit c \<or> c = CHR ''_''"

text \<open>Inside of brackets a backslash stands for itself: \<^verbatim>\<open>[A-Za-z0-9_\\.]\<close> has it as well.\<close>

definition value_char :: cls where "value_char c \<longleftrightarrow> name_char c \<or> c = CHR 0x5C \<or> c = CHR ''.''"

abbreviation lit :: "char \<Rightarrow> item" where "lit c \<equiv> (0, One, (\<lambda>d. d = c))"
abbreviation blanks :: item where "blanks \<equiv> (0, Star, blank)"

definition preg_num1 :: regex where "preg_num1 = ([blanks, (1, Opt, sign), (1, Plus, is_digit), blanks], True)"
definition preg_num2 :: regex where
  "preg_num2 = ([blanks, (1, One, (\<lambda>d. d = CHR ''0'')), (1, One, (\<lambda>d. d = CHR ''x'')), (1, Plus, hex_digit), blanks], True)"
definition preg_num3 :: regex where
  "preg_num3 = ([blanks, (1, Opt, sign), (1, Plus, is_digit), (1, One, (\<lambda>d. d = CHR ''.'')), (1, Plus, is_digit), blanks], True)"

definition comment_char :: cls where "comment_char c \<longleftrightarrow> c = CHR ''#'' \<or> c = CHR '';''"

definition pregc1 :: regex where "pregc1 = ([(0, Star, white)], True)"
definition pregc2 :: regex where "pregc2 = ([blanks, (0, One, comment_char)], False)"
definition pregc3 :: regex where "pregc3 = ([blanks, lit (CHR ''/''), lit (CHR ''/'')], False)"

abbreviation def_items :: "item list" where
  "def_items \<equiv> [blanks, (1, Plus, name_char), blanks, lit (CHR ''=''), blanks, (2, Opt, sign), (2, Plus, value_char)]"
abbreviation defi_items :: "item list" where
  "defi_items \<equiv> [blanks, (1, Plus, name_char), blanks, lit (CHR ''[''), blanks, (2, Opt, sign), (2, Plus, value_char),
     blanks, lit (CHR '']''), blanks, lit (CHR ''=''), blanks, (3, Opt, sign), (3, Plus, value_char)]"
abbreviation tails :: "item list list" where
  "tails \<equiv> [[(0, Star, white)], [blanks, (0, One, comment_char)], [blanks, lit (CHR ''/''), lit (CHR ''/'')]]"

definition pregdef1 :: regex where "pregdef1 = (def_items @ tails ! 0, True)"
definition pregdef2 :: regex where "pregdef2 = (def_items @ tails ! 1, False)"
definition pregdef3 :: regex where "pregdef3 = (def_items @ tails ! 2, False)"
definition pregdefi1 :: regex where "pregdefi1 = (defi_items @ tails ! 0, True)"
definition pregdefi2 :: regex where "pregdefi2 = (defi_items @ tails ! 1, False)"
definition pregdefi3 :: regex where "pregdefi3 = (defi_items @ tails ! 2, False)"

lemmas cls_defs = blank_def white_def sign_def hex_digit_def name_char_def value_char_def comment_char_def is_digit_def

lemmas preg_defs = preg_num1_def preg_num2_def preg_num3_def pregc1_def pregc2_def pregc3_def pregdef1_def pregdef2_def
  pregdef3_def pregdefi1_def pregdefi2_def pregdefi3_def

lemma pregs_decided:
  "decided (snd preg_num1) (fst preg_num1)"
  "decided (snd preg_num2) (fst preg_num2)"
  "decided (snd preg_num3) (fst preg_num3)"
  "decided (snd pregc1) (fst pregc1)"
  "decided (snd pregc2) (fst pregc2)"
  "decided (snd pregc3) (fst pregc3)"
  "decided (snd pregdef1) (fst pregdef1)"
  "decided (snd pregdef2) (fst pregdef2)"
  "decided (snd pregdef3) (fst pregdef3)"
  "decided (snd pregdefi1) (fst pregdefi1)"
  "decided (snd pregdefi2) (fst pregdefi2)"
  "decided (snd pregdefi3) (fst pregdefi3)"
  by (auto simp: preg_defs cls_defs)

section \<open>Numbers\<close>

definition LONG_MAX :: int where "LONG_MAX = 2 ^ 31 - 1"
definition LONG_MIN :: int where "LONG_MIN = - (2 ^ 31)"
definition ERANGE :: int where "ERANGE = 34"

definition digit_val :: "char \<Rightarrow> int" where
  "digit_val c =
     (if is_digit c then of_char c - 48
      else if CHR ''a'' \<le> c \<and> c \<le> CHR ''f'' then of_char c - 87
      else if CHR ''A'' \<le> c \<and> c \<le> CHR ''F'' then of_char c - 55 else 99)"

text \<open>
  \<^verbatim>\<open>strtol\<close> on a string without leading blanks: the value, what is left at \<^verbatim>\<open>endptr\<close>, and \<^verbatim>\<open>errno\<close>, which is
  set on overflow and otherwise left as it is.
\<close>

definition num_val :: "int \<Rightarrow> string \<Rightarrow> int" where
  "num_val b ds = foldl (\<lambda>a c. b * a + digit_val c) 0 ds"

definition strtol :: "int \<Rightarrow> string \<Rightarrow> int \<Rightarrow> int \<times> string \<times> int" where
  "strtol b s e =
     (let neg = (s \<noteq> [] \<and> hd s = CHR ''-'');
          t = (if s \<noteq> [] \<and> sign (hd s) then tl s else s);
          v = num_val b (takeWhile (\<lambda>c. digit_val c < b) t);
          w = (if neg then - v else v);
          rest = dropWhile (\<lambda>c. digit_val c < b) t
      in if w > LONG_MAX then (LONG_MAX, rest, ERANGE)
         else if w < LONG_MIN then (LONG_MIN, rest, ERANGE)
         else (w, rest, e))"

text \<open>\<^verbatim>\<open>%d\<close> and \<^verbatim>\<open>%ld\<close>.\<close>

fun show_nat :: "nat \<Rightarrow> string" where
  "show_nat n = (if n < 10 then [char_of (48 + n)] else show_nat (n div 10) @ [char_of (48 + n mod 10)])"

declare show_nat.simps [simp del]

definition show_long :: "int \<Rightarrow> string" where
  "show_long i = (if i < 0 then CHR ''-'' # show_nat (nat (- i)) else show_nat (nat i))"

text \<open>
  A \<^verbatim>\<open>double\<close> is a sign, a mantissa and an exponent of 2. \<^verbatim>\<open>strtod\<close> gives the nearest double of a decimal fraction,
  ties to even; with at most 255 characters it is always in the normal range.
\<close>

type_synonym double = "bool \<times> int \<times> int"

definition nearest :: "int \<Rightarrow> int \<Rightarrow> int" where
  "nearest p q = (let d = p div q; r = p mod q in if 2 * r < q \<or> 2 * r = q \<and> even d then d else d + 1)"

fun bitlen :: "nat \<Rightarrow> int" where
  "bitlen n = (if n = 0 then 0 else bitlen (n div 2) + 1)"

declare bitlen.simps [simp del]

definition scaled :: "int \<Rightarrow> int \<Rightarrow> int \<Rightarrow> int \<times> int" where
  "scaled p q e = (if e \<ge> 0 then (p, q * 2 ^ nat e) else (p * 2 ^ nat (- e), q))"

definition double_of :: "bool \<Rightarrow> int \<Rightarrow> int \<Rightarrow> double" where
  "double_of neg p q =
     (if p = 0 then (neg, 0, 0)
      else let e0 = bitlen (nat p) - bitlen (nat q) - 53;
               e = (case scaled p q e0 of (p', q') \<Rightarrow> if p' \<ge> q' * 2 ^ 53 then e0 + 1 else e0)
           in case scaled p q e of (p', q') \<Rightarrow> (neg, nearest p' q', e))"

definition strtod :: "string \<Rightarrow> double \<times> string" where
  "strtod s =
     (let neg = (s \<noteq> [] \<and> hd s = CHR ''-'');
          t = (if s \<noteq> [] \<and> sign (hd s) then tl s else s);
          a = takeWhile is_digit t; r = dropWhile is_digit t
      in if r \<noteq> [] \<and> hd r = CHR ''.''
         then let b = takeWhile is_digit (tl r)
              in (double_of neg (num_val 10 (a @ b)) (10 ^ length b), dropWhile is_digit (tl r))
         else (double_of neg (num_val 10 a) 1, r))"

text \<open>\<^verbatim>\<open>(long)d\<close>: towards zero; out of range the processor gives the smallest \<^verbatim>\<open>long\<close>. \<^verbatim>\<open>%lf\<close>: six decimals.\<close>

definition long_of_double :: "double \<Rightarrow> int" where
  "long_of_double d =
     (case d of (neg, m, e) \<Rightarrow>
        let a = (if e \<ge> 0 then m * 2 ^ nat e else m div 2 ^ nat (- e)); l = (if neg then - a else a)
        in if LONG_MIN \<le> l \<and> l \<le> LONG_MAX then l else LONG_MIN)"

definition double_of_long :: "int \<Rightarrow> double" where
  "double_of_long l = (l < 0, \<bar>l\<bar>, 0)"

definition show_double :: "double \<Rightarrow> string" where
  "show_double d =
     (case d of (neg, m, e) \<Rightarrow>
        let n = (if e \<ge> 0 then m * 10 ^ 6 * 2 ^ nat e else nearest (m * 10 ^ 6) (2 ^ nat (- e)));
            f = show_nat (nat (n mod 10 ^ 6))
        in (if neg then ''-'' else []) @ show_nat (nat (n div 10 ^ 6)) @ ''.'' @ replicate (6 - length f) (CHR ''0'') @ f)"

section \<open>The table of parameters\<close>

record Parameter =
  par_name :: string
  par_index :: "string option"
  par_value :: string

record config =
  parameters :: "Parameter list"
  cerrno :: int

definition Max_N_Parameters :: nat where "Max_N_Parameters = 65536"

definition config_init :: config where
  "config_init = \<lparr>parameters = [], cerrno = 0\<rparr>"

text \<open>\<^verbatim>\<open>strcasecmp\<close>\<close>

definition lower :: "char \<Rightarrow> char" where
  "lower c = (if CHR ''A'' \<le> c \<and> c \<le> CHR ''Z'' then char_of (of_char c + 32 :: nat) else c)"

definition same_text :: "string \<Rightarrow> string \<Rightarrow> bool" where
  "same_text a b \<longleftrightarrow> map lower a = map lower b"

definition convert_index :: "string option \<Rightarrow> int \<Rightarrow> string option \<times> int" where
  "convert_index idx e =
     (case idx of
        None \<Rightarrow> (None, e)
      | Some i \<Rightarrow>
          (case regexec preg_num1 i of
             Some ps \<Rightarrow>
               (case strtol 10 (group preg_num1 1 ps) e of
                  (l, rest, e') \<Rightarrow> if e' = 0 \<and> rest = [] then (Some (show_long l), e') else (Some i, e'))
           | None \<Rightarrow>
               (case regexec preg_num2 i of
                  Some ps \<Rightarrow>
                    (case strtol 16 (drop 2 (group preg_num2 1 ps)) e of
                       (l, rest, e') \<Rightarrow> if e' = 0 \<and> rest = [] then (Some (show_long l), e') else (Some i, e'))
                | None \<Rightarrow>
                    (case regexec preg_num3 i of
                       Some ps \<Rightarrow>
                         (case strtod (group preg_num3 1 ps) of
                            (d, rest) \<Rightarrow> if e = 0 \<and> rest = [] then (Some (show_double d), e) else (Some i, e))
                     | None \<Rightarrow> (Some i, e)))))"

text \<open>The test in the loop of \<^verbatim>\<open>search_parameter_index\<close>.\<close>

definition is_parameter :: "string \<Rightarrow> string option \<Rightarrow> Parameter \<Rightarrow> bool" where
  "is_parameter nm idx p \<longleftrightarrow>
     same_text (par_name p) nm \<and>
     (case (idx, par_index p) of (None, None) \<Rightarrow> True | (Some i, Some j) \<Rightarrow> same_text j i | _ \<Rightarrow> False)"

definition search_parameter_index :: "string \<Rightarrow> string option \<Rightarrow> config \<Rightarrow> int" where
  "search_parameter_index nm idx c =
     (case find (\<lambda>k. is_parameter nm idx (parameters c ! k)) [0 ..< length (parameters c)] of
        None \<Rightarrow> -1 | Some k \<Rightarrow> int k)"

definition search_parameter :: "string \<Rightarrow> string option \<Rightarrow> config \<Rightarrow> Parameter option" where
  "search_parameter nm idx c =
     (let i = search_parameter_index nm idx c in if i < 0 then None else Some (parameters c ! nat i))"

text \<open>\<open>None\<close> is a write behind the end of the array.\<close>

definition register_parameter_if_new :: "Parameter \<Rightarrow> config \<Rightarrow> config option" where
  "register_parameter_if_new p c =
     (let i = search_parameter_index (par_name p) (par_index p) c in
      if i < 0
      then if length (parameters c) < Max_N_Parameters then Some (c\<lparr>parameters := parameters c @ [p]\<rparr>) else None
      else Some (c\<lparr>parameters := (parameters c)[nat i := p]\<rparr>))"

definition register_parameter :: "string \<Rightarrow> string option \<Rightarrow> string \<Rightarrow> config \<Rightarrow> config option" where
  "register_parameter nm idx v c =
     (case convert_index idx (cerrno c) of
        (j, e) \<Rightarrow> register_parameter_if_new \<lparr>par_name = nm, par_index = j, par_value = v\<rparr> (c\<lparr>cerrno := e\<rparr>))"

section \<open>Reading a file\<close>

text \<open>
  \<^verbatim>\<open>get_matched_string\<close> copies a group into an array of 256 characters without looking at its length; \<open>None\<close> is the
  write behind the end.
\<close>

definition get_matched_string :: "regex \<Rightarrow> nat \<Rightarrow> string list \<Rightarrow> string option" where
  "get_matched_string r k ps = (let u = group r k ps in if length u < 256 then Some u else None)"

text \<open>The first expression of a list that matches.\<close>

fun first_match :: "regex list \<Rightarrow> string \<Rightarrow> (regex \<times> string list) option" where
  "first_match [] s = None"
| "first_match (r # rs) s = (case regexec r s of Some ps \<Rightarrow> Some (r, ps) | None \<Rightarrow> first_match rs s)"

definition read_line :: "string \<Rightarrow> config \<Rightarrow> config option" where
  "read_line line c =
     (if first_match [pregc1, pregc2, pregc3] line \<noteq> None then Some c
      else
        (case first_match [pregdef1, pregdef2, pregdef3] line of
           Some (r, ps) \<Rightarrow>
             Option.bind (get_matched_string r 1 ps) (\<lambda>nm.
             Option.bind (get_matched_string r 2 ps) (\<lambda>v. register_parameter nm None v c))
         | None \<Rightarrow>
             (case first_match [pregdefi1, pregdefi2, pregdefi3] line of
                Some (r, ps) \<Rightarrow>
                  Option.bind (get_matched_string r 1 ps) (\<lambda>nm.
                  Option.bind (get_matched_string r 2 ps) (\<lambda>idx.
                  Option.bind (get_matched_string r 3 ps) (\<lambda>v. register_parameter nm (Some idx) v c)))
              | None \<Rightarrow> Some c)))"

definition MAX_STR_SIZE :: nat where "MAX_STR_SIZE = 1024"

text \<open>\<^verbatim>\<open>fgets\<close>: at most \<open>k\<close> characters, up to and with the end of the line; the string ends at the first NUL.\<close>

fun fgets :: "nat \<Rightarrow> string \<Rightarrow> string \<times> string" where
  "fgets 0 s = ([], s)"
| "fgets (Suc k) [] = ([], [])"
| "fgets (Suc k) (c # s) = (if c = CHR 0x0A then ([c], s) else (case fgets k s of (l, r) \<Rightarrow> (c # l, r)))"

lemma fgets_append: "fgets k s = (l, r) \<Longrightarrow> s = l @ r"
  by (induction k s arbitrary: l rule: fgets.induct) (auto split: if_splits prod.splits)

lemma fgets_less: "fgets (Suc k) (c # s) = (l, r) \<Longrightarrow> length r \<le> length s"
  using fgets_append [of "Suc k" "c # s" l r] by (cases l) (auto split: if_splits prod.splits)

definition c_str :: "string \<Rightarrow> string" where
  "c_str s = takeWhile (\<lambda>c. c \<noteq> CHR 0x00) s"

function read_lines :: "string \<Rightarrow> config \<Rightarrow> config option" where
  "read_lines s c =
     (if s = [] then Some c
      else (case fgets (MAX_STR_SIZE - 1) s of (l, r) \<Rightarrow>
              (case read_line (c_str l) c of None \<Rightarrow> None | Some c' \<Rightarrow> read_lines r c')))"
  by pat_completeness auto

termination
  by (relation "measure (\<lambda>(s, c). length s)")
     (auto simp: MAX_STR_SIZE_def neq_Nil_conv numeral_eq_Suc less_Suc_eq_le simp del: fgets.simps dest: fgets_less [OF sym])

declare read_lines.simps [simp del]

definition config_read_file :: "string option \<Rightarrow> config \<Rightarrow> (int \<times> config) option" where
  "config_read_file file c =
     (case file of None \<Rightarrow> Some (-1, c) | Some s \<Rightarrow> map_option (\<lambda>c'. (0, c')) (read_lines s c))"

section \<open>Values\<close>

definition get_l_value :: "string \<Rightarrow> int \<Rightarrow> int \<Rightarrow> int \<times> int" where
  "get_l_value s d e =
     (case regexec preg_num1 s of
        Some ps \<Rightarrow>
          (case strtol 10 (group preg_num1 1 ps) e of (l, rest, e') \<Rightarrow> if e' = 0 \<and> rest = [] then (l, e') else (d, e'))
      | None \<Rightarrow>
          (case regexec preg_num2 s of
             Some ps \<Rightarrow>
               (case strtol 16 (drop 2 (group preg_num2 1 ps)) e of
                  (l, rest, e') \<Rightarrow> if e' = 0 \<and> rest = [] then (l, e') else (d, e'))
           | None \<Rightarrow>
               (case regexec preg_num3 s of
                  Some ps \<Rightarrow>
                    (case strtod (group preg_num3 1 ps) of
                       (x, rest) \<Rightarrow> if e = 0 \<and> rest = [] then (long_of_double x, e) else (d, e))
                | None \<Rightarrow> (d, e))))"

definition get_d_value :: "string \<Rightarrow> double \<Rightarrow> int \<Rightarrow> double \<times> int" where
  "get_d_value s d e =
     (case regexec preg_num1 s of
        Some ps \<Rightarrow>
          (case strtol 10 (group preg_num1 1 ps) e of
             (l, rest, e') \<Rightarrow> if e' = 0 \<and> rest = [] then (double_of_long l, e') else (d, e'))
      | None \<Rightarrow>
          (case regexec preg_num2 s of
             Some ps \<Rightarrow>
               (case strtol 16 (drop 2 (group preg_num2 1 ps)) e of
                  (l, rest, e') \<Rightarrow> if e' = 0 \<and> rest = [] then (double_of_long l, e') else (d, e'))
           | None \<Rightarrow>
               (case regexec preg_num3 s of
                  Some ps \<Rightarrow>
                    (case strtod (group preg_num3 1 ps) of (x, rest) \<Rightarrow> if e = 0 \<and> rest = [] then (x, e) else (d, e))
                | None \<Rightarrow> (d, e))))"

text \<open>The indexed parameter, or else the one without an index.\<close>

definition find_parameter :: "string \<Rightarrow> int \<Rightarrow> config \<Rightarrow> Parameter option" where
  "find_parameter nm i c =
     (case search_parameter nm (Some (show_long i)) c of
        None \<Rightarrow> search_parameter nm None c
      | Some p \<Rightarrow> Some p)"

definition config_get_l_value :: "string \<Rightarrow> int \<Rightarrow> int \<Rightarrow> config \<Rightarrow> int \<times> config" where
  "config_get_l_value nm i d c =
     (case find_parameter nm i c of
        None \<Rightarrow> (d, c)
      | Some p \<Rightarrow> (case get_l_value (par_value p) d (cerrno c) of (l, e) \<Rightarrow> (l, c\<lparr>cerrno := e\<rparr>)))"

definition config_get_d_value :: "string \<Rightarrow> int \<Rightarrow> double \<Rightarrow> config \<Rightarrow> double \<times> config" where
  "config_get_d_value nm i d c =
     (case find_parameter nm i c of
        None \<Rightarrow> (d, c)
      | Some p \<Rightarrow> (case get_d_value (par_value p) d (cerrno c) of (x, e) \<Rightarrow> (x, c\<lparr>cerrno := e\<rparr>)))"

definition config_get_s_value :: "string \<Rightarrow> int \<Rightarrow> string \<Rightarrow> config \<Rightarrow> string" where
  "config_get_s_value nm i d c = (case find_parameter nm i c of None \<Rightarrow> d | Some p \<Rightarrow> par_value p)"

section \<open>Numbers are read as they are printed\<close>

lemma of_char_digit [simp]: "n < 10 \<Longrightarrow> of_char (char_of (48 + n) :: char) = 48 + n" for n :: nat
  by simp

lemma digit_char:
  assumes "n < 10"
  shows "is_digit (char_of (48 + n :: nat))" "digit_val (char_of (48 + n :: nat)) = int n"
proof -
  have "n \<in> {0, 1, 2, 3, 4, 5, 6, 7, 8, 9}" using assms by auto
  then show "is_digit (char_of (48 + n :: nat))" "digit_val (char_of (48 + n :: nat)) = int n"
    by (elim insertE emptyE; hypsubst; code_simp)+
qed

lemma show_nat_digits: "list_all is_digit (show_nat n) \<and> show_nat n \<noteq> []"
proof (induction n rule: show_nat.induct)
  case (1 n)
  then show ?case by (auto simp: digit_char show_nat.simps [of n])
qed

lemma num_val_snoc [simp]: "num_val b (ds @ [c]) = b * num_val b ds + digit_val c" "num_val b [] = 0"
  by (simp_all add: num_val_def)

lemma num_val_show_nat: "num_val 10 (show_nat n) = int n"
proof (induction n rule: show_nat.induct)
  case (1 n)
  show ?case
  proof (cases "n < 10")
    case True
    then show ?thesis using num_val_snoc(1) [of 10 "[]"] by (simp add: show_nat.simps [of n] digit_char)
  next
    case False
    have "10 * int (n div 10) + int (n mod 10) = int n" by presburger
    then show ?thesis using 1 False by (simp add: show_nat.simps [of n] digit_char)
  qed
qed

lemma digit_val_less: "is_digit c \<Longrightarrow> digit_val c < 10"
proof -
  assume d: "is_digit c"
  have "of_char c \<le> (57 :: nat)" using d by (simp add: is_digit_def less_eq_char_def)
  then have "int (of_char c) \<le> int 57" by (rule of_nat_mono)
  then have "(of_char c :: int) \<le> 57" unfolding of_nat_of_char by simp
  then show "digit_val c < 10" using d by (simp add: digit_val_def)
qed

lemma digit_not_sign: "is_digit c \<Longrightarrow> \<not> sign c" "is_digit c \<Longrightarrow> c \<noteq> CHR ''-''"
  by (auto simp: is_digit_def sign_def)

lemma takeWhile_all: "list_all P xs \<Longrightarrow> takeWhile P xs = xs" "list_all P xs \<Longrightarrow> dropWhile P xs = []"
  by (auto simp: list_all_iff)

lemma show_nat_strtol: "takeWhile (\<lambda>c. digit_val c < 10) (show_nat n) = show_nat n"
  "dropWhile (\<lambda>c. digit_val c < 10) (show_nat n) = []"
  using show_nat_digits [of n] by (auto intro!: takeWhile_all simp: list_all_iff digit_val_less)

lemma show_nat_hd: "\<not> sign (hd (show_nat n))" "hd (show_nat n) \<noteq> CHR ''-''" "show_nat n \<noteq> []"
  using show_nat_digits [of n] by (cases "show_nat n"; auto simp: digit_not_sign)+

lemma strtol_show_long:
  assumes "LONG_MIN \<le> l" "l \<le> LONG_MAX"
  shows "strtol 10 (show_long l) e = (l, [], e)"
proof (cases "l < 0")
  case True
  then show ?thesis
    using assms by (simp add: strtol_def show_long_def Let_def show_nat_strtol num_val_show_nat sign_def del: dropWhile_eq_Nil_conv)
next
  case False
  then show ?thesis
    using assms show_nat_hd [of "nat l"]
    by (simp add: strtol_def show_long_def Let_def show_nat_strtol num_val_show_nat del: dropWhile_eq_Nil_conv)
qed

text \<open>The three forms of numbers, as the conversions see them.\<close>

lemma num1_show_long: "regexec preg_num1 (show_long l) = Some [[], if l < 0 then ''-'' else [], show_nat (nat \<bar>l\<bar>), []]"
proof -
  have "is_match preg_num1 (show_long l) [[], if l < 0 then ''-'' else [], show_nat (nat \<bar>l\<bar>), []]"
    using show_nat_digits by (auto simp: is_match_def preg_num1_def show_long_def sign_def)
  then show ?thesis
    by (simp only: regexec_unique [OF pregs_decided(1)])
qed

lemma group_num1_show_long:
  "group preg_num1 1 [[], if l < 0 then ''-'' else [], show_nat (nat \<bar>l\<bar>), []] = show_long l"
  by (simp add: group_def preg_num1_def show_long_def)

lemma get_l_value_show_long:
  assumes "LONG_MIN \<le> l" "l \<le> LONG_MAX"
  shows "get_l_value (show_long l) d 0 = (l, 0)"
  using assms unfolding get_l_value_def num1_show_long option.case group_num1_show_long by (simp add: strtol_show_long)

lemma convert_index_show_long:
  assumes "LONG_MIN \<le> l" "l \<le> LONG_MAX"
  shows "convert_index (Some (show_long l)) 0 = (Some (show_long l), 0)"
  using assms unfolding convert_index_def num1_show_long option.case group_num1_show_long by (simp add: strtol_show_long)

section \<open>The table\<close>

lemma find_SomeD: "find P xs = Some x \<Longrightarrow> x \<in> set xs \<and> P x"
  by (induction xs) (auto split: if_splits)

lemma find_append: "find P (xs @ ys) = (case find P xs of None \<Rightarrow> find P ys | Some x \<Rightarrow> Some x)"
  by (induction xs) auto

text \<open>
  What the getters rely on: a table in which the last value registered for a key is the one that is found, as long as
  there is room. \<open>same\<close> tells which keys are one.
\<close>

locale last_wins =
  fixes look :: "'k \<Rightarrow> 's \<Rightarrow> 'v option"
    and put :: "'k \<Rightarrow> 'v \<Rightarrow> 's \<Rightarrow> 's option"
    and same :: "'k \<Rightarrow> 'k \<Rightarrow> bool"
    and used :: "'s \<Rightarrow> nat"
    and room :: nat
  assumes look_put: "put k v s = Some s' \<Longrightarrow> look k' s' = (if same k k' then Some v else look k' s)"
    and put_room: "used s < room \<Longrightarrow> \<exists>s'. put k v s = Some s' \<and> used s' \<le> Suc (used s)"
begin

fun puts_all :: "('k \<times> 'v) list \<Rightarrow> 's \<Rightarrow> 's option" where
  "puts_all [] s = Some s"
| "puts_all ((k, v) # kvs) s = (case put k v s of None \<Rightarrow> None | Some s' \<Rightarrow> puts_all kvs s')"

lemma puts_all_room: "used s + length kvs \<le> room \<Longrightarrow> \<exists>s'. puts_all kvs s = Some s'"
proof (induction kvs arbitrary: s)
  case (Cons kv kvs)
  obtain k v where kv: "kv = (k, v)" by (cases kv)
  have "used s < room" using Cons.prems by simp
  then obtain s1 where s1: "put k v s = Some s1" "used s1 \<le> Suc (used s)" using put_room by blast
  then have "used s1 + length kvs \<le> room" using Cons.prems by simp
  then show ?case using Cons.IH s1(1) kv by fastforce
qed simp

lemma look_puts_all:
  "puts_all kvs s = Some s' \<Longrightarrow>
   look k s' = (case find (\<lambda>(k', v). same k' k) (rev kvs) of Some (_, v) \<Rightarrow> Some v | None \<Rightarrow> look k s)"
proof (induction kvs arbitrary: s)
  case (Cons kv kvs)
  obtain k' v where kv: "kv = (k', v)" by (cases kv)
  obtain s1 where s1: "put k' v s = Some s1" "puts_all kvs s1 = Some s'"
    using Cons.prems kv by (auto split: option.splits)
  show ?case
    using Cons.IH [OF s1(2)] look_put [OF s1(1), of k] kv
    by (auto simp: find_append split: option.splits)
qed simp

end

definition same_key :: "string \<times> string option \<Rightarrow> string \<times> string option \<Rightarrow> bool" where
  "same_key a b \<longleftrightarrow>
     map lower (fst a) = map lower (fst b) \<and> map_option (map lower) (snd a) = map_option (map lower) (snd b)"

definition look_value :: "string \<times> string option \<Rightarrow> config \<Rightarrow> string option" where
  "look_value k c = map_option par_value (search_parameter (fst k) (snd k) c)"

definition put_value :: "string \<times> string option \<Rightarrow> string \<Rightarrow> config \<Rightarrow> config option" where
  "put_value k v c = register_parameter_if_new \<lparr>par_name = fst k, par_index = snd k, par_value = v\<rparr> c"

lemma is_parameter_key:
  "is_parameter nm idx p \<longleftrightarrow> same_key (par_name p, par_index p) (nm, idx)"
  by (auto simp: is_parameter_def same_key_def same_text_def split: option.splits)

lemma same_key_trans: "same_key a b \<Longrightarrow> same_key c a \<longleftrightarrow> same_key c b"
  by (auto simp: same_key_def)

lemma find_index_Some:
  assumes "find (\<lambda>k. P (xs ! k)) [0 ..< length xs] = Some i"
  shows "i < length xs" "P (xs ! i)" "\<forall>j < i. \<not> P (xs ! j)"
  using assms by (auto simp: find_Some_iff)

lemma find_index_None: "find (\<lambda>k. P (xs ! k)) [0 ..< length xs] = None \<longleftrightarrow> find P xs = None"
  by (auto simp: find_None_iff in_set_conv_nth)

lemma find_of_index:
  assumes "find (\<lambda>k. P (xs ! k)) [0 ..< length xs] = Some i"
  shows "find P xs = Some (xs ! i)"
  using find_index_Some [of P xs i] assms by (auto simp: find_Some_iff)

lemma search_parameter_find: "search_parameter nm idx c = find (is_parameter nm idx) (parameters c)"
proof (cases "find (\<lambda>k. is_parameter nm idx (parameters c ! k)) [0 ..< length (parameters c)]")
  case None
  then have "find (is_parameter nm idx) (parameters c) = None" by (simp only: find_index_None)
  then show ?thesis using None by (simp add: search_parameter_def search_parameter_index_def)
next
  case (Some i)
  then show ?thesis using find_of_index [OF Some] by (simp add: search_parameter_def search_parameter_index_def)
qed

lemma find_update_same:
  assumes "i < length xs" "P y" "\<forall>j < i. \<not> P (xs ! j)"
  shows "find P (xs[i := y]) = Some y"
  using assms by (auto simp: find_Some_iff intro!: exI [of _ i])

lemma find_update_other:
  assumes "\<not> P y" "\<not> P (xs ! i)" "i < length xs"
  shows "find P (xs[i := y]) = find P xs"
  using assms by (induction xs arbitrary: i) (auto split: nat.splits)

lemma put_value_cases:
  assumes "put_value k v c = Some c'"
  obtains (new) "\<forall>p \<in> set (parameters c). \<not> same_key (par_name p, par_index p) k"
      "parameters c' = parameters c @ [\<lparr>par_name = fst k, par_index = snd k, par_value = v\<rparr>]"
  | (old) i where "i < length (parameters c)" "same_key (par_name (parameters c ! i), par_index (parameters c ! i)) k"
      "\<forall>j < i. \<not> same_key (par_name (parameters c ! j), par_index (parameters c ! j)) k"
      "parameters c' = (parameters c)[i := \<lparr>par_name = fst k, par_index = snd k, par_value = v\<rparr>]"
proof (cases "find (\<lambda>j. is_parameter (fst k) (snd k) (parameters c ! j)) [0 ..< length (parameters c)]")
  case None
  then have "\<forall>p \<in> set (parameters c). \<not> is_parameter (fst k) (snd k) p"
    unfolding find_index_None by (simp add: find_None_iff)
  moreover have "parameters c' = parameters c @ [\<lparr>par_name = fst k, par_index = snd k, par_value = v\<rparr>]"
    using assms None
    by (auto simp: put_value_def register_parameter_if_new_def search_parameter_index_def Let_def split: if_splits)
  ultimately show ?thesis by (intro new) (auto simp: is_parameter_key)
next
  case (Some i)
  then have "parameters c' = (parameters c)[i := \<lparr>par_name = fst k, par_index = snd k, par_value = v\<rparr>]"
    using assms by (auto simp: put_value_def register_parameter_if_new_def search_parameter_index_def Let_def)
  then show ?thesis
    using find_index_Some [OF Some] by (intro old [of i]) (auto simp: is_parameter_key)
qed

interpretation cfg: last_wins look_value put_value same_key "\<lambda>c. length (parameters c)" Max_N_Parameters
proof unfold_locales
  fix k v c c' k'
  assume p: "put_value k v c = Some c'"
  let ?p = "\<lparr>par_name = fst k, par_index = snd k, par_value = v\<rparr>"
  have find: "look_value k' d = map_option par_value (find (\<lambda>p. same_key (par_name p, par_index p) k') (parameters d))" for d
    by (simp add: look_value_def search_parameter_find is_parameter_key [abs_def])
  show "look_value k' c' = (if same_key k k' then Some v else look_value k' c)"
  using p
  proof (cases rule: put_value_cases)
    case new
    then show ?thesis
      unfolding find using same_key_trans [of k k']
      by (auto simp: find_append split: option.splits dest: find_SomeD)
  next
    case (old i)
    show ?thesis
    proof (cases "same_key k k'")
      case True
      then have "find (\<lambda>p. same_key (par_name p, par_index p) k') (parameters c') = Some ?p"
        unfolding old(4) using old(1-3) same_key_trans [OF True] by (intro find_update_same) auto
      then show ?thesis unfolding find using True by simp
    next
      case False
      then have "\<not> same_key (par_name (parameters c ! i), par_index (parameters c ! i)) k'"
        using old(2) by (auto simp: same_key_def)
      then show ?thesis unfolding find old(4) using False old(1) by (subst find_update_other) auto
    qed
  qed
next
  fix c :: config and k v
  assume "length (parameters c) < Max_N_Parameters"
  then show "\<exists>c'. put_value k v c = Some c' \<and> length (parameters c') \<le> Suc (length (parameters c))"
    by (auto simp: put_value_def register_parameter_if_new_def Let_def)
qed

section \<open>Lines of a file\<close>

text \<open>Definitions as they stand in a file: a name, an index, a value and a comment behind it.\<close>

record definition_line =
  l_name :: string
  l_index :: "int option"
  l_value :: string
  l_comment :: "string option"

definition is_value :: "string \<Rightarrow> bool" where
  "is_value v \<longleftrightarrow>
     length v < 256 \<and> v \<noteq> [] \<and> (let t = (if sign (hd v) then tl v else v) in t \<noteq> [] \<and> list_all value_char t)"

definition text_of :: "definition_line \<Rightarrow> string" where
  "text_of l =
     l_name l @ (case l_index l of None \<Rightarrow> [] | Some i \<Rightarrow> ''['' @ show_long i @ '']'') @ '' = '' @ l_value l @
     (case l_comment l of None \<Rightarrow> [] | Some m \<Rightarrow> '' //'' @ m) @ [CHR 0x0A]"

definition line_ok :: "definition_line \<Rightarrow> bool" where
  "line_ok l \<longleftrightarrow>
     l_name l \<noteq> [] \<and> list_all name_char (l_name l) \<and> length (l_name l) < 256 \<and> is_value (l_value l) \<and>
     (case l_index l of None \<Rightarrow> True | Some i \<Rightarrow> LONG_MIN \<le> i \<and> i \<le> LONG_MAX) \<and>
     (case l_comment l of None \<Rightarrow> True | Some m \<Rightarrow> list_all (\<lambda>c. c \<noteq> CHR 0x0A \<and> c \<noteq> CHR 0x00) m) \<and>
     length (text_of l) < MAX_STR_SIZE"

lemma scan_append:
  "scan (a @ b) s =
     (case scan a s of None \<Rightarrow> None
      | Some (ps, t) \<Rightarrow> (case scan b t of None \<Rightarrow> None | Some (qs, u) \<Rightarrow> Some (ps @ qs, u)))"
  by (induction a s rule: scan.induct) (auto split: option.splits)

lemma chars_apart:
  "name_char c \<Longrightarrow> \<not> blank c" "name_char c \<Longrightarrow> \<not> white c" "name_char c \<Longrightarrow> \<not> comment_char c"
  "name_char c \<Longrightarrow> c \<noteq> CHR ''/''" "value_char c \<Longrightarrow> \<not> blank c" "value_char c \<Longrightarrow> \<not> sign c" "sign c \<Longrightarrow> \<not> blank c"
  "is_digit c \<Longrightarrow> value_char c"
  by (auto simp: cls_defs)

lemma takeWhile_no: "\<not> P c \<Longrightarrow> takeWhile P (c # s) = []" "\<not> P c \<Longrightarrow> dropWhile P (c # s) = c # s"
  by auto

lemma scan_then:
  assumes "scan a s = Some (ps, t)"
  shows "scan (a @ b) s = map_option (\<lambda>(qs, u). (ps @ qs, u)) (scan b t)"
  using assms by (auto simp: scan_append split: option.splits)

lemma scan_word:
  assumes "w \<noteq> []" "list_all name_char w" "\<And>c t'. t = c # t' \<Longrightarrow> \<not> name_char c"
  shows "scan [blanks, (g, Plus, name_char)] (w @ t) = Some ([[], w], t)"
proof -
  obtain c w' where w: "w = c # w'" "name_char c" using assms by (cases w) auto
  then have "takeWhile blank (w @ t) = []" "dropWhile blank (w @ t) = w @ t" by (auto simp: chars_apart)
  then show ?thesis using takeWhile_dropWhile_append [OF assms(2), of t] assms(1,3) by simp
qed

lemma scan_lit:
  assumes "list_all blank bs" "\<not> blank c"
  shows "scan [blanks, lit c] (bs @ c # t) = Some ([bs, [c]], t)"
  using takeWhile_dropWhile_append [OF assms(1), of "c # t"] assms(2) by simp

lemma scan_not_lit: "c \<noteq> d \<Longrightarrow> \<not> blank d \<Longrightarrow> scan (blanks # lit c # r) (d # t) = None"
  by simp

lemma one_blank: "list_all blank '' ''"
  by (simp add: blank_def)

lemma scan_value:
  assumes "is_value v" "list_all blank bs" "\<And>c t'. t = c # t' \<Longrightarrow> \<not> value_char c"
  shows "\<exists>a b. v = a @ b \<and> scan [blanks, (g, Opt, sign), (h, Plus, value_char)] (bs @ v @ t) = Some ([bs, a, b], t)"
proof -
  define a where "a = (if sign (hd v) then [hd v] else [])"
  define b where "b = (if sign (hd v) then tl v else v)"
  have v: "v = a @ b" "b \<noteq> []" "list_all value_char b"
    using assms(1) by (auto simp: is_value_def a_def b_def Let_def)
  have hd: "\<not> blank (hd v)"
  proof (cases "sign (hd v)")
    case False
    then have "b = v" by (simp add: b_def)
    then have "value_char (hd v)" using v(2,3) by (cases v) auto
    then show ?thesis by (rule chars_apart)
  qed (rule chars_apart)
  have "\<not> blank c" if "v @ t = c # t'" for c t'
    using that hd assms(1) by (cases v) (auto simp: is_value_def)
  then have "takeWhile blank (bs @ v @ t) = bs" "dropWhile blank (bs @ v @ t) = v @ t"
    using takeWhile_dropWhile_append [OF assms(2), of "v @ t"] by blast+
  moreover have "bite Opt sign (v @ t) = Some (a, b @ t)"
    using assms(1) by (cases v) (simp_all add: a_def b_def is_value_def)
  moreover have "takeWhile value_char (b @ t) = b" "dropWhile value_char (b @ t) = t"
    using v(3) assms(3) by (intro takeWhile_dropWhile_append; auto)+
  ultimately have "scan [blanks, (g, Opt, sign), (h, Plus, value_char)] (bs @ v @ t) = Some ([bs, a, b], t)"
    using v(2) by (simp split: option.splits)
  then show ?thesis using v(1) by blast
qed

text \<open>What is behind the value decides which of the three expressions matches.\<close>

definition tail_of :: "definition_line \<Rightarrow> string" where
  "tail_of l = (case l_comment l of None \<Rightarrow> [] | Some m \<Rightarrow> '' //'' @ m) @ [CHR 0x0A]"

lemma tail_scan:
  "scan (tails ! 0) (tail_of l) = (case l_comment l of None \<Rightarrow> Some ([[CHR 0x0A]], []) | Some m \<Rightarrow> Some (['' ''], ''//'' @ m @ [CHR 0x0A]))"
  "scan (tails ! 1) (tail_of l) = None"
  "l_comment l = Some m \<Longrightarrow> scan (tails ! 2) (tail_of l) = Some (['' '', ''/'', ''/''], m @ [CHR 0x0A])"
  by (auto simp: tail_of_def cls_defs numeral_2_eq_2 split: option.splits)

lemma tail_no_value: "tail_of l = c # t \<Longrightarrow> \<not> value_char c"
  by (auto simp: tail_of_def cls_defs split: option.splits)

lemma name_no_comment:
  assumes "w \<noteq> []" "list_all name_char w"
  shows "first_match [pregc1, pregc2, pregc3] (w @ t) = None"
  using assms by (cases w) (auto simp: regexec_def pregc1_def pregc2_def pregc3_def chars_apart)

lemma scan_def:
  assumes "line_ok l" "l_index l = None"
  shows "\<exists>a b. l_value l = a @ b \<and> scan def_items (text_of l) = Some ([[], l_name l, '' '', ''='', '' '', a, b], tail_of l)"
proof -
  obtain a b where ab: "l_value l = a @ b"
    "scan [blanks, (2, Opt, sign), (2, Plus, value_char)] ('' '' @ l_value l @ tail_of l) = Some (['' '', a, b], tail_of l)"
    using scan_value [OF _ one_blank, of "l_value l" "tail_of l" 2 2] assms(1) tail_no_value [of l]
    unfolding line_ok_def by blast
  have e: "text_of l = l_name l @ '' = '' @ l_value l @ tail_of l"
    using assms(2) by (simp add: text_of_def tail_of_def)
  have w: "scan [blanks, (1, Plus, name_char)] (text_of l) = Some ([[], l_name l], '' = '' @ l_value l @ tail_of l)"
    unfolding e using assms(1) by (intro scan_word) (auto simp: line_ok_def cls_defs)
  have q: "scan [blanks, lit (CHR ''='')] ('' = '' @ l_value l @ tail_of l) = Some (['' '', ''=''], '' '' @ l_value l @ tail_of l)"
    using scan_lit [of "'' ''" "CHR ''=''" "'' '' @ l_value l @ tail_of l"] by (simp add: blank_def)
  have i: "def_items = [blanks, (1, Plus, name_char)] @ [blanks, lit (CHR ''='')] @ [blanks, (2, Opt, sign), (2, Plus, value_char)]"
    by simp
  have "scan def_items (text_of l) = Some ([[], l_name l, '' '', ''='', '' '', a, b], tail_of l)"
    unfolding i scan_then [OF w] scan_then [OF q] ab(2) by simp
  then show ?thesis using ab(1) by blast
qed

lemma show_nat_length: "n < 10 ^ k \<Longrightarrow> 0 < k \<Longrightarrow> length (show_nat n) \<le> k"
proof (induction n arbitrary: k rule: show_nat.induct)
  case (1 n)
  show ?case
  proof (cases "n < 10")
    case True
    then show ?thesis using 1(3) by (simp add: show_nat.simps [of n])
  next
    case False
    then obtain j where k: "k = Suc j" "0 < j" using 1(2,3) by (cases k; cases "k - 1") auto
    then have "n div 10 < 10 ^ j" using 1(2) by (simp add: less_mult_imp_div_less mult.commute)
    then show ?thesis using 1(1) [OF False, of j] k False by (simp add: show_nat.simps [of n])
  qed
qed

lemma show_long_value:
  assumes "LONG_MIN \<le> i" "i \<le> LONG_MAX"
  shows "is_value (show_long i)"
proof -
  have "nat \<bar>i\<bar> < 10 ^ 10" using assms by (auto simp: LONG_MIN_def LONG_MAX_def)
  then have len: "length (show_nat (nat \<bar>i\<bar>)) \<le> 10" by (rule show_nat_length) simp
  have d: "list_all value_char (show_nat n)" "show_nat n \<noteq> []" for n
    using show_nat_digits [of n] by (auto simp: list_all_iff chars_apart)
  show ?thesis
  proof (cases "i < 0")
    case True
    then show ?thesis using len d by (simp add: is_value_def show_long_def sign_def)
  next
    case False
    then show ?thesis using len d show_nat_hd by (simp add: is_value_def show_long_def Let_def)
  qed
qed

lemma scan_defi:
  assumes "line_ok l" "l_index l = Some i"
  shows "\<exists>a b a' b'. l_value l = a @ b \<and> show_long i = a' @ b' \<and>
    scan defi_items (text_of l) =
      Some ([[], l_name l, [], ''['', [], a', b', [], '']'', '' '', ''='', '' '', a, b], tail_of l)"
proof -
  let ?v = "'' '' @ l_value l @ tail_of l"
  obtain a b where ab: "l_value l = a @ b"
    "scan [blanks, (3, Opt, sign), (3, Plus, value_char)] ?v = Some (['' '', a, b], tail_of l)"
    using scan_value [OF _ one_blank, of "l_value l" "tail_of l" 3 3] assms(1) tail_no_value [of l]
    unfolding line_ok_def by blast
  have val: "is_value (show_long i)" using assms show_long_value by (simp add: line_ok_def)
  have nv: "\<not> value_char c" if "''] ='' @ ?v = c # t'" for c t' using that by (auto simp: cls_defs)
  have "\<exists>a' b'. show_long i = a' @ b' \<and>
      scan [blanks, (2, Opt, sign), (2, Plus, value_char)] ([] @ show_long i @ (''] ='' @ ?v)) = Some ([[], a', b'], ''] ='' @ ?v)"
    by (rule scan_value [OF val _ nv]) simp_all
  then obtain a' b' where ab': "show_long i = a' @ b'"
    "scan [blanks, (2, Opt, sign), (2, Plus, value_char)] (show_long i @ ''] ='' @ ?v) = Some ([[], a', b'], ''] ='' @ ?v)"
    unfolding append_Nil by blast
  have e: "text_of l = l_name l @ ''['' @ show_long i @ ''] ='' @ ?v"
    using assms(2) by (simp add: text_of_def tail_of_def)
  have w: "scan [blanks, (1, Plus, name_char)] (text_of l) = Some ([[], l_name l], ''['' @ show_long i @ ''] ='' @ ?v)"
    unfolding e using assms(1) by (intro scan_word) (auto simp: line_ok_def cls_defs)
  have q: "scan [blanks, lit (CHR ''['')] (''['' @ show_long i @ ''] ='' @ ?v) = Some ([[], ''[''], show_long i @ ''] ='' @ ?v)"
    using scan_lit [of "[]" "CHR ''[''" "show_long i @ ''] ='' @ ?v"] by (simp add: blank_def)
  have q2: "scan [blanks, lit (CHR '']'')] (''] ='' @ ?v) = Some ([[], '']''], '' ='' @ ?v)"
    using scan_lit [of "[]" "CHR '']''" "'' ='' @ ?v"] by (simp add: blank_def)
  have q3: "scan [blanks, lit (CHR ''='')] ('' ='' @ ?v) = Some (['' '', ''=''], ?v)"
    using scan_lit [of "'' ''" "CHR ''=''" ?v] by (simp add: blank_def)
  have i: "defi_items = [blanks, (1, Plus, name_char)] @ [blanks, lit (CHR ''['')] @ [blanks, (2, Opt, sign), (2, Plus, value_char)] @
     [blanks, lit (CHR '']'')] @ [blanks, lit (CHR ''='')] @ [blanks, (3, Opt, sign), (3, Plus, value_char)]"
    by simp
  have "scan defi_items (text_of l) =
      Some ([[], l_name l, [], ''['', [], a', b', [], '']'', '' '', ''='', '' '', a, b], tail_of l)"
    unfolding i scan_then [OF w] scan_then [OF q] scan_then [OF ab'(2)] scan_then [OF q2] scan_then [OF q3] ab(2) by simp
  then show ?thesis using ab(1) ab'(1) by blast
qed

lemma scan_def_indexed:
  assumes "line_ok l" "l_index l = Some i"
  shows "scan (def_items @ r) (text_of l) = None"
proof -
  let ?t = "''['' @ show_long i @ ''] = '' @ l_value l @ tail_of l"
  have w: "scan [blanks, (1, Plus, name_char)] (text_of l) = Some ([[], l_name l], ?t)"
    using scan_word [of "l_name l" ?t 1] assms by (auto simp: line_ok_def cls_defs text_of_def tail_of_def)
  have "scan (blanks # lit (CHR ''='') # r') ?t = None" for r'
    using scan_not_lit [of "CHR ''=''" "CHR ''[''"] by (simp add: blank_def)
  moreover have "def_items @ r = [blanks, (1, Plus, name_char)] @ (blanks # lit (CHR ''='') # [blanks, (2, Opt, sign), (2, Plus, value_char)] @ r)"
    by simp
  ultimately show ?thesis using scan_then [OF w] by (metis option.map_disc_iff)
qed

definition key_of :: "definition_line \<Rightarrow> string \<times> string option" where
  "key_of l = (l_name l, map_option show_long (l_index l))"

lemma regexec_then:
  assumes "scan a s = Some (ps, t)"
  shows "regexec (a @ b, e) s =
    (case scan b t of None \<Rightarrow> None | Some (qs, u) \<Rightarrow> if e \<and> u \<noteq> [] then None else Some (ps @ qs))"
  by (simp add: regexec_def scan_then [OF assms] split: option.splits)

lemma first_def:
  assumes "scan a (text_of l) = Some (ps, tail_of l)"
  shows "\<exists>r qs. first_match [(a @ tails ! 0, True), (a @ tails ! 1, False), (a @ tails ! 2, False)] (text_of l) = Some (r, ps @ qs) \<and>
    list_all (\<lambda>it. fst it = 0) (drop (length a) (fst r)) \<and> take (length a) (fst r) = a"
proof (cases "l_comment l")
  case None
  have "regexec (a @ tails ! 0, True) (text_of l) = Some (ps @ [[CHR 0x0A]])"
    unfolding regexec_then [OF assms] tail_scan None by simp
  then show ?thesis by (auto intro!: exI [of _ "(a @ tails ! 0, True)"])
next
  case (Some m)
  have "regexec (a @ tails ! 0, True) (text_of l) = None" "regexec (a @ tails ! 1, False) (text_of l) = None"
    "regexec (a @ tails ! 2, False) (text_of l) = Some (ps @ ['' '', ''/'', ''/''])"
    unfolding regexec_then [OF assms] tail_scan(1,2) tail_scan(3) [OF Some] unfolding Some by simp_all
  then show ?thesis by (auto intro!: exI [of _ "(a @ tails ! 2, False)"] simp: numeral_2_eq_2)
qed

lemma group_prefix:
  assumes "take (length a) (fst r) = a" "list_all (\<lambda>it. fst it = 0) (drop (length a) (fst r))"
    "length ps = length a" "0 < k"
  shows "group r k (ps @ qs) = group (a, e) k ps"
proof -
  have "fst r = a @ drop (length a) (fst r)" using assms(1) by (metis append_take_drop_id)
  then have "zip (fst r) (ps @ qs) = zip a ps @ zip (drop (length a) (fst r)) qs"
    using assms(3) by (metis zip_append)
  moreover have "filter (\<lambda>(it, u). fst it = k) (zip (drop (length a) (fst r)) qs) = []"
    using assms(2,4) by (fastforce simp: filter_empty_conv list_all_iff dest: set_zip_leftD)
  ultimately show ?thesis by (simp add: group_def)
qed

lemma read_line_text:
  assumes ok: "line_ok l" and e: "cerrno c = 0"
  shows "read_line (text_of l) c = put_value (key_of l) (l_value l) c"
proof -
  have nc: "first_match [pregc1, pregc2, pregc3] (text_of l) = None"
    unfolding text_of_def using ok by (intro name_no_comment) (auto simp: line_ok_def)
  have len: "length (l_name l) < 256" "length (l_value l) < 256" using ok by (auto simp: line_ok_def is_value_def)
  have c: "c\<lparr>cerrno := 0\<rparr> = c" using e by simp
  show ?thesis
  proof (cases "l_index l")
    case None
    obtain a b where ab: "l_value l = a @ b" and
      sc: "scan def_items (text_of l) = Some ([[], l_name l, '' '', ''='', '' '', a, b], tail_of l)"
      using scan_def [OF ok None] by blast
    obtain r qs where r: "first_match [pregdef1, pregdef2, pregdef3] (text_of l) =
        Some (r, [[], l_name l, '' '', ''='', '' '', a, b] @ qs)"
      "list_all (\<lambda>it. fst it = 0) (drop (length def_items) (fst r))" "take (length def_items) (fst r) = def_items"
      using first_def [OF sc] unfolding pregdef1_def pregdef2_def pregdef3_def by blast
    have g: "group r k ([[], l_name l, '' '', ''='', '' '', a, b] @ qs) =
        group (def_items, True) k [[], l_name l, '' '', ''='', '' '', a, b]" if "0 < k" for k
      using r(2,3) that by (intro group_prefix) simp_all
    have "get_matched_string r 1 ([[], l_name l, '' '', ''='', '' '', a, b] @ qs) = Some (l_name l)"
      "get_matched_string r 2 ([[], l_name l, '' '', ''='', '' '', a, b] @ qs) = Some (l_value l)"
      using len unfolding get_matched_string_def g [OF zero_less_one] g [OF zero_less_numeral]
      by (simp_all add: group_def ab)
    then show ?thesis
      unfolding read_line_def nc r(1)
      by (simp add: register_parameter_def convert_index_def put_value_def key_of_def None e c)
  next
    case (Some i)
    then have i: "LONG_MIN \<le> i" "i \<le> LONG_MAX" using ok by (auto simp: line_ok_def)
    obtain a b a' b' where ab: "l_value l = a @ b" and ab': "show_long i = a' @ b'" and
      sc: "scan defi_items (text_of l) =
        Some ([[], l_name l, [], ''['', [], a', b', [], '']'', '' '', ''='', '' '', a, b], tail_of l)"
      using scan_defi [OF ok Some] by blast
    let ?ps = "[[], l_name l, [], ''['', [], a', b', [], '']'', '' '', ''='', '' '', a, b]"
    have nd: "first_match [pregdef1, pregdef2, pregdef3] (text_of l) = None"
      unfolding first_match.simps pregdef1_def pregdef2_def pregdef3_def regexec_def fst_conv scan_def_indexed [OF ok Some]
      by simp
    obtain r qs where r: "first_match [pregdefi1, pregdefi2, pregdefi3] (text_of l) = Some (r, ?ps @ qs)"
      "list_all (\<lambda>it. fst it = 0) (drop (length defi_items) (fst r))" "take (length defi_items) (fst r) = defi_items"
      using first_def [OF sc] unfolding pregdefi1_def pregdefi2_def pregdefi3_def by blast
    have g: "group r k (?ps @ qs) = group (defi_items, True) k ?ps" if "0 < k" for k
      using r(2,3) that by (intro group_prefix) simp_all
    have "length (show_long i) < 256" using show_long_value [OF i] by (simp add: is_value_def)
    then have "get_matched_string r 1 (?ps @ qs) = Some (l_name l)" "get_matched_string r 2 (?ps @ qs) = Some (show_long i)"
      "get_matched_string r 3 (?ps @ qs) = Some (l_value l)"
      using len unfolding get_matched_string_def g [OF zero_less_one] g [OF zero_less_numeral]
      by (simp_all add: group_def ab ab')
    then show ?thesis
      unfolding read_line_def nc nd r(1)
      by (simp add: register_parameter_def convert_index_show_long [OF i] put_value_def key_of_def Some e c)
  qed
qed

lemma fgets_line:
  "list_all (\<lambda>c. c \<noteq> CHR 0x0A) u \<Longrightarrow> length u < k \<Longrightarrow> fgets k (u @ CHR 0x0A # s) = (u @ [CHR 0x0A], s)"
proof (induction u arbitrary: k)
  case Nil
  then show ?case by (cases k) auto
next
  case (Cons c u)
  then obtain j where "k = Suc j" by (cases k) auto
  then show ?case using Cons by simp
qed

lemma printable: "name_char c \<Longrightarrow> c \<noteq> CHR 0x0A \<and> c \<noteq> CHR 0x00" "value_char c \<Longrightarrow> c \<noteq> CHR 0x0A \<and> c \<noteq> CHR 0x00"
  by (auto simp: cls_defs)

lemma value_printable: "is_value v \<Longrightarrow> list_all (\<lambda>c. c \<noteq> CHR 0x0A \<and> c \<noteq> CHR 0x00) v"
  by (cases v) (auto simp: is_value_def list_all_iff printable sign_def split: if_splits)

lemma text_printable:
  assumes "line_ok l"
  obtains u where "text_of l = u @ [CHR 0x0A]" "list_all (\<lambda>c. c \<noteq> CHR 0x0A \<and> c \<noteq> CHR 0x00) u" "length u < MAX_STR_SIZE - 1"
proof (rule that)
  let ?P = "list_all (\<lambda>c. c \<noteq> CHR 0x0A \<and> c \<noteq> CHR 0x00)"
  let ?u = "l_name l @ (case l_index l of None \<Rightarrow> [] | Some i \<Rightarrow> ''['' @ show_long i @ '']'') @ '' = '' @ l_value l @
     (case l_comment l of None \<Rightarrow> [] | Some m \<Rightarrow> '' //'' @ m)"
  show e: "text_of l = ?u @ [CHR 0x0A]" by (simp add: text_of_def)
  have "?P (l_name l)" using assms by (auto simp: line_ok_def list_all_iff printable)
  moreover have "?P (l_value l)" using assms by (auto simp: line_ok_def value_printable)
  moreover have "?P (case l_index l of None \<Rightarrow> [] | Some i \<Rightarrow> ''['' @ show_long i @ '']'')"
    using assms by (auto simp: line_ok_def value_printable show_long_value split: option.splits)
  moreover have "?P (case l_comment l of None \<Rightarrow> [] | Some m \<Rightarrow> '' //'' @ m)"
    using assms by (auto simp: line_ok_def split: option.splits)
  ultimately show "?P ?u" by simp
  show "length ?u < MAX_STR_SIZE - 1" using assms e by (auto simp: line_ok_def MAX_STR_SIZE_def)
qed

definition puts_lines :: "definition_line list \<Rightarrow> config \<Rightarrow> config option" where
  "puts_lines ls = cfg.puts_all (map (\<lambda>l. (key_of l, l_value l)) ls)"

lemma put_value_errno: "put_value k v c = Some c' \<Longrightarrow> cerrno c' = cerrno c"
  by (auto simp: put_value_def register_parameter_if_new_def Let_def split: if_splits)

lemma read_lines_texts:
  assumes "list_all line_ok ls" "cerrno c = 0"
  shows "read_lines (concat (map text_of ls)) c = puts_lines ls c"
  using assms
proof (induction ls arbitrary: c)
  case Nil
  then show ?case by (simp add: read_lines.simps puts_lines_def)
next
  case (Cons l ls)
  then have ok: "line_ok l" by simp
  obtain u where u: "text_of l = u @ [CHR 0x0A]" "list_all (\<lambda>c. c \<noteq> CHR 0x0A \<and> c \<noteq> CHR 0x00) u" "length u < MAX_STR_SIZE - 1"
    using text_printable [OF ok] .
  have f: "fgets (MAX_STR_SIZE - 1) (text_of l @ concat (map text_of ls)) = (text_of l, concat (map text_of ls))"
    using fgets_line [of u "MAX_STR_SIZE - 1" "concat (map text_of ls)"] u by (simp add: list_all_iff)
  have "c_str (text_of l) = text_of l"
    unfolding c_str_def using u by (intro takeWhile_all(1)) (auto simp: list_all_iff)
  then have "read_lines (concat (map text_of (l # ls))) c =
    (case put_value (key_of l) (l_value l) c of None \<Rightarrow> None | Some c' \<Rightarrow> read_lines (concat (map text_of ls)) c')"
    using f u(1) read_line_text [OF ok Cons.prems(2)]
    by (subst read_lines.simps) (simp add: u(1))
  also have "\<dots> = puts_lines (l # ls) c"
    using Cons.IH Cons.prems put_value_errno [of "key_of l" "l_value l" c]
    by (auto simp: puts_lines_def split: option.splits)
  finally show ?case .
qed

lemma puts_lines_errno: "puts_lines ls c = Some c' \<Longrightarrow> cerrno c' = cerrno c"
  by (induction ls arbitrary: c) (auto simp: puts_lines_def dest: put_value_errno split: option.splits)

section \<open>Theorems\<close>

text \<open>The meaning of a file: the last definition of a parameter counts, names are compared without regard to case.\<close>

definition last_value :: "definition_line list \<Rightarrow> string \<Rightarrow> int option \<Rightarrow> string option" where
  "last_value ls nm i = map_option l_value (find (\<lambda>l. same_text (l_name l) nm \<and> l_index l = i) (rev ls))"

definition meaning :: "definition_line list \<Rightarrow> string \<Rightarrow> int \<Rightarrow> string option" where
  "meaning ls nm i = (case last_value ls nm (Some i) of None \<Rightarrow> last_value ls nm None | Some v \<Rightarrow> Some v)"

lemma lower_digit: "is_digit c \<Longrightarrow> lower c = c"
  using order_trans [of "CHR ''A''" c "CHR ''9''"] by (auto simp: is_digit_def lower_def)

lemma lower_show_long: "map lower (show_long i) = show_long i"
proof -
  have "map lower (show_nat n) = show_nat n" for n
    using show_nat_digits [of n] by (intro map_idI) (auto simp: list_all_iff lower_digit)
  then show ?thesis by (simp add: show_long_def lower_def)
qed

lemma show_long_inj:
  assumes "LONG_MIN \<le> i" "i \<le> LONG_MAX" "LONG_MIN \<le> j" "j \<le> LONG_MAX"
  shows "show_long i = show_long j \<longleftrightarrow> i = j"
proof
  assume "show_long i = show_long j"
  then have "(i, [], 0) = (j, [] :: string, 0 :: int)"
    using strtol_show_long [OF assms(1,2), of 0] strtol_show_long [OF assms(3,4), of 0] by (simp only:)
  then show "i = j" by simp
qed simp

lemma look_puts_lines:
  assumes "puts_lines ls c = Some c'" "parameters c = []"
  shows "look_value (nm, idx) c' = map_option l_value (find (\<lambda>l. same_key (key_of l) (nm, idx)) (rev ls))"
proof -
  have f: "find (\<lambda>(k', v). same_key k' k) (map (\<lambda>l. (key_of l, l_value l)) xs) =
    map_option (\<lambda>l. (key_of l, l_value l)) (find (\<lambda>l. same_key (key_of l) k) xs)" for k xs
    by (induction xs) auto
  have "look_value (nm, idx) c = None" using assms(2) by (simp add: look_value_def search_parameter_find)
  then show ?thesis
    using cfg.look_puts_all [OF assms(1) [unfolded puts_lines_def], of "(nm, idx)"]
    by (auto simp: rev_map f split: option.splits)
qed

lemma same_key_index:
  assumes "line_ok l" "LONG_MIN \<le> i" "i \<le> LONG_MAX"
  shows "same_key (key_of l) (nm, Some (show_long i)) \<longleftrightarrow> same_text (l_name l) nm \<and> l_index l = Some i"
  using assms show_long_inj [of _ i]
  by (auto simp: same_key_def key_of_def same_text_def lower_show_long line_ok_def split: option.splits)

lemma same_key_plain: "same_key (key_of l) (nm, None) \<longleftrightarrow> same_text (l_name l) nm \<and> l_index l = None"
  by (auto simp: same_key_def key_of_def same_text_def)

lemma find_parameter_meaning:
  assumes "puts_lines ls config_init = Some c" "list_all line_ok ls" "LONG_MIN \<le> i" "i \<le> LONG_MAX"
  shows "map_option par_value (find_parameter nm i c) = meaning ls nm i"
proof -
  have p: "parameters config_init = []" by (simp add: config_init_def)
  have "find (\<lambda>l. same_key (key_of l) (nm, Some (show_long i))) (rev ls) = find (\<lambda>l. same_text (l_name l) nm \<and> l_index l = Some i) (rev ls)"
    using assms(2-4) by (intro find_cong) (auto simp: list_all_iff same_key_index)
  then have a: "map_option par_value (search_parameter nm (Some (show_long i)) c) = last_value ls nm (Some i)"
    using look_puts_lines [OF assms(1) p, of nm "Some (show_long i)"] by (simp add: look_value_def last_value_def)
  have "map_option par_value (search_parameter nm None c) = last_value ls nm None"
    using look_puts_lines [OF assms(1) p, of nm None] by (simp add: look_value_def last_value_def same_key_plain)
  then show ?thesis
    using a by (auto simp: find_parameter_def meaning_def split: option.splits)
qed

lemma file_is_read:
  assumes "list_all line_ok ls" "length ls \<le> Max_N_Parameters"
  shows "\<exists>c. puts_lines ls config_init = Some c \<and> config_read_file (Some (concat (map text_of ls))) config_init = Some (0, c)"
proof -
  have e: "cerrno config_init = 0" and p: "parameters config_init = []" by (simp_all add: config_init_def)
  obtain c where c: "puts_lines ls config_init = Some c"
    using cfg.puts_all_room [of config_init "map (\<lambda>l. (key_of l, l_value l)) ls"] assms(2) p by (auto simp: puts_lines_def)
  then show ?thesis using read_lines_texts [OF assms(1) e] by (simp add: config_read_file_def)
qed

lemma text_of_file:
  assumes "puts_lines ls config_init = Some c" "list_all line_ok ls" "LONG_MIN \<le> i" "i \<le> LONG_MAX"
  shows "config_get_s_value nm i d c = (case meaning ls nm i of None \<Rightarrow> d | Some v \<Rightarrow> v)"
  using find_parameter_meaning [OF assms, of nm] by (auto simp: config_get_s_value_def split: option.splits)

lemma number_of_file:
  assumes "puts_lines ls config_init = Some c" "list_all line_ok ls" "LONG_MIN \<le> i" "i \<le> LONG_MAX"
  shows "meaning ls nm i = None \<Longrightarrow> config_get_l_value nm i d c = (d, c)"
    "meaning ls nm i = Some (show_long n) \<Longrightarrow> LONG_MIN \<le> n \<Longrightarrow> n \<le> LONG_MAX \<Longrightarrow> config_get_l_value nm i d c = (n, c)"
proof -
  have "cerrno c = 0" using puts_lines_errno [OF assms(1)] by (simp add: config_init_def)
  then show "meaning ls nm i = None \<Longrightarrow> config_get_l_value nm i d c = (d, c)"
    "meaning ls nm i = Some (show_long n) \<Longrightarrow> LONG_MIN \<le> n \<Longrightarrow> n \<le> LONG_MAX \<Longrightarrow> config_get_l_value nm i d c = (n, c)"
    using find_parameter_meaning [OF assms, of nm] get_l_value_show_long [of n d] by (auto simp: config_get_l_value_def)
qed

text \<open>C21: a file that is written as definitions, one to a line, with or without an index and a comment, is read without
  an error, and the getters return what it means: the last definition with the index, else the last one without an index,
  else the default; a number comes back as the number that was written.\<close>
theorem config_file_means_last_definition:
  assumes "list_all line_ok ls" "length ls \<le> Max_N_Parameters"
  shows "\<exists>c. config_read_file (Some (concat (map text_of ls))) config_init = Some (0, c) \<and>
    (\<forall>nm i d. LONG_MIN \<le> i \<and> i \<le> LONG_MAX \<longrightarrow>
       config_get_s_value nm i d c = (case meaning ls nm i of None \<Rightarrow> d | Some v \<Rightarrow> v)) \<and>
    (\<forall>nm i d n. LONG_MIN \<le> i \<and> i \<le> LONG_MAX \<and> LONG_MIN \<le> n \<and> n \<le> LONG_MAX \<and> meaning ls nm i = Some (show_long n) \<longrightarrow>
       config_get_l_value nm i d c = (n, c))"
proof -
  obtain c where c: "puts_lines ls config_init = Some c"
    "config_read_file (Some (concat (map text_of ls))) config_init = Some (0, c)"
    using file_is_read [OF assms] by blast
  then show ?thesis using text_of_file [OF c(1) assms(1)] number_of_file(2) [OF c(1) assms(1)] by blast
qed

definition demo_lines :: "definition_line list" where
  "demo_lines =
     [\<lparr>l_name = ''v1190_geo'', l_index = Some 6, l_value = ''6'', l_comment = Some '' geometrical address''\<rparr>,
      \<lparr>l_name = ''v1190_window_offset'', l_index = None, l_value = ''-4000'', l_comment = None\<rparr>,
      \<lparr>l_name = ''V1190_geo'', l_index = Some 6, l_value = ''7'', l_comment = None\<rparr>]"

theorem config_file_means_last_definition_witness:
  "\<exists>c. config_read_file (Some (concat (map text_of demo_lines))) config_init = Some (0, c) \<and>
     config_get_s_value ''v1190_geo'' 6 ''x'' c = ''7'' \<and> config_get_l_value ''v1190_window_offset'' 3 0 c = (-4000, c)"
proof -
  have ok: "list_all line_ok demo_lines" by code_simp
  have len: "length demo_lines \<le> Max_N_Parameters" by (simp add: demo_lines_def Max_N_Parameters_def)
  have l: "LONG_MIN \<le> 6" "6 \<le> LONG_MAX" "LONG_MIN \<le> 3" "3 \<le> LONG_MAX" "LONG_MIN \<le> -4000" "-4000 \<le> LONG_MAX"
    by (simp_all add: LONG_MIN_def LONG_MAX_def)
  have m: "meaning demo_lines ''v1190_geo'' 6 = Some ''7''"
    "meaning demo_lines ''v1190_window_offset'' 3 = Some (show_long (-4000))" by code_simp+
  obtain c where c: "config_read_file (Some (concat (map text_of demo_lines))) config_init = Some (0, c)"
    "\<forall>nm i d. LONG_MIN \<le> i \<and> i \<le> LONG_MAX \<longrightarrow>
       config_get_s_value nm i d c = (case meaning demo_lines nm i of None \<Rightarrow> d | Some v \<Rightarrow> v)"
    "\<forall>nm i d n. LONG_MIN \<le> i \<and> i \<le> LONG_MAX \<and> LONG_MIN \<le> n \<and> n \<le> LONG_MAX \<and> meaning demo_lines nm i = Some (show_long n) \<longrightarrow>
       config_get_l_value nm i d c = (n, c)"
    using config_file_means_last_definition [OF ok len] by blast
  have "config_get_s_value ''v1190_geo'' 6 ''x'' c = ''7''" using c(2) l m(1) by simp
  moreover have "config_get_l_value ''v1190_window_offset'' 3 0 c = (-4000, c)" using c(3) l m(2) by blast
  ultimately show ?thesis using c(1) by blast
qed

lemma hex_chars:
  assumes "hex_digit c"
  shows "digit_val c < 16" "\<not> sign c" "\<not> blank c" "c \<noteq> CHR ''-''"
proof -
  have "of_char c \<le> (102 :: nat)" using assms by (auto simp: hex_digit_def is_digit_def less_eq_char_def)
  then have "int (of_char c) \<le> int 102" by (rule of_nat_mono)
  then have "(of_char c :: int) \<le> 102" unfolding of_nat_of_char by simp
  then show "digit_val c < 16" using assms digit_val_less [of c] by (auto simp: digit_val_def hex_digit_def)
qed (use assms in \<open>auto simp: cls_defs\<close>)

lemma get_l_value_hex:
  assumes "list_all hex_digit h" "h \<noteq> []"
  shows "get_l_value (''0x'' @ h) d e =
    (case strtol 16 h e of (l, rest, e') \<Rightarrow> if e' = 0 \<and> rest = [] then (l, e') else (d, e'))"
proof -
  have "regexec preg_num1 (''0x'' @ h) = None"
    by (simp add: regexec_def preg_num1_def cls_defs)
  moreover have "regexec preg_num2 (''0x'' @ h) = Some [[], ''0'', ''x'', h, []]"
    using assms by (simp only: regexec_unique [OF pregs_decided(2)]) (auto simp: is_match_def preg_num2_def)
  moreover have "group preg_num2 1 [[], ''0'', ''x'', h, []] = ''0x'' @ h"
    by (simp add: group_def preg_num2_def)
  ultimately show ?thesis by (simp add: get_l_value_def)
qed

lemma strtol_hex_overflow:
  assumes "list_all hex_digit h" "h \<noteq> []" "LONG_MAX < num_val 16 h"
  shows "strtol 16 h e = (LONG_MAX, [], ERANGE)"
proof -
  have "\<not> sign (hd h)" "hd h \<noteq> CHR ''-''" using assms(1,2) hex_chars by (cases h; auto)+
  moreover have "list_all (\<lambda>c. digit_val c < 16) h" using assms(1) by (auto simp: list_all_iff hex_chars)
  ultimately show ?thesis using assms(3) by (simp add: strtol_def Let_def takeWhile_all del: dropWhile_eq_Nil_conv)
qed

lemma get_l_value_errno: "e \<noteq> 0 \<Longrightarrow> fst (get_l_value s d e) = d \<and> snd (get_l_value s d e) \<noteq> 0"
  by (auto simp: get_l_value_def strtol_def Let_def ERANGE_def split: option.splits prod.splits if_splits)

text \<open>A hexadecimal number that does not fit into a \<^verbatim>\<open>long\<close>, such as a mask with all 32 bits set, is replaced by the
  default; and from then on every number read from the configuration is replaced by its default too, because the code
  tests \<^verbatim>\<open>errno\<close> and never resets it.\<close>
theorem overflow_spoils_later_numbers:
  assumes "find_parameter nm i c = Some p" "par_value p = ''0x'' @ h" "list_all hex_digit h" "h \<noteq> []"
    "LONG_MAX < num_val 16 h"
  shows "\<exists>c'. config_get_l_value nm i d c = (d, c') \<and> (\<forall>nm' i' d'. fst (config_get_l_value nm' i' d' c') = d')"
proof -
  have "config_get_l_value nm i d c = (d, c\<lparr>cerrno := ERANGE\<rparr>)"
    using assms(1,2) get_l_value_hex [OF assms(3,4)] strtol_hex_overflow [OF assms(3-5)]
    by (simp add: config_get_l_value_def ERANGE_def)
  moreover have "fst (config_get_l_value nm' i' d' (c\<lparr>cerrno := ERANGE\<rparr>)) = d'" for nm' i' d'
    using get_l_value_errno [of ERANGE] by (auto simp: config_get_l_value_def ERANGE_def split_beta split: option.splits)
  ultimately show ?thesis by blast
qed

definition demo_config :: config where
  "demo_config = \<lparr>parameters = [\<lparr>par_name = ''mqdc32_use_ch'', par_index = None, par_value = ''0xffffffff''\<rparr>,
     \<lparr>par_name = ''mqdc32_irq_threshold'', par_index = None, par_value = ''900''\<rparr>], cerrno = 0\<rparr>"

theorem overflow_spoils_later_numbers_witness:
  "\<exists>c'. config_get_l_value ''mqdc32_use_ch'' 0 15 demo_config = (15, c') \<and>
     fst (config_get_l_value ''mqdc32_irq_threshold'' 0 1 c') = 1"
proof -
  have f: "find_parameter ''mqdc32_use_ch'' 0 demo_config =
    Some \<lparr>par_name = ''mqdc32_use_ch'', par_index = None, par_value = ''0x'' @ ''ffffffff''\<rparr>" by code_simp
  have h: "list_all hex_digit ''ffffffff''" "LONG_MAX < num_val 16 ''ffffffff''" by code_simp+
  show ?thesis using overflow_spoils_later_numbers [OF f _ h(1) _ h(2), of 15] by auto
qed

end
