(* ===== verification/Vme_Readout.thy ===== *)
theory Vme_Readout
  imports Udaq_Prelude
begin

text \<open>
  Read out of the VME modules by \<^verbatim>\<open>vmedaq/vmedaq.c\<close>: the functions \<^verbatim>\<open>*_check_data\<close> that read the FIFO of a module and
  put a block into the data buffer, for the scaler V830, the TDC V1190, the ADCs MADC32 and MQDC32 and the time stamp
  module MyRIAD.

  A \<^verbatim>\<open>long\<close> has 32 bits. A FIFO is the sequence of words that successive reads of its address give. The block in the
  buffer is a list: the four words of the header, then the data; \<^verbatim>\<open>*size\<close> is its length. The index of the data is
  counted from behind the header.
\<close>

unbundle bit_operations_syntax

section \<open>Bit fields\<close>

text \<open>A bit field of \<open>n\<close> bits from bit \<open>k\<close>, counted from the least significant one.\<close>

definition bits :: "nat \<Rightarrow> nat \<Rightarrow> 32 word \<Rightarrow> 32 word" where
  "bits k n w = take_bit n (drop_bit k w)"

definition set_bits_of :: "nat \<Rightarrow> nat \<Rightarrow> 32 word \<Rightarrow> 32 word \<Rightarrow> 32 word" where
  "set_bits_of k n v w = (w AND NOT (push_bit k (mask n))) OR push_bit k (take_bit n v)"

lemma bit_set_bits_of:
  "bit (set_bits_of k n v w) i \<longleftrightarrow> i < 32 \<and> (if k \<le> i \<and> i < k + n then bit v (i - k) else bit w i)"
  by (auto simp: set_bits_of_def bit_simps)

lemma bits_set_bits_of:
  "k + n \<le> 32 \<Longrightarrow> bits k n (set_bits_of k n v w) = take_bit n v"
  "k + n \<le> j \<or> j + m \<le> k \<Longrightarrow> bits j m (set_bits_of k n v w) = bits j m w"
  by (rule bit_word_eqI, auto simp: bits_def bit_take_bit_iff bit_drop_bit_eq bit_set_bits_of dest: bit_imp_le_length)+

section \<open>Header of a block\<close>

definition VMEDAQ_HEADER_ID :: "32 word" where "VMEDAQ_HEADER_ID = 0x44454D56"
definition VMEDAQ_TYPE_V1190 :: "32 word" where "VMEDAQ_TYPE_V1190 = 0x00000001"
definition VMEDAQ_TYPE_V830 :: "32 word" where "VMEDAQ_TYPE_V830 = 0x00000002"
definition VMEDAQ_TYPE_COUNTER_OFFSET :: "32 word" where "VMEDAQ_TYPE_COUNTER_OFFSET = 0x00000003"
definition VMEDAQ_TYPE_MADC32 :: "32 word" where "VMEDAQ_TYPE_MADC32 = 0x00001000"
definition VMEDAQ_TYPE_MQDC32 :: "32 word" where "VMEDAQ_TYPE_MQDC32 = 0x00002000"
definition VMEDAQ_TYPE_MYRIAD :: "32 word" where "VMEDAQ_TYPE_MYRIAD = 0x00024000"

definition DATA_BUF_SIZE :: nat where "DATA_BUF_SIZE = 16384 * 16"

definition HEADER_WORDS :: nat where "HEADER_WORDS = 4"

text \<open>The header in front of the data, and the block counter after it.\<close>

definition vmedaq_write_header :: "32 word \<Rightarrow> 32 word list \<Rightarrow> 32 word \<Rightarrow> 32 word list \<times> 32 word" where
  "vmedaq_write_header typ dat ctr =
     ([VMEDAQ_HEADER_ID, typ, ctr, of_nat ((HEADER_WORDS + length dat) * 4)] @ dat, ctr + 1)"

section \<open>V830\<close>

definition V830_N_CHANNELS :: nat where "V830_N_CHANNELS = 32"

definition meb_header :: "32 word \<Rightarrow> 32 word" where "meb_header w = bits 26 1 w"
definition meb_n_words :: "32 word \<Rightarrow> nat" where "meb_n_words w = unat (bits 18 6 w)"

text \<open>The word at \<open>p\<close> has been read; up to \<open>j\<close> more are read until one is a header.\<close>

fun skip_zero :: "nat \<Rightarrow> (nat \<Rightarrow> 32 word) \<Rightarrow> nat \<Rightarrow> nat" where
  "skip_zero 0 m p = p"
| "skip_zero (Suc j) m p = (if meb_header (m p) = 0 then skip_zero j m (p + 1) else p)"

text \<open>Scalers beyond the last channel are not read.\<close>

definition read_scalers :: "(nat \<Rightarrow> 32 word) \<Rightarrow> nat \<Rightarrow> nat \<Rightarrow> 32 word list \<Rightarrow> 32 word list" where
  "read_scalers m p n sc = map m [p ..< p + min n V830_N_CHANNELS] @ drop n sc"

fun v830_loop :: "nat \<Rightarrow> nat \<Rightarrow> (nat \<Rightarrow> 32 word) \<Rightarrow> nat \<Rightarrow> nat \<Rightarrow> 32 word list \<Rightarrow> 32 word list \<Rightarrow> int \<Rightarrow>
    int \<times> 32 word list \<times> 32 word list" where
  "v830_loop 0 b m ns p sc out ec = (ec, out, sc)"
| "v830_loop (Suc i) b m ns p sc out ec =
     (if int b - int (HEADER_WORDS + length out) < int (1 + V830_N_CHANNELS) then (ec, out, sc)
      else
        let q = skip_zero V830_N_CHANNELS m p in
        if meb_header (m q) = 0 then (ec, out, sc)
        else
          let n = meb_n_words (m q); sc' = read_scalers m (q + 1) n sc
          in v830_loop i b m ns (q + 1 + min n V830_N_CHANNELS) sc' (out @ of_nat ns # take ns sc') (ec + 1))"

definition v830_check_data :: "16 word \<Rightarrow> (nat \<Rightarrow> 32 word) \<Rightarrow> nat \<Rightarrow> nat \<Rightarrow> 32 word list \<Rightarrow> 32 word \<Rightarrow>
    int \<times> 32 word list \<times> 32 word list \<times> 32 word" where
  "v830_check_data n m b ns sc ctr =
     (if n = 0 then (-1, [], sc, ctr)
      else case v830_loop (unat n) b m ns 0 sc [] (-1) of
             (ec, out, sc') \<Rightarrow> (case vmedaq_write_header VMEDAQ_TYPE_V830 out ctr of (blk, ctr') \<Rightarrow> (ec, blk, sc', ctr')))"

section \<open>V1190\<close>

definition V1190_HEADER_ID_GH :: "32 word" where "V1190_HEADER_ID_GH = 0x08"
definition V1190_HEADER_ID_GT :: "32 word" where "V1190_HEADER_ID_GT = 0x10"
definition V1190_HEADER_ID_FILLER :: "32 word" where "V1190_HEADER_ID_FILLER = 0x18"

definition gh_geo :: "32 word \<Rightarrow> nat" where "gh_geo w = unat (bits 0 5 w)"
definition gh_event_count :: "32 word \<Rightarrow> int" where "gh_event_count w = uint (bits 5 22 w)"
definition v1190_id :: "32 word \<Rightarrow> 32 word" where "v1190_id w = bits 27 5 w"

text \<open>
  The loop without DMA: \<open>n\<close> is \<^verbatim>\<open>n_event_stored\<close>, \<open>mc\<close> the table \<^verbatim>\<open>v1190_module_counters\<close>. Every word that does not
  end it fills the buffer.
\<close>

function v1190_loop :: "nat \<Rightarrow> (nat \<Rightarrow> 32 word) \<Rightarrow> nat \<Rightarrow> int \<Rightarrow> 32 word list \<Rightarrow> int \<Rightarrow> (nat \<Rightarrow> int) \<Rightarrow>
    int \<times> 32 word list \<times> (nat \<Rightarrow> int) \<times> nat" where
  "v1190_loop b m p n out ec mc =
     (let w = m p; t = v1190_id w in
      if t = V1190_HEADER_ID_FILLER then (ec, out, mc, p + 1)
      else
        let ec' = (if t = V1190_HEADER_ID_GH then gh_event_count w else ec);
            mc' = (if t = V1190_HEADER_ID_GH then mc(gh_geo w := gh_event_count w) else mc);
            n' = (if t = V1190_HEADER_ID_GT then n - 1 else n);
            out' = out @ [w]
        in if t = V1190_HEADER_ID_GT \<and> n' \<le> 0 \<or> b \<le> HEADER_WORDS + length out' then (ec', out', mc', p + 1)
           else v1190_loop b m (p + 1) n' out' ec' mc')"
  by pat_completeness auto

termination
  by (relation "measure (\<lambda>(b, m, p, n, out, ec, mc). b - length out)") (auto simp: Let_def)

declare v1190_loop.simps [simp del]

text \<open>
  With DMA the loop that transfers the data counts \<^verbatim>\<open>n_data_bytes\<close> down to 0, and the loop over the words ends at once
  when it is 0. \<open>d\<close> is \<^verbatim>\<open>n_data_bytes\<close>, \<open>o\<close> the offset.
\<close>

definition DMA_TRANSFER_SIZE :: int where "DMA_TRANSFER_SIZE = 1024000"
definition dma_buffer_size :: int where "dma_buffer_size = 0x00010000"

function dma_transfer :: "int \<Rightarrow> int \<Rightarrow> int \<times> (int \<times> int) list" where
  "dma_transfer d ofs =
     (if d > 0
      then let t = (if d > DMA_TRANSFER_SIZE then DMA_TRANSFER_SIZE else d)
           in case dma_transfer (d - t) (ofs + DMA_TRANSFER_SIZE) of (d', ts) \<Rightarrow> (d', (ofs, t) # ts)
      else (d, []))"
  by pat_completeness auto

termination
  by (relation "measure (\<lambda>(d, ofs). nat d)") (auto simp: DMA_TRANSFER_SIZE_def Let_def)

declare dma_transfer.simps [simp del]

fun fifo_words :: "nat \<Rightarrow> (nat \<Rightarrow> 32 word) \<Rightarrow> nat \<Rightarrow> int" where
  "fifo_words 0 f i = 0"
| "fifo_words (Suc k) f i = uint (f i AND 0x0000FFFF) + fifo_words k f (i + 1)"

text \<open>The loop over the words that were transferred into the DMA buffer \<open>dm\<close>.\<close>

function dma_loop :: "nat \<Rightarrow> (nat \<Rightarrow> 32 word) \<Rightarrow> nat \<Rightarrow> int \<Rightarrow> int \<Rightarrow> 32 word list \<Rightarrow> int \<Rightarrow> (nat \<Rightarrow> int) \<Rightarrow>
    int \<times> 32 word list \<times> (nat \<Rightarrow> int)" where
  "dma_loop b dm p d n out ec mc =
     (if d \<le> 0 then (ec, out, mc)
      else
        let w = dm p; t = v1190_id w in
        if t = V1190_HEADER_ID_FILLER then (ec, out, mc)
        else
          let ec' = (if t = V1190_HEADER_ID_GH then gh_event_count w else ec);
              mc' = (if t = V1190_HEADER_ID_GH then mc(gh_geo w := gh_event_count w) else mc);
              n' = (if t = V1190_HEADER_ID_GT then n - 1 else n);
              out' = out @ [w]
          in if t = V1190_HEADER_ID_GT \<and> n' \<le> 0 \<or> b \<le> HEADER_WORDS + length out' then (ec', out', mc')
             else dma_loop b dm (p + 1) (d - 4) n' out' ec' mc')"
  by pat_completeness auto

termination
  by (relation "measure (\<lambda>(b, dm, p, d, n, out, ec, mc). nat d)") (auto simp: Let_def)

declare dma_loop.simps [simp del]

record tdc_hw =
  event_stored :: "16 word"
  output_buffer :: "nat \<Rightarrow> 32 word"
  event_fifo_stored :: "16 word"
  event_fifo :: "nat \<Rightarrow> 32 word"
  dma_memory :: "nat \<Rightarrow> 32 word"

definition v1190_read :: "bool \<Rightarrow> tdc_hw \<Rightarrow> nat \<Rightarrow> (nat \<Rightarrow> int) \<Rightarrow> int \<times> 32 word list \<times> (nat \<Rightarrow> int)" where
  "v1190_read dma h b mc =
     (if dma then
        let bytes = c_int (4 * c_int (fifo_words (unat (event_fifo_stored h)) (event_fifo h) 0));
            d = (if dma_buffer_size < bytes then dma_buffer_size else bytes)
        in dma_loop b (dma_memory h) 0 (fst (dma_transfer d 0)) (uint (event_stored h)) [] (-1) mc
      else case v1190_loop b (output_buffer h) 0 (uint (event_stored h)) [] (-1) mc of (ec, out, mc', _) \<Rightarrow> (ec, out, mc'))"

definition v1190_check_data :: "bool \<Rightarrow> tdc_hw \<Rightarrow> nat \<Rightarrow> (nat \<Rightarrow> int) \<Rightarrow> 32 word \<Rightarrow>
    int \<times> 32 word list \<times> (nat \<Rightarrow> int) \<times> 32 word" where
  "v1190_check_data dma h b mc ctr =
     (case v1190_read dma h b mc of
        (ec, out, mc') \<Rightarrow>
          if ec < 0 then (ec, [], mc', ctr)
          else case vmedaq_write_header VMEDAQ_TYPE_V1190 out ctr of (blk, ctr') \<Rightarrow> (ec, blk, mc', ctr'))"

section \<open>MADC32 and MQDC32\<close>

definition MADC32_HEADER_SIGNATURE_DATA :: "32 word" where "MADC32_HEADER_SIGNATURE_DATA = 0"
definition MADC32_HEADER_SIGNATURE_HEADER :: "32 word" where "MADC32_HEADER_SIGNATURE_HEADER = 1"
definition MADC32_HEADER_SIGNATURE_END_OF_EVENT :: "32 word" where "MADC32_HEADER_SIGNATURE_END_OF_EVENT = 3"
definition MADC32_SUBHEADER_NO_HEADER :: "32 word" where "MADC32_SUBHEADER_NO_HEADER = 0x0001"
definition MADC32_SUBHEADER_NO_END_OF_EVENT :: "32 word" where "MADC32_SUBHEADER_NO_END_OF_EVENT = 0x0002"
definition MAX_N_MADC32_MODULE_COUNTERS :: int where "MAX_N_MADC32_MODULE_COUNTERS = 0x10000"

definition signature_of :: "32 word \<Rightarrow> 32 word" where "signature_of w = bits 30 2 w"
definition header_module_id :: "32 word \<Rightarrow> int" where "header_module_id w = uint (bits 16 8 w)"
definition eoe_counter :: "32 word \<Rightarrow> int" where "eoe_counter w = uint (bits 0 30 w)"

text \<open>The fields of a header that the program makes itself.\<close>

definition patch_header :: "nat \<Rightarrow> 16 word \<Rightarrow> int \<Rightarrow> 32 word \<Rightarrow> 32 word" where
  "patch_header n res mid w =
     set_bits_of 30 2 1
       (set_bits_of 24 6 MADC32_SUBHEADER_NO_HEADER
         (set_bits_of 16 8 (of_int mid)
           (set_bits_of 15 1 0
             (set_bits_of 12 3 (ucast res AND 0x07)
               (set_bits_of 0 12 (of_nat n) w)))))"

definition eoe_word :: "int \<Rightarrow> 32 word" where
  "eoe_word c = set_bits_of 0 30 (of_int c) (set_bits_of 30 2 MADC32_HEADER_SIGNATURE_END_OF_EVENT 0)"

text \<open>
  The variables of the loop. \<open>header_pos\<close> points to the place of a header to be made, \<open>mc\<close> is the table of counters
  (\<^verbatim>\<open>madc32_module_counters\<close>); its index is not restricted to the array, as in the code.
\<close>

record mes =
  mbuf :: "32 word list"
  header_flag :: bool
  no_header_flag :: bool
  end_of_event_flag :: bool
  header_pos :: "nat option"
  mevent_count :: int
  module_id :: int
  mcounters :: "int \<Rightarrow> int"

definition mes_start :: "(int \<Rightarrow> int) \<Rightarrow> mes" where
  "mes_start mc = \<lparr>mbuf = [], header_flag = False, no_header_flag = False, end_of_event_flag = False, header_pos = None,
     mevent_count = -1, module_id = -1, mcounters = mc\<rparr>"

definition mes_header :: "32 word \<Rightarrow> mes \<Rightarrow> mes" where
  "mes_header w s =
     (let s1 = (if header_flag s \<and> \<not> end_of_event_flag s
                then s\<lparr>header_flag := False, no_header_flag := False, end_of_event_flag := True\<rparr> else s)
      in s1\<lparr>module_id := header_module_id w, header_flag := True, end_of_event_flag := False\<rparr>)"

definition mes_data :: "32 word \<Rightarrow> mes \<Rightarrow> mes" where
  "mes_data w s =
     (if \<not> header_flag s \<and> \<not> no_header_flag s
      then s\<lparr>no_header_flag := True, header_pos := Some (length (mbuf s) - 1), mbuf := mbuf s @ [w]\<rparr> else s)"

definition mes_eoe :: "16 word \<Rightarrow> int \<Rightarrow> 32 word \<Rightarrow> mes \<Rightarrow> mes" where
  "mes_eoe res mid w s =
     (let c = eoe_counter w;
          i = (if 0 \<le> module_id s \<and> module_id s < MAX_N_MADC32_MODULE_COUNTERS then mid else module_id s);
          s1 = s\<lparr>mevent_count := c, module_id := i, mcounters := (mcounters s)(i := c)\<rparr>;
          s2 = (case header_pos s of
                  Some h \<Rightarrow>
                    if \<not> header_flag s \<and> no_header_flag s
                    then s1\<lparr>mbuf := (mbuf s)[h := patch_header (length (mbuf s) - h - 1) res mid (mbuf s ! h)]\<rparr> else s1
                | None \<Rightarrow> s1)
      in s2\<lparr>header_flag := False, no_header_flag := False, end_of_event_flag := True\<rparr>)"

definition mes_word :: "16 word \<Rightarrow> int \<Rightarrow> 32 word \<Rightarrow> mes \<Rightarrow> mes" where
  "mes_word res mid w s0 =
     (let s = s0\<lparr>mbuf := mbuf s0 @ [w]\<rparr>; sg = signature_of w
      in if sg = MADC32_HEADER_SIGNATURE_HEADER then mes_header w s
         else if sg = MADC32_HEADER_SIGNATURE_DATA then mes_data w s
         else if sg = MADC32_HEADER_SIGNATURE_END_OF_EVENT then mes_eoe res mid w s
         else s)"

fun mes_loop :: "nat \<Rightarrow> nat \<Rightarrow> (nat \<Rightarrow> 32 word) \<Rightarrow> nat \<Rightarrow> 16 word \<Rightarrow> int \<Rightarrow> mes \<Rightarrow> mes" where
  "mes_loop 0 b m p res mid s = s"
| "mes_loop (Suc k) b m p res mid s =
     (let s' = mes_word res mid (m p) s
      in if b \<le> HEADER_WORDS + length (mbuf s') then s' else mes_loop k b m (p + 1) res mid s')"

text \<open>Behind the loop: an end of event for an event that has none.\<close>

definition mes_close :: "int \<Rightarrow> mes \<Rightarrow> mes" where
  "mes_close mid s =
     (if header_flag s \<and> \<not> end_of_event_flag s then
        let c = mcounters s mid + 1;
            s1 = s\<lparr>mcounters := (mcounters s)(mid := c), mbuf := mbuf s @ [eoe_word c]\<rparr>
        in case header_pos s of
             None \<Rightarrow> s1
           | Some h \<Rightarrow> s1\<lparr>mbuf := (mbuf s1)[h := set_bits_of 24 6 MADC32_SUBHEADER_NO_END_OF_EVENT (mbuf s1 ! h)]\<rparr>
      else s)"

record adc_hw =
  buffer_data_length :: "16 word"
  fifo_read :: "nat \<Rightarrow> 32 word"
  adc_resolution :: "16 word"

definition mes_read :: "adc_hw \<Rightarrow> int \<Rightarrow> nat \<Rightarrow> (int \<Rightarrow> int) \<Rightarrow> mes" where
  "mes_read h mid b mc =
     mes_close mid (mes_loop (unat (buffer_data_length h)) b (fifo_read h) 0 (adc_resolution h) mid (mes_start mc))"

definition mes_block :: "32 word \<Rightarrow> mes \<Rightarrow> 32 word \<Rightarrow> int \<times> 32 word list \<times> (int \<Rightarrow> int) \<times> 32 word" where
  "mes_block typ s ctr =
     (if mevent_count s < 0 then (mevent_count s, [], mcounters s, ctr)
      else
        let out = (if odd (HEADER_WORDS + length (mbuf s)) then mbuf s @ [0] else mbuf s)
        in case vmedaq_write_header typ out ctr of (blk, ctr') \<Rightarrow> (mevent_count s, blk, mcounters s, ctr'))"

definition madc32_check_data :: "adc_hw \<Rightarrow> int \<Rightarrow> nat \<Rightarrow> (int \<Rightarrow> int) \<Rightarrow> 32 word \<Rightarrow>
    int \<times> 32 word list \<times> (int \<Rightarrow> int) \<times> 32 word" where
  "madc32_check_data h mid b mc ctr = mes_block VMEDAQ_TYPE_MADC32 (mes_read h mid b mc) ctr"

text \<open>The function for the MQDC32 is the same code with the names of that module.\<close>

definition mqdc32_check_data :: "adc_hw \<Rightarrow> int \<Rightarrow> nat \<Rightarrow> (int \<Rightarrow> int) \<Rightarrow> 32 word \<Rightarrow>
    int \<times> 32 word list \<times> (int \<Rightarrow> int) \<times> 32 word" where
  "mqdc32_check_data h mid b mc ctr = mes_block VMEDAQ_TYPE_MQDC32 (mes_read h mid b mc) ctr"

section \<open>MyRIAD\<close>

definition MYRIAD_HEADER_ID :: "16 word" where "MYRIAD_HEADER_ID = 0xAAAA"

text \<open>The search for a header: three words at most.\<close>

definition myriad_header :: "(nat \<Rightarrow> 16 word) \<Rightarrow> nat \<Rightarrow> nat option" where
  "myriad_header m p = find (\<lambda>i. m i = MYRIAD_HEADER_ID) [p, p + 1, p + 2]"

definition join16 :: "16 word \<Rightarrow> 16 word \<Rightarrow> 32 word" where
  "join16 lo hi = ucast lo OR push_bit 16 (ucast hi)"

function myriad_loop :: "nat \<Rightarrow> (nat \<Rightarrow> 16 word) \<Rightarrow> nat \<Rightarrow> 32 word list \<Rightarrow> int \<Rightarrow> int \<times> 32 word list" where
  "myriad_loop b m p out ec =
     (if int b - int (HEADER_WORDS + length out) \<ge> 2 then
        (case myriad_header m p of
           None \<Rightarrow> (ec, out)
         | Some q \<Rightarrow>
             if m (q + 1) = MYRIAD_HEADER_ID then (ec, out)
             else myriad_loop b m (q + 4) (out @ [join16 (m q) (m (q + 1)), join16 (m (q + 2)) (m (q + 3))]) (ec + 1))
      else (ec, out))"
  by pat_completeness auto

termination
  by (relation "measure (\<lambda>(b, m, p, out, ec). b - length out)") auto

declare myriad_loop.simps [simp del]

definition myriad_check_data :: "(nat \<Rightarrow> 16 word) \<Rightarrow> nat \<Rightarrow> 32 word \<Rightarrow> int \<times> 32 word list \<times> 32 word" where
  "myriad_check_data m b ctr =
     (case myriad_loop b m 0 [] 0 of
        (ec, out) \<Rightarrow>
          if ec > 0 then (case vmedaq_write_header VMEDAQ_TYPE_MYRIAD out ctr of (blk, ctr') \<Rightarrow> (ec, blk, ctr'))
          else (-1, [], ctr))"

section \<open>The TDC is read out completely\<close>

definition ec_step :: "32 word \<Rightarrow> int \<Rightarrow> int" where
  "ec_step w ec = (if v1190_id w = V1190_HEADER_ID_GH then gh_event_count w else ec)"

definition mc_step :: "32 word \<Rightarrow> (nat \<Rightarrow> int) \<Rightarrow> (nat \<Rightarrow> int)" where
  "mc_step w mc = (if v1190_id w = V1190_HEADER_ID_GH then mc(gh_geo w := gh_event_count w) else mc)"

definition is_gt :: "32 word \<Rightarrow> bool" where "is_gt w \<longleftrightarrow> v1190_id w = V1190_HEADER_ID_GT"

lemma v1190_loop_step:
  assumes "v1190_id (m p) \<noteq> V1190_HEADER_ID_FILLER" "\<not> (is_gt (m p) \<and> n \<le> 1)" "HEADER_WORDS + length out + 1 < b"
  shows "v1190_loop b m p n out ec mc =
    v1190_loop b m (p + 1) (if is_gt (m p) then n - 1 else n) (out @ [m p]) (ec_step (m p) ec) (mc_step (m p) mc)"
  using assms by (subst v1190_loop.simps) (auto simp: Let_def is_gt_def ec_step_def mc_step_def)

lemma v1190_loop_end:
  assumes "v1190_id (m p) \<noteq> V1190_HEADER_ID_FILLER" "is_gt (m p)" "n \<le> 1"
  shows "v1190_loop b m p n out ec mc = (ec_step (m p) ec, out @ [m p], mc_step (m p) mc, p + 1)"
  using assms by (subst v1190_loop.simps) (auto simp: Let_def is_gt_def ec_step_def mc_step_def)

lemma v1190_loop_words:
  assumes "\<forall>i < length ws. m (p + i) = ws ! i" "\<forall>w \<in> set ws. v1190_id w \<noteq> V1190_HEADER_ID_FILLER" "ws \<noteq> []"
    "is_gt (last ws)" "int (length (filter is_gt ws)) = n" "HEADER_WORDS + length out + length ws \<le> b"
  shows "v1190_loop b m p n out ec mc = (fold ec_step ws ec, out @ ws, fold mc_step ws mc, p + length ws)"
  using assms
proof (induction ws arbitrary: p n out ec mc)
  case (Cons w ws)
  have w: "m p = w" using Cons.prems(1) by (metis add_0_right length_greater_0_conv list.distinct(1) nth_Cons_0)
  show ?case
  proof (cases "ws = []")
    case True
    then show ?thesis using v1190_loop_end [of m p n] Cons.prems w by simp
  next
    case False
    then have "is_gt (last ws)" using Cons.prems(4) by simp
    then have "filter is_gt ws \<noteq> []" using False last_in_set [OF False] by (auto simp: filter_empty_conv)
    then have pos: "0 < length (filter is_gt ws)" by simp
    have len: "HEADER_WORDS + length out + 1 < b" using False Cons.prems(6) by (cases ws) auto
    have "v1190_loop b m p n out ec mc =
        v1190_loop b m (p + 1) (if is_gt w then n - 1 else n) (out @ [w]) (ec_step w ec) (mc_step w mc)"
      using v1190_loop_step [of m p n out b ec mc] Cons.prems(2,5) w pos len by auto
    also have "\<dots> = (fold ec_step ws (ec_step w ec), (out @ [w]) @ ws, fold mc_step ws (mc_step w mc), p + 1 + length ws)"
    proof (rule Cons.IH)
      show "\<forall>i < length ws. m (p + 1 + i) = ws ! i" using Cons.prems(1) by (metis Suc_less_eq add.assoc length_Cons nth_Cons_Suc plus_1_eq_Suc)
      show "int (length (filter is_gt ws)) = (if is_gt w then n - 1 else n)" using Cons.prems(5) by auto
    qed (use Cons.prems False \<open>is_gt (last ws)\<close> in auto)
    finally show ?thesis by simp
  qed
qed simp

text \<open>An event of the TDC: a global header, words of the TDC chips, a global trailer.\<close>

type_synonym tdc_event = "32 word \<times> 32 word list \<times> 32 word"

definition tdc_words :: "tdc_event \<Rightarrow> 32 word list" where
  "tdc_words e = (case e of (gh, ws, gt) \<Rightarrow> gh # ws @ [gt])"

definition tdc_ok :: "tdc_event \<Rightarrow> bool" where
  "tdc_ok e = (case e of (gh, ws, gt) \<Rightarrow>
     v1190_id gh = V1190_HEADER_ID_GH \<and> v1190_id gt = V1190_HEADER_ID_GT \<and>
     list_all (\<lambda>w. v1190_id w \<noteq> V1190_HEADER_ID_GH \<and> v1190_id w \<noteq> V1190_HEADER_ID_GT \<and> v1190_id w \<noteq> V1190_HEADER_ID_FILLER) ws)"

lemma tdc_ok_words:
  assumes "tdc_ok e"
  shows "\<forall>w \<in> set (tdc_words e). v1190_id w \<noteq> V1190_HEADER_ID_FILLER" "filter is_gt (tdc_words e) = [snd (snd e)]"
    "fold ec_step (tdc_words e) c = gh_event_count (fst e)"
    "fold mc_step (tdc_words e) mc = mc(gh_geo (fst e) := gh_event_count (fst e))"
proof -
  obtain gh ws gt where e: "e = (gh, ws, gt)" by (cases e)
  have inner: "\<forall>w \<in> set ws. v1190_id w \<noteq> V1190_HEADER_ID_GH \<and> \<not> is_gt w \<and> v1190_id w \<noteq> V1190_HEADER_ID_FILLER"
    and ids: "v1190_id gh = V1190_HEADER_ID_GH" "v1190_id gt = V1190_HEADER_ID_GT"
    using assms e by (auto simp: tdc_ok_def list_all_iff is_gt_def)
  have apart: "V1190_HEADER_ID_GH \<noteq> V1190_HEADER_ID_GT" "V1190_HEADER_ID_GH \<noteq> V1190_HEADER_ID_FILLER"
    "V1190_HEADER_ID_GT \<noteq> V1190_HEADER_ID_FILLER"
    by (simp_all add: V1190_HEADER_ID_GH_def V1190_HEADER_ID_GT_def V1190_HEADER_ID_FILLER_def)
  show "\<forall>w \<in> set (tdc_words e). v1190_id w \<noteq> V1190_HEADER_ID_FILLER"
    using inner ids apart e by (auto simp: tdc_words_def)
  show "filter is_gt (tdc_words e) = [snd (snd e)]"
    using inner ids apart e by (auto simp: tdc_words_def is_gt_def filter_empty_conv)
  have "fold ec_step ws c = c" "fold mc_step ws mc = mc" for c mc
    using inner by (induction ws arbitrary: c mc) (auto simp: ec_step_def mc_step_def)
  then show "fold ec_step (tdc_words e) c = gh_event_count (fst e)"
    "fold mc_step (tdc_words e) mc = mc(gh_geo (fst e) := gh_event_count (fst e))"
    using ids apart e by (auto simp: tdc_words_def ec_step_def mc_step_def)
qed

lemma tdc_words_end: "tdc_words e \<noteq> []" "tdc_ok e \<Longrightarrow> is_gt (last (tdc_words e))"
  by (auto simp: tdc_words_def tdc_ok_def is_gt_def split: prod.splits)

lemma tdc_events_count: "list_all tdc_ok es \<Longrightarrow> length (filter is_gt (concat (map tdc_words es))) = length es"
  by (induction es) (auto simp: tdc_ok_words)

lemma tdc_events_filler:
  "list_all tdc_ok es \<Longrightarrow> \<forall>w \<in> set (concat (map tdc_words es)). v1190_id w \<noteq> V1190_HEADER_ID_FILLER"
  by (induction es) (auto simp: tdc_ok_words(1))

lemma tdc_events_last:
  assumes "list_all tdc_ok es" "es \<noteq> []"
  shows "concat (map tdc_words es) \<noteq> []" "is_gt (last (concat (map tdc_words es)))"
    "fold ec_step (concat (map tdc_words es)) c = gh_event_count (fst (last es))"
proof -
  obtain xs e where es: "es = xs @ [e]" using assms(2) by (cases es rule: rev_cases) auto
  then have "tdc_ok e" using assms(1) by simp
  then show "concat (map tdc_words es) \<noteq> []" "is_gt (last (concat (map tdc_words es)))"
    "fold ec_step (concat (map tdc_words es)) c = gh_event_count (fst (last es))"
    using tdc_words_end [of e] tdc_ok_words(3) [of e] es by simp_all
qed

lemma dma_transfer_empties: "fst (dma_transfer d ofs) \<le> 0"
  by (induction d ofs rule: dma_transfer.induct) (subst dma_transfer.simps, auto simp: Let_def split: prod.splits)

text \<open>With the option for DMA no data of a TDC is ever put into a block: the counter of the bytes is used up by the
  transfer before the words are looked at.\<close>
theorem dma_discards_tdc_data: "v1190_check_data True h b mc ctr = (-1, [], mc, ctr)"
  using dma_transfer_empties by (simp add: v1190_check_data_def v1190_read_def Let_def dma_loop.simps)

text \<open>C22: Without the option \<^verbatim>\<open>-dma\<close> as many events as the TDC has reported are taken from its output buffer, every word of them
  and no word more, and they are put unchanged into one block behind a header with its type, its number and its size in bytes. With
  \<^verbatim>\<open>-dma\<close> the same TDC gives no block at all: no word is handed over, the block number is not used up and the result is -1.\<close>
theorem tdc_readout_is_complete:
  assumes "list_all tdc_ok es" "es \<noteq> []" "uint (event_stored h) = int (length es)" "ws = concat (map tdc_words es)"
    "\<forall>i < length ws. output_buffer h i = ws ! i" "HEADER_WORDS + length ws \<le> b"
  shows "\<exists>mc'. v1190_check_data False h b mc ctr =
      (gh_event_count (fst (last es)), [VMEDAQ_HEADER_ID, VMEDAQ_TYPE_V1190, ctr, of_nat (4 * (4 + length ws))] @ ws, mc', ctr + 1) \<and>
    snd (snd (snd (v1190_loop b (output_buffer h) 0 (uint (event_stored h)) [] (-1) mc))) = length ws \<and>
    v1190_check_data True h b mc ctr = (-1, [], mc, ctr)"
proof -
  note t = tdc_events_count [OF assms(1), folded assms(4)] tdc_events_filler [OF assms(1), folded assms(4)]
    tdc_events_last [OF assms(1,2), folded assms(4)]
  have l: "v1190_loop b (output_buffer h) 0 (uint (event_stored h)) [] (-1) mc =
      (gh_event_count (fst (last es)), ws, fold mc_step ws mc, length ws)"
    using v1190_loop_words [of ws "output_buffer h" 0 "uint (event_stored h)" "[]" b "-1" mc] t assms(3,5,6) by simp
  have "0 \<le> gh_event_count (fst (last es))" by (simp add: gh_event_count_def)
  then show ?thesis
    using l dma_discards_tdc_data by (auto simp: v1190_check_data_def v1190_read_def vmedaq_write_header_def HEADER_WORDS_def)
qed

definition demo_tdc :: tdc_hw where
  "demo_tdc = \<lparr>event_stored = 2,
     output_buffer = (\<lambda>i. if i < 5 then [0x40000020, 0x00080123, 0x80000060, 0x40000040, 0x80000040] ! i else 0xC0000000),
     event_fifo_stored = 2, event_fifo = (\<lambda>i. 2), dma_memory = (\<lambda>i. 0)\<rparr>"

theorem tdc_readout_is_complete_witness:
  "\<exists>mc'. v1190_check_data False demo_tdc DATA_BUF_SIZE (\<lambda>i. 0) 7 =
      (2, [0x44454D56, 1, 7, 36, 0x40000020, 0x00080123, 0x80000060, 0x40000040, 0x80000040], mc', 8)"
proof -
  let ?es = "[(0x40000020, [0x00080123], 0x80000060), (0x40000040, [], 0x80000040)] :: tdc_event list"
  have ok: "list_all tdc_ok ?es" by code_simp
  have n: "uint (event_stored demo_tdc) = int (length ?es)" by (simp add: demo_tdc_def)
  have r: "\<forall>i < length (concat (map tdc_words ?es)). output_buffer demo_tdc i = concat (map tdc_words ?es) ! i"
    by (simp add: demo_tdc_def tdc_words_def)
  have c: "gh_event_count 0x40000040 = 2" by code_simp
  show ?thesis
    using tdc_readout_is_complete [OF ok _ n refl r, of DATA_BUF_SIZE "\<lambda>i. 0" 7] c
    by (auto simp: tdc_words_def HEADER_WORDS_def DATA_BUF_SIZE_def VMEDAQ_HEADER_ID_def VMEDAQ_TYPE_V1190_def)
qed

section \<open>Events of the ADCs\<close>

lemma patch_header_fields:
  "bits 0 12 (patch_header n res mid w) = take_bit 12 (of_nat n)"
  "bits 12 3 (patch_header n res mid w) = take_bit 3 (ucast res)"
  "bits 15 1 (patch_header n res mid w) = 0"
  "header_module_id (patch_header n res mid w) = mid mod 256"
  "bits 24 6 (patch_header n res mid w) = MADC32_SUBHEADER_NO_HEADER"
  "signature_of (patch_header n res mid w) = MADC32_HEADER_SIGNATURE_HEADER"
proof -
  have b: "bits 16 8 (patch_header n res mid w) = take_bit 8 (word_of_int mid)"
    by (simp add: patch_header_def bits_set_bits_of)
  show "header_module_id (patch_header n res mid w) = mid mod 256"
    unfolding header_module_id_def b unsigned_take_bit_eq uint_word_of_int_eq take_bit_take_bit by (simp add: take_bit_eq_mod)
qed (simp_all add: patch_header_def bits_set_bits_of signature_of_def MADC32_SUBHEADER_NO_HEADER_def
      MADC32_HEADER_SIGNATURE_HEADER_def take_bit_eq_mask mask_eq_exp_minus_1)

type_synonym adc_event = "32 word option \<times> 32 word list \<times> 32 word"

fun adc_words :: "adc_event \<Rightarrow> 32 word list" where
  "adc_words (None, ds, e) = ds @ [e]"
| "adc_words (Some h, ds, e) = h # ds @ [e]"

fun adc_ok :: "adc_event \<Rightarrow> bool" where
  "adc_ok (ho, ds, e) \<longleftrightarrow>
     (case ho of None \<Rightarrow> ds \<noteq> [] | Some h \<Rightarrow> signature_of h = MADC32_HEADER_SIGNATURE_HEADER) \<and>
     list_all (\<lambda>d. signature_of d = MADC32_HEADER_SIGNATURE_DATA) ds \<and> signature_of e = MADC32_HEADER_SIGNATURE_END_OF_EVENT"

text \<open>An event without a header gets one in front of its data.\<close>

fun repaired :: "16 word \<Rightarrow> int \<Rightarrow> adc_event \<Rightarrow> 32 word list" where
  "repaired res mid (Some h, ds, e) = h # ds @ [e]"
| "repaired res mid (None, ds, e) = patch_header (length ds + 1) res mid (hd ds) # ds @ [e]"

lemmas sig_defs = MADC32_HEADER_SIGNATURE_HEADER_def MADC32_HEADER_SIGNATURE_DATA_def MADC32_HEADER_SIGNATURE_END_OF_EVENT_def

lemma mes_word_length: "length (mbuf (mes_word res mid w s)) \<le> length (mbuf s) + 2"
  by (auto simp: mes_word_def mes_header_def mes_data_def mes_eoe_def Let_def split: option.splits)

lemma mes_loop_fold:
  assumes "\<forall>i < length ws. m (p + i) = ws ! i" "HEADER_WORDS + length (mbuf s) + 2 * length ws < b"
  shows "mes_loop (length ws) b m p res mid s = fold (mes_word res mid) ws s"
  using assms
proof (induction ws arbitrary: p s)
  case (Cons w ws)
  have w: "m p = w" using Cons.prems(1) by (metis add_0_right length_greater_0_conv list.distinct(1) nth_Cons_0)
  have ws: "\<forall>i < length ws. m (p + 1 + i) = ws ! i"
    using Cons.prems(1) by (metis Suc_less_eq add.assoc length_Cons nth_Cons_Suc plus_1_eq_Suc)
  have "HEADER_WORDS + length (mbuf (mes_word res mid w s)) + 2 * length ws < b"
    using Cons.prems(2) mes_word_length [of res mid w s] by simp
  then show ?case using Cons.IH [OF ws, of "mes_word res mid w s"] w by (simp add: Let_def)
qed simp

lemma mes_data_words:
  assumes "list_all (\<lambda>d. signature_of d = MADC32_HEADER_SIGNATURE_DATA) ds" "header_flag s \<or> no_header_flag s"
  shows "fold (mes_word res mid) ds s = s\<lparr>mbuf := mbuf s @ ds\<rparr>"
  using assms
proof (induction ds arbitrary: s)
  case (Cons d ds)
  then have "mes_word res mid d s = s\<lparr>mbuf := mbuf s @ [d]\<rparr>"
    by (auto simp: mes_word_def mes_data_def sig_defs Let_def)
  then show ?case using Cons by simp
qed simp

definition idle :: "mes \<Rightarrow> bool" where "idle s \<longleftrightarrow> \<not> header_flag s \<and> \<not> no_header_flag s"

lemma mes_word_eoe:
  assumes "signature_of e = MADC32_HEADER_SIGNATURE_END_OF_EVENT"
  shows "idle (mes_word res mid e s)" "mevent_count (mes_word res mid e s) = eoe_counter e"
    "header_flag s \<Longrightarrow> mbuf (mes_word res mid e s) = mbuf s @ [e]"
    "\<not> header_flag s \<Longrightarrow> no_header_flag s \<Longrightarrow> header_pos s = Some h \<Longrightarrow>
       mbuf (mes_word res mid e s) = (mbuf s @ [e])[h := patch_header (length (mbuf s) - h) res mid ((mbuf s @ [e]) ! h)]"
  using assms by (auto simp: mes_word_def mes_eoe_def sig_defs Let_def idle_def split: option.splits)

lemma mes_event:
  assumes "adc_ok ev" "idle s"
  shows "idle (fold (mes_word res mid) (adc_words ev) s)"
    "mbuf (fold (mes_word res mid) (adc_words ev) s) = mbuf s @ repaired res mid ev"
    "mevent_count (fold (mes_word res mid) (adc_words ev) s) = eoe_counter (snd (snd ev))"
proof -
  obtain ho ds e where ev: "ev = (ho, ds, e)" by (cases ev)
  let ?s = "fold (mes_word res mid) (adc_words ev) s"
  have ds: "list_all (\<lambda>d. signature_of d = MADC32_HEADER_SIGNATURE_DATA) ds"
    and e: "signature_of e = MADC32_HEADER_SIGNATURE_END_OF_EVENT"
    using assms(1) ev by auto
  have "idle ?s \<and> mbuf ?s = mbuf s @ repaired res mid ev \<and> mevent_count ?s = eoe_counter e"
  proof (cases ho)
    case (Some h)
    let ?h = "mes_word res mid h s"
    have "signature_of h = MADC32_HEADER_SIGNATURE_HEADER" using assms(1) ev Some by simp
    then have h: "header_flag ?h" "mbuf ?h = mbuf s @ [h]"
      by (auto simp: mes_word_def mes_header_def Let_def)
    have "?s = mes_word res mid e (?h\<lparr>mbuf := mbuf ?h @ ds\<rparr>)"
      using mes_data_words [OF ds, of ?h] h ev Some by simp
    then show ?thesis
      using mes_word_eoe(1-3) [OF e] h(1) ev Some by (simp add: h(2))
  next
    case None
    then obtain d ds' where d: "ds = d # ds'" using assms(1) ev by (cases ds) auto
    let ?d = "mes_word res mid d s"
    have ?thesis if "?d = s\<lparr>mbuf := mbuf s @ [d, d], no_header_flag := True, header_pos := Some (length (mbuf s))\<rparr>"
    proof -
      have "?s = mes_word res mid e (?d\<lparr>mbuf := mbuf ?d @ ds'\<rparr>)"
        using mes_data_words [of ds' ?d] ds that ev None d by simp
      then show ?thesis
        using assms(2) mes_word_eoe(1,2) [OF e] mes_word_eoe(4) [OF e, of _ "length (mbuf s)"] ev None d unfolding that
        by (simp add: idle_def nth_append list_update_append)
    qed
    moreover have "?d = s\<lparr>mbuf := mbuf s @ [d, d], no_header_flag := True, header_pos := Some (length (mbuf s))\<rparr>"
      using ds d assms(2) by (auto simp: mes_word_def mes_data_def sig_defs Let_def idle_def)
    ultimately show ?thesis by blast
  qed
  then show "idle ?s" "mbuf ?s = mbuf s @ repaired res mid ev" "mevent_count ?s = eoe_counter (snd (snd ev))"
    using ev by auto
qed

lemma mes_events:
  assumes "list_all adc_ok es" "idle s" "es \<noteq> []"
  shows "idle (fold (mes_word res mid) (concat (map adc_words es)) s) \<and>
    mbuf (fold (mes_word res mid) (concat (map adc_words es)) s) = mbuf s @ concat (map (repaired res mid) es) \<and>
    mevent_count (fold (mes_word res mid) (concat (map adc_words es)) s) = eoe_counter (snd (snd (last es)))"
  using assms
proof (induction es arbitrary: s)
  case (Cons e es)
  then show ?case using mes_event [of e s res mid] by (cases "es = []") auto
qed simp

definition padded :: "32 word list \<Rightarrow> 32 word list" where
  "padded out = (if odd (length out) then out @ [0] else out)"

text \<open>the events in the FIFO of an ADC come out in one block in the order of the FIFO; an event whose header was lost
  gets a header that is marked as made by the program and has the number of the words that follow, the resolution and the
  number of the module.\<close>
theorem headerless_events_get_headers:
  assumes "list_all adc_ok es" "es \<noteq> []" "ws = concat (map adc_words es)" "unat (buffer_data_length h) = length ws"
    "\<forall>i < length ws. fifo_read h i = ws ! i" "out = padded (concat (map (repaired (adc_resolution h) mid) es))"
  shows "(\<exists>mc'. madc32_check_data h mid DATA_BUF_SIZE mc ctr =
      (eoe_counter (snd (snd (last es))), [VMEDAQ_HEADER_ID, VMEDAQ_TYPE_MADC32, ctr, of_nat (4 * (4 + length out))] @ out, mc', ctr + 1)) \<and>
    (\<exists>mc'. mqdc32_check_data h mid DATA_BUF_SIZE mc ctr =
      (eoe_counter (snd (snd (last es))), [VMEDAQ_HEADER_ID, VMEDAQ_TYPE_MQDC32, ctr, of_nat (4 * (4 + length out))] @ out, mc', ctr + 1)) \<and>
    signature_of (patch_header n r mid w) = MADC32_HEADER_SIGNATURE_HEADER \<and>
    bits 0 12 (patch_header n r mid w) = take_bit 12 (of_nat n) \<and> header_module_id (patch_header n r mid w) = mid mod 256 \<and>
    bits 24 6 (patch_header n r mid w) = MADC32_SUBHEADER_NO_HEADER"
proof -
  have "length ws < 65536" using assms(4) unsigned_less [of "buffer_data_length h", where ?'a = nat] by simp
  then have len: "HEADER_WORDS + length (mbuf (mes_start mc)) + 2 * length ws < DATA_BUF_SIZE"
    by (simp add: HEADER_WORDS_def DATA_BUF_SIZE_def mes_start_def)
  let ?s = "fold (mes_word (adc_resolution h) mid) ws (mes_start mc)"
  have l: "mes_loop (unat (buffer_data_length h)) DATA_BUF_SIZE (fifo_read h) 0 (adc_resolution h) mid (mes_start mc) = ?s"
    using mes_loop_fold [of ws "fifo_read h" 0, OF _ len] assms(4,5) by simp
  have "idle (mes_start mc)" by (simp add: idle_def mes_start_def)
  then have s: "idle ?s" "mbuf ?s = concat (map (repaired (adc_resolution h) mid) es)"
      "mevent_count ?s = eoe_counter (snd (snd (last es)))"
    using mes_events [OF assms(1) _ assms(2), of "mes_start mc" "adc_resolution h" mid] assms(3) by (simp_all add: mes_start_def)
  have c: "mes_read h mid DATA_BUF_SIZE mc = ?s" unfolding mes_read_def l using s(1) by (simp add: mes_close_def idle_def)
  have "0 \<le> mevent_count ?s" using s(3) by (simp add: eoe_counter_def)
  then have b: "mes_block ty ?s ctr = (eoe_counter (snd (snd (last es))),
      [VMEDAQ_HEADER_ID, ty, ctr, of_nat (4 * (4 + length out))] @ out, mcounters ?s, ctr + 1)" for ty
    using s(2,3) assms(6)
    by (simp add: mes_block_def vmedaq_write_header_def padded_def HEADER_WORDS_def Let_def)
  show ?thesis
    unfolding madc32_check_data_def mqdc32_check_data_def c b by (intro conjI exI [of _ "mcounters ?s"] refl patch_header_fields)
qed

definition demo_adc :: adc_hw where
  "demo_adc = \<lparr>buffer_data_length = 5,
     fifo_read = (\<lambda>i. if i < 5 then [0x40030002, 0x04010123, 0xC0000001, 0x04020456, 0xC0000002] ! i else 0), adc_resolution = 2\<rparr>"

theorem headerless_events_get_headers_witness:
  "\<exists>mc'. madc32_check_data demo_adc 3 DATA_BUF_SIZE (\<lambda>i. 0) 9 =
     (2, [0x44454D56, 0x1000, 9, 40, 0x40030002, 0x04010123, 0xC0000001, 0x41032002, 0x04020456, 0xC0000002], mc', 10)"
proof -
  let ?es = "[(Some 0x40030002, [0x04010123], 0xC0000001), (None, [0x04020456], 0xC0000002)] :: adc_event list"
  have ok: "list_all adc_ok ?es" by code_simp
  have n: "unat (buffer_data_length demo_adc) = length (concat (map adc_words ?es))" by (simp add: demo_adc_def)
  have r: "\<forall>i < length (concat (map adc_words ?es)). fifo_read demo_adc i = concat (map adc_words ?es) ! i"
    by (simp add: demo_adc_def)
  have o: "padded (concat (map (repaired (adc_resolution demo_adc) 3) ?es)) =
    [0x40030002, 0x04010123, 0xC0000001, 0x41032002, 0x04020456, 0xC0000002]" by code_simp
  have c: "eoe_counter (snd (snd (last ?es))) = 2" by code_simp
  show ?thesis
    using headerless_events_get_headers [OF ok _ refl n r refl, of 3 "\<lambda>i. 0" 9] unfolding o c
    by (simp add: VMEDAQ_HEADER_ID_def VMEDAQ_TYPE_MADC32_def)
qed

section \<open>Bounds and headers\<close>

lemma v830_loop_bound:
  assumes "v830_loop i b m ns p sc out ec = (ec', out', sc')" "ns \<le> V830_N_CHANNELS" "HEADER_WORDS + length out \<le> b"
  shows "HEADER_WORDS + length out' \<le> b"
  using assms
proof (induction i b m ns p sc out ec arbitrary: out' ec' sc' rule: v830_loop.induct)
  case (2 i b m ns p sc out ec)
  have "HEADER_WORDS + length (out @ of_nat ns # take ns l) \<le> b"
    if "\<not> int b - int (HEADER_WORDS + length out) < int (1 + V830_N_CHANNELS)" for l :: "32 word list"
  proof -
    have "length (take ns l) \<le> V830_N_CHANNELS" using "2.prems"(2) by simp
    then show ?thesis using that by simp
  qed
  then show ?case using 2 by (auto simp: Let_def split: if_splits)
qed simp

lemma v1190_loop_bound:
  assumes "v1190_loop b m p n out ec mc = (ec', out', r)" "HEADER_WORDS + length out < b"
  shows "HEADER_WORDS + length out' \<le> b"
  using assms
proof (induction b m p n out ec mc arbitrary: out' ec' r rule: v1190_loop.induct)
  case (1 b m p n out ec mc)
  show ?case
    using 1(1) [OF refl refl _ refl refl refl refl] 1(2-)
    by (subst (asm) (2) v1190_loop.simps) (auto simp: Let_def split: if_splits)
qed

lemma myriad_loop_bound:
  assumes "myriad_loop b m p out ec = (ec', out')" "HEADER_WORDS + length out \<le> b"
  shows "HEADER_WORDS + length out' \<le> b"
  using assms
proof (induction b m p out ec arbitrary: out' ec' rule: myriad_loop.induct)
  case (1 b m p out ec)
  show ?case
    using 1(1) [where out' = out' and ec' = ec'] 1(2-)
    by (subst (asm) (2) myriad_loop.simps) (auto split: if_splits option.splits)
qed

lemma mes_loop_bound: "length (mbuf (mes_loop k b m p res mid s)) \<le> length (mbuf s) + 2 * k"
proof (induction k b m p res mid s rule: mes_loop.induct)
  case (2 k b m p res mid s)
  then show ?case using mes_word_length [of res mid "m p" s] by (auto simp: Let_def)
qed simp

lemma mes_close_bound: "length (mbuf (mes_close mid s)) \<le> length (mbuf s) + 1"
  by (auto simp: mes_close_def Let_def split: option.splits)

lemma mes_read_bound: "HEADER_WORDS + length (mbuf (mes_read h mid b mc)) + 1 \<le> DATA_BUF_SIZE"
proof -
  define s where "s = mes_loop (unat (buffer_data_length h)) b (fifo_read h) 0 (adc_resolution h) mid (mes_start mc)"
  have l: "length (mbuf s) \<le> 2 * unat (buffer_data_length h)"
    unfolding s_def using mes_loop_bound [of "unat (buffer_data_length h)" b _ _ _ _ "mes_start mc"] by (simp add: mes_start_def)
  have r: "length (mbuf (mes_read h mid b mc)) \<le> length (mbuf s) + 1"
    unfolding mes_read_def s_def [symmetric] by (rule mes_close_bound)
  have "unat (buffer_data_length h) < 65536" using unsigned_less [of "buffer_data_length h", where ?'a = nat] by simp
  then have "HEADER_WORDS + (length (mbuf s) + 1) + 1 \<le> DATA_BUF_SIZE"
    using l by (simp add: HEADER_WORDS_def DATA_BUF_SIZE_def)
  then show ?thesis using r by linarith
qed

text \<open>A block with its header: identification, type, number and size in bytes.\<close>

definition block_ok :: "32 word \<Rightarrow> 32 word list \<Rightarrow> bool" where
  "block_ok ctr blk \<longleftrightarrow>
     (\<exists>ty dat. blk = [VMEDAQ_HEADER_ID, ty, ctr, of_nat (4 * length blk)] @ dat) \<and> length blk \<le> DATA_BUF_SIZE"

text \<open>What each of the functions leaves: no block, or the block with the next number.\<close>

definition next_block :: "32 word \<Rightarrow> 32 word list \<Rightarrow> 32 word \<Rightarrow> bool" where
  "next_block ctr blk ctr' \<longleftrightarrow> blk = [] \<and> ctr' = ctr \<or> block_ok ctr blk \<and> ctr' = ctr + 1"

lemma write_header_next:
  assumes "vmedaq_write_header ty out ctr = (blk, ctr')" "HEADER_WORDS + length out \<le> DATA_BUF_SIZE"
  shows "next_block ctr blk ctr'"
  using assms by (auto simp: vmedaq_write_header_def next_block_def block_ok_def HEADER_WORDS_def)

lemma v830_next:
  assumes "v830_check_data n m DATA_BUF_SIZE ns sc ctr = (ec, blk, sc', ctr')" "ns \<le> V830_N_CHANNELS"
  shows "next_block ctr blk ctr'"
proof (cases "n = 0")
  case True
  then show ?thesis using assms(1) by (auto simp: v830_check_data_def next_block_def)
next
  case False
  obtain e out s where l: "v830_loop (unat n) DATA_BUF_SIZE m ns 0 sc [] (-1) = (e, out, s)" by (metis prod_cases3)
  have "HEADER_WORDS + length out \<le> DATA_BUF_SIZE"
    using v830_loop_bound [OF l assms(2)] by (simp add: HEADER_WORDS_def DATA_BUF_SIZE_def)
  then show ?thesis using assms(1) False l by (auto simp: v830_check_data_def split: prod.splits intro: write_header_next)
qed

lemma v1190_next:
  assumes "v1190_check_data dma h DATA_BUF_SIZE mc ctr = (ec, blk, mc', ctr')"
  shows "next_block ctr blk ctr'"
proof (cases dma)
  case True
  have "v1190_check_data True h DATA_BUF_SIZE mc ctr = (-1, [], mc, ctr)"
    using dma_transfer_empties by (simp add: v1190_check_data_def v1190_read_def Let_def dma_loop.simps)
  then show ?thesis using assms True by (simp add: next_block_def)
next
  case False
  obtain e out r where l: "v1190_loop DATA_BUF_SIZE (output_buffer h) 0 (uint (event_stored h)) [] (-1) mc = (e, out, r)"
    by (metis prod_cases3)
  have "HEADER_WORDS + length out \<le> DATA_BUF_SIZE"
    using v1190_loop_bound [OF l] by (simp add: HEADER_WORDS_def DATA_BUF_SIZE_def)
  then show ?thesis
    using assms False l
    by (auto simp: v1190_check_data_def v1190_read_def split: prod.splits if_splits intro: write_header_next)
      (simp_all add: next_block_def)
qed

lemma mes_block_next:
  assumes "mes_block ty (mes_read h mid b mc) ctr = (ec, blk, mc', ctr')"
  shows "next_block ctr blk ctr'"
  using assms mes_read_bound [of h mid b mc]
  by (auto simp: mes_block_def Let_def split: if_splits prod.splits intro: write_header_next) (simp add: next_block_def)

lemma myriad_next:
  assumes "myriad_check_data m DATA_BUF_SIZE ctr = (ec, blk, ctr')"
  shows "next_block ctr blk ctr'"
proof -
  obtain e out where l: "myriad_loop DATA_BUF_SIZE m 0 [] 0 = (e, out)" by (metis surj_pair)
  have "HEADER_WORDS + length out \<le> DATA_BUF_SIZE"
    using myriad_loop_bound [OF l] by (simp add: HEADER_WORDS_def DATA_BUF_SIZE_def)
  then show ?thesis
    using assms l by (auto simp: myriad_check_data_def split: prod.splits if_splits intro: write_header_next)
      (simp_all add: next_block_def)
qed

end
