(* ===== verification/Vme_Daq.thy ===== *)
theory Vme_Daq
  imports Vme_Readout
begin

text \<open>
  The acquisition loop of \<^verbatim>\<open>vmedaq/vmedaq.c\<close>: read out of all modules, writing of the blocks to the client or to a file,
  counter resets, and the main loops with and without a network.

  The state has the variables of the program, what was sent (descriptor, number of the frame, block) and written, the accesses that clear modules, and the output
  register of the V977 that inhibits the acquisition. What the modules answer in one pass of the loop is the record \<open>pass_hw\<close>;
  \<open>calls\<close> has the results of the coming system calls on sockets and files, in their order (a failure when there are no
  more).
\<close>

section \<open>State\<close>

datatype reg_op = V1190_software_clear nat | MADC32_reset_ctr nat | MQDC32_reset_ctr nat | V830_softwareClear
  | MyRIAD_pulsed_control "16 word" | V977_singlehit_read_clear

record vd =
  vmedaq_block_counter :: "32 word"
  blk_count :: int
  v830_n_scalers :: nat
  v830_scalers :: "32 word list"
  counter_offset :: "32 word"
  data_size :: int
  v1190_module_counters :: "nat \<Rightarrow> int"
  madc32_module_counters :: "int \<Rightarrow> int"
  mqdc32_module_counters :: "int \<Rightarrow> int"
  use_dma_transfer :: bool
  v1190_n_modules :: nat
  madc32_module_id :: "int list"
  mqdc32_module_id :: "int list"
  myriad_n_modules :: nat
  prev_time :: int
  sd :: int
  input_set :: "16 word"
  output_set :: "16 word"
  calls :: "int list"
  sent :: "(int \<times> int \<times> 32 word list) list"
  written :: "32 word list list"
  regs :: "reg_op list"

record pass_hw =
  singlehit_read :: "16 word"
  MEBEventNumber :: "16 word"
  meb :: "nat \<Rightarrow> 32 word"
  v1190s :: "nat \<Rightarrow> tdc_hw"
  madc32s :: "nat \<Rightarrow> adc_hw"
  mqdc32s :: "nat \<Rightarrow> adc_hw"
  fifo_access :: "nat \<Rightarrow> 16 word"
  cur_time :: int
  client_ver :: int

definition IOREG_CH_DAQ_INHIBIT :: nat where "IOREG_CH_DAQ_INHIBIT = 0"
definition IOREG_CH_ALMOST_FULL :: nat where "IOREG_CH_ALMOST_FULL = 1"
definition PERIODIC_CLEAR_INTERVAL_IN_SEC :: int where "PERIODIC_CLEAR_INTERVAL_IN_SEC = 10"

definition sys_call :: "vd \<Rightarrow> int \<times> vd" where
  "sys_call s = (case calls s of [] \<Rightarrow> (-1, s) | r # rs \<Rightarrow> (r, s\<lparr>calls := rs\<rparr>))"

definition reg :: "reg_op \<Rightarrow> vd \<Rightarrow> vd" where
  "reg r s = s\<lparr>regs := regs s @ [r]\<rparr>"

section \<open>Sending\<close>

text \<open>A loop that reads \<open>n\<close> bytes: it fails on the end of the connection and on an error.\<close>

fun read_bytes :: "nat \<Rightarrow> nat \<Rightarrow> int list \<Rightarrow> bool \<times> int list" where
  "read_bytes n c [] = (n \<le> c, [])"
| "read_bytes n c (r # rs) =
     (if n \<le> c then (True, r # rs)
      else if r \<le> 0 then (False, rs)
      else read_bytes n (c + min (nat r) (n - c)) rs)"

definition sizeof_info1 :: nat where "sizeof_info1 = 64"
definition sizeof_info3 :: int where "sizeof_info3 = 64"

definition write_to_sd :: "32 word list \<Rightarrow> vd \<Rightarrow> int \<times> vd" where
  "write_to_sd blk s =
     (let n = 4 * int (length blk) in
      case sys_call (s\<lparr>blk_count := blk_count s + 1\<rparr>) of
        (w1, s1) \<Rightarrow>
          if w1 \<noteq> sizeof_info3 then (-1, s1)
          else
            (case sys_call s1 of
               (w2, s2) \<Rightarrow>
                 if w2 \<noteq> n then (-1, s2)
                 else
                   let s3 = s2\<lparr>sent := sent s2 @ [(sd s2, blk_count s2, blk)]\<rparr>
                   in case read_bytes 4 0 (calls s3) of
                        (ok, rs) \<Rightarrow> (if ok then int (length blk) else -1, s3\<lparr>calls := rs\<rparr>)))"

definition write_file :: "32 word list \<Rightarrow> int \<Rightarrow> vd \<Rightarrow> int \<times> vd" where
  "write_file blk n s =
     (case sys_call s of (w, s1) \<Rightarrow> if w \<noteq> n then (-1, s1) else (0, s1\<lparr>written := written s1 @ [blk]\<rparr>))"

definition write_data :: "32 word list \<Rightarrow> vd \<Rightarrow> int \<times> vd" where
  "write_data blk s =
     (if blk = [] then (0, s)
      else
        let r = (if sd s \<noteq> 0
                 then (case write_to_sd blk s of (n, s1) \<Rightarrow> (if n \<noteq> int (length blk) then -1 else 0, s1))
                 else write_file blk (int (length blk)) s)
        in case r of (e, s1) \<Rightarrow> if e < 0 then (-1, s1) else (0, s1\<lparr>data_size := data_size s1 + 4 * int (length blk)\<rparr>))"

text \<open>The block with the offset of the event counters: five words, 20 bytes. Its result is not looked at.\<close>

definition send_counter_offset :: "vd \<Rightarrow> vd" where
  "send_counter_offset s =
     (let c = v830_scalers s ! 0 in
      case vmedaq_write_header VMEDAQ_TYPE_COUNTER_OFFSET [c] (vmedaq_block_counter s) of
        (blk, ctr) \<Rightarrow>
          let s1 = s\<lparr>counter_offset := c, vmedaq_block_counter := ctr\<rparr>
          in if sd s1 \<noteq> 0 then snd (write_to_sd blk s1) else snd (write_file blk 20 s1))"

section \<open>Counters\<close>

definition clear_event_counters :: "vd \<Rightarrow> vd" where
  "clear_event_counters s =
     s\<lparr>regs := regs s @ map V1190_software_clear [0 ..< v1190_n_modules s] @
         map MADC32_reset_ctr [0 ..< length (madc32_module_id s)] @ map MQDC32_reset_ctr [0 ..< length (mqdc32_module_id s)]\<rparr>"

definition v830_clear :: "vd \<Rightarrow> vd" where
  "v830_clear s = (reg V830_softwareClear s)\<lparr>v830_scalers := replicate V830_N_CHANNELS 0\<rparr>"

text \<open>The bits \<^verbatim>\<open>dcm_reset\<close>, \<^verbatim>\<open>fifo_reset\<close> and \<^verbatim>\<open>sm_lost_lock_reset\<close>; what is set after the access has no effect.\<close>

definition myriad_clear :: "vd \<Rightarrow> vd" where
  "myriad_clear s = (if myriad_n_modules s = 0 then s else reg (MyRIAD_pulsed_control 0x8024) s)"

definition reset_event_counters :: "vd \<Rightarrow> vd" where
  "reset_event_counters s =
     (myriad_clear (v830_clear ((clear_event_counters s)\<lparr>data_size := 0\<rparr>)))\<lparr>vmedaq_block_counter := 0, counter_offset := 0\<rparr>"

definition periodic_clear :: "int \<Rightarrow> vd \<Rightarrow> vd" where
  "periodic_clear t s =
     (if t - prev_time s \<ge> PERIODIC_CLEAR_INTERVAL_IN_SEC
      then s\<lparr>prev_time := t, input_set := push_bit IOREG_CH_ALMOST_FULL 1\<rparr> else s)"

section \<open>One pass over the modules\<close>

text \<open>\<open>Inl\<close> is the return of -1 after a write that failed; \<open>n\<close> counts the modules that had data.\<close>

definition put_block :: "int \<Rightarrow> 32 word list \<Rightarrow> nat \<Rightarrow> vd \<Rightarrow> vd + nat \<times> vd" where
  "put_block ec blk n s =
     (case write_data blk s of (r, s') \<Rightarrow> if r < 0 then Inl s' else Inr (if ec \<ge> 0 then n + 1 else n, s'))"

definition do_v830 :: "pass_hw \<Rightarrow> nat \<times> vd \<Rightarrow> vd + nat \<times> vd" where
  "do_v830 h ns =
     (case ns of (n, s) \<Rightarrow>
        case v830_check_data (MEBEventNumber h) (meb h) DATA_BUF_SIZE (v830_n_scalers s) (v830_scalers s) (vmedaq_block_counter s) of
          (ec, blk, sc, ctr) \<Rightarrow> put_block ec blk n (s\<lparr>v830_scalers := sc, vmedaq_block_counter := ctr\<rparr>))"

definition do_v1190 :: "pass_hw \<Rightarrow> nat \<Rightarrow> nat \<times> vd \<Rightarrow> vd + nat \<times> vd" where
  "do_v1190 h i ns =
     (case ns of (n, s) \<Rightarrow>
        case v1190_check_data (use_dma_transfer s) (v1190s h i) DATA_BUF_SIZE (v1190_module_counters s) (vmedaq_block_counter s) of
          (ec, blk, mc, ctr) \<Rightarrow> put_block ec blk n (s\<lparr>v1190_module_counters := mc, vmedaq_block_counter := ctr\<rparr>))"

definition do_madc32 :: "pass_hw \<Rightarrow> nat \<Rightarrow> nat \<times> vd \<Rightarrow> vd + nat \<times> vd" where
  "do_madc32 h i ns =
     (case ns of (n, s) \<Rightarrow>
        case madc32_check_data (madc32s h i) (madc32_module_id s ! i) DATA_BUF_SIZE (madc32_module_counters s) (vmedaq_block_counter s) of
          (ec, blk, mc, ctr) \<Rightarrow> put_block ec blk n (s\<lparr>madc32_module_counters := mc, vmedaq_block_counter := ctr\<rparr>))"

definition do_mqdc32 :: "pass_hw \<Rightarrow> nat \<Rightarrow> nat \<times> vd \<Rightarrow> vd + nat \<times> vd" where
  "do_mqdc32 h i ns =
     (case ns of (n, s) \<Rightarrow>
        case mqdc32_check_data (mqdc32s h i) (mqdc32_module_id s ! i) DATA_BUF_SIZE (mqdc32_module_counters s) (vmedaq_block_counter s) of
          (ec, blk, mc, ctr) \<Rightarrow> put_block ec blk n (s\<lparr>mqdc32_module_counters := mc, vmedaq_block_counter := ctr\<rparr>))"

definition do_myriad :: "pass_hw \<Rightarrow> nat \<times> vd \<Rightarrow> vd + nat \<times> vd" where
  "do_myriad h ns =
     (case ns of (n, s) \<Rightarrow>
        case myriad_check_data (fifo_access h) DATA_BUF_SIZE (vmedaq_block_counter s) of
          (ec, blk, ctr) \<Rightarrow> put_block ec blk n (s\<lparr>vmedaq_block_counter := ctr\<rparr>))"

fun run_steps :: "(nat \<times> vd \<Rightarrow> vd + nat \<times> vd) list \<Rightarrow> nat \<times> vd \<Rightarrow> vd + nat \<times> vd" where
  "run_steps [] ns = Inr ns"
| "run_steps (f # fs) ns = (case f ns of Inl s \<Rightarrow> Inl s | Inr ns' \<Rightarrow> run_steps fs ns')"

definition module_steps :: "pass_hw \<Rightarrow> vd \<Rightarrow> (nat \<times> vd \<Rightarrow> vd + nat \<times> vd) list" where
  "module_steps h s =
     do_v830 h # map (do_v1190 h) [0 ..< v1190_n_modules s] @ map (do_madc32 h) [0 ..< length (madc32_module_id s)] @
     map (do_mqdc32 h) [0 ..< length (mqdc32_module_id s)] @ (if myriad_n_modules s = 1 then [do_myriad h] else [])"

definition read_data :: "pass_hw \<Rightarrow> vd \<Rightarrow> int \<times> vd" where
  "read_data h s =
     (case run_steps (module_steps h s) (0, s) of
        Inl s' \<Rightarrow> (-1, s')
      | Inr (n, s') \<Rightarrow>
          (int n,
           if n = 0 \<and> bit (singlehit_read h) IOREG_CH_ALMOST_FULL
           then reg V977_singlehit_read_clear (clear_event_counters (send_counter_offset s')) else s'))"

section \<open>The main loops\<close>

definition VME_INET_VERSION_2 :: int where "VME_INET_VERSION_2 = 0x200"

text \<open>
  \<^verbatim>\<open>accept_connection\<close>: \<open>None\<close> is \<^verbatim>\<open>exit\<close>. A client with another version is told so and then served nevertheless. The
  result 0 is a connection that broke before the reply was sent.
\<close>

definition accept_connection :: "pass_hw \<Rightarrow> vd \<Rightarrow> (int \<times> vd) option" where
  "accept_connection h s =
     (case sys_call s of
        (d, s1) \<Rightarrow>
          if d < 0 then None
          else
            (case read_bytes sizeof_info1 0 (calls s1) of
               (ok, rs) \<Rightarrow>
                 let s2 = s1\<lparr>calls := rs\<rparr> in
                 if \<not> ok then Some (0, s2)
                 else
                   let s3 = (if client_ver h \<noteq> VME_INET_VERSION_2 then snd (sys_call s2) else s2)
                   in case sys_call s3 of (w, s4) \<Rightarrow> Some (if w < 0 then 0 else d, s4)))"

definition connect :: "pass_hw \<Rightarrow> vd \<Rightarrow> vd option" where
  "connect h s =
     (if sd s = 0
      then map_option (\<lambda>(d, s1). (reset_event_counters (s1\<lparr>sd := d\<rparr>))\<lparr>input_set := 0, output_set := 0\<rparr>) (accept_connection h s)
      else Some s)"

text \<open>One pass of the loop with the option \<^verbatim>\<open>-n\<close>.\<close>

definition net_step :: "pass_hw \<Rightarrow> vd \<Rightarrow> vd option" where
  "net_step h s =
     map_option (\<lambda>s1.
       case read_data h s1 of
         (n, s2) \<Rightarrow>
           if n > 0 then s2
           else
             (case (if n = 0 then write_to_sd [] s2 else (-1, s2)) of
                (k, s3) \<Rightarrow> if k \<ge> 0 then s3 else s3\<lparr>output_set := push_bit IOREG_CH_DAQ_INHIBIT 1, sd := 0\<rparr>))
       (connect h (periodic_clear (cur_time h) s))"

text \<open>One pass of the loop that writes to a file; \<open>True\<close> when the loop is left.\<close>

definition file_step :: "pass_hw \<Rightarrow> vd \<Rightarrow> bool \<times> vd" where
  "file_step h s =
     (case read_data h (periodic_clear (cur_time h) s) of
        (n, s1) \<Rightarrow> if n < 0 then (True, s1\<lparr>output_set := push_bit IOREG_CH_DAQ_INHIBIT 1\<rparr>) else (False, s1))"

section \<open>Blocks of a pass\<close>

text \<open>The blocks that have gone out: to the client, or to the file when there is none.\<close>

definition outs :: "vd \<Rightarrow> 32 word list list" where
  "outs s = (if sd s \<noteq> 0 then map (snd \<circ> snd) (sent s) else written s)"

definition numbered :: "32 word \<Rightarrow> 32 word list list \<Rightarrow> bool" where
  "numbered ctr blks \<longleftrightarrow> (\<forall>i < length blks. block_ok (ctr + of_nat i) (blks ! i))"

lemma numbered_Nil [simp]: "numbered ctr []"
  by (simp add: numbered_def)

lemma numbered_append: "numbered c (xs @ ys) \<longleftrightarrow> numbered c xs \<and> numbered (c + of_nat (length xs)) ys"
proof (induction xs arbitrary: c)
  case (Cons x xs)
  have "numbered c (z # zs) \<longleftrightarrow> block_ok c z \<and> numbered (c + 1) zs" for c z zs
    by (simp add: numbered_def All_less_Suc2 add.assoc)
  then show ?case using Cons by (simp add: add.assoc)
qed simp

lemma numbered_one: "block_ok c b \<Longrightarrow> numbered c [b]"
  by (simp add: numbered_def)

text \<open>Between two states only complete blocks with successive numbers have gone out, and none is missing.\<close>

definition advances :: "vd \<Rightarrow> vd \<Rightarrow> bool" where
  "advances s s' \<longleftrightarrow>
     sd s' = sd s \<and> v830_n_scalers s' = v830_n_scalers s \<and>
     (\<exists>bs. outs s' = outs s @ bs \<and> numbered (vmedaq_block_counter s) bs \<and>
           vmedaq_block_counter s' = vmedaq_block_counter s + of_nat (length bs))"

text \<open>The same, but the last block may not have arrived.\<close>

definition breaks :: "vd \<Rightarrow> vd \<Rightarrow> bool" where
  "breaks s s' \<longleftrightarrow>
     sd s' = sd s \<and> v830_n_scalers s' = v830_n_scalers s \<and>
     (\<exists>bs. outs s' = outs s @ bs \<and> numbered (vmedaq_block_counter s) bs)"

lemma advances_refl: "advances s s"
  by (auto simp: advances_def)

lemma advances_trans:
  assumes "advances s t" "advances t u"
  shows "advances s u"
proof -
  obtain bs cs where "outs t = outs s @ bs" "numbered (vmedaq_block_counter s) bs"
    "vmedaq_block_counter t = vmedaq_block_counter s + of_nat (length bs)"
    "outs u = outs t @ cs" "numbered (vmedaq_block_counter t) cs"
    "vmedaq_block_counter u = vmedaq_block_counter t + of_nat (length cs)"
    using assms by (auto simp: advances_def)
  then show ?thesis
    using assms by (auto simp: advances_def numbered_append add.assoc intro!: exI [of _ "bs @ cs"])
qed

lemma advances_breaks:
  assumes "advances s t" "breaks t u"
  shows "breaks s u"
proof -
  obtain bs cs where "outs t = outs s @ bs" "numbered (vmedaq_block_counter s) bs"
    "vmedaq_block_counter t = vmedaq_block_counter s + of_nat (length bs)"
    "outs u = outs t @ cs" "numbered (vmedaq_block_counter t) cs"
    using assms by (auto simp: advances_def breaks_def)
  then show ?thesis
    using assms by (auto simp: advances_def breaks_def numbered_append intro!: exI [of _ "bs @ cs"])
qed

text \<open>What sending keeps.\<close>

definition same_daq :: "vd \<Rightarrow> vd \<Rightarrow> bool" where
  "same_daq s s' \<longleftrightarrow> sd s' = sd s \<and> v830_n_scalers s' = v830_n_scalers s \<and> vmedaq_block_counter s' = vmedaq_block_counter s \<and>
     output_set s' = output_set s \<and> v1190_n_modules s' = v1190_n_modules s"

lemma write_to_sd_outs:
  assumes "write_to_sd blk s = (r, s')"
  shows "same_daq s s'" "sent s' = sent s \<or> sent s' = sent s @ [(sd s, blk_count s + 1, blk)]"
    "0 \<le> r \<Longrightarrow> sent s' = sent s @ [(sd s, blk_count s + 1, blk)] \<and> r = int (length blk)" "written s' = written s"
  using assms
  by (auto simp: write_to_sd_def sys_call_def same_daq_def Let_def split: list.splits if_splits prod.splits)

lemma write_file_outs:
  assumes "write_file blk n s = (r, s')"
  shows "same_daq s s'" "written s' = written s \<or> written s' = written s @ [blk]"
    "0 \<le> r \<Longrightarrow> written s' = written s @ [blk]" "sent s' = sent s"
  using assms by (auto simp: write_file_def sys_call_def same_daq_def split: list.splits if_splits prod.splits)

lemma write_data_outs:
  assumes "write_data blk s = (r, s')"
  shows "same_daq s s'" "outs s' = outs s \<or> outs s' = outs s @ [blk]"
    "0 \<le> r \<Longrightarrow> outs s' = outs s @ (if blk = [] then [] else [blk])"
proof -
  have "same_daq s s' \<and> (outs s' = outs s \<or> outs s' = outs s @ [blk]) \<and> (0 \<le> r \<longrightarrow> outs s' = outs s @ (if blk = [] then [] else [blk]))"
  proof (cases "blk = []")
    case True
    then show ?thesis using assms by (simp add: write_data_def same_daq_def)
  next
    case False
    obtain e s1 where w: "(if sd s \<noteq> 0 then (case write_to_sd blk s of (n, s1) \<Rightarrow> (if n \<noteq> int (length blk) then -1 else 0, s1))
        else write_file blk (int (length blk)) s) = (e, s1)" by (metis surj_pair)
    have o: "same_daq s s1 \<and> (outs s1 = outs s \<or> outs s1 = outs s @ [blk]) \<and> (0 \<le> e \<longrightarrow> outs s1 = outs s @ [blk])"
    proof (cases "sd s = 0")
      case True
      then have "write_file blk (int (length blk)) s = (e, s1)" using w by simp
      note f = write_file_outs [OF this]
      then show "same_daq s s1 \<and> (outs s1 = outs s \<or> outs s1 = outs s @ [blk]) \<and> (0 \<le> e \<longrightarrow> outs s1 = outs s @ [blk])"
        using True by (auto simp: outs_def same_daq_def)
    next
      case False
      obtain n s2 where n: "write_to_sd blk s = (n, s2)" by (metis surj_pair)
      then have e: "e = (if n \<noteq> int (length blk) then -1 else 0)" and "s2 = s1" using w False by simp_all
      note f = write_to_sd_outs [OF n [unfolded \<open>s2 = s1\<close>]]
      have "sd s1 \<noteq> 0" using f(1) False by (simp add: same_daq_def)
      then have o: "outs s1 = map (snd \<circ> snd) (sent s1)" "outs s = map (snd \<circ> snd) (sent s)" using False by (simp_all add: outs_def)
      have "outs s1 = outs s \<or> outs s1 = outs s @ [blk]" using f(2) unfolding o by auto
      moreover have "outs s1 = outs s @ [blk]" if "0 \<le> e"
      proof -
        have "0 \<le> n" using that e by (simp split: if_splits)
        then show ?thesis using f(3) unfolding o by simp
      qed
      ultimately show "same_daq s s1 \<and> (outs s1 = outs s \<or> outs s1 = outs s @ [blk]) \<and> (0 \<le> e \<longrightarrow> outs s1 = outs s @ [blk])"
        using f(1) by blast
    qed
    have "same_daq s1 s' \<and> outs s' = outs s1 \<and> (0 \<le> r \<longrightarrow> 0 \<le> e)"
      using assms False unfolding write_data_def Let_def w by (auto simp: same_daq_def outs_def split: if_splits)
    then show ?thesis using o False by (auto simp: same_daq_def)
  qed
  then show "same_daq s s'" "outs s' = outs s \<or> outs s' = outs s @ [blk]"
    "0 \<le> r \<Longrightarrow> outs s' = outs s @ (if blk = [] then [] else [blk])" by auto
qed

text \<open>
  The interface of the modules to the loop: a module hands over at most one block, with the number that is due, and counts
  itself at most once.
\<close>

locale block_source =
  fixes f :: "nat \<times> vd \<Rightarrow> vd + nat \<times> vd"
  assumes more: "f (n, s) = Inr (n', s') \<Longrightarrow> v830_n_scalers s \<le> V830_N_CHANNELS \<Longrightarrow> advances s s'"
    and broken: "f (n, s) = Inl s' \<Longrightarrow> v830_n_scalers s \<le> V830_N_CHANNELS \<Longrightarrow> breaks s s'"
    and keeps: "f (n, s) = Inr (n', s') \<Longrightarrow> n' \<le> n + 1 \<and> output_set s' = output_set s \<and> v1190_n_modules s' = v1190_n_modules s"
    and keeps_broken: "f (n, s) = Inl s' \<Longrightarrow> output_set s' = output_set s"

lemma put_block_advances:
  assumes p: "put_block ec blk n t = Inr (n', s')" and nb: "next_block (vmedaq_block_counter s) blk (vmedaq_block_counter t)"
    and t: "outs t = outs s" "sd t = sd s" "v830_n_scalers t = v830_n_scalers s"
  shows "advances s s'"
proof -
  obtain r where w: "write_data blk t = (r, s')" and r: "0 \<le> r"
    using p by (auto simp: put_block_def split: prod.splits if_splits)
  note o = write_data_outs [OF w]
  have "outs s' = outs s @ (if blk = [] then [] else [blk])" using o(3) r t by simp
  moreover have "numbered (vmedaq_block_counter s) (if blk = [] then [] else [blk])"
    using nb by (auto simp: next_block_def intro: numbered_one)
  moreover have "vmedaq_block_counter t = vmedaq_block_counter s + of_nat (length (if blk = [] then [] else [blk]))"
    using nb by (auto simp: next_block_def block_ok_def)
  ultimately show ?thesis using o(1) t by (auto simp: advances_def same_daq_def)
qed

lemma put_block_breaks:
  assumes p: "put_block ec blk n t = Inl s'" and nb: "next_block (vmedaq_block_counter s) blk (vmedaq_block_counter t)"
    and t: "outs t = outs s" "sd t = sd s" "v830_n_scalers t = v830_n_scalers s"
  shows "breaks s s'"
proof -
  obtain r where w: "write_data blk t = (r, s')" and r: "r < 0"
    using p by (auto simp: put_block_def split: prod.splits if_splits)
  then have "blk \<noteq> []" by (auto simp: write_data_def)
  then have "numbered (vmedaq_block_counter s) [blk]" using nb by (auto simp: next_block_def intro: numbered_one)
  then show ?thesis using write_data_outs [OF w] t by (auto simp: breaks_def same_daq_def intro: exI [of _ "[]"])
qed

lemma put_block_keeps:
  "put_block ec blk n t = Inr (n', s') \<Longrightarrow> n' \<le> n + 1 \<and> output_set s' = output_set t \<and> v1190_n_modules s' = v1190_n_modules t"
  "put_block ec blk n t = Inl s' \<Longrightarrow> output_set s' = output_set t"
  by (auto simp: put_block_def same_daq_def split: prod.splits if_splits dest!: write_data_outs(1))

definition hands_over :: "(nat \<times> vd \<Rightarrow> vd + nat \<times> vd) \<Rightarrow> nat \<Rightarrow> vd \<Rightarrow> bool" where
  "hands_over f n s \<longleftrightarrow>
     (\<exists>ec blk t. f (n, s) = put_block ec blk n t \<and>
      (v830_n_scalers s \<le> V830_N_CHANNELS \<longrightarrow> next_block (vmedaq_block_counter s) blk (vmedaq_block_counter t)) \<and>
      outs t = outs s \<and> sd t = sd s \<and> v830_n_scalers t = v830_n_scalers s \<and> output_set t = output_set s \<and>
      v1190_n_modules t = v1190_n_modules s)"

lemma block_sourceI:
  assumes "\<And>n s. hands_over f n s"
  shows "block_source f"
proof
  fix n s n' s'
  obtain ec blk t where t: "f (n, s) = put_block ec blk n t" "outs t = outs s" "sd t = sd s" "v830_n_scalers t = v830_n_scalers s"
      "output_set t = output_set s" "v1190_n_modules t = v1190_n_modules s"
    and nb: "v830_n_scalers s \<le> V830_N_CHANNELS \<Longrightarrow> next_block (vmedaq_block_counter s) blk (vmedaq_block_counter t)"
    using assms [of n s] by (auto simp: hands_over_def)
  show "f (n, s) = Inr (n', s') \<Longrightarrow> v830_n_scalers s \<le> V830_N_CHANNELS \<Longrightarrow> advances s s'"
    using put_block_advances [OF _ nb] t by metis
  show "f (n, s) = Inl s' \<Longrightarrow> v830_n_scalers s \<le> V830_N_CHANNELS \<Longrightarrow> breaks s s'"
    using put_block_breaks [OF _ nb] t by metis
  show "f (n, s) = Inr (n', s') \<Longrightarrow> n' \<le> n + 1 \<and> output_set s' = output_set s \<and> v1190_n_modules s' = v1190_n_modules s"
    using put_block_keeps(1) [of ec blk n t] t by metis
  show "f (n, s) = Inl s' \<Longrightarrow> output_set s' = output_set s"
    using put_block_keeps(2) [of ec blk n t] t by metis
qed

interpretation v830: block_source "do_v830 h" for h
proof (rule block_sourceI)
  fix n and s :: vd
  obtain ec blk sc ctr where c: "v830_check_data (MEBEventNumber h) (meb h) DATA_BUF_SIZE (v830_n_scalers s) (v830_scalers s)
      (vmedaq_block_counter s) = (ec, blk, sc, ctr)" by (metis prod_cases4)
  show "hands_over (do_v830 h) n s" unfolding hands_over_def
    by (rule exI [of _ ec], rule exI [of _ blk], rule exI [of _ "s\<lparr>v830_scalers := sc, vmedaq_block_counter := ctr\<rparr>"])
       (use v830_next [OF c] in \<open>simp add: do_v830_def c outs_def\<close>)
qed

interpretation v1190: block_source "do_v1190 h i" for h i
proof (rule block_sourceI)
  fix n and s :: vd
  obtain ec blk mc ctr where c: "v1190_check_data (use_dma_transfer s) (v1190s h i) DATA_BUF_SIZE (v1190_module_counters s)
      (vmedaq_block_counter s) = (ec, blk, mc, ctr)" by (metis prod_cases4)
  show "hands_over (do_v1190 h i) n s" unfolding hands_over_def
    by (rule exI [of _ ec], rule exI [of _ blk], rule exI [of _ "s\<lparr>v1190_module_counters := mc, vmedaq_block_counter := ctr\<rparr>"])
       (use v1190_next [OF c] in \<open>simp add: do_v1190_def c outs_def\<close>)
qed

interpretation madc32: block_source "do_madc32 h i" for h i
proof (rule block_sourceI)
  fix n and s :: vd
  obtain ec blk mc ctr where c: "madc32_check_data (madc32s h i) (madc32_module_id s ! i) DATA_BUF_SIZE (madc32_module_counters s)
      (vmedaq_block_counter s) = (ec, blk, mc, ctr)" by (metis prod_cases4)
  show "hands_over (do_madc32 h i) n s" unfolding hands_over_def
    by (rule exI [of _ ec], rule exI [of _ blk], rule exI [of _ "s\<lparr>madc32_module_counters := mc, vmedaq_block_counter := ctr\<rparr>"])
       (use mes_block_next [OF c [unfolded madc32_check_data_def]] in \<open>simp add: do_madc32_def c outs_def\<close>)
qed

interpretation mqdc32: block_source "do_mqdc32 h i" for h i
proof (rule block_sourceI)
  fix n and s :: vd
  obtain ec blk mc ctr where c: "mqdc32_check_data (mqdc32s h i) (mqdc32_module_id s ! i) DATA_BUF_SIZE (mqdc32_module_counters s)
      (vmedaq_block_counter s) = (ec, blk, mc, ctr)" by (metis prod_cases4)
  show "hands_over (do_mqdc32 h i) n s" unfolding hands_over_def
    by (rule exI [of _ ec], rule exI [of _ blk], rule exI [of _ "s\<lparr>mqdc32_module_counters := mc, vmedaq_block_counter := ctr\<rparr>"])
       (use mes_block_next [OF c [unfolded mqdc32_check_data_def]] in \<open>simp add: do_mqdc32_def c outs_def\<close>)
qed

interpretation myriad: block_source "do_myriad h" for h
proof (rule block_sourceI)
  fix n and s :: vd
  obtain ec blk ctr where c: "myriad_check_data (fifo_access h) DATA_BUF_SIZE (vmedaq_block_counter s) = (ec, blk, ctr)"
    by (metis prod_cases3)
  show "hands_over (do_myriad h) n s" unfolding hands_over_def
    by (rule exI [of _ ec], rule exI [of _ blk], rule exI [of _ "s\<lparr>vmedaq_block_counter := ctr\<rparr>"])
       (use myriad_next [OF c] in \<open>simp add: do_myriad_def c outs_def\<close>)
qed

lemma run_steps_blocks:
  assumes "\<forall>f \<in> set fs. block_source f" "v830_n_scalers s \<le> V830_N_CHANNELS"
  shows "run_steps fs (n, s) = Inr (n', s') \<Longrightarrow> advances s s' \<and> n' \<le> n + length fs \<and> output_set s' = output_set s"
    "run_steps fs (n, s) = Inl s' \<Longrightarrow> breaks s s' \<and> output_set s' = output_set s"
proof -
  have "case run_steps fs (n, s) of
      Inr (n', s') \<Rightarrow> advances s s' \<and> n' \<le> n + length fs \<and> output_set s' = output_set s
    | Inl s' \<Rightarrow> breaks s s' \<and> output_set s' = output_set s"
    using assms
  proof (induction fs arbitrary: n s)
    case Nil
    then show ?case by (simp add: advances_refl)
  next
    case (Cons f fs)
    then have f: "block_source f" by simp
    show ?case
    proof (cases "f (n, s)")
      case (Inl t)
      then show ?thesis
        using block_source.broken [OF f Inl Cons.prems(2)] block_source.keeps_broken [OF f Inl] by simp
    next
      case (Inr mt)
      obtain m t where mt: "mt = (m, t)" by (cases mt)
      note g = Inr [unfolded mt]
      have a: "advances s t" and k: "m \<le> n + 1" "output_set t = output_set s"
        using block_source.more [OF f g Cons.prems(2)] block_source.keeps [OF f g] by auto
      then have "v830_n_scalers t \<le> V830_N_CHANNELS" using Cons.prems(2) by (simp add: advances_def)
      then have "case run_steps fs (m, t) of
          Inr (n', s') \<Rightarrow> advances t s' \<and> n' \<le> m + length fs \<and> output_set s' = output_set t
        | Inl s' \<Rightarrow> breaks t s' \<and> output_set s' = output_set t"
        using Cons.IH [of t m] Cons.prems(1) by simp
      then show ?thesis
        using a k g by (auto split: sum.splits intro: advances_trans advances_breaks)
    qed
  qed
  then show "run_steps fs (n, s) = Inr (n', s') \<Longrightarrow> advances s s' \<and> n' \<le> n + length fs \<and> output_set s' = output_set s"
    "run_steps fs (n, s) = Inl s' \<Longrightarrow> breaks s s' \<and> output_set s' = output_set s" by simp_all
qed

lemma module_steps_sources: "\<forall>f \<in> set (module_steps h s). block_source f"
  by (auto simp: module_steps_def v830.block_source_axioms v1190.block_source_axioms madc32.block_source_axioms
      mqdc32.block_source_axioms myriad.block_source_axioms)

lemma send_counter_offset_outs:
  "sd (send_counter_offset s) = sd s" "output_set (send_counter_offset s) = output_set s"
  "v830_n_scalers (send_counter_offset s) = v830_n_scalers s"
  "\<exists>bs. outs (send_counter_offset s) = outs s @ bs \<and> length bs \<le> 1 \<and> numbered (vmedaq_block_counter s) bs"
  "vmedaq_block_counter (send_counter_offset s) = vmedaq_block_counter s + 1"
proof -
  define blk where "blk = [VMEDAQ_HEADER_ID, VMEDAQ_TYPE_COUNTER_OFFSET, vmedaq_block_counter s, 20, v830_scalers s ! 0]"
  define t where "t = s\<lparr>counter_offset := v830_scalers s ! 0, vmedaq_block_counter := vmedaq_block_counter s + 1\<rparr>"
  have e: "send_counter_offset s = (if sd t \<noteq> 0 then snd (write_to_sd blk t) else snd (write_file blk 20 t))"
    by (simp add: send_counter_offset_def vmedaq_write_header_def HEADER_WORDS_def Let_def blk_def t_def)
  have o: "same_daq t (send_counter_offset s) \<and>
    (outs (send_counter_offset s) = outs t \<or> outs (send_counter_offset s) = outs t @ [blk])"
  proof (cases "sd t = 0")
    case True
    obtain r u where w: "write_file blk 20 t = (r, u)" by (metis surj_pair)
    then show ?thesis using True e write_file_outs [OF w] by (auto simp: outs_def same_daq_def)
  next
    case False
    obtain r u where w: "write_to_sd blk t = (r, u)" by (metis surj_pair)
    then have u: "send_counter_offset s = u" using False e by simp
    show ?thesis using False write_to_sd_outs(1,2) [OF w] unfolding u by (auto simp: outs_def same_daq_def)
  qed
  have t: "outs t = outs s" by (simp add: t_def outs_def)
  have b: "numbered (vmedaq_block_counter s) [blk]"
    by (rule numbered_one) (simp add: block_ok_def blk_def DATA_BUF_SIZE_def)
  show "\<exists>bs. outs (send_counter_offset s) = outs s @ bs \<and> length bs \<le> 1 \<and> numbered (vmedaq_block_counter s) bs"
    using o b unfolding t by (auto intro: exI [of _ "[]"] exI [of _ "[blk]"])
  show "sd (send_counter_offset s) = sd s" "output_set (send_counter_offset s) = output_set s"
    "v830_n_scalers (send_counter_offset s) = v830_n_scalers s"
    "vmedaq_block_counter (send_counter_offset s) = vmedaq_block_counter s + 1"
    using o by (auto simp: same_daq_def t_def)
qed

lemma read_data_keeps:
  assumes "read_data h s = (r, s')" "v830_n_scalers s \<le> V830_N_CHANNELS"
  shows "sd s' = sd s" "output_set s' = output_set s" "v830_n_scalers s' = v830_n_scalers s"
proof -
  note b = run_steps_blocks [OF module_steps_sources assms(2), of h s 0]
  have "sd s' = sd s \<and> output_set s' = output_set s \<and> v830_n_scalers s' = v830_n_scalers s"
  proof (cases "run_steps (module_steps h s) (0, s)")
    case (Inl t)
    then show ?thesis using b(2) assms(1) by (auto simp: read_data_def breaks_def)
  next
    case (Inr nt)
    obtain n t where nt: "nt = (n, t)" by (cases nt)
    then have "sd t = sd s" "output_set t = output_set s" "v830_n_scalers t = v830_n_scalers s" using b(1) Inr by (auto simp: advances_def)
    then show ?thesis
      using assms(1) Inr nt
      by (auto simp: read_data_def reg_def clear_event_counters_def send_counter_offset_outs split: if_splits)
  qed
  then show "sd s' = sd s" "output_set s' = output_set s" "v830_n_scalers s' = v830_n_scalers s" by auto
qed

lemma read_data_blocks:
  assumes "read_data h s = (r, s')" "v830_n_scalers s \<le> V830_N_CHANNELS"
  shows "\<exists>bs. outs s' = outs s @ bs \<and> numbered (vmedaq_block_counter s) bs \<and>
    r \<le> int (2 + v1190_n_modules s + length (madc32_module_id s) + length (mqdc32_module_id s)) \<and>
    (0 < r \<longrightarrow> vmedaq_block_counter s' = vmedaq_block_counter s + of_nat (length bs))"
proof (cases "run_steps (module_steps h s) (0, s)")
  case (Inl t)
  then show ?thesis
    using run_steps_blocks(2) [OF module_steps_sources assms(2) Inl] assms(1) by (auto simp: read_data_def breaks_def)
next
  case (Inr nt)
  obtain n t where nt: "nt = (n, t)" by (cases nt)
  note a = run_steps_blocks(1) [OF module_steps_sources assms(2) Inr [unfolded nt]]
  obtain bs where bs: "outs t = outs s @ bs" "numbered (vmedaq_block_counter s) bs"
    "vmedaq_block_counter t = vmedaq_block_counter s + of_nat (length bs)" using a by (auto simp: advances_def)
  have n: "n \<le> 2 + v1190_n_modules s + length (madc32_module_id s) + length (mqdc32_module_id s)"
    using a by (auto simp: module_steps_def split: if_splits)
  show ?thesis
  proof (cases "n = 0 \<and> bit (singlehit_read h) IOREG_CH_ALMOST_FULL")
    case True
    obtain cs where cs: "outs (send_counter_offset t) = outs t @ cs" "numbered (vmedaq_block_counter t) cs"
      using send_counter_offset_outs(4) [of t] by auto
    have "outs s' = outs (send_counter_offset t)" and r: "r = 0"
      using assms(1) Inr nt True by (auto simp: read_data_def reg_def clear_event_counters_def outs_def)
    then show ?thesis
      using cs bs n r by (auto simp: numbered_append intro!: exI [of _ "bs @ cs"])
  next
    case False
    then have "s' = t" "r = int n" using assms(1) Inr nt by (auto simp: read_data_def)
    then show ?thesis using bs n by auto
  qed
qed

text \<open>C23: one pass over all modules sends only complete blocks, each with the size that its header says and fitting into the
  buffer, numbered without a gap from the counter of blocks; when the pass has found data no block is missing, and the
  counter is the number of the next block.\<close>
theorem pass_sends_numbered_blocks:
  assumes "read_data h s = (r, s')" "v830_n_scalers s \<le> V830_N_CHANNELS"
  shows "\<exists>bs. outs s' = outs s @ bs \<and> numbered (vmedaq_block_counter s) bs \<and>
    r \<le> int (2 + v1190_n_modules s + length (madc32_module_id s) + length (mqdc32_module_id s)) \<and>
    (0 < r \<longrightarrow> vmedaq_block_counter s' = vmedaq_block_counter s + of_nat (length bs))"
  by (rule read_data_blocks [OF assms])

definition demo_vd :: vd where
  "demo_vd = \<lparr>vmedaq_block_counter = 5, blk_count = 10, v830_n_scalers = 3, v830_scalers = replicate 32 0, counter_offset = 0,
     data_size = 0, v1190_module_counters = (\<lambda>_. 0), madc32_module_counters = (\<lambda>_. 0), mqdc32_module_counters = (\<lambda>_. 0),
     use_dma_transfer = False, v1190_n_modules = 0, madc32_module_id = [], mqdc32_module_id = [], myriad_n_modules = 0,
     prev_time = 0, sd = 4, input_set = 0, output_set = 0, calls = [64, 32, 1, 3], sent = [], written = [], regs = []\<rparr>"

definition demo_pass :: pass_hw where
  "demo_pass = \<lparr>singlehit_read = 0, MEBEventNumber = 1, meb = (\<lambda>i. if i < 4 then [0x040C0001, 11, 22, 33] ! i else 0), v1190s = (\<lambda>_. demo_tdc), madc32s = (\<lambda>_. demo_adc),
     mqdc32s = (\<lambda>_. demo_adc), fifo_access = (\<lambda>_. 0), cur_time = 3, client_ver = 0x200\<rparr>"

lemma skip_zero_stop: "meb_header (m p) \<noteq> 0 \<Longrightarrow> skip_zero j m p = p"
  by (cases j) auto

lemma demo_v830:
  "v830_check_data 1 (meb demo_pass) DATA_BUF_SIZE 3 (replicate 32 0) 5 =
     (0, [0x44454D56, 2, 5, 32, 3, 11, 22, 33], [11, 22, 33] @ replicate 29 0, 6)"
proof -
  have h: "meb_header (meb demo_pass 0) \<noteq> 0" and n: "meb_n_words (meb demo_pass 0) = 3" by code_simp+
  have s: "skip_zero V830_N_CHANNELS (meb demo_pass) 0 = 0" using h by (rule skip_zero_stop)
  have r: "read_scalers (meb demo_pass) 1 3 (replicate 32 0) = [11, 22, 33] @ replicate 29 0"
    by (simp add: read_scalers_def V830_N_CHANNELS_def demo_pass_def upt_rec)
  have l: "v830_loop (Suc 0) DATA_BUF_SIZE (meb demo_pass) 3 0 (replicate 32 0) [] (-1) =
      (0, [3, 11, 22, 33], [11, 22, 33] @ replicate 29 0)"
    using s h n r by (simp add: Let_def HEADER_WORDS_def DATA_BUF_SIZE_def V830_N_CHANNELS_def)
  show ?thesis
    using l by (simp add: v830_check_data_def vmedaq_write_header_def VMEDAQ_HEADER_ID_def VMEDAQ_TYPE_V830_def HEADER_WORDS_def)
qed

lemma demo_read_data:
  "fst (read_data demo_pass demo_vd) = 1"
  "outs (snd (read_data demo_pass demo_vd)) = [[0x44454D56, 2, 5, 32, 3, 11, 22, 33]]"
  "sent (snd (read_data demo_pass demo_vd)) = [(4, 11, [0x44454D56, 2, 5, 32, 3, 11, 22, 33])]"
proof -
  have m: "module_steps demo_pass demo_vd = [do_v830 demo_pass]" "MEBEventNumber demo_pass = 1"
    "v830_scalers demo_vd = replicate 32 0" "v830_n_scalers demo_vd = 3" "vmedaq_block_counter demo_vd = 5"
    by (simp_all add: module_steps_def demo_vd_def demo_pass_def)
  have "\<exists>u. put_block 0 [0x44454D56, 2, 5, 32, 3, 11, 22, 33] 0
      (demo_vd\<lparr>v830_scalers := [11, 22, 33] @ replicate 29 0, vmedaq_block_counter := 6\<rparr>) = Inr (1, u) \<and>
    outs u = [[0x44454D56, 2, 5, 32, 3, 11, 22, 33]] \<and> sent u = [(4, 11, [0x44454D56, 2, 5, 32, 3, 11, 22, 33])]"
    by (simp add: put_block_def write_data_def write_to_sd_def sys_call_def sizeof_info3_def demo_vd_def outs_def)
  then obtain u where "do_v830 demo_pass (0, demo_vd) = Inr (1, u)" "outs u = [[0x44454D56, 2, 5, 32, 3, 11, 22, 33]]"
    "sent u = [(4, 11, [0x44454D56, 2, 5, 32, 3, 11, 22, 33])]"
    by (auto simp: do_v830_def m demo_v830)
  then show "fst (read_data demo_pass demo_vd) = 1"
    "outs (snd (read_data demo_pass demo_vd)) = [[0x44454D56, 2, 5, 32, 3, 11, 22, 33]]"
    "sent (snd (read_data demo_pass demo_vd)) = [(4, 11, [0x44454D56, 2, 5, 32, 3, 11, 22, 33])]"
    by (simp_all add: read_data_def m)
qed

theorem pass_sends_numbered_blocks_witness:
  "\<exists>bs. outs (snd (read_data demo_pass demo_vd)) = bs \<and> length bs = 1 \<and> numbered 5 bs \<and>
      vmedaq_block_counter (snd (read_data demo_pass demo_vd)) = 6"
proof -
  have v: "v830_n_scalers demo_vd \<le> V830_N_CHANNELS" "outs demo_vd = []" "vmedaq_block_counter demo_vd = 5"
    by (simp_all add: demo_vd_def V830_N_CHANNELS_def outs_def)
  show ?thesis
    using pass_sends_numbered_blocks [OF prod.collapse [symmetric, of "read_data demo_pass demo_vd"] v(1)] demo_read_data v(2,3)
    by auto
qed

section \<open>The inhibit signal\<close>

text \<open>The client has gone through the whole handshake, when one was due.\<close>

definition handshake_ok :: "pass_hw \<Rightarrow> vd \<Rightarrow> bool" where
  "handshake_ok h s \<longleftrightarrow>
     sd s \<noteq> 0 \<or> (case accept_connection h (periodic_clear (cur_time h) s) of None \<Rightarrow> False | Some (d, _) \<Rightarrow> d \<noteq> 0)"

definition inhibit_ok :: "vd \<Rightarrow> bool" where
  "inhibit_ok s \<longleftrightarrow>
     output_set s = (if sd s = 0 then push_bit IOREG_CH_DAQ_INHIBIT 1 else 0) \<and> v830_n_scalers s \<le> V830_N_CHANNELS"

inductive net_run :: "vd \<Rightarrow> vd \<Rightarrow> bool" where
  net_start: "net_run s s"
| net_pass: "net_run s t \<Longrightarrow> handshake_ok h t \<Longrightarrow> net_step h t = Some u \<Longrightarrow> net_run s u"

lemma sys_call_keeps: "sys_call s = (r, s') \<Longrightarrow> v830_n_scalers s' = v830_n_scalers s"
  by (auto simp: sys_call_def split: list.splits)

lemma accept_connection_keeps:
  assumes "accept_connection h s = Some (d, s')"
  shows "v830_n_scalers s' = v830_n_scalers s"
proof -
  obtain r1 s1 where c1: "sys_call s = (r1, s1)" by (metis surj_pair)
  obtain ok rs where rb: "read_bytes sizeof_info1 0 (calls s1) = (ok, rs)" by (metis surj_pair)
  obtain r2 s2 where c2: "sys_call (s1\<lparr>calls := rs\<rparr>) = (r2, s2)" by (metis surj_pair)
  obtain r3 s3 where c3: "sys_call s2 = (r3, s3)" by (metis surj_pair)
  have "v830_n_scalers s1 = v830_n_scalers s" "v830_n_scalers s2 = v830_n_scalers s1" "v830_n_scalers s3 = v830_n_scalers s2"
    using sys_call_keeps [OF c1] sys_call_keeps [OF c2] sys_call_keeps [OF c3] by simp_all
  then show ?thesis
    using assms unfolding accept_connection_def c1 by (auto simp: rb c2 c3 Let_def split: if_splits)
qed

lemma reset_event_counters_keeps [simp]:
  "sd (reset_event_counters s) = sd s" "v830_n_scalers (reset_event_counters s) = v830_n_scalers s"
  by (simp_all add: reset_event_counters_def myriad_clear_def v830_clear_def reg_def clear_event_counters_def)

lemma periodic_clear_keeps [simp]:
  "sd (periodic_clear t s) = sd s" "v830_n_scalers (periodic_clear t s) = v830_n_scalers s"
  "output_set (periodic_clear t s) = output_set s"
  by (simp_all add: periodic_clear_def)

lemma connect_inhibit:
  assumes "connect h (periodic_clear (cur_time h) s) = Some u" "handshake_ok h s" "inhibit_ok s"
  shows "sd u \<noteq> 0 \<and> output_set u = 0 \<and> v830_n_scalers u \<le> V830_N_CHANNELS"
proof (cases "sd s = 0")
  case True
  then obtain d s1 where a: "accept_connection h (periodic_clear (cur_time h) s) = Some (d, s1)" "d \<noteq> 0"
    and u: "u = (reset_event_counters (s1\<lparr>sd := d\<rparr>))\<lparr>input_set := 0, output_set := 0\<rparr>"
    using assms(1,2) by (auto simp: connect_def handshake_ok_def)
  then show ?thesis using accept_connection_keeps [OF a(1)] assms(3) by (simp add: inhibit_ok_def)
next
  case False
  then show ?thesis using assms(1,3) by (auto simp: connect_def inhibit_ok_def)
qed

lemma net_step_inhibit:
  assumes "net_step h s = Some u" "handshake_ok h s" "inhibit_ok s"
  shows "inhibit_ok u"
proof -
  obtain t where t: "connect h (periodic_clear (cur_time h) s) = Some t" using assms(1) by (auto simp: net_step_def)
  note c = connect_inhibit [OF t assms(2,3)]
  obtain n s2 where r: "read_data h t = (n, s2)" by (metis surj_pair)
  note k = read_data_keeps [OF r]
  obtain w s3 where w: "(if n = 0 then write_to_sd [] s2 else (-1, s2)) = (w, s3)" by (metis surj_pair)
  have s3: "sd s3 = sd s2" "output_set s3 = output_set s2" "v830_n_scalers s3 = v830_n_scalers s2"
    using w write_to_sd_outs(1) [of "[]" s2] by (auto simp: same_daq_def split: if_splits)
  have "u = (if n > 0 then s2 else if w \<ge> 0 then s3 else s3\<lparr>output_set := push_bit IOREG_CH_DAQ_INHIBIT 1, sd := 0\<rparr>)"
    using assms(1) unfolding net_step_def t option.map option.inject r prod.case w by (auto split: if_splits)
  then show ?thesis using c k s3 by (simp add: inhibit_ok_def split: if_splits)
qed

text \<open>C24: along every run of the network loop in which each client completes its handshake the signal that inhibits the
  acquisition is on exactly while no client is connected.\<close>
theorem inhibit_follows_connection:
  assumes "net_run s t" "sd s = 0" "output_set s = push_bit IOREG_CH_DAQ_INHIBIT 1" "v830_n_scalers s \<le> V830_N_CHANNELS"
  shows "bit (output_set t) IOREG_CH_DAQ_INHIBIT \<longleftrightarrow> sd t = 0"
proof -
  have "inhibit_ok t" using assms
  proof (induction rule: net_run.induct)
    case (net_start s)
    then show ?case by (simp add: inhibit_ok_def)
  next
    case (net_pass s t h u)
    then show ?case using net_step_inhibit by blast
  qed
  then show ?thesis by (simp add: inhibit_ok_def IOREG_CH_DAQ_INHIBIT_def)
qed

definition demo_idle :: pass_hw where
  "demo_idle = demo_pass\<lparr>MEBEventNumber := 0\<rparr>"

definition demo_off :: vd where
  "demo_off = demo_vd\<lparr>sd := 0, output_set := push_bit IOREG_CH_DAQ_INHIBIT 1, calls := [4, 40, 24, 16, 64, 0, 4]\<rparr>"

lemma demo_net_step: "\<exists>u. net_step demo_idle demo_off = Some u \<and> sd u = 4"
  by (simp add: net_step_def connect_def demo_off_def demo_vd_def demo_idle_def demo_pass_def accept_connection_def sys_call_def
      sizeof_info1_def periodic_clear_def PERIODIC_CLEAR_INTERVAL_IN_SEC_def VME_INET_VERSION_2_def read_data_def module_steps_def
      do_v830_def v830_check_data_def put_block_def write_data_def reset_event_counters_def myriad_clear_def v830_clear_def reg_def
      clear_event_counters_def write_to_sd_def sizeof_info3_def)

theorem inhibit_follows_connection_witness:
  "\<exists>u. net_run demo_off u \<and> sd u = 4 \<and> \<not> bit (output_set u) IOREG_CH_DAQ_INHIBIT"
proof -
  obtain u where u: "net_step demo_idle demo_off = Some u" "sd u = 4" using demo_net_step by blast
  have "handshake_ok demo_idle demo_off"
    by (simp add: handshake_ok_def demo_off_def demo_vd_def demo_idle_def demo_pass_def accept_connection_def sys_call_def
        sizeof_info1_def periodic_clear_def PERIODIC_CLEAR_INTERVAL_IN_SEC_def VME_INET_VERSION_2_def)
  then have r: "net_run demo_off u" using net_pass [OF net_start _ u(1)] by blast
  have "sd demo_off = 0" "output_set demo_off = push_bit IOREG_CH_DAQ_INHIBIT 1" "v830_n_scalers demo_off \<le> V830_N_CHANNELS"
    by (simp_all add: demo_off_def demo_vd_def V830_N_CHANNELS_def)
  then show ?thesis using inhibit_follows_connection [OF r] r u(2) by auto
qed

text \<open>
  A handshake that breaks off ends with the descriptor 0: the loop clears the counters, takes the inhibit signal away and
  reads out a pass, whose blocks go to the file that belongs to the mode without a network.
\<close>

lemma broken_handshake_takes_data:
  assumes "sd s = 0" "accept_connection h (periodic_clear (cur_time h) s) = Some (0, s1)" "v830_n_scalers s \<le> V830_N_CHANNELS"
    "net_step h s = Some u" "t = (reset_event_counters (s1\<lparr>sd := 0\<rparr>))\<lparr>input_set := 0, output_set := 0\<rparr>" "fst (read_data h t) > 0"
  shows "sd u = 0" "output_set u = 0" "\<exists>bs. written u = written t @ bs \<and> numbered 0 bs"
proof -
  have c: "connect h (periodic_clear (cur_time h) s) = Some t" using assms(1,2,5) by (simp add: connect_def)
  have "u = snd (read_data h t)" using assms(4,6) unfolding net_step_def c by (auto split: prod.splits)
  moreover have t: "v830_n_scalers t \<le> V830_N_CHANNELS" "sd t = 0" "output_set t = 0" "vmedaq_block_counter t = 0"
    using accept_connection_keeps [OF assms(2)] assms(3,5) by (simp_all, simp add: reset_event_counters_def)
  ultimately have r: "read_data h t = (fst (read_data h t), u)" by simp
  show "sd u = 0" "output_set u = 0" using read_data_keeps [OF r t(1)] t by simp_all
  obtain e where e: "run_steps (module_steps h t) (0, t) = e" by simp
  show "\<exists>bs. written u = written t @ bs \<and> numbered 0 bs"
  proof (cases e)
    case (Inl v)
    then show ?thesis using assms(6) e by (simp add: read_data_def)
  next
    case (Inr nv)
    obtain n v where nv: "nv = (n, v)" by (cases nv)
    then have "u = v" using r e Inr assms(6) by (auto simp: read_data_def split: if_splits)
    moreover have "advances t v" using run_steps_blocks(1) [OF module_steps_sources t(1)] e Inr nv by blast
    ultimately show ?thesis using t by (auto simp: advances_def outs_def)
  qed
qed

end
