(* ===== verification/Vme_Init.thy ===== *)
theory Vme_Init
  imports Config Vme_Daq
begin

text \<open>
  Initialisation of the modules of \<^verbatim>\<open>vmedaq/vmedaq.c\<close> from the configuration: \<^verbatim>\<open>v1190_init\<close>, \<^verbatim>\<open>madc32_init\<close> and
  \<^verbatim>\<open>mqdc32_init\<close>. What a function writes to the registers of a module is the list of its accesses in their order; values
  are cut to the 16 bits of a register. The getters of the configuration are called in the order of the code, since an
  overflow in one of them changes what the later ones return.
\<close>

section \<open>Texts as values\<close>

text \<open>The chains of \<^verbatim>\<open>if(!strcasecmp(sval, ...))\<close>: the first text that fits; \<open>None\<close> is the last \<^verbatim>\<open>else\<close>.\<close>

definition chosen :: "string \<Rightarrow> (string \<times> int) list \<Rightarrow> int option" where
  "chosen s ts = map_option snd (find (\<lambda>(t, v). same_text s t) ts)"

definition chosen_or :: "string \<Rightarrow> (string \<times> int) list \<Rightarrow> int \<Rightarrow> int" where
  "chosen_or s ts d = (case chosen s ts of None \<Rightarrow> d | Some v \<Rightarrow> v)"

section \<open>V1190\<close>

definition V1190_OPECODE_TRIG_MATCH :: int where "V1190_OPECODE_TRIG_MATCH = 0x0000"
definition V1190_OPECODE_SET_WIN_WIDTH :: int where "V1190_OPECODE_SET_WIN_WIDTH = 0x1000"
definition V1190_OPECODE_SET_WIN_OFFS :: int where "V1190_OPECODE_SET_WIN_OFFS = 0x1100"
definition V1190_OPECODE_SET_SW_MARGIN :: int where "V1190_OPECODE_SET_SW_MARGIN = 0x1200"
definition V1190_OPECODE_SET_REJ_MARGIN :: int where "V1190_OPECODE_SET_REJ_MARGIN = 0x1300"
definition V1190_OPECODE_EN_SUB_TRG :: int where "V1190_OPECODE_EN_SUB_TRG = 0x1400"
definition V1190_OPECODE_DIS_SUB_TRG :: int where "V1190_OPECODE_DIS_SUB_TRG = 0x1500"
definition V1190_OPECODE_SET_DETECTION :: int where "V1190_OPECODE_SET_DETECTION = 0x2200"
definition V1190_OPECODE_SET_EVENT_SIZE :: int where "V1190_OPECODE_SET_EVENT_SIZE = 0x3300"
definition V1190_OPECODE_DETECTION_PAIR_MODE :: int where "V1190_OPECODE_DETECTION_PAIR_MODE = 0x00"
definition V1190_OPECODE_DETECTION_ONLY_TRAILING :: int where "V1190_OPECODE_DETECTION_ONLY_TRAILING = 0x01"
definition V1190_OPECODE_DETECTION_ONLY_LEADING :: int where "V1190_OPECODE_DETECTION_ONLY_LEADING = 0x02"
definition V1190_OPECODE_DETECTION_TRAILING_AND_LEADING :: int where "V1190_OPECODE_DETECTION_TRAILING_AND_LEADING = 0x03"

definition t_clock :: int where "t_clock = 25"

record v1190_setup =
  geo :: int
  match_window_width :: int
  window_offset :: int
  extra_search_window_width :: int
  reject_margin :: int
  almost_full_level :: int
  max_number_hits_w :: int
  detection :: int
  trigger_time_subtraction :: bool

definition v1190_config :: "int \<Rightarrow> config \<Rightarrow> v1190_setup \<times> config" where
  "v1190_config i c0 =
     (case config_get_l_value ''v1190_geo'' i i c0 of (g, c1) \<Rightarrow>
      case config_get_l_value ''v1190_match_window_width'' i 5000 c1 of (mw, c2) \<Rightarrow>
      case config_get_l_value ''v1190_window_offset'' i (-4000) c2 of (wo, c3) \<Rightarrow>
      case config_get_l_value ''v1190_extra_search_window_width'' i 0 c3 of (ew, c4) \<Rightarrow>
      case config_get_l_value ''v1190_reject_margin'' i 100 c4 of (rm, c5) \<Rightarrow>
      case config_get_l_value ''v1190_almost_full_level'' i 8192 c5 of (al, c6) \<Rightarrow>
      case config_get_l_value ''v1190_max_number_hits_w'' i 9 c6 of (mh, c7) \<Rightarrow>
        (\<lparr>geo = g, match_window_width = c_div mw t_clock, window_offset = c_div wo t_clock,
          extra_search_window_width = c_div ew t_clock, reject_margin = c_div rm t_clock, almost_full_level = al,
          max_number_hits_w = mh,
          detection = chosen_or (config_get_s_value ''v1190_detection'' i ''leading'' c7)
            [(''pair'', V1190_OPECODE_DETECTION_PAIR_MODE), (''leading'', V1190_OPECODE_DETECTION_ONLY_LEADING),
             (''triling'', V1190_OPECODE_DETECTION_ONLY_TRAILING), (''both'', V1190_OPECODE_DETECTION_TRAILING_AND_LEADING)]
            V1190_OPECODE_DETECTION_ONLY_LEADING,
          trigger_time_subtraction =
            (chosen_or (config_get_s_value ''v1190_trigger_time_subtraction'' i ''false'' c7) [(''true'', 1), (''false'', 0)] 0 \<noteq> 0)\<rparr>,
         c7))"

datatype v1190_op = Control "16 word" | Output_Prog "16 word" | Almost_Full "16 word" | Geo_Address "16 word" | Micro "16 word"

text \<open>
  \<^verbatim>\<open>v1190_micro_handshake_write\<close> writes only when the module says that it can take a word; the callers do not look at
  its result. \<open>ready\<close> has the answers of the module to the calls in their order.
\<close>

definition v1190_micro_handshake_write :: "bool \<Rightarrow> int \<Rightarrow> v1190_op list" where
  "v1190_micro_handshake_write rdy w = (if rdy then [Micro (word_of_int w)] else [])"

definition micro_words :: "v1190_setup \<Rightarrow> int list" where
  "micro_words p =
     [V1190_OPECODE_TRIG_MATCH,
      V1190_OPECODE_SET_WIN_WIDTH, match_window_width p,
      V1190_OPECODE_SET_WIN_OFFS, window_offset p,
      V1190_OPECODE_SET_SW_MARGIN, extra_search_window_width p,
      V1190_OPECODE_SET_REJ_MARGIN, reject_margin p,
      V1190_OPECODE_SET_DETECTION, detection p,
      V1190_OPECODE_SET_EVENT_SIZE, max_number_hits_w p,
      if trigger_time_subtraction p then V1190_OPECODE_EN_SUB_TRG else V1190_OPECODE_DIS_SUB_TRG]"

definition v1190_write :: "(nat \<Rightarrow> bool) \<Rightarrow> 16 word \<Rightarrow> v1190_setup \<Rightarrow> v1190_op list" where
  "v1190_write ready control p =
     [Control (control OR 0x0100), Output_Prog 2, Almost_Full (word_of_int (almost_full_level p)), Geo_Address (word_of_int (geo p))] @
     concat (map2 (\<lambda>k w. v1190_micro_handshake_write (ready k) w) [0 ..< length (micro_words p)] (micro_words p))"

text \<open>The loop over the modules; \<open>h i\<close> is the readiness of module \<open>i\<close> and the content of its control register.\<close>

fun v1190_init_loop :: "(nat \<Rightarrow> (nat \<Rightarrow> bool) \<times> 16 word) \<Rightarrow> nat \<Rightarrow> nat \<Rightarrow> config \<Rightarrow> v1190_op list list \<times> config" where
  "v1190_init_loop h i 0 c = ([], c)"
| "v1190_init_loop h i (Suc k) c =
     (case v1190_config (int i) c of (p, c') \<Rightarrow>
      case v1190_init_loop h (i + 1) k c' of (ops, c'') \<Rightarrow> (v1190_write (fst (h i)) (snd (h i)) p # ops, c''))"

definition v1190_init :: "(nat \<Rightarrow> (nat \<Rightarrow> bool) \<times> 16 word) \<Rightarrow> nat \<Rightarrow> config \<Rightarrow> v1190_op list list \<times> config" where
  "v1190_init h n c = v1190_init_loop h 0 n c"

section \<open>MADC32\<close>

definition MADC32_IRQ_THRESHOLD_DEFAULT :: int where "MADC32_IRQ_THRESHOLD_DEFAULT = 6000"
definition MADC32_NUM_CHANNELS :: nat where "MADC32_NUM_CHANNELS = 32"
definition MADC32_DELAY0_25NS :: int where "MADC32_DELAY0_25NS = 0"
definition MADC32_DELAY1_25NS :: int where "MADC32_DELAY1_25NS = 0"
definition MADC32_WIDTH0_2US :: int where "MADC32_WIDTH0_2US = 40"
definition MADC32_WIDTH1_2US :: int where "MADC32_WIDTH1_2US = 40"
definition MADC32_DATA_LEN_FORMAT_32BIT :: int where "MADC32_DATA_LEN_FORMAT_32BIT = 2"
definition MADC32_BANK_OPERATION_BANKS_CONNECTED :: int where "MADC32_BANK_OPERATION_BANKS_CONNECTED = 0"
definition MADC32_MULTI_EVENT :: "(string \<times> int) list" where
  "MADC32_MULTI_EVENT = [(''none'', 0), (''unlimited'', 1), (''limited'', 3)]"
definition MADC32_MARKING_TYPE :: "(string \<times> int) list" where
  "MADC32_MARKING_TYPE = [(''event_counter'', 0), (''time_stamp'', 1), (''extended_time_stamp'', 3)]"
definition MADC32_ADC_RESOLUTION :: "(string \<times> int) list" where
  "MADC32_ADC_RESOLUTION = [(''2k'', 0), (''4k'', 1), (''4khigh'', 2), (''8k'', 3), (''8khigh'', 4)]"
definition MADC32_USE_GG :: "(string \<times> int) list" where "MADC32_USE_GG = [(''gg0'', 1), (''gg1'', 2)]"
definition MADC32_INPUT_RANGE :: "(string \<times> int) list" where "MADC32_INPUT_RANGE = [(''4V'', 0), (''8V'', 2), (''10V'', 1)]"
definition MADC32_NIM_GAT1_OSC :: "(string \<times> int) list" where "MADC32_NIM_GAT1_OSC = [(''gate1'', 0), (''oscillator'', 1)]"
definition MADC32_NIM_FC_RESET :: "(string \<times> int) list" where "MADC32_NIM_FC_RESET = [(''fast_clear'', 0), (''time_stamp'', 1)]"
definition MADC32_NIM_BUSY :: "(string \<times> int) list" where
  "MADC32_NIM_BUSY = [(''busy'', 0), (''gg0'', 1), (''gg1'', 2), (''cbus'', 3), (''full'', 4), (''threshold'', 8)]"
definition MADC32_NIM_BUSY_DATA_THRESHOLD :: int where "MADC32_NIM_BUSY_DATA_THRESHOLD = 8"
definition MADC32_TS_SOURCES :: "(string \<times> int) list" where "MADC32_TS_SOURCES = [(''internal'', 0), (''external'', 1)]"
definition MADC32_TS_SOURCES_EXTERNAL_RESET :: int where "MADC32_TS_SOURCES_EXTERNAL_RESET = 2"

text \<open>The conversions between nanoseconds and the codes of the registers.\<close>

definition madc32_decode_delay :: "int \<Rightarrow> int" where
  "madc32_decode_delay d = (if d = 0 then 25 else 150 + (d - 1) * 50)"

definition madc32_encode_delay :: "int \<Rightarrow> int" where
  "madc32_encode_delay t = (if t < 150 then 0 else c_div (t - 150) 50 + 1)"

definition madc32_decode_width :: "int \<Rightarrow> int" where "madc32_decode_width w = w * 50"
definition madc32_encode_width :: "int \<Rightarrow> int" where "madc32_encode_width t = c_div t 50"

text \<open>The registers of both modules that the initialisation writes.\<close>

datatype adc_reg = R_module_id | R_irq_threshold | R_data_len_format | R_multi_event | R_marking_type | R_bank_operation
  | R_adc_resolution | R_hold_delay0 | R_hold_delay1 | R_hold_width0 | R_hold_width1 | R_use_gg | R_input_range
  | R_nim_gate1_osc | R_nim_fc_reset | R_nim_busy | R_ts_sources | R_threshold nat | R_input_coupling | R_exp_trig_delay0

type_synonym adc_write = "adc_reg \<times> 16 word"

definition wr_reg :: "adc_reg \<Rightarrow> int \<Rightarrow> adc_write" where "wr_reg r v = (r, word_of_int v)"

text \<open>
  \<^verbatim>\<open>nim_fc_reset\<close> and \<^verbatim>\<open>nim_busy\<close>: for a text that is not known the code sets the first of the two and leaves the second
  as it is, from the module before or not initialised at all. \<open>nb\<close> is what it holds.
\<close>

definition nim_values :: "string \<Rightarrow> (string \<times> int) list \<Rightarrow> int \<Rightarrow> int \<Rightarrow> int \<times> int" where
  "nim_values s ts fc nb = (case chosen s ts of Some v \<Rightarrow> (fc, v) | None \<Rightarrow> (MADC32_NIM_BUSY_DATA_THRESHOLD, nb))"

text \<open>\<^verbatim>\<open>ts_sources\<close>, with the bit for the external reset.\<close>

definition ts_value :: "string \<Rightarrow> string \<Rightarrow> int" where
  "ts_value src rst =
     (let t = chosen_or src MADC32_TS_SOURCES 0
      in if chosen rst [(''disable'', 0), (''enable'', 1)] = Some 1 then t OR MADC32_TS_SOURCES_EXTERNAL_RESET else t)"

definition madc32_config :: "int \<Rightarrow> int \<Rightarrow> config \<Rightarrow> adc_write list \<times> int \<times> config" where
  "madc32_config i nb c0 =
     (case config_get_l_value ''madc32_module_id'' i i c0 of (mid, c1) \<Rightarrow>
      case config_get_l_value ''madc32_irq_threshold'' i MADC32_IRQ_THRESHOLD_DEFAULT c1 of (irq, c2) \<Rightarrow>
      case config_get_l_value ''madc32_delay0'' i MADC32_DELAY0_25NS c2 of (d0, c3) \<Rightarrow>
      case config_get_l_value ''madc32_delay1'' i MADC32_DELAY1_25NS c3 of (d1, c4) \<Rightarrow>
      case config_get_l_value ''madc32_width0'' i MADC32_WIDTH0_2US c4 of (w0, c5) \<Rightarrow>
      case config_get_l_value ''madc32_width1'' i MADC32_WIDTH1_2US c5 of (w1, c6) \<Rightarrow>
      case config_get_l_value ''madc32_threshold'' i 0 c6 of (th, c7) \<Rightarrow>
        let txt = (\<lambda>nm d. config_get_s_value nm i d c7);
            fc0 = chosen_or (txt ''madc32_nim_fc_reset'' ''fast_clear'') MADC32_NIM_FC_RESET 0
        in case nim_values (txt ''madc32_nim_busy'' ''threshold'') MADC32_NIM_BUSY fc0 nb of (fc, nb') \<Rightarrow>
          ([wr_reg R_module_id mid, wr_reg R_irq_threshold irq, wr_reg R_data_len_format MADC32_DATA_LEN_FORMAT_32BIT,
            wr_reg R_multi_event (chosen_or (txt ''madc32_multi_event'' ''unlimited'') MADC32_MULTI_EVENT 1),
            wr_reg R_marking_type (chosen_or (txt ''madc32_marking_type'' ''event_counter'') MADC32_MARKING_TYPE 0),
            wr_reg R_bank_operation MADC32_BANK_OPERATION_BANKS_CONNECTED,
            wr_reg R_adc_resolution (chosen_or (txt ''madc32_adc_resolution'' ''4khigh'') MADC32_ADC_RESOLUTION 2),
            wr_reg R_hold_delay0 d0, wr_reg R_hold_delay1 d1, wr_reg R_hold_width0 w0, wr_reg R_hold_width1 w1,
            wr_reg R_use_gg (chosen_or (txt ''madc32_use_gg'' ''gg0'') MADC32_USE_GG 1),
            wr_reg R_input_range (chosen_or (txt ''madc32_input_range'' ''10V'') MADC32_INPUT_RANGE 1),
            wr_reg R_nim_gate1_osc (chosen_or (txt ''madc32_nim_gat1_osc'' ''oscillator'') MADC32_NIM_GAT1_OSC 1),
            wr_reg R_nim_fc_reset fc, wr_reg R_nim_busy nb',
            wr_reg R_ts_sources (ts_value (txt ''madc32_ts_sources'' ''internal'') (txt ''madc32_ts_sources_ext_reset_enable'' ''disable''))] @
           map (\<lambda>ch. wr_reg (R_threshold ch) th) [0 ..< MADC32_NUM_CHANNELS], nb', c7))"

fun madc32_init_loop :: "nat \<Rightarrow> nat \<Rightarrow> int \<Rightarrow> config \<Rightarrow> adc_write list list \<times> config" where
  "madc32_init_loop i 0 nb c = ([], c)"
| "madc32_init_loop i (Suc k) nb c =
     (case madc32_config (int i) nb c of (ws, nb', c') \<Rightarrow>
      case madc32_init_loop (i + 1) k nb' c' of (wss, c'') \<Rightarrow> (ws # wss, c''))"

definition madc32_init :: "nat \<Rightarrow> int \<Rightarrow> config \<Rightarrow> adc_write list list \<times> config" where
  "madc32_init n nb c = madc32_init_loop 0 n nb c"

section \<open>MQDC32\<close>

definition MQDC32_NUM_CHANNELS :: nat where "MQDC32_NUM_CHANNELS = 32"
definition MQDC32_IRQ_THRESHOLD_DEFAULT :: int where "MQDC32_IRQ_THRESHOLD_DEFAULT = 6000"
definition MQDC32_INPUT_COUPLING :: "(string \<times> int) list" where
  "MQDC32_INPUT_COUPLING = [(''B0AC_B1AC'', 0), (''B0DC_B1AC'', 1), (''B0AC_B1DC'', 2), (''B0DC_B1DC'', 3)]"
definition MQDC32_NIM_FC_RESET :: "(string \<times> int) list" where
  "MQDC32_NIM_FC_RESET = [(''fast_clear'', 0), (''time_stamp'', 1), (''exp_trig'', 2)]"
definition MQDC32_NIM_BUSY :: "(string \<times> int) list" where
  "MQDC32_NIM_BUSY = [(''busy'', 0), (''cbus'', 3), (''full'', 4), (''data_threshold'', 8), (''evt_threshold'', 9)]"

text \<open>A channel is enabled by the threshold 0 and disabled by a threshold that nothing reaches.\<close>

definition channel_threshold :: "int \<Rightarrow> nat \<Rightarrow> int" where
  "channel_threshold use_ch ch = (if bit (word_of_int use_ch :: 32 word) ch then 0 else 0x1fff)"

definition mqdc32_config :: "int \<Rightarrow> int \<Rightarrow> config \<Rightarrow> adc_write list \<times> int \<times> config" where
  "mqdc32_config i nb c0 =
     (case config_get_l_value ''mqdc32_module_id'' i i c0 of (mid, c1) \<Rightarrow>
      case config_get_l_value ''mqdc32_irq_threshold'' i MQDC32_IRQ_THRESHOLD_DEFAULT c1 of (irq, c2) \<Rightarrow>
      case config_get_l_value ''mqdc32_use_ch'' i (-1) c2 of (use_ch, c3) \<Rightarrow>
      case config_get_l_value ''mqdc32_exp_trig_delay'' i 0 c3 of (ed, c4) \<Rightarrow>
        let txt = (\<lambda>nm d. config_get_s_value nm i d c4);
            fc0 = chosen_or (txt ''mqdc32_nim_fc_reset'' ''fast_clear'') MQDC32_NIM_FC_RESET 0
        in case nim_values (txt ''mqdc32_nim_busy'' ''data_threshold'') MQDC32_NIM_BUSY fc0 nb of (fc, nb') \<Rightarrow>
          ([wr_reg R_module_id mid, wr_reg R_irq_threshold irq, wr_reg R_data_len_format MADC32_DATA_LEN_FORMAT_32BIT,
            wr_reg R_multi_event (chosen_or (txt ''mqdc32_multi_event'' ''unlimited'') MADC32_MULTI_EVENT 1),
            wr_reg R_marking_type (chosen_or (txt ''mqdc32_marking_type'' ''event_counter'') MADC32_MARKING_TYPE 0),
            wr_reg R_bank_operation MADC32_BANK_OPERATION_BANKS_CONNECTED,
            wr_reg R_input_coupling (chosen_or (txt ''mqdc32_input_coupling'' ''B0AC_B1AC'') MQDC32_INPUT_COUPLING 0),
            wr_reg R_nim_gate1_osc (chosen_or (txt ''mqdc32_nim_gat1_osc'' ''oscillator'') MADC32_NIM_GAT1_OSC 1),
            wr_reg R_nim_fc_reset fc, wr_reg R_nim_busy nb',
            wr_reg R_ts_sources (ts_value (txt ''mqdc32_ts_sources'' ''external'') (txt ''mqdc32_ts_sources_ext_reset_enable'' ''disable''))] @
           map (\<lambda>ch. wr_reg (R_threshold ch) (channel_threshold use_ch ch)) [0 ..< MQDC32_NUM_CHANNELS] @
           [wr_reg R_exp_trig_delay0 ed], nb', c4))"

fun mqdc32_init_loop :: "nat \<Rightarrow> nat \<Rightarrow> int \<Rightarrow> config \<Rightarrow> adc_write list list \<times> config" where
  "mqdc32_init_loop i 0 nb c = ([], c)"
| "mqdc32_init_loop i (Suc k) nb c =
     (case mqdc32_config (int i) nb c of (ws, nb', c') \<Rightarrow>
      case mqdc32_init_loop (i + 1) k nb' c' of (wss, c'') \<Rightarrow> (ws # wss, c''))"

definition mqdc32_init :: "nat \<Rightarrow> int \<Rightarrow> config \<Rightarrow> adc_write list list \<times> config" where
  "mqdc32_init n nb c = mqdc32_init_loop 0 n nb c"

section \<open>From the file to the modules\<close>

text \<open>Numbers of a file: a parameter that is not defined, or defined as a number written in decimal.\<close>

definition number_text :: "string \<Rightarrow> int" where
  "number_text v = fst (get_l_value v 0 0)"

definition numeric :: "definition_line list \<Rightarrow> string \<Rightarrow> int \<Rightarrow> bool" where
  "numeric ls nm i \<longleftrightarrow>
     (case meaning ls nm i of None \<Rightarrow> True
      | Some v \<Rightarrow> v = show_long (number_text v) \<and> LONG_MIN \<le> number_text v \<and> number_text v \<le> LONG_MAX)"

definition file_number :: "definition_line list \<Rightarrow> string \<Rightarrow> int \<Rightarrow> int \<Rightarrow> int" where
  "file_number ls nm i d = (case meaning ls nm i of None \<Rightarrow> d | Some v \<Rightarrow> number_text v)"

definition file_text :: "definition_line list \<Rightarrow> string \<Rightarrow> int \<Rightarrow> string \<Rightarrow> string" where
  "file_text ls nm i d = (case meaning ls nm i of None \<Rightarrow> d | Some v \<Rightarrow> v)"

lemma file_number_read:
  assumes "puts_lines ls config_init = Some c" "list_all line_ok ls" "LONG_MIN \<le> i" "i \<le> LONG_MAX" "numeric ls nm i"
  shows "config_get_l_value nm i d c = (file_number ls nm i d, c)"
proof (cases "meaning ls nm i")
  case None
  then show ?thesis using number_of_file(1) [OF assms(1-4)] by (simp add: file_number_def)
next
  case (Some v)
  then have n: "v = show_long (number_text v)" "LONG_MIN \<le> number_text v" "number_text v \<le> LONG_MAX"
    using assms(5) by (auto simp: numeric_def)
  have "meaning ls nm i = Some (show_long (number_text v))" using Some n(1) by simp
  then show ?thesis using number_of_file(2) [OF assms(1-4) _ n(2,3)] Some by (simp add: file_number_def)
qed

definition v1190_numbers :: "string list" where
  "v1190_numbers = [''v1190_geo'', ''v1190_match_window_width'', ''v1190_window_offset'', ''v1190_extra_search_window_width'',
     ''v1190_reject_margin'', ''v1190_almost_full_level'', ''v1190_max_number_hits_w'']"

text \<open>What a file means for a V1190.\<close>

definition v1190_meaning :: "definition_line list \<Rightarrow> int \<Rightarrow> v1190_setup" where
  "v1190_meaning ls i =
     \<lparr>geo = file_number ls ''v1190_geo'' i i,
      match_window_width = c_div (file_number ls ''v1190_match_window_width'' i 5000) t_clock,
      window_offset = c_div (file_number ls ''v1190_window_offset'' i (-4000)) t_clock,
      extra_search_window_width = c_div (file_number ls ''v1190_extra_search_window_width'' i 0) t_clock,
      reject_margin = c_div (file_number ls ''v1190_reject_margin'' i 100) t_clock,
      almost_full_level = file_number ls ''v1190_almost_full_level'' i 8192,
      max_number_hits_w = file_number ls ''v1190_max_number_hits_w'' i 9,
      detection = chosen_or (file_text ls ''v1190_detection'' i ''leading'')
        [(''pair'', 0), (''leading'', 2), (''triling'', 1), (''both'', 3)] 2,
      trigger_time_subtraction = same_text (file_text ls ''v1190_trigger_time_subtraction'' i ''false'') ''true''\<rparr>"

lemma v1190_config_meaning:
  assumes "puts_lines ls config_init = Some c" "list_all line_ok ls" "LONG_MIN \<le> i" "i \<le> LONG_MAX"
    "list_all (\<lambda>nm. numeric ls nm i) v1190_numbers"
  shows "v1190_config i c = (v1190_meaning ls i, c)"
proof -
  have n: "numeric ls nm i \<Longrightarrow> config_get_l_value nm i d c = (file_number ls nm i d, c)" for nm d
    by (rule file_number_read [OF assms(1-4)])
  have t: "config_get_s_value nm i d c = file_text ls nm i d" for nm d
    using text_of_file [OF assms(1-4)] by (simp add: file_text_def)
  have b: "(chosen_or s [(''true'', 1), (''false'', 0)] 0 \<noteq> 0) = same_text s ''true''" for s
    by (auto simp: chosen_or_def chosen_def)
  show ?thesis
    using assms(5) unfolding v1190_config_def
    by (simp add: n t b v1190_numbers_def v1190_meaning_def V1190_OPECODE_DETECTION_PAIR_MODE_def
        V1190_OPECODE_DETECTION_ONLY_LEADING_def V1190_OPECODE_DETECTION_ONLY_TRAILING_def
        V1190_OPECODE_DETECTION_TRAILING_AND_LEADING_def)
qed

lemma v1190_init_loop_meaning:
  assumes "puts_lines ls config_init = Some c" "list_all line_ok ls" "int (i + n) \<le> LONG_MAX"
    "\<And>j. i \<le> j \<Longrightarrow> j < i + n \<Longrightarrow> list_all (\<lambda>nm. numeric ls nm (int j)) v1190_numbers"
  shows "v1190_init_loop h i n c = (map (\<lambda>j. v1190_write (fst (h j)) (snd (h j)) (v1190_meaning ls (int j))) [i ..< i + n], c)"
  using assms(3,4)
proof (induction n arbitrary: i)
  case (Suc n)
  have "LONG_MIN \<le> int i" "int i \<le> LONG_MAX" using Suc.prems(1) by (simp_all add: LONG_MIN_def)
  then have "v1190_config (int i) c = (v1190_meaning ls (int i), c)"
    using v1190_config_meaning [OF assms(1,2)] Suc.prems(2) by simp
  moreover have "v1190_init_loop h (i + 1) n c =
      (map (\<lambda>j. v1190_write (fst (h j)) (snd (h j)) (v1190_meaning ls (int j))) [i + 1 ..< i + 1 + n], c)"
    using Suc.prems by (intro Suc.IH) auto
  ultimately show ?case by (simp add: upt_rec [of i] del: upt_Suc)
qed simp

lemma map2_upt_const: "map2 (\<lambda>k w. f w) [i ..< i + length ws] ws = map f ws"
proof (induction ws arbitrary: i)
  case (Cons w ws)
  show ?case using Cons.IH [of "Suc i"] by (simp add: upt_rec [of i] del: upt_Suc)
qed simp

lemma v1190_write_ready:
  assumes "\<forall>k. ready k"
  shows "v1190_write ready cr p =
    [Control (cr OR 0x0100), Output_Prog 2, Almost_Full (word_of_int (almost_full_level p)), Geo_Address (word_of_int (geo p))] @
    map (\<lambda>w. Micro (word_of_int w)) (micro_words p)"
  using assms map2_upt_const [of "\<lambda>w. [Micro (word_of_int w)]" 0 "micro_words p"]
  by (simp add: v1190_write_def v1190_micro_handshake_write_def concat_map_singleton)

text \<open>C25: a file written as definitions sets up the modules: after it has been read without an error, \<^verbatim>\<open>v1190_init\<close> writes
  to every module, when the modules take their words, the four registers and then the micro words in the order of the
  manual, with the values that the file means for that module (its own index before no index before the default, times
  in steps of 25 ns); no module takes a value of another.
\<close>
theorem module_setup_follows_file:
  assumes "list_all line_ok ls" "length ls \<le> Max_N_Parameters" "int n \<le> LONG_MAX"
    "\<forall>i<n. list_all (\<lambda>nm. numeric ls nm (int i)) v1190_numbers" "\<forall>i<n. \<forall>k. fst (h i) k"
  shows "\<exists>c. config_read_file (Some (concat (map text_of ls))) config_init = Some (0, c) \<and>
    v1190_init h n c =
      (map (\<lambda>i. [Control (snd (h i) OR 0x0100), Output_Prog 2,
                Almost_Full (word_of_int (file_number ls ''v1190_almost_full_level'' (int i) 8192)),
                Geo_Address (word_of_int (file_number ls ''v1190_geo'' (int i) (int i)))] @
               map (\<lambda>w. Micro (word_of_int w)) (micro_words (v1190_meaning ls (int i)))) [0 ..< n], c)"
proof -
  obtain c where c: "puts_lines ls config_init = Some c"
    "config_read_file (Some (concat (map text_of ls))) config_init = Some (0, c)"
    using file_is_read [OF assms(1,2)] by blast
  have "v1190_init h n c =
      (map (\<lambda>j. v1190_write (fst (h j)) (snd (h j)) (v1190_meaning ls (int j))) [0 ..< n], c)"
    using v1190_init_loop_meaning [OF c(1) assms(1), of 0 n h] assms(3,4) by (simp add: v1190_init_def)
  moreover have "v1190_write (fst (h j)) (snd (h j)) (v1190_meaning ls (int j)) =
      [Control (snd (h j) OR 0x0100), Output_Prog 2,
       Almost_Full (word_of_int (file_number ls ''v1190_almost_full_level'' (int j) 8192)),
       Geo_Address (word_of_int (file_number ls ''v1190_geo'' (int j) (int j)))] @
      map (\<lambda>w. Micro (word_of_int w)) (micro_words (v1190_meaning ls (int j)))" if "j < n" for j
    using assms(5) that by (simp add: v1190_write_ready v1190_meaning_def)
  ultimately show ?thesis using c(2) by (intro exI [of _ c]) simp
qed

definition setup_lines :: "definition_line list" where
  "setup_lines =
     [\<lparr>l_name = ''v1190_geo'', l_index = Some 1, l_value = ''6'', l_comment = None\<rparr>,
      \<lparr>l_name = ''v1190_window_offset'', l_index = None, l_value = ''-2000'', l_comment = Some '' ns''\<rparr>,
      \<lparr>l_name = ''v1190_detection'', l_index = Some 0, l_value = ''both'', l_comment = None\<rparr>]"

lemma setup_values:
  "list_all (\<lambda>nm. numeric setup_lines nm 0) v1190_numbers" "list_all (\<lambda>nm. numeric setup_lines nm 1) v1190_numbers"
  "file_number setup_lines ''v1190_geo'' 0 0 = 0" "file_number setup_lines ''v1190_geo'' 1 1 = 6"
  "micro_words (v1190_meaning setup_lines 0) = [0, 0x1000, 200, 0x1100, -80, 0x1200, 0, 0x1300, 4, 0x2200, 3, 0x3300, 9, 0x1500]"
  "micro_words (v1190_meaning setup_lines 1) = [0, 0x1000, 200, 0x1100, -80, 0x1200, 0, 0x1300, 4, 0x2200, 2, 0x3300, 9, 0x1500]"
  "file_number setup_lines ''v1190_almost_full_level'' 0 8192 = 8192" "file_number setup_lines ''v1190_almost_full_level'' 1 8192 = 8192"
  by code_simp+

theorem module_setup_follows_file_witness:
  "\<exists>c. config_read_file (Some (concat (map text_of setup_lines))) config_init = Some (0, c) \<and>
     v1190_init (\<lambda>i. (\<lambda>k. True, 0x20)) 2 c =
       (map (\<lambda>(g, d). [Control 0x0120, Output_Prog 2, Almost_Full 8192, Geo_Address g, Micro 0, Micro 0x1000, Micro 200,
          Micro 0x1100, Micro (-80), Micro 0x1200, Micro 0, Micro 0x1300, Micro 4, Micro 0x2200, Micro d, Micro 0x3300,
          Micro 9, Micro 0x1500]) [(0, 3), (6, 2)], c)"
proof -
  have ok: "list_all line_ok setup_lines" by code_simp
  have len: "length setup_lines \<le> Max_N_Parameters" by (simp add: setup_lines_def Max_N_Parameters_def)
  have u: "[0 ..< 2] = [0, 1 :: nat]" by (simp add: upt_rec)
  have num: "\<forall>i<(2 :: nat). list_all (\<lambda>nm. numeric setup_lines nm (int i)) v1190_numbers"
    using setup_values(1,2) by (simp add: numeral_2_eq_2 less_Suc_eq)
  show ?thesis
    using module_setup_follows_file [OF ok len, of 2 "\<lambda>i. (\<lambda>k. True, 0x20)"] num setup_values
    by (simp add: u LONG_MAX_def)
qed

text \<open>
  Of the four settings of \<^verbatim>\<open>v1190_detection\<close> that the messages of the program name, "trailing" is not one that the file
  can choose: it is not known, and the leading edge is taken. The text that chooses it is "triling".
\<close>
lemma trailing_means_leading:
  assumes "meaning ls ''v1190_detection'' i = Some v"
  shows "same_text v ''trailing'' \<Longrightarrow> detection (v1190_meaning ls i) = V1190_OPECODE_DETECTION_ONLY_LEADING"
    "same_text v ''triling'' \<Longrightarrow> detection (v1190_meaning ls i) = V1190_OPECODE_DETECTION_ONLY_TRAILING"
  using assms by (auto simp: v1190_meaning_def file_text_def chosen_or_def chosen_def same_text_def lower_def
      V1190_OPECODE_DETECTION_ONLY_LEADING_def V1190_OPECODE_DETECTION_ONLY_TRAILING_def)

text \<open>An unknown text for \<^verbatim>\<open>nim_busy\<close> replaces what was chosen for \<^verbatim>\<open>nim_fc_reset\<close>, and the busy output keeps its old value.\<close>
lemma unknown_busy_spoils_reset:
  assumes "chosen s ts = None"
  shows "nim_values s ts fc nb = (8, nb)"
  using assms by (simp add: nim_values_def MADC32_NIM_BUSY_DATA_THRESHOLD_def)

text \<open>The conversions of the delays: the code of the time of a code is the code again.\<close>
lemma madc32_delay_round_trip: "0 \<le> d \<Longrightarrow> madc32_encode_delay (madc32_decode_delay d) = d"
  by (auto simp: madc32_encode_delay_def madc32_decode_delay_def c_div_def sgn_if)

lemma madc32_width_round_trip: "madc32_encode_width (madc32_decode_width w) = w"
  by (cases w) (auto simp: madc32_encode_width_def madc32_decode_width_def c_div_def sgn_if)

end
