(* ===== verification/Vme_Windows.thy ===== *)
theory Vme_Windows
  imports Vme_Init
begin

text \<open>
  The libraries that map the VME modules into the address space (\<^verbatim>\<open>v1190/v1190.c\<close>, \<^verbatim>\<open>madc32/madc32.c\<close>,
  \<^verbatim>\<open>mqdc32/mqdc32.c\<close> and \<^verbatim>\<open>myriad/myriad.c\<close> with one window for all modules, \<^verbatim>\<open>v830/v830.c\<close> and \<^verbatim>\<open>v977/v977.c\<close>
  with one window for each module), and the parts of \<^verbatim>\<open>vmedaq/vmedaq.c\<close> that open and close them. The calls of the bus
  library, which is not part of the sources, are a trace with their results; what its documentation asks of the order of
  these calls is the automaton \<open>vme_step\<close>. The locale \<open>window_driver\<close> is the contract both kinds of library keep.
\<close>

section \<open>The bus library\<close>

text \<open>
  Windows are numbered within a library. A window is created, mapped, unmapped and released; \<^verbatim>\<open>vme_term\<close> ends the use
  of the bus. The second component of a trace entry says whether the call succeeded.
\<close>

datatype vme_call = VInit | VTerm | WCreate nat nat nat | WMap nat | WUnmap nat | WRelease nat

record vbus =
  b_open :: bool
  b_win :: "nat \<Rightarrow> bool option"

fun vme_step :: "vme_call \<times> bool \<Rightarrow> vbus \<Rightarrow> vbus option" where
  "vme_step (VInit, r) B = Some (if r then B\<lparr>b_open := True\<rparr> else B)"
| "vme_step (VTerm, r) B = (if b_open B then Some (if r then B\<lparr>b_open := False\<rparr> else B) else None)"
| "vme_step (WCreate w a n, r) B =
     (if b_open B \<and> b_win B w = None then Some (if r then B\<lparr>b_win := (b_win B)(w := Some False)\<rparr> else B) else None)"
| "vme_step (WMap w, r) B =
     (if b_open B \<and> b_win B w = Some False then Some (if r then B\<lparr>b_win := (b_win B)(w := Some True)\<rparr> else B) else None)"
| "vme_step (WUnmap w, r) B =
     (if b_open B \<and> b_win B w = Some True then Some (if r then B\<lparr>b_win := (b_win B)(w := Some False)\<rparr> else B) else None)"
| "vme_step (WRelease w, r) B =
     (if b_open B then
        (case b_win B w of
           None \<Rightarrow> None
         | Some _ \<Rightarrow> Some (if r then B\<lparr>b_win := (b_win B)(w := None)\<rparr> else B))
      else None)"

fun vme_run :: "vbus \<Rightarrow> (vme_call \<times> bool) list \<Rightarrow> vbus option" where
  "vme_run B [] = Some B"
| "vme_run B (c # cs) = Option.bind (vme_step c B) (\<lambda>B'. vme_run B' cs)"

definition vme_boot :: vbus where
  "vme_boot = \<lparr>b_open = False, b_win = (\<lambda>_. None)\<rparr>"

text \<open>What the bus library answers during one operation, and what \<^verbatim>\<open>check_existence\<close> reads from the module.\<close>

record vme_ans =
  a_create :: bool
  a_map :: "nat option"
  a_exists :: bool
  a_unmap :: bool
  a_release :: bool
  a_release_err :: bool
  a_term :: bool

section \<open>One window for all modules\<close>

text \<open>
  \<open>sd_handle\<close> says that \<^verbatim>\<open>window_handle\<close> is not \<^verbatim>\<open>NULL\<close>; \<open>sd_ptr\<close> is the table of pointers to the modules.
\<close>

record shared_drv =
  sd_handle :: bool
  sd_ptr :: "nat option list"
  sd_trace :: "(vme_call \<times> bool) list"

definition sd_log :: "(vme_call \<times> bool) list \<Rightarrow> shared_drv \<Rightarrow> shared_drv" where
  "sd_log cs d = d\<lparr>sd_trace := sd_trace d @ cs\<rparr>"

definition shared_boot :: "nat \<Rightarrow> shared_drv" where
  "shared_boot N = \<lparr>sd_handle = False, sd_ptr = replicate N None, sd_trace = []\<rparr>"

definition shared_open :: "bool \<Rightarrow> shared_drv \<Rightarrow> int \<times> shared_drv" where
  "shared_open r d = (if r then 0 else -1, sd_log [(VInit, r)] d)"

text \<open>The part of the map function that creates and maps the window when there is none yet.\<close>

definition shared_window :: "nat \<Rightarrow> nat \<Rightarrow> nat \<Rightarrow> vme_ans \<Rightarrow> shared_drv \<Rightarrow> bool \<times> shared_drv" where
  "shared_window N base inc a d =
     (if sd_handle d then (True, d)
      else if \<not> a_create a then (False, sd_log [(WCreate 0 base (inc * N), False), (VTerm, a_term a)] d)
      else let d1 = sd_log [(WCreate 0 base (inc * N), True)] (d\<lparr>sd_handle := True\<rparr>)
           in case a_map a of
                None \<Rightarrow> (False, sd_log [(WMap 0, False), (WRelease 0, a_release a), (VTerm, a_term a)] (d1\<lparr>sd_ptr := (sd_ptr d1)[0 := None]\<rparr>))
              | Some p \<Rightarrow> (True, sd_log [(WMap 0, True)] (d1\<lparr>sd_ptr := map (\<lambda>i. Some (p + inc * i)) [0 ..< N]\<rparr>)))"

definition shared_unmap :: "nat \<Rightarrow> int \<Rightarrow> shared_drv \<Rightarrow> int \<times> shared_drv" where
  "shared_unmap N k d = (if k < 0 \<or> int N \<le> k then -1 else 0, d)"

definition shared_map :: "nat \<Rightarrow> nat \<Rightarrow> nat \<Rightarrow> vme_ans \<Rightarrow> int \<Rightarrow> shared_drv \<Rightarrow> nat option \<times> shared_drv" where
  "shared_map N base inc a k d =
     (if k < 0 \<or> int N \<le> k then (None, d)
      else case shared_window N base inc a d of
             (False, d1) \<Rightarrow> (None, d1)
           | (True, d1) \<Rightarrow>
               (case sd_ptr d1 ! nat k of
                  None \<Rightarrow> (None, d1)
                | Some p \<Rightarrow> if a_exists a then (Some p, d1) else (None, snd (shared_unmap N k d1))))"

definition shared_close :: "vme_ans \<Rightarrow> shared_drv \<Rightarrow> int \<times> shared_drv" where
  "shared_close a d =
     (if \<not> sd_handle d then (-1, d)
      else let d1 = sd_log [(WUnmap 0, a_unmap a)] d;
               d2 = (if a_unmap a then d1 else sd_log [(WRelease 0, a_release_err a)] d1);
               d3 = (sd_log [(WRelease 0, a_release a)] d2)\<lparr>sd_handle := False, sd_ptr := map (\<lambda>_. None) (sd_ptr d2)\<rparr>
           in (if a_term a then 0 else -1, sd_log [(VTerm, a_term a)] d3))"

definition V1190_MAX_N_MODULES :: nat where "V1190_MAX_N_MODULES = 32"
definition V1190_BASE_INI :: nat where "V1190_BASE_INI = 0xEE000000"
definition V1190_BASE_INC :: nat where "V1190_BASE_INC = 0x00010000"
definition MADC32_MAX_N_MODULES :: nat where "MADC32_MAX_N_MODULES = 32"
definition MADC32_BASE_INI :: nat where "MADC32_BASE_INI = 0x32000000"
definition MADC32_BASE_INC :: nat where "MADC32_BASE_INC = 0x00010000"
definition MQDC32_MAX_N_MODULES :: nat where "MQDC32_MAX_N_MODULES = 32"
definition MQDC32_BASE_INI :: nat where "MQDC32_BASE_INI = 0x34000000"
definition MQDC32_BASE_INC :: nat where "MQDC32_BASE_INC = 0x00010000"
definition MYRIAD_BASE :: nat where "MYRIAD_BASE = 0x550000"
definition MYRIAD_SIZE :: nat where "MYRIAD_SIZE = 0x010000"

definition v1190_map :: "vme_ans \<Rightarrow> int \<Rightarrow> shared_drv \<Rightarrow> nat option \<times> shared_drv" where
  "v1190_map = shared_map V1190_MAX_N_MODULES V1190_BASE_INI V1190_BASE_INC"

definition v1190_unmap :: "int \<Rightarrow> shared_drv \<Rightarrow> int \<times> shared_drv" where
  "v1190_unmap = shared_unmap V1190_MAX_N_MODULES"

definition v1190_close :: "vme_ans \<Rightarrow> shared_drv \<Rightarrow> int \<times> shared_drv" where
  "v1190_close = shared_close"

text \<open>\<^verbatim>\<open>madc32_check_existence\<close> and \<^verbatim>\<open>mqdc32_check_existence\<close> always say yes.\<close>

definition madc32_map :: "vme_ans \<Rightarrow> int \<Rightarrow> shared_drv \<Rightarrow> nat option \<times> shared_drv" where
  "madc32_map a = shared_map MADC32_MAX_N_MODULES MADC32_BASE_INI MADC32_BASE_INC (a\<lparr>a_exists := True\<rparr>)"

definition madc32_unmap :: "int \<Rightarrow> shared_drv \<Rightarrow> int \<times> shared_drv" where
  "madc32_unmap = shared_unmap MADC32_MAX_N_MODULES"

definition madc32_close :: "vme_ans \<Rightarrow> shared_drv \<Rightarrow> int \<times> shared_drv" where
  "madc32_close = shared_close"

definition mqdc32_map :: "vme_ans \<Rightarrow> int \<Rightarrow> shared_drv \<Rightarrow> nat option \<times> shared_drv" where
  "mqdc32_map a = shared_map MQDC32_MAX_N_MODULES MQDC32_BASE_INI MQDC32_BASE_INC (a\<lparr>a_exists := True\<rparr>)"

definition mqdc32_unmap :: "int \<Rightarrow> shared_drv \<Rightarrow> int \<times> shared_drv" where
  "mqdc32_unmap = shared_unmap MQDC32_MAX_N_MODULES"

definition mqdc32_close :: "vme_ans \<Rightarrow> shared_drv \<Rightarrow> int \<times> shared_drv" where
  "mqdc32_close = shared_close"

text \<open>The MyRIAD is a single module without a check; \<^verbatim>\<open>myriad_close\<close> does nothing.\<close>

definition myriad_map :: "vme_ans \<Rightarrow> shared_drv \<Rightarrow> nat option \<times> shared_drv" where
  "myriad_map a = shared_map 1 MYRIAD_BASE MYRIAD_SIZE (a\<lparr>a_exists := True\<rparr>) 0"

definition myriad_unmap :: "vme_ans \<Rightarrow> shared_drv \<Rightarrow> int \<times> shared_drv" where
  "myriad_unmap a d =
     (if \<not> sd_handle d then (-1, d)
      else let d1 = (if sd_ptr d ! 0 = None then d else sd_log [(WUnmap 0, a_unmap a)] d)
           in (0, (sd_log [(WRelease 0, a_release a)] d1)\<lparr>sd_handle := False, sd_ptr := [None]\<rparr>))"

definition myriad_close :: "shared_drv \<Rightarrow> int \<times> shared_drv" where
  "myriad_close d = (0, d)"

section \<open>One window for each module\<close>

record single_drv =
  md_handle :: "bool list"
  md_ptr :: "nat option list"
  md_trace :: "(vme_call \<times> bool) list"

definition md_log :: "(vme_call \<times> bool) list \<Rightarrow> single_drv \<Rightarrow> single_drv" where
  "md_log cs d = d\<lparr>md_trace := md_trace d @ cs\<rparr>"

definition single_boot :: "nat \<Rightarrow> single_drv" where
  "single_boot N = \<lparr>md_handle = replicate N False, md_ptr = replicate N None, md_trace = []\<rparr>"

definition single_open :: "bool \<Rightarrow> single_drv \<Rightarrow> int \<times> single_drv" where
  "single_open r d = (if r then 0 else -1, md_log [(VInit, r)] d)"

definition single_unmap :: "nat \<Rightarrow> vme_ans \<Rightarrow> int \<Rightarrow> single_drv \<Rightarrow> int \<times> single_drv" where
  "single_unmap N a k d =
     (if k < 0 \<or> int N \<le> k then (-1, d)
      else if \<not> md_handle d ! nat k then (-1, d)
      else if \<not> a_unmap a then (-1, md_log [(WUnmap (nat k), False), (WRelease (nat k), a_release_err a)] d)
      else if \<not> a_release a then (-1, md_log [(WUnmap (nat k), True), (WRelease (nat k), False)] d)
      else (0, (md_log [(WUnmap (nat k), True), (WRelease (nat k), True)] d)\<lparr>md_handle := (md_handle d)[nat k := False]\<rparr>))"

definition single_map :: "nat \<Rightarrow> (nat \<Rightarrow> nat) \<Rightarrow> nat \<Rightarrow> vme_ans \<Rightarrow> int \<Rightarrow> single_drv \<Rightarrow> nat option \<times> single_drv" where
  "single_map N base sz a k d =
     (if k < 0 \<or> int N \<le> k then (None, d)
      else if md_handle d ! nat k then (None, d)
      else if \<not> a_create a then (None, md_log [(WCreate (nat k) (base (nat k)) sz, False), (VTerm, a_term a)] d)
      else let d1 = (md_log [(WCreate (nat k) (base (nat k)) sz, True)] d)\<lparr>md_handle := (md_handle d)[nat k := True]\<rparr>
           in case a_map a of
                None \<Rightarrow> (None, md_log [(WMap (nat k), False), (WRelease (nat k), a_release a), (VTerm, a_term a)]
                          (d1\<lparr>md_ptr := (md_ptr d1)[nat k := None]\<rparr>))
              | Some p \<Rightarrow>
                  let d2 = md_log [(WMap (nat k), True)] (d1\<lparr>md_ptr := (md_ptr d1)[nat k := Some p]\<rparr>)
                  in if a_exists a then (Some p, d2) else (None, snd (single_unmap N a k d2)))"

definition single_close :: "nat \<Rightarrow> (nat \<Rightarrow> vme_ans) \<Rightarrow> single_drv \<Rightarrow> int \<times> single_drv" where
  "single_close N a d =
     (let d1 = fold (\<lambda>k d. if md_handle d ! k then snd (single_unmap N (a k) (int k) d) else d) [0 ..< N] d
      in (if a_term (a N) then 0 else -1, md_log [(VTerm, a_term (a N))] d1))"

definition V830_MAX_N_MODULES :: nat where "V830_MAX_N_MODULES = 64"
definition V830_BASE :: "nat \<Rightarrow> nat" where "V830_BASE k = 0xC0C00000 + 0x00010000 * k"
definition V830_SIZE :: nat where "V830_SIZE = 0x001200"
definition V977_MAX_N_MODULES :: nat where "V977_MAX_N_MODULES = 64"
definition V977_BASE :: "nat \<Rightarrow> nat" where "V977_BASE k = 0xD0000000 + 0x00010000 * k"
definition V977_SIZE :: nat where "V977_SIZE = 0x0030"

definition v830_map :: "vme_ans \<Rightarrow> int \<Rightarrow> single_drv \<Rightarrow> nat option \<times> single_drv" where
  "v830_map = single_map V830_MAX_N_MODULES V830_BASE V830_SIZE"

definition v830_unmap :: "vme_ans \<Rightarrow> int \<Rightarrow> single_drv \<Rightarrow> int \<times> single_drv" where
  "v830_unmap = single_unmap V830_MAX_N_MODULES"

definition v830_close :: "(nat \<Rightarrow> vme_ans) \<Rightarrow> single_drv \<Rightarrow> int \<times> single_drv" where
  "v830_close = single_close V830_MAX_N_MODULES"

definition v977_map :: "vme_ans \<Rightarrow> int \<Rightarrow> single_drv \<Rightarrow> nat option \<times> single_drv" where
  "v977_map = single_map V977_MAX_N_MODULES V977_BASE V977_SIZE"

definition v977_unmap :: "vme_ans \<Rightarrow> int \<Rightarrow> single_drv \<Rightarrow> int \<times> single_drv" where
  "v977_unmap = single_unmap V977_MAX_N_MODULES"

definition v977_close :: "(nat \<Rightarrow> vme_ans) \<Rightarrow> single_drv \<Rightarrow> int \<times> single_drv" where
  "v977_close = single_close V977_MAX_N_MODULES"

section \<open>The contract of the libraries\<close>

text \<open>Answers of a bus without faults; a module may still be missing.\<close>

definition no_fault :: "vme_ans \<Rightarrow> bool" where
  "no_fault a \<longleftrightarrow> a_create a \<and> a_map a \<noteq> None \<and> a_unmap a \<and> a_release a \<and> a_term a"

text \<open>Calls a program makes between opening and closing a library.\<close>

datatype drv_call = DMap vme_ans int | DUnmap vme_ans int

fun drv_faultless :: "drv_call \<Rightarrow> bool" where
  "drv_faultless (DMap a k) = no_fault a"
| "drv_faultless (DUnmap a k) = no_fault a"

fun drv_do :: "(vme_ans \<Rightarrow> int \<Rightarrow> 'd \<Rightarrow> nat option \<times> 'd) \<Rightarrow> (vme_ans \<Rightarrow> int \<Rightarrow> 'd \<Rightarrow> int \<times> 'd) \<Rightarrow> drv_call \<Rightarrow> 'd \<Rightarrow> 'd" where
  "drv_do mp um (DMap a k) d = snd (mp a k d)"
| "drv_do mp um (DUnmap a k) d = snd (um a k d)"

text \<open>The loop of \<^verbatim>\<open>main\<close> over the module numbers: the pointers, or \<open>None\<close> at the first module that cannot be mapped.\<close>

fun map_modules :: "(vme_ans \<Rightarrow> int \<Rightarrow> 'd \<Rightarrow> nat option \<times> 'd) \<Rightarrow> (nat \<Rightarrow> vme_ans) \<Rightarrow> nat \<Rightarrow> int list \<Rightarrow> 'd \<Rightarrow> nat list option \<times> 'd" where
  "map_modules mp as i [] d = (Some [], d)"
| "map_modules mp as i (k # ks) d =
     (case mp (as i) k d of
        (None, d1) \<Rightarrow> (None, d1)
      | (Some p, d1) \<Rightarrow>
          (case map_modules mp as (Suc i) ks d1 of
             (None, d2) \<Rightarrow> (None, d2)
           | (Some ps, d2) \<Rightarrow> (Some (p # ps), d2)))"

locale window_driver =
  fixes map_op :: "vme_ans \<Rightarrow> int \<Rightarrow> 'd \<Rightarrow> nat option \<times> 'd" and unmap_op :: "vme_ans \<Rightarrow> int \<Rightarrow> 'd \<Rightarrow> int \<times> 'd"
    and close_op :: "(nat \<Rightarrow> vme_ans) \<Rightarrow> 'd \<Rightarrow> int \<times> 'd" and trace :: "'d \<Rightarrow> (vme_call \<times> bool) list"
    and inv :: "'d \<Rightarrow> bool"
  assumes map_inv: "no_fault a \<Longrightarrow> inv d \<Longrightarrow> inv (snd (map_op a k d))"
    and unmap_inv: "no_fault a \<Longrightarrow> inv d \<Longrightarrow> inv (snd (unmap_op a k d))"
    and inv_legal: "inv d \<Longrightarrow> \<exists>B. vme_run vme_boot (trace d) = Some B \<and> b_open B"
    and close_clean: "inv d \<Longrightarrow> (\<forall>k. no_fault (as k)) \<Longrightarrow>
      \<exists>B. vme_run vme_boot (trace (snd (close_op as d))) = Some B \<and> b_win B = (\<lambda>_. None)"
begin

lemma calls_inv: "inv d \<Longrightarrow> list_all drv_faultless cs \<Longrightarrow> inv (fold (drv_do map_op unmap_op) cs d)"
proof (induction cs arbitrary: d)
  case (Cons c cs)
  then show ?case
    by (cases c) (simp_all add: map_inv unmap_inv)
qed simp

lemma calls_then_close:
  assumes "inv d" and "list_all drv_faultless cs" and "\<forall>k. no_fault (as k)"
  shows "\<exists>B. vme_run vme_boot (trace (snd (close_op as (fold (drv_do map_op unmap_op) cs d)))) = Some B \<and> b_win B = (\<lambda>_. None)"
  by (rule close_clean [OF calls_inv [OF assms(1,2)] assms(3)])

lemma map_modules_inv:
  "inv d \<Longrightarrow> (\<forall>i. no_fault (as i)) \<Longrightarrow> map_modules map_op as i ks d = (r, d') \<Longrightarrow> inv d'"
proof (induction ks arbitrary: i d r d')
  case (Cons k ks)
  from map_inv [OF spec [OF Cons.prems(2)] Cons.prems(1), of i k] have "inv (snd (map_op (as i) k d))" .
  with Cons.prems(3) Cons.IH [OF _ Cons.prems(2)] show ?case
    by (fastforce split: prod.splits option.splits)
qed simp

end

lemma vme_run_append: "vme_run B (cs @ ds) = Option.bind (vme_run B cs) (\<lambda>B'. vme_run B' ds)"
  by (induction cs arbitrary: B) (auto split: bind_splits)

lemma vme_run_prefix_None: "vme_run B cs = None \<Longrightarrow> vme_run B (cs @ ds) = None"
  by (simp add: vme_run_append)

subsection \<open>Libraries with one window\<close>

definition shared_bus :: "bool \<Rightarrow> vbus" where
  "shared_bus h = \<lparr>b_open = True, b_win = (\<lambda>_. None)(0 := if h then Some True else None)\<rparr>"

definition shared_inv :: "nat \<Rightarrow> nat \<Rightarrow> shared_drv \<Rightarrow> bool" where
  "shared_inv N inc d \<longleftrightarrow> vme_run vme_boot (sd_trace d) = Some (shared_bus (sd_handle d)) \<and>
     (if sd_handle d then (\<exists>p. sd_ptr d = map (\<lambda>i. Some (p + inc * i)) [0 ..< N]) else sd_ptr d = replicate N None)"

lemma shared_bus_steps:
  "vme_run (shared_bus False) [(WCreate 0 base n, True), (WMap 0, True)] = Some (shared_bus True)"
  "vme_run (shared_bus True) [(WUnmap 0, True), (WRelease 0, True)] = Some (shared_bus False)"
  by (simp_all add: shared_bus_def)

lemma shared_open_inv: "shared_inv N inc (snd (shared_open True (shared_boot N)))"
  by (simp add: shared_inv_def shared_open_def shared_boot_def sd_log_def vme_boot_def shared_bus_def fun_eq_iff)

lemma shared_window_good:
  assumes "no_fault a" and "shared_inv N inc d"
  shows "\<exists>d1. shared_window N base inc a d = (True, d1) \<and> shared_inv N inc d1 \<and> sd_handle d1"
proof (cases "sd_handle d")
  case True
  with assms(2) show ?thesis by (simp add: shared_window_def)
next
  case False
  from assms(1) obtain p where p: "a_create a" "a_map a = Some p"
    by (auto simp: no_fault_def)
  with False assms(2) shared_bus_steps(1) [of base "inc * N"] show ?thesis
    by (auto simp: shared_window_def shared_inv_def sd_log_def vme_run_append simp del: vme_run.simps)
qed

lemma shared_map_good:
  assumes "no_fault a" and "shared_inv N inc d"
  shows "shared_inv N inc (snd (shared_map N base inc a k d))"
    and "0 \<le> k \<Longrightarrow> k < int N \<Longrightarrow> \<exists>d1 p. shared_map N base inc a k d = (if a_exists a then Some (p + inc * nat k) else None, d1) \<and>
      shared_inv N inc d1 \<and> sd_handle d1 \<and> sd_ptr d1 = map (\<lambda>i. Some (p + inc * i)) [0 ..< N]"
proof -
  from shared_window_good [OF assms, of base] obtain d1 where
    d1: "shared_window N base inc a d = (True, d1)" "shared_inv N inc d1" "sd_handle d1"
    by blast
  then obtain p where p: "sd_ptr d1 = map (\<lambda>i. Some (p + inc * i)) [0 ..< N]"
    by (auto simp: shared_inv_def)
  have r: "shared_map N base inc a k d = (if a_exists a then Some (p + inc * nat k) else None, d1)" if "0 \<le> k" "k < int N"
  proof -
    have "nat k < N" using that by linarith
    with that d1 p show ?thesis
      by (simp add: shared_map_def shared_unmap_def)
  qed
  then show "0 \<le> k \<Longrightarrow> k < int N \<Longrightarrow> \<exists>d1 p. shared_map N base inc a k d = (if a_exists a then Some (p + inc * nat k) else None, d1) \<and>
      shared_inv N inc d1 \<and> sd_handle d1 \<and> sd_ptr d1 = map (\<lambda>i. Some (p + inc * i)) [0 ..< N]"
    using d1 p by blast
  show "shared_inv N inc (snd (shared_map N base inc a k d))"
  proof (cases "0 \<le> k \<and> k < int N")
    case True
    with r d1(2) show ?thesis by simp
  next
    case False
    then have "shared_map N base inc a k d = (None, d)"
      by (auto simp: shared_map_def)
    with assms(2) show ?thesis by simp
  qed
qed

lemma shared_map_out_of_range: "k < 0 \<or> int N \<le> k \<Longrightarrow> shared_map N base inc a k d = (None, d)"
  by (simp add: shared_map_def)

lemma shared_close_good:
  assumes "no_fault a" and "shared_inv N inc d"
  shows "\<exists>B. vme_run vme_boot (sd_trace (snd (shared_close a d))) = Some B \<and> b_win B = (\<lambda>_. None) \<and>
    (fst (shared_close a d) = 0 \<longleftrightarrow> sd_handle d) \<and> (b_open B \<longleftrightarrow> \<not> sd_handle d)"
proof (cases "sd_handle d")
  case True
  let ?B = "\<lparr>b_open = False, b_win = \<lambda>_. None\<rparr>"
  have "vme_run (shared_bus True) [(WUnmap 0, True), (WRelease 0, True), (VTerm, True)] = Some ?B"
    by (simp add: shared_bus_def)
  with True assms have "vme_run vme_boot (sd_trace (snd (shared_close a d))) = Some ?B" "fst (shared_close a d) = 0"
    by (simp_all add: shared_close_def shared_inv_def no_fault_def sd_log_def vme_run_append Let_def del: vme_run.simps)
  with True show ?thesis by simp
next
  case False
  with assms(2) show ?thesis
    by (simp add: shared_close_def shared_inv_def shared_bus_def)
qed

interpretation v1190_lib: window_driver v1190_map "\<lambda>_. v1190_unmap" "\<lambda>as. v1190_close (as 0)" sd_trace
    "shared_inv V1190_MAX_N_MODULES V1190_BASE_INC"
proof unfold_locales
  fix d and as :: "nat \<Rightarrow> vme_ans"
  assume "shared_inv V1190_MAX_N_MODULES V1190_BASE_INC d" "\<forall>k. no_fault (as k)"
  then show "\<exists>B. vme_run vme_boot (sd_trace (snd (v1190_close (as 0) d))) = Some B \<and> b_win B = (\<lambda>_. None)"
    unfolding v1190_close_def using shared_close_good by blast
qed (simp_all add: v1190_map_def v1190_unmap_def shared_map_good(1) shared_unmap_def, simp add: shared_inv_def shared_bus_def)

lemma no_fault_exists [simp]: "no_fault (a\<lparr>a_exists := e\<rparr>) = no_fault a"
  by (simp add: no_fault_def)

interpretation madc32_lib: window_driver madc32_map "\<lambda>_. madc32_unmap" "\<lambda>as. madc32_close (as 0)" sd_trace
    "shared_inv MADC32_MAX_N_MODULES MADC32_BASE_INC"
proof unfold_locales
  fix d and as :: "nat \<Rightarrow> vme_ans"
  assume "shared_inv MADC32_MAX_N_MODULES MADC32_BASE_INC d" "\<forall>k. no_fault (as k)"
  then show "\<exists>B. vme_run vme_boot (sd_trace (snd (madc32_close (as 0) d))) = Some B \<and> b_win B = (\<lambda>_. None)"
    unfolding madc32_close_def using shared_close_good by blast
qed (simp_all add: madc32_map_def madc32_unmap_def shared_map_good(1) shared_unmap_def, simp add: shared_inv_def shared_bus_def)

interpretation mqdc32_lib: window_driver mqdc32_map "\<lambda>_. mqdc32_unmap" "\<lambda>as. mqdc32_close (as 0)" sd_trace
    "shared_inv MQDC32_MAX_N_MODULES MQDC32_BASE_INC"
proof unfold_locales
  fix d and as :: "nat \<Rightarrow> vme_ans"
  assume "shared_inv MQDC32_MAX_N_MODULES MQDC32_BASE_INC d" "\<forall>k. no_fault (as k)"
  then show "\<exists>B. vme_run vme_boot (sd_trace (snd (mqdc32_close (as 0) d))) = Some B \<and> b_win B = (\<lambda>_. None)"
    unfolding mqdc32_close_def using shared_close_good by blast
qed (simp_all add: mqdc32_map_def mqdc32_unmap_def shared_map_good(1) shared_unmap_def, simp add: shared_inv_def shared_bus_def)

subsection \<open>Libraries with a window for each module\<close>

definition single_bus :: "bool list \<Rightarrow> vbus" where
  "single_bus hs = \<lparr>b_open = True, b_win = (\<lambda>w. if w < length hs \<and> hs ! w then Some True else None)\<rparr>"

definition single_inv :: "nat \<Rightarrow> single_drv \<Rightarrow> bool" where
  "single_inv N d \<longleftrightarrow> vme_run vme_boot (md_trace d) = Some (single_bus (md_handle d)) \<and>
     length (md_handle d) = N \<and> length (md_ptr d) = N"

lemma single_bus_steps:
  assumes "k < length hs"
  shows "\<not> hs ! k \<Longrightarrow> vme_run (single_bus hs) [(WCreate k base n, True), (WMap k, True)] = Some (single_bus (hs[k := True]))"
    and "hs ! k \<Longrightarrow> vme_run (single_bus hs) [(WUnmap k, True), (WRelease k, True)] = Some (single_bus (hs[k := False]))"
  using assms by (auto simp: single_bus_def fun_eq_iff nth_list_update)

lemma single_open_inv: "single_inv N (snd (single_open True (single_boot N)))"
  by (auto simp: single_inv_def single_open_def single_boot_def md_log_def vme_boot_def single_bus_def fun_eq_iff)

lemma single_unmap_good:
  assumes "no_fault a" and "single_inv N d"
  shows "single_inv N (snd (single_unmap N a k d))"
    and "0 \<le> k \<Longrightarrow> k < int N \<Longrightarrow> md_handle (snd (single_unmap N a k d)) = (md_handle d)[nat k := False]"
    and "fst (single_unmap N a k d) = (if 0 \<le> k \<and> k < int N \<and> md_handle d ! nat k then 0 else -1)"
proof -
  have "nat k < length (md_handle d)" if "0 \<le> k" "k < int N"
    using that assms(2) by (simp add: single_inv_def nat_less_iff)
  with single_bus_steps(2) [of "nat k" "md_handle d"] assms show "single_inv N (snd (single_unmap N a k d))"
    by (auto simp: single_unmap_def single_inv_def no_fault_def md_log_def vme_run_append simp del: vme_run.simps)
  have "(md_handle d)[nat k := False] = md_handle d" if "\<not> md_handle d ! nat k"
    using that list_update_id [of "md_handle d" "nat k"] by simp
  then show "0 \<le> k \<Longrightarrow> k < int N \<Longrightarrow> md_handle (snd (single_unmap N a k d)) = (md_handle d)[nat k := False]"
    using assms(1) by (auto simp: single_unmap_def no_fault_def md_log_def)
  show "fst (single_unmap N a k d) = (if 0 \<le> k \<and> k < int N \<and> md_handle d ! nat k then 0 else -1)"
    using assms(1) by (auto simp: single_unmap_def no_fault_def)
qed

lemma single_map_good:
  assumes "no_fault a" and "single_inv N d"
  shows "single_inv N (snd (single_map N base sz a k d))"
    and "0 \<le> k \<Longrightarrow> k < int N \<Longrightarrow> \<not> md_handle d ! nat k \<Longrightarrow>
      (\<exists>d1. single_map N base sz a k d = (if a_exists a then a_map a else None, d1) \<and> md_handle d1 = (md_handle d)[nat k := a_exists a])"
proof -
  from assms(1) obtain p where p: "a_create a" "a_map a = Some p"
    by (auto simp: no_fault_def)
  define d1 where "d1 = d\<lparr>md_handle := (md_handle d)[nat k := True], md_ptr := (md_ptr d)[nat k := Some p],
    md_trace := md_trace d @ [(WCreate (nat k) (base (nat k)) sz, True), (WMap (nat k), True)]\<rparr>"
  have r: "single_map N base sz a k d = (if a_exists a then (Some p, d1) else (None, snd (single_unmap N a k d1)))"
    if "0 \<le> k" "k < int N" "\<not> md_handle d ! nat k"
    using that p by (simp add: single_map_def d1_def md_log_def Let_def)
  have i1: "single_inv N d1" if "0 \<le> k" "k < int N" "\<not> md_handle d ! nat k"
    using that assms(2) single_bus_steps(1) [of "nat k" "md_handle d" "base (nat k)" sz]
    by (simp add: single_inv_def d1_def vme_run_append nat_less_iff del: vme_run.simps)
  show "\<exists>d1. single_map N base sz a k d = (if a_exists a then a_map a else None, d1) \<and> md_handle d1 = (md_handle d)[nat k := a_exists a]"
    if k: "0 \<le> k" "k < int N" "\<not> md_handle d ! nat k"
    using r [OF k] p single_unmap_good(2) [OF assms(1) i1 [OF k] k(1,2)] by (auto simp: d1_def)
  show "single_inv N (snd (single_map N base sz a k d))"
  proof (cases "0 \<le> k \<and> k < int N \<and> \<not> md_handle d ! nat k")
    case True
    with r i1 single_unmap_good(1) [OF assms(1) i1] show ?thesis by simp
  next
    case False
    then have "single_map N base sz a k d = (None, d)"
      by (auto simp: single_map_def)
    with assms(2) show ?thesis by simp
  qed
qed

lemma single_close_loop:
  assumes "single_inv N d" and "\<forall>k. no_fault (as k)" and "j \<le> N"
  shows "\<exists>d1. fold (\<lambda>k d. if md_handle d ! k then snd (single_unmap N (as k) (int k) d) else d) [0 ..< j] d = d1 \<and>
    single_inv N d1 \<and> (\<forall>k < j. \<not> md_handle d1 ! k)"
  using assms(3)
proof (induction j)
  case 0
  with assms(1) show ?case by simp
next
  case (Suc j)
  then obtain d1 where d1: "fold (\<lambda>k d. if md_handle d ! k then snd (single_unmap N (as k) (int k) d) else d) [0 ..< j] d = d1"
    "single_inv N d1" "\<forall>k < j. \<not> md_handle d1 ! k"
    by auto
  have l: "length (md_handle d1) = N"
    using d1(2) by (simp add: single_inv_def)
  from d1 single_unmap_good(1,2) [of "as j" N d1 "int j"] assms(2) Suc.prems l show ?case
    by (auto simp: less_Suc_eq nth_list_update)
qed

lemma single_close_good:
  assumes "single_inv N d" and "\<forall>k. no_fault (as k)"
  shows "vme_run vme_boot (md_trace (snd (single_close N as d))) = Some \<lparr>b_open = False, b_win = \<lambda>_. None\<rparr> \<and>
    fst (single_close N as d) = 0"
proof -
  from single_close_loop [OF assms, of N] obtain d1 where
    d1: "fold (\<lambda>k d. if md_handle d ! k then snd (single_unmap N (as k) (int k) d) else d) [0 ..< N] d = d1"
    "single_inv N d1" "\<forall>k < N. \<not> md_handle d1 ! k"
    by auto
  then have "single_bus (md_handle d1) = \<lparr>b_open = True, b_win = \<lambda>_. None\<rparr>"
    by (auto simp: single_bus_def single_inv_def)
  with d1 assms(2) show ?thesis
    by (simp add: single_close_def md_log_def vme_run_append single_inv_def no_fault_def)
qed

interpretation v830_lib: window_driver v830_map v830_unmap v830_close md_trace "single_inv V830_MAX_N_MODULES"
  by unfold_locales
    (simp_all add: v830_map_def v830_unmap_def v830_close_def single_map_good(1) single_unmap_good(1) single_close_good,
     simp add: single_inv_def single_bus_def)

interpretation v977_lib: window_driver v977_map v977_unmap v977_close md_trace "single_inv V977_MAX_N_MODULES"
  by unfold_locales
    (simp_all add: v977_map_def v977_unmap_def v977_close_def single_map_good(1) single_unmap_good(1) single_close_good,
     simp add: single_inv_def single_bus_def)

section \<open>Start and end of the acquisition program\<close>

text \<open>The registers written when the I/O register and the scaler are set up.\<close>

datatype init_reg = V977_control_register int | V977_input_set int | V977_input_mask int | V977_output_mask int
  | V977_clear_output int | V977_output_set int | V977_test_control_register int
  | V830_controlRegister int | V830_channelEnableRegister "32 word" | V830_geoRegister int

definition V977_MODULE_NUMBER :: int where "V977_MODULE_NUMBER = 0"
definition V830_MODULE_NUMBER :: int where "V830_MODULE_NUMBER = 0"

definition v977_init :: "bool \<Rightarrow> vme_ans \<Rightarrow> single_drv \<Rightarrow> (int \<times> init_reg list) \<times> single_drv" where
  "v977_init r a d =
     (case single_open r d of
        (e, d1) \<Rightarrow>
          if e \<noteq> 0 then ((-1, []), d1)
          else case v977_map a V977_MODULE_NUMBER d1 of
                 (None, d2) \<Rightarrow> ((-1, []), d2)
               | (Some p, d2) \<Rightarrow>
                   ((0, [V977_control_register 0x0002, V977_input_set 0, V977_input_mask 0, V977_output_mask 0x01, V977_clear_output 0,
                         V977_output_set (push_bit IOREG_CH_DAQ_INHIBIT 1), V977_test_control_register 0]), d2))"

definition v977_exit :: "(nat \<Rightarrow> vme_ans) \<Rightarrow> single_drv \<Rightarrow> int \<times> single_drv" where
  "v977_exit as d =
     (case v977_unmap (as 0) V977_MODULE_NUMBER d of
        (e, d1) \<Rightarrow> if e \<noteq> 0 then (-1, d1) else (case v977_close as d1 of (e2, d2) \<Rightarrow> (if e2 \<noteq> 0 then -1 else 0, d2)))"

definition channel_mask :: "nat \<Rightarrow> 32 word" where
  "channel_mask n = fold (\<lambda>i m. m OR push_bit i 1) [0 ..< n] 0"

definition v830_init :: "bool \<Rightarrow> vme_ans \<Rightarrow> nat \<Rightarrow> single_drv \<Rightarrow> (int \<times> init_reg list) \<times> single_drv" where
  "v830_init r a n d =
     (case single_open r d of
        (e, d1) \<Rightarrow>
          if e \<noteq> 0 then ((-1, []), d1)
          else case v830_map a V830_MODULE_NUMBER d1 of
                 (None, d2) \<Rightarrow> ((-1, []), d2)
               | (Some p, d2) \<Rightarrow>
                   ((0, [V830_controlRegister (0x0040 OR 0x0020 OR 0x0000 OR 0x0001), V830_channelEnableRegister (channel_mask n),
                         V830_geoRegister 0]), d2))"

definition v830_exit :: "(nat \<Rightarrow> vme_ans) \<Rightarrow> single_drv \<Rightarrow> int \<times> single_drv" where
  "v830_exit as d =
     (case v830_unmap (as 0) V830_MODULE_NUMBER d of
        (e, d1) \<Rightarrow> if e \<noteq> 0 then (-1, d1) else (case v830_close as d1 of (e2, d2) \<Rightarrow> (if e2 \<noteq> 0 then -1 else 0, d2)))"

text \<open>
  The section of \<^verbatim>\<open>main\<close> for a library with one window: the number of modules, the numbers of the modules and the loop that
  maps them. A module that cannot be mapped ends the program: the V1190 library is closed before, in the sections of the
  other two the pointer is used before it is tested.
\<close>

datatype start_end = Up | Failed | Segv

fun module_numbers :: "string \<Rightarrow> nat \<Rightarrow> nat \<Rightarrow> config \<Rightarrow> int list \<times> config" where
  "module_numbers nm i 0 c = ([], c)"
| "module_numbers nm i (Suc n) c =
     (case config_get_l_value nm (int i) (int i) c of
        (k, c1) \<Rightarrow> (case module_numbers nm (Suc i) n c1 of (ks, c2) \<Rightarrow> (c_int k # ks, c2)))"

definition modules_of :: "string \<Rightarrow> string \<Rightarrow> nat \<Rightarrow> config \<Rightarrow> int list option \<times> config" where
  "modules_of cnt nm N c =
     (case config_get_l_value cnt 0 0 c of
        (l, c1) \<Rightarrow>
          let n = c_int l
          in if n < 0 \<or> int N < n then (None, c1)
             else (case module_numbers nm 0 (nat n) c1 of (ks, c2) \<Rightarrow> (Some ks, c2)))"

definition v1190_start :: "bool \<Rightarrow> (nat \<Rightarrow> vme_ans) \<Rightarrow> vme_ans \<Rightarrow> config \<Rightarrow> shared_drv \<Rightarrow> start_end \<times> nat list \<times> config \<times> shared_drv" where
  "v1190_start r as ac c d =
     (case shared_open r d of
        (e, d1) \<Rightarrow>
          if e \<noteq> 0 then (Failed, [], c, d1)
          else case modules_of ''v1190_n_modules'' ''v1190_module'' V1190_MAX_N_MODULES c of
                 (None, c1) \<Rightarrow> (Failed, [], c1, d1)
               | (Some ks, c1) \<Rightarrow>
                   (case map_modules v1190_map as 0 ks d1 of
                      (None, d2) \<Rightarrow> (Failed, [], c1, snd (v1190_close ac d2))
                    | (Some ps, d2) \<Rightarrow> (Up, ps, c1, d2)))"

definition madc32_start :: "bool \<Rightarrow> (nat \<Rightarrow> vme_ans) \<Rightarrow> config \<Rightarrow> shared_drv \<Rightarrow> start_end \<times> nat list \<times> config \<times> shared_drv" where
  "madc32_start r as c d =
     (case shared_open r d of
        (e, d1) \<Rightarrow>
          if e \<noteq> 0 then (Failed, [], c, d1)
          else case modules_of ''madc32_n_modules'' ''madc32_module'' MADC32_MAX_N_MODULES c of
                 (None, c1) \<Rightarrow> (Failed, [], c1, d1)
               | (Some ks, c1) \<Rightarrow>
                   (case map_modules madc32_map as 0 ks d1 of
                      (None, d2) \<Rightarrow> (Segv, [], c1, d2)
                    | (Some ps, d2) \<Rightarrow> (Up, ps, c1, d2)))"

definition mqdc32_start :: "bool \<Rightarrow> (nat \<Rightarrow> vme_ans) \<Rightarrow> config \<Rightarrow> shared_drv \<Rightarrow> start_end \<times> nat list \<times> config \<times> shared_drv" where
  "mqdc32_start r as c d =
     (case shared_open r d of
        (e, d1) \<Rightarrow>
          if e \<noteq> 0 then (Failed, [], c, d1)
          else case modules_of ''mqdc32_n_modules'' ''mqdc32_module'' MQDC32_MAX_N_MODULES c of
                 (None, c1) \<Rightarrow> (Failed, [], c1, d1)
               | (Some ks, c1) \<Rightarrow>
                   (case map_modules mqdc32_map as 0 ks d1 of
                      (None, d2) \<Rightarrow> (Segv, [], c1, d2)
                    | (Some ps, d2) \<Rightarrow> (Up, ps, c1, d2)))"

text \<open>The end of \<^verbatim>\<open>main\<close>: the results of the closing functions, for the libraries in the order they are closed.\<close>

record drivers =
  d_v1190 :: shared_drv
  d_madc32 :: shared_drv
  d_mqdc32 :: shared_drv
  d_v830 :: single_drv
  d_v977 :: single_drv
  d_myriad :: shared_drv

record daq_modules =
  m_v1190 :: "int list"
  m_madc32 :: "int list"
  m_mqdc32 :: "int list"
  m_myriad :: nat

text \<open>
  \<^verbatim>\<open>myriad_exit\<close> after \<^verbatim>\<open>myriad_unmap\<close>; the variable \<^verbatim>\<open>myriad\<close> of \<^verbatim>\<open>vmedaq.c\<close> is still set and the window is already
  gone. The list has the results of \<^verbatim>\<open>myriad_unmap\<close> and of \<^verbatim>\<open>myriad_exit\<close>.
\<close>

definition myriad_end :: "vme_ans \<Rightarrow> nat \<Rightarrow> shared_drv \<Rightarrow> int list \<times> shared_drv" where
  "myriad_end a n d =
     (if n = 0 then ([], d)
      else case myriad_unmap a d of
             (e, d1) \<Rightarrow>
               (case myriad_unmap a d1 of
                  (e2, d2) \<Rightarrow> ([e, if e2 \<noteq> 0 then -1 else fst (myriad_close d2)], d2)))"

definition daq_end :: "(nat \<Rightarrow> vme_ans) \<Rightarrow> daq_modules \<Rightarrow> drivers \<Rightarrow> int list \<times> drivers" where
  "daq_end as m D =
     (let t = fold (\<lambda>k d. snd (v1190_unmap k d)) (m_v1190 m) (d_v1190 D);
          a = fold (\<lambda>k d. snd (madc32_unmap k d)) (m_madc32 m) (d_madc32 D);
          q = fold (\<lambda>k d. snd (mqdc32_unmap k d)) (m_mqdc32 m) (d_mqdc32 D)
      in case (v1190_close (as 0) t, madc32_close (as 0) a, mqdc32_close (as 0) q, v830_exit as (d_v830 D), v977_exit as (d_v977 D),
               myriad_end (as 0) (m_myriad m) (d_myriad D)) of
           ((e1, t1), (e2, a1), (e3, q1), (e4, s1), (e5, i1), (es, y1)) \<Rightarrow>
             ([e1, e2, e3, e4, e5] @ es, \<lparr>d_v1190 = t1, d_madc32 = a1, d_mqdc32 = q1, d_v830 = s1, d_v977 = i1, d_myriad = y1\<rparr>))"

lemma channel_mask_bit: "n \<le> 32 \<Longrightarrow> bit (channel_mask n) i \<longleftrightarrow> i < n"
proof (induction n)
  case 0
  then show ?case by (simp add: channel_mask_def)
next
  case (Suc n)
  have "channel_mask (Suc n) = channel_mask n OR push_bit n 1"
    by (simp add: channel_mask_def)
  with Suc show ?case
    by (auto simp: bit_simps)
qed

text \<open>The loop over the module numbers, with the window open and from the start.\<close>

definition mappable :: "nat \<Rightarrow> (nat \<Rightarrow> vme_ans) \<Rightarrow> nat \<Rightarrow> int list \<Rightarrow> bool" where
  "mappable N as i ks \<longleftrightarrow> (\<forall>j < length ks. 0 \<le> ks ! j \<and> ks ! j < int N \<and> a_exists (as (i + j)))"

lemma mappable_Nil: "mappable N as i []"
  by (simp add: mappable_def)

lemma mappable_Cons: "mappable N as i (k # ks) \<longleftrightarrow> 0 \<le> k \<and> k < int N \<and> a_exists (as i) \<and> mappable N as (Suc i) ks"
  by (auto simp: mappable_def less_Suc_eq_0_disj nth_Cons' Suc_less_eq2)

lemma shared_map_open:
  assumes "sd_handle d" and "sd_ptr d = map (\<lambda>i. Some (p + inc * i)) [0 ..< N]"
  shows "shared_map N base inc a k d = (if 0 \<le> k \<and> k < int N \<and> a_exists a then Some (p + inc * nat k) else None, d)"
proof -
  have "nat k < N" if "0 \<le> k" "k < int N"
    using that by linarith
  with assms show ?thesis
    by (auto simp: shared_map_def shared_window_def shared_unmap_def)
qed

lemma map_modules_open:
  assumes "sd_handle d" and "sd_ptr d = map (\<lambda>i. Some (p + inc * i)) [0 ..< N]"
  shows "map_modules (shared_map N base inc) as i ks d =
    (if mappable N as i ks then Some (map (\<lambda>k. p + inc * nat k) ks) else None, d)"
proof (induction ks arbitrary: i)
  case (Cons k ks)
  then show ?case
    using shared_map_open [OF assms, of base "as i" k]
    by (simp add: mappable_Cons split: if_splits)
qed (simp add: mappable_Nil)

lemma map_modules_start:
  assumes inv: "shared_inv N inc d" and as: "\<forall>i. no_fault (as i)"
  shows "\<exists>p d'. map_modules (shared_map N base inc) as i ks d =
      (if mappable N as i ks then Some (map (\<lambda>k. p + inc * nat k) ks) else None, d') \<and> shared_inv N inc d'"
proof (cases ks)
  case Nil
  with inv show ?thesis by (simp add: mappable_Nil)
next
  case (Cons k ks')
  show ?thesis
  proof (cases "0 \<le> k \<and> k < int N")
    case False
    then have "shared_map N base inc (as i) k d = (None, d)"
      by (intro shared_map_out_of_range) linarith
    moreover have "\<not> mappable N as i (k # ks')"
      using False by (auto simp: mappable_Cons)
    ultimately show ?thesis
      using inv Cons by simp
  next
    case True
    with shared_map_good(2) [OF spec [OF as] inv, of k base i] obtain d1 p where
      d1: "shared_map N base inc (as i) k d = (if a_exists (as i) then Some (p + inc * nat k) else None, d1)"
      "shared_inv N inc d1" "sd_handle d1" "sd_ptr d1 = map (\<lambda>i. Some (p + inc * i)) [0 ..< N]"
      by auto
    with True Cons map_modules_open [OF d1(3,4), of base as "Suc i" ks'] show ?thesis
      by (intro exI [of _ p] exI [of _ d1]) (simp add: mappable_Cons)
  qed
qed

section \<open>Properties\<close>

text \<open>C29: On a bus without faults the start of the acquisition program either maps every V1190 of the configuration
  file, each pointer at the distance from one common address that the number of the module says, or, when a number is out of
  range or a module is not there, ends after calls that keep to the order of the bus library, with no window left; an invalid number of modules
  ends it without a window ever being made.\<close>

theorem v1190_start_maps_or_closes:
  assumes "\<forall>i. no_fault (as i)" and "no_fault ac"
    and "v1190_start True as ac c (shared_boot V1190_MAX_N_MODULES) = (r, ps, c', d)"
  shows "case fst (modules_of ''v1190_n_modules'' ''v1190_module'' V1190_MAX_N_MODULES c) of
      Some ks \<Rightarrow>
        if mappable V1190_MAX_N_MODULES as 0 ks
        then r = Up \<and> (\<exists>p. ps = map (\<lambda>k. p + V1190_BASE_INC * nat k) ks)
        else r = Failed \<and> (\<exists>B. vme_run vme_boot (sd_trace d) = Some B \<and> b_win B = (\<lambda>_. None))
    | None \<Rightarrow> r = Failed \<and> sd_trace d = [(VInit, True)]"
proof -
  obtain d1 where o: "shared_open True (shared_boot V1190_MAX_N_MODULES) = (0, d1)" "sd_trace d1 = [(VInit, True)]"
    by (simp add: shared_open_def sd_log_def shared_boot_def)
  have inv: "shared_inv V1190_MAX_N_MODULES V1190_BASE_INC d1"
    using shared_open_inv [of V1190_MAX_N_MODULES V1190_BASE_INC] by (simp add: o(1))
  obtain ko c1 where m: "modules_of ''v1190_n_modules'' ''v1190_module'' V1190_MAX_N_MODULES c = (ko, c1)"
    by fastforce
  show ?thesis
  proof (cases ko)
    case None
    with m o(2) assms(3) show ?thesis
      by (simp add: v1190_start_def o(1))
  next
    case (Some ks)
    from map_modules_start [OF inv assms(1), of V1190_BASE_INI 0 ks]
    obtain p d2 where d2: "map_modules v1190_map as 0 ks d1 =
        (if mappable V1190_MAX_N_MODULES as 0 ks then Some (map (\<lambda>k. p + V1190_BASE_INC * nat k) ks) else None, d2)"
      "shared_inv V1190_MAX_N_MODULES V1190_BASE_INC d2"
      unfolding v1190_map_def by blast
    show ?thesis
    proof (cases "mappable V1190_MAX_N_MODULES as 0 ks")
      case True
      with m Some d2(1) assms(3) show ?thesis
        by (auto simp: v1190_start_def o(1))
    next
      case False
      with m Some d2(1) assms(3) have "r = Failed" "d = snd (v1190_close ac d2)"
        by (auto simp: v1190_start_def o(1))
      moreover from shared_close_good [OF assms(2) d2(2)] obtain B where
        "vme_run vme_boot (sd_trace (snd (v1190_close ac d2))) = Some B" "b_win B = (\<lambda>_. None)"
        unfolding v1190_close_def by blast
      ultimately show ?thesis
        using False m Some by simp
    qed
  qed
qed

definition good_ans :: "bool \<Rightarrow> vme_ans" where
  "good_ans ex = \<lparr>a_create = True, a_map = Some 0x10000000, a_exists = ex, a_unmap = True, a_release = True, a_release_err = True, a_term = True\<rparr>"

definition two_tdcs :: config where
  "two_tdcs = \<lparr>parameters = [\<lparr>par_name = ''v1190_n_modules'', par_index = None, par_value = ''2''\<rparr>,
     \<lparr>par_name = ''v1190_module'', par_index = Some ''1'', par_value = ''3''\<rparr>], cerrno = 0\<rparr>"

lemma two_tdcs_modules:
  "fst (modules_of ''v1190_n_modules'' ''v1190_module'' V1190_MAX_N_MODULES two_tdcs) = Some [0, 3]"
  by code_simp

theorem v1190_start_maps_or_closes_witness:
  "\<exists>r ps c' d. v1190_start True (\<lambda>_. good_ans True) (good_ans True) two_tdcs (shared_boot V1190_MAX_N_MODULES) = (r, ps, c', d) \<and>
     r = Up \<and> (\<exists>p. ps = [p, p + 0x30000])"
proof -
  obtain r ps c' d where s:
    "v1190_start True (\<lambda>_. good_ans True) (good_ans True) two_tdcs (shared_boot V1190_MAX_N_MODULES) = (r, ps, c', d)"
    by (metis prod_cases4)
  have g: "no_fault (good_ans True)" "mappable V1190_MAX_N_MODULES (\<lambda>_. good_ans True) 0 [0, 3]"
    by (simp_all add: no_fault_def good_ans_def mappable_Cons mappable_Nil V1190_MAX_N_MODULES_def)
  from v1190_start_maps_or_closes [OF allI [OF g(1)] g(1) s] s g(2) show ?thesis
    by (simp add: two_tdcs_modules V1190_BASE_INC_def)
qed

lemma v830_exit_good:
  assumes "single_inv V830_MAX_N_MODULES d" and "md_handle d ! 0" and "\<forall>i. no_fault (as i)"
  shows "v830_exit as d = (0, snd (v830_close as (snd (v830_unmap (as 0) 0 d))))"
    and "single_inv V830_MAX_N_MODULES (snd (v830_unmap (as 0) 0 d))"
proof -
  obtain d1 where d1: "v830_unmap (as 0) 0 d = (0, d1)" "single_inv V830_MAX_N_MODULES d1"
    using single_unmap_good(1,3) [OF spec [OF assms(3)] assms(1), of 0 0] assms(2)
    by (cases "v830_unmap (as 0) 0 d") (simp add: v830_unmap_def V830_MAX_N_MODULES_def)
  obtain d2 where "v830_close as d1 = (0, d2)"
    using single_close_good [OF d1(2) assms(3)] by (cases "v830_close as d1") (simp add: v830_close_def)
  with d1 show "v830_exit as d = (0, snd (v830_close as (snd (v830_unmap (as 0) 0 d))))"
    "single_inv V830_MAX_N_MODULES (snd (v830_unmap (as 0) 0 d))"
    by (simp_all add: v830_exit_def V830_MODULE_NUMBER_def)
qed

lemma v977_exit_good:
  assumes "single_inv V977_MAX_N_MODULES d" and "md_handle d ! 0" and "\<forall>i. no_fault (as i)"
  shows "v977_exit as d = (0, snd (v977_close as (snd (v977_unmap (as 0) 0 d))))"
    and "single_inv V977_MAX_N_MODULES (snd (v977_unmap (as 0) 0 d))"
proof -
  obtain d1 where d1: "v977_unmap (as 0) 0 d = (0, d1)" "single_inv V977_MAX_N_MODULES d1"
    using single_unmap_good(1,3) [OF spec [OF assms(3)] assms(1), of 0 0] assms(2)
    by (cases "v977_unmap (as 0) 0 d") (simp add: v977_unmap_def V977_MAX_N_MODULES_def)
  obtain d2 where "v977_close as d1 = (0, d2)"
    using single_close_good [OF d1(2) assms(3)] by (cases "v977_close as d1") (simp add: v977_close_def)
  with d1 show "v977_exit as d = (0, snd (v977_close as (snd (v977_unmap (as 0) 0 d))))"
    "single_inv V977_MAX_N_MODULES (snd (v977_unmap (as 0) 0 d))"
    by (simp_all add: v977_exit_def V977_MODULE_NUMBER_def)
qed

text \<open>The end of the MyRIAD: the second call of the unmap function finds no window and does nothing.\<close>

lemma myriad_end_good:
  assumes "no_fault a" and "shared_inv 1 inc d" and "sd_handle d \<longrightarrow> 0 < n"
  shows "\<exists>B. vme_run vme_boot (sd_trace (snd (myriad_end a n d))) = Some B \<and> b_win B = (\<lambda>_. None) \<and> b_open B"
    and "fst (myriad_end a n d) = (if n = 0 then [] else if sd_handle d then [0, -1] else [-1, -1])"
proof -
  have u: "a_unmap a" "a_release a"
    using assms(1) by (simp_all add: no_fault_def)
  show "\<exists>B. vme_run vme_boot (sd_trace (snd (myriad_end a n d))) = Some B \<and> b_win B = (\<lambda>_. None) \<and> b_open B"
  proof (cases "sd_handle d")
    case True
    then have "0 < n" "sd_ptr d ! 0 \<noteq> None" "vme_run vme_boot (sd_trace d) = Some (shared_bus True)"
      using assms(2,3) by (auto simp: shared_inv_def)
    then have "snd (myriad_end a n d) = d\<lparr>sd_handle := False, sd_ptr := [None], sd_trace := sd_trace d @ [(WUnmap 0, True), (WRelease 0, True)]\<rparr>"
      using True u by (simp add: myriad_end_def myriad_unmap_def sd_log_def Let_def)
    then have "vme_run vme_boot (sd_trace (snd (myriad_end a n d))) = Some (shared_bus False)"
      using \<open>vme_run vme_boot (sd_trace d) = Some (shared_bus True)\<close> shared_bus_steps(2) by (simp add: vme_run_append del: vme_run.simps)
    then show ?thesis
      by (simp add: shared_bus_def fun_eq_iff)
  next
    case False
    then have "snd (myriad_end a n d) = d"
      by (simp add: myriad_end_def myriad_unmap_def)
    then show ?thesis
      using assms(2) False by (simp add: shared_inv_def shared_bus_def fun_eq_iff)
  qed
  show "fst (myriad_end a n d) = (if n = 0 then [] else if sd_handle d then [0, -1] else [-1, -1])"
    by (auto simp: myriad_end_def myriad_unmap_def sd_log_def Let_def)
qed

text \<open>C30: Whatever the program did with the libraries before, on a bus without faults the end of the acquisition program
  leaves no window of a V1190, MADC32, MQDC32, V830, V977 or MyRIAD behind, all calls in the order the bus library asks for, and the
  V1190 part reports an error exactly when no V1190 was ever mapped. The end of a MyRIAD that was mapped reports an error all the same,
  because its window is unmapped a second time, and its use of the bus is never ended.\<close>

theorem end_releases_every_window:
  assumes "\<forall>i. no_fault (as i)" and "daq_end as m D = (es, D')"
    and "shared_inv V1190_MAX_N_MODULES V1190_BASE_INC (d_v1190 D)" and "shared_inv MADC32_MAX_N_MODULES MADC32_BASE_INC (d_madc32 D)"
    and "shared_inv MQDC32_MAX_N_MODULES MQDC32_BASE_INC (d_mqdc32 D)"
    and "single_inv V830_MAX_N_MODULES (d_v830 D)" and "md_handle (d_v830 D) ! 0"
    and "single_inv V977_MAX_N_MODULES (d_v977 D)" and "md_handle (d_v977 D) ! 0"
    and "shared_inv 1 MYRIAD_SIZE (d_myriad D)" and "sd_handle (d_myriad D) \<longrightarrow> 0 < m_myriad m"
  shows "(\<forall>tr\<in>{sd_trace (d_v1190 D'), sd_trace (d_madc32 D'), sd_trace (d_mqdc32 D'), md_trace (d_v830 D'), md_trace (d_v977 D'),
        sd_trace (d_myriad D')}.
      \<exists>B. vme_run vme_boot tr = Some B \<and> b_win B = (\<lambda>_. None)) \<and>
    (es ! 0 = 0 \<longleftrightarrow> sd_handle (d_v1190 D)) \<and> es ! 3 = 0 \<and> es ! 4 = 0 \<and>
    drop 5 es = (if m_myriad m = 0 then [] else if sd_handle (d_myriad D) then [0, -1] else [-1, -1]) \<and>
    (\<exists>B. vme_run vme_boot (sd_trace (d_myriad D')) = Some B \<and> b_open B)"
proof -
  have u: "fold (\<lambda>k d. snd (v1190_unmap k d)) ks d = d" "fold (\<lambda>k d. snd (madc32_unmap k d)) ks d = d"
    "fold (\<lambda>k d. snd (mqdc32_unmap k d)) ks d = d" for ks d
    by (induction ks) (simp_all add: v1190_unmap_def madc32_unmap_def mqdc32_unmap_def shared_unmap_def)
  note v830 = v830_exit_good [OF assms(6,7,1)]
  note v977 = v977_exit_good [OF assms(8,9,1)]
  have e: "es ! 0 = fst (v1190_close (as 0) (d_v1190 D))" "es ! 3 = 0" "es ! 4 = 0"
    "d_v1190 D' = snd (v1190_close (as 0) (d_v1190 D))" "d_madc32 D' = snd (madc32_close (as 0) (d_madc32 D))"
    "d_mqdc32 D' = snd (mqdc32_close (as 0) (d_mqdc32 D))"
    "d_v830 D' = snd (v830_close as (snd (v830_unmap (as 0) 0 (d_v830 D))))"
    "d_v977 D' = snd (v977_close as (snd (v977_unmap (as 0) 0 (d_v977 D))))"
    "d_myriad D' = snd (myriad_end (as 0) (m_myriad m) (d_myriad D))" "drop 5 es = fst (myriad_end (as 0) (m_myriad m) (d_myriad D))"
    using assms(2) by (auto simp: daq_end_def u v830(1) v977(1) split: prod.splits)
  note my = myriad_end_good [OF spec [OF assms(1)] assms(10,11), of 0]
  have b: "\<exists>B. vme_run vme_boot tr = Some B \<and> b_win B = (\<lambda>_. None)"
    if "\<exists>B. vme_run vme_boot tr = Some B \<and> b_win B = (\<lambda>_. None) \<and> b_open B" for tr
    using that by blast
  have o: "\<exists>B. vme_run vme_boot tr = Some B \<and> b_open B"
    if "\<exists>B. vme_run vme_boot tr = Some B \<and> b_win B = (\<lambda>_. None) \<and> b_open B" for tr
    using that by blast
  show ?thesis
    unfolding e(1-10) my(2)
    using b [OF my(1)] o [OF my(1)] v1190_lib.close_clean [OF assms(3,1)] madc32_lib.close_clean [OF assms(4,1)] mqdc32_lib.close_clean [OF assms(5,1)]
      v830_lib.close_clean [OF v830(2) assms(1)] v977_lib.close_clean [OF v977(2) assms(1)] shared_close_good [OF spec [OF assms(1)] assms(3), of 0]
    by (auto simp: v1190_close_def)
qed

definition demo_modules :: daq_modules where
  "demo_modules = \<lparr>m_v1190 = [3], m_madc32 = [], m_mqdc32 = [], m_myriad = 1\<rparr>"

text \<open>A program that has mapped the V1190 number 3, the two single modules and the MyRIAD, and no MADC32 or MQDC32.\<close>

definition demo_drivers :: drivers where
  "demo_drivers =
     \<lparr>d_v1190 = snd (v1190_map (good_ans True) 3 (snd (shared_open True (shared_boot V1190_MAX_N_MODULES)))),
      d_madc32 = snd (shared_open True (shared_boot MADC32_MAX_N_MODULES)),
      d_mqdc32 = snd (shared_open True (shared_boot MQDC32_MAX_N_MODULES)),
      d_v830 = snd (v830_init True (good_ans True) 3 (single_boot V830_MAX_N_MODULES)),
      d_v977 = snd (v977_init True (good_ans True) (single_boot V977_MAX_N_MODULES)),
      d_myriad = snd (myriad_map (good_ans True) (snd (shared_open True (shared_boot 1))))\<rparr>"

lemma good_ans_no_fault: "no_fault (good_ans ex)"
  by (simp add: no_fault_def good_ans_def)

lemma v977_init_good:
  assumes "no_fault a" and "a_exists a"
  shows "single_inv V977_MAX_N_MODULES (snd (v977_init True a (single_boot V977_MAX_N_MODULES)))"
    and "md_handle (snd (v977_init True a (single_boot V977_MAX_N_MODULES))) ! 0"
proof -
  obtain d1 where o: "single_open True (single_boot V977_MAX_N_MODULES) = (0, d1)" "single_inv V977_MAX_N_MODULES d1" "\<not> md_handle d1 ! 0"
    using single_open_inv [of V977_MAX_N_MODULES] by (simp add: single_open_def md_log_def single_boot_def V977_MAX_N_MODULES_def)
  from single_map_good(2) [OF assms(1) o(2), of 0 V977_BASE V977_SIZE] o(3) obtain d2 p where
    m: "v977_map a V977_MODULE_NUMBER d1 = (Some p, d2)" "md_handle d2 = (md_handle d1)[0 := True]"
    using assms by (auto simp: v977_map_def V977_MODULE_NUMBER_def V977_MAX_N_MODULES_def no_fault_def)
  have "single_inv V977_MAX_N_MODULES d2"
    using v977_lib.map_inv [OF assms(1) o(2), of V977_MODULE_NUMBER] by (simp add: m(1))
  with m o show "single_inv V977_MAX_N_MODULES (snd (v977_init True a (single_boot V977_MAX_N_MODULES)))"
    "md_handle (snd (v977_init True a (single_boot V977_MAX_N_MODULES))) ! 0"
    by (simp_all add: v977_init_def single_inv_def V977_MAX_N_MODULES_def)
qed

lemma v830_init_good:
  assumes "no_fault a" and "a_exists a"
  shows "single_inv V830_MAX_N_MODULES (snd (v830_init True a n (single_boot V830_MAX_N_MODULES)))"
    and "md_handle (snd (v830_init True a n (single_boot V830_MAX_N_MODULES))) ! 0"
proof -
  obtain d1 where o: "single_open True (single_boot V830_MAX_N_MODULES) = (0, d1)" "single_inv V830_MAX_N_MODULES d1" "\<not> md_handle d1 ! 0"
    using single_open_inv [of V830_MAX_N_MODULES] by (simp add: single_open_def md_log_def single_boot_def V830_MAX_N_MODULES_def)
  from single_map_good(2) [OF assms(1) o(2), of 0 V830_BASE V830_SIZE] o(3) obtain d2 p where
    m: "v830_map a V830_MODULE_NUMBER d1 = (Some p, d2)" "md_handle d2 = (md_handle d1)[0 := True]"
    using assms by (auto simp: v830_map_def V830_MODULE_NUMBER_def V830_MAX_N_MODULES_def no_fault_def)
  have "single_inv V830_MAX_N_MODULES d2"
    using v830_lib.map_inv [OF assms(1) o(2), of V830_MODULE_NUMBER] by (simp add: m(1))
  with m o show "single_inv V830_MAX_N_MODULES (snd (v830_init True a n (single_boot V830_MAX_N_MODULES)))"
    "md_handle (snd (v830_init True a n (single_boot V830_MAX_N_MODULES))) ! 0"
    by (simp_all add: v830_init_def single_inv_def V830_MAX_N_MODULES_def)
qed

theorem end_releases_every_window_witness:
  "\<exists>es D'. daq_end (\<lambda>_. good_ans True) demo_modules demo_drivers = (es, D') \<and> es ! 0 = 0 \<and> drop 5 es = [0, -1] \<and>
     (\<exists>B. vme_run vme_boot (sd_trace (d_v1190 D')) = Some B \<and> b_win B = (\<lambda>_. None))"
proof -
  obtain es D' where e: "daq_end (\<lambda>_. good_ans True) demo_modules demo_drivers = (es, D')"
    by fastforce
  have g: "no_fault (good_ans True)" "a_exists (good_ans True)"
    by (simp_all add: good_ans_no_fault) (simp add: good_ans_def)
  have i: "shared_inv V1190_MAX_N_MODULES V1190_BASE_INC (d_v1190 demo_drivers)"
    unfolding demo_drivers_def drivers.simps by (rule v1190_lib.map_inv [OF g(1) shared_open_inv])
  have h: "sd_handle (d_v1190 demo_drivers)"
    using shared_map_good(2) [OF g(1) shared_open_inv [of V1190_MAX_N_MODULES V1190_BASE_INC], of 3 V1190_BASE_INI]
    by (auto simp: demo_drivers_def v1190_map_def V1190_MAX_N_MODULES_def)
  have j: "shared_inv MADC32_MAX_N_MODULES MADC32_BASE_INC (d_madc32 demo_drivers)"
    "shared_inv MQDC32_MAX_N_MODULES MQDC32_BASE_INC (d_mqdc32 demo_drivers)"
    by (simp_all add: demo_drivers_def shared_open_inv)
  have k: "single_inv V830_MAX_N_MODULES (d_v830 demo_drivers)" "md_handle (d_v830 demo_drivers) ! 0"
    "single_inv V977_MAX_N_MODULES (d_v977 demo_drivers)" "md_handle (d_v977 demo_drivers) ! 0"
    unfolding demo_drivers_def drivers.simps by (rule v830_init_good v977_init_good, rule g(1), rule g(2))+
  have y: "shared_inv 1 MYRIAD_SIZE (d_myriad demo_drivers)" "sd_handle (d_myriad demo_drivers)"
    using shared_map_good [where k = 0 and base = MYRIAD_BASE and a = "(good_ans True)\<lparr>a_exists := True\<rparr>", OF _ shared_open_inv [of 1 MYRIAD_SIZE]] g
    by (auto simp: demo_drivers_def myriad_map_def no_fault_def)
  have z: "sd_handle (d_myriad demo_drivers) \<longrightarrow> 0 < m_myriad demo_modules" "m_myriad demo_modules \<noteq> 0"
    by (simp_all add: demo_modules_def)
  from end_releases_every_window [OF allI [OF g(1)] e i j k y(1) z(1)] e h y(2) z(2) show ?thesis
    by simp
qed

text \<open>When the window of the V1190 modules is created but cannot be mapped, the map function releases it and ends the
  use of the bus, and keeps the handle: the program then closes the library, which unmaps and releases the same window again
  after \<^verbatim>\<open>vme_term\<close>, against the order of the bus library.\<close>

theorem failed_map_is_released_twice:
  assumes "modules_of ''v1190_n_modules'' ''v1190_module'' V1190_MAX_N_MODULES c = (Some (k # ks), c1)"
    and "0 \<le> k" and "k < int V1190_MAX_N_MODULES" and "a_create (as 0)" and "a_map (as 0) = None" and "a_term (as 0)"
    and "v1190_start True as ac c (shared_boot V1190_MAX_N_MODULES) = (r, ps, c', d)"
  shows "r = Failed \<and> vme_run vme_boot (sd_trace d) = None \<and>
    (\<exists>w\<in>{True, False}. (WRelease 0, w) \<in> set (drop 5 (sd_trace d)))"
  using assms
  by (auto simp: v1190_start_def shared_open_def v1190_map_def shared_map_def shared_window_def v1190_close_def shared_close_def
      sd_log_def shared_boot_def Let_def vme_boot_def)

theorem failed_map_is_released_twice_witness:
  "\<exists>r ps c' d. v1190_start True (\<lambda>_. (good_ans True)\<lparr>a_map := None\<rparr>) (good_ans True) two_tdcs (shared_boot V1190_MAX_N_MODULES) = (r, ps, c', d) \<and>
     r = Failed \<and> vme_run vme_boot (sd_trace d) = None"
proof -
  obtain r ps c' d where s:
    "v1190_start True (\<lambda>_. (good_ans True)\<lparr>a_map := None\<rparr>) (good_ans True) two_tdcs (shared_boot V1190_MAX_N_MODULES) = (r, ps, c', d)"
    by (metis prod_cases4)
  obtain c1 where m: "modules_of ''v1190_n_modules'' ''v1190_module'' V1190_MAX_N_MODULES two_tdcs = (Some (0 # [3]), c1)"
    using two_tdcs_modules by (metis fst_conv surj_pair)
  from failed_map_is_released_twice [OF m _ _ _ _ _ s] s show ?thesis
    by (simp add: good_ans_def V1190_MAX_N_MODULES_def)
qed

section \<open>Limits\<close>

text \<open>A library without a configured module is opened, but closing it reports an error and does not end the use of the bus.\<close>

theorem close_without_modules:
  "\<exists>d. madc32_start True as (c\<lparr>parameters := []\<rparr>) (shared_boot MADC32_MAX_N_MODULES) = (Up, [], c\<lparr>parameters := []\<rparr>, d) \<and>
     fst (madc32_close a d) = -1 \<and> sd_trace (snd (madc32_close a d)) = [(VInit, True)]"
  by (simp add: madc32_start_def shared_open_def sd_log_def shared_boot_def modules_of_def config_get_l_value_def find_parameter_def
      search_parameter_def search_parameter_index_def madc32_close_def shared_close_def c_int_def)

text \<open>The MyRIAD is unmapped twice at the end, which is reported as an error, and its use of the bus is never ended.\<close>

theorem myriad_is_unmapped_twice:
  assumes "sd_handle d" and "0 < n"
  shows "\<exists>d'. myriad_end a n d = ([0, -1], d') \<and> (VTerm, True) \<notin> set (drop (length (sd_trace d)) (sd_trace d'))"
  using assms by (auto simp: myriad_end_def myriad_unmap_def sd_log_def Let_def)

text \<open>When a window cannot be unmapped, it is released and its handle is kept, so closing the library uses it again.\<close>

theorem failed_unmap_is_repeated:
  assumes "single_inv N d" and "k < N" and "md_handle d ! k" and "\<not> a_unmap a" and "a_release_err a"
    and "single_unmap N a (int k) d = (r, d1)"
  shows "r = -1 \<and> md_handle d1 ! k \<and> vme_run vme_boot (md_trace d1 @ [(WUnmap k, w)]) = None"
  using assms
  by (auto simp: single_unmap_def md_log_def single_inv_def vme_run_append single_bus_def)

text \<open>A module number of a MADC32 that is out of range ends in the use of a null pointer.\<close>

theorem madc32_number_out_of_range:
  assumes "modules_of ''madc32_n_modules'' ''madc32_module'' MADC32_MAX_N_MODULES c = (Some (k # ks), c1)"
    and "k < 0 \<or> int MADC32_MAX_N_MODULES \<le> k"
  shows "fst (madc32_start True as c (shared_boot MADC32_MAX_N_MODULES)) = Segv"
  using assms by (auto simp: madc32_start_def shared_open_def madc32_map_def shared_map_out_of_range split: prod.splits)

end
