(* ===== verification/Format_Modules.thy ===== *)
theory Format_Modules
  imports Udaq_Prelude "HOL-Library.Word"
begin

text \<open>
  The tables of the data format checker (\<^verbatim>\<open>router/tools/check_format_lib.c\<close>): input registers, FERA, LR3377 and PCOS. The
  bit fields of the data words are declared in headers that are not part of the repository (\<^verbatim>\<open>fera.h\<close>, \<^verbatim>\<open>lr3377.h\<close>,
  \<^verbatim>\<open>pcos.h\<close>); they are the record \<open>layout\<close>, an argument of the functions. A table is the used part of the C array,
  memory is a function from word positions to words.
\<close>

unbundle bit_operations_syntax

type_synonym memory = "int \<Rightarrow> 16 word"

definition words :: "memory \<Rightarrow> int \<Rightarrow> int \<Rightarrow> 16 word list" where
  "words m p n = map (\<lambda>k. m (p + int k)) [0 ..< nat n]"

record layout =
  fera_vsn :: "16 word \<Rightarrow> int"
  fera_ch :: "16 word \<Rightarrow> nat"
  fera_value :: "16 word \<Rightarrow> int"
  lr3377_hdr :: "16 word \<Rightarrow> bool"
  lr3377_id :: "16 word \<Rightarrow> int"
  lr3377_evt :: "16 word \<Rightarrow> int"
  lr3377_ch :: "16 word \<Rightarrow> nat"
  lr3377_value :: "16 word \<Rightarrow> int"
  pcos_hdr :: "16 word \<Rightarrow> bool"
  pcos_is_delim :: "16 word \<Rightarrow> bool"
  pcos_width :: "16 word \<Rightarrow> nat"
  pcos_addr :: "16 word \<Rightarrow> int"
  pcos_ch :: "16 word \<Rightarrow> nat"
  pcos_half :: "16 word \<Rightarrow> bool"

text \<open>Sizes of the tables.\<close>

definition MAXINPREGMODS :: nat where "MAXINPREGMODS = 64"
definition MAXNINPREGDAT :: nat where "MAXNINPREGDAT = 64"
definition NCHINPREG :: nat where "NCHINPREG = 16"
definition MAXFERAMODS :: nat where "MAXFERAMODS = 64"
definition MAXNFERADAT :: nat where "MAXNFERADAT = 4096"
definition NCHFERA :: nat where "NCHFERA = 16"
definition MAX3377MODS :: nat where "MAX3377MODS = 256"
definition MAXN3377DAT :: nat where "MAXN3377DAT = 4096"
definition NCH3377 :: nat where "NCH3377 = 32"
definition MAXPCOSMODS :: nat where "MAXPCOSMODS = 256"
definition MAXNPCOSDAT :: nat where "MAXNPCOSDAT = 4096"
definition NCHPCOS :: nat where "NCHPCOS = 32"

record INPREG =
  in_data :: int
  in_bits :: "int list"
  in_diff :: "int list"
  in_sum :: "int list"

record FERA =
  fera_id :: int
  fera_data :: "int list"

record LR3377 =
  lr_id :: int
  lr_evt :: int
  lr_data :: "int list"
  lr_nhit :: "int list"

record PCOS =
  pc_addr :: int
  pc_hit :: "int list"
  pc_nhit :: "int list"

text \<open>\<open>inpreg\<close> is the whole array, \<open>ninpreg\<close> and \<open>cinpreg\<close> count into it; the counts of the other tables are their lengths.\<close>

record tables =
  inpreg :: "INPREG list"
  ninpreg :: nat
  cinpreg :: nat
  inpreg_dat :: "16 word list"
  show_inpreg_count :: int
  fera :: "FERA list"
  fera_dat :: "16 word list"
  show_fera_count :: int
  lr3377 :: "LR3377 list"
  lr3377_dat :: "16 word list"
  show_3377_count :: int
  pcos :: "PCOS list"
  pcos_dat :: "16 word list"
  show_pcos_count :: int

text \<open>\<^verbatim>\<open>for(i=0; i<len && n<MAX; i++) dat[n++] = ptr[i];\<close>\<close>

definition keep :: "nat \<Rightarrow> 16 word list \<Rightarrow> 16 word list \<Rightarrow> 16 word list" where
  "keep limit ws dat = dat @ take (limit - length dat) ws"

text \<open>\<^verbatim>\<open>for(i=0; i<n; i++) if(a[i].id == x) break;\<close>: the index of the first entry with the key, or the number of entries.\<close>

fun search :: "('a \<Rightarrow> int) \<Rightarrow> int \<Rightarrow> 'a list \<Rightarrow> nat" where
  "search key x [] = 0"
| "search key x (a # as) = (if key a = x then 0 else Suc (search key x as))"

text \<open>\<^verbatim>\<open>if(i>=n){ clear a[i]; a[i].id = x; n++; }\<close> after the search.\<close>

definition slot :: "('a \<Rightarrow> int) \<Rightarrow> (int \<Rightarrow> 'a) \<Rightarrow> int \<Rightarrow> 'a list \<Rightarrow> 'a list" where
  "slot key new x tab = (if search key x tab \<ge> length tab then tab @ [new x] else tab)"

text \<open>
  The sorting loops \<^verbatim>\<open>for(i=0; i<n-1; i++) for(j=i+1; j<n; j++) if(a[i] > a[j]) swap\<close>. \<open>pass\<close> is the inner loop: it
  returns the entry at \<open>i\<close> and the entries behind it afterwards.
\<close>

fun pass :: "('a \<Rightarrow> int) \<Rightarrow> 'a \<Rightarrow> 'a list \<Rightarrow> 'a \<times> 'a list" where
  "pass key a [] = (a, [])"
| "pass key a (b # bs) =
     (if key a > key b then case pass key b bs of (c, cs) \<Rightarrow> (c, a # cs)
      else case pass key a bs of (c, cs) \<Rightarrow> (c, b # cs))"

lemma length_pass [simp]: "length (snd (pass key a bs)) = length bs"
  by (induction bs arbitrary: a) (simp_all add: split_beta)

function exchange_sort :: "('a \<Rightarrow> int) \<Rightarrow> 'a list \<Rightarrow> 'a list" where
  "exchange_sort key [] = []"
| "exchange_sort key (a # as) = fst (pass key a as) # exchange_sort key (snd (pass key a as))"
  by pat_completeness auto

termination
  by (relation "measure (\<lambda>(key, as). length as)") auto

section \<open>Input registers\<close>

definition count_bits :: "16 word \<Rightarrow> INPREG \<Rightarrow> INPREG" where
  "count_bits w r =
     (let bs = map (\<lambda>i. bit w i) [0 ..< NCHINPREG]
      in r\<lparr>in_data := uint w, in_bits := map of_bool bs,
           in_diff := map2 (\<lambda>b n. n + of_bool b) bs (in_diff r),
           in_sum := map2 (\<lambda>b n. n + of_bool b) bs (in_sum r)\<rparr>)"

fun inpreg_loop :: "16 word list \<Rightarrow> tables \<Rightarrow> tables" where
  "inpreg_loop [] t = t"
| "inpreg_loop (w # ws) t =
     (if cinpreg t \<ge> MAXINPREGMODS then t
      else inpreg_loop ws
        (t\<lparr>inpreg := (inpreg t)[cinpreg t := count_bits w (inpreg t ! cinpreg t)],
           cinpreg := Suc (cinpreg t), ninpreg := Suc (cinpreg t)\<rparr>))"

definition check_inpreg :: "memory \<Rightarrow> int \<Rightarrow> int \<Rightarrow> tables \<Rightarrow> tables" where
  "check_inpreg m p len t =
     (let ws = words m p len
      in inpreg_loop ws (t\<lparr>inpreg_dat := keep MAXNINPREGDAT ws (inpreg_dat t)\<rparr>))"

definition check_inpreg_init :: "tables \<Rightarrow> tables" where
  "check_inpreg_init t = t\<lparr>inpreg_dat := [], cinpreg := 0\<rparr>"

text \<open>The display resets the differences when it is due; the text it prints is not modelled.\<close>

definition show_inpreg :: "int \<Rightarrow> tables \<Rightarrow> tables" where
  "show_inpreg itvl t =
     (if show_inpreg_count t + 1 < itvl then t\<lparr>show_inpreg_count := show_inpreg_count t + 1\<rparr>
      else t\<lparr>show_inpreg_count := 0,
             inpreg := map (\<lambda>r. r\<lparr>in_diff := replicate NCHINPREG 0\<rparr>) (take (ninpreg t) (inpreg t)) @ drop (ninpreg t) (inpreg t)\<rparr>)"

section \<open>FERA\<close>

definition fera_hits :: "layout \<Rightarrow> 16 word list \<Rightarrow> FERA \<Rightarrow> FERA" where
  "fera_hits F ws r = fold (\<lambda>w r. r\<lparr>fera_data := (fera_data r)[fera_ch F w := fera_value F w]\<rparr>) ws r"

definition new_fera :: "int \<Rightarrow> FERA" where
  "new_fera x = \<lparr>fera_id = x, fera_data = replicate NCHFERA (-1)\<rparr>"

definition check_fera :: "layout \<Rightarrow> memory \<Rightarrow> int \<Rightarrow> int \<Rightarrow> tables \<Rightarrow> tables" where
  "check_fera F m p len t =
     (let t1 = t\<lparr>fera_dat := keep MAXNFERADAT (words m p len) (fera_dat t)\<rparr>;
          vsn = fera_vsn F (m p);
          i = search fera_id vsn (fera t)
      in if i \<ge> MAXFERAMODS then t1
         else t1\<lparr>fera := (slot fera_id new_fera vsn (fera t))
                   [i := fera_hits F (words m (p + 1) (len - 1)) (slot fera_id new_fera vsn (fera t) ! i)]\<rparr>)"

text \<open>Only the numbers are exchanged by the sort: the data have just been cleared.\<close>

definition check_fera_init :: "tables \<Rightarrow> tables" where
  "check_fera_init t =
     t\<lparr>fera_dat := [],
       fera := exchange_sort fera_id (map (\<lambda>r. r\<lparr>fera_data := replicate NCHFERA (-1)\<rparr>) (fera t))\<rparr>"

definition show_fera :: "int \<Rightarrow> tables \<Rightarrow> tables" where
  "show_fera itvl t = t\<lparr>show_fera_count := (if show_fera_count t + 1 < itvl then show_fera_count t + 1 else 0)\<rparr>"

section \<open>LR3377\<close>

definition new_lr3377 :: "int \<Rightarrow> LR3377" where
  "new_lr3377 x = \<lparr>lr_id = x, lr_evt = 0, lr_data = replicate NCH3377 (-1), lr_nhit = replicate NCH3377 0\<rparr>"

definition lr3377_hit :: "layout \<Rightarrow> 16 word \<Rightarrow> LR3377 \<Rightarrow> LR3377" where
  "lr3377_hit F w r =
     r\<lparr>lr_data := (lr_data r)[lr3377_ch F w := lr3377_value F w],
       lr_nhit := (lr_nhit r)[lr3377_ch F w := lr_nhit r ! lr3377_ch F w + 1]\<rparr>"

text \<open>\<open>i\<close> is the entry of the last header, \<open>None\<close> for -1. A full table ends the function.\<close>

fun lr3377_loop :: "layout \<Rightarrow> 16 word list \<Rightarrow> nat option \<Rightarrow> LR3377 list \<Rightarrow> LR3377 list" where
  "lr3377_loop F [] i tab = tab"
| "lr3377_loop F (w # ws) i tab =
     (if lr3377_hdr F w then
        if search lr_id (lr3377_id F w) tab \<ge> MAX3377MODS then tab
        else
          let tab1 = slot lr_id new_lr3377 (lr3377_id F w) tab;
              k = search lr_id (lr3377_id F w) tab
          in lr3377_loop F ws (Some k) (tab1[k := (tab1 ! k)\<lparr>lr_evt := lr3377_evt F w\<rparr>])
      else
        (case i of
           None \<Rightarrow> lr3377_loop F ws None tab
         | Some k \<Rightarrow> lr3377_loop F ws i (tab[k := lr3377_hit F w (tab ! k)])))"

definition check_lr3377 :: "layout \<Rightarrow> memory \<Rightarrow> int \<Rightarrow> int \<Rightarrow> tables \<Rightarrow> tables" where
  "check_lr3377 F m p len t =
     (let ws = words m p len
      in t\<lparr>lr3377_dat := keep MAXN3377DAT ws (lr3377_dat t), lr3377 := lr3377_loop F ws None (lr3377 t)\<rparr>)"

text \<open>The sort exchanges the number and the hit counts; event and data are equal in all entries.\<close>

definition check_lr3377_init :: "tables \<Rightarrow> tables" where
  "check_lr3377_init t =
     t\<lparr>lr3377_dat := [],
       lr3377 := exchange_sort lr_id (map (\<lambda>r. r\<lparr>lr_evt := -1, lr_data := replicate NCH3377 (-1)\<rparr>) (lr3377 t))\<rparr>"

definition show_lr3377 :: "int \<Rightarrow> tables \<Rightarrow> tables" where
  "show_lr3377 itvl t = t\<lparr>show_3377_count := (if show_3377_count t + 1 < itvl then show_3377_count t + 1 else 0)\<rparr>"

section \<open>PCOS\<close>

definition new_pcos :: "int \<Rightarrow> PCOS" where
  "new_pcos x = \<lparr>pc_addr = x, pc_hit = replicate NCHPCOS 0, pc_nhit = replicate NCHPCOS 0\<rparr>"

definition pcos_wire :: "layout \<Rightarrow> 16 word \<Rightarrow> PCOS \<Rightarrow> PCOS" where
  "pcos_wire F w r =
     (if pcos_half F w then r
      else r\<lparr>pc_hit := (pc_hit r)[pcos_ch F w := pc_hit r ! pcos_ch F w + 1],
             pc_nhit := (pc_nhit r)[pcos_ch F w := pc_nhit r ! pcos_ch F w + 1]\<rparr>)"

text \<open>The loop over the width of a cluster; the first component is false when the table is full and the function returns.\<close>

fun pcos_cluster :: "layout \<Rightarrow> nat \<Rightarrow> 16 word \<Rightarrow> PCOS list \<Rightarrow> bool \<times> PCOS list" where
  "pcos_cluster F 0 w tab = (True, tab)"
| "pcos_cluster F (Suc k) w tab =
     (if search pc_addr (pcos_addr F w) tab \<ge> MAXPCOSMODS then (False, tab)
      else
        let tab1 = slot pc_addr new_pcos (pcos_addr F w) tab;
            i = search pc_addr (pcos_addr F w) tab
        in pcos_cluster F k (w + 2) (tab1[i := pcos_wire F w (tab1 ! i)]))"

fun pcos_loop :: "layout \<Rightarrow> 16 word list \<Rightarrow> nat \<Rightarrow> PCOS list \<Rightarrow> PCOS list" where
  "pcos_loop F [] w tab = tab"
| "pcos_loop F (x # xs) w tab =
     (if pcos_hdr F x then pcos_loop F xs (if pcos_is_delim F x then w else pcos_width F x) tab
      else
        case pcos_cluster F w (x - (word_of_nat w - 1)) tab of
          (False, tab') \<Rightarrow> tab'
        | (True, tab') \<Rightarrow> pcos_loop F xs 1 tab')"

definition check_pcos :: "layout \<Rightarrow> memory \<Rightarrow> int \<Rightarrow> int \<Rightarrow> tables \<Rightarrow> tables" where
  "check_pcos F m p len t =
     (let ws = words m p len
      in t\<lparr>pcos_dat := keep MAXNPCOSDAT ws (pcos_dat t), pcos := pcos_loop F ws 1 (pcos t)\<rparr>)"

definition check_pcos_init :: "tables \<Rightarrow> tables" where
  "check_pcos_init t =
     t\<lparr>pcos_dat := [],
       pcos := exchange_sort pc_addr (map (\<lambda>r. r\<lparr>pc_hit := replicate NCHPCOS 0\<rparr>) (pcos t))\<rparr>"

definition show_pcos :: "int \<Rightarrow> tables \<Rightarrow> tables" where
  "show_pcos itvl t = t\<lparr>show_pcos_count := (if show_pcos_count t + 1 < itvl then show_pcos_count t + 1 else 0)\<rparr>"

section \<open>Sorting\<close>

lemma mset_pass: "add_mset (fst (pass key a bs)) (mset (snd (pass key a bs))) = add_mset a (mset bs)"
  by (induction bs arbitrary: a) (auto simp: split_beta add_mset_commute)

lemma pass_min: "x \<in> set (a # bs) \<Longrightarrow> key (fst (pass key a bs)) \<le> key x"
proof (induction bs arbitrary: a x)
  case (Cons b bs)
  from Cons.IH [of _ a] Cons.IH [of _ b] Cons.prems show ?case
    by (fastforce simp: split_beta)
qed simp

lemma mset_exchange_sort: "mset (exchange_sort key as) = mset as"
  by (induction key as rule: exchange_sort.induct) (auto simp: mset_pass)

lemma set_exchange_sort: "set (exchange_sort key as) = set as"
  by (metis mset_exchange_sort mset_eq_setD)

lemma sorted_exchange_sort: "sorted (map key (exchange_sort key as))"
proof (induction key as rule: exchange_sort.induct)
  case (2 key a as)
  have "set (fst (pass key a as) # snd (pass key a as)) = set (a # as)"
    using arg_cong [OF mset_pass, of set_mset key a as] by simp
  then have "key (fst (pass key a as)) \<le> key x" if "x \<in> set (snd (pass key a as))" for x
    using that pass_min [of x a as key] by auto
  with 2 show ?case by (auto simp: set_exchange_sort)
qed simp

lemma pass_sorted: "sorted (map key (a # bs)) \<Longrightarrow> pass key a bs = (a, bs)"
  by (induction bs) auto

lemma exchange_sort_id: "sorted (map key as) \<Longrightarrow> exchange_sort key as = as"
proof (induction key as rule: exchange_sort.induct)
  case (2 key a as)
  then show ?case
    using pass_sorted [OF "2.prems"] by simp
qed simp

lemma sort_clear_twice:
  assumes "\<And>r. f (f r) = f r"
  shows "exchange_sort key (map f (exchange_sort key (map f as))) = exchange_sort key (map f as)"
proof -
  have "map f (exchange_sort key (map f as)) = exchange_sort key (map f as)"
    by (rule map_idI) (auto simp: set_exchange_sort assms)
  then show ?thesis
    by (simp add: exchange_sort_id sorted_exchange_sort)
qed

section \<open>Tables with keys\<close>

lemma length_keep: "length dat \<le> n \<Longrightarrow> length (keep n ws dat) \<le> n"
  by (simp add: keep_def)

lemma search_le: "search key x as \<le> length as"
  by (induction as) auto

lemma search_hit: "search key x as < length as \<Longrightarrow> key (as ! search key x as) = x"
  by (induction as) auto

lemma search_miss: "search key x as = length as \<longleftrightarrow> x \<notin> key ` set as"
  by (induction as) auto

text \<open>
  The three tables of modules follow one discipline: an entry is looked up by its number and made when there is none. The
  locale has the key, what every entry satisfies, a new entry and the size of the array.
\<close>

locale keyed_table =
  fixes key :: "'a \<Rightarrow> int"
    and good :: "'a \<Rightarrow> bool"
    and fresh :: "int \<Rightarrow> 'a"
    and limit :: nat
  assumes key_fresh: "key (fresh x) = x"
    and good_fresh: "good (fresh x)"
begin

definition invar :: "'a list \<Rightarrow> bool" where
  "invar tab \<longleftrightarrow> length tab \<le> limit \<and> distinct (map key tab) \<and> (\<forall>r\<in>set tab. good r)"

lemma slot_index: "search key x tab < length (slot key fresh x tab)" "key (slot key fresh x tab ! search key x tab) = x"
proof -
  have "search key x tab = length tab" if "\<not> search key x tab < length tab"
    using that search_le [of key x tab] by simp
  then show "search key x tab < length (slot key fresh x tab)" "key (slot key fresh x tab ! search key x tab) = x"
    using search_hit [of key x tab] key_fresh by (auto simp: slot_def nth_append not_less)
qed

lemma slot_invar:
  assumes "invar tab" and "search key x tab < limit"
  shows "invar (slot key fresh x tab)"
proof (cases "search key x tab \<ge> length tab")
  case True
  then have "search key x tab = length tab"
    using search_le [of key x tab] by simp
  with assms search_miss [of key x tab] show ?thesis
    by (auto simp: slot_def invar_def key_fresh good_fresh)
next
  case False
  with assms(1) show ?thesis by (simp add: slot_def)
qed

lemma invar_nth: "invar tab \<Longrightarrow> i < length tab \<Longrightarrow> good (tab ! i)"
  by (simp add: invar_def)

lemma update_invar:
  assumes "invar tab" and "i < length tab" and "good r" and "key r = key (tab ! i)"
  shows "invar (tab[i := r])"
proof -
  have "map key (tab[i := r]) = map key tab"
    using assms(2,4) by (metis list_update_id map_update nth_map)
  with assms show ?thesis
    by (auto simp: invar_def dest: set_update_subset_insert [THEN subsetD])
qed

lemma map_invar:
  assumes "invar tab" and "\<And>r. good r \<Longrightarrow> good (f r)" and "\<And>r. key (f r) = key r"
  shows "invar (map f tab)"
  using assms by (auto simp: invar_def comp_def)

lemma sort_invar: "invar (exchange_sort key tab) = invar tab"
proof -
  have "mset (map key (exchange_sort key tab)) = mset (map key tab)"
    by (simp add: mset_exchange_sort)
  then have "distinct (map key (exchange_sort key tab)) = distinct (map key tab)"
    by (rule mset_eq_imp_distinct_iff)
  then show ?thesis
    using mset_exchange_sort [of key tab] by (auto simp: invar_def set_exchange_sort dest: mset_eq_length)
qed

end

definition fera_ok :: "FERA \<Rightarrow> bool" where
  "fera_ok r \<longleftrightarrow> length (fera_data r) = NCHFERA"

definition lr3377_ok :: "LR3377 \<Rightarrow> bool" where
  "lr3377_ok r \<longleftrightarrow> length (lr_data r) = NCH3377 \<and> length (lr_nhit r) = NCH3377"

definition pcos_ok :: "PCOS \<Rightarrow> bool" where
  "pcos_ok r \<longleftrightarrow> length (pc_hit r) = NCHPCOS \<and> length (pc_nhit r) = NCHPCOS"

interpretation ft: keyed_table fera_id fera_ok new_fera MAXFERAMODS
  by unfold_locales (simp_all add: fera_ok_def new_fera_def)

interpretation lt: keyed_table lr_id lr3377_ok new_lr3377 MAX3377MODS
  by unfold_locales (simp_all add: lr3377_ok_def new_lr3377_def)

interpretation pt: keyed_table pc_addr pcos_ok new_pcos MAXPCOSMODS
  by unfold_locales (simp_all add: pcos_ok_def new_pcos_def)

section \<open>The tables stay within the arrays\<close>

definition inpreg_ok :: "tables \<Rightarrow> bool" where
  "inpreg_ok t \<longleftrightarrow> length (inpreg t) = MAXINPREGMODS \<and> ninpreg t \<le> MAXINPREGMODS \<and> cinpreg t \<le> MAXINPREGMODS \<and>
     (\<forall>r\<in>set (inpreg t). length (in_diff r) = NCHINPREG \<and> length (in_sum r) = NCHINPREG)"

definition tables_ok :: "tables \<Rightarrow> bool" where
  "tables_ok t \<longleftrightarrow> inpreg_ok t \<and> ft.invar (fera t) \<and> lt.invar (lr3377 t) \<and> pt.invar (pcos t) \<and>
     length (inpreg_dat t) \<le> MAXNINPREGDAT \<and> length (fera_dat t) \<le> MAXNFERADAT \<and> length (lr3377_dat t) \<le> MAXN3377DAT \<and>
     length (pcos_dat t) \<le> MAXNPCOSDAT"

lemma count_bits_ok:
  "length (in_diff r) = NCHINPREG \<and> length (in_sum r) = NCHINPREG \<Longrightarrow>
   length (in_diff (count_bits w r)) = NCHINPREG \<and> length (in_sum (count_bits w r)) = NCHINPREG"
  by (simp add: count_bits_def Let_def)

lemma inpreg_loop_ok: "inpreg_ok t \<Longrightarrow> inpreg_ok (inpreg_loop ws t)"
proof (induction ws t rule: inpreg_loop.induct)
  case (2 w ws t)
  show ?case
  proof (cases "cinpreg t \<ge> MAXINPREGMODS")
    case False
    then have "inpreg_ok (t\<lparr>inpreg := (inpreg t)[cinpreg t := count_bits w (inpreg t ! cinpreg t)], cinpreg := Suc (cinpreg t),
        ninpreg := Suc (cinpreg t)\<rparr>)"
      using "2.prems" count_bits_ok [of "inpreg t ! cinpreg t" w]
      by (auto simp: inpreg_ok_def dest!: set_update_subset_insert [THEN subsetD])
    with "2.IH" [OF False] False show ?thesis by simp
  qed (use "2.prems" in simp)
qed simp

lemma inpreg_loop_frame:
  "fera (inpreg_loop ws t) = fera t \<and> lr3377 (inpreg_loop ws t) = lr3377 t \<and> pcos (inpreg_loop ws t) = pcos t \<and>
   inpreg_dat (inpreg_loop ws t) = inpreg_dat t \<and> fera_dat (inpreg_loop ws t) = fera_dat t \<and>
   lr3377_dat (inpreg_loop ws t) = lr3377_dat t \<and> pcos_dat (inpreg_loop ws t) = pcos_dat t"
  by (induction ws t rule: inpreg_loop.induct) auto

lemma inpreg_ok_cong:
  "inpreg t' = inpreg t \<Longrightarrow> ninpreg t' = ninpreg t \<Longrightarrow> cinpreg t' = cinpreg t \<Longrightarrow> inpreg_ok t' = inpreg_ok t"
  by (simp add: inpreg_ok_def)

lemma check_inpreg_ok: "tables_ok t \<Longrightarrow> tables_ok (check_inpreg m p len t)"
  using inpreg_loop_ok [of "t\<lparr>inpreg_dat := keep MAXNINPREGDAT (words m p len) (inpreg_dat t)\<rparr>" "words m p len"]
  by (simp add: tables_ok_def check_inpreg_def Let_def inpreg_loop_frame length_keep inpreg_ok_def)

lemma fera_hits_ok: "fera_ok r \<Longrightarrow> fera_ok (fera_hits F ws r) \<and> fera_id (fera_hits F ws r) = fera_id r"
  unfolding fera_hits_def by (induction ws arbitrary: r) (auto simp: fera_ok_def)

lemma check_fera_ok:
  assumes t: "tables_ok t"
  shows "tables_ok (check_fera F m p len t)"
proof -
  let ?x = "fera_vsn F (m p)" and ?i = "search fera_id (fera_vsn F (m p)) (fera t)"
  let ?s = "slot fera_id new_fera ?x (fera t)"
  have "ft.invar (?s[?i := fera_hits F ws (?s ! ?i)])" if "?i < MAXFERAMODS" for ws
  proof -
    have i: "ft.invar ?s" "?i < length ?s"
      using t that by (auto simp: tables_ok_def intro: ft.slot_invar ft.slot_index)
    with fera_hits_ok [OF ft.invar_nth [OF i]] show ?thesis by (intro ft.update_invar) auto
  qed
  with t show ?thesis
    by (auto simp: check_fera_def Let_def tables_ok_def length_keep inpreg_ok_def not_le)
qed

lemma lr3377_hit_ok: "lr3377_ok r \<Longrightarrow> lr3377_ok (lr3377_hit F w r) \<and> lr_id (lr3377_hit F w r) = lr_id r"
  "lr3377_ok (r\<lparr>lr_evt := e\<rparr>) = lr3377_ok r"
  by (auto simp: lr3377_hit_def lr3377_ok_def)

lemma lr3377_loop_ok:
  "lt.invar tab \<Longrightarrow> (\<forall>k. i = Some k \<longrightarrow> k < length tab) \<Longrightarrow> lt.invar (lr3377_loop F ws i tab)"
proof (induction F ws i tab rule: lr3377_loop.induct)
  case (2 F w ws i tab)
  let ?x = "lr3377_id F w" and ?k = "search lr_id (lr3377_id F w) tab"
  let ?s = "slot lr_id new_lr3377 ?x tab"
  show ?case
  proof (cases "lr3377_hdr F w")
    case hdr: True
    show ?thesis
    proof (cases "?k \<ge> MAX3377MODS")
      case False
      then have s: "lt.invar ?s" "?k < length ?s"
        using "2.prems"(1) lt.slot_invar lt.slot_index(1) by auto
      then have "lt.invar (?s[?k := (?s ! ?k)\<lparr>lr_evt := lr3377_evt F w\<rparr>])"
        by (intro lt.update_invar) (auto simp: lr3377_hit_ok intro: lt.invar_nth)
      with "2.IH"(1) [OF hdr False refl refl] s(2) hdr False show ?thesis
        by (simp add: Let_def)
    qed (use hdr "2.prems" in simp)
  next
    case dat: False
    show ?thesis
    proof (cases i)
      case None
      with "2.IH"(2) [OF dat None] dat "2.prems" show ?thesis by simp
    next
      case (Some k)
      with "2.prems" have k: "k < length tab" "lt.invar tab" by auto
      with lr3377_hit_ok(1) [OF lt.invar_nth [OF k(2,1)]] have "lt.invar (tab[k := lr3377_hit F w (tab ! k)])"
        by (intro lt.update_invar) auto
      with "2.IH"(3) [OF dat Some] dat Some k show ?thesis by simp
    qed
  qed
qed simp

lemma pcos_wire_ok: "pcos_ok r \<Longrightarrow> pcos_ok (pcos_wire F w r) \<and> pc_addr (pcos_wire F w r) = pc_addr r"
  by (auto simp: pcos_wire_def pcos_ok_def)

lemma pcos_cluster_ok: "pt.invar tab \<Longrightarrow> pt.invar (snd (pcos_cluster F k w tab))"
proof (induction F k w tab rule: pcos_cluster.induct)
  case (2 F k w tab)
  let ?x = "pcos_addr F w" and ?i = "search pc_addr (pcos_addr F w) tab"
  let ?s = "slot pc_addr new_pcos ?x tab"
  show ?case
  proof (cases "?i \<ge> MAXPCOSMODS")
    case False
    then have s: "pt.invar ?s" "?i < length ?s"
      using "2.prems"(1) pt.slot_invar pt.slot_index(1) by auto
    with pcos_wire_ok [OF pt.invar_nth [OF s]] have "pt.invar (?s[?i := pcos_wire F w (?s ! ?i)])"
      by (intro pt.update_invar) auto
    with "2.IH" [OF False refl refl] False show ?thesis
      by (simp add: Let_def)
  qed (use "2.prems" in simp)
qed simp

lemma pcos_loop_ok: "pt.invar tab \<Longrightarrow> pt.invar (pcos_loop F ws w tab)"
proof (induction F ws w tab rule: pcos_loop.induct)
  case (2 F x xs w tab)
  from pcos_cluster_ok [OF "2.prems", of F w "x - (word_of_nat w - 1)"] 2 show ?case
    by (auto split: prod.splits bool.splits)
qed simp

lemma check_lr3377_ok: "tables_ok t \<Longrightarrow> tables_ok (check_lr3377 F m p len t)"
  by (simp add: tables_ok_def check_lr3377_def Let_def length_keep inpreg_ok_def lr3377_loop_ok)

lemma check_pcos_ok: "tables_ok t \<Longrightarrow> tables_ok (check_pcos F m p len t)"
  by (simp add: tables_ok_def check_pcos_def Let_def length_keep inpreg_ok_def pcos_loop_ok)

lemma init_ok:
  assumes "tables_ok t"
  shows "tables_ok (check_inpreg_init t)" "tables_ok (check_fera_init t)" "tables_ok (check_lr3377_init t)" "tables_ok (check_pcos_init t)"
proof -
  have "ft.invar (map (\<lambda>r. r\<lparr>fera_data := replicate NCHFERA (-1)\<rparr>) (fera t))"
    using assms by (intro ft.map_invar) (simp_all add: tables_ok_def fera_ok_def)
  moreover have "lt.invar (map (\<lambda>r. r\<lparr>lr_evt := -1, lr_data := replicate NCH3377 (-1)\<rparr>) (lr3377 t))"
  proof (rule lt.map_invar)
    show "lt.invar (lr3377 t)" using assms by (simp add: tables_ok_def)
  qed (simp_all add: lr3377_ok_def)
  moreover have "pt.invar (map (\<lambda>r. r\<lparr>pc_hit := replicate NCHPCOS 0\<rparr>) (pcos t))"
  proof (rule pt.map_invar)
    show "pt.invar (pcos t)" using assms by (simp add: tables_ok_def)
  qed (simp_all add: pcos_ok_def)
  ultimately show "tables_ok (check_inpreg_init t)" "tables_ok (check_fera_init t)" "tables_ok (check_lr3377_init t)"
    "tables_ok (check_pcos_init t)"
    using assms
    by (simp_all add: tables_ok_def inpreg_ok_def check_inpreg_init_def check_fera_init_def check_lr3377_init_def
        check_pcos_init_def ft.sort_invar lt.sort_invar pt.sort_invar)
qed

lemma show_ok:
  "tables_ok t \<Longrightarrow> tables_ok (show_inpreg i t)" "tables_ok t \<Longrightarrow> tables_ok (show_fera i t)"
  "tables_ok t \<Longrightarrow> tables_ok (show_lr3377 i t)" "tables_ok t \<Longrightarrow> tables_ok (show_pcos i t)"
  by (auto simp: tables_ok_def inpreg_ok_def show_inpreg_def show_fera_def show_lr3377_def show_pcos_def
      dest: in_set_takeD in_set_dropD)

end
