(* ===== verification/Format_Check.thy ===== *)
theory Format_Check
  imports Format_Modules
begin

text \<open>
  The data format checker (\<^verbatim>\<open>router/tools/check_format_lib.c\<close>): regions, fields, events, run comments and blocks, with the
  counters of what was found. A pointer is a position in a memory of 16 bit words; \<open>te\<close> is the end of the part a function
  was given. The loops over fields and events may not end; they have a bound on the number of their rounds, and
  \<open>None\<close> is a loop that needs more.
\<close>

section \<open>Constants of mtformat.h\<close>

definition BlkHeaderID :: "16 word" where "BlkHeaderID = 0xFFFF"
definition BlkTrailerID :: "16 word" where "BlkTrailerID = 0xFFEF"
definition EvtHeaderID :: "16 word" where "EvtHeaderID = 0xFFDF"
definition FldHeaderID :: "16 word" where "FldHeaderID = 0xFFCF"
definition DataBlockID :: "16 word" where "DataBlockID = 0"
definition ScalerBlockID :: "16 word" where "ScalerBlockID = 0x0E00"
definition StartBlockID :: "16 word" where "StartBlockID = 0x0F01"
definition EndBlockID :: "16 word" where "EndBlockID = 0x0F02"
definition DataEvent :: "16 word" where "DataEvent = 0"
definition BlockEndEvent :: "16 word" where "BlockEndEvent = 1"
definition FieldID :: "16 word" where "FieldID = 0"
definition ModuleIDMask :: "16 word" where "ModuleIDMask = 0xF000"
definition DataLengthMask :: "16 word" where "DataLengthMask = 0x0FFF"
definition ID_Reserved :: "16 word" where "ID_Reserved = 0x0000"
definition ID_NimIn :: "16 word" where "ID_NimIn = 0x2000"
definition ID_3377 :: "16 word" where "ID_3377 = 0x7000"
definition ID_4299_MWPC :: "16 word" where "ID_4299_MWPC = 0xA000"
definition ID_FERA_ADC :: "16 word" where "ID_FERA_ADC = 0xD000"
definition ID_FERA_TDC :: "16 word" where "ID_FERA_TDC = 0xE000"

section \<open>Counters\<close>

text \<open>The enumeration of the counters; \<^verbatim>\<open>CNT_NUM_RGN_0\<close> to \<^verbatim>\<open>CNT_NUM_RGN_f\<close> are \<open>CNT_NUM_RGN\<close> with the number.\<close>

datatype cnt =
    CNT_NUM_BLKS | CNT_NUM_EVTS | CNT_NUM_FLDS | CNT_NUM_RGNS | CNT_NUM_RGN nat
  | CNT_ERR_BLKS | CNT_ERR_EVTS | CNT_ERR_FLDS | CNT_ERR_RGNS
  | CNT_ERR_BLK_HEADER | CNT_ERR_BLK_TRAILER | CNT_ERR_BLK_SIZE | CNT_ERR_BLK_CONT
  | CNT_ERR_EVT_HEADER | CNT_ERR_EVT_SIZE | CNT_ERR_EVT_CONT
  | CNT_ERR_FLD_HEADER | CNT_ERR_FLD_SIZE | CNT_ERR_FLD_CONT | CNT_ERR_FLD_CHKSUM
  | CNT_ERR_RGN_HEADER | CNT_ERR_RGN_SIZE | CNT_ERR_RGN_CONT

type_synonym counters = "cnt \<Rightarrow> int"

record intervals =
  show_inpreg_itvl :: int
  show_fera_itvl :: int
  show_3377_itvl :: int
  show_pcos_itvl :: int

record fmt =
  counter :: counters
  blk_num :: int
  tabs :: tables

definition clear_counters :: "fmt \<Rightarrow> fmt" where
  "clear_counters s = s\<lparr>counter := (\<lambda>_. 0), blk_num := 0\<rparr>"

text \<open>\<^verbatim>\<open>counter[c]++\<close>, and \<^verbatim>\<open>if(b) counter[c]++\<close>.\<close>

definition tick :: "cnt \<Rightarrow> fmt \<Rightarrow> fmt" where
  "tick c s = s\<lparr>counter := (counter s)(c := counter s c + 1)\<rparr>"

definition tick_if :: "bool \<Rightarrow> cnt \<Rightarrow> fmt \<Rightarrow> fmt" where
  "tick_if b c s = (if b then tick c s else s)"

section \<open>Regions\<close>

text \<open>The modules that keep tables look at the words of their regions.\<close>

definition check_module :: "layout \<Rightarrow> memory \<Rightarrow> int \<Rightarrow> fmt \<Rightarrow> fmt" where
  "check_module F m p s =
     (let rgn_id = m p AND ModuleIDMask; len = uint (m p AND DataLengthMask)
      in if rgn_id = ID_FERA_ADC \<or> rgn_id = ID_FERA_TDC then s\<lparr>tabs := check_fera F m (p + 1) len (tabs s)\<rparr>
         else if rgn_id = ID_3377 then s\<lparr>tabs := check_lr3377 F m (p + 1) len (tabs s)\<rparr>
         else if rgn_id = ID_NimIn then s\<lparr>tabs := check_inpreg m (p + 1) len (tabs s)\<rparr>
         else if rgn_id = ID_4299_MWPC then s\<lparr>tabs := check_pcos F m (p + 2) (len - 1) (tabs s)\<rparr>
         else s)"

text \<open>
  The search for the next header behind a reserved region stops at the next word in any case, which gives the region the
  size 0.
\<close>

lemma minus_one_less_uint [simp]: "-1 < uint (w :: 'a :: len word)"
proof -
  have "0 \<le> uint w" by simp
  then show ?thesis by linarith
qed

function check_rgns :: "layout \<Rightarrow> memory \<Rightarrow> int \<Rightarrow> int \<Rightarrow> fmt \<Rightarrow> int \<times> int \<times> fmt" where
  "check_rgns F m p te s =
     (if p < te then
        let rgn_id = m p AND ModuleIDMask;
            reserved = (rgn_id = ID_Reserved);
            rgn_size = (if reserved then 0 else uint (m p AND DataLengthMask));
            s1 = check_module F m p (tick (CNT_NUM_RGN (nat (uint (drop_bit 12 rgn_id)))) (tick CNT_NUM_RGNS s));
            too_long = (p + rgn_size + 1 > te);
            rgn_err = of_bool reserved + of_bool too_long;
            s2 = tick_if (rgn_err \<noteq> 0) CNT_ERR_RGNS (tick_if too_long CNT_ERR_RGN_SIZE s1)
        in case check_rgns F m (p + rgn_size + 1) te s2 of (n, err, s') \<Rightarrow> (n + 1, err + rgn_err, s')
      else (0, 0, s))"
  by pat_completeness auto

termination
  by (relation "measure (\<lambda>(F, m, p, te, s). nat (te - p))") auto

section \<open>Fields\<close>

text \<open>\<^verbatim>\<open>while(ptr < te){ if(stop(*ptr)) break; ptr++; }\<close>\<close>

function skip_to :: "(16 word \<Rightarrow> bool) \<Rightarrow> memory \<Rightarrow> int \<Rightarrow> int \<Rightarrow> int" where
  "skip_to stop m p te = (if p < te \<and> \<not> stop (m p) then skip_to stop m (p + 1) te else p)"
  by pat_completeness auto

termination
  by (relation "measure (\<lambda>(stop, m, p, te). nat (te - p))") auto

definition init_tables :: "tables \<Rightarrow> tables" where
  "init_tables t = check_pcos_init (check_lr3377_init (check_fera_init (check_inpreg_init t)))"

definition show_tables :: "intervals \<Rightarrow> tables \<Rightarrow> tables" where
  "show_tables I t =
     show_pcos (show_pcos_itvl I) (show_lr3377 (show_3377_itvl I) (show_fera (show_fera_itvl I) (show_inpreg (show_inpreg_itvl I) t)))"

text \<open>One field whose header is at \<open>p\<close>: its errors, the position behind it and the state.\<close>

definition check_fld :: "layout \<Rightarrow> memory \<Rightarrow> int \<Rightarrow> int \<Rightarrow> fmt \<Rightarrow> int \<times> int \<times> fmt" where
  "check_fld F m p te s =
     (let s1 = tick CNT_NUM_FLDS s;
          headerSize = uint (m (p + 1));
          fieldSize = uint (m (p + 3));
          tp = p + (headerSize + fieldSize);
          bad_size = (tp > te \<or> tp < te \<and> m tp \<noteq> FldHeaderID);
          e1 = of_bool (m p \<noteq> FldHeaderID) + of_bool (headerSize \<noteq> 4) + of_bool (m (p + 2) AND NOT 7 \<noteq> FieldID) + of_bool bad_size;
          s2 = tick_if (e1 \<noteq> 0) CNT_ERR_FLD_HEADER (tick_if bad_size CNT_ERR_FLD_SIZE s1);
          q = p + headerSize;
          (n, rgn_err, s3) = (if q \<le> te then check_rgns F m q (q + fieldSize) s2 else (0, 0, s2));
          fld_err = e1 + rgn_err;
          s4 = tick_if (fld_err \<noteq> 0) CNT_ERR_FLDS (tick_if (rgn_err \<noteq> 0) CNT_ERR_FLD_CONT s3)
      in (fld_err, q + fieldSize, s4))"

fun flds_loop :: "nat \<Rightarrow> layout \<Rightarrow> memory \<Rightarrow> int \<Rightarrow> int \<Rightarrow> fmt \<Rightarrow> (int \<times> int \<times> fmt) option" where
  "flds_loop 0 F m p te s = None"
| "flds_loop (Suc fuel) F m p te s =
     (if p < te then
        let p1 = skip_to (\<lambda>w. w = FldHeaderID) m p te
        in if p1 \<ge> te then Some (0, 0, s)
           else
             case check_fld F m p1 te s of
               (fld_err, p2, s1) \<Rightarrow>
                 map_option (\<lambda>(n, err, s'). (n + 1, err + fld_err, s')) (flds_loop fuel F m p2 te s1)
      else Some (0, 0, s))"

definition check_flds :: "nat \<Rightarrow> intervals \<Rightarrow> layout \<Rightarrow> memory \<Rightarrow> int \<Rightarrow> int \<Rightarrow> fmt \<Rightarrow> (int \<times> int \<times> fmt) option" where
  "check_flds fuel I F m p sz s =
     map_option (\<lambda>(n, err, s'). (n, err, s'\<lparr>tabs := show_tables I (tabs s')\<rparr>))
       (flds_loop fuel F m p (p + sz) (s\<lparr>tabs := init_tables (tabs s)\<rparr>))"

section \<open>Events\<close>

text \<open>
  One event whose header is at \<open>p\<close>, when it does not run over the end: its errors, the number after it and the state.
\<close>

definition evt_header :: "memory \<Rightarrow> int \<Rightarrow> int \<Rightarrow> int \<Rightarrow> fmt \<Rightarrow> int \<times> int \<times> fmt" where
  "evt_header m p te evt_num s =
     (let tp = p + (uint (m (p + 1)) + uint (m (p + 3)));
          bad_size = (tp < te \<and> m tp \<noteq> EvtHeaderID \<and> m tp \<noteq> BlkTrailerID);
          number = uint (m (p + 4));
          e = of_bool (m p \<noteq> EvtHeaderID) + of_bool (uint (m (p + 1)) \<noteq> 6) +
              of_bool (m (p + 2) \<noteq> DataEvent \<and> m (p + 2) \<noteq> BlockEndEvent) + of_bool bad_size + of_bool (number \<noteq> evt_num - 1);
          s1 = tick_if (e \<noteq> 0) CNT_ERR_EVT_HEADER (tick_if bad_size CNT_ERR_EVT_SIZE s)
      in (e, (if number \<noteq> evt_num - 1 then number + 1 else evt_num), s1))"

text \<open>
  The body of the loop after the search for a header at \<open>p\<close>: \<open>Inl\<close> leaves the loop, \<open>Inr\<close> goes on at the given position.
  The \<^verbatim>\<open>break\<close> for an event that runs over the end loses the error found.
\<close>

definition check_evt ::
  "nat \<Rightarrow> intervals \<Rightarrow> layout \<Rightarrow> memory \<Rightarrow> int \<Rightarrow> int \<Rightarrow> int \<Rightarrow> int \<Rightarrow> fmt \<Rightarrow> (int \<times> int \<times> fmt + int \<times> int \<times> int \<times> fmt) option" where
  "check_evt fuel I F m p te evt_num err s =
     (let s1 = tick CNT_NUM_EVTS s;
          hs = uint (m (p + 1));
          sz = uint (m (p + 3))
      in if p + (hs + sz) > te then Some (Inl (evt_num + 1, err, tick CNT_ERR_EVT_SIZE s1))
         else
           case evt_header m p te (evt_num + 1) s1 of
             (e, n, s2) \<Rightarrow>
               map_option (\<lambda>(fld_num, fld_err, s3).
                   let e2 = e + fld_err + of_bool (uint (m (p + 5)) \<noteq> fld_num);
                       s4 = tick_if (e2 \<noteq> 0) CNT_ERR_EVTS (tick_if (fld_err \<noteq> 0) CNT_ERR_EVT_CONT s3)
                   in Inr (p + hs + sz, n, err + e2, s4))
                 (check_flds fuel I F m (p + hs) sz s2))"

definition next_event :: "memory \<Rightarrow> int \<Rightarrow> int \<Rightarrow> int" where
  "next_event m p te = (if m p \<noteq> EvtHeaderID then skip_to (\<lambda>w. w = EvtHeaderID \<or> w = BlkTrailerID) m p te else p)"

fun evts_loop :: "nat \<Rightarrow> intervals \<Rightarrow> layout \<Rightarrow> memory \<Rightarrow> int \<Rightarrow> int \<Rightarrow> int \<Rightarrow> int \<Rightarrow> fmt \<Rightarrow> (int \<times> int \<times> fmt) option" where
  "evts_loop 0 I F m p te evt_num err s = None"
| "evts_loop (Suc fuel) I F m p te evt_num err s =
     (if m p = BlkTrailerID \<or> next_event m p te \<ge> te \<or> m (next_event m p te) = BlkTrailerID then Some (evt_num, err, s)
      else
        case check_evt fuel I F m (next_event m p te) te evt_num err s of
          None \<Rightarrow> None
        | Some (Inl r) \<Rightarrow> Some r
        | Some (Inr (p', n, err', s')) \<Rightarrow> evts_loop fuel I F m p' te n err' s')"

definition check_evts :: "nat \<Rightarrow> intervals \<Rightarrow> layout \<Rightarrow> memory \<Rightarrow> int \<Rightarrow> int \<Rightarrow> fmt \<Rightarrow> (int \<times> int \<times> fmt) option" where
  "check_evts fuel I F m p sz s = evts_loop fuel I F m p (p + sz) 0 0 s"

section \<open>Blocks\<close>

text \<open>
  \<^verbatim>\<open>check_com\<close> prints the comment. Its error count is never changed: \<^verbatim>\<open>*error++\<close> moves the pointer.
\<close>

definition check_com :: "memory \<Rightarrow> int \<Rightarrow> int \<Rightarrow> int \<Rightarrow> int" where
  "check_com m p sz err = err"

definition valid_block_id :: "16 word \<Rightarrow> bool" where
  "valid_block_id b \<longleftrightarrow>
     b \<in> {DataBlockID, DataBlockID + 1, DataBlockID + 2, DataBlockID + 3, DataBlockID + 4, DataBlockID + 5, DataBlockID + 6,
          DataBlockID + 7, ScalerBlockID, StartBlockID, EndBlockID}"

definition blockSize32 :: "memory \<Rightarrow> 32 word" where
  "blockSize32 m = ucast (m 6) OR push_bit 16 (ucast (m 7))"

text \<open>The size in the header against the size of the buffer; both sides are unsigned.\<close>

definition bad_block_size :: "memory \<Rightarrow> int \<Rightarrow> bool" where
  "bad_block_size m sz \<longleftrightarrow>
     uint (m 1) = 6 \<and> (ucast (m 3) :: 32 word) > word_of_int sz - 8 \<or> uint (m 1) = 8 \<and> blockSize32 m > word_of_int sz - 8"

definition blk_header :: "memory \<Rightarrow> int \<Rightarrow> fmt \<Rightarrow> int \<times> fmt" where
  "blk_header m sz s =
     (let s1 = tick CNT_NUM_BLKS s;
          e1 = of_bool (m 0 \<noteq> BlkHeaderID) + of_bool (uint (m 1) \<noteq> 8) + of_bool (\<not> valid_block_id (m 2)) + of_bool (bad_block_size m sz);
          s2 = tick_if (bad_block_size m sz) CNT_ERR_BLK_SIZE s1;
          is_data = (m 2 AND NOT 7 = DataBlockID);
          wrong_num = (is_data \<and> uint (m 4) \<noteq> blk_num s2);
          s3 = (if wrong_num then s2\<lparr>blk_num := uint (m 4) + 1\<rparr> else if is_data then s2\<lparr>blk_num := blk_num s2 + 1\<rparr> else s2);
          e2 = e1 + of_bool wrong_num
      in (e2, tick_if (e2 \<noteq> 0) CNT_ERR_BLK_HEADER s3))"

definition blk_trailer :: "memory \<Rightarrow> int \<Rightarrow> int" where
  "blk_trailer m sz =
     (let p = 8 + (if uint (m 1) = 6 then uint (m 3) else sint (blockSize32 m)) - 2
      in if p + 2 > sz then 1 else of_bool (m p \<noteq> BlkTrailerID) + of_bool (uint (m (p + 1)) \<noteq> 2))"

definition check_buf :: "nat \<Rightarrow> intervals \<Rightarrow> layout \<Rightarrow> memory \<Rightarrow> int \<Rightarrow> fmt \<Rightarrow> fmt option" where
  "check_buf fuel I F m sz s =
     (case blk_header m sz s of
        (blk_err, s1) \<Rightarrow>
          if m 2 = StartBlockID \<or> m 2 = EndBlockID then
            Some (tick_if (check_com m 8 (sz - 8) blk_err \<noteq> 0) CNT_ERR_BLK_HEADER s1)
          else
            (case check_evts fuel I F m 8 (sz - 10) s1 of
               None \<Rightarrow> None
             | Some (evt_num, evt_err, s2) \<Rightarrow>
                 let trl_err = blk_trailer m sz;
                     e = blk_err + evt_err + of_bool (uint (m 5) \<noteq> evt_num) + trl_err
                 in Some (tick_if (e \<noteq> 0) CNT_ERR_BLKS
                            (tick_if (trl_err \<noteq> 0) CNT_ERR_BLK_TRAILER (tick_if (evt_err \<noteq> 0) CNT_ERR_BLK_CONT s2)))))"

end
