(* ===== verification/Format_Correct.thy ===== *)
theory Format_Correct
  imports Format_Check
begin

text \<open>
  What the format checker shows: the data format as an abstract tree of blocks, events, fields and regions with its encoding,
  the proof that the checker finds exactly this tree in an encoded block and no error, when its loops end, and the cases it
  misses.
\<close>

declare check_rgns.simps [simp del] skip_to.simps [simp del]

section \<open>The data format\<close>

type_synonym region = "nat \<times> 16 word list"
type_synonym field = "nat \<times> region list"
type_synonym event = "bool \<times> field list"

definition enc_rgn :: "region \<Rightarrow> 16 word list" where
  "enc_rgn r = word_of_nat (fst r * 4096 + length (snd r)) # snd r"

definition enc_rgns :: "region list \<Rightarrow> 16 word list" where
  "enc_rgns rs = concat (map enc_rgn rs)"

definition enc_fld :: "field \<Rightarrow> 16 word list" where
  "enc_fld f = [FldHeaderID, 4, word_of_nat (fst f), word_of_nat (length (enc_rgns (snd f)))] @ enc_rgns (snd f)"

definition enc_flds :: "field list \<Rightarrow> 16 word list" where
  "enc_flds fs = concat (map enc_fld fs)"

definition enc_evt :: "nat \<Rightarrow> event \<Rightarrow> 16 word list" where
  "enc_evt n e = [EvtHeaderID, 6, of_bool (fst e), word_of_nat (length (enc_flds (snd e))), word_of_nat n, word_of_nat (length (snd e))]
     @ enc_flds (snd e)"

fun enc_evts :: "nat \<Rightarrow> event list \<Rightarrow> 16 word list" where
  "enc_evts n [] = []"
| "enc_evts n (e # es) = enc_evt n e @ enc_evts (Suc n) es"

definition enc_block :: "16 word \<Rightarrow> nat \<Rightarrow> event list \<Rightarrow> 16 word list" where
  "enc_block bid num es =
     (let n = length (enc_evts 0 es) + 2
      in [BlkHeaderID, 8, bid, 0xFFF0, word_of_nat num, word_of_nat (length es), word_of_nat n, word_of_nat (n div 2 ^ 16)]
         @ enc_evts 0 es @ [BlkTrailerID, 2])"

definition rgn_ok :: "region \<Rightarrow> bool" where
  "rgn_ok r \<longleftrightarrow> 0 < fst r \<and> fst r < 16 \<and> length (snd r) < 4096"

definition fld_ok :: "field \<Rightarrow> bool" where
  "fld_ok f \<longleftrightarrow> fst f < 8 \<and> (\<forall>r\<in>set (snd f). rgn_ok r) \<and> length (enc_rgns (snd f)) < 2 ^ 16"

definition evt_ok :: "event \<Rightarrow> bool" where
  "evt_ok e \<longleftrightarrow> (\<forall>f\<in>set (snd e). fld_ok f) \<and> length (enc_flds (snd e)) < 2 ^ 16"

text \<open>A list of words at a place of the memory.\<close>

fun at :: "memory \<Rightarrow> int \<Rightarrow> 16 word list \<Rightarrow> bool" where
  "at m p [] = True"
| "at m p (w # ws) = (m p = w \<and> at m (p + 1) ws)"

lemma at_append [simp]: "at m p (us @ vs) \<longleftrightarrow> at m p us \<and> at m (p + int (length us)) vs"
  by (induction us arbitrary: p) (auto simp: add.assoc)

lemma enc_simps [simp]:
  "enc_rgns [] = []" "enc_rgns (r # rs) = enc_rgn r @ enc_rgns rs" "enc_flds [] = []" "enc_flds (f # fs) = enc_fld f @ enc_flds fs"
  by (simp_all add: enc_rgns_def enc_flds_def)

section \<open>Counting\<close>

definition up :: "cnt \<Rightarrow> counters \<Rightarrow> counters" where
  "up c k = k(c := k c + 1)"

definition count_rgn :: "region \<Rightarrow> counters \<Rightarrow> counters" where
  "count_rgn r k = up (CNT_NUM_RGN (fst r)) (up CNT_NUM_RGNS k)"

definition count_fld :: "field \<Rightarrow> counters \<Rightarrow> counters" where
  "count_fld f k = fold count_rgn (snd f) (up CNT_NUM_FLDS k)"

definition count_evt :: "event \<Rightarrow> counters \<Rightarrow> counters" where
  "count_evt e k = fold count_fld (snd e) (up CNT_NUM_EVTS k)"

lemma tick_simps [simp]:
  "counter (tick c s) = up c (counter s)" "blk_num (tick c s) = blk_num s" "tabs (tick c s) = tabs s"
  by (simp_all add: tick_def up_def)

lemma tick_if_simps [simp]: "tick_if False c s = s" "tick_if True c s = tick c s"
  by (simp_all add: tick_if_def)

lemma check_module_simps [simp]:
  "counter (check_module F m p s) = counter s" "blk_num (check_module F m p s) = blk_num s"
  by (simp_all add: check_module_def Let_def)

section \<open>Regions\<close>

lemma uint_small: "n < 2 ^ 16 \<Longrightarrow> uint (word_of_nat n :: 16 word) = int n"
  by (simp add: unsigned_of_nat take_bit_nat_eq_self)

lemma uint_take_bit_self: "take_bit LENGTH('a) (uint (w :: 'a :: len word)) = uint w"
  by (rule take_bit_int_eq_self) (simp, rule unsigned_less)

lemma rgn_header:
  assumes "k < 16" and "n < 4096"
  defines "w \<equiv> word_of_nat (k * 4096 + n) :: 16 word"
  shows "uint (w AND DataLengthMask) = int n" "uint (drop_bit 12 (w AND ModuleIDMask)) = int k"
    "0 < k \<Longrightarrow> w AND ModuleIDMask \<noteq> ID_Reserved"
proof -
  have u: "uint w = int k * 4096 + int n"
    unfolding w_def using assms(1,2) by (subst uint_small) simp_all
  have "w AND DataLengthMask = take_bit 12 w"
    using take_bit_eq_mask [of 12 w] by (simp add: DataLengthMask_def mask_eq_exp_minus_1)
  then have "uint (w AND DataLengthMask) = take_bit 12 (uint w)"
    by (simp only: unsigned_take_bit_eq)
  then show "uint (w AND DataLengthMask) = int n"
    using assms(2) by (simp add: u take_bit_eq_mod)
  have "drop_bit 12 (w AND ModuleIDMask) = take_bit 4 (drop_bit 12 w)"
    using take_bit_eq_mask [of 4 "drop_bit 12 w"]
    by (simp add: drop_bit_and ModuleIDMask_def mask_eq_exp_minus_1)
  moreover have "uint (drop_bit 12 w) = drop_bit 12 (uint w)"
    by (simp only: unsigned_drop_bit_eq uint_take_bit_self)
  ultimately have "uint (drop_bit 12 (w AND ModuleIDMask)) = take_bit 4 (drop_bit 12 (uint w))"
    by (simp only: unsigned_take_bit_eq)
  then show d: "uint (drop_bit 12 (w AND ModuleIDMask)) = int k"
    using assms(1,2) by (simp add: u take_bit_eq_mod drop_bit_eq_div)
  show "w AND ModuleIDMask \<noteq> ID_Reserved" if "0 < k"
  proof
    assume z: "w AND ModuleIDMask = ID_Reserved"
    show False
      using d that unfolding z by (simp add: ID_Reserved_def)
  qed
qed

lemma check_rgns_enc:
  assumes "at m p (enc_rgns rs)" and "\<forall>r\<in>set rs. rgn_ok r" and "te = p + int (length (enc_rgns rs))"
  shows "\<exists>s'. check_rgns F m p te s = (int (length rs), 0, s') \<and> counter s' = fold count_rgn rs (counter s) \<and> blk_num s' = blk_num s"
  using assms
proof (induction rs arbitrary: p s)
  case (Cons r rs)
  obtain k ws where r: "r = (k, ws)" by (cases r)
  then have k: "0 < k" "k < 16" "length ws < 4096"
    using Cons.prems(2) by (auto simp: rgn_ok_def)
  have m: "m p = word_of_nat (k * 4096 + length ws)"
    using Cons.prems(1) by (simp add: r enc_rgn_def)
  note h = rgn_header [OF k(2,3), folded m]
  define s1 where "s1 = check_module F m p (tick (CNT_NUM_RGN k) (tick CNT_NUM_RGNS s))"
  define q where "q = p + int (length ws) + 1"
  have rest: "at m q (enc_rgns rs)" "te = q + int (length (enc_rgns rs))"
    using Cons.prems(1,3) by (simp_all add: r enc_rgn_def q_def algebra_simps)
  have "p < te" "q \<le> te"
    using Cons.prems(3) by (simp_all add: r enc_rgn_def q_def)
  then have step: "check_rgns F m p te s = (case check_rgns F m q te s1 of (n, err, s') \<Rightarrow> (n + 1, err + 0, s'))"
    unfolding s1_def q_def by (subst check_rgns.simps) (unfold Let_def h(1,2), simp add: h(3) [OF k(1)])
  from Cons.IH [OF rest(1) _ rest(2), of s1] Cons.prems(2) obtain s' where
    "check_rgns F m q te s1 = (int (length rs), 0, s')" "counter s' = fold count_rgn rs (counter s1)" "blk_num s' = blk_num s1"
    by auto
  then show ?case
    unfolding step using count_rgn_def [of r "counter s"] by (simp add: s1_def r)
qed (simp add: check_rgns.simps)

section \<open>Fields\<close>

lemma skip_to_here: "stop (m p) \<Longrightarrow> skip_to stop m p te = p"
  by (subst skip_to.simps) simp

lemma length_enc_fld: "length (enc_fld f) = 4 + length (enc_rgns (snd f))"
  by (simp add: enc_fld_def)

lemma fieldID_mask: "n < 8 \<Longrightarrow> (word_of_nat n :: 16 word) AND - 8 = FieldID"
  unfolding FieldID_def by (auto simp: less_Suc_eq numeral_eq_Suc)

lemma check_fld_enc:
  assumes "at m p (enc_fld f)" and "fld_ok f" and q: "q = p + int (length (enc_fld f))"
    and "q = te \<or> q < te \<and> m q = FldHeaderID"
  shows "\<exists>s'. check_fld F m p te s = (0, q, s') \<and> counter s' = count_fld f (counter s) \<and> blk_num s' = blk_num s"
proof -
  obtain k rs where f: "f = (k, rs)" by (cases f)
  let ?n = "length (enc_rgns rs)"
  have ok: "k < 8" "\<forall>r\<in>set rs. rgn_ok r" "?n < 2 ^ 16"
    using assms(2) by (simp_all add: fld_ok_def f)
  have m: "m p = FldHeaderID" "m (p + 1) = 4" "m (p + 2) = word_of_nat k" "m (p + 3) = word_of_nat ?n" "at m (p + 4) (enc_rgns rs)"
    using assms(1) by (simp_all add: enc_fld_def f add.assoc)
  have u: "uint (m (p + 1)) = 4" "uint (m (p + 3)) = int ?n"
    using uint_small [OF ok(3)] by (simp_all add: m)
  have e: "p + (4 + int ?n) = q" "p + 4 + int ?n = q"
    by (simp_all add: q length_enc_fld f)
  have good: "\<not> (q > te \<or> q < te \<and> m q \<noteq> FldHeaderID)" and le: "p + 4 \<le> te"
    using assms(4) e by auto
  from check_rgns_enc [OF m(5) ok(2), of q F "tick CNT_NUM_FLDS s"] e obtain s' where
    "check_rgns F m (p + 4) q (tick CNT_NUM_FLDS s) = (int (length rs), 0, s')"
    "counter s' = fold count_rgn rs (up CNT_NUM_FLDS (counter s))" "blk_num s' = blk_num s"
    by auto
  moreover have "(te < q \<or> q < te \<and> m q \<noteq> FldHeaderID) = False" "(q < te \<and> m q \<noteq> FldHeaderID) = False"
    using good by blast+
  ultimately show ?thesis
    unfolding check_fld_def Let_def u e using le by (simp add: m(1,3) fieldID_mask ok(1) count_fld_def f del: not_less de_Morgan_conj)
qed

lemma flds_loop_enc:
  assumes "at m p (enc_flds fs)" and "\<forall>f\<in>set fs. fld_ok f" and "te = p + int (length (enc_flds fs))" and "length fs < fuel"
  shows "\<exists>s'. flds_loop fuel F m p te s = Some (int (length fs), 0, s') \<and> counter s' = fold count_fld fs (counter s) \<and> blk_num s' = blk_num s"
  using assms
proof (induction fs arbitrary: p s fuel)
  case Nil
  then show ?case by (cases fuel) auto
next
  case (Cons f fs)
  from Cons.prems(4) obtain n where n: "fuel = Suc n" "length fs < n"
    by (cases fuel) auto
  define q where "q = p + int (length (enc_fld f))"
  have rest: "at m p (enc_fld f)" "at m q (enc_flds fs)" "te = q + int (length (enc_flds fs))"
    using Cons.prems(1,3) by (simp_all add: q_def)
  have h: "m p = FldHeaderID" "p < te"
    using rest by (simp_all add: enc_fld_def q_def)
  have "q = te \<or> q < te \<and> m q = FldHeaderID"
    using rest(2,3) by (cases fs) (auto simp: enc_fld_def)
  from check_fld_enc [OF rest(1) _ q_def this, of F s] Cons.prems(2) obtain s1 where
    s1: "check_fld F m p te s = (0, q, s1)" "counter s1 = count_fld f (counter s)" "blk_num s1 = blk_num s"
    by auto
  from Cons.IH [OF rest(2) _ rest(3) n(2), of s1] Cons.prems(2) s1 h show ?case
    by (auto simp: n skip_to_here)
qed

lemma check_flds_enc:
  assumes "at m p (enc_flds fs)" and "\<forall>f\<in>set fs. fld_ok f" and "length fs < fuel"
  shows "\<exists>s'. check_flds fuel I F m p (int (length (enc_flds fs))) s = Some (int (length fs), 0, s') \<and>
    counter s' = fold count_fld fs (counter s) \<and> blk_num s' = blk_num s"
  using flds_loop_enc [OF assms(1,2) refl assms(3), of F "s\<lparr>tabs := init_tables (tabs s)\<rparr>"]
  by (auto simp: check_flds_def)

section \<open>Events\<close>

lemma length_enc_flds_ge: "length fs \<le> length (enc_flds fs)"
  by (induction fs) (auto simp: enc_fld_def)

lemma length_enc_evt: "length (enc_evt n e) = 6 + length (enc_flds (snd e))"
  by (simp add: enc_evt_def)

lemma ids_differ: "EvtHeaderID \<noteq> BlkTrailerID"
  by (simp add: EvtHeaderID_def BlkTrailerID_def)

lemma check_evt_enc:
  assumes "at m p (enc_evt n e)" and "evt_ok e" and q: "q = p + int (length (enc_evt n e))" and "n < 2 ^ 16"
    and "q \<le> te" and "m q = EvtHeaderID \<or> m q = BlkTrailerID" and "length (enc_flds (snd e)) < fuel"
  shows "\<exists>s'. check_evt fuel I F m p te (int n) err s = Some (Inr (q, int n + 1, err, s')) \<and>
    counter s' = count_evt e (counter s) \<and> blk_num s' = blk_num s"
proof -
  let ?fs = "snd e" and ?k = "length (enc_flds (snd e))"
  have ok: "\<forall>f\<in>set ?fs. fld_ok f" "?k < 2 ^ 16" "length ?fs < 2 ^ 16" "length ?fs < fuel"
    using assms(2,7) length_enc_flds_ge [of ?fs] by (simp_all add: evt_ok_def)
  have m: "m p = EvtHeaderID" "m (p + 1) = 6" "m (p + 2) = of_bool (fst e)" "m (p + 3) = word_of_nat ?k"
    "m (p + 4) = word_of_nat n" "m (p + 5) = word_of_nat (length ?fs)" "at m (p + 6) (enc_flds ?fs)"
    using assms(1) by (simp_all add: enc_evt_def add.assoc)
  have u: "uint (m (p + 1)) = 6" "uint (m (p + 3)) = int ?k" "uint (m (p + 4)) = int n" "uint (m (p + 5)) = int (length ?fs)"
    using uint_small [OF ok(2)] uint_small [OF ok(3)] uint_small [OF assms(4)] by (simp_all add: m)
  have e: "p + (6 + int ?k) = q" "p + 6 + int ?k = q"
    by (simp_all add: q length_enc_evt)
  have hd: "evt_header m p te (int n + 1) (tick CNT_NUM_EVTS s) = (0, int n + 1, tick CNT_NUM_EVTS s)"
    unfolding evt_header_def Let_def u e using assms(6) by (auto simp: m(1,3) DataEvent_def BlockEndEvent_def)
  from check_flds_enc [OF m(7) ok(1,4), of I F "tick CNT_NUM_EVTS s"] obtain s' where
    "check_flds fuel I F m (p + 6) (int ?k) (tick CNT_NUM_EVTS s) = Some (int (length ?fs), 0, s')"
    "counter s' = fold count_fld ?fs (up CNT_NUM_EVTS (counter s))" "blk_num s' = blk_num s"
    by auto
  then show ?thesis
    unfolding check_evt_def Let_def u e hd using assms(5) by (simp add: count_evt_def)
qed

lemma evts_loop_enc:
  assumes "at m p (enc_evts n es)" and "\<forall>e\<in>set es. evt_ok e" and "te = p + int (length (enc_evts n es))" and "n + length es \<le> 2 ^ 16"
    and "m te = BlkTrailerID" and "length (enc_evts n es) < fuel"
  shows "\<exists>s'. evts_loop fuel I F m p te (int n) err s = Some (int (n + length es), err, s') \<and>
    counter s' = fold count_evt es (counter s) \<and> blk_num s' = blk_num s"
  using assms
proof (induction es arbitrary: p n s fuel)
  case Nil
  then show ?case by (cases fuel) auto
next
  case (Cons e es)
  from Cons.prems(6) obtain k where k: "fuel = Suc k" "length (enc_evts (Suc n) es) < k" "length (enc_flds (snd e)) < k"
    by (cases fuel) (auto simp: length_enc_evt)
  define q where "q = p + int (length (enc_evt n e))"
  have rest: "at m p (enc_evt n e)" "at m q (enc_evts (Suc n) es)" "te = q + int (length (enc_evts (Suc n) es))"
    using Cons.prems(1,3) by (simp_all add: q_def)
  have h: "m p = EvtHeaderID" "p < te"
    using rest by (simp_all add: enc_evt_def q_def)
  have nq: "m q = EvtHeaderID \<or> m q = BlkTrailerID"
    using rest(2,3) Cons.prems(5) by (cases es) (auto simp: enc_evt_def)
  from check_evt_enc [OF rest(1) _ q_def _ _ nq k(3), of te I F err s] Cons.prems(2,4) rest(3) obtain s1 where
    s1: "check_evt k I F m p te (int n) err s = Some (Inr (q, int n + 1, err, s1))" "counter s1 = count_evt e (counter s)"
      "blk_num s1 = blk_num s"
    by auto
  from Cons.IH [OF rest(2) _ rest(3) _ Cons.prems(5) k(2), of s1] Cons.prems(2,4) s1 h show ?case
    using ids_differ by (auto simp: k(1) next_event_def add.commute)
qed

section \<open>Blocks\<close>

lemma blockSize32_enc:
  assumes "m 6 = word_of_nat n" and "m 7 = word_of_nat (n div 2 ^ 16)" and "n < 2 ^ 31"
  shows "blockSize32 m = word_of_nat n" "uint (blockSize32 m) = int n" "sint (blockSize32 m) = int n"
proof -
  show b: "blockSize32 m = word_of_nat n"
    unfolding blockSize32_def assms(1,2) drop_bit_eq_div [symmetric]
    by (rule bit_word_eqI) (auto simp: bit_simps not_less)
  show "uint (blockSize32 m) = int n"
    using assms(3) unfolding b by (simp add: unsigned_of_nat take_bit_nat_eq_self)
  show "sint (blockSize32 m) = int n"
    using assms(3) unfolding b by (simp add: signed_of_nat signed_take_bit_int_eq_self)
qed

definition data_or_scaler :: "16 word \<Rightarrow> nat \<Rightarrow> fmt \<Rightarrow> bool" where
  "data_or_scaler bid num s \<longleftrightarrow>
     bid = ScalerBlockID \<or> (\<exists>crate < 8. bid = word_of_nat crate) \<and> blk_num s = int num"

lemma block_header_words:
  assumes "at m 0 (enc_block bid num es)"
  defines "n \<equiv> length (enc_evts 0 es) + 2"
  shows "m 0 = BlkHeaderID" "m 1 = 8" "m 2 = bid" "m 4 = word_of_nat num" "m 5 = word_of_nat (length es)" "m 6 = word_of_nat n"
    "m 7 = word_of_nat (n div 2 ^ 16)" "at m 8 (enc_evts 0 es)" "m (8 + int n - 2) = BlkTrailerID" "m (8 + int n - 1) = 2"
    "int (length (enc_block bid num es)) = 8 + int n"
  using assms(1) by (simp_all add: enc_block_def Let_def n_def add.commute)

lemma valid_block_ids:
  "valid_block_id ScalerBlockID" "ScalerBlockID AND - 8 \<noteq> DataBlockID"
  "crate < 8 \<Longrightarrow> valid_block_id (word_of_nat crate)" "crate < 8 \<Longrightarrow> (word_of_nat crate :: 16 word) AND - 8 = DataBlockID"
  "ScalerBlockID \<notin> {StartBlockID, EndBlockID}" "crate < 8 \<Longrightarrow> (word_of_nat crate :: 16 word) \<notin> {StartBlockID, EndBlockID}"
proof -
  assume "crate < 8"
  then have "crate \<in> {0, 1, 2, 3, 4, 5, 6, 7}" by auto
  then show "valid_block_id (word_of_nat crate)" "(word_of_nat crate :: 16 word) AND - 8 = DataBlockID"
    "(word_of_nat crate :: 16 word) \<notin> {StartBlockID, EndBlockID}"
    by (auto simp: valid_block_id_def DataBlockID_def StartBlockID_def EndBlockID_def)
qed (simp_all add: valid_block_id_def ScalerBlockID_def DataBlockID_def StartBlockID_def EndBlockID_def)

lemma blk_header_enc:
  assumes "at m 0 (enc_block bid num es)" and "data_or_scaler bid num s" and "num < 2 ^ 16" and "length (enc_evts 0 es) + 2 < 2 ^ 31"
  shows "\<exists>s'. blk_header m (int (length (enc_block bid num es))) s = (0, s') \<and> counter s' = up CNT_NUM_BLKS (counter s)"
proof -
  note w = block_header_words [OF assms(1)]
  note b = blockSize32_enc [OF w(6,7) assms(4)]
  have u: "uint (m 1) = 8" "uint (m 4) = int num"
    using uint_small [OF assms(3)] by (simp_all add: w)
  have ok: "\<not> bad_block_size m (int (length (enc_block bid num es)))"
    unfolding bad_block_size_def u(1) w(11) b(1) by simp
  show ?thesis
    using assms(2) valid_block_ids
    unfolding blk_header_def Let_def u w(1,3) data_or_scaler_def by (auto simp: ok)
qed

text \<open>The number counters of a block, and that nothing else is counted.\<close>

lemma fold_count_rgn:
  "c \<noteq> CNT_NUM_RGNS \<Longrightarrow> (\<forall>k. c \<noteq> CNT_NUM_RGN k) \<Longrightarrow> fold count_rgn rs k c = k c"
  "fold count_rgn rs k CNT_NUM_RGNS = k CNT_NUM_RGNS + int (length rs)"
  by (induction rs arbitrary: k) (auto simp: count_rgn_def up_def)

lemma fold_count_fld:
  "c \<notin> {CNT_NUM_FLDS, CNT_NUM_RGNS} \<Longrightarrow> (\<forall>k. c \<noteq> CNT_NUM_RGN k) \<Longrightarrow> fold count_fld fs k c = k c"
  "fold count_fld fs k CNT_NUM_FLDS = k CNT_NUM_FLDS + int (length fs)"
  "fold count_fld fs k CNT_NUM_RGNS = k CNT_NUM_RGNS + int (length (concat (map snd fs)))"
  by (induction fs arbitrary: k) (auto simp: count_fld_def up_def fold_count_rgn)

lemma fold_count_evt:
  "c \<notin> {CNT_NUM_EVTS, CNT_NUM_FLDS, CNT_NUM_RGNS} \<Longrightarrow> (\<forall>k. c \<noteq> CNT_NUM_RGN k) \<Longrightarrow> fold count_evt es k c = k c"
  "fold count_evt es k CNT_NUM_EVTS = k CNT_NUM_EVTS + int (length es)"
  "fold count_evt es k CNT_NUM_FLDS = k CNT_NUM_FLDS + int (length (concat (map snd es)))"
  "fold count_evt es k CNT_NUM_RGNS = k CNT_NUM_RGNS + int (length (concat (map snd (concat (map snd es)))))"
  by (induction es arbitrary: k) (auto simp: count_evt_def up_def fold_count_fld)

lemma check_buf_enc:
  assumes "at m 0 (enc_block bid num es)" and "data_or_scaler bid num s" and "num < 2 ^ 16" and "length (enc_evts 0 es) + 2 < 2 ^ 31"
    and "\<forall>e\<in>set es. evt_ok e" and "length es < 2 ^ 16" and "length (enc_evts 0 es) < fuel"
  shows "\<exists>s'. check_buf fuel I F m (int (length (enc_block bid num es))) s = Some s' \<and>
     counter s' = fold count_evt es (up CNT_NUM_BLKS (counter s))"
proof -
  let ?size = "int (length (enc_block bid num es))"
  note w = block_header_words [OF assms(1)]
  note b = blockSize32_enc [OF w(6,7) assms(4)]
  from blk_header_enc [OF assms(1-4)] obtain s1 where s1: "blk_header m ?size s = (0, s1)" "counter s1 = up CNT_NUM_BLKS (counter s)"
    by blast
  have te: "?size - 10 = int (length (enc_evts 0 es))" "m (8 + int (length (enc_evts 0 es))) = BlkTrailerID"
    using w(9) by (simp_all add: w(11))
  from evts_loop_enc [OF w(8) assms(5) refl _ te(2) assms(7), of I F 0 s1] assms(6) obtain s2 where
    s2: "check_evts fuel I F m 8 (?size - 10) s1 = Some (int (length es), 0, s2)" "counter s2 = fold count_evt es (counter s1)"
    unfolding check_evts_def te(1) by auto
  have u: "uint (m 1) = 8" "uint (m 5) = int (length es)"
    using uint_small [OF assms(6)] by (simp_all add: w)
  have trl: "blk_trailer m ?size = 0"
    unfolding blk_trailer_def Let_def u(1) b(3) w(11) using w(9,10) by (simp add: algebra_simps)
  have nid: "bid \<noteq> StartBlockID" "bid \<noteq> EndBlockID"
    using assms(2) valid_block_ids(5,6) by (fastforce simp: data_or_scaler_def)+
  show ?thesis
    unfolding check_buf_def s1(1) using s1(2) s2 nid by (simp add: trl u(2) w(3))
qed

section \<open>When the loops end\<close>

text \<open>
  A field makes progress when its header and its contents are not both empty. \<open>progress\<close> says that every field header
  in the part between \<open>p\<close> and \<open>te\<close> does.
\<close>

definition progress :: "memory \<Rightarrow> int \<Rightarrow> int \<Rightarrow> bool" where
  "progress m p te \<longleftrightarrow> (\<forall>q. p \<le> q \<and> q < te \<and> m q = FldHeaderID \<longrightarrow> 0 < uint (m (q + 1)) + uint (m (q + 3)))"

lemma skip_to_spec: "p \<le> skip_to stop m p te" "skip_to stop m p te < te \<Longrightarrow> stop (m (skip_to stop m p te))"
proof (induction stop m p te rule: skip_to.induct)
  case (1 stop m p te)
  {
    case 1
    show ?case using "1.IH"(1) by (subst skip_to.simps) force
  next
    case 2
    then show ?case using "1.IH"(2) by (subst (asm) skip_to.simps, subst skip_to.simps) (auto split: if_splits)
  }
qed

lemma check_fld_pos: "fst (snd (check_fld F m p te s)) = p + uint (m (p + 1)) + uint (m (p + 3))"
  by (simp add: check_fld_def Let_def split: prod.splits)

lemma flds_loop_ends:
  assumes "progress m p te" and "nat (te - p) < fuel"
  shows "\<exists>r. flds_loop fuel F m p te s = Some r"
  using assms
proof (induction fuel arbitrary: p s)
  case (Suc fuel)
  define p1 where "p1 = skip_to (\<lambda>w. w = FldHeaderID) m p te"
  show ?case
  proof (cases "p < te \<and> p1 < te")
    case True
    obtain e p2 s1 where f: "check_fld F m p1 te s = (e, p2, s1)"
      by (cases "check_fld F m p1 te s")
    have p1: "p \<le> p1" "m p1 = FldHeaderID"
      using skip_to_spec(1) [of p "\<lambda>w. w = FldHeaderID" m te] skip_to_spec(2) [of "\<lambda>w. w = FldHeaderID" m p te] True by (auto simp: p1_def)
    have "p2 = p1 + uint (m (p1 + 1)) + uint (m (p1 + 3))"
      using check_fld_pos [of F m p1 te s] f by simp
    then have p2: "p1 < p2"
      using Suc.prems(1) p1 True by (auto simp: progress_def)
    have "progress m p2 te"
      using Suc.prems(1) p1(1) p2 by (auto simp: progress_def)
    moreover have "nat (te - p2) < fuel"
      using Suc.prems(2) p1(1) p2 True by linarith
    ultimately have "\<exists>r. flds_loop fuel F m p2 te s1 = Some r"
      by (rule Suc.IH)
    with True show ?thesis
      by (auto simp: p1_def [symmetric] f)
  qed (auto simp: p1_def [symmetric])
qed simp

lemma flds_loop_stuck:
  assumes "p < te" and "m p = FldHeaderID" and "m (p + 1) = 0" and "m (p + 3) = 0"
  shows "flds_loop fuel F m p te s = None"
proof (induction fuel arbitrary: s)
  case (Suc fuel)
  have "fst (snd (check_fld F m p te s)) = p"
    by (simp add: check_fld_pos assms)
  with Suc assms show ?case
    by (auto simp: skip_to_here split: prod.splits)
qed simp

section \<open>Properties\<close>

definition is_error :: "cnt \<Rightarrow> bool" where
  "is_error c \<longleftrightarrow> c \<notin> {CNT_NUM_BLKS, CNT_NUM_EVTS, CNT_NUM_FLDS, CNT_NUM_RGNS} \<and> (\<forall>k. c \<noteq> CNT_NUM_RGN k)"

text \<open>C14: A block in the data format, whatever its events, fields and regions and whatever stands behind it in memory, passes the
  check: the check ends, no error counter changes, and the blocks, events, fields and regions of the block are counted
  exactly.\<close>

theorem well_formed_block_passes:
  assumes "at m 0 (enc_block bid num es)" and "data_or_scaler bid num s" and "num < 2 ^ 16" and "length (enc_evts 0 es) + 2 < 2 ^ 31"
    and "\<forall>e\<in>set es. evt_ok e" and "length es < 2 ^ 16" and "length (enc_evts 0 es) < fuel"
  shows "\<exists>s'. check_buf fuel I F m (int (length (enc_block bid num es))) s = Some s' \<and>
     (\<forall>c. is_error c \<longrightarrow> counter s' c = counter s c) \<and>
     counter s' CNT_NUM_BLKS = counter s CNT_NUM_BLKS + 1 \<and>
     counter s' CNT_NUM_EVTS = counter s CNT_NUM_EVTS + int (length es) \<and>
     counter s' CNT_NUM_FLDS = counter s CNT_NUM_FLDS + int (length (concat (map snd es))) \<and>
     counter s' CNT_NUM_RGNS = counter s CNT_NUM_RGNS + int (length (concat (map snd (concat (map snd es)))))"
proof -
  from check_buf_enc [OF assms] obtain s' where
    "check_buf fuel I F m (int (length (enc_block bid num es))) s = Some s'" "counter s' = fold count_evt es (up CNT_NUM_BLKS (counter s))"
    by blast
  then show ?thesis
    by (auto simp: is_error_def fold_count_evt up_def)
qed

definition demo_block_events :: "event list" where
  "demo_block_events = [(False, [(0, [(2, [1, 2]), (6, [7, 8, 9])]), (1, [(15, [4])])]), (True, [])]"

definition demo_memory :: memory where
  "demo_memory p = (if 0 \<le> p \<and> p < int (length (enc_block 3 0 demo_block_events)) then enc_block 3 0 demo_block_events ! nat p else 0xAAAA)"

text \<open>One way the fields of the data words can lie.\<close>

definition demo_layout :: layout where
  "demo_layout = \<lparr>fera_vsn = (\<lambda>w. uint (w AND 0xff)), fera_ch = (\<lambda>w. unat (drop_bit 11 w AND 0xf)), fera_value = (\<lambda>w. uint (w AND 0x7ff)),
     lr3377_hdr = (\<lambda>w. bit w 15), lr3377_id = (\<lambda>w. uint (w AND 0xff)), lr3377_evt = (\<lambda>w. uint (drop_bit 8 w AND 7)),
     lr3377_ch = (\<lambda>w. unat (drop_bit 10 w AND 0x1f)), lr3377_value = (\<lambda>w. uint (w AND 0x3ff)),
     pcos_hdr = (\<lambda>w. bit w 15), pcos_is_delim = (\<lambda>w. bit w 14), pcos_width = (\<lambda>w. unat (w AND 0x1f)),
     pcos_addr = (\<lambda>w. uint (drop_bit 6 w AND 0x1ff)), pcos_ch = (\<lambda>w. unat (drop_bit 1 w AND 0x1f)), pcos_half = (\<lambda>w. bit w 0)\<rparr>"

definition demo_intervals :: intervals where
  "demo_intervals = \<lparr>show_inpreg_itvl = 9, show_fera_itvl = 9, show_3377_itvl = 9, show_pcos_itvl = 9\<rparr>"

definition demo_fmt :: fmt where
  "demo_fmt = \<lparr>counter = (\<lambda>_. 0), blk_num = 0,
     tabs = \<lparr>inpreg = replicate 64 \<lparr>in_data = 0, in_bits = replicate 16 0, in_diff = replicate 16 0, in_sum = replicate 16 0\<rparr>,
       ninpreg = 0, cinpreg = 0, inpreg_dat = [], show_inpreg_count = 0, fera = [], fera_dat = [], show_fera_count = 0,
       lr3377 = [], lr3377_dat = [], show_3377_count = 0, pcos = [], pcos_dat = [], show_pcos_count = 0\<rparr>\<rparr>"

lemma at_nth: "(\<forall>k < length ws. m (p + int k) = ws ! k) \<Longrightarrow> at m p ws"
proof (induction ws arbitrary: p)
  case (Cons w ws)
  from Cons.prems have "m p = w" "\<forall>k < length ws. m (p + 1 + int k) = ws ! k"
    by (force, auto simp: add.assoc dest: spec [of _ "Suc _"])
  with Cons.IH [of "p + 1"] show ?case by simp
qed simp

lemma demo_memory_at: "at demo_memory 0 (enc_block 3 0 demo_block_events)"
  by (rule at_nth) (simp add: demo_memory_def)

theorem well_formed_block_passes_witness:
  "\<exists>s'. check_buf 100 demo_intervals demo_layout demo_memory
     (int (length (enc_block 3 0 demo_block_events))) demo_fmt = Some s' \<and>
     counter s' CNT_ERR_BLKS = 0 \<and> counter s' CNT_NUM_EVTS = 2 \<and> counter s' CNT_NUM_FLDS = 2 \<and> counter s' CNT_NUM_RGNS = 3"
proof -
  have "data_or_scaler 3 0 demo_fmt"
    unfolding data_or_scaler_def by (intro disjI2 conjI exI [of _ 3]) (simp_all add: demo_fmt_def)
  moreover have "\<forall>e\<in>set demo_block_events. evt_ok e"
    by (simp add: demo_block_events_def evt_ok_def fld_ok_def rgn_ok_def enc_fld_def enc_rgn_def)
  moreover have "length (enc_evts 0 demo_block_events) < 100" "length demo_block_events = 2"
    by (simp_all add: demo_block_events_def enc_evt_def enc_fld_def enc_rgn_def)
  ultimately show ?thesis
    using well_formed_block_passes [OF demo_memory_at, of demo_fmt 100 demo_intervals demo_layout]
    by (auto simp: is_error_def demo_fmt_def demo_block_events_def)
qed

text \<open>C15: The check of the fields of an event always ends when no field header in the event has both its sizes 0, within one round
  per word; a field header with both sizes 0 is never left, whatever the number of rounds.\<close>

theorem field_check_ends_unless_empty_field:
  shows "(progress m p (p + sz) \<and> nat sz < fuel \<longrightarrow> (\<exists>r. check_flds fuel I F m p sz s = Some r)) \<and>
    (0 < sz \<and> m p = FldHeaderID \<and> m (p + 1) = 0 \<and> m (p + 3) = 0 \<longrightarrow> check_flds fuel I F m p sz s = None)"
  using flds_loop_ends [of m p "p + sz" fuel F "s\<lparr>tabs := init_tables (tabs s)\<rparr>"]
    flds_loop_stuck [of p "p + sz" m fuel F "s\<lparr>tabs := init_tables (tabs s)\<rparr>"]
  by (auto simp: check_flds_def)

theorem field_check_ends_unless_empty_field_witness:
  "(\<exists>r. check_flds 10 demo_intervals demo_layout (\<lambda>p. if p = 1 then 1 else FldHeaderID) 0 1 demo_fmt = Some r) \<and>
   check_flds 1000 demo_intervals demo_layout (\<lambda>p. if p = 0 then FldHeaderID else 0) 0 4 demo_fmt = None"
proof -
  have "progress (\<lambda>p. if p = 1 then 1 else FldHeaderID) 0 (0 + 1)"
    by (auto simp: progress_def FldHeaderID_def)
  then show ?thesis
    using field_check_ends_unless_empty_field [of "\<lambda>p. if p = 1 then 1 else FldHeaderID" 0 1 10]
      field_check_ends_unless_empty_field [of "\<lambda>p. if p = 0 then FldHeaderID else 0" 0 4 1000]
    by simp
qed

section \<open>What the checker keeps and what it misses\<close>

lemma check_module_tables_ok: "tables_ok (tabs s) \<Longrightarrow> tables_ok (tabs (check_module F m p s))"
  by (simp add: check_module_def Let_def check_fera_ok check_lr3377_ok check_inpreg_ok check_pcos_ok)

lemma tabs_tick_if [simp]: "tabs (tick_if b c s) = tabs s"
  by (simp add: tick_if_def)

lemma check_rgns_tables_ok: "tables_ok (tabs s) \<Longrightarrow> tables_ok (tabs (snd (snd (check_rgns F m p te s))))"
proof (induction F m p te s rule: check_rgns.induct)
  case (1 F m p te s)
  show ?case
  proof (cases "p < te")
    case True
    note IH = "1.IH" [OF True refl refl refl refl refl refl refl]
    show ?thesis
      using IH "1.prems" True
      by (subst check_rgns.simps) (simp add: Let_def split_beta check_module_tables_ok)
  next
    case False
    with "1.prems" show ?thesis by (subst check_rgns.simps) simp
  qed
qed

lemma check_fld_tables_ok: "tables_ok (tabs s) \<Longrightarrow> tables_ok (tabs (snd (snd (check_fld F m p te s))))"
  by (auto simp: check_fld_def Let_def split_beta intro!: check_rgns_tables_ok)

lemma flds_loop_tables_ok:
  "flds_loop fuel F m p te s = Some (n, e, s') \<Longrightarrow> tables_ok (tabs s) \<Longrightarrow> tables_ok (tabs s')"
proof (induction fuel arbitrary: p s n e)
  case (Suc fuel)
  define p1 where "p1 = skip_to (\<lambda>w. w = FldHeaderID) m p te"
  show ?case
  proof (cases "p < te \<and> p1 < te")
    case True
    obtain er p2 s1 where f: "check_fld F m p1 te s = (er, p2, s1)"
      by (cases "check_fld F m p1 te s")
    with Suc.prems(2) check_fld_tables_ok [of s F m p1 te] have "tables_ok (tabs s1)"
      by simp
    moreover from Suc.prems(1) True f obtain n1 e1 where "flds_loop fuel F m p2 te s1 = Some (n1, e1, s')"
      by (auto simp: p1_def [symmetric])
    ultimately show ?thesis
      by (intro Suc.IH)
  next
    case False
    with Suc.prems show ?thesis by (auto simp: p1_def [symmetric] split: if_splits)
  qed
qed simp

lemma check_flds_tables_ok:
  "check_flds fuel I F m p sz s = Some (n, e, s') \<Longrightarrow> tables_ok (tabs s) \<Longrightarrow> tables_ok (tabs s')"
  by (auto simp: check_flds_def init_tables_def show_tables_def dest!: flds_loop_tables_ok intro!: init_ok show_ok)

lemma check_evt_tables_ok:
  assumes "check_evt fuel I F m p te n err s = Some r" and "tables_ok (tabs s)"
  shows "case r of Inl (_, _, s') \<Rightarrow> tables_ok (tabs s') | Inr (_, _, _, s') \<Rightarrow> tables_ok (tabs s')"
  using assms
  by (auto simp: check_evt_def evt_header_def Let_def split: if_splits dest!: check_flds_tables_ok)

lemma evts_loop_tables_ok:
  "evts_loop fuel I F m p te n err s = Some (n', err', s') \<Longrightarrow> tables_ok (tabs s) \<Longrightarrow> tables_ok (tabs s')"
proof (induction fuel arbitrary: p n err s)
  case (Suc fuel)
  then show ?case
    by (auto split: if_splits option.splits sum.splits dest!: check_evt_tables_ok)
qed simp

text \<open>The channel numbers of the data words are bit fields of four and five bits.\<close>

definition layout_ok :: "layout \<Rightarrow> bool" where
  "layout_ok F \<longleftrightarrow> (\<forall>w. fera_ch F w < NCHFERA \<and> lr3377_ch F w < NCH3377 \<and> pcos_ch F w < NCHPCOS)"

lemma init_tables_twice: "init_tables (init_tables t) = init_tables t"
  by (simp add: init_tables_def check_inpreg_init_def check_fera_init_def check_lr3377_init_def check_pcos_init_def sort_clear_twice)

text \<open>The tables of an event: sorted by the numbers of the modules, with the entries there were, all without the data of the last event.\<close>

definition fresh_tables :: "tables \<Rightarrow> tables \<Rightarrow> bool" where
  "fresh_tables t t' \<longleftrightarrow>
     sorted (map fera_id (fera t')) \<and> mset (fera t') = image_mset (\<lambda>r. r\<lparr>fera_data := replicate NCHFERA (-1)\<rparr>) (mset (fera t)) \<and>
     sorted (map lr_id (lr3377 t')) \<and>
     mset (lr3377 t') = image_mset (\<lambda>r. r\<lparr>lr_evt := -1, lr_data := replicate NCH3377 (-1)\<rparr>) (mset (lr3377 t)) \<and>
     sorted (map pc_addr (pcos t')) \<and> mset (pcos t') = image_mset (\<lambda>r. r\<lparr>pc_hit := replicate NCHPCOS 0\<rparr>) (mset (pcos t)) \<and>
     fera_dat t' = [] \<and> lr3377_dat t' = [] \<and> pcos_dat t' = [] \<and> inpreg_dat t' = [] \<and> inpreg t' = inpreg t"

lemma init_tables_fresh: "fresh_tables t (init_tables t)"
  by (simp add: fresh_tables_def init_tables_def check_inpreg_init_def check_fera_init_def check_lr3377_init_def check_pcos_init_def
      sorted_exchange_sort mset_exchange_sort)

text \<open>C16: Whatever the block contains, the check keeps its tables of FERA, LR3377 and PCOS modules within their arrays, with every
  module in at most one entry. The fields of an event are checked as if they started from fresh tables: each of the three sorted by
  the number of the module, with exactly the entries of the event before, and nothing left of its data.\<close>

theorem tables_stay_in_arrays:
  assumes "layout_ok F" and "tables_ok (tabs s)" and "check_buf fuel I F m sz s = Some s'"
  shows "tables_ok (tabs s') \<and>
    distinct (map fera_id (fera (tabs s'))) \<and> length (fera (tabs s')) \<le> MAXFERAMODS \<and>
    distinct (map lr_id (lr3377 (tabs s'))) \<and> length (lr3377 (tabs s')) \<le> MAX3377MODS \<and>
    distinct (map pc_addr (pcos (tabs s'))) \<and> length (pcos (tabs s')) \<le> MAXPCOSMODS \<and>
    (\<exists>t. fresh_tables (tabs u) t \<and> (tables_ok (tabs u) \<longrightarrow> tables_ok t) \<and>
       (\<forall>p n. check_flds fuel I F m p n u = check_flds fuel I F m p n (u\<lparr>tabs := t\<rparr>)))"
proof -
  have h: "tabs (snd (blk_header m sz s)) = tabs s"
    by (simp add: blk_header_def Let_def)
  have "tables_ok (tabs s')"
    using assms(2,3) h
    by (auto simp: check_buf_def check_evts_def Let_def split: if_splits option.splits prod.splits dest!: evts_loop_tables_ok)
  moreover have "tables_ok (tabs u) \<longrightarrow> tables_ok (init_tables (tabs u))"
    by (simp add: init_tables_def init_ok)
  moreover have "check_flds fuel I F m p n u = check_flds fuel I F m p n (u\<lparr>tabs := init_tables (tabs u)\<rparr>)" for p n
    by (simp add: check_flds_def init_tables_twice)
  ultimately have "\<exists>t. fresh_tables (tabs u) t \<and> (tables_ok (tabs u) \<longrightarrow> tables_ok t) \<and>
      (\<forall>p n. check_flds fuel I F m p n u = check_flds fuel I F m p n (u\<lparr>tabs := t\<rparr>))" and "tables_ok (tabs s')"
    using init_tables_fresh [of "tabs u"] by blast+
  then show ?thesis
    by (simp add: tables_ok_def ft.invar_def lt.invar_def pt.invar_def)
qed

lemma demo_fmt_ok: "tables_ok (tabs demo_fmt)" "layout_ok demo_layout"
proof -
  show "tables_ok (tabs demo_fmt)"
    by (simp add: tables_ok_def demo_fmt_def inpreg_ok_def ft.invar_def lt.invar_def pt.invar_def MAXINPREGMODS_def NCHINPREG_def)
  have b: "unat (v AND 0xf) < 16" "unat (v AND 0x1f) < 32" for v :: "16 word"
    using word_and_le1 [of v "0xf"] word_and_le1 [of v "0x1f"] by (simp_all add: word_le_nat_alt)
  show "layout_ok demo_layout"
    by (simp add: layout_ok_def demo_layout_def NCHFERA_def NCH3377_def NCHPCOS_def b)
qed

text \<open>A block with the data of two FERA modules, and a table of them in the wrong order.\<close>

definition fera_block_events :: "event list" where
  "fera_block_events = [(False, [(0, [(13, [7, 0x0805]), (13, [3, 0x1006])])]), (True, [])]"

definition fera_memory :: memory where
  "fera_memory p = (if 0 \<le> p \<and> p < int (length (enc_block 3 0 fera_block_events)) then enc_block 3 0 fera_block_events ! nat p else 0xAAAA)"

definition unsorted_fmt :: fmt where
  "unsorted_fmt = demo_fmt\<lparr>tabs := (tabs demo_fmt)\<lparr>fera := [new_fera 7, new_fera 3]\<rparr>\<rparr>"

theorem tables_stay_in_arrays_witness:
  "\<exists>s' t. check_buf 100 demo_intervals demo_layout fera_memory (int (length (enc_block 3 0 fera_block_events))) unsorted_fmt = Some s' \<and>
     tables_ok (tabs s') \<and> fresh_tables (tabs unsorted_fmt) t \<and> map fera_id (fera t) = [3, 7]"
proof -
  have m: "at fera_memory 0 (enc_block 3 0 fera_block_events)"
    by (rule at_nth) (simp add: fera_memory_def)
  have "data_or_scaler 3 0 unsorted_fmt"
    unfolding data_or_scaler_def by (intro disjI2 conjI exI [of _ 3]) (simp_all add: unsorted_fmt_def demo_fmt_def)
  moreover have "\<forall>e\<in>set fera_block_events. evt_ok e"
    by (simp add: fera_block_events_def evt_ok_def fld_ok_def rgn_ok_def enc_fld_def enc_rgn_def)
  moreover have "length (enc_evts 0 fera_block_events) < 100" "length fera_block_events = 2"
    by (simp_all add: fera_block_events_def enc_evt_def enc_fld_def enc_rgn_def)
  ultimately obtain s' where s': "check_buf 100 demo_intervals demo_layout fera_memory (int (length (enc_block 3 0 fera_block_events))) unsorted_fmt = Some s'"
    using check_buf_enc [OF m, of unsorted_fmt 100 demo_intervals demo_layout] by auto
  have "ft.invar [new_fera 7, new_fera 3]"
    unfolding ft.invar_def by (simp add: fera_ok_def new_fera_def MAXFERAMODS_def)
  then have ok: "tables_ok (tabs unsorted_fmt)"
    using demo_fmt_ok(1) by (simp add: tables_ok_def unsorted_fmt_def inpreg_ok_def)
  from tables_stay_in_arrays [OF demo_fmt_ok(2) ok s', of unsorted_fmt] obtain t where
    t: "tables_ok (tabs s')" "fresh_tables (tabs unsorted_fmt) t"
    by blast
  have "mset (map fera_id (fera t)) = mset [7, 3]" "sorted (map fera_id (fera t))"
    using t(2) by (simp_all add: fresh_tables_def unsorted_fmt_def new_fera_def mset_map)
  then have "sort [7, 3] = map fera_id (fera t)"
    by (rule properties_for_sort)
  then have "map fera_id (fera t) = [3, 7]"
    by simp
  with s' t show ?thesis
    by (intro exI [of _ s'] exI [of _ t] conjI)
qed

text \<open>An event that runs over the end of its block is not an error of the block: the search for events ends there and reports no
  error, only the counter of event sizes shows it.\<close>

theorem overlong_event_reports_no_error:
  assumes "m p = EvtHeaderID" and "0 < sz" and "uint (m (p + 1)) + uint (m (p + 3)) > sz"
  shows "\<exists>s'. check_evts (Suc fuel) I F m p sz s = Some (1, 0, s') \<and> counter s' CNT_ERR_EVT_SIZE = counter s CNT_ERR_EVT_SIZE + 1 \<and>
    counter s' CNT_ERR_EVTS = counter s CNT_ERR_EVTS \<and> counter s' CNT_ERR_BLK_CONT = counter s CNT_ERR_BLK_CONT"
  using assms ids_differ by (simp add: check_evts_def check_evt_def next_event_def Let_def up_def)

theorem overlong_event_reports_no_error_witness:
  "\<exists>s'. check_evts 1 demo_intervals demo_layout (\<lambda>_. EvtHeaderID) 8 20 demo_fmt = Some (1, 0, s') \<and> counter s' CNT_ERR_EVT_SIZE = 1"
  using overlong_event_reports_no_error [of "\<lambda>_. EvtHeaderID" 8 20 0 demo_intervals demo_layout demo_fmt]
  by (auto simp: demo_fmt_def EvtHeaderID_def)

end
