(* ===== verification/GR_Tcp.thy ===== *)
theory GR_Tcp
  imports GR_Modules Format_Correct
begin

text \<open>
  The data transfer thread of the Grand Raiden collector (\<^verbatim>\<open>gr/collect_tcp.c\<close>): the handshake with the client, the encoding
  of scaler blocks, the frame around every block and the wait for the reply. A block is a list of 16 bit words.
\<close>

section \<open>Handshake\<close>

definition ROUTER_INET_VERSION_1 :: int where "ROUTER_INET_VERSION_1 = 256"
definition ROUTER_INET_VERSION_2 :: int where "ROUTER_INET_VERSION_2 = 512"
definition E_NOERR :: int where "E_NOERR = 0"
definition E_VERSION :: int where "E_VERSION = 1"

text \<open>
  The first message of the client (64 bytes) is read with a loop that ends with an error or the end of the stream (\<open>Inl\<close>).
  \<^verbatim>\<open>read\<close> gives at most what is asked for; \<open>None\<close> is a wait.
\<close>

fun read_info :: "nat \<Rightarrow> rd list \<Rightarrow> (unit + byte list \<times> rd list) option" where
  "read_info 0 rs = Some (Inr ([], rs))"
| "read_info (Suc k) [] = None"
| "read_info (Suc k) (Eintr # rs) = Some (Inl ())"
| "read_info (Suc k) (Fail # rs) = Some (Inl ())"
| "read_info (Suc k) (Data [] # rs) = Some (Inl ())"
| "read_info (Suc k) (Data (b # bs) # rs) =
     (let ds = take (Suc k) (b # bs); rest = drop (Suc k) (b # bs)
      in map_option (map_sum id (\<lambda>(xs, rs'). (ds @ xs, rs')))
           (read_info (Suc k - length ds) (if rest = [] then rs else Data rest # rs)))"

text \<open>
  The reply to the version of the client: the result and the version that is used, if any. The block size sent to a client of
  version 1 is a variable that was never set (\<open>junk\<close>).
\<close>

definition handshake :: "int \<Rightarrow> int \<Rightarrow> (int \<times> int) \<times> int option" where
  "handshake junk ver =
     (if ver > ROUTER_INET_VERSION_2 then ((E_VERSION, junk), None)
      else
        let v = (if ver < ROUTER_INET_VERSION_2 then ROUTER_INET_VERSION_1 else ROUTER_INET_VERSION_2)
        in ((E_NOERR, if v = ROUTER_INET_VERSION_1 then junk else 0), Some v))"

section \<open>Scaler blocks\<close>

definition SCL_BLK_HEADER_OFFSET :: nat where "SCL_BLK_HEADER_OFFSET = 18"
definition BLOCK_HEADER_BLOCK_NUM :: nat where "BLOCK_HEADER_BLOCK_NUM = 4"

definition scaler_header :: "16 word list" where
  "scaler_header =
     [0xffff, 0x0006, 0x0e00, 0x0094, 0x0000, 0x0001,
      0xffdf, 0x0006, 0x0001, 0x008c, 0x014b, 0x0001,
      0xffcf, 0x0004, 0x0000, 0x0088,
      0x2001, 0x8000]"

definition scaler_trailer :: "16 word list" where
  "scaler_trailer = [0xf001, 0xcb2e, 0xffef, 0x0002]"

definition encode_scl_blk :: "blk \<Rightarrow> 16 word \<Rightarrow> blk" where
  "encode_scl_blk buf cnt =
     (let header = scaler_header[BLOCK_HEADER_BLOCK_NUM := cnt];
          bbuf = map (\<lambda>i. buf ! i) [0 ..< 132];
          sum = fold (\<lambda>i s. s + buf ! i) [0 ..< 132] 0;
          b1 = store 0 header buf;
          b2 = store SCL_BLK_HEADER_OFFSET bbuf b1;
          trailer = scaler_trailer[1 := sum]
      in store (SCL_BLK_HEADER_OFFSET + 132) trailer b2)"

text \<open>What the main loop does with a block from the ring buffer before it is sent; \<open>c\<close> is \<^verbatim>\<open>block_scaler_count\<close>.\<close>

definition tcp_encode :: "16 word \<Rightarrow> blk \<Rightarrow> blk \<times> 16 word" where
  "tcp_encode c buf =
     (if buf ! 0 AND 0x8000 = 0 then (encode_scl_blk buf c, c + 1)
      else if buf ! 0 = 0xffff \<and> buf ! 2 = 0x0f02 then (buf, 0)
      else (buf, c))"

section \<open>Frames and replies\<close>

definition htonl :: "int \<Rightarrow> byte list" where
  "htonl n = map (\<lambda>k. word_of_int (drop_bit k n)) [24, 16, 8, 0]"

text \<open>A word of a block in the byte order of the collector (little endian).\<close>

definition host_bytes :: "16 word \<Rightarrow> byte list" where
  "host_bytes w = [ucast w, ucast (drop_bit 8 w)]"

text \<open>
  What is sent for the \<open>i\<close>-th block: for version 2 the frame \<^verbatim>\<open>rtr_inet_info3\<close> with the count and the size, 14 words that were
  never set (\<open>junk\<close>) and the block; for version 1 the block, cut or filled to the block size \<open>bs\<close> (the bytes at address 0
  that should fill it cannot be read, so nothing is sent for them).
\<close>

definition send_block :: "int \<Rightarrow> byte list \<Rightarrow> int \<Rightarrow> int \<Rightarrow> blk \<Rightarrow> byte list" where
  "send_block ver junk bs i buf =
     (let sz = 2 * int BLK_BUF_SIZE
      in if ver = ROUTER_INET_VERSION_1 then
           (if int BLK_BUF_SIZE > bs then take (nat bs) (concat (map host_bytes buf)) else take (nat sz) (concat (map host_bytes buf)))
         else htonl i @ htonl sz @ junk @ take (nat sz) (concat (map host_bytes buf)))"

text \<open>
  The wait for the four bytes of the reply. An end of the stream adds 0 to the count and the loop goes on; an error leaves it.
  \<open>None\<close>: the answers of the peer are used up and the loop has not ended.
\<close>

fun reply_loop :: "nat \<Rightarrow> rd list \<Rightarrow> (byte list \<times> rd list) option" where
  "reply_loop 0 rs = Some ([], rs)"
| "reply_loop (Suc k) [] = None"
| "reply_loop (Suc k) (Eintr # rs) = Some ([], rs)"
| "reply_loop (Suc k) (Fail # rs) = Some ([], rs)"
| "reply_loop (Suc k) (Data [] # rs) = reply_loop (Suc k) rs"
| "reply_loop (Suc k) (Data (b # bs) # rs) =
     (let ds = take (Suc k) (b # bs); rest = drop (Suc k) (b # bs)
      in map_option (\<lambda>(xs, rs'). (ds @ xs, rs')) (reply_loop (Suc k - length ds) (if rest = [] then rs else Data rest # rs)))"

text \<open>The main loop over the blocks that come from the ring buffer: everything that is sent.\<close>

fun tcp_main :: "int \<Rightarrow> byte list \<Rightarrow> int \<Rightarrow> int \<Rightarrow> 16 word \<Rightarrow> blk list \<Rightarrow> byte list list" where
  "tcp_main ver junk bs i c [] = []"
| "tcp_main ver junk bs i c (b # bl) =
     (case tcp_encode c b of (b', c') \<Rightarrow> send_block ver junk bs i b' # tcp_main ver junk bs (i + 1) c' bl)"

section \<open>Lemmas\<close>

definition word_sum :: "16 word list \<Rightarrow> 16 word" where
  "word_sum ws = sum_list ws"

lemma fold_sum: "fold (\<lambda>i s. s + f i) is (s0 :: 16 word) = s0 + sum_list (map f is)"
  by (induction "is" arbitrary: s0) (simp_all add: add.assoc)

lemma map_nth_take: "n \<le> length xs \<Longrightarrow> map (\<lambda>i. xs ! i) [0 ..< n] = take n xs"
  by (simp add: list_eq_iff_nth_eq)

lemma encode_scl_blk_eq:
  assumes "154 \<le> length buf"
  shows "encode_scl_blk buf cnt =
    scaler_header[4 := cnt] @ take 132 buf @ [0xf001, word_sum (take 132 buf), 0xffef, 2] @ drop 154 buf"
proof -
  have "length scaler_header = 18" "length scaler_trailer = 4"
    by (simp_all add: scaler_header_def scaler_trailer_def)
  moreover have "map (\<lambda>i. buf ! i) [0 ..< 132] = take 132 buf"
    using assms by (intro map_nth_take) simp
  moreover from this have "fold (\<lambda>i s. s + buf ! i) [0 ..< 132] 0 = word_sum (take 132 buf)"
    by (simp only: fold_sum word_sum_def add_0)
  ultimately show ?thesis
    using assms
    by (simp del: store.simps add: encode_scl_blk_def Let_def store_eq SCL_BLK_HEADER_OFFSET_def BLOCK_HEADER_BLOCK_NUM_def scaler_trailer_def)
qed

text \<open>The field of a scaler block in the terms of the data format.\<close>

definition scaler_field :: "(nat \<Rightarrow> nat \<Rightarrow> 32 word) \<Rightarrow> 16 word \<Rightarrow> field" where
  "scaler_field gate s = (0, (2, [0x8000]) # map (\<lambda>i. (6, tl (vts_region (gate i)))) [0 ..< 4] @ [(15, [s])])"

lemma length_scaler_field: "length (snd (scaler_field gate s)) = 6"
  by (simp add: scaler_field_def)

lemma enc_vts_region: "enc_rgn (6, tl (vts_region g)) = vts_region g"
  by (simp add: enc_rgn_def vts_region_def length_concat_words)

lemma enc_scaler_rgns:
  "enc_rgns (snd (scaler_field gate s)) = [0x2001, 0x8000] @ concat (map (\<lambda>i. vts_region (gate i)) [0 ..< 4]) @ [0xf001, s]"
  by (simp add: scaler_field_def upt_rec enc_vts_region) (simp add: enc_rgn_def)

lemma scaler_field_ok: "fld_ok (scaler_field gate s)"
  unfolding fld_ok_def enc_scaler_rgns
  by (auto simp: scaler_field_def rgn_ok_def length_concat_regions)

lemma enc_scaler_field:
  "enc_flds [scaler_field gate s] =
     [0xffcf, 4, 0, 0x88, 0x2001, 0x8000] @ concat (map (\<lambda>i. vts_region (gate i)) [0 ..< 4]) @ [0xf001, s]"
  by (simp add: enc_fld_def enc_scaler_rgns length_concat_regions FldHeaderID_def) (simp add: scaler_field_def)

lemma reply_loop_enough:
  "Fail \<notin> set rs \<Longrightarrow> Eintr \<notin> set rs \<Longrightarrow> k \<le> length (concat (map (\<lambda>r. case r of Data d \<Rightarrow> d | _ \<Rightarrow> []) rs)) \<Longrightarrow>
   \<exists>rs'. reply_loop k rs = Some (take k (concat (map (\<lambda>r. case r of Data d \<Rightarrow> d | _ \<Rightarrow> []) rs)), rs')"
proof (induction k rs rule: reply_loop.induct)
  case (6 k b bs rs)
  show ?case
  proof (cases "Suc k \<le> length (b # bs)")
    case True
    then show ?thesis by (simp add: Let_def)
  next
    case False
    then have "drop (Suc k) (b # bs) = []" "take (Suc k) (b # bs) = b # bs" by simp_all
    with "6.IH" [OF refl refl] "6.prems" False show ?thesis by (auto simp: Let_def)
  qed
qed auto

section \<open>Properties\<close>

text \<open>C17: A scaler read out that goes through the transfer thread becomes a block whose sizes fit each other, with the counters unchanged
  and the check sum behind them; the check of its field finds six regions and no error. The check of its block header does
  report an error, since the header has the older size of six words.\<close>

theorem scaler_block_is_consistent:
  assumes "154 \<le> length buf" and "vts801_read gate buf = (n, buf')" and "at m 0 (encode_scl_blk buf' cnt)" and "1 < fuel"
  shows "m 4 = cnt \<and> take 132 (drop 18 (encode_scl_blk buf' cnt)) = take 132 buf' \<and>
    m (6 + uint (m 3) - 2) = BlkTrailerID \<and> 12 + uint (m 9) = 6 + uint (m 3) - 2 \<and> m 151 = sum_list (take 132 buf') \<and>
    (\<exists>s'. check_flds fuel I F m 12 (uint (m 9)) s = Some (1, 0, s') \<and> counter s' CNT_NUM_RGNS = counter s CNT_NUM_RGNS + 6) \<and>
    fst (blk_header m sz s) > 0"
proof -
  let ?rs = "concat (map (\<lambda>i. vts_region (gate i)) [0 ..< 4])"
  have l: "length ?rs = 132"
    by (simp add: length_concat_regions)
  have b': "buf' = ?rs @ drop 132 buf"
    using assms(1,2) by (simp add: vts801_read_eq)
  then have t: "take 132 buf' = ?rs" "154 \<le> length buf'"
    using assms(1) l by simp_all
  have e: "encode_scl_blk buf' cnt = scaler_header[4 := cnt] @ ?rs @ [0xf001, word_sum ?rs, 0xffef, 2] @ drop 154 buf'"
    using encode_scl_blk_eq [OF t(2), of cnt] by (simp only: t(1))
  define W where "W = word_sum ?rs"
  have "at m 0 ([0xffff, 6, 0x0e00, 0x94, cnt, 1, 0xffdf, 6, 1, 0x8c, 0x14b, 1] @ enc_flds [scaler_field gate W] @ [0xffef, 2] @ drop 154 buf')"
    using assms(3) unfolding e W_def [symmetric] enc_scaler_field by (simp add: scaler_header_def)
  then have w: "m 1 = 6" "m 3 = 0x94" "m 4 = cnt" "m 9 = 0x8c" "at m 12 (enc_flds [scaler_field gate W])"
    "m (12 + int (length (enc_flds [scaler_field gate W]))) = 0xffef" "m 0 = 0xffff"
    by (simp_all del: enc_simps)
  have len: "length (enc_flds [scaler_field gate W]) = 140"
    unfolding enc_scaler_field using l by simp
  have trl: "m 152 = 0xffef"
    using w(6) unfolding len by simp
  from w(5) have "at m (12 + int (length ([0xffcf, 4, 0, 0x88, 0x2001, 0x8000] @ ?rs @ [0xf001]))) [W]"
    unfolding enc_scaler_field by (simp del: concat.simps map_eq_conv)
  then have s: "m 151 = W"
    using l by simp
  from check_flds_enc [OF w(5), of fuel I F s] assms(4) scaler_field_ok [of gate W] len obtain s' where
    "check_flds fuel I F m 12 140 s = Some (1, 0, s')" "counter s' = count_fld (scaler_field gate W) (counter s)"
    by auto
  moreover have "count_fld (scaler_field gate W) k CNT_NUM_RGNS = k CNT_NUM_RGNS + 6" for k
    by (simp add: count_fld_def fold_count_rgn up_def length_scaler_field)
  moreover have "fst (blk_header m sz s) > 0"
    by (simp add: blk_header_def Let_def w(1))
  ultimately show ?thesis
    using trl s l by (simp add: w(1-5,7) len e W_def word_sum_def t(1) BlkTrailerID_def scaler_header_def)
qed

text \<open>A memory with given words at its beginning.\<close>

definition memory_of :: "16 word list \<Rightarrow> memory" where
  "memory_of ws p = (if 0 \<le> p \<and> p < int (length ws) then ws ! nat p else 0)"

lemma memory_of_at: "at (memory_of ws) 0 ws"
  by (rule at_nth) (simp add: memory_of_def)

theorem scaler_block_is_consistent_witness:
  "\<exists>n buf' m. vts801_read (\<lambda>i j. 5) (replicate 200 0) = (n, buf') \<and> m = memory_of (encode_scl_blk buf' 17) \<and> m 4 = 17 \<and>
     (\<exists>s'. check_flds 2 demo_intervals demo_layout m 12 (uint (m 9)) demo_fmt = Some (1, 0, s') \<and> counter s' CNT_NUM_RGNS = 6)"
proof -
  obtain n buf' where r: "vts801_read (\<lambda>i j. 5) (replicate 200 0) = (n, buf')"
    by fastforce
  from scaler_block_is_consistent [OF _ r memory_of_at, of 2 17 demo_intervals demo_layout demo_fmt] r show ?thesis
    by (auto simp: demo_fmt_def)
qed

text \<open>The wait for the reply of a client takes exactly the next four bytes, however they come in pieces; once the client has closed
  the connection it never ends.\<close>

theorem reply_wait_never_ends_after_close:
  "reply_loop 4 (replicate n (Data [])) = None \<and>
   (Fail \<notin> set rs \<and> Eintr \<notin> set rs \<and> 4 \<le> length (concat (map (\<lambda>r. case r of Data d \<Rightarrow> d | _ \<Rightarrow> []) rs)) \<longrightarrow>
      (\<exists>rs'. reply_loop 4 rs = Some (take 4 (concat (map (\<lambda>r. case r of Data d \<Rightarrow> d | _ \<Rightarrow> []) rs)), rs')))"
proof -
  have "reply_loop (Suc k) (replicate n (Data [])) = None" for k
    by (induction n) simp_all
  then show ?thesis
    using reply_loop_enough [of rs 4] by (simp add: numeral_eq_Suc)
qed

theorem reply_wait_never_ends_after_close_witness:
  "reply_loop 4 (replicate 1000 (Data [])) = None \<and> (\<exists>rs'. reply_loop 4 [Data [1, 2], Data [], Data [3, 4, 5]] = Some ([1, 2, 3, 4], rs'))"
  using reply_wait_never_ends_after_close [of 1000 "[Data [1, 2], Data [], Data [3, 4, 5]]"] by simp

end
