(* ===== verification/Block_Transfer.thy ===== *)
theory Block_Transfer
  imports GR_Tcp Vme_Daq
begin

text \<open>
  The programs that carry blocks between machines: \<^verbatim>\<open>router/tools/router_tcp.c\<close> takes them from a router and sends them over a
  connection, \<^verbatim>\<open>tcp_router.c\<close> receives them and puts them into another router, \<^verbatim>\<open>tcp_save.c\<close> writes them to a file and
  \<^verbatim>\<open>tcp_cat.c\<close> to the standard output. A connection is a list of what the successive calls of \<^verbatim>\<open>read\<close> deliver, as in
  \<^verbatim>\<open>Net_IO\<close>; the calls of the router library appear by their results.
\<close>

section \<open>Loops around read\<close>

text \<open>
  A loop that reads \<open>n\<close> bytes gives the pieces in which they came. An error ends it (\<open>Inl\<close>); an end of the stream either
  ends it (\<open>stop\<close>, with the mark \<open>True\<close>) or is ignored. \<open>None\<close> is a wait without an end. For \<open>n = 0\<close> the one call of
  \<^verbatim>\<open>read\<close> gives 0.
\<close>

fun recv :: "bool \<Rightarrow> nat \<Rightarrow> rd list \<Rightarrow> (unit + byte list list \<times> bool \<times> rd list) option" where
  "recv stop 0 rs = Some (Inr ([], False, rs))"
| "recv stop (Suc k) [] = None"
| "recv stop (Suc k) (Eintr # rs) = Some (Inl ())"
| "recv stop (Suc k) (Fail # rs) = Some (Inl ())"
| "recv stop (Suc k) (Data [] # rs) = (if stop then Some (Inr ([], True, rs)) else recv stop (Suc k) rs)"
| "recv stop (Suc k) (Data (b # bs) # rs) =
     (let ds = take (Suc k) (b # bs); rest = drop (Suc k) (b # bs)
      in map_option (map_sum id (\<lambda>(ps, e, rs'). (ds # ps, e, rs')))
           (recv stop (Suc k - length ds) (if rest = [] then rs else Data rest # rs)))"

definition recv_loop :: "bool \<Rightarrow> nat \<Rightarrow> rd list \<Rightarrow> (unit + byte list list \<times> bool \<times> rd list) option" where
  "recv_loop stop n rs = (if n = 0 then Some (Inr ([], stop, rs)) else recv stop n rs)"

text \<open>Where the pointer is not advanced, every piece is stored at the beginning of the buffer.\<close>

definition overwrite :: "byte list \<Rightarrow> byte list list \<Rightarrow> byte list" where
  "overwrite buf ps = foldl (\<lambda>b p. p @ drop (length p) b) buf ps"

definition ntohl :: "byte list \<Rightarrow> int" where
  "ntohl bs = c_int (foldl (\<lambda>a b. a * 256 + uint b) 0 bs)"

definition sizeof_info2 :: nat where "sizeof_info2 = 16"

text \<open>The field \<^verbatim>\<open>blk_size\<close> of the frame \<^verbatim>\<open>rtr_inet_info3_t\<close>.\<close>

definition blk_size_of :: "byte list \<Rightarrow> int" where
  "blk_size_of info3 = ntohl (take 4 (drop 4 info3))"

text \<open>How a program ends: with \<^verbatim>\<open>exit\<close>, or by leaving its loop.\<close>

datatype ending = Exit int | Leave

section \<open>The program tcp-router\<close>

text \<open>
  What the router answers to a request: the results of the two calls and the size of the buffer. \<open>t_grants\<close> has the answer to each
  request that is still to come, depending on the size that is asked for.
\<close>

record grant =
  request_res :: int
  get_res :: int
  get_size :: int

record tr =
  t_input :: "rd list"
  t_grants :: "(int \<Rightarrow> grant) list"
  t_acks :: nat
  t_ack_ok :: "nat \<Rightarrow> bool"
  t_written :: "byte list list"

text \<open>The reply to the connection; \<open>junk\<close> is what \<^verbatim>\<open>info2\<close> held before. \<open>Inl\<close> is a return.\<close>

definition client_info2 :: "byte list \<Rightarrow> rd list \<Rightarrow> (unit + int \<times> rd list) option" where
  "client_info2 junk rs =
     map_option (\<lambda>r. case r of
         Inl u \<Rightarrow> Inl ()
       | Inr (ps, e, rs') \<Rightarrow> if e then Inl () else Inr (ntohl (take 4 (overwrite junk ps)), rs'))
       (recv True sizeof_info2 rs)"

definition PRE_ACKNOWLEDGES :: nat where "PRE_ACKNOWLEDGES = 20"

definition tr_connect :: "byte list \<Rightarrow> tr \<Rightarrow> (ending \<times> tr + tr) option" where
  "tr_connect junk s =
     map_option (\<lambda>r. case r of
         Inl u \<Rightarrow> Inl (Leave, s)
       | Inr (res, rs) \<Rightarrow>
           let s1 = s\<lparr>t_input := rs\<rparr> in
           if res \<noteq> E_NOERR then Inl (Exit 1, s1)
           else if \<forall>i \<in> set [0 ..< PRE_ACKNOWLEDGES]. t_ack_ok s1 i then Inr (s1\<lparr>t_acks := PRE_ACKNOWLEDGES\<rparr>)
           else Inl (Exit 1, s1))
       (client_info2 junk (t_input s))"

text \<open>A size that is out of range is reported and replaced.\<close>

definition checked_size :: "int \<Rightarrow> int" where
  "checked_size n = (if n < 0 \<or> n > 0x100000 then 0x4000 else n)"

definition tr_block :: "nat \<Rightarrow> tr \<Rightarrow> (ending \<times> tr + tr) option" where
  "tr_block n s =
     (case t_grants s of
        [] \<Rightarrow> None
      | g # gs \<Rightarrow>
          let s1 = s\<lparr>t_grants := gs\<rparr>; a = g (int n) in
          if request_res a \<noteq> 0 \<or> get_res a \<noteq> 0 \<or> get_size a < int n then Some (Inl (Leave, s1))
          else map_option (\<lambda>r. case r of
                   Inl u \<Rightarrow> Inl (Exit 1, s1)
                 | Inr (ps, e, rs) \<Rightarrow> Inr (s1\<lparr>t_input := rs, t_written := t_written s1 @ [concat ps]\<rparr>))
                 (recv_loop False n (t_input s1)))"

definition tr_ack :: "tr \<Rightarrow> ending \<times> tr + tr" where
  "tr_ack s = (if t_ack_ok s (t_acks s) then Inr (s\<lparr>t_acks := t_acks s + 1\<rparr>) else Inl (Exit 1, s))"

text \<open>One pass of the loop.\<close>

definition tr_pass :: "tr \<Rightarrow> (ending \<times> tr + tr) option" where
  "tr_pass s =
     (case recv False (nat sizeof_info3) (t_input s) of
        None \<Rightarrow> None
      | Some (Inl u) \<Rightarrow> Some (Inl (Exit 1, s))
      | Some (Inr (ps, e, rs)) \<Rightarrow>
          let n = checked_size (blk_size_of (concat ps));
              s1 = s\<lparr>t_input := rs\<rparr>
          in case (if n > 0 then tr_block (nat n) s1 else Some (Inr s1)) of
               None \<Rightarrow> None
             | Some (Inl r) \<Rightarrow> Some (Inl r)
             | Some (Inr s2) \<Rightarrow> Some (tr_ack s2))"

fun tr_loop :: "nat \<Rightarrow> tr \<Rightarrow> (ending \<times> tr + tr) option" where
  "tr_loop 0 s = Some (Inr s)"
| "tr_loop (Suc k) s =
     (case tr_pass s of
        None \<Rightarrow> None
      | Some (Inl r) \<Rightarrow> Some (Inl r)
      | Some (Inr s') \<Rightarrow> tr_loop k s')"

section \<open>The program tcp-save\<close>

text \<open>\<open>s_mok n\<close>: whether \<^verbatim>\<open>malloc\<close> has \<open>n\<close> bytes; \<open>s_junk n\<close>: what they contain.\<close>

record ts =
  s_input :: "rd list"
  s_acks :: nat
  s_ack_ok :: "nat \<Rightarrow> bool"
  s_mok :: "nat \<Rightarrow> bool"
  s_junk :: "nat \<Rightarrow> byte list"
  s_saved :: "byte list list"

definition ts_ack :: "ts \<Rightarrow> ending \<times> ts + ts" where
  "ts_ack s = (if s_ack_ok s (s_acks s) then Inr (s\<lparr>s_acks := s_acks s + 1\<rparr>) else Inl (Exit 1, s))"

text \<open>The test for a keep alive packet looks at the size of the frame, which is 64; a block of size 0 goes the common way.\<close>

definition ts_pass :: "ts \<Rightarrow> (ending \<times> ts + ts) option" where
  "ts_pass s =
     (case recv False (nat sizeof_info3) (s_input s) of
        None \<Rightarrow> None
      | Some (Inl u) \<Rightarrow> Some (Inl (Exit 1, s))
      | Some (Inr (ps, e, rs)) \<Rightarrow>
          let n = blk_size_of (concat ps); s1 = s\<lparr>s_input := rs\<rparr> in
          if n < 0 \<or> \<not> s_mok s1 (nat n) then Some (Inl (Leave, s1))
          else
            (case recv_loop True (nat n) rs of
               None \<Rightarrow> None
             | Some (Inl u) \<Rightarrow> Some (Inl (Exit 1, s1))
             | Some (Inr (ds, e', rs')) \<Rightarrow>
                 Some (ts_ack (s1\<lparr>s_input := rs', s_saved := s_saved s1 @ [overwrite (s_junk s1 (nat n)) [concat ds]]\<rparr>))))"

fun ts_loop :: "nat \<Rightarrow> ts \<Rightarrow> (ending \<times> ts + ts) option" where
  "ts_loop 0 s = Some (Inr s)"
| "ts_loop (Suc k) s =
     (case ts_pass s of
        None \<Rightarrow> None
      | Some (Inl r) \<Rightarrow> Some (Inl r)
      | Some (Inr s') \<Rightarrow> ts_loop k s')"

section \<open>The program tcp-cat\<close>

text \<open>\<open>c_info3\<close> is the frame, which keeps what the pass before left in it; \<open>c_out_ok k\<close>: whether the \<open>k\<close>-th write succeeds.\<close>

record tc =
  c_input :: "rd list"
  c_info3 :: "byte list"
  c_acks :: nat
  c_ack_ok :: "nat \<Rightarrow> bool"
  c_mok :: "nat \<Rightarrow> bool"
  v_flag :: bool
  output_bufsize :: nat
  c_writes :: nat
  c_out_ok :: "nat \<Rightarrow> bool"
  c_out :: "byte list"

definition tc_write :: "byte list \<Rightarrow> tc \<Rightarrow> bool \<times> tc" where
  "tc_write b s =
     (c_out_ok s (c_writes s),
      s\<lparr>c_writes := c_writes s + 1, c_out := (if c_out_ok s (c_writes s) then c_out s @ b else c_out s)\<rparr>)"

definition tc_output :: "byte list \<Rightarrow> tc \<Rightarrow> bool \<times> tc" where
  "tc_output b s =
     (if v_flag s then tc_write b s
      else if length b \<le> output_bufsize s
      then tc_write (replicate (output_bufsize s - length b) 0) (snd (tc_write b s))
      else tc_write (take (output_bufsize s) b) s)"

definition tc_pass :: "tc \<Rightarrow> (ending \<times> tc + tc) option" where
  "tc_pass s =
     (case recv True (nat sizeof_info3) (c_input s) of
        None \<Rightarrow> None
      | Some (Inl u) \<Rightarrow> Some (Inl (Exit 2, s))
      | Some (Inr (ps, e, rs)) \<Rightarrow>
          let s1 = s\<lparr>c_input := rs, c_info3 := overwrite (c_info3 s) ps\<rparr>; n = blk_size_of (c_info3 s1) in
          if e \<or> n < 0 \<or> \<not> c_mok s1 (nat n) then Some (Inl (Leave, s1))
          else
            (case recv_loop True (nat n) rs of
               None \<Rightarrow> None
             | Some (Inl u) \<Rightarrow> Some (Inl (Exit 2, s1))
             | Some (Inr (ds, e', rs')) \<Rightarrow>
                 if e' then Some (Inl (Leave, s1\<lparr>c_input := rs'\<rparr>))
                 else
                   (case tc_output (concat ds) (s1\<lparr>c_input := rs'\<rparr>) of
                      (ok, s2) \<Rightarrow>
                        Some (if \<not> ok \<or> \<not> c_ack_ok s2 (c_acks s2) then Inl (Exit 2, s2)
                              else Inr (s2\<lparr>c_acks := c_acks s2 + 1\<rparr>)))))"

section \<open>The program router-tcp\<close>

text \<open>
  The server for one client. \<open>r_bufs\<close> is what the calls of \<^verbatim>\<open>router_get_buf\<close> deliver (\<open>None\<close> an error), \<open>r_take k n\<close> how much
  the \<open>k\<close>-th write takes of \<open>n\<close> bytes (\<open>None\<close> an error); a write that fails or is cut short is not repeated. \<open>r_reply\<close> is the
  memory of the variable \<^verbatim>\<open>reply\<close>; \<open>r_wait\<close> the buffer whose acknowledge is waited for.
\<close>

record srv =
  client_ver :: int
  blk_size :: nat
  r_bufs :: "byte list option list"
  r_wait :: "byte list option"
  r_count :: int
  r_replies :: "rd list"
  r_reply :: "byte list"
  r_take :: "nat \<Rightarrow> nat \<Rightarrow> nat option"
  r_writes :: nat
  r_out :: "byte list"
  r_rel_ok :: "nat \<Rightarrow> bool"
  r_released :: nat
  r_connected :: bool

definition sr_write :: "byte list \<Rightarrow> srv \<Rightarrow> srv" where
  "sr_write b s =
     s\<lparr>r_writes := r_writes s + 1,
       r_out := r_out s @ (case r_take s (r_writes s) (length b) of None \<Rightarrow> [] | Some k \<Rightarrow> take k b)\<rparr>"

text \<open>The frame and the block; \<open>junk\<close> is the rest of \<^verbatim>\<open>info3\<close>, which is never set.\<close>

definition sr_send_block :: "byte list \<Rightarrow> byte list \<Rightarrow> srv \<Rightarrow> srv" where
  "sr_send_block junk b s =
     (if client_ver s = ROUTER_INET_VERSION_1 then
        let d = take (blk_size s) b
        in sr_write (replicate (blk_size s - length d) 0) (sr_write d s)
      else
        let s1 = sr_write (htonl (r_count s) @ htonl (int (length b)) @ junk) s
        in if b = [] then s1 else sr_write b s1)"

text \<open>One pass in two halves: up to the wait for the acknowledge, and from there.\<close>

definition sr_send :: "byte list \<Rightarrow> srv \<Rightarrow> (ending \<times> srv + srv) option" where
  "sr_send junk s =
     (case r_bufs s of
        [] \<Rightarrow> None
      | None # bl \<Rightarrow> Some (Inl (Leave, s))
      | Some b # bl \<Rightarrow> Some (Inr (sr_send_block junk b (s\<lparr>r_bufs := bl, r_wait := Some b\<rparr>))))"

definition sr_reply :: "srv \<Rightarrow> (ending \<times> srv + srv) option" where
  "sr_reply s =
     map_option (\<lambda>(got, rs).
       let rep = overwrite (r_reply s) [got]; s1 = s\<lparr>r_replies := rs, r_reply := rev rep, r_wait := None\<rparr> in
       if ntohl rep \<noteq> 0 \<and> client_ver s \<noteq> ROUTER_INET_VERSION_1 then Inl (Exit (-1), s1\<lparr>r_connected := False\<rparr>)
       else if r_rel_ok s (r_released s) then Inr (s1\<lparr>r_released := r_released s + 1, r_count := r_count s + 1\<rparr>)
       else Inl (Leave, s1))
     (reply_loop 4 (r_replies s))"

definition sr_pass :: "byte list \<Rightarrow> srv \<Rightarrow> (ending \<times> srv + srv) option" where
  "sr_pass junk s =
     (case sr_send junk s of
        None \<Rightarrow> None
      | Some (Inl r) \<Rightarrow> Some (Inl r)
      | Some (Inr s1) \<Rightarrow> sr_reply s1)"

fun send_data_from_router :: "nat \<Rightarrow> byte list \<Rightarrow> srv \<Rightarrow> (ending \<times> srv + srv) option" where
  "send_data_from_router 0 junk s = Some (Inr s)"
| "send_data_from_router (Suc k) junk s =
     (case sr_pass junk s of
        None \<Rightarrow> None
      | Some (Inl r) \<Rightarrow> Some (Inl r)
      | Some (Inr s') \<Rightarrow> send_data_from_router k junk s')"

text \<open>
  The request of a client. \<open>unit\<close> and \<open>stream\<close> are those of an old client: the name of the router and the size of its blocks
  come from tables of six entries, which the test does not protect (\<open>None\<close>: an entry behind the tables).
\<close>

definition router_names :: "string list" where
  "router_names = ['''', ''BLDG'', ''GR  '', ''LAS '', ''BLP '', ''BLDL'']"

definition def_blk_size :: "nat list" where
  "def_blk_size = [0x8000, 0x100000, 0x4000, 0x4000, 0x4000, 0x100000]"

definition old_client_router :: "16 word \<Rightarrow> 16 word \<Rightarrow> (unit + string \<times> nat) option" where
  "old_client_router un st =
     (if un = 0 \<and> 0 < st \<or> unat st < length router_names
      then (if unat st < length router_names then Some (Inr (router_names ! unat st, def_blk_size ! unat st)) else None)
      else Some (Inl ()))"

text \<open>
  A run file instead of a router (\<^verbatim>\<open>send_data_from_file\<close>): blocks of a header, whose field \<^verbatim>\<open>bsize\<close> is the third
  word, and the data. A file that ends inside a block ends the transfer with an error.
\<close>

definition MAX_BUF_SIZE :: int where "MAX_BUF_SIZE = 0x1000000"

definition sizeof_bld1_header :: nat where "sizeof_bld1_header = 32"

definition bld_block :: "byte list \<Rightarrow> (ending + byte list \<times> byte list \<times> byte list)" where
  "bld_block f =
     (let h = take sizeof_bld1_header f; n = ntohl (take 4 (drop 8 h)) in
      if f = [] then Inl Leave
      else if length h \<noteq> sizeof_bld1_header \<or> n < 0 \<or> MAX_BUF_SIZE < n \<or> length (drop sizeof_bld1_header f) < nat n then Inl (Exit (-1))
      else Inr (h, take (nat n) (drop sizeof_bld1_header f), drop (nat n) (drop sizeof_bld1_header f)))"

definition sf_pass :: "byte list \<Rightarrow> byte list \<times> srv \<Rightarrow> (ending \<times> srv + byte list \<times> srv) option" where
  "sf_pass junk fs =
     (case fs of (f, s) \<Rightarrow>
        case bld_block f of
          Inl e \<Rightarrow> Some (Inl (e, s))
        | Inr (h, b, f') \<Rightarrow>
            let s1 = sr_write b (sr_write h (sr_write (htonl (r_count s) @ htonl (int (length h + length b)) @ junk) s))
            in map_option (\<lambda>(got, rs).
                 let rep = overwrite (r_reply s1) [got]; s2 = s1\<lparr>r_replies := rs, r_reply := rev rep\<rparr> in
                 if ntohl rep \<noteq> 0 then Inl (Exit (-1), s2) else Inr (f', s2\<lparr>r_count := r_count s + 1\<rparr>))
               (reply_loop 4 (r_replies s1)))"

fun send_data_from_file :: "nat \<Rightarrow> byte list \<Rightarrow> byte list \<times> srv \<Rightarrow> (ending \<times> srv + byte list \<times> srv) option" where
  "send_data_from_file 0 junk fs = Some (Inr fs)"
| "send_data_from_file (Suc k) junk fs =
     (case sf_pass junk fs of
        None \<Rightarrow> None
      | Some (Inl r) \<Rightarrow> Some (Inl r)
      | Some (Inr fs') \<Rightarrow> send_data_from_file k junk fs')"

section \<open>The client library for old clients\<close>

text \<open>
  \<^verbatim>\<open>tcp_get_buf\<close> of \<^verbatim>\<open>tcplib.c\<close>: a block of the size that was agreed at the beginning. It returns 1 at the end of the data; a
  block that is cut off by the end counts as a block. \<open>ok\<close>: whether the acknowledge can be written.
\<close>

definition tcp_get_buf :: "bool \<Rightarrow> nat \<Rightarrow> byte list \<Rightarrow> rd list \<Rightarrow> (int \<times> byte list \<times> rd list) option" where
  "tcp_get_buf ok bufsize buf rs =
     map_option (\<lambda>r. case r of
         Inl u \<Rightarrow> (-1, buf, [])
       | Inr (ps, e, rs') \<Rightarrow>
           if ps = [] then (1, buf, rs') else (if ok then 0 else -1, overwrite buf [concat ps], rs'))
       (recv_loop True bufsize rs)"

section \<open>Numbers in the byte order of the network\<close>

lemma byte_of: "uint (word_of_int (drop_bit k n) :: byte) = (n div 2 ^ k) mod 256"
  by (simp add: uint_word_of_int drop_bit_eq_div)

lemma c_int_mod: "c_int (n mod 2 ^ 32) = c_int n"
proof -
  have "word_of_int (n mod 2 ^ 32) = (word_of_int n :: 32 word)" by (transfer, simp add: take_bit_eq_mod)
  then show ?thesis by (simp add: c_int_def)
qed

lemma four_bytes:
  "((n div 2 ^ 24 mod 256 * 256 + n div 2 ^ 16 mod 256) * 256 + n div 2 ^ 8 mod 256) * 256 + n mod 256 = (n :: int) mod 2 ^ 32"
proof -
  have "n mod (2 ^ 24 * 256) = 2 ^ 24 * (n div 2 ^ 24 mod 256) + n mod 2 ^ 24"
    "n mod (2 ^ 16 * 256) = 2 ^ 16 * (n div 2 ^ 16 mod 256) + n mod 2 ^ 16"
    "n mod (2 ^ 8 * 256) = 2 ^ 8 * (n div 2 ^ 8 mod 256) + n mod 2 ^ 8"
    by (rule zmod_zmult2_eq, simp)+
  moreover have "(2 :: int) ^ 24 * 256 = 2 ^ 32" "(2 :: int) ^ 16 * 256 = 2 ^ 24" "(2 :: int) ^ 8 * 256 = 2 ^ 16" "(2 :: int) ^ 8 = 256"
    by simp_all
  ultimately have "n mod 2 ^ 32 = 2 ^ 24 * (n div 2 ^ 24 mod 256) + (2 ^ 16 * (n div 2 ^ 16 mod 256) + (256 * (n div 2 ^ 8 mod 256) + n mod 256))"
    by (simp only:)
  moreover have "((a * 256 + b) * 256 + c) * 256 + d = 2 ^ 24 * a + (2 ^ 16 * b + (256 * c + d))" for a b c d :: int
    by (simp add: algebra_simps)
  ultimately show ?thesis by (simp only:)
qed

lemma ntohl_htonl: "- (2 ^ 31) \<le> n \<Longrightarrow> n < 2 ^ 31 \<Longrightarrow> ntohl (htonl n) = n"
  unfolding ntohl_def htonl_def list.map foldl.simps byte_of mult_zero_left add_0 power_0 div_by_1 four_bytes c_int_mod
  by (rule c_int_id)

lemma length_htonl: "length (htonl n) = 4"
  by (simp add: htonl_def)

section \<open>A connection that works\<close>

definition clean :: "rd list \<Rightarrow> bool" where
  "clean rs \<longleftrightarrow> (\<forall>r \<in> set rs. \<exists>b bs. r = Data (b # bs))"

lemma clean_simps [simp]: "clean []" "clean (Data (b # bs) # rs) \<longleftrightarrow> clean rs" "clean (rs @ rs') \<longleftrightarrow> clean rs \<and> clean rs'"
  by (auto simp: clean_def)

lemma clean_pieces: "[] \<notin> set ds \<Longrightarrow> clean (map Data ds) \<and> stream_of (map Data ds) = concat ds"
proof (induction ds)
  case (Cons d ds)
  then show ?case by (cases d) simp_all
qed simp

lemma clean_cases:
  assumes "clean (r # rs)"
  obtains b bs where "r = Data (b # bs)" "clean rs"
  using assms by (auto simp: clean_def)

lemma stream_of_append: "clean rs \<Longrightarrow> stream_of (rs @ rs') = stream_of rs @ stream_of rs'"
proof (induction rs)
  case (Cons r rs)
  then show ?case by (auto elim: clean_cases)
qed simp

lemma recv_clean:
  "clean rs \<Longrightarrow> n \<le> length (stream_of rs) \<Longrightarrow>
   \<exists>ps rs'. recv stop n rs = Some (Inr (ps, False, rs')) \<and> concat ps = take n (stream_of rs) \<and>
     stream_of rs' = drop n (stream_of rs) \<and> clean rs'"
proof (induction stop n rs rule: recv.induct)
  case (6 stop k b bs rs)
  define ds where "ds = take (Suc k) (b # bs)"
  define rest where "rest = drop (Suc k) (b # bs)"
  define rs1 where "rs1 = (if rest = [] then rs else Data rest # rs)"
  have dr: "ds @ rest = b # bs" by (simp add: ds_def rest_def)
  have c: "clean rs1" using "6.prems"(1) by (cases rest) (auto simp: rs1_def)
  have s: "b # bs @ stream_of rs = ds @ stream_of rs1"
    using dr by (cases rest) (auto simp: rs1_def simp flip: append_assoc append_Cons)
  have l: "length ds \<le> Suc k" by (simp add: ds_def)
  have "Suc k - length ds \<le> length (stream_of rs1)" using "6.prems"(2) arg_cong [OF s, of length] by simp
  from "6.IH" [OF ds_def rest_def c [unfolded rs1_def] this [unfolded rs1_def], folded rs1_def]
  obtain ps rs' where r: "recv stop (Suc k - length ds) rs1 = Some (Inr (ps, False, rs'))"
    "concat ps = take (Suc k - length ds) (stream_of rs1)" "stream_of rs' = drop (Suc k - length ds) (stream_of rs1)" "clean rs'"
    by blast
  have "recv stop (Suc k) (Data (b # bs) # rs) = Some (Inr (ds # ps, False, rs'))"
    using r(1) unfolding recv.simps ds_def rest_def rs1_def Let_def by simp
  moreover have "concat (ds # ps) = take (Suc k) (stream_of (Data (b # bs) # rs))"
    "stream_of rs' = drop (Suc k) (stream_of (Data (b # bs) # rs))"
    using l by (simp_all del: take_Suc_Cons drop_Suc_Cons add: s r(2,3))
  ultimately show ?case using r(4) by blast
qed (auto simp: clean_def)

lemma recv_loop_clean:
  assumes "clean rs" "0 < n" "n \<le> length (stream_of rs)"
  shows "\<exists>ps rs'. recv_loop stop n rs = Some (Inr (ps, False, rs')) \<and> concat ps = take n (stream_of rs) \<and>
    stream_of rs' = drop n (stream_of rs) \<and> clean rs'"
  using recv_clean [OF assms(1,3)] assms(2) by (simp add: recv_loop_def)

section \<open>Frames\<close>

text \<open>What goes over a connection for the block \<open>b\<close>; the limit is that of \<^verbatim>\<open>tcp_router\<close>.\<close>

definition frame :: "int \<Rightarrow> byte list \<Rightarrow> byte list \<Rightarrow> byte list" where
  "frame i junk b = htonl i @ htonl (int (length b)) @ junk @ b"

definition MAX_BLOCK :: nat where "MAX_BLOCK = 0x100000"

lemma blk_size_of_frame:
  assumes "length b \<le> MAX_BLOCK"
  shows "blk_size_of (htonl i @ htonl (int (length b)) @ xs) = int (length b)"
  using assms ntohl_htonl [of "int (length b)"]
  by (simp add: blk_size_of_def length_htonl MAX_BLOCK_def)

text \<open>The header of the next frame is read.\<close>

lemma recv_header:
  assumes "clean rs" "stream_of rs = frame i junk b @ rest" "length junk = 56" "length b \<le> MAX_BLOCK"
  shows "\<exists>ps rs'. recv stop (nat sizeof_info3) rs = Some (Inr (ps, False, rs')) \<and>
    concat ps = htonl i @ htonl (int (length b)) @ junk \<and> blk_size_of (concat ps) = int (length b) \<and> stream_of rs' = b @ rest \<and> clean rs'"
proof -
  have n: "nat sizeof_info3 = length (htonl i @ htonl (int (length b)) @ junk)"
    using assms(3) by (simp add: sizeof_info3_def length_htonl)
  have "nat sizeof_info3 \<le> length (stream_of rs)" unfolding n assms(2) frame_def by simp
  from recv_clean [OF assms(1) this, of stop] obtain ps rs' where
    "recv stop (nat sizeof_info3) rs = Some (Inr (ps, False, rs'))" "concat ps = htonl i @ htonl (int (length b)) @ junk"
    "stream_of rs' = b @ rest" "clean rs'"
    unfolding n assms(2) frame_def by auto
  then show ?thesis using blk_size_of_frame [OF assms(4)] by simp
qed

text \<open>
  A router that grants what it is asked for: for every size up to the limit a buffer of at least that size. The router of this
  repository gives the size rounded up to four bytes.
\<close>

definition good_grant :: "(int \<Rightarrow> grant) \<Rightarrow> bool" where
  "good_grant g \<longleftrightarrow> (\<forall>n. 0 < n \<and> n \<le> int MAX_BLOCK \<longrightarrow> request_res (g n) = 0 \<and> get_res (g n) = 0 \<and> n \<le> get_size (g n))"

definition router_grant :: "int \<Rightarrow> grant" where
  "router_grant n = \<lparr>request_res = 0, get_res = 0, get_size = round4 n\<rparr>"

lemma router_grant_good: "good_grant router_grant"
  by (simp add: good_grant_def router_grant_def round4_ge)

lemma tr_pass_frame:
  assumes "clean (t_input s)" "stream_of (t_input s) = frame i junk b @ rest" "length junk = 56" "length b \<le> MAX_BLOCK"
    "list_all good_grant (t_grants s)" "b \<noteq> [] \<Longrightarrow> t_grants s \<noteq> []" "t_ack_ok s (t_acks s)"
  shows "\<exists>rs. tr_pass s = Some (Inr (s\<lparr>t_input := rs, t_grants := (if b = [] then id else tl) (t_grants s),
      t_written := t_written s @ (if b = [] then [] else [b]), t_acks := t_acks s + 1\<rparr>)) \<and> clean rs \<and> stream_of rs = rest"
proof -
  obtain ps rs1 where h: "recv False (nat sizeof_info3) (t_input s) = Some (Inr (ps, False, rs1))"
    "blk_size_of (concat ps) = int (length b)" "stream_of rs1 = b @ rest" "clean rs1"
    using recv_header [OF assms(1-4)] by blast
  have n: "checked_size (int (length b)) = int (length b)" using assms(4) by (simp add: checked_size_def MAX_BLOCK_def)
  show ?thesis
  proof (cases "b = []")
    case True
    then show ?thesis using h n assms(7) by (auto simp: tr_pass_def tr_ack_def Let_def)
  next
    case False
    then obtain g gs where g: "t_grants s = g # gs" "good_grant g" using assms(5,6) by (cases "t_grants s") auto
    obtain ds rs2 where d: "recv_loop False (length b) rs1 = Some (Inr (ds, False, rs2))" "concat ds = b" "stream_of rs2 = rest" "clean rs2"
      using recv_loop_clean [OF h(4), of "length b" False] False h(3) by auto
    have "request_res (g (int (length b))) = 0 \<and> get_res (g (int (length b))) = 0 \<and> int (length b) \<le> get_size (g (int (length b)))"
      using g(2) assms(4) False unfolding good_grant_def by (meson length_greater_0_conv of_nat_0_less_iff of_nat_le_iff)
    then have "tr_block (length b) (s\<lparr>t_input := rs1\<rparr>) =
        Some (Inr (s\<lparr>t_input := rs2, t_grants := gs, t_written := t_written s @ [b]\<rparr>))"
      using d(1,2) g(1) by (simp add: tr_block_def Let_def)
    then show ?thesis using h n False d(3,4) g(1) assms(7) by (auto simp: tr_pass_def tr_ack_def Let_def)
  qed
qed

lemma ts_pass_frame:
  assumes "clean (s_input s)" "stream_of (s_input s) = frame i junk b @ rest" "length junk = 56" "length b \<le> MAX_BLOCK"
    "s_mok s (length b)" "length (s_junk s (length b)) = length b" "s_ack_ok s (s_acks s)"
  shows "\<exists>rs. ts_pass s = Some (Inr (s\<lparr>s_input := rs, s_saved := s_saved s @ [b], s_acks := s_acks s + 1\<rparr>)) \<and>
    clean rs \<and> stream_of rs = rest"
proof -
  obtain ps rs1 where h: "recv False (nat sizeof_info3) (s_input s) = Some (Inr (ps, False, rs1))"
    "blk_size_of (concat ps) = int (length b)" "stream_of rs1 = b @ rest" "clean rs1"
    using recv_header [OF assms(1-4)] by blast
  have "\<exists>ds e rs2. recv_loop True (length b) rs1 = Some (Inr (ds, e, rs2)) \<and> concat ds = b \<and> stream_of rs2 = rest \<and> clean rs2"
  proof (cases "b = []")
    case True
    then show ?thesis using h(3,4) by (simp add: recv_loop_def) blast
  next
    case False
    then obtain ds rs2 where "recv_loop True (length b) rs1 = Some (Inr (ds, False, rs2))" "concat ds = b" "stream_of rs2 = rest" "clean rs2"
      using recv_loop_clean [OF h(4), of "length b" True] h(3) by auto
    then show ?thesis by blast
  qed
  then show ?thesis using h(1,2) assms(5-7) by (auto simp: ts_pass_def ts_ack_def overwrite_def Let_def)
qed

text \<open>A sequence of frames: count, the bytes that are never set, block.\<close>

type_synonym frame = "int \<times> byte list \<times> byte list"

abbreviation block_of :: "frame \<Rightarrow> byte list" where
  "block_of f \<equiv> snd (snd f)"

definition frame_ok :: "frame \<Rightarrow> bool" where
  "frame_ok f \<longleftrightarrow> length (fst (snd f)) = 56 \<and> length (block_of f) \<le> MAX_BLOCK"

fun frames :: "frame list \<Rightarrow> byte list" where
  "frames [] = []"
| "frames ((i, junk, b) # fs) = frame i junk b @ frames fs"

lemma frames_append: "frames (fs @ gs) = frames fs @ frames gs"
  by (induction fs rule: frames.induct) simp_all

abbreviation filled :: "frame list \<Rightarrow> byte list list" where
  "filled fs \<equiv> filter (\<lambda>b. b \<noteq> []) (map block_of fs)"

lemma tr_loop_frames:
  assumes "clean (t_input s)" "stream_of (t_input s) = frames fs @ rest" "list_all frame_ok fs"
    "list_all good_grant (t_grants s)" "length (filled fs) \<le> length (t_grants s)" "\<forall>k. t_ack_ok s k"
  shows "\<exists>s'. tr_loop (length fs) s = Some (Inr s') \<and> t_written s' = t_written s @ filled fs \<and>
    t_acks s' = t_acks s + length fs \<and> clean (t_input s') \<and> stream_of (t_input s') = rest"
  using assms
proof (induction fs arbitrary: s rule: frames.induct)
  case (2 i junk b fs)
  have f: "length junk = 56" "length b \<le> MAX_BLOCK" "list_all frame_ok fs" using "2.prems"(3) by (simp_all add: frame_ok_def [of "(i, junk, b)"])
  have g: "b \<noteq> [] \<Longrightarrow> t_grants s \<noteq> []" using "2.prems"(5) by auto
  from tr_pass_frame [OF "2.prems"(1) _ f(1,2) "2.prems"(4) g, of i "frames fs @ rest"] "2.prems"(2,6)
  obtain rs where p: "tr_pass s = Some (Inr (s\<lparr>t_input := rs, t_grants := (if b = [] then id else tl) (t_grants s),
      t_written := t_written s @ (if b = [] then [] else [b]), t_acks := t_acks s + 1\<rparr>))" "clean rs" "stream_of rs = frames fs @ rest"
    by auto
  define s1 where "s1 = s\<lparr>t_input := rs, t_grants := (if b = [] then id else tl) (t_grants s),
      t_written := t_written s @ (if b = [] then [] else [b]), t_acks := t_acks s + 1\<rparr>"
  have l: "list_all good_grant (t_grants s1)" using "2.prems"(4) by (cases "t_grants s") (auto simp: s1_def)
  have n: "length (filled fs) \<le> length (t_grants s1)" using "2.prems"(5) by (auto simp: s1_def)
  have "clean (t_input s1)" "stream_of (t_input s1) = frames fs @ rest" "\<forall>k. t_ack_ok s1 k"
    using p(2,3) "2.prems"(6) by (simp_all add: s1_def)
  from "2.IH" [OF this(1,2) f(3) l n this(3)] show ?case using p(1) by (auto simp: s1_def)
qed simp

lemma ts_loop_frames:
  assumes "clean (s_input s)" "stream_of (s_input s) = frames fs @ rest" "list_all frame_ok fs"
    "\<forall>n. s_mok s n \<and> length (s_junk s n) = n" "\<forall>k. s_ack_ok s k"
  shows "\<exists>s'. ts_loop (length fs) s = Some (Inr s') \<and> s_saved s' = s_saved s @ map block_of fs \<and>
    s_acks s' = s_acks s + length fs \<and> clean (s_input s') \<and> stream_of (s_input s') = rest"
  using assms
proof (induction fs arbitrary: s rule: frames.induct)
  case (2 i junk b fs)
  have f: "length junk = 56" "length b \<le> MAX_BLOCK" "list_all frame_ok fs" using "2.prems"(3) by (simp_all add: frame_ok_def [of "(i, junk, b)"])
  from ts_pass_frame [OF "2.prems"(1) _ f(1,2), of i "frames fs @ rest"] "2.prems"(2,4,5)
  obtain rs where p: "ts_pass s = Some (Inr (s\<lparr>s_input := rs, s_saved := s_saved s @ [b], s_acks := s_acks s + 1\<rparr>))"
    "clean rs" "stream_of rs = frames fs @ rest"
    by auto
  with "2.IH" [of "s\<lparr>s_input := rs, s_saved := s_saved s @ [b], s_acks := s_acks s + 1\<rparr>"] f(3) "2.prems"(4,5) show ?case by auto
qed simp

lemma concat_filled: "concat (filled fs) = concat (map block_of fs)"
  by (induction fs) auto

section \<open>The three servers speak one protocol\<close>

text \<open>The bytes of a word in the memory of the sender (little endian).\<close>

definition word_bytes :: "32 word \<Rightarrow> byte list" where
  "word_bytes w = [ucast w, ucast (drop_bit 8 w), ucast (drop_bit 16 w), ucast (drop_bit 24 w)]"

definition block_bytes :: "32 word list \<Rightarrow> byte list" where
  "block_bytes ws = concat (map word_bytes ws)"

lemma length_block_bytes [simp]: "length (block_bytes ws) = 4 * length ws"
  by (induction ws) (simp_all add: block_bytes_def word_bytes_def)

text \<open>What \<^verbatim>\<open>write_to_sd\<close> of \<^verbatim>\<open>vmedaq\<close> has written for an entry of \<^verbatim>\<open>sent\<close>: \<^verbatim>\<open>info3\<close> and the data.\<close>

definition vme_wire :: "byte list \<Rightarrow> int \<times> int \<times> 32 word list \<Rightarrow> byte list" where
  "vme_wire junk e =
     (case e of (d, n, blk) \<Rightarrow> htonl n @ htonl (4 * int (length blk)) @ junk @ block_bytes blk)"

lemma vme_wire_frame: "vme_wire junk (d, n, blk) = frame n junk (block_bytes blk)"
  by (simp add: vme_wire_def frame_def)

lemma collector_frame:
  assumes "length buf = BLK_BUF_SIZE"
  shows "send_block ROUTER_INET_VERSION_2 junk bs i buf = frame i junk (concat (map host_bytes buf))"
proof -
  have "length (concat (map host_bytes buf)) = 2 * BLK_BUF_SIZE"
    using assms by (simp add: length_concat host_bytes_def comp_def sum_list_triv)
  then show ?thesis by (simp add: send_block_def frame_def ROUTER_INET_VERSION_1_def ROUTER_INET_VERSION_2_def)
qed

definition full_writes :: "srv \<Rightarrow> bool" where
  "full_writes s \<longleftrightarrow> (\<forall>k n. r_take s k n = Some n)"

lemma router_tcp_frame:
  assumes "client_ver s = ROUTER_INET_VERSION_2" "full_writes s"
  shows "r_out (sr_send_block junk b s) = r_out s @ frame (r_count s) junk b"
  using assms
  by (simp add: sr_send_block_def sr_write_def frame_def full_writes_def ROUTER_INET_VERSION_1_def ROUTER_INET_VERSION_2_def Let_def)

section \<open>Server and client together\<close>

text \<open>
  \<^verbatim>\<open>router_tcp\<close> and \<^verbatim>\<open>tcp_router\<close> at the two ends of a connection, in any order of their steps. What one of them writes is
  cut into pieces \<open>ds\<close> on its way to the other. A pass of the client that does not find its whole frame waits, so that it
  makes no difference when the pieces arrive.
\<close>

inductive link_step :: "byte list \<Rightarrow> srv \<times> tr \<Rightarrow> srv \<times> tr \<Rightarrow> bool" for junk where
  link_send: "\<lbrakk>r_wait s = None; sr_send junk s = Some (Inr s'); r_out s' = r_out s @ concat ds; [] \<notin> set ds\<rbrakk> \<Longrightarrow>
    link_step junk (s, c) (s', c\<lparr>t_input := t_input c @ map Data ds\<rparr>)"
| link_reply: "\<lbrakk>r_wait s \<noteq> None; sr_reply s = Some (Inr s')\<rbrakk> \<Longrightarrow> link_step junk (s, c) (s', c)"
| link_client: "\<lbrakk>tr_pass c = Some (Inr c'); concat ds = htonl 0; [] \<notin> set ds\<rbrakk> \<Longrightarrow>
    link_step junk (s, c) (s\<lparr>r_replies := r_replies s @ map Data ds\<rparr>, c')"

inductive_cases link_stepE: "link_step junk (s, c) (s', c')"

text \<open>The frames of the blocks \<open>j\<close> to \<open>k - 1\<close>.\<close>

definition frames_of :: "byte list \<Rightarrow> byte list list \<Rightarrow> nat \<Rightarrow> nat \<Rightarrow> frame list" where
  "frames_of junk bs j k = map (\<lambda>m. (int m, junk, bs ! m)) [j ..< k]"

lemma frames_of_next: "j < k \<Longrightarrow> frames (frames_of junk bs j k) = frame (int j) junk (bs ! j) @ frames (frames_of junk bs (Suc j) k)"
  by (simp add: frames_of_def upt_conv_Cons)

lemma frames_of_snoc: "j \<le> k \<Longrightarrow> frames (frames_of junk bs j (Suc k)) = frames (frames_of junk bs j k) @ frame (int k) junk (bs ! k)"
  by (simp add: frames_of_def frames_append)

definition zeros :: "nat \<Rightarrow> byte list" where "zeros n = concat (replicate n (htonl 0))"

lemma zeros_add: "zeros (m + n) = zeros m @ zeros n"
  by (simp add: zeros_def replicate_add)

lemma length_zeros: "length (zeros n) = 4 * n"
  by (induction n) (simp_all add: zeros_def length_htonl)

text \<open>
  The state after \<open>k\<close> blocks have been sent, \<open>n\<close> of them acknowledged, and \<open>j\<close> received. The twenty acknowledges that are
  sent before the first block let the server run ahead.
\<close>

definition server_at :: "byte list list \<Rightarrow> nat \<Rightarrow> nat \<Rightarrow> srv \<Rightarrow> bool" where
  "server_at bs k n s \<longleftrightarrow> client_ver s = ROUTER_INET_VERSION_2 \<and> full_writes s \<and> (\<forall>i. r_rel_ok s i) \<and>
     r_bufs s = map Some (drop k bs) \<and> k \<le> length bs \<and> r_count s = int n \<and> n = (if r_wait s = None then k else k - 1) \<and>
     (r_wait s \<noteq> None \<longrightarrow> 0 < k) \<and> length (r_reply s) = 4"

definition client_at :: "byte list list \<Rightarrow> nat \<Rightarrow> tr \<Rightarrow> bool" where
  "client_at bs j c \<longleftrightarrow> t_written c = filter (\<lambda>b. b \<noteq> []) (take j bs) \<and> t_acks c = PRE_ACKNOWLEDGES + j \<and>
     list_all good_grant (t_grants c) \<and> length bs \<le> j + length (t_grants c) \<and> (\<forall>i. t_ack_ok c i)"

definition link_at :: "byte list \<Rightarrow> byte list list \<Rightarrow> nat \<Rightarrow> nat \<Rightarrow> nat \<Rightarrow> srv \<Rightarrow> tr \<Rightarrow> bool" where
  "link_at junk bs k n j s c \<longleftrightarrow> server_at bs k n s \<and> client_at bs j c \<and> j \<le> k \<and> n \<le> PRE_ACKNOWLEDGES + j \<and>
     clean (t_input c) \<and> stream_of (t_input c) = frames (frames_of junk bs j k) \<and>
     clean (r_replies s) \<and> stream_of (r_replies s) = zeros (PRE_ACKNOWLEDGES + j - n)"

lemma sr_send_link:
  assumes "server_at bs k n s" "r_wait s = None" "k < length bs"
  shows "\<exists>s'. sr_send junk s = Some (Inr s') \<and> server_at bs (Suc k) n s' \<and> r_out s' = r_out s @ frame (int k) junk (bs ! k) \<and>
    r_replies s' = r_replies s"
proof -
  have b: "r_bufs s = Some (bs ! k) # map Some (drop (Suc k) bs)"
    using assms by (simp add: server_at_def Cons_nth_drop_Suc flip: list.map)
  let ?s = "s\<lparr>r_bufs := map Some (drop (Suc k) bs), r_wait := Some (bs ! k)\<rparr>"
  have s: "sr_send junk s = Some (Inr (sr_send_block junk (bs ! k) ?s))" by (simp add: sr_send_def b)
  have o: "r_out (sr_send_block junk (bs ! k) ?s) = r_out s @ frame (int k) junk (bs ! k)"
    using router_tcp_frame [of ?s junk "bs ! k"] assms(1,2) by (simp add: server_at_def full_writes_def)
  have "server_at bs (Suc k) n (sr_send_block junk (bs ! k) ?s)" "r_replies (sr_send_block junk (bs ! k) ?s) = r_replies s"
    using assms
    by (simp_all add: server_at_def full_writes_def sr_send_block_def sr_write_def Let_def ROUTER_INET_VERSION_1_def ROUTER_INET_VERSION_2_def)
  then show ?thesis using s o by blast
qed

lemma reply_loop_recv:
  "recv stop k rs = Some (Inr (ps, False, rs')) \<Longrightarrow> clean rs \<Longrightarrow> reply_loop k rs = Some (concat ps, rs')"
proof (induction stop k rs arbitrary: ps rule: recv.induct)
  case (6 stop k b bs rs)
  define ds where "ds = take (Suc k) (b # bs)"
  define rest where "rest = drop (Suc k) (b # bs)"
  define rs1 where "rs1 = (if rest = [] then rs else Data rest # rs)"
  have c: "clean rs1" using "6.prems"(2) by (cases rest) (auto simp: rs1_def)
  from "6.prems"(1) obtain z where z: "recv stop (Suc k - length ds) rs1 = Some z"
    "map_sum id (\<lambda>(ps, e, rs'). (ds # ps, e, rs')) z = Inr (ps, False, rs')"
    unfolding recv.simps Let_def ds_def [symmetric] rest_def [symmetric] rs1_def [symmetric] by blast
  then obtain qs where q: "recv stop (Suc k - length ds) rs1 = Some (Inr (qs, False, rs'))" "ps = ds # qs"
    by (cases z) auto
  from "6.IH" [OF ds_def rest_def q(1) [unfolded rs1_def] c [unfolded rs1_def], folded rs1_def]
  show ?case unfolding reply_loop.simps Let_def ds_def [symmetric] rest_def [symmetric] rs1_def [symmetric] by (simp add: q(2))
qed (auto simp: clean_def)

lemma sr_reply_link:
  assumes "server_at bs k n s" "r_wait s \<noteq> None" "clean (r_replies s)" "stream_of (r_replies s) = zeros (Suc m)"
  shows "\<exists>s'. sr_reply s = Some (Inr s') \<and> server_at bs k (Suc n) s' \<and> clean (r_replies s') \<and> stream_of (r_replies s') = zeros m \<and>
    r_wait s' = None"
proof -
  have z: "stream_of (r_replies s) = htonl 0 @ zeros m" using assms(4) by (simp add: zeros_def)
  then obtain ps rs where r: "recv False 4 (r_replies s) = Some (Inr (ps, False, rs))" "concat ps = htonl 0" "stream_of rs = zeros m" "clean rs"
    using recv_clean [OF assms(3), of 4 False] by (auto simp: length_htonl)
  have l: "reply_loop 4 (r_replies s) = Some (htonl 0, rs)" using reply_loop_recv [OF r(1) assms(3)] r(2) by simp
  have o: "overwrite (r_reply s) [htonl 0] = htonl 0" using assms(1) by (simp add: overwrite_def length_htonl server_at_def)
  have n: "ntohl (htonl 0) = 0" by (rule ntohl_htonl) simp_all
  let ?s = "s\<lparr>r_replies := rs, r_reply := rev (htonl 0), r_wait := None, r_released := r_released s + 1, r_count := r_count s + 1\<rparr>"
  have "sr_reply s = Some (Inr ?s)" using assms(1) by (simp add: sr_reply_def l o n Let_def server_at_def)
  moreover have "server_at bs k (Suc n) ?s" using assms(1,2) by (auto simp: server_at_def full_writes_def length_htonl)
  ultimately show ?thesis using r(3,4) by force
qed

lemma client_link:
  assumes "client_at bs j c" "clean (t_input c)" "stream_of (t_input c) = frame (int j) junk (bs ! j) @ rest" "j < length bs"
    "length junk = 56" "list_all (\<lambda>b. length b \<le> MAX_BLOCK) bs"
  shows "\<exists>c'. tr_pass c = Some (Inr c') \<and> client_at bs (Suc j) c' \<and> clean (t_input c') \<and> stream_of (t_input c') = rest"
proof -
  have l: "length (bs ! j) \<le> MAX_BLOCK" using assms(4,6) by (simp add: list_all_length)
  have g: "t_grants c \<noteq> []" using assms(1,4) by (auto simp: client_at_def)
  from tr_pass_frame [OF assms(2,3,5) l, of] assms(1) g obtain rs where p:
    "tr_pass c = Some (Inr (c\<lparr>t_input := rs, t_grants := (if bs ! j = [] then id else tl) (t_grants c),
      t_written := t_written c @ (if bs ! j = [] then [] else [bs ! j]), t_acks := t_acks c + 1\<rparr>))" "clean rs" "stream_of rs = rest"
    by (auto simp: client_at_def)
  have "client_at bs (Suc j) (c\<lparr>t_input := rs, t_grants := (if bs ! j = [] then id else tl) (t_grants c),
      t_written := t_written c @ (if bs ! j = [] then [] else [bs ! j]), t_acks := t_acks c + 1\<rparr>)"
    using assms(1,4) g by (cases "t_grants c") (auto simp: client_at_def take_Suc_conv_app_nth)
  then show ?thesis using p by auto
qed

lemma clean_empty: "clean rs \<Longrightarrow> stream_of rs = [] \<Longrightarrow> rs = []"
  by (cases rs) (auto elim: clean_cases)

lemma link_step_inv:
  assumes "link_at junk bs k n j s c" "link_step junk (s, c) (s', c')" "length junk = 56" "list_all (\<lambda>b. length b \<le> MAX_BLOCK) bs"
  shows "\<exists>k n j. link_at junk bs k n j s' c'"
proof -
  have sv: "server_at bs k n s" and cl: "client_at bs j c" and le: "j \<le> k" "n \<le> PRE_ACKNOWLEDGES + j" "k \<le> length bs"
    and i: "clean (t_input c)" "stream_of (t_input c) = frames (frames_of junk bs j k)"
    and r: "clean (r_replies s)" "stream_of (r_replies s) = zeros (PRE_ACKNOWLEDGES + j - n)"
    using assms(1) by (simp_all add: link_at_def server_at_def)
  from assms(2) consider
    (send) ds where "c' = c\<lparr>t_input := t_input c @ map Data ds\<rparr>" "r_wait s = None" "sr_send junk s = Some (Inr s')"
      "r_out s' = r_out s @ concat ds" "[] \<notin> set ds"
  | (reply) "c' = c" "r_wait s \<noteq> None" "sr_reply s = Some (Inr s')"
  | (client) ds where "s' = s\<lparr>r_replies := r_replies s @ map Data ds\<rparr>" "tr_pass c = Some (Inr c')" "concat ds = htonl 0" "[] \<notin> set ds"
    by (elim link_stepE) auto
  then show ?thesis
  proof cases
    case send
    have k: "k < length bs" using send(3) sv le(3) by (cases "k = length bs") (auto simp: server_at_def sr_send_def)
    from sr_send_link [OF sv send(2) k, of junk] send(3,4)
    have n: "server_at bs (Suc k) n s'" "concat ds = frame (int k) junk (bs ! k)" "r_replies s' = r_replies s" by auto
    have "client_at bs j c'" using cl send(1) by (simp add: client_at_def)
    moreover have "clean (t_input c')" "stream_of (t_input c') = frames (frames_of junk bs j (Suc k))"
      using i clean_pieces [OF send(5)] send(1) n(2) le(1) by (simp_all add: stream_of_append frames_of_snoc)
    ultimately have "link_at junk bs (Suc k) n j s' c'" using n le r by (simp add: link_at_def)
    then show ?thesis by blast
  next
    case reply
    have "PRE_ACKNOWLEDGES + j - n \<noteq> 0"
      using reply(3) r clean_empty [OF r(1)] by (auto simp: zeros_def sr_reply_def numeral_eq_Suc)
    then obtain m where m: "PRE_ACKNOWLEDGES + j - n = Suc m" by (cases "PRE_ACKNOWLEDGES + j - n") auto
    from sr_reply_link [OF sv reply(2) r(1) r(2) [unfolded m]] reply(3)
    have "server_at bs k (Suc n) s'" "clean (r_replies s')" "stream_of (r_replies s') = zeros m" by auto
    moreover have "m = PRE_ACKNOWLEDGES + j - Suc n" "Suc n \<le> PRE_ACKNOWLEDGES + j" using m by simp_all
    ultimately have "link_at junk bs k (Suc n) j s' c'" using cl le i reply(1) by (simp add: link_at_def)
    then show ?thesis by blast
  next
    case client
    have k: "j < k"
    proof (rule ccontr)
      assume "\<not> j < k"
      then have "t_input c = []" using le(1) i clean_empty [OF i(1)] by (simp add: frames_of_def)
      then show False using client(2) by (simp add: tr_pass_def sizeof_info3_def numeral_eq_Suc)
    qed
    from client_link [OF cl i(1) i(2) [unfolded frames_of_next [OF k]] _ assms(3,4)] k le(3) client(2)
    have c: "client_at bs (Suc j) c'" "clean (t_input c')" "stream_of (t_input c') = frames (frames_of junk bs (Suc j) k)" by auto
    have "server_at bs k n s'" using sv client(1) by (auto simp: server_at_def full_writes_def)
    moreover have "clean (r_replies s')" "stream_of (r_replies s') = zeros (PRE_ACKNOWLEDGES + Suc j - n)"
      using r clean_pieces [OF client(4)] client(1,3) le(2) zeros_add [of "PRE_ACKNOWLEDGES + j - n" 1]
      by (simp_all add: stream_of_append zeros_def Suc_diff_le)
    ultimately have "link_at junk bs k n (Suc j) s' c'" using c k le(2) by (simp add: link_at_def)
    then show ?thesis by blast
  qed
qed

text \<open>As long as blocks are missing at the client one of the two ends can go on.\<close>

lemma link_progress:
  assumes "link_at junk bs k n j s c" "j < length bs" "length junk = 56" "list_all (\<lambda>b. length b \<le> MAX_BLOCK) bs"
  shows "\<exists>sc. link_step junk (s, c) sc"
proof -
  have sv: "server_at bs k n s" and cl: "client_at bs j c" and le: "j \<le> k" "n \<le> PRE_ACKNOWLEDGES + j"
    and i: "clean (t_input c)" "stream_of (t_input c) = frames (frames_of junk bs j k)"
    and r: "clean (r_replies s)" "stream_of (r_replies s) = zeros (PRE_ACKNOWLEDGES + j - n)"
    using assms(1) by (simp_all add: link_at_def)
  have client: ?thesis if jk: "j < k"
  proof -
    obtain c' where "tr_pass c = Some (Inr c')"
      using client_link [OF cl i(1) i(2) [unfolded frames_of_next [OF jk]] assms(2-4)] by blast
    then show ?thesis using link_client [of c c' "[htonl 0]"] by (auto simp: htonl_def)
  qed
  show ?thesis
  proof (cases "r_wait s = None")
    case True
    show ?thesis
    proof (cases "k < length bs")
      case k: True
      obtain s' where "sr_send junk s = Some (Inr s')" "r_out s' = r_out s @ frame (int k) junk (bs ! k)"
        using sr_send_link [OF sv True k] by blast
      then show ?thesis
        using link_send [OF True, of junk s' "[frame (int k) junk (bs ! k)]" c] by (auto simp: frame_def htonl_def)
    next
      case False
      then show ?thesis using client assms(2) by simp
    qed
  next
    case False
    show ?thesis
    proof (cases "PRE_ACKNOWLEDGES + j - n")
      case 0
      have "n = k - 1" "0 < k" using sv False by (auto simp: server_at_def)
      then show ?thesis using 0 client le by (simp add: PRE_ACKNOWLEDGES_def)
    next
      case (Suc m)
      then show ?thesis using sr_reply_link [OF sv False r(1)] r(2) link_reply [OF False] by fastforce
    qed
  qed
qed

section \<open>Properties\<close>

definition link_start :: "byte list list \<Rightarrow> srv \<Rightarrow> tr \<Rightarrow> bool" where
  "link_start bs s c \<longleftrightarrow> client_ver s = ROUTER_INET_VERSION_2 \<and> full_writes s \<and> (\<forall>i. r_rel_ok s i) \<and>
     r_bufs s = map Some bs \<and> r_wait s = None \<and> r_count s = 0 \<and> length (r_reply s) = 4 \<and>
     clean (r_replies s) \<and> stream_of (r_replies s) = zeros PRE_ACKNOWLEDGES \<and>
     t_input c = [] \<and> t_written c = [] \<and> t_acks c = PRE_ACKNOWLEDGES \<and> list_all good_grant (t_grants c) \<and>
     length bs \<le> length (t_grants c) \<and> (\<forall>i. t_ack_ok c i)"

lemma link_start_at: "link_start bs s c \<Longrightarrow> link_at junk bs 0 0 0 s c"
  by (simp add: link_start_def link_at_def server_at_def client_at_def frames_of_def)

lemma link_reach:
  assumes "(link_step junk)\<^sup>*\<^sup>* (s0, c0) (s, c)" "link_start bs s0 c0" "length junk = 56" "list_all (\<lambda>b. length b \<le> MAX_BLOCK) bs"
  shows "\<exists>k n j. link_at junk bs k n j s c"
  using assms(1)
proof (induction "(s, c)" arbitrary: s c rule: rtranclp_induct)
  case base
  show ?case using link_start_at [OF assms(2)] by blast
next
  case (step y)
  obtain s1 c1 where y: "y = (s1, c1)" by (cases y)
  show ?case using step(3) [OF y] link_step_inv [OF _ step(2) [unfolded y] assms(3,4)] by blast
qed

text \<open>C26: a router that sends its blocks with \<^verbatim>\<open>router_tcp\<close> and one that receives them with \<^verbatim>\<open>tcp_router\<close>, in any order of
  their steps and with the data cut up in any way, where the second router grants every request a buffer that is not smaller than the
  block: what has been written to the second router is always the beginning of
  the blocks of the first, unchanged and in order, the server is at most 21 blocks ahead of the client, and the two never
  wait for each other while blocks are missing.\<close>
theorem linked_routers_pass_blocks:
  assumes "(link_step junk)\<^sup>*\<^sup>* (s0, c0) (s, c)" "link_start bs s0 c0" "length junk = 56" "list_all (\<lambda>b. length b \<le> MAX_BLOCK) bs"
  shows "\<exists>j k. t_written c = filter (\<lambda>b. b \<noteq> []) (take j bs) \<and> r_bufs s = map Some (drop k bs) \<and>
    j \<le> k \<and> k \<le> j + 21 \<and> k \<le> length bs \<and> t_acks c = PRE_ACKNOWLEDGES + j \<and>
    (j < length bs \<longrightarrow> (\<exists>sc. link_step junk (s, c) sc))"
proof -
  obtain k n j where l: "link_at junk bs k n j s c" using link_reach [OF assms] by blast
  have "k \<le> j + 21" using l by (auto simp: link_at_def server_at_def PRE_ACKNOWLEDGES_def split: if_splits)
  then show ?thesis using l link_progress [OF l _ assms(3,4)] by (auto simp: link_at_def server_at_def client_at_def)
qed

definition demo_srv :: srv where
  "demo_srv = \<lparr>client_ver = ROUTER_INET_VERSION_2, blk_size = 0, r_bufs = map Some [[1, 2, 3], [], [4]], r_wait = None, r_count = 0,
     r_replies = replicate 20 (Data (htonl 0)), r_reply = [9, 9, 9, 9], r_take = (\<lambda>k n. Some n), r_writes = 0, r_out = [],
     r_rel_ok = (\<lambda>k. True), r_released = 0, r_connected = True\<rparr>"

definition demo_tr :: tr where
  "demo_tr = \<lparr>t_input = [], t_grants = replicate 3 router_grant, t_acks = 20,
     t_ack_ok = (\<lambda>k. True), t_written = []\<rparr>"

lemma stream_of_replicate: "stream_of (replicate n (Data (htonl 0)) @ rs) = zeros n @ stream_of rs"
  by (induction n) (simp_all add: zeros_def htonl_def)

lemma demo_link: "link_start [[1, 2, 3], [], [4]] demo_srv demo_tr"
proof -
  have "clean (replicate 20 (Data (htonl 0)))" by (auto simp: clean_def htonl_def)
  moreover have "stream_of (replicate 20 (Data (htonl 0))) = zeros 20" using stream_of_replicate [of 20 "[]"] by simp
  ultimately show ?thesis
    by (simp add: link_start_def demo_srv_def demo_tr_def full_writes_def PRE_ACKNOWLEDGES_def router_grant_good list_all_iff)
qed

theorem linked_routers_pass_blocks_witness:
  "\<exists>s c. (link_step (replicate 56 0))\<^sup>*\<^sup>* (demo_srv, demo_tr) (s, c) \<and> t_written c = [[1, 2, 3]] \<and>
     (\<exists>sc. link_step (replicate 56 0) (s, c) sc)"
proof -
  let ?bs = "[[1, 2, 3], [], [4]] :: byte list list" and ?j = "replicate 56 0 :: byte list"
  have sz: "length ?j = 56" "list_all (\<lambda>b. length b \<le> MAX_BLOCK) ?bs" by (simp_all add: MAX_BLOCK_def)
  have l: "link_at ?j ?bs 0 0 0 demo_srv demo_tr" by (rule link_start_at [OF demo_link])
  then have sv: "server_at ?bs 0 0 demo_srv" and cl: "client_at ?bs 0 demo_tr" by (simp_all add: link_at_def)
  obtain s1 where s1: "sr_send ?j demo_srv = Some (Inr s1)" "r_out s1 = r_out demo_srv @ frame (int 0) ?j (?bs ! 0)"
    using sr_send_link [OF sv, of ?j] by (auto simp: demo_srv_def)
  let ?f = "frame (int 0) ?j (?bs ! 0)" and ?c = "demo_tr\<lparr>t_input := t_input demo_tr @ map Data [frame (int 0) ?j (?bs ! 0)]\<rparr>"
  have ne: "?f \<noteq> []" by (simp add: frame_def htonl_def)
  have 1: "link_step ?j (demo_srv, demo_tr) (s1, ?c)"
    by (rule link_send) (use s1 ne in \<open>simp_all add: demo_srv_def\<close>)
  have in1: "clean (t_input ?c)" "stream_of (t_input ?c) = ?f @ []"
    using clean_pieces [of "[?f]"] ne by (simp_all add: demo_tr_def)
  have "client_at ?bs 0 ?c" using cl by (simp add: client_at_def)
  then obtain c1 where c1: "tr_pass ?c = Some (Inr c1)" "client_at ?bs (Suc 0) c1"
    using client_link [OF _ in1 _ sz] by auto
  have 2: "link_step ?j (s1, ?c) (s1\<lparr>r_replies := r_replies s1 @ map Data [htonl 0]\<rparr>, c1)"
    by (rule link_client [OF c1(1)]) (simp_all add: htonl_def)
  have r: "(link_step ?j)\<^sup>*\<^sup>* (demo_srv, demo_tr) (s1\<lparr>r_replies := r_replies s1 @ map Data [htonl 0]\<rparr>, c1)"
    using 1 2 by (meson converse_rtranclp_into_rtranclp rtranclp.rtrancl_refl)
  have w: "t_written c1 = [[1, 2, 3]]" "t_acks c1 = PRE_ACKNOWLEDGES + 1" using c1(2) by (simp_all add: client_at_def)
  show ?thesis using linked_routers_pass_blocks [OF r demo_link sz] r w by fastforce
qed

text \<open>C27: what \<^verbatim>\<open>tcp_save\<close> writes to its file is, byte for byte, what \<^verbatim>\<open>tcp_router\<close> puts into its router when it is given the
  same blocks, cut up in another way, and the router grants every request a buffer that is not smaller than the block; both acknowledge every frame. Blocks without data, which keep the connection alive,
  leave no trace in either.\<close>
theorem save_agrees_with_router:
  assumes "clean (t_input c)" "clean (s_input f)" "stream_of (t_input c) = frames fs" "stream_of (s_input f) = frames fs"
    "list_all frame_ok fs" "list_all good_grant (t_grants c)" "length fs \<le> length (t_grants c)" "\<forall>k. t_ack_ok c k \<and> s_ack_ok f k"
    "\<forall>n. s_mok f n \<and> length (s_junk f n) = n"
  shows "\<exists>c' f'. tr_loop (length fs) c = Some (Inr c') \<and> ts_loop (length fs) f = Some (Inr f') \<and>
    concat (drop (length (t_written c)) (t_written c')) = concat (drop (length (s_saved f)) (s_saved f')) \<and>
    concat (drop (length (t_written c)) (t_written c')) = concat (map block_of fs) \<and>
    t_acks c' = t_acks c + length fs \<and> s_acks f' = s_acks f + length fs"
proof -
  have "length (filled fs) \<le> length fs" using length_filter_le [of "\<lambda>b. b \<noteq> []" "map block_of fs"] by (simp only: length_map)
  then have g: "length (filled fs) \<le> length (t_grants c)" using assms(7) by (rule order_trans)
  have ok: "\<forall>k. t_ack_ok c k" "\<forall>k. s_ack_ok f k" using assms(8) by simp_all
  obtain c' where c: "tr_loop (length fs) c = Some (Inr c')" "t_written c' = t_written c @ filled fs" "t_acks c' = t_acks c + length fs"
    using tr_loop_frames [OF assms(1) _ assms(5,6) g ok(1), of "[]"] assms(3) by (simp only: append_Nil2) blast
  obtain f' where f: "ts_loop (length fs) f = Some (Inr f')" "s_saved f' = s_saved f @ map block_of fs" "s_acks f' = s_acks f + length fs"
    using ts_loop_frames [OF assms(2) _ assms(5,9) ok(2), of "[]"] assms(4) by (simp only: append_Nil2) blast
  show ?thesis
    by (intro exI [of _ c'] exI [of _ f'] conjI) (simp_all only: c f append_eq_conv_conj drop_append diff_self_eq_0 drop_0 drop_all
        append_Nil concat_filled order_refl)
qed

definition demo_ts :: ts where
  "demo_ts = \<lparr>s_input = [], s_acks = 20, s_ack_ok = (\<lambda>k. True), s_mok = (\<lambda>n. True), s_junk = (\<lambda>n. replicate n 0xAA), s_saved = []\<rparr>"

theorem save_agrees_with_router_witness:
  "\<exists>c' f'. tr_loop 3 (demo_tr\<lparr>t_input := map (\<lambda>b. Data [b]) (frames (frames_of (replicate 56 7) [[1, 2, 3], [], [4]] 0 3))\<rparr>) = Some (Inr c') \<and>
     ts_loop 3 (demo_ts\<lparr>s_input := [Data (frames (frames_of (replicate 56 7) [[1, 2, 3], [], [4]] 0 3))]\<rparr>) = Some (Inr f') \<and>
     concat (t_written c') = [1, 2, 3, 4] \<and> concat (s_saved f') = [1, 2, 3, 4] \<and> s_acks f' = 23"
proof -
  define F :: "frame list" where "F = frames_of (replicate 56 7) [[1, 2, 3], [], [4]] 0 3"
  have f: "F = [(0, replicate 56 7, [1, 2, 3]), (1, replicate 56 7, []), (2, replicate 56 7, [4])]"
    by (simp add: F_def frames_of_def upt_rec)
  have ne: "frames F \<noteq> []" by (simp add: f frame_def htonl_def)
  have c: "clean (map (\<lambda>b. Data [b]) bs) \<and> stream_of (map (\<lambda>b. Data [b]) bs) = bs" for bs
    by (induction bs) simp_all
  have d: "clean [Data (frames F)]" "stream_of [Data (frames F)] = frames F"
    using clean_pieces [of "[frames F]"] ne by simp_all
  have ok: "list_all frame_ok F" "length F = 3" "concat (map block_of F) = [1, 2, 3, 4]"
    by (simp_all add: f frame_ok_def MAX_BLOCK_def)
  have g: "list_all good_grant (t_grants demo_tr)" "length (t_grants demo_tr) = 3"
    by (simp_all add: demo_tr_def list_all_iff router_grant_good)
  let ?c = "demo_tr\<lparr>t_input := map (\<lambda>b. Data [b]) (frames F)\<rparr>" and ?f = "demo_ts\<lparr>s_input := [Data (frames F)]\<rparr>"
  have e: "t_written ?c = []" "s_saved ?f = []" "s_acks ?f = 20" "\<forall>k. t_ack_ok ?c k \<and> s_ack_ok ?f k"
    "\<forall>n. s_mok ?f n \<and> length (s_junk ?f n) = n" by (simp_all add: demo_tr_def demo_ts_def)
  have h: "clean (t_input ?c)" "stream_of (t_input ?c) = frames F" "clean (s_input ?f)" "stream_of (s_input ?f) = frames F"
    "list_all good_grant (t_grants ?c)" "length F \<le> length (t_grants ?c)"
    using c [of "frames F"] d g ok(2) by simp_all
  obtain c' f' where "tr_loop (length F) ?c = Some (Inr c')" "ts_loop (length F) ?f = Some (Inr f')"
    "concat (drop (length (t_written ?c)) (t_written c')) = concat (drop (length (s_saved ?f)) (s_saved f'))"
    "concat (drop (length (t_written ?c)) (t_written c')) = concat (map block_of F)" "s_acks f' = s_acks ?f + length F"
    using save_agrees_with_router [OF h(1,3,2,4) ok(1) h(5,6) e(4,5)] by blast
  then have "tr_loop 3 ?c = Some (Inr c')" "ts_loop 3 ?f = Some (Inr f')"
    "concat (t_written c') = [1, 2, 3, 4]" "concat (s_saved f') = [1, 2, 3, 4]" "s_acks f' = 23"
    using ok(2,3) e(1-3) by simp_all
  then show ?thesis unfolding F_def by blast
qed

lemma block_ok_size: "block_ok n b \<Longrightarrow> length b \<le> DATA_BUF_SIZE \<and> b \<noteq> []"
  unfolding block_ok_def by (metis append_is_Nil_conv list.distinct(1))

lemma numbered_sizes: "numbered n bs \<Longrightarrow> b \<in> set bs \<Longrightarrow> length b \<le> DATA_BUF_SIZE \<and> b \<noteq> []"
  unfolding numbered_def by (metis in_set_conv_nth block_ok_size)

text \<open>C28: from \<^verbatim>\<open>vmedaq\<close> to a router: the blocks that one pass over the modules sends to \<^verbatim>\<open>tcp_router\<close> arrive in its router
  byte for byte and in order, each with its header and with consecutive numbers, however the connection cuts them up, when that router grants
  every request a buffer that is not smaller than the block; the largest block that \<^verbatim>\<open>vmedaq\<close> can make is the largest one that \<^verbatim>\<open>tcp_router\<close> takes.\<close>
theorem vme_blocks_reach_router:
  assumes "read_data h s = (r, s')" "v830_n_scalers s \<le> V830_N_CHANNELS" "sd s \<noteq> 0" "sent s' = sent s @ new"
    "clean (t_input c)" "stream_of (t_input c) = concat (map (vme_wire junk) new)" "length junk = 56"
    "list_all good_grant (t_grants c)" "length new \<le> length (t_grants c)" "\<forall>k. t_ack_ok c k"
  shows "\<exists>c'. tr_loop (length new) c = Some (Inr c') \<and>
    t_written c' = t_written c @ map (block_bytes \<circ> snd \<circ> snd) new \<and> t_acks c' = t_acks c + length new \<and>
    numbered (vmedaq_block_counter s) (map (snd \<circ> snd) new)"
proof -
  obtain bs where bs: "outs s' = outs s @ bs" "numbered (vmedaq_block_counter s) bs"
    using read_data_blocks [OF assms(1,2)] by blast
  have "sd s' = sd s" using read_data_keeps assms(1,2) by blast
  then have new: "bs = map (snd \<circ> snd) new" using bs(1) assms(3,4) by (simp add: outs_def)
  have nb: "numbered (vmedaq_block_counter s) (map (snd \<circ> snd) new)" using bs(2) by (simp only: new)
  have ok: "length (snd (snd e)) \<le> DATA_BUF_SIZE \<and> snd (snd e) \<noteq> []" if "e \<in> set new" for e
    using numbered_sizes [OF nb] that by auto
  define fs where "fs = map (\<lambda>(d, n, blk). (n, junk, block_bytes blk)) new"
  have st: "stream_of (t_input c) = frames fs @ []"
    unfolding assms(6) fs_def by (induction new) (auto simp: vme_wire_frame)
  have fr: "list_all frame_ok fs"
    using ok assms(7) by (fastforce simp: list_all_iff fs_def frame_ok_def MAX_BLOCK_def DATA_BUF_SIZE_def)
  have "map block_of fs = map (block_bytes \<circ> snd \<circ> snd) new" by (simp add: fs_def case_prod_beta comp_def)
  moreover have "block_bytes blk = [] \<longleftrightarrow> blk = []" for blk using length_block_bytes [of blk] by (cases blk) (auto simp: block_bytes_def word_bytes_def)
  ultimately have fl: "filled fs = map (block_bytes \<circ> snd \<circ> snd) new" using ok by (simp add: filter_id_conv)
  have "length (filled fs) \<le> length (t_grants c)" using assms(9) by (simp only: fl length_map)
  moreover have "length fs = length new" by (simp add: fs_def)
  ultimately show ?thesis using tr_loop_frames [OF assms(5) st fr assms(8) _ assms(10)] fl nb by (simp only:) blast
qed

theorem vme_blocks_reach_router_witness:
  "\<exists>c'. tr_loop 1 (demo_tr\<lparr>t_input := map (\<lambda>b. Data [b])
       (vme_wire (replicate 56 0) (4, 11, [0x44454D56, 2, 5, 32, 3, 11, 22, 33]))\<rparr>) = Some (Inr c') \<and>
     t_written c' = [block_bytes [0x44454D56, 2, 5, 32, 3, 11, 22, 33]] \<and>
     sent (snd (read_data demo_pass demo_vd)) = [(4, 11, [0x44454D56, 2, 5, 32, 3, 11, 22, 33])]"
proof -
  let ?e = "(4, 11, [0x44454D56, 2, 5, 32, 3, 11, 22, 33]) :: int \<times> int \<times> 32 word list"
  let ?c = "demo_tr\<lparr>t_input := map (\<lambda>b. Data [b]) (vme_wire (replicate 56 0) ?e)\<rparr>"
  have c: "clean (map (\<lambda>b. Data [b]) bs) \<and> stream_of (map (\<lambda>b. Data [b]) bs) = bs" for bs
    by (induction bs) simp_all
  have v: "v830_n_scalers demo_vd \<le> V830_N_CHANNELS" "sd demo_vd \<noteq> 0" "sent (snd (read_data demo_pass demo_vd)) = sent demo_vd @ [?e]"
    using demo_read_data(3) by (simp_all add: demo_vd_def V830_N_CHANNELS_def)
  have i: "clean (t_input ?c)" "stream_of (t_input ?c) = concat (map (vme_wire (replicate 56 0)) [?e])"
    using c by simp_all
  have g: "list_all good_grant (t_grants ?c)" "length [?e] \<le> length (t_grants ?c)" "\<forall>k. t_ack_ok ?c k" "t_written ?c = []"
    by (simp_all add: demo_tr_def list_all_iff router_grant_good)
  show ?thesis
    using vme_blocks_reach_router [OF prod.collapse [symmetric, of "read_data demo_pass demo_vd"] v i _ g(1-3)] g(4) demo_read_data(3)
    by auto
qed

section \<open>Where they fail\<close>

text \<open>
  A server that closes the connection, in the middle of a block or between two, is not noticed by \<^verbatim>\<open>tcp_router\<close> and
  \<^verbatim>\<open>tcp_save\<close>: \<^verbatim>\<open>read\<close> gives 0 again and again, and the loop goes on.
\<close>
lemma close_not_noticed:
  "recv False (Suc k) (replicate n (Data [])) = None"
  "t_input s = replicate n (Data []) \<Longrightarrow> tr_pass s = None"
  "s_input f = replicate n (Data []) \<Longrightarrow> ts_pass f = None"
proof -
  show r: "recv False (Suc k) (replicate n (Data [])) = None" for k by (induction n) simp_all
  show "t_input s = replicate n (Data []) \<Longrightarrow> tr_pass s = None" "s_input f = replicate n (Data []) \<Longrightarrow> ts_pass f = None"
    using r [of 63] by (simp_all add: tr_pass_def ts_pass_def sizeof_info3_def numeral_eq_Suc)
qed

text \<open>The packet that keeps a connection to \<^verbatim>\<open>vmedaq\<close> alive ends \<^verbatim>\<open>tcp_cat\<close>: it takes the size 0 for the end of the data.\<close>
lemma keep_alive_ends_tcp_cat:
  assumes "clean (c_input s)" "stream_of (c_input s) = frame i junk [] @ rest" "length junk = 56" "c_mok s 0"
    "recv True (nat sizeof_info3) (c_input s) = Some (Inr ([header], False, rs))"
  shows "\<exists>s'. tc_pass s = Some (Inl (Leave, s'))"
proof -
  from recv_header [OF assms(1-3), of True] assms(5)
  have h: "header = htonl i @ htonl 0 @ junk" by (simp add: MAX_BLOCK_def)
  have n: "blk_size_of (header @ xs) = 0" for xs
    using blk_size_of_frame [of "[]" i "junk @ xs"] by (simp add: h MAX_BLOCK_def)
  show ?thesis using assms(4,5) n by (simp add: tc_pass_def recv_loop_def overwrite_def Let_def)
qed

text \<open>
  A reply that arrives in two pieces is put together wrongly by \<^verbatim>\<open>tcp_router\<close> and \<^verbatim>\<open>tcp_cat\<close>: the second piece is stored over
  the first one, so that an error code can look like success.
\<close>
lemma split_reply_misread:
  "client_info2 (replicate 16 0) [Data (htonl 3 @ replicate 12 0)] = Some (Inr (3, []))"
  "client_info2 (replicate 16 0) [Data (htonl 3), Data (replicate 12 0)] = Some (Inr (0, []))"
  by code_simp+

text \<open>A frame with a size that is out of range makes \<^verbatim>\<open>tcp_router\<close> take 16 kB of what follows for its block.\<close>
lemma bad_size_is_guessed: "n < 0 \<or> 0x100000 < n \<Longrightarrow> checked_size n = 0x4000"
  by (simp add: checked_size_def)

text \<open>An old client may name a stream behind the end of the tables.\<close>
lemma old_client_reads_behind_table: "old_client_router 0 6 = None" "old_client_router 5 2 = Some (Inr (''GR  '', 0x4000))"
  by (simp_all add: old_client_router_def router_names_def def_blk_size_def)

section \<open>Old clients and run files\<close>

text \<open>An old client gets every block in the agreed size: the block, cut off or filled with zeros.\<close>
lemma old_client_gets_padded_block:
  assumes "client_ver s = ROUTER_INET_VERSION_1" "full_writes s" "clean rs" "stream_of rs = drop (length (r_out s)) (r_out (sr_send_block junk b s)) @ rest"
    "0 < blk_size s" "length buf = blk_size s"
  shows "\<exists>rs'. tcp_get_buf True (blk_size s) buf rs =
      Some (0, take (blk_size s) b @ replicate (blk_size s - length b) 0, rs') \<and> clean rs' \<and> stream_of rs' = rest"
proof -
  let ?d = "take (blk_size s) b @ replicate (blk_size s - length b) 0"
  have o: "drop (length (r_out s)) (r_out (sr_send_block junk b s)) = ?d"
    using assms(1,2) by (simp add: sr_send_block_def sr_write_def full_writes_def Let_def min_def)
  have l: "length ?d = blk_size s" by simp
  obtain ps rs' where r: "recv_loop True (blk_size s) rs = Some (Inr (ps, False, rs'))" "concat ps = ?d" "stream_of rs' = rest" "clean rs'"
    using recv_loop_clean [OF assms(3,5), of True] assms(4) l unfolding o by auto
  have "ps \<noteq> []" using arg_cong [OF r(2), of length] assms(5) l by auto
  then show ?thesis using r assms(6) l by (auto simp: tcp_get_buf_def overwrite_def)
qed

text \<open>A whole block of a run file is sent as one frame of header and data.\<close>
lemma file_block_is_framed:
  assumes "bld_block f = Inr (h, b, f')" "full_writes s" "clean (r_replies s)" "stream_of (r_replies s) = zeros (Suc m)"
    "length (r_reply s) = 4"
  shows "\<exists>s'. sf_pass junk (f, s) = Some (Inr (f', s')) \<and> r_out s' = r_out s @ frame (r_count s) junk (h @ b) \<and>
    f = h @ b @ f' \<and> r_count s' = r_count s + 1"
proof -
  have z: "stream_of (r_replies s) = htonl 0 @ zeros m" using assms(4) by (simp add: zeros_def)
  then obtain ps rs where r: "recv False 4 (r_replies s) = Some (Inr (ps, False, rs))" "concat ps = htonl 0"
    using recv_clean [OF assms(3), of 4 False] by (auto simp: length_htonl)
  have l: "reply_loop 4 (r_replies s) = Some (htonl 0, rs)" using reply_loop_recv [OF r(1) assms(3)] r(2) by simp
  have o: "overwrite (r_reply s) [htonl 0] = htonl 0" "ntohl (htonl 0) = 0"
    using assms(5) ntohl_htonl [of 0] by (simp_all add: overwrite_def length_htonl)
  obtain n where "h = take sizeof_bld1_header f" "b = take n (drop sizeof_bld1_header f)" "f' = drop n (drop sizeof_bld1_header f)"
    using assms(1) by (auto simp: bld_block_def Let_def simp del: drop_drop split: if_splits)
  then have "f = h @ b @ f'" by (simp only: append_take_drop_id)
  then show ?thesis
    using assms(1,2) l o by (simp add: sf_pass_def sr_write_def full_writes_def frame_def Let_def)
qed

end
