(* ===== verification/Error_Log.thy ===== *)
theory Error_Log
  imports Kernel_IPC Config
begin

text \<open>
  The error log: the library the programs send their messages with (\<^verbatim>\<open>errloglib.c\<close>) and the server that shows and
  records them (\<^verbatim>\<open>errlog.c\<close>, both under \<^verbatim>\<open>router/errlog/src\<close>). A line is put together in an array of 256
  characters with \<^verbatim>\<open>strcpy\<close>, \<^verbatim>\<open>strcat\<close> and cuts by a 0; the model keeps every stage of it, so that the bounds of the
  array are part of the statements. The text of \<^verbatim>\<open>ctime\<close> is an argument: 24 characters and a line end.
\<close>

section \<open>Messages\<close>

definition PNAMLEN :: nat where "PNAMLEN = 15"
definition EMSGLEN :: nat where "EMSGLEN = 223"

definition ErrFatal :: int where "ErrFatal = 100"
definition ErrSever :: int where "ErrSever = 20"
definition ErrWarning :: int where "ErrWarning = 10"
definition ErrMessage :: int where "ErrMessage = 8"
definition ErrComment :: int where "ErrComment = 7"
definition ErrLog :: int where "ErrLog = 6"
definition ErrDebug :: int where "ErrDebug = 3"
definition ErrVoid :: int where "ErrVoid = 0"

lemmas err_types = ErrFatal_def ErrSever_def ErrWarning_def ErrMessage_def ErrComment_def ErrLog_def ErrDebug_def ErrVoid_def

record err_msg_t =
  errtype :: int
  err_pid :: int
  pnam :: string
  msg :: string

definition err_letter :: "int \<Rightarrow> char" where
  "err_letter t =
     (if t = ErrFatal then CHR ''F'' else if t = ErrSever then CHR ''E'' else if t = ErrWarning then CHR ''W''
      else if t = ErrMessage then CHR ''M'' else if t = ErrComment then CHR ''C'' else if t = ErrLog then CHR ''L''
      else if t = ErrDebug then CHR ''D'' else if t = ErrVoid then CHR ''V'' else CHR ''U'')"

section \<open>Lines\<close>

text \<open>\<^verbatim>\<open>str[n] = 0;\<close> where the string is shorter the end stays where it is. \<^verbatim>\<open>strncat(a, b, n)\<close>.\<close>

definition cut_at :: "nat \<Rightarrow> string \<Rightarrow> string" where
  "cut_at n s = take n s"

definition strncat :: "nat \<Rightarrow> string \<Rightarrow> string \<Rightarrow> string" where
  "strncat n a b = a @ take n b"

text \<open>The contents of \<^verbatim>\<open>str\<close> after every statement of \<^verbatim>\<open>show_msg\<close> that changes it, the last one first.\<close>

definition show_stages :: "string \<Rightarrow> err_msg_t \<Rightarrow> string list" where
  "show_stages ct m =
     (let s1 = err_letter (errtype m) # drop 10 ct;
          s2 = cut_at 10 s1;
          s3 = s2 @ '' '';
          s4 = strncat 8 s3 (pnam m);
          s5 = s4 @ ''          '';
          s6 = cut_at 19 s5;
          s7 = s6 @ '' ... '';
          s8 = strncat 55 s7 (msg m)
      in [s8, s7, s6, s5, s4, s3, s2, s1])"

text \<open>\<^verbatim>\<open>" %5d "\<close>\<close>

definition pid_text :: "int \<Rightarrow> string" where
  "pid_text p = '' '' @ replicate (5 - length (show_long p)) CHR '' '' @ show_long p @ '' ''"

definition log_stages :: "string \<Rightarrow> err_msg_t \<Rightarrow> string list" where
  "log_stages ct m =
     (let s1 = err_letter (errtype m) # drop 3 ct;
          s2 = cut_at 17 s1;
          s3 = s2 @ pid_text (err_pid m);
          s4 = strncat 8 s3 (pnam m);
          s5 = strncat 8 s4 ''        '';
          s6 = cut_at 33 s5;
          s7 = s6 @ '' ... '';
          s8 = strncat 55 s7 (msg m)
      in [s8, s7, s6, s5, s4, s3, s2, s1])"

definition newline :: string where "newline = [CHR 0x0A]"
definition bell :: string where "bell = [CHR 0x07]"

definition rings :: "int \<Rightarrow> bool" where
  "rings t \<longleftrightarrow> t \<notin> {ErrWarning, ErrComment, ErrLog, ErrDebug, ErrVoid}"

text \<open>What \<^verbatim>\<open>show_msg\<close> prints and what \<^verbatim>\<open>log_msg\<close> writes when a file is open.\<close>

definition show_msg :: "string \<Rightarrow> err_msg_t \<Rightarrow> string" where
  "show_msg ct m =
     (if errtype m = ErrLog \<or> errtype m = ErrVoid then []
      else (if rings (errtype m) then bell else []) @ hd (show_stages ct m) @ newline)"

definition log_msg :: "string \<Rightarrow> err_msg_t \<Rightarrow> string" where
  "log_msg ct m =
     (if errtype m = ErrDebug \<or> errtype m = ErrVoid then [] else hd (log_stages ct m) @ newline)"

section \<open>The server\<close>

text \<open>
  \<open>log_queue\<close> is the message queue of the user in the kernel, \<open>None\<close> when there is none; \<open>has_id\<close> says that \<^verbatim>\<open>msg_id\<close>
  is not -1, \<open>log_file\<close> is what was written to the file, \<open>None\<close> without one.
\<close>

record elog =
  log_queue :: "err_msg_t list option"
  has_id :: bool
  screen :: string
  log_file :: "string option"

definition err_message :: "string \<Rightarrow> err_msg_t \<Rightarrow> elog \<Rightarrow> elog" where
  "err_message ct m s = s\<lparr>screen := screen s @ show_msg ct m, log_file := map_option (\<lambda>f. f @ log_msg ct m) (log_file s)\<rparr>"

text \<open>
  \<^verbatim>\<open>err_msg\<close> of the server itself, with the text after \<^verbatim>\<open>sprintf\<close> into an array of 256 characters; \<open>None\<close> is the
  write behind it.
\<close>

definition err_msg :: "string \<Rightarrow> int \<Rightarrow> int \<Rightarrow> string \<Rightarrow> elog \<Rightarrow> elog option" where
  "err_msg ct pr t text s =
     (if length text < 256
      then Some (err_message ct \<lparr>errtype = t, err_pid = pr, pnam = ''errorlog'', msg = take EMSGLEN text\<rparr> s) else None)"

definition create_msg :: "elog \<Rightarrow> int \<times> elog" where
  "create_msg s = (if log_queue s \<noteq> None then (-1, s\<lparr>has_id := False\<rparr>) else (0, s\<lparr>log_queue := Some [], has_id := True\<rparr>))"

text \<open>Without an identifier of its own the function looks one up by the key.\<close>

definition remove_msg :: "elog \<Rightarrow> elog" where
  "remove_msg s =
     (if \<not> has_id s \<and> log_queue s = None then s
      else if log_queue s = None then s
      else s\<lparr>log_queue := None, has_id := False\<rparr>)"

text \<open>
  What happens while the server waits in \<^verbatim>\<open>msgrcv\<close>: it gets the next message at a time, a client sends one, somebody
  removes the queue, a signal comes (which sets \<^verbatim>\<open>end_flag\<close> if it is one of the signals 1 to 14), or the call fails.
\<close>

datatype rcv = Next string | Arrive err_msg_t | Removed | Signal bool | Error string int

fun errlog :: "int \<Rightarrow> rcv list \<Rightarrow> elog \<Rightarrow> elog option" where
  "errlog pr es s =
     (if \<not> has_id s \<or> log_queue s = None then Some s
      else case es of
             [] \<Rightarrow> None
           | Next ct # rest \<Rightarrow>
               (case the (log_queue s) of
                  [] \<Rightarrow> errlog pr rest s
                | m # ms \<Rightarrow> errlog pr rest (err_message ct m (s\<lparr>log_queue := Some ms\<rparr>)))
           | Arrive m # rest \<Rightarrow> errlog pr rest (s\<lparr>log_queue := Some (the (log_queue s) @ [m])\<rparr>)
           | Removed # rest \<Rightarrow> errlog pr rest (s\<lparr>log_queue := None\<rparr>)
           | Signal e # rest \<Rightarrow> if e then Some s else errlog pr rest s
           | Error ct e # rest \<Rightarrow> err_msg ct pr ErrSever (''Error in msgrcv(), id='' @ show_long e @ ''.'') s)"

declare errlog.simps [simp del]

text \<open>
  \<^verbatim>\<open>main\<close> with the file name of the command line, if there is one, and the times of its own messages. \<open>None\<close> is a run
  that has not ended.
\<close>

definition errlog_main :: "int \<Rightarrow> string \<Rightarrow> string option \<Rightarrow> rcv list \<Rightarrow> elog \<Rightarrow> elog option" where
  "errlog_main pr ct arg es s =
     Option.bind (err_msg ct pr ErrMessage ''Launch error log.'' (s\<lparr>has_id := False, log_file := map_option (\<lambda>_. []) arg\<rparr>)) (\<lambda>s1.
     Option.bind
       (case arg of
          Some f \<Rightarrow> err_msg ct pr ErrComment (''Error log file is '' @ [CHR 0x27] @ f @ [CHR 0x27] @ ''.'') s1
        | None \<Rightarrow> err_msg ct pr ErrWarning ''No error log file is selected.'' s1) (\<lambda>s2.
     Option.bind (errlog pr es (snd (create_msg s2))) (\<lambda>s3.
     Option.bind (err_msg ct pr ErrMessage ''Terminate error log.'' s3) (\<lambda>s4. Some (remove_msg s4)))))"

section \<open>The library of the clients\<close>

record err_client =
  c_open :: bool
  c_msg :: err_msg_t

definition errlog_open :: "string \<Rightarrow> int \<Rightarrow> elog \<Rightarrow> err_client \<Rightarrow> int \<times> err_client" where
  "errlog_open name pr s c =
     (if log_queue s = None then (-1, c\<lparr>c_open := False\<rparr>)
      else (0, c\<lparr>c_open := True, c_msg := (c_msg c)\<lparr>err_pid := pr, pnam := take PNAMLEN name\<rparr>\<rparr>))"

definition errlog_msg :: "int \<Rightarrow> string \<Rightarrow> err_client \<Rightarrow> elog \<Rightarrow> int \<times> err_client \<times> elog" where
  "errlog_msg t text c s =
     (let m = (c_msg c)\<lparr>errtype := t, msg := take EMSGLEN text\<rparr>;
          c1 = c\<lparr>c_msg := m\<rparr>
      in case log_queue s of
           None \<Rightarrow> (-1, c1, s)
         | Some ms \<Rightarrow> if c_open c then (0, c1, s\<lparr>log_queue := Some (ms @ [m])\<rparr>) else (-1, c1, s))"

section \<open>Lines of the log\<close>

lemma show_line:
  assumes "length ct = 25"
  shows "hd (show_stages ct m) =
    err_letter (errtype m) # take 9 (drop 10 ct) @ '' '' @ take 8 (take 8 (pnam m) @ ''          '') @ '' ... '' @ take 55 (msg m)"
  using assms by (simp add: show_stages_def Let_def cut_at_def strncat_def min_def)

lemma log_line:
  assumes "length ct = 25" and "length (pid_text (err_pid m)) = 7"
  shows "hd (log_stages ct m) =
    err_letter (errtype m) # take 16 (drop 3 ct) @ pid_text (err_pid m) @ take 9 (take 8 (pnam m) @ ''        '') @ '' ... '' @ take 55 (msg m)"
  using assms by (simp add: log_stages_def Let_def cut_at_def strncat_def min_def)

lemma pid_text_length: "0 \<le> p \<Longrightarrow> p < 100000 \<Longrightarrow> length (pid_text p) = 7"
  using show_nat_length [of "nat p" 5] by (simp add: pid_text_def show_long_def)

lemma pid_text_bound:
  assumes "- (2 ^ 31) \<le> p" and "p < 2 ^ 31"
  shows "length (pid_text p) \<le> 13"
proof -
  have "nat \<bar>p\<bar> < 10 ^ 10"
    using assms by (simp add: nat_less_iff abs_less_iff)
  then have "length (show_nat (nat \<bar>p\<bar>)) \<le> 10"
    by (rule show_nat_length) simp
  then have "length (show_long p) \<le> 11"
    by (cases "p < 0") (simp_all add: show_long_def)
  then show ?thesis
    by (simp add: pid_text_def)
qed

section \<open>Properties\<close>

text \<open>C31: A line of the error log has fixed columns: on the screen the letter of the message, the time of day, eight
  characters of the name of the program and 55 of the text; in the file the letter, date and time, the process number and
  the same. No stage of putting it together leaves its array of 256 characters, whatever the message.\<close>

theorem log_lines_fit:
  assumes "length ct = 25" and "0 \<le> err_pid m" and "err_pid m < 100000"
  shows "hd (show_stages ct m) =
      err_letter (errtype m) # take 9 (drop 10 ct) @ '' '' @ take 8 (take 8 (pnam m) @ ''          '') @ '' ... '' @ take 55 (msg m) \<and>
    hd (log_stages ct m) =
      err_letter (errtype m) # take 16 (drop 3 ct) @ pid_text (err_pid m) @ take 9 (take 8 (pnam m) @ ''        '') @ '' ... '' @ take 55 (msg m) \<and>
    (\<forall>p s. - (2 ^ 31) \<le> p \<and> p < 2 ^ 31 \<and> s \<in> set (show_stages ct m @ log_stages ct (m\<lparr>err_pid := p\<rparr>)) \<longrightarrow> length s + 1 < 256)"
proof -
  have "length s + 1 < 256" if "- (2 ^ 31) \<le> p" "p < 2 ^ 31" "s \<in> set (show_stages ct m @ log_stages ct (m\<lparr>err_pid := p\<rparr>))" for p s
    using that(3) pid_text_bound [OF that(1,2)] assms(1)
    by (auto simp: show_stages_def log_stages_def Let_def cut_at_def strncat_def)
  then show ?thesis
    using show_line [OF assms(1)] log_line [OF assms(1) pid_text_length [OF assms(2,3)]] by blast
qed

definition demo_msg :: err_msg_t where
  "demo_msg = \<lparr>errtype = ErrWarning, err_pid = 4711, pnam = ''router'', msg = ''Buffer full''\<rparr>"

definition demo_time :: string where
  "demo_time = ''Wed Jun 30 21:49:08 1993'' @ newline"

theorem log_lines_fit_witness:
  "hd (show_stages demo_time demo_msg) = ''W 21:49:08 router   ... Buffer full'' \<and>
   hd (log_stages demo_time demo_msg) = ''W Jun 30 21:49:08  4711 router    ... Buffer full''"
proof -
  have p: "pid_text 4711 = ''  4711 ''"
    by (simp add: pid_text_def show_long_def show_nat.simps [of 4711] show_nat.simps [of 471] show_nat.simps [of 47] show_nat.simps [of 4]
        char_of_def bit_0)
  have "length demo_time = 25"
    by (simp add: demo_time_def newline_def)
  from log_lines_fit [OF this, of demo_msg] show ?thesis
    by (simp add: demo_msg_def p) (simp add: demo_time_def newline_def err_letter_def err_types)
qed

text \<open>The messages of the clients while the server runs.\<close>

fun arrivals :: "rcv list \<Rightarrow> err_msg_t list" where
  "arrivals [] = []"
| "arrivals (Arrive m # es) = m # arrivals es"
| "arrivals (_ # es) = arrivals es"

fun no_error :: "rcv \<Rightarrow> bool" where
  "no_error (Error ct e) = False"
| "no_error _ = True"

text \<open>The two ways an entry into the loop goes on, and what \<open>tms\<close> is of a run of it.\<close>

lemma errlog_stopped: "\<not> has_id s \<or> log_queue s = None \<Longrightarrow> errlog pr es s = Some s"
  by (simp add: errlog.simps [of pr es s])

lemma errlog_running:
  assumes "has_id s" and "log_queue s = Some q"
  shows "errlog pr es s =
    (case es of
       [] \<Rightarrow> None
     | Next ct # rest \<Rightarrow> (case q of [] \<Rightarrow> errlog pr rest s | m # ms \<Rightarrow> errlog pr rest (err_message ct m (s\<lparr>log_queue := Some ms\<rparr>)))
     | Arrive m # rest \<Rightarrow> errlog pr rest (s\<lparr>log_queue := Some (q @ [m])\<rparr>)
     | Removed # rest \<Rightarrow> errlog pr rest (s\<lparr>log_queue := None\<rparr>)
     | Signal b # rest \<Rightarrow> if b then Some s else errlog pr rest s
     | Error ct n # rest \<Rightarrow> err_msg ct pr ErrSever (''Error in msgrcv(), id='' @ show_long n @ ''.'') s)"
  using assms by (subst errlog.simps) (simp split: list.splits rcv.splits)

definition handled :: "elog \<Rightarrow> elog \<Rightarrow> (string \<times> err_msg_t) list \<Rightarrow> err_msg_t list \<Rightarrow> rcv list \<Rightarrow> bool" where
  "handled s s' tms q es \<longleftrightarrow>
    screen s' = screen s @ concat (map (\<lambda>(ct, m). show_msg ct m) tms) \<and>
    log_file s' = map_option (\<lambda>f. f @ concat (map (\<lambda>(ct, m). log_msg ct m) tms)) (log_file s) \<and>
    (\<exists>rest. q @ arrivals es = map snd tms @ rest) \<and>
    (\<forall>q'. log_queue s' = Some q' \<longrightarrow> (\<exists>rest. q @ arrivals es = map snd tms @ q' @ rest))"

lemma handled_none: "log_queue s = Some q \<Longrightarrow> handled s s [] q es"
  by (simp add: handled_def option.map_ident)

lemma handled_step:
  "handled (err_message ct m (s\<lparr>log_queue := Some ms\<rparr>)) s' tms ms es \<Longrightarrow> handled s s' ((ct, m) # tms) (m # ms) (Next c # es)"
  by (auto simp: handled_def err_message_def option.map_comp comp_def)

lemma errlog_handles:
  assumes "errlog pr es s = Some s'" and "list_all no_error es" and "log_queue s = Some q"
  shows "\<exists>tms. handled s s' tms q es"
  using assms
proof (induction es arbitrary: s q)
  case Nil
  show ?case
  proof (cases "has_id s")
    case True
    with Nil show ?thesis by (simp add: errlog_running)
  next
    case False
    with Nil have "s' = s" by (simp add: errlog_stopped)
    with Nil(3) handled_none show ?thesis by blast
  qed
next
  case (Cons e es)
  have stop: ?case if "s' = s"
    using that Cons.prems(3) handled_none by blast
  show ?case
  proof (cases "has_id s")
    case False
    with Cons.prems(1) show ?thesis
      by (intro stop) (simp add: errlog_stopped)
  next
    case True
    note run = errlog_running [OF True Cons.prems(3), of pr "e # es"]
    show ?thesis
    proof (cases e)
      case (Next ct)
      note IH = Cons.IH and prems = Cons.prems
      show ?thesis
      proof (cases q)
        case Nil
        with run Next prems IH [of s q] show ?thesis by (simp add: handled_def)
      next
        case (Cons m ms)
        let ?s = "err_message ct m (s\<lparr>log_queue := Some ms\<rparr>)"
        have "errlog pr es ?s = Some s'"
          using run Next Cons prems(1) by simp
        moreover have "log_queue ?s = Some ms"
          by (simp add: err_message_def)
        ultimately obtain tms where "handled ?s s' tms ms es"
          using IH [of ?s ms] prems(2) by auto
        with Next Cons handled_step show ?thesis
          by blast
      qed
    next
      case (Arrive m)
      with run Cons.prems Cons.IH [of "s\<lparr>log_queue := Some (q @ [m])\<rparr>" "q @ [m]"] show ?thesis
        by (simp add: handled_def)
    next
      case Removed
      with run Cons.prems(1) have "s' = s\<lparr>log_queue := None\<rparr>"
        by (simp add: errlog_stopped)
      then show ?thesis
        by (intro exI [of _ "[]"]) (simp add: handled_def option.map_ident)
    next
      case (Signal b)
      with run Cons.prems Cons.IH [of s q] stop show ?thesis
        by (cases b) (auto simp: handled_def)
    next
      case (Error ct n)
      with Cons.prems(2) show ?thesis by simp
    qed
  qed
qed

text \<open>Whatever comes between, the server shows and records the messages of the clients in the order they were sent,
  none twice and none left out between two it shows, on the screen and in the file the same ones, and what it has not taken
  when it ends is still in the queue, unless the queue was removed.\<close>

theorem log_keeps_order:
  assumes "errlog pr es s = Some s'" and "list_all no_error es" and "log_queue s = Some q"
  shows "\<exists>tms. screen s' = screen s @ concat (map (\<lambda>(ct, m). show_msg ct m) tms) \<and>
    log_file s' = map_option (\<lambda>f. f @ concat (map (\<lambda>(ct, m). log_msg ct m) tms)) (log_file s) \<and>
    (\<exists>rest. q @ arrivals es = map snd tms @ rest) \<and>
    (\<forall>q'. log_queue s' = Some q' \<longrightarrow> (\<exists>rest. q @ arrivals es = map snd tms @ q' @ rest))"
  using errlog_handles [OF assms] by (simp add: handled_def)

theorem log_keeps_order_witness:
  "\<exists>s' tms. errlog 1 [Arrive demo_msg, Next demo_time, Arrive (demo_msg\<lparr>errtype := ErrDebug\<rparr>), Signal True]
       \<lparr>log_queue = Some [], has_id = True, screen = [], log_file = Some []\<rparr> = Some s' \<and>
     screen s' = concat (map (\<lambda>(ct, m). show_msg ct m) tms) \<and> log_queue s' = Some [demo_msg\<lparr>errtype := ErrDebug\<rparr>] \<and>
     log_file s' = Some (log_msg demo_time demo_msg)"
proof -
  let ?es = "[Arrive demo_msg, Next demo_time, Arrive (demo_msg\<lparr>errtype := ErrDebug\<rparr>), Signal True]"
  let ?s = "\<lparr>log_queue = Some [], has_id = True, screen = [], log_file = Some []\<rparr>"
  have e: "\<exists>s'. errlog 1 ?es ?s = Some s' \<and> log_queue s' = Some [demo_msg\<lparr>errtype := ErrDebug\<rparr>] \<and>
      log_file s' = Some (log_msg demo_time demo_msg)"
    by (simp add: errlog.simps err_message_def)
  then obtain s' where s': "errlog 1 ?es ?s = Some s'" "log_queue s' = Some [demo_msg\<lparr>errtype := ErrDebug\<rparr>]"
    "log_file s' = Some (log_msg demo_time demo_msg)"
    by blast
  from log_keeps_order [OF s'(1), of "[]"] s' show ?thesis
    by auto
qed

text \<open>C32: A second error log server for the same user cannot make the message queue, and when it ends, which is at once,
  it removes the queue of the first server with everything in it: the first server ends too, and the messages of the
  clients are lost from then on.\<close>

theorem second_server_removes_queue:
  assumes "log_queue s = Some q" and "case arg of None \<Rightarrow> True | Some f \<Rightarrow> length f < 235" and "errlog_open name p s c = (0, c1)"
  shows "\<exists>s2. errlog_main pr ct arg es s = Some s2 \<and> log_queue s2 = None \<and>
    (\<forall>pr1 es1 s1. log_queue s1 = log_queue s2 \<longrightarrow> errlog pr1 es1 s1 = Some s1) \<and>
    (\<forall>t text. fst (errlog_msg t text c1 s2) = -1)"
proof -
  obtain s2 where s2: "errlog_main pr ct arg es s = Some s2" "log_queue s2 = None"
    using assms(1,2)
    by (cases arg) (simp_all add: errlog_main_def err_msg_def create_msg_def err_message_def errlog_stopped remove_msg_def)
  moreover have "fst (errlog_msg t x c1 s2) = -1" for t x
    using s2(2) by (simp add: errlog_msg_def Let_def)
  ultimately show ?thesis
    using errlog_stopped by auto
qed

theorem second_server_removes_queue_witness:
  "\<exists>s2. errlog_main 4712 demo_time (Some ''/tmp/log'') [] \<lparr>log_queue = Some [demo_msg], has_id = False, screen = [], log_file = None\<rparr> = Some s2 \<and>
     log_queue s2 = None"
  using second_server_removes_queue [of "\<lparr>log_queue = Some [demo_msg], has_id = False, screen = [], log_file = None\<rparr>" "[demo_msg]"
      "Some ''/tmp/log''" "''daq''" 1 "\<lparr>c_open = False, c_msg = demo_msg\<rparr>"
      "\<lparr>c_open = True, c_msg = demo_msg\<lparr>err_pid := 1, pnam := ''daq''\<rparr>\<rparr>" 4712 demo_time "[]"]
  by (auto simp: errlog_open_def PNAMLEN_def)

section \<open>Limits\<close>

text \<open>The name of the log file is printed into an array of 256 characters without a check.\<close>

theorem long_file_name_overflows:
  "235 \<le> length f \<Longrightarrow> errlog_main pr ct (Some f) es s = None"
  by (simp add: errlog_main_def err_msg_def)

end
