(* ===== verification/Scaler_Show.thy ===== *)
theory Scaler_Show
  imports GR_Tcp
begin

text \<open>
  The block classifier \<^verbatim>\<open>router/tools/assign_j11.c\<close> and the scaler display \<^verbatim>\<open>router/tools/router_scaler.c\<close>: which kind of
  block the tools of the router take a buffer for, how the counters of its scaler regions are added up, and when they are
  shown and cleared. A buffer is a memory of 16 bit words in the order of the host; \<open>little\<close> says whether the host is little
  endian.
\<close>

section \<open>Kinds of blocks\<close>

definition BLK_UNKNOWN :: "16 word" where "BLK_UNKNOWN = 0x1000"
definition BLK_START :: "16 word" where "BLK_START = 0x0010"
definition BLK_END :: "16 word" where "BLK_END = 0x0020"
definition BLK_MIDDLE :: "16 word" where "BLK_MIDDLE = 0x0040"
definition BLK_DATA :: "16 word" where "BLK_DATA = 0x0001"
definition BLK_SCALER :: "16 word" where "BLK_SCALER = 0x0002"
definition MiddleBlockID :: "16 word" where "MiddleBlockID = 0x0F03"
definition ComVar4_0 :: "32 word" where "ComVar4_0 = push_bit 8 4"
definition MaxComLen :: nat where "MaxComLen = 124"
definition S_BH_MIN :: int where "S_BH_MIN = 6"
definition S_BH_MAX :: int where "S_BH_MAX = 8"
definition S_EH :: int where "S_EH = 6"
definition S_FH :: int where "S_FH = 4"

text \<open>The words of the structure \<^verbatim>\<open>RunComment\<close>: its size and the places of \<^verbatim>\<open>run\<close> and \<^verbatim>\<open>comment\<close>.\<close>

definition S_RC :: int where "S_RC = 70"
definition RC_RUN :: int where "RC_RUN = 6"
definition RC_COMMENT :: int where "RC_COMMENT = 8"

definition word_bytes16 :: "bool \<Rightarrow> 16 word \<Rightarrow> byte list" where
  "word_bytes16 little w = (if little then host_bytes w else rev (host_bytes w))"

definition com_bytes :: "bool \<Rightarrow> memory \<Rightarrow> int \<Rightarrow> byte list" where
  "com_bytes little m p = concat (map (\<lambda>i. word_bytes16 little (m (p + int i))) [0 ..< MaxComLen div 2])"

definition copy_text :: "byte list \<Rightarrow> nat \<Rightarrow> byte list" where
  "copy_text bs n = (let us = take n (takeWhile (\<lambda>b. b \<noteq> 0) bs) in us @ replicate (n - length us) 0)"

text \<open>
  The test of the version: on a little endian host the two halves of the \<^verbatim>\<open>unsigned int\<close> are exchanged after the version has been
  stored into it.
\<close>

definition com_version :: "bool \<Rightarrow> 16 word \<Rightarrow> 32 word" where
  "com_version little v = (if little then push_bit 16 (ucast v) else ucast v)"

text \<open>The run number and the comment, which are only stored for the run start and run end blocks.\<close>

definition run_comment :: "bool \<Rightarrow> memory \<Rightarrow> int \<Rightarrow> 16 word \<Rightarrow> 16 word \<times> (int \<times> byte list) option" where
  "run_comment little m sz kind =
     (let com = uint (m 1)
      in if com + S_RC > c_div sz 2 then (BLK_UNKNOWN, None)
         else if com_version little (m com) \<noteq> ComVar4_0 then (BLK_UNKNOWN, None)
         else (kind, Some (uint (m (com + RC_RUN)), copy_text (com_bytes little m (com + RC_COMMENT)) MaxComLen)))"

definition assign_j11 :: "bool \<Rightarrow> memory \<Rightarrow> int \<Rightarrow> 16 word \<times> (int \<times> byte list) option" where
  "assign_j11 little m sz =
     (if (word_of_int sz :: 64 word) < 40 then (BLK_UNKNOWN, None)
      else if m 0 \<noteq> BlkHeaderID then (BLK_UNKNOWN, None)
      else if uint (m 1) < S_BH_MIN \<or> S_BH_MAX < uint (m 1) then (BLK_UNKNOWN, None)
      else if DataBlockID \<le> m 2 \<and> m 2 \<le> DataBlockID + 7 then (BLK_DATA, None)
      else if m 2 = ScalerBlockID then (BLK_SCALER, None)
      else if m 2 = StartBlockID then run_comment little m sz BLK_START
      else if m 2 = EndBlockID then run_comment little m sz BLK_END
      else if m 2 = MiddleBlockID then (BLK_MIDDLE, None)
      else (BLK_UNKNOWN, None))"

section \<open>Adding up the counters\<close>

definition MNOSCLRS :: nat where "MNOSCLRS = 4"
definition MAXCH :: nat where "MAXCH = 16"
definition ID_Scaler :: "16 word" where "ID_Scaler = 0x6000"

type_synonym table = "nat \<Rightarrow> nat \<Rightarrow> 32 word"

text \<open>
  The loop over the channels of a region, from channel \<open>i\<close> with \<open>n\<close> left. \<open>None\<close> is a store outside
  \<^verbatim>\<open>scaler[MNOSCLRS][MAXCH]\<close>. The second word of the last channel may be read from behind the field.
\<close>

definition scl_value :: "memory \<Rightarrow> int \<Rightarrow> 32 word" where
  "scl_value m p = ucast (m p) + push_bit 16 (ucast (m (p + 1)))"

fun scl_channels :: "memory \<Rightarrow> int \<Rightarrow> nat \<Rightarrow> nat \<Rightarrow> nat \<Rightarrow> int \<Rightarrow> table \<Rightarrow> (int \<times> table) option" where
  "scl_channels m p2 scl i 0 p t = Some (p, t)"
| "scl_channels m p2 scl i (Suc n) p t =
     (if p2 \<le> p then Some (p, t)
      else if MNOSCLRS \<le> scl then None
      else scl_channels m p2 scl (Suc i) n (p + 2) (t(scl := (t scl)(i := t scl i + scl_value m p))))"

text \<open>The loop over the regions of a field.\<close>

definition scl_region :: "memory \<Rightarrow> int \<Rightarrow> nat \<Rightarrow> int \<Rightarrow> table \<Rightarrow> (int \<times> nat \<times> table) option" where
  "scl_region m p2 scl p t =
     (let len = unat (m p AND DataLengthMask)
      in if m p AND ModuleIDMask \<noteq> ID_Scaler then Some (p + 1 + int len, scl, t)
         else map_option (\<lambda>(p', t'). (p', Suc scl, t')) (scl_channels m p2 scl 0 (min (len div 2) MAXCH) (p + 1) t))"

lemma scl_channels_mono: "scl_channels m p2 scl i n p t = Some (p', t') \<Longrightarrow> p \<le> p'"
  by (induction m p2 scl i n p t rule: scl_channels.induct) (auto split: if_splits)

lemma scl_region_mono: "scl_region m p2 scl p t = Some (p', scl', t') \<Longrightarrow> p < p'"
  by (auto simp: scl_region_def Let_def pos_add_strict zero_less_one uint_ge_0 add_pos_nonneg dest: scl_channels_mono split: if_splits)

function scl_regions :: "memory \<Rightarrow> int \<Rightarrow> nat \<Rightarrow> int \<Rightarrow> table \<Rightarrow> (int \<times> nat \<times> table) option" where
  "scl_regions m p2 scl p t =
     (if p < p2 then
        (case scl_region m p2 scl p t of
           None \<Rightarrow> None
         | Some (p', scl', t') \<Rightarrow> scl_regions m p2 scl' p' t')
      else Some (p, scl, t))"
  by pat_completeness auto
termination
  by (relation "measure (\<lambda>(m, p2, scl, p, t). nat (p2 - p))") (auto dest: scl_region_mono)

declare scl_regions.simps [simp del]

text \<open>One pass of the search for an event header: \<open>Inl\<close> is the \<^verbatim>\<open>break\<close>.\<close>

definition scl_pass :: "memory \<Rightarrow> int \<Rightarrow> nat \<Rightarrow> int \<Rightarrow> table \<Rightarrow> (unit + int \<times> nat \<times> table) option" where
  "scl_pass m e scl p t =
     (if m p \<noteq> EvtHeaderID then Some (Inr (p, scl, t))
      else if p + S_EH > e then Some (Inl ())
      else if uint (m (p + 1)) < S_EH \<or> S_EH < uint (m (p + 1)) then Some (Inr (p, scl, t))
      else if m (p + 2) \<noteq> BlockEndEvent then Some (Inr (p, scl, t))
      else
        let f = p + uint (m (p + 1))
        in if f + S_FH > e then Some (Inl ())
           else if m f \<noteq> FldHeaderID then Some (Inr (f, scl, t))
           else if uint (m (f + 1)) < S_FH \<or> S_FH < uint (m (f + 1)) then Some (Inr (f, scl, t))
           else
             let q = f + uint (m (f + 1)); p2 = q + uint (m (f + 3))
             in map_option Inr (scl_regions m (if p2 > e then e else p2) scl q t))"

lemma scl_regions_mono: "scl_regions m p2 scl p t = Some (p', scl', t') \<Longrightarrow> p \<le> p'"
proof (induction m p2 scl p t rule: scl_regions.induct)
  case (1 m p2 scl p t)
  show ?case
  proof (cases "p < p2")
    case True
    with "1.prems" obtain q s u where "scl_region m p2 scl p t = Some (q, s, u)" "scl_regions m p2 s q u = Some (p', scl', t')"
      by (auto simp: scl_regions.simps [of m p2 scl p t] split: option.splits)
    with "1.IH" [OF True] scl_region_mono show ?thesis
      by (metis order.strict_implies_order order_trans)
  next
    case False
    with "1.prems" show ?thesis
      by (simp add: scl_regions.simps [of m p2 scl p t])
  qed
qed

lemma scl_pass_mono: "scl_pass m e scl p t = Some (Inr (p', scl', t')) \<Longrightarrow> p \<le> p'"
  by (auto simp: scl_pass_def Let_def S_EH_def S_FH_def dest: scl_regions_mono split: if_splits)

function scl_search :: "memory \<Rightarrow> int \<Rightarrow> nat \<Rightarrow> int \<Rightarrow> table \<Rightarrow> table option" where
  "scl_search m e scl p t =
     (if p < e then
        (case scl_pass m e scl p t of
           None \<Rightarrow> None
         | Some (Inl u) \<Rightarrow> Some t
         | Some (Inr (p', scl', t')) \<Rightarrow> scl_search m e scl' (p' + 1) t')
      else Some t)"
  by pat_completeness auto
termination
  by (relation "measure (\<lambda>(m, e, scl, p, t). nat (e - p))") (auto dest: scl_pass_mono)

declare scl_search.simps [simp del]

definition get_scaler :: "memory \<Rightarrow> int \<Rightarrow> table \<Rightarrow> table option" where
  "get_scaler m sz t =
     (let p = uint (m 1); p2 = p + uint (m 3); e = c_div sz 2
      in scl_search m (if p2 < e then p2 else e) 0 p t)"

section \<open>The program\<close>

text \<open>
  The variables of \<^verbatim>\<open>router_scaler.c\<close>. \<open>sc_shows\<close> is what \<^verbatim>\<open>show_scalers\<close> has written: the descriptor, run number, block count
  and the table.
\<close>

record scl =
  sc_scaler :: table
  sc_interval :: int
  sc_run :: int
  sc_comment :: "byte list"
  sc_blk_cnt :: int
  sc_data_flag :: bool
  sc_clear_flag :: bool
  sc_fd_out :: int
  sc_out_count :: int
  sc_shows :: "(int \<times> int \<times> int \<times> table) list"

definition show_scalers :: "int \<Rightarrow> scl \<Rightarrow> scl" where
  "show_scalers fd s =
     (if fd \<le> 0 then s else s\<lparr>sc_shows := sc_shows s @ [(fd, sc_run s, sc_blk_cnt s, sc_scaler s)]\<rparr>)"

definition clear_table :: "table \<Rightarrow> table" where
  "clear_table t = (\<lambda>i j. if i < MNOSCLRS \<and> j < MAXCH then 0 else t i j)"

definition do_clear_scalers :: "scl \<Rightarrow> scl" where
  "do_clear_scalers s = s\<lparr>sc_scaler := clear_table (sc_scaler s)\<rparr>"

definition clear_scalers :: "scl \<Rightarrow> scl" where
  "clear_scalers s =
     (let s1 = (if sc_data_flag s then show_scalers (sc_fd_out s) (show_scalers 1 (s\<lparr>sc_data_flag := False\<rparr>)) else s)
      in do_clear_scalers s1)"

definition scl_start :: "int \<times> byte list \<Rightarrow> scl \<Rightarrow> scl" where
  "scl_start c s = clear_scalers (s\<lparr>sc_run := fst c, sc_comment := copy_text (snd c) MaxComLen, sc_blk_cnt := 0\<rparr>)"

definition scl_end :: "scl \<Rightarrow> scl" where
  "scl_end s = (show_scalers (sc_fd_out s) (show_scalers 1 s))\<lparr>sc_data_flag := False\<rparr>"

text \<open>The part for blocks with data; \<open>None\<close> is a store outside the table.\<close>

definition scl_data :: "memory \<Rightarrow> int \<Rightarrow> scl \<Rightarrow> scl option" where
  "scl_data m sz s =
     map_option (\<lambda>t.
       let s1 = s\<lparr>sc_scaler := t, sc_blk_cnt := sc_blk_cnt s + 1, sc_out_count := sc_out_count s + 1\<rparr>;
           s2 = (if sc_out_count s1 \<ge> sc_interval s1
                 then let s3 = show_scalers 1 (s1\<lparr>sc_out_count := 0\<rparr>) in if sc_clear_flag s3 then do_clear_scalers s3 else s3
                 else s1)
       in s2\<lparr>sc_data_flag := True\<rparr>)
       (get_scaler m sz (sc_scaler s))"

definition read_buf :: "bool \<Rightarrow> memory \<Rightarrow> int \<Rightarrow> scl \<Rightarrow> scl option" where
  "read_buf little m sz s =
     (case assign_j11 little m sz of (kind, com) \<Rightarrow>
        if kind AND BLK_UNKNOWN \<noteq> 0 then Some s
        else
          let s1 = (if kind AND BLK_START \<noteq> 0 then scl_start (the com) s else s);
              s2 = (if kind AND BLK_END \<noteq> 0 then scl_end s1 else s1)
          in if kind AND (BLK_DATA OR BLK_SCALER) \<noteq> 0 then scl_data m sz s2 else Some s2)"

text \<open>
  The main loop over the buffers of the router: a little endian host exchanges the bytes of every word with \<^verbatim>\<open>swab\<close> before it
  looks at them, a big endian host takes them as they are.
\<close>

fun words_of :: "bool \<Rightarrow> byte list \<Rightarrow> 16 word list" where
  "words_of little (a # b # bs) =
     (if little then ucast a OR push_bit 8 (ucast b) else ucast b OR push_bit 8 (ucast a)) # words_of little bs"
| "words_of little bs = []"

fun swab :: "byte list \<Rightarrow> byte list" where
  "swab (a # b # bs) = b # a # swab bs"
| "swab bs = []"

definition scl_view :: "bool \<Rightarrow> byte list \<Rightarrow> memory" where
  "scl_view little bs = memory_of (if little then words_of True (swab bs) else words_of False bs)"

fun scl_main :: "bool \<Rightarrow> byte list list \<Rightarrow> scl \<Rightarrow> scl option" where
  "scl_main little [] s = Some s"
| "scl_main little (b # bs) s = Option.bind (read_buf little (scl_view little b) (int (length b)) s) (scl_main little bs)"

section \<open>The counters of a scaler block\<close>

lemma uint_joined: "uint (ucast a + push_bit 16 (ucast b) :: 32 word) = uint a + 2 ^ 16 * uint b"
  for a b :: "16 word"
proof -
  have "uint a < 2 ^ 16" "uint b < 2 ^ 16"
    using uint_lt2p [of a] uint_lt2p [of b] by simp_all
  then have "(uint a + 2 ^ 16 * uint b) mod 2 ^ 32 = uint a + 2 ^ 16 * uint b"
    by (intro mod_pos_pos_trivial) auto
  moreover have "uint (ucast a + push_bit 16 (ucast b) :: 32 word) = (uint a + 2 ^ 16 * uint b) mod 2 ^ 32"
    by (simp add: uint_word_ariths push_bit_eq_mult unsigned_ucast_eq take_bit_eq_mod mod_simps mult.commute)
  ultimately show ?thesis
    by simp
qed

lemma scl_value_vts: "at m p (vts_words w) \<Longrightarrow> scl_value m p = w AND 0xffffff"
proof -
  assume "at m p (vts_words w)"
  then have e: "scl_value m p = ucast (ucast ((w AND 0xffffff) AND 0xffff) :: 16 word) + push_bit 16 (ucast (ucast (drop_bit 16 (w AND 0xffffff) AND 0xff) :: 16 word))"
    by (simp add: scl_value_def vts_words_def)
  have "uint (scl_value m p) = uint w mod 2 ^ 24"
  proof -
    let ?a = "ucast ((w AND 0xffffff) AND 0xffff) :: 16 word" and ?b = "ucast (drop_bit 16 (w AND 0xffffff) AND 0xff) :: 16 word"
    have v: "uint ?a + 2 ^ 16 * uint ?b = uint w mod 2 ^ 24"
      using vts_words_value [of w] by (simp add: vts_words_def)
    have "uint (scl_value m p) = uint ?a + 2 ^ 16 * uint ?b"
      unfolding e by (rule uint_joined)
    then show ?thesis
      by (simp only: v)
  qed
  moreover have "w AND 0xffffff = take_bit 24 w"
    by (simp add: take_bit_eq_mask mask_eq_exp_minus_1)
  then have "uint (w AND 0xffffff) = uint w mod 2 ^ 24"
    by (metis unsigned_take_bit_eq take_bit_eq_mod)
  ultimately show "scl_value m p = w AND 0xffffff"
    by (simp add: word_uint_eq_iff)
qed

definition add_gate :: "(nat \<Rightarrow> 32 word) \<Rightarrow> nat set \<Rightarrow> nat \<Rightarrow> table \<Rightarrow> table" where
  "add_gate g js scl t = t(scl := (\<lambda>j. if j \<in> js then t scl j + (g j AND 0xffffff) else t scl j))"

lemma scl_channels_vts:
  assumes "at m p (concat (map (\<lambda>j. vts_words (g j)) [i ..< i + n]))" and "p + 2 * int n \<le> p2" and "scl < MNOSCLRS"
  shows "scl_channels m p2 scl i n p t = Some (p + 2 * int n, add_gate g {i ..< i + n} scl t)"
  using assms(1,2)
proof (induction n arbitrary: i p t)
  case (Suc n)
  have u: "[i ..< i + Suc n] = i # [Suc i ..< Suc i + n]"
    by (simp add: upt_conv_Cons)
  have v: "scl_value m p = g i AND 0xffffff" and r: "at m (p + 2) (concat (map (\<lambda>j. vts_words (g j)) [Suc i ..< Suc i + n]))"
    using Suc.prems(1) unfolding u by (simp_all add: scl_value_vts)
  have "scl_channels m p2 scl (Suc i) n (p + 2) t' = Some (p + 2 + 2 * int n, add_gate g {Suc i ..< Suc i + n} scl t')" for t'
    using Suc.IH [OF r] Suc.prems(2) by simp
  then show ?case
    using Suc.prems(2) assms(3) by (auto simp: v add_gate_def fun_eq_iff)
qed (simp add: add_gate_def)

lemma scl_region_vts:
  assumes "at m p (vts_region g)" and "p + 33 \<le> p2" and "scl < MNOSCLRS"
  shows "scl_region m p2 scl p t = Some (p + 33, Suc scl, add_gate g {0 ..< 16} scl t)"
proof -
  have "m p = 0x6020" "at m (p + 1) (concat (map (\<lambda>j. vts_words (g j)) [0 ..< 0 + 16]))"
    using assms(1) by (simp_all add: vts_region_def del: upt_rec_numeral)
  with scl_channels_vts [OF this(2), of p2 scl t] assms(2,3) show ?thesis
    by (simp add: scl_region_def Let_def DataLengthMask_def ModuleIDMask_def ID_Scaler_def MAXCH_def)
qed

lemma scl_region_other:
  "m p AND ModuleIDMask \<noteq> ID_Scaler \<Longrightarrow> scl_region m p2 scl p t = Some (p + 1 + uint (m p AND DataLengthMask), scl, t)"
  by (simp add: scl_region_def Let_def)

fun add_gates :: "(nat \<Rightarrow> nat \<Rightarrow> 32 word) \<Rightarrow> nat \<Rightarrow> nat \<Rightarrow> table \<Rightarrow> table" where
  "add_gates gate scl 0 t = t"
| "add_gates gate scl (Suc n) t = add_gates gate (Suc scl) n (add_gate (gate scl) {0 ..< 16} scl t)"

lemma scl_regions_vts:
  assumes "at m p (concat (map (\<lambda>i. vts_region (gate i)) [scl ..< scl + n]))" and "p + 33 * int n \<le> p2" and "scl + n \<le> MNOSCLRS"
  shows "scl_regions m p2 scl p t = scl_regions m p2 (scl + n) (p + 33 * int n) (add_gates gate scl n t)"
  using assms
proof (induction n arbitrary: scl p t)
  case (Suc n)
  have u: "[scl ..< scl + Suc n] = scl # [Suc scl ..< Suc scl + n]"
    by (simp add: upt_conv_Cons)
  have r: "at m p (vts_region (gate scl))" "at m (p + 33) (concat (map (\<lambda>i. vts_region (gate i)) [Suc scl ..< Suc scl + n]))"
    using Suc.prems(1) unfolding u by simp_all
  have "scl_regions m p2 scl p t = scl_regions m p2 (Suc scl) (p + 33) (add_gate (gate scl) {0 ..< 16} scl t)"
    using scl_region_vts [OF r(1), of p2 scl t] Suc.prems(2,3) by (simp add: scl_regions.simps [of m p2 scl p t])
  also have "\<dots> = scl_regions m p2 (Suc scl + n) (p + 33 + 33 * int n) (add_gates gate (Suc scl) n (add_gate (gate scl) {0 ..< 16} scl t))"
    using Suc.IH [OF r(2)] Suc.prems(2,3) by simp
  finally show ?case
    by (simp add: add.assoc)
qed simp

definition plus_gates :: "(nat \<Rightarrow> nat \<Rightarrow> 32 word) \<Rightarrow> table \<Rightarrow> table" where
  "plus_gates gate t = (\<lambda>i j. if i < 4 \<and> j < 16 then t i j + (gate i j AND 0xffffff) else t i j)"

lemma add_gates_all: "add_gates gate 0 4 t = plus_gates gate t"
proof -
  have i: "(i :: nat) < 4 \<longleftrightarrow> i = 0 \<or> i = 1 \<or> i = 2 \<or> i = 3" for i
    by auto
  show ?thesis
    by (auto simp: numeral_eq_Suc add_gate_def plus_gates_def fun_eq_iff i)
qed

text \<open>The words of a scaler block that the display looks at.\<close>

lemma get_scaler_block:
  assumes "at m 0 ([0xffff, 6, 0x0e00, 0x94, cnt, 1, 0xffdf, 6, 1, 0x8c, 0x14b, 1, 0xffcf, 4, 0, 0x88, 0x2001, 0x8000] @
      concat (map (\<lambda>i. vts_region (gate i)) [0 ..< 4]) @ [0xf001, w, 0xffef, 2])"
    and "308 \<le> sz"
  shows "get_scaler m sz t = Some (plus_gates gate t)"
proof -
  have w: "m 1 = 6" "m 3 = 0x94" "m 6 = 0xffdf" "m 7 = 6" "m 8 = 1" "m 12 = 0xffcf" "m 13 = 4" "m 15 = 0x88" "m 16 = 0x2001"
    and r: "at m 18 (concat (map (\<lambda>i. vts_region (gate i)) [0 ..< 0 + 4]))"
    and v: "m 150 = 0xf001" "m 152 = 0xffef" "m 153 = 2"
    using assms(1) by (simp_all add: length_concat_regions del: upt_rec_numeral)
  have "154 \<le> c_div sz 2"
    using assms(2) by (simp add: c_div_nonneg)
  moreover have "scl_regions m 152 0 16 t = Some (152, 4, plus_gates gate t)"
  proof -
    have "scl_regions m 152 0 16 t = scl_regions m 152 0 18 t"
      by (simp add: scl_regions.simps [of m 152 0 16 t] scl_region_other w ModuleIDMask_def ID_Scaler_def DataLengthMask_def)
    also have "\<dots> = scl_regions m 152 (0 + 4) (18 + 33 * int 4) (add_gates gate 0 4 t)"
      by (rule scl_regions_vts [OF r]) (simp_all add: MNOSCLRS_def)
    also have "\<dots> = Some (152, 4, plus_gates gate t)"
      by (simp add: scl_regions.simps [of m 152 4 150] scl_regions.simps [of m 152 4 152] scl_region_other v ModuleIDMask_def ID_Scaler_def DataLengthMask_def
          add_gates_all del: add_gates.simps)
    finally show ?thesis .
  qed
  then have "scl_pass m 154 0 6 t = Some (Inr (152, 4, plus_gates gate t))"
    by (simp add: scl_pass_def w EvtHeaderID_def S_EH_def S_FH_def BlockEndEvent_def FldHeaderID_def)
  moreover have "scl_search m 154 4 153 t' = Some t'" for t'
    by (simp add: scl_search.simps [of m 154 4 153] scl_search.simps [of m 154 4 154] scl_pass_def v EvtHeaderID_def)
  ultimately show ?thesis
    by (simp add: get_scaler_def Let_def w scl_search.simps [of m 154 0 6])
qed

section \<open>Sequences of scaler blocks\<close>

text \<open>The words of a scaler block as the collector sends it, seen in the order in which it was written.\<close>

definition scaler_words :: "(nat \<Rightarrow> nat \<Rightarrow> 32 word) \<Rightarrow> 16 word \<Rightarrow> 16 word list" where
  "scaler_words gate cnt = take 154 (encode_scl_blk (snd (vts801_read gate (replicate BLK_BUF_SIZE 0))) cnt)"

lemma scaler_words_eq:
  "\<exists>w. scaler_words gate cnt =
     [0xffff, 6, 0x0e00, 0x94, cnt, 1, 0xffdf, 6, 1, 0x8c, 0x14b, 1, 0xffcf, 4, 0, 0x88, 0x2001, 0x8000] @
     concat (map (\<lambda>i. vts_region (gate i)) [0 ..< 4]) @ [0xf001, w, 0xffef, 2]"
proof -
  let ?rs = "concat (map (\<lambda>i. vts_region (gate i)) [0 ..< 4])" and ?z = "drop 132 (replicate BLK_BUF_SIZE (0 :: 16 word))"
  have l: "length ?rs = 132" and b: "BLK_BUF_SIZE \<ge> 271"
    by (simp_all add: length_concat_regions BLK_BUF_SIZE_def)
  have "snd (vts801_read gate (replicate BLK_BUF_SIZE 0)) = ?rs @ ?z" and n: "154 \<le> length (?rs @ ?z)"
    using b l by (simp_all add: vts801_read_eq)
  with encode_scl_blk_eq [OF n, of cnt] l
  have "encode_scl_blk (snd (vts801_read gate (replicate BLK_BUF_SIZE 0))) cnt =
      (scaler_header[4 := cnt] @ ?rs @ [0xf001, word_sum ?rs, 0xffef, 2]) @ drop 154 (?rs @ ?z)"
    by simp
  moreover have "length (scaler_header[4 := cnt] @ ?rs @ [0xf001, word_sum ?rs, 0xffef, 2]) = 154"
    using l by (simp add: scaler_header_def)
  ultimately have "scaler_words gate cnt = scaler_header[4 := cnt] @ ?rs @ [0xf001, word_sum ?rs, 0xffef, 2]"
    unfolding scaler_words_def by (simp only: take_append) simp
  then show ?thesis
    by (intro exI [of _ "word_sum ?rs"]) (simp add: scaler_header_def)
qed

lemma length_scaler_words [simp]: "length (scaler_words gate cnt) = 154"
  using scaler_words_eq [of gate cnt] by (auto simp: length_concat_regions)

text \<open>The effect of a scaler block on the program.\<close>

lemma read_buf_scaler:
  assumes "at m 0 (scaler_words gate cnt)" and "308 \<le> sz" and "sz < 2 ^ 31"
  shows "read_buf little m sz s = Some
    (let t = plus_gates gate (sc_scaler s); out = (sc_out_count s + 1 \<ge> sc_interval s)
     in s\<lparr>sc_scaler := (if out \<and> sc_clear_flag s then clear_table t else t), sc_blk_cnt := sc_blk_cnt s + 1,
          sc_data_flag := True, sc_out_count := (if out then 0 else sc_out_count s + 1),
          sc_shows := sc_shows s @ (if out then [(1, sc_run s, sc_blk_cnt s + 1, t)] else [])\<rparr>)"
proof -
  obtain w where e: "at m 0 ([0xffff, 6, 0x0e00, 0x94, cnt, 1, 0xffdf, 6, 1, 0x8c, 0x14b, 1, 0xffcf, 4, 0, 0x88, 0x2001, 0x8000] @
      concat (map (\<lambda>i. vts_region (gate i)) [0 ..< 4]) @ [0xf001, w, 0xffef, 2])"
    using assms(1) scaler_words_eq [of gate cnt] by auto
  then have h: "m 0 = 0xffff" "m 1 = 6" "m 2 = 0x0e00"
    by simp_all
  have "\<not> (word_of_int sz :: 64 word) < 40"
  proof -
    have "sz mod 2 ^ 64 = sz"
      using assms(2,3) by (intro mod_pos_pos_trivial) auto
    then show ?thesis
      using assms(2) by (simp add: word_less_def uint_word_of_int_eq take_bit_eq_mod)
  qed
  then have "assign_j11 little m sz = (BLK_SCALER, None)"
    by (simp add: assign_j11_def h BlkHeaderID_def S_BH_MIN_def S_BH_MAX_def DataBlockID_def ScalerBlockID_def)
  then show ?thesis
    using get_scaler_block [OF e assms(2), of "sc_scaler s"]
    by (simp add: read_buf_def Let_def BLK_UNKNOWN_def BLK_START_def BLK_END_def BLK_DATA_def BLK_SCALER_def
        scl_data_def show_scalers_def do_clear_scalers_def)
qed

text \<open>What has been counted: the tables shown since the \<open>k\<close>-th output, which were cleared, and the table that is still there.\<close>

definition counted :: "nat \<Rightarrow> scl \<Rightarrow> nat \<Rightarrow> nat \<Rightarrow> 32 word" where
  "counted k s i j =
     (if sc_clear_flag s then sum_list (map (\<lambda>(fd, r, b, t). t i j) (drop k (sc_shows s))) else 0) + sc_scaler s i j"

section \<open>The order of the bytes\<close>

lemma ucast_halves: "ucast (ucast w :: byte) OR push_bit 8 (ucast (ucast (drop_bit 8 w) :: byte)) = w" for w :: "16 word"
  by (rule bit_word_eqI) (auto simp: bit_simps)

definition be_bytes :: "16 word list \<Rightarrow> byte list" where
  "be_bytes ws = concat (map (word_bytes16 False) ws)"

lemma length_be_bytes [simp]: "length (be_bytes ws) = 2 * length ws"
  by (induction ws) (simp_all add: be_bytes_def word_bytes16_def host_bytes_def)

lemma words_of_be_bytes: "words_of False (be_bytes ws) = ws" "words_of True (swab (be_bytes ws)) = ws"
  by (induction ws) (simp_all add: be_bytes_def word_bytes16_def host_bytes_def ucast_halves)

lemma scl_view_be [simp]: "scl_view little (be_bytes ws) = memory_of ws"
  by (simp add: scl_view_def words_of_be_bytes)

definition swap16 :: "16 word \<Rightarrow> 16 word" where
  "swap16 w = ucast (ucast (drop_bit 8 w) :: byte) OR push_bit 8 (ucast (ucast w :: byte))"

lemma words_of_host_bytes:
  "words_of False (concat (map host_bytes ws)) = map swap16 ws"
  "words_of True (swab (concat (map host_bytes ws))) = map swap16 ws"
  by (induction ws) (simp_all add: host_bytes_def swap16_def)

section \<open>Blocks in general\<close>

text \<open>
  A block as its writer composes it: a header of six to eight words, anything before the block end event (the
  data events), the block end event with its first field, which consists of regions, and anything behind it (other
  fields and events, the trailer). The buffer may go on behind the block. A region is a header word, which says what module
  it is for and how long it is, and its words.
\<close>

type_synonym sregion = "16 word \<times> 16 word list"

record sblk =
  sb_kind :: "16 word"
  sb_head :: "16 word list"
  sb_pre :: "16 word list"
  sb_evt :: "16 word list"
  sb_fld :: "16 word"
  sb_rgns :: "sregion list"
  sb_post :: "16 word list"
  sb_junk :: "16 word list"

definition rgn_words :: "sregion list \<Rightarrow> 16 word list" where
  "rgn_words rs = concat (map (\<lambda>(h, d). h # d) rs)"

definition end_event :: "sblk \<Rightarrow> 16 word list" where
  "end_event b = [EvtHeaderID, 6, BlockEndEvent] @ sb_evt b"

definition end_field :: "sblk \<Rightarrow> 16 word list" where
  "end_field b = [FldHeaderID, 4, sb_fld b, word_of_nat (length (rgn_words (sb_rgns b)))]"

definition sb_body :: "sblk \<Rightarrow> 16 word list" where
  "sb_body b = sb_pre b @ end_event b @ end_field b @ rgn_words (sb_rgns b) @ sb_post b"

definition sb_words :: "sblk \<Rightarrow> 16 word list" where
  "sb_words b =
     [BlkHeaderID, word_of_nat (4 + length (sb_head b)), sb_kind b, word_of_nat (length (sb_body b))] @
     sb_head b @ sb_body b @ sb_junk b"

definition is_scaler :: "sregion \<Rightarrow> bool" where
  "is_scaler r \<longleftrightarrow> fst r AND ModuleIDMask = ID_Scaler"

text \<open>No header of a block end event among these words.\<close>

fun no_end_event :: "16 word list \<Rightarrow> bool" where
  "no_end_event (x # y # z # ws) \<longleftrightarrow> \<not> (x = EvtHeaderID \<and> y = 6 \<and> z = BlockEndEvent) \<and> no_end_event (y # z # ws)"
| "no_end_event _ \<longleftrightarrow> True"

definition sregion_ok :: "sregion \<Rightarrow> bool" where
  "sregion_ok r \<longleftrightarrow>
     unat (fst r AND DataLengthMask) = length (snd r) \<and> (is_scaler r \<longrightarrow> even (length (snd r)) \<and> length (snd r) \<le> 32)"

definition sblk_ok :: "sblk \<Rightarrow> bool" where
  "sblk_ok b \<longleftrightarrow>
     (DataBlockID \<le> sb_kind b \<and> sb_kind b \<le> DataBlockID + 7 \<or> sb_kind b = ScalerBlockID) \<and>
     length (sb_head b) \<in> {2, 3, 4} \<and> length (sb_evt b) = 3 \<and> no_end_event (sb_pre b) \<and> no_end_event (sb_post b) \<and>
     (\<forall>r \<in> set (sb_rgns b). sregion_ok r) \<and> length (filter is_scaler (sb_rgns b)) \<le> 4 \<and>
     length (sb_body b) < 2 ^ 16 \<and> 20 \<le> length (sb_words b) \<and> length (sb_words b) < 2 ^ 30"

text \<open>The counter of a channel: two words, the low one first; and the counters of the scaler regions of a block in their order.\<close>

definition channel :: "16 word list \<Rightarrow> nat \<Rightarrow> 32 word" where
  "channel d j = (if 2 * j + 1 < length d then word_of_int (uint (d ! (2 * j)) + 2 ^ 16 * uint (d ! (2 * j + 1))) else 0)"

definition scaler_count :: "sregion list \<Rightarrow> nat \<Rightarrow> nat \<Rightarrow> 32 word" where
  "scaler_count rs i j =
     (let ss = filter is_scaler rs in if i < length ss then channel (snd (ss ! i)) j else 0)"

lemma scl_value_at: "at m p (x # y # ws) \<Longrightarrow> scl_value m p = word_of_int (uint x + 2 ^ 16 * uint y)"
proof -
  assume "at m p (x # y # ws)"
  then have e: "scl_value m p = ucast x + push_bit 16 (ucast y)" by (simp add: scl_value_def)
  have "scl_value m p = word_of_int (uint (scl_value m p))" by simp
  then show ?thesis unfolding e uint_joined .
qed

lemma channel_Cons: "channel (x # y # d) 0 = word_of_int (uint x + 2 ^ 16 * uint y)" "channel (x # y # d) (Suc j) = channel d j"
  by (simp_all add: channel_def)

lemma channel_beyond: "length d \<le> 2 * j + 1 \<Longrightarrow> channel d j = 0"
  by (simp add: channel_def)

lemma scl_channels_at:
  assumes "at m p d" and "length d = 2 * n" and "p + 2 * int n \<le> p2" and "scl < MNOSCLRS"
  shows "scl_channels m p2 scl i n p t =
    Some (p + 2 * int n, t(scl := (\<lambda>j. if i \<le> j then t scl j + channel d (j - i) else t scl j)))"
  using assms(1-3)
proof (induction n arbitrary: i p t d)
  case 0
  then have "channel d j = 0" for j by (intro channel_beyond) simp
  then show ?case by (simp add: fun_eq_iff)
next
  case (Suc n)
  from Suc.prems(2) obtain x y ds where d: "d = x # y # ds" by (cases d; cases "tl d") auto
  define v where "v = scl_value m p"
  have v: "channel d 0 = v" "\<And>j. channel d (Suc j) = channel ds j"
    using scl_value_at [of m p x y ds] Suc.prems(1) by (simp_all only: d channel_Cons v_def)
  have ds: "at m (p + 2) ds" "length ds = 2 * n" using Suc.prems(1,2) by (simp_all add: d add.commute)
  define r where "r = (t scl)(i := t scl i + v)"
  have row: "(\<lambda>j. if Suc i \<le> j then r j + channel ds (j - Suc i) else r j) =
      (\<lambda>j. if i \<le> j then t scl j + channel d (j - i) else t scl j)"
  proof (rule ext)
    fix j
    consider "i < j" | "j = i" | "j < i" by linarith
    then show "(if Suc i \<le> j then r j + channel ds (j - Suc i) else r j) = (if i \<le> j then t scl j + channel d (j - i) else t scl j)"
    proof cases
      case 1
      then have "j - i = Suc (j - Suc i)" by simp
      with 1 show ?thesis by (simp only: v) (simp add: r_def)
    qed (simp_all add: r_def v)
  qed
  have "scl_channels m p2 scl (Suc i) n (p + 2) (t(scl := r)) =
      Some (p + 2 + 2 * int n, t(scl := (\<lambda>j. if Suc i \<le> j then r j + channel ds (j - Suc i) else r j)))"
  proof -
    have "p + 2 + 2 * int n \<le> p2" using Suc.prems(3) by simp
    from Suc.IH [OF ds this, of "Suc i" "t(scl := r)"] show ?thesis by (simp only: fun_upd_same fun_upd_upd)
  qed
  then show ?case
    using Suc.prems(3) assms(4) unfolding row by (simp add: r_def v_def fun_upd_def)
qed

lemma rgn_words_simps [simp]: "rgn_words [] = []" "rgn_words ((h, d) # rs) = h # d @ rgn_words rs"
  by (simp_all add: rgn_words_def)

lemma scaler_count_Cons:
  "\<not> is_scaler r \<Longrightarrow> scaler_count (r # rs) i j = scaler_count rs i j"
  "is_scaler r \<Longrightarrow> scaler_count (r # rs) 0 j = channel (snd r) j"
  "is_scaler r \<Longrightarrow> scaler_count (r # rs) (Suc k) j = scaler_count rs k j"
  by (simp_all add: scaler_count_def Let_def)

text \<open>A field of regions, from the scaler \<open>scl\<close> on.\<close>

lemma scl_regions_at:
  assumes "at m p (rgn_words rs)" and "p + int (length (rgn_words rs)) = p2" and "scl + length (filter is_scaler rs) \<le> MNOSCLRS"
    and "\<forall>r \<in> set rs. sregion_ok r"
  shows "scl_regions m p2 scl p t =
    Some (p2, scl + length (filter is_scaler rs), \<lambda>i j. t i j + (if scl \<le> i then scaler_count rs (i - scl) j else 0))"
  using assms
proof (induction rs arbitrary: p scl t)
  case Nil
  then show ?case by (subst scl_regions.simps) (simp add: scaler_count_def fun_eq_iff)
next
  case (Cons r rs)
  obtain h d where r: "r = (h, d)" by (cases r)
  have m: "m p = h" "at m (p + 1) d" "at m (p + 1 + int (length d)) (rgn_words rs)"
    and p2: "p + 1 + int (length d) + int (length (rgn_words rs)) = p2" and lt: "p < p2"
    and ok: "unat (h AND DataLengthMask) = length d" "is_scaler r \<Longrightarrow> even (length d) \<and> length d \<le> 32" "\<forall>r \<in> set rs. sregion_ok r"
    using Cons.prems by (auto simp: r sregion_ok_def add.assoc)
  show ?case
  proof (cases "is_scaler r")
    case False
    then have "scl_region m p2 scl p t = Some (p + 1 + int (length d), scl, t)"
      using ok(1) m(1) by (simp add: scl_region_def is_scaler_def r Let_def)
    with Cons.IH [OF m(3) p2 _ ok(3), of scl t] Cons.prems(3) lt False show ?thesis
      by (simp add: scl_regions.simps [of m p2 scl p t] scaler_count_Cons fun_eq_iff)
  next
    case True
    with ok(2) obtain n where n: "length d = 2 * n" "n \<le> 16" by (auto elim: evenE)
    have scl: "scl < MNOSCLRS" "Suc scl + length (filter is_scaler rs) \<le> MNOSCLRS" using Cons.prems(3) True by simp_all
    have "scl_channels m p2 scl 0 n (p + 1) t = Some (p + 1 + 2 * int n, t(scl := (\<lambda>j. t scl j + channel d j)))"
      using scl_channels_at [OF m(2) n(1) _ scl(1), of p2 0 t] p2 n(1) by simp
    then have "scl_region m p2 scl p t = Some (p + 1 + int (length d), Suc scl, t(scl := (\<lambda>j. t scl j + channel d j)))"
      using ok(1) m(1) n True by (simp add: scl_region_def is_scaler_def r Let_def MAXCH_def)
    moreover have "(let u = t(scl := (\<lambda>j. t scl j + channel d j))
        in (\<lambda>i j. u i j + (if Suc scl \<le> i then scaler_count rs (i - Suc scl) j else 0))) =
        (\<lambda>i j. t i j + (if scl \<le> i then scaler_count (r # rs) (i - scl) j else 0))"
    proof -
      have "(t(scl := (\<lambda>j. t scl j + channel d j))) i j + (if Suc scl \<le> i then scaler_count rs (i - Suc scl) j else 0) =
          t i j + (if scl \<le> i then scaler_count (r # rs) (i - scl) j else 0)" for i j
      proof (cases "scl < i")
        case True
        then have "i - scl = Suc (i - Suc scl)" by simp
        with True show ?thesis by (simp only: scaler_count_Cons(3) [OF \<open>is_scaler r\<close>]) simp
      next
        case False
        then show ?thesis by (cases "i = scl") (simp_all add: scaler_count_Cons(2) [OF \<open>is_scaler r\<close>], simp add: r)
      qed
      then show ?thesis unfolding Let_def by (intro ext)
    qed
    ultimately show ?thesis
      using Cons.IH [OF m(3) p2 scl(2) ok(3)] lt True
      by (simp add: scl_regions.simps [of m p2 scl p t] Let_def)
  qed
qed

text \<open>The search goes over everything that is not a block end event.\<close>

lemma at_word: "at m p ws \<Longrightarrow> k < length ws \<Longrightarrow> m (p + int k) = ws ! k"
proof (induction ws arbitrary: p k)
  case (Cons w ws)
  show ?case
  proof (cases k)
    case (Suc j)
    with Cons.IH [of "p + 1" j] Cons.prems have "m (p + 1 + int j) = ws ! j" by simp
    with Suc show ?thesis by (simp add: add.assoc)
  qed (use Cons.prems in simp)
qed simp

lemma no_end_eventD:
  "no_end_event ws \<Longrightarrow> k + 2 < length ws \<Longrightarrow> \<not> (ws ! k = EvtHeaderID \<and> ws ! (k + 1) = 6 \<and> ws ! (k + 2) = BlockEndEvent)"
proof (induction ws arbitrary: k rule: no_end_event.induct)
  case (1 x y z ws)
  then show ?case by (cases k) auto
qed auto

lemma scl_pass_skip:
  assumes "\<not> (m p = EvtHeaderID \<and> m (p + 1) = 6 \<and> m (p + 2) = BlockEndEvent)"
  shows "scl_pass m e scl p t = Some (Inr (p, scl, t)) \<or> p + 6 > e \<and> scl_pass m e scl p t = Some (Inl ())"
proof -
  have "uint (m (p + 1)) = 6 \<longleftrightarrow> m (p + 1) = 6" by (simp add: word_uint_eq_iff)
  with assms show ?thesis by (auto simp: scl_pass_def S_EH_def)
qed

lemma scl_search_over:
  assumes "\<And>q. p \<le> q \<Longrightarrow> q < p + int n \<Longrightarrow> \<not> (m q = EvtHeaderID \<and> m (q + 1) = 6 \<and> m (q + 2) = BlockEndEvent)"
    and "p + int n + 6 \<le> e"
  shows "scl_search m e scl p t = scl_search m e scl (p + int n) t"
  using assms
proof (induction n arbitrary: p)
  case (Suc n)
  have "scl_pass m e scl p t = Some (Inr (p, scl, t))"
    using scl_pass_skip [of m p e scl t] Suc.prems by auto
  then have "scl_search m e scl p t = scl_search m e scl (p + 1) t"
    using Suc.prems(2) by (simp add: scl_search.simps [of m e scl p t])
  also have "\<dots> = scl_search m e scl (p + 1 + int n) t"
    by (rule Suc.IH) (use Suc.prems in auto)
  finally show ?case by (simp add: add.assoc)
qed simp

lemma scl_search_rest:
  assumes "\<And>q. p \<le> q \<Longrightarrow> q + 6 \<le> e \<Longrightarrow> \<not> (m q = EvtHeaderID \<and> m (q + 1) = 6 \<and> m (q + 2) = BlockEndEvent)"
  shows "scl_search m e scl p t = Some t"
  using assms
proof (induction "nat (e - p)" arbitrary: p rule: less_induct)
  case less
  show ?case
  proof (cases "p < e")
    case True
    have rest: "scl_search m e scl (p + 1) t = Some t" by (rule less.hyps) (use True less.prems in auto)
    consider "scl_pass m e scl p t = Some (Inr (p, scl, t))" | "scl_pass m e scl p t = Some (Inl ())"
    proof (cases "p + 6 \<le> e")
      case False
      then have "m p \<noteq> EvtHeaderID \<longrightarrow> scl_pass m e scl p t = Some (Inr (p, scl, t))"
        "m p = EvtHeaderID \<longrightarrow> scl_pass m e scl p t = Some (Inl ())"
        by (simp_all add: scl_pass_def S_EH_def)
      with that show ?thesis by blast
    next
      case True
      from scl_pass_skip [OF less.prems [OF order_refl True], of e scl t] that show ?thesis by blast
    qed
    then show ?thesis
      by cases (use True rest in \<open>simp_all add: scl_search.simps [of m e scl p t]\<close>)
  qed (simp add: scl_search.simps [of m e scl p t])
qed

lemma pre_no_event:
  assumes "at m p (us @ [EvtHeaderID, 6, BlockEndEvent])" and "no_end_event us" and "p \<le> q" and "q < p + int (length us)"
  shows "\<not> (m q = EvtHeaderID \<and> m (q + 1) = 6 \<and> m (q + 2) = BlockEndEvent)"
proof -
  define k where "k = nat (q - p)"
  have k: "k < length us" "q = p + int k" "q + 1 = p + int (k + 1)" "q + 2 = p + int (k + 2)" using assms(3,4) by (auto simp: k_def)
  let ?w = "us @ [EvtHeaderID, 6, BlockEndEvent]"
  have w: "m q = ?w ! k" "m (q + 1) = ?w ! (k + 1)" "m (q + 2) = ?w ! (k + 2)"
    using at_word [OF assms(1), of k, folded k(2)] at_word [OF assms(1), of "k + 1", folded k(3)]
      at_word [OF assms(1), of "k + 2", folded k(4)] k(1)
    by simp_all
  consider "k + 2 < length us" | "k + 2 = length us" | "k + 1 = length us" using k(1) by linarith
  then show ?thesis
  proof cases
    case 1
    with no_end_eventD [OF assms(2) 1] w show ?thesis by (simp add: nth_append)
  next
    case 2
    then have "m (q + 2) = EvtHeaderID" using w(3) by (simp add: nth_append)
    then show ?thesis by (simp add: EvtHeaderID_def BlockEndEvent_def)
  next
    case 3
    then have "m (q + 1) = EvtHeaderID" using w(2) by (simp add: nth_append)
    then show ?thesis by (simp add: EvtHeaderID_def)
  qed
qed

lemma post_no_event:
  assumes "at m p us" and "no_end_event us" and "p \<le> q" and "q + 6 \<le> p + int (length us)"
  shows "\<not> (m q = EvtHeaderID \<and> m (q + 1) = 6 \<and> m (q + 2) = BlockEndEvent)"
proof -
  define k where "k = nat (q - p)"
  have k: "k + 2 < length us" "q = p + int k" "q + 1 = p + int (k + 1)" "q + 2 = p + int (k + 2)" using assms(3,4) by (auto simp: k_def)
  have "m q = us ! k" "m (q + 1) = us ! (k + 1)" "m (q + 2) = us ! (k + 2)"
    using at_word [OF assms(1), of k, folded k(2)] at_word [OF assms(1), of "k + 1", folded k(3)]
      at_word [OF assms(1), of "k + 2", folded k(4)] k(1)
    by simp_all
  with no_end_eventD [OF assms(2) k(1)] show ?thesis by simp
qed

text \<open>What a block adds to the table.\<close>

definition plus_block :: "sblk \<Rightarrow> table \<Rightarrow> table" where
  "plus_block b t = (\<lambda>i j. t i j + scaler_count (sb_rgns b) i j)"

lemma get_scaler_at:
  assumes ok: "sblk_ok b" and at: "at m 0 (sb_words b)" and sz: "sz = 2 * int (length (sb_words b))"
  shows "get_scaler m sz t = Some (plus_block b t)"
proof -
  define hs where "hs = 4 + int (length (sb_head b))"
  define e where "e = hs + int (length (sb_body b))"
  define pe where "pe = hs + int (length (sb_pre b))"
  define q where "q = pe + 10"
  define p2 where "p2 = q + int (length (rgn_words (sb_rgns b)))"
  have w16: "uint (word_of_nat n :: 16 word) = int n" if "n < 2 ^ 16" for n
    using that by (simp add: unsigned_of_nat take_bit_nat_eq_self)
  have ev: "length (sb_evt b) = 3" and hd: "length (sb_head b) \<le> 4" and bl: "length (sb_body b) < 2 ^ 16"
    and ne: "no_end_event (sb_pre b)" "no_end_event (sb_post b)"
    and rg: "\<forall>r \<in> set (sb_rgns b). sregion_ok r" "length (filter is_scaler (sb_rgns b)) \<le> 4"
    using ok by (auto simp: sblk_ok_def)
  have len: "length (sb_body b) = length (sb_pre b) + 10 + length (rgn_words (sb_rgns b)) + length (sb_post b)"
    using ev by (simp add: sb_body_def end_event_def end_field_def)
  have m1: "uint (m 1) = hs" and m3: "uint (m 3) = int (length (sb_body b))"
    and body: "at m hs (sb_body b)"
    using at hd bl w16 [of "4 + length (sb_head b)"] w16 [of "length (sb_body b)"] by (simp_all add: sb_words_def hs_def)
  have pre: "at m hs (sb_pre b @ [EvtHeaderID, 6, BlockEndEvent])"
    and rgns: "at m q (rgn_words (sb_rgns b))" and post: "at m p2 (sb_post b)"
    and evt: "m pe = EvtHeaderID" "m (pe + 1) = 6" "m (pe + 2) = BlockEndEvent"
    and fld: "m (pe + 6) = FldHeaderID" "m (pe + 7) = 4" "m (pe + 9) = word_of_nat (length (rgn_words (sb_rgns b)))"
    using body ev by (simp_all add: sb_body_def end_event_def end_field_def pe_def q_def p2_def add.assoc)
  have fs: "uint (m (pe + 9)) = int (length (rgn_words (sb_rgns b)))"
    unfolding fld(3) by (rule w16) (use bl len in simp)
  have le: "q \<le> e" "p2 \<le> e" "pe + 10 \<le> e" "e = p2 + int (length (sb_post b))"
    using len by (simp_all add: e_def p2_def q_def pe_def)
  have regions: "scl_regions m p2 0 q t = Some (p2, length (filter is_scaler (sb_rgns b)), plus_block b t)"
    using scl_regions_at [OF rgns _ _ rg(1), of p2 0 t] rg(2) by (simp add: p2_def MNOSCLRS_def plus_block_def)
  have pass: "scl_pass m e 0 pe t = Some (Inr (p2, length (filter is_scaler (sb_rgns b)), plus_block b t))"
    using le regions by (simp add: scl_pass_def evt fld(1,2) fs S_EH_def S_FH_def p2_def q_def add.assoc)
  have "scl_search m e 0 hs t = scl_search m e 0 pe t"
    unfolding pe_def by (rule scl_search_over) (use pre_no_event [OF pre ne(1)] le(3) in \<open>auto simp: pe_def\<close>)
  also have "\<dots> = scl_search m e (length (filter is_scaler (sb_rgns b))) (p2 + 1) (plus_block b t)"
    using pass le(3) by (simp add: scl_search.simps [of m e 0 pe t])
  also have "\<dots> = Some (plus_block b t)"
    by (rule scl_search_rest, rule post_no_event [OF post ne(2)]) (use le(4) in auto)
  finally have srch: "scl_search m e 0 hs t = Some (plus_block b t)" .
  have "c_div sz 2 = int (length (sb_words b))" by (simp add: sz c_div_nonneg)
  moreover have "e \<le> int (length (sb_words b))" by (simp add: sb_words_def e_def hs_def)
  ultimately show ?thesis
    using srch by (auto simp: get_scaler_def Let_def m1 m3 e_def)
qed

lemma read_buf_at:
  assumes ok: "sblk_ok b" and at: "at m 0 (sb_words b)" and sz: "sz = 2 * int (length (sb_words b))"
  shows "read_buf little m sz s = Some
    (let t = plus_block b (sc_scaler s); out = (sc_out_count s + 1 \<ge> sc_interval s)
     in s\<lparr>sc_scaler := (if out \<and> sc_clear_flag s then clear_table t else t), sc_blk_cnt := sc_blk_cnt s + 1,
          sc_data_flag := True, sc_out_count := (if out then 0 else sc_out_count s + 1),
          sc_shows := sc_shows s @ (if out then [(1, sc_run s, sc_blk_cnt s + 1, t)] else [])\<rparr>)"
proof -
  have kd: "DataBlockID \<le> sb_kind b \<and> sb_kind b \<le> DataBlockID + 7 \<or> sb_kind b = ScalerBlockID"
    using ok by (simp add: sblk_ok_def)
  have l: "length (sb_head b) \<in> {2, 3, 4}" "20 \<le> length (sb_words b)" "length (sb_words b) < 2 ^ 30"
    using ok by (simp_all add: sblk_ok_def)
  have m: "m 0 = BlkHeaderID" "m 1 = word_of_nat (4 + length (sb_head b))" "m 2 = sb_kind b"
    using at by (simp_all add: sb_words_def)
  have u: "uint (m 1) = int (4 + length (sb_head b))"
    unfolding m(2) using l(1) by auto
  have nb: "\<not> (word_of_int sz :: 64 word) < 40"
  proof -
    have s: "40 \<le> sz" "sz < 2 ^ 31" using l(2,3) unfolding sz by simp_all
    then have "sz mod 2 ^ 64 = sz" by (intro mod_pos_pos_trivial) auto
    then show ?thesis using s(1) by (simp add: word_less_def uint_word_of_int_eq take_bit_eq_mod)
  qed
  have nh: "\<not> (uint (m 1) < S_BH_MIN \<or> S_BH_MAX < uint (m 1))"
    using l(1) by (auto simp: u S_BH_MIN_def S_BH_MAX_def)
  have "assign_j11 little m sz = (if DataBlockID \<le> sb_kind b \<and> sb_kind b \<le> DataBlockID + 7 then BLK_DATA else BLK_SCALER, None)"
  proof (cases "DataBlockID \<le> sb_kind b \<and> sb_kind b \<le> DataBlockID + 7")
    case True
    then show ?thesis by (simp only: assign_j11_def nb nh m(1,3) if_True if_False simp_thms)
  next
    case False
    with kd have "sb_kind b = ScalerBlockID" by blast
    moreover have "(DataBlockID \<le> sb_kind b \<and> sb_kind b \<le> DataBlockID + 7) = False" using False by blast
    ultimately show ?thesis by (simp only: assign_j11_def nb nh m(1,3) if_True if_False simp_thms)
  qed
  then show ?thesis
    using get_scaler_at [OF ok at sz, of "sc_scaler s"]
    by (simp add: read_buf_def Let_def BLK_UNKNOWN_def BLK_START_def BLK_END_def BLK_DATA_def BLK_SCALER_def
        scl_data_def show_scalers_def do_clear_scalers_def)
qed

lemma read_buf_counted:
  assumes "k \<le> length (sc_shows s)" and ok: "sblk_ok b"
  obtains s' where "read_buf little (memory_of (sb_words b)) (2 * int (length (sb_words b))) s = Some s'"
    and "sc_blk_cnt s' = sc_blk_cnt s + 1" and "sc_clear_flag s' = sc_clear_flag s" and "sc_interval s' = sc_interval s"
    and "0 < sc_interval s \<Longrightarrow> 0 \<le> sc_out_count s \<Longrightarrow> sc_out_count s < sc_interval s \<Longrightarrow> 0 \<le> sc_out_count s' \<and> sc_out_count s' < sc_interval s"
    and "length (sc_shows s) \<le> length (sc_shows s')"
    and "0 \<le> sc_out_count s \<Longrightarrow> sc_out_count s < sc_interval s \<Longrightarrow>
       int (length (sc_shows s')) * sc_interval s + sc_out_count s' = int (length (sc_shows s)) * sc_interval s + sc_out_count s + 1"
    and "\<forall>i < 4. \<forall>j < 16. counted k s' i j = counted k s i j + scaler_count (sb_rgns b) i j"
proof -
  let ?s = "let t = plus_block b (sc_scaler s); out = (sc_out_count s + 1 \<ge> sc_interval s)
     in s\<lparr>sc_scaler := (if out \<and> sc_clear_flag s then clear_table t else t), sc_blk_cnt := sc_blk_cnt s + 1,
          sc_data_flag := True, sc_out_count := (if out then 0 else sc_out_count s + 1),
          sc_shows := sc_shows s @ (if out then [(1, sc_run s, sc_blk_cnt s + 1, t)] else [])\<rparr>"
  have "read_buf little (memory_of (sb_words b)) (2 * int (length (sb_words b))) s = Some ?s"
    by (rule read_buf_at [OF ok memory_of_at refl])
  then show thesis
    by (rule that) (use assms(1) in \<open>auto simp: Let_def counted_def plus_block_def clear_table_def MNOSCLRS_def MAXCH_def algebra_simps\<close>)
qed

section \<open>Properties\<close>

text \<open>C33: The display loses no count. Whatever the interval and the mode, and for any sequence of well formed blocks, with any
  events in front of and behind the block end event, any other regions among the scaler regions, headers of six to eight
  words and words behind the block, when the buffers hold the words high byte first as the program expects them: the tables
  that were shown and cleared together with the table that is kept hold for each channel the sum of the 32 bit counters of
  all blocks (modulo the width of \<^verbatim>\<open>int\<close>), channel by channel and the regions of a block in their order; every block is
  counted, and an output is made for exactly every \<^verbatim>\<open>out_interval\<close> blocks. Well formed means at most four scaler regions of
  at most 16 channels, length fields that are true, and no second block end event.\<close>

theorem scaler_display_loses_no_count:
  assumes "0 \<le> sc_out_count s" and "sc_out_count s < sc_interval s" and "k = length (sc_shows s)" and "\<forall>b \<in> set bs. sblk_ok b"
  shows "\<exists>s'. scl_main little (map (\<lambda>b. be_bytes (sb_words b)) bs) s = Some s' \<and>
    sc_blk_cnt s' = sc_blk_cnt s + int (length bs) \<and>
    int (length (sc_shows s') - k) = (sc_out_count s + int (length bs)) div sc_interval s \<and>
    (\<forall>i < 4. \<forall>j < 16. counted k s' i j = sc_scaler s i j + sum_list (map (\<lambda>b. scaler_count (sb_rgns b) i j) bs))"
proof -
  have "\<exists>s'. scl_main little (map (\<lambda>b. be_bytes (sb_words b)) bs) s0 = Some s' \<and>
    sc_blk_cnt s' = sc_blk_cnt s0 + int (length bs) \<and> length (sc_shows s0) \<le> length (sc_shows s') \<and>
    0 \<le> sc_out_count s' \<and> sc_out_count s' < sc_interval s0 \<and>
    int (length (sc_shows s')) * sc_interval s0 + sc_out_count s' = int (length (sc_shows s0)) * sc_interval s0 + sc_out_count s0 + int (length bs) \<and>
    (\<forall>i < 4. \<forall>j < 16. counted k s' i j = counted k s0 i j + sum_list (map (\<lambda>b. scaler_count (sb_rgns b) i j) bs))"
    if "0 \<le> sc_out_count s0" "sc_out_count s0 < sc_interval s0" "k \<le> length (sc_shows s0)" for s0
    using that assms(4)
  proof (induction bs arbitrary: s0)
    case (Cons b bs)
    obtain s1 where s1: "read_buf little (memory_of (sb_words b)) (2 * int (length (sb_words b))) s0 = Some s1"
      "sc_blk_cnt s1 = sc_blk_cnt s0 + 1" "sc_interval s1 = sc_interval s0" "0 \<le> sc_out_count s1 \<and> sc_out_count s1 < sc_interval s0"
      "length (sc_shows s0) \<le> length (sc_shows s1)"
      "int (length (sc_shows s1)) * sc_interval s0 + sc_out_count s1 = int (length (sc_shows s0)) * sc_interval s0 + sc_out_count s0 + 1"
      "\<forall>i < 4. \<forall>j < 16. counted k s1 i j = counted k s0 i j + scaler_count (sb_rgns b) i j"
      using Cons.prems by (elim read_buf_counted [of k s0 b little]) auto
    obtain s2 where "scl_main little (map (\<lambda>b. be_bytes (sb_words b)) bs) s1 = Some s2" and
      s2: "sc_blk_cnt s2 = sc_blk_cnt s1 + int (length bs)" "length (sc_shows s1) \<le> length (sc_shows s2)"
      "0 \<le> sc_out_count s2" "sc_out_count s2 < sc_interval s1"
      "int (length (sc_shows s2)) * sc_interval s1 + sc_out_count s2 = int (length (sc_shows s1)) * sc_interval s1 + sc_out_count s1 + int (length bs)"
      "\<forall>i < 4. \<forall>j < 16. counted k s2 i j = counted k s1 i j + sum_list (map (\<lambda>b. scaler_count (sb_rgns b) i j) bs)"
      using Cons.IH [of s1] Cons.prems(3,4) s1(3-5) by auto
    then have "scl_main little (map (\<lambda>b. be_bytes (sb_words b)) (b # bs)) s0 = Some s2"
      using s1(1) by simp
    with s1(2-) s2 show ?case
      by (intro exI [of _ s2]) (simp add: add.assoc)
  qed (auto simp: counted_def)
  from this [of s] assms(1-3) obtain s' where r: "scl_main little (map (\<lambda>b. be_bytes (sb_words b)) bs) s = Some s'"
    "sc_blk_cnt s' = sc_blk_cnt s + int (length bs)" "k \<le> length (sc_shows s')" "0 \<le> sc_out_count s'" "sc_out_count s' < sc_interval s"
    and l: "int (length (sc_shows s')) * sc_interval s + sc_out_count s' = int k * sc_interval s + sc_out_count s + int (length bs)"
    and t: "\<forall>i < 4. \<forall>j < 16. counted k s' i j = counted k s i j + sum_list (map (\<lambda>b. scaler_count (sb_rgns b) i j) bs)"
    by auto
  have "sc_out_count s + int (length bs) = int (length (sc_shows s') - k) * sc_interval s + sc_out_count s'"
    using l r(3) by (simp add: of_nat_diff algebra_simps)
  then have "(sc_out_count s + int (length bs)) div sc_interval s = int (length (sc_shows s') - k)"
    using r(4,5) by simp
  moreover have "counted k s i j = sc_scaler s i j" for i j
    using assms(3) by (simp add: counted_def)
  ultimately show ?thesis
    using r(1,2) t by (intro exI [of _ s']) simp
qed

definition demo_scl :: scl where
  "demo_scl = \<lparr>sc_scaler = (\<lambda>i j. 0), sc_interval = 2, sc_run = 0, sc_comment = [], sc_blk_cnt = 0, sc_data_flag = False,
     sc_clear_flag = True, sc_fd_out = 0, sc_out_count = 0, sc_shows = []\<rparr>"

text \<open>A data block with a data event in front, a time region between two scaler regions, a trailer and padding.\<close>

definition demo_sblk :: "16 word \<Rightarrow> 16 word \<Rightarrow> sblk" where
  "demo_sblk lo hi = \<lparr>sb_kind = DataBlockID, sb_head = [1, 2, 0], sb_pre = [0xffdf, 6, 0, 0, 1, 0], sb_evt = [0, 2, 0], sb_fld = 0,
     sb_rgns = [(0x6002, [lo, hi]), (0x2001, [0x8000]), (0x6004, [3, 0, 4, 0])], sb_post = [0xffef, 2], sb_junk = [0, 0]\<rparr>"

lemma demo_sblk_ok: "sblk_ok (demo_sblk lo hi)"
  by (simp add: sblk_ok_def demo_sblk_def sb_words_def sb_body_def end_event_def end_field_def sregion_ok_def is_scaler_def
      DataLengthMask_def ModuleIDMask_def ID_Scaler_def DataBlockID_def ScalerBlockID_def EvtHeaderID_def BlockEndEvent_def)

theorem scaler_display_loses_no_count_witness:
  "\<exists>s'. scl_main True (map (\<lambda>b. be_bytes (sb_words b)) [demo_sblk 5 1, demo_sblk 7 0, demo_sblk 0 2]) demo_scl = Some s' \<and>
     sc_blk_cnt s' = 3 \<and> length (sc_shows s') = 1 \<and> counted 0 s' 0 0 = 3 * 65536 + 12 \<and> counted 0 s' 1 1 = 12"
proof -
  let ?bs = "[demo_sblk 5 1, demo_sblk 7 0, demo_sblk 0 2]"
  have d: "0 \<le> sc_out_count demo_scl" "sc_out_count demo_scl < sc_interval demo_scl" "0 = length (sc_shows demo_scl)"
    "\<forall>b \<in> set ?bs. sblk_ok b"
    by (simp_all add: demo_scl_def demo_sblk_ok)
  have "scaler_count (sb_rgns (demo_sblk lo hi)) 0 0 = word_of_int (uint lo + 65536 * uint hi)"
    "scaler_count (sb_rgns (demo_sblk lo hi)) 1 1 = 4" for lo hi
    by (simp_all add: demo_sblk_def scaler_count_def is_scaler_def channel_def ModuleIDMask_def ID_Scaler_def)
  with scaler_display_loses_no_count [OF d, of True] show ?thesis
    by (auto simp: demo_scl_def)
qed

text \<open>The program only understands blocks written by a big endian front end, on either kind of host: the blocks of the collector,
  a little endian machine that sends its words as they are, are ignored, and nothing is counted or shown.\<close>

theorem collector_blocks_are_not_shown:
  assumes "\<forall>ws\<in>set wss. take 2 ws = [0xffff, 6]"
  shows "scl_main little (map (\<lambda>ws. concat (map host_bytes ws)) wss) s = Some s"
  using assms
proof (induction wss)
  case (Cons ws wss)
  then obtain rs where ws: "ws = 0xffff # 6 # rs"
    by (cases ws; cases "tl ws") auto
  have "scl_view little (concat (map host_bytes ws)) = memory_of (map swap16 ws)"
    by (simp add: scl_view_def words_of_host_bytes)
  then have "scl_view little (concat (map host_bytes ws)) 1 = swap16 6"
    by (simp add: memory_of_def ws)
  moreover have "uint (swap16 6) = 1536"
    by code_simp
  ultimately have "assign_j11 little (scl_view little (concat (map host_bytes ws))) n = (BLK_UNKNOWN, None)" for n
    by (simp add: assign_j11_def S_BH_MAX_def)
  then have "read_buf little (scl_view little (concat (map host_bytes ws))) n s = Some s" for n
    by (simp add: read_buf_def BLK_UNKNOWN_def)
  then show ?case
    using Cons by simp
qed simp

theorem collector_blocks_are_not_shown_witness:
  "scl_main True (map (\<lambda>ws. concat (map host_bytes ws)) [scaler_words (\<lambda>i j. 5) 1, scaler_words (\<lambda>i j. 6) 2]) demo_scl = Some demo_scl"
proof (rule collector_blocks_are_not_shown)
  have "take 2 (scaler_words g c) = [0xffff, 6]" for g c
    using scaler_words_eq [of g c] by auto
  then show "\<forall>ws\<in>set [scaler_words (\<lambda>i j. 5) 1, scaler_words (\<lambda>i j. 6) 2]. take 2 ws = [0xffff, 6]"
    by simp
qed

text \<open>The start and the end of a run are never recognised: on a little endian host because the exchange of the halves shifts
  the version away, and on a big endian host for the blocks of the collector because their version is one word behind the
  place of \<^verbatim>\<open>version\<close> in \<^verbatim>\<open>RunComment\<close>.\<close>

lemma com_version_little: "com_version True v \<noteq> ComVar4_0"
proof
  assume "com_version True v = ComVar4_0"
  then have "bit (com_version True v) 10 = bit ComVar4_0 10"
    by simp
  then show False
    by (simp add: com_version_def ComVar4_0_def bit_simps)
qed

lemma kinds_distinct: "BLK_UNKNOWN \<noteq> BLK_START" "BLK_UNKNOWN \<noteq> BLK_END" "BLK_DATA \<noteq> BLK_START" "BLK_DATA \<noteq> BLK_END"
  "BLK_SCALER \<noteq> BLK_START" "BLK_SCALER \<noteq> BLK_END" "BLK_MIDDLE \<noteq> BLK_START" "BLK_MIDDLE \<noteq> BLK_END"
  by (simp_all add: BLK_UNKNOWN_def BLK_START_def BLK_END_def BLK_DATA_def BLK_SCALER_def BLK_MIDDLE_def)

theorem run_boundaries_are_never_seen:
  assumes "little \<or> at m 0 (run_block bid tm n mb)"
  shows "fst (assign_j11 little m sz) \<noteq> BLK_START \<and> fst (assign_j11 little m sz) \<noteq> BLK_END"
proof -
  have "fst (run_comment little m sz kind) = BLK_UNKNOWN" for kind
  proof (cases little)
    case True
    then show ?thesis
      by (simp add: run_comment_def Let_def com_version_little)
  next
    case False
    with assms have "m 1 = 6" "m 6 = 0"
      by (simp_all add: run_block_def run_header_def Let_def)
    with False show ?thesis
      by (simp add: run_comment_def com_version_def ComVar4_0_def)
  qed
  then show ?thesis
    by (simp add: assign_j11_def kinds_distinct)
qed

theorem run_boundaries_are_never_seen_witness:
  "\<exists>m. m = memory_of (run_block BLK_HEADER_START 70000 300 \<lparr>cm_type = 1, command = CHR 0x01, cm_run = 5, comment = ''test'' @ [CHR 0x00]\<rparr>) \<and>
     m 2 = StartBlockID \<and> fst (assign_j11 False m 600) \<noteq> BLK_START"
proof -
  let ?mb = "\<lparr>cm_type = 1, command = CHR 0x01, cm_run = 5, comment = ''test'' @ [CHR 0x00]\<rparr> :: cmd_msgbuf"
  have "at (memory_of (run_block BLK_HEADER_START 70000 300 ?mb)) 0 (run_block BLK_HEADER_START 70000 300 ?mb)"
    by (rule memory_of_at)
  moreover have "memory_of (run_block BLK_HEADER_START 70000 300 ?mb) 2 = StartBlockID"
    by (simp add: memory_of_def run_block_def run_header_def Let_def StartBlockID_def BLK_HEADER_START_def)
  ultimately show ?thesis
    using run_boundaries_are_never_seen [of False _ BLK_HEADER_START 70000 300 ?mb 600] by blast
qed

text \<open>A block with more than four scaler regions makes the program write behind its table.\<close>

theorem fifth_scaler_overruns_table:
  "get_scaler (memory_of ([0xffff, 6, 0x0e00, 26, 0, 1, 0xffdf, 6, 1, 20, 0, 1, 0xffcf, 4, 0, 16] @
     concat (replicate 5 [0x6002, 1, 0]) @ [0, 0xffef, 2])) 68 t = None"
proof -
  let ?m = "memory_of ([0xffff, 6, 0x0e00, 26, 0, 1, 0xffdf, 6, 1, 20, 0, 1, 0xffcf, 4, 0, 16] @ concat (replicate 5 [0x6002, 1, 0]) @ [0, 0xffef, 2])"
  have m: "?m 1 = 6" "?m 3 = 26" "?m 6 = 0xffdf" "?m 7 = 6" "?m 8 = 1" "?m 12 = 0xffcf" "?m 13 = 4" "?m 15 = 16"
    "?m 16 = 0x6002" "?m 19 = 0x6002" "?m 22 = 0x6002" "?m 25 = 0x6002" "?m 28 = 0x6002"
    by (simp_all add: memory_of_def numeral_eq_Suc)
  obtain M where M: "M = ?m"
    by simp
  have one: "scl_region M 32 k p u = Some (p + 3, Suc k, u(k := (u k)(0 := u k 0 + scl_value M (p + 1))))"
    if "M p = 0x6002" "k < 4" "p < 30" for k p u
    using that by (simp add: scl_region_def Let_def DataLengthMask_def ModuleIDMask_def ID_Scaler_def MAXCH_def MNOSCLRS_def)
  have five: "scl_region M 32 4 28 u = None" for u
    using m(13) by (simp add: M scl_region_def Let_def DataLengthMask_def ModuleIDMask_def ID_Scaler_def MAXCH_def MNOSCLRS_def)
  have "scl_regions M 32 0 16 u = None" for u
    using m(9-) one [of 16] one [of 19] one [of 22] one [of 25] five unfolding M [symmetric]
    by (simp add: scl_regions.simps [of M 32 0 16] scl_regions.simps [of M 32 "Suc 0" 19] scl_regions.simps [of M 32 "Suc (Suc 0)" 22]
        scl_regions.simps [of M 32 "Suc (Suc (Suc 0))" 25] scl_regions.simps [of M 32 "Suc (Suc (Suc (Suc 0)))" 28] numeral_eq_Suc)
  then have "scl_pass M 32 0 6 t = None"
    using m unfolding M [symmetric]
    by (simp add: scl_pass_def EvtHeaderID_def S_EH_def S_FH_def BlockEndEvent_def FldHeaderID_def)
  then show ?thesis
    using m unfolding M [symmetric]
    by (simp add: get_scaler_def Let_def c_div_nonneg scl_search.simps [of M 32 0 6])
qed

end
