(* ===== verification/Router_Files.thy ===== *)
theory Router_Files
  imports Scaler_Show Block_Transfer Config
begin

text \<open>
  The programs that keep the blocks of a router in files and put them back: \<^verbatim>\<open>router/tools/router_save.c\<close>, \<^verbatim>\<open>router_fread.c\<close> and
  \<^verbatim>\<open>router_write.c\<close>. The calls of the router library and of the operating system appear by their results, as in
  \<^verbatim>\<open>Block_Transfer\<close>; a file is its name and its bytes.
\<close>

section \<open>Options of router-save\<close>

record save_opts =
  o_vflag :: bool
  o_sflag :: bool
  o_cflag :: bool
  o_bsize :: int

definition SAVE_BUFSIZE :: int where "SAVE_BUFSIZE = 16384"
definition MAXSIZE :: int where "MAXSIZE = 2013265920"

datatype halt = Ended int | Crashed

definition save_defaults :: save_opts where
  "save_defaults = \<lparr>o_vflag = False, o_sflag = False, o_cflag = False, o_bsize = SAVE_BUFSIZE\<rparr>"

text \<open>One option; \<open>-b\<close> takes the next argument, which may be missing (\<^verbatim>\<open>atoi(NULL)\<close>).\<close>

definition save_option :: "char \<Rightarrow> string list \<Rightarrow> save_opts \<Rightarrow> halt + save_opts \<times> string list" where
  "save_option c as opts =
     (if c = CHR ''h'' \<or> c = CHR ''H'' then Inl (Ended 0)
      else if c = CHR ''v'' then Inr (opts\<lparr>o_vflag := True\<rparr>, as)
      else if c = CHR ''b'' then
        (case as of [] \<Rightarrow> Inl Crashed | n # as' \<Rightarrow> Inr (opts\<lparr>o_bsize := c_int (atoi n * 1024)\<rparr>, as'))
      else if c = CHR ''s'' then Inr (opts\<lparr>o_sflag := True\<rparr>, as)
      else if c = CHR ''c'' then Inr (opts\<lparr>o_cflag := True\<rparr>, as)
      else Inl (Ended 1))"

lemma save_option_shorter: "save_option c as opts = Inr (opts', as') \<Longrightarrow> length as' \<le> length as"
  by (auto simp: save_option_def split: if_splits list.splits)

function save_args :: "string list \<Rightarrow> save_opts \<Rightarrow> halt + save_opts \<times> string list" where
  "save_args [] opts = Inr (opts, [])"
| "save_args (a # as) opts =
     (if a = [] \<or> hd a \<noteq> CHR ''-'' then Inr (opts, a # as)
      else if length a = 2 then
        (case save_option (a ! 1) as opts of
           Inl e \<Rightarrow> Inl e
         | Inr (opts', as') \<Rightarrow> save_args as' opts')
      else Inl (Ended 1))"
  by pat_completeness auto
termination
  by (relation "measure (\<lambda>(as, opts). length as)") (auto dest: save_option_shorter)

text \<open>The options, the name of the router, cut to four characters, and the name of the file.\<close>

definition save_command :: "string list \<Rightarrow> halt + save_opts \<times> string \<times> string option" where
  "save_command as =
     (case save_args as save_defaults of
        Inl e \<Rightarrow> Inl e
      | Inr (opts, rest) \<Rightarrow>
          if length rest < 1 \<or> 2 < length rest then Inl (Ended 1)
          else Inr (opts, take 4 (rest ! 0), if length rest \<ge> 2 then Some (rest ! 1) else None))"

section \<open>The state of router-save\<close>

text \<open>
  \<open>v_name\<close> is the name of the file given, \<open>None\<close> for the standard output; \<open>v_files\<close> the files written, the open one last; \<open>v_ends\<close>
  what is reported at run end blocks.
\<close>

record save =
  v_opts :: save_opts
  v_name :: "string option"
  v_files :: "(string \<times> byte list) list"
  v_count :: int
  v_nfile :: int
  v_blk_cnt :: int
  v_run_size :: int
  v_ends :: "(int \<times> int) list"

text \<open>
  Connection and first file. The standard output is the file with the empty name. \<^verbatim>\<open>cleanup\<close> calls \<^verbatim>\<open>fclose\<close> with the \<^verbatim>\<open>NULL\<close>
  that \<^verbatim>\<open>fd_write\<close> is when there is no connection or no file.
\<close>

definition save_start :: "save_opts \<Rightarrow> string option \<Rightarrow> bool \<Rightarrow> bool \<Rightarrow> halt + save" where
  "save_start opts name connected opened =
     (if \<not> connected then Inl Crashed
      else if name \<noteq> None \<and> \<not> opened then Inl Crashed
      else Inr \<lparr>v_opts = opts, v_name = name, v_files = [(case name of None \<Rightarrow> [] | Some n \<Rightarrow> n, [])], v_count = 0, v_nfile = 1,
                v_blk_cnt = 0, v_run_size = 0, v_ends = []\<rparr>)"

definition append_file :: "byte list \<Rightarrow> (string \<times> byte list) list \<Rightarrow> (string \<times> byte list) list" where
  "append_file bs fs = butlast fs @ [(fst (last fs), snd (last fs) @ bs)]"

text \<open>The block is only looked at, by \<^verbatim>\<open>assign_j11\<close>, for what is reported.\<close>

definition save_check :: "bool \<Rightarrow> byte list \<Rightarrow> int \<Rightarrow> save \<Rightarrow> save" where
  "save_check little b rsize s =
     (let kind = fst (assign_j11 little (memory_of (words_of little b)) (int (length b)));
          s1 = (if kind AND BLK_START \<noteq> 0 then s\<lparr>v_blk_cnt := 0, v_run_size := 0\<rparr> else s);
          s2 = s1\<lparr>v_blk_cnt := v_blk_cnt s1 + 1, v_run_size := v_run_size s1 + rsize\<rparr>
      in if kind AND BLK_END \<noteq> 0 then s2\<lparr>v_ends := v_ends s2 @ [(v_run_size s2, v_blk_cnt s2)]\<rparr> else s2)"

text \<open>
  What the world answers in a pass: the buffer of the router (\<open>None\<close> is an error), how many bytes of the two calls of \<^verbatim>\<open>fwrite\<close> reach
  the file, whether the buffer can be given back and whether a new file can be made. The test \<^verbatim>\<open>fwrite(...)<0\<close> is never true.
\<close>

record save_io =
  i_buf :: "byte list option"
  i_took1 :: nat
  i_took2 :: nat
  i_release :: bool
  i_open :: bool

definition pad3 :: "string \<Rightarrow> string" where
  "pad3 s = replicate (3 - length s) (CHR ''0'') @ s"

definition next_name :: "string \<Rightarrow> int \<Rightarrow> string" where
  "next_name n k = n @ pad3 (show_nat (nat k))"

text \<open>Writing of a block with variable length, and with a fixed length: cut to the block size, or filled with zeros.\<close>

definition save_variable :: "bool \<Rightarrow> byte list \<Rightarrow> save_io \<Rightarrow> save \<Rightarrow> save" where
  "save_variable little b w s =
     save_check little b (int (length b))
       (s\<lparr>v_files := append_file (take (i_took1 w) b) (v_files s), v_count := v_count s + int (length b)\<rparr>)"

definition save_fixed :: "bool \<Rightarrow> byte list \<Rightarrow> save_io \<Rightarrow> save \<Rightarrow> halt + save" where
  "save_fixed little b w s =
     (let bsize = o_bsize (v_opts s)
      in if bsize < 0 then Inl Crashed
         else
           let b' = take (nat bsize) b;
               f1 = append_file (take (i_took1 w) b') (v_files s);
               f2 = (if length b' < nat bsize then append_file (take (i_took2 w) (replicate (nat bsize - length b') 0)) f1 else f1)
           in Inr (save_check little b' bsize (s\<lparr>v_files := f2, v_count := v_count s + bsize\<rparr>)))"

text \<open>The change of the file. When the new one cannot be made \<^verbatim>\<open>cleanup\<close> closes the \<^verbatim>\<open>NULL\<close> it got.\<close>

definition save_next_file :: "save_io \<Rightarrow> save \<Rightarrow> halt + save" where
  "save_next_file w s =
     (case v_name s of
        None \<Rightarrow> Inr s
      | Some n \<Rightarrow>
          if o_cflag (v_opts s) \<and> v_count s \<ge> MAXSIZE then
            (if i_open w
             then Inr (s\<lparr>v_nfile := v_nfile s + 1, v_files := v_files s @ [(next_name n (v_nfile s + 1), [])], v_count := 0\<rparr>)
             else Inl Crashed)
          else Inr s)"

text \<open>One pass of the loop. A \<^verbatim>\<open>break\<close> leads to the end of \<^verbatim>\<open>main\<close>, whose result is not set (taken as 0).\<close>

definition save_pass :: "bool \<Rightarrow> save_io \<Rightarrow> save \<Rightarrow> halt \<times> save + save" where
  "save_pass little w s =
     (case i_buf w of
        None \<Rightarrow> Inl (Ended 0, s)
      | Some b \<Rightarrow>
          (case (if o_vflag (v_opts s) then Inr (save_variable little b w s) else save_fixed little b w s) of
             Inl e \<Rightarrow> Inl (e, s)
           | Inr s1 \<Rightarrow>
               if \<not> i_release w then Inl (Ended 0, s1)
               else (case save_next_file w s1 of Inl e \<Rightarrow> Inl (e, s1) | Inr s2 \<Rightarrow> Inr s2)))"

fun save_loop :: "bool \<Rightarrow> save_io list \<Rightarrow> save \<Rightarrow> halt \<times> save + save" where
  "save_loop little [] s = Inr s"
| "save_loop little (w # ws) s =
     (case save_pass little w s of Inl r \<Rightarrow> Inl r | Inr s' \<Rightarrow> save_loop little ws s')"

section \<open>The program router-fread\<close>

text \<open>The blocks are written with \<^verbatim>\<open>write\<close>, whose negative result is seen; \<open>None\<close> stands for it.\<close>

definition FREAD_BUFSIZE :: nat where "FREAD_BUFSIZE = 65536"

record fread_io =
  fi_buf :: "byte list option"
  fi_took1 :: "nat option"
  fi_took2 :: "nat option"
  fi_release :: bool

definition fread_pass :: "fread_io \<Rightarrow> byte list \<Rightarrow> byte list + byte list" where
  "fread_pass w out =
     (case fi_buf w of
        None \<Rightarrow> Inl out
      | Some b0 \<Rightarrow>
          let b = take FREAD_BUFSIZE b0 in
          (case fi_took1 w of
             None \<Rightarrow> Inl out
           | Some k \<Rightarrow>
               let out1 = out @ take k b in
               (case (if length b < FREAD_BUFSIZE then fi_took2 w else Some 0) of
                  None \<Rightarrow> Inl out1
                | Some k2 \<Rightarrow>
                    let out2 = out1 @ take k2 (replicate (FREAD_BUFSIZE - length b) 0)
                    in if fi_release w then Inr out2 else Inl out2)))"

fun fread_loop :: "fread_io list \<Rightarrow> byte list \<Rightarrow> byte list + byte list" where
  "fread_loop [] out = Inr out"
| "fread_loop (w # ws) out = (case fread_pass w out of Inl r \<Rightarrow> Inl r | Inr out' \<Rightarrow> fread_loop ws out')"

section \<open>The program router-write\<close>

text \<open>
  The inner loop reads until the buffer is full. An error leaves it with what has been read (\<open>True\<close>); a result of 0, the end of the
  file, is not noticed. \<open>None\<close>: the answers are used up and the loop has not ended.
\<close>

fun write_fill :: "nat \<Rightarrow> rd list \<Rightarrow> (byte list \<times> rd list) option" where
  "write_fill 0 rs = Some ([], rs)"
| "write_fill (Suc k) [] = None"
| "write_fill (Suc k) (Eintr # rs) = Some ([], rs)"
| "write_fill (Suc k) (Fail # rs) = Some ([], rs)"
| "write_fill (Suc k) (Data [] # rs) = write_fill (Suc k) rs"
| "write_fill (Suc k) (Data (b # bs) # rs) =
     (let ds = take (Suc k) (b # bs); rest = drop (Suc k) (b # bs)
      in map_option (\<lambda>(xs, rs'). (ds @ xs, rs')) (write_fill (Suc k - length ds) (if rest = [] then rs else Data rest # rs)))"

text \<open>\<open>w_grants\<close>: the results of request, get and release for every buffer; \<open>w_out\<close>: the buffers given to the router.\<close>

record rw =
  w_input :: "rd list"
  w_grants :: "(bool \<times> bool \<times> bool) list"
  w_out :: "byte list list"
  w_count :: int

text \<open>One pass; \<open>Inl\<close> is the \<^verbatim>\<open>break\<close>. A block size that is not positive gives an empty buffer.\<close>

definition write_pass :: "int \<Rightarrow> rw \<Rightarrow> (rw + rw) option" where
  "write_pass bufsize s =
     (case w_grants s of
        [] \<Rightarrow> None
      | (req, got, rel) # gs \<Rightarrow>
          let s1 = s\<lparr>w_grants := gs\<rparr> in
          if \<not> req \<or> \<not> got then Some (Inl s1)
          else
            (case write_fill (nat bufsize) (w_input s1) of
               None \<Rightarrow> None
             | Some (b, rs) \<Rightarrow>
                 let s2 = s1\<lparr>w_input := rs\<rparr> in
                 if \<not> rel then Some (Inl s2)
                 else
                   let s3 = s2\<lparr>w_out := w_out s2 @ [b]\<rparr>
                   in if int (length b) < bufsize then Some (Inl s3) else Some (Inr (s3\<lparr>w_count := w_count s3 + int (length b)\<rparr>))))"

fun write_loop :: "nat \<Rightarrow> int \<Rightarrow> rw \<Rightarrow> (rw + rw) option" where
  "write_loop 0 bufsize s = Some (Inr s)"
| "write_loop (Suc k) bufsize s =
     (case write_pass bufsize s of
        None \<Rightarrow> None
      | Some (Inl s') \<Rightarrow> Some (Inl s')
      | Some (Inr s') \<Rightarrow> write_loop k bufsize s')"

section \<open>What is stored\<close>

definition stored :: "save_opts \<Rightarrow> byte list \<Rightarrow> byte list" where
  "stored opts b =
     (if o_vflag opts then b
      else take (nat (o_bsize opts)) b @ replicate (nat (o_bsize opts) - length b) 0)"

text \<open>A pass in which the router has the block \<open>b\<close> and everything can be written.\<close>

definition full_io :: "save_opts \<Rightarrow> save_io \<Rightarrow> byte list \<Rightarrow> bool" where
  "full_io opts w b \<longleftrightarrow> i_buf w = Some b \<and> length b \<le> i_took1 w \<and> nat (o_bsize opts) \<le> i_took2 w \<and> i_release w \<and> i_open w"

definition splits :: "save \<Rightarrow> bool" where
  "splits s \<longleftrightarrow> o_cflag (v_opts s) \<and> v_name s \<noteq> None"

definition file_name :: "string option \<Rightarrow> nat \<Rightarrow> string" where
  "file_name name k = (case name of None \<Rightarrow> [] | Some n \<Rightarrow> if k = 0 then n else next_name n (int k + 1))"

text \<open>
  The files of a run of the program that writes blocks of at most \<open>m\<close> bytes: the counter is the size of the open file, every file
  that was closed has reached the limit and exceeds it by less than a block.
\<close>

definition save_ok :: "int \<Rightarrow> save \<Rightarrow> bool" where
  "save_ok m s \<longleftrightarrow> v_files s \<noteq> [] \<and> v_count s = int (length (snd (last (v_files s)))) \<and> v_nfile s = int (length (v_files s)) \<and>
     map fst (v_files s) = map (file_name (v_name s)) [0 ..< length (v_files s)] \<and>
     (if splits s
      then v_count s < MAXSIZE \<and> (\<forall>f\<in>set (butlast (v_files s)). MAXSIZE \<le> int (length (snd f)) \<and> int (length (snd f)) < MAXSIZE + m)
      else length (v_files s) = 1)"

definition bytes_of :: "(string \<times> byte list) list \<Rightarrow> byte list" where
  "bytes_of fs = concat (map snd fs)"

lemma save_check_keeps [simp]:
  "v_files (save_check l b r s) = v_files s" "v_opts (save_check l b r s) = v_opts s" "v_name (save_check l b r s) = v_name s"
  "v_count (save_check l b r s) = v_count s" "v_nfile (save_check l b r s) = v_nfile s"
  by (simp_all add: save_check_def Let_def)

lemma append_file_facts:
  assumes "fs \<noteq> []"
  shows "append_file bs fs \<noteq> []" "butlast (append_file bs fs) = butlast fs" "snd (last (append_file bs fs)) = snd (last fs) @ bs"
    "length (append_file bs fs) = length fs" "map fst (append_file bs fs) = map fst fs" "bytes_of (append_file bs fs) = bytes_of fs @ bs"
  using assms by (cases fs rule: rev_cases; simp add: append_file_def bytes_of_def)+

lemma append_file_twice: "fs \<noteq> [] \<Longrightarrow> append_file cs (append_file bs fs) = append_file (bs @ cs) fs"
  by (cases fs rule: rev_cases) (simp_all add: append_file_def)

text \<open>The part of a pass before the change of the file.\<close>

lemma save_stores:
  assumes "full_io (v_opts s) w b" and "v_files s \<noteq> []" and "0 \<le> o_bsize (v_opts s)"
  obtains s1 where "(if o_vflag (v_opts s) then Inr (save_variable l b w s) else save_fixed l b w s) = Inr s1"
    and "v_files s1 = append_file (stored (v_opts s) b) (v_files s)" and "v_count s1 = v_count s + int (length (stored (v_opts s) b))"
    and "v_opts s1 = v_opts s" and "v_name s1 = v_name s" and "v_nfile s1 = v_nfile s"
proof (cases "o_vflag (v_opts s)")
  case True
  show thesis
    by (rule that [of "save_variable l b w s"]) (use assms(1) True in \<open>simp_all add: save_variable_def stored_def full_io_def\<close>)
next
  case False
  let ?n = "nat (o_bsize (v_opts s))"
  have t: "take (i_took1 w) (take ?n b) = take ?n b" "take (i_took2 w) (replicate (?n - length b) 0) = replicate (?n - length b) 0"
    using assms(1) by (auto simp: full_io_def min_def)
  have len: "length (stored (v_opts s) b) = ?n"
    using False by (simp add: stored_def)
  have "append_file (take ?n b) (v_files s) = append_file (stored (v_opts s) b) (v_files s)" if "?n \<le> length b"
    using that False by (simp add: stored_def)
  then have "save_fixed l b w s = Inr (save_check l (take ?n b) (o_bsize (v_opts s))
      (s\<lparr>v_files := append_file (stored (v_opts s) b) (v_files s), v_count := v_count s + o_bsize (v_opts s)\<rparr>))"
    using t assms(2,3) False by (auto simp: save_fixed_def Let_def append_file_twice stored_def not_less)
  then show thesis
    by (intro that [of "save_check l (take ?n b) (o_bsize (v_opts s))
      (s\<lparr>v_files := append_file (stored (v_opts s) b) (v_files s), v_count := v_count s + o_bsize (v_opts s)\<rparr>)"])
      (use False len assms(3) in simp_all)
qed

lemma save_pass_full:
  assumes "full_io (v_opts s) w b" and "save_ok m s" and "int (length (stored (v_opts s) b)) \<le> m" and "0 \<le> o_bsize (v_opts s)"
  obtains s' where "save_pass l w s = Inr s'" and "save_ok m s'" and "v_opts s' = v_opts s" and "v_name s' = v_name s"
    and "bytes_of (v_files s') = bytes_of (v_files s) @ stored (v_opts s) b"
proof -
  have ne: "v_files s \<noteq> []"
    using assms(2) by (simp add: save_ok_def)
  obtain s1 where s1: "(if o_vflag (v_opts s) then Inr (save_variable l b w s) else save_fixed l b w s) = Inr s1"
    "v_files s1 = append_file (stored (v_opts s) b) (v_files s)" "v_count s1 = v_count s + int (length (stored (v_opts s) b))"
    "v_opts s1 = v_opts s" "v_name s1 = v_name s" "v_nfile s1 = v_nfile s"
    by (rule save_stores [OF assms(1) ne assms(4)])
  note app = append_file_facts [OF ne]
  have p: "save_pass l w s = (case save_next_file w s1 of Inl e \<Rightarrow> Inl (e, s1) | Inr s2 \<Rightarrow> Inr s2)"
    using assms(1) s1(1) by (simp add: save_pass_def full_io_def)
  show thesis
  proof (cases "splits s \<and> v_count s1 \<ge> MAXSIZE")
    case True
    then obtain n where n: "v_name s = Some n" "o_cflag (v_opts s)"
      by (auto simp: splits_def)
    define s2 where "s2 = s1\<lparr>v_nfile := v_nfile s1 + 1, v_files := v_files s1 @ [(next_name n (v_nfile s1 + 1), [])], v_count := 0\<rparr>"
    have "save_next_file w s1 = Inr s2"
      using True n s1 assms(1) by (simp add: save_next_file_def s2_def full_io_def)
    moreover have "save_ok m s2"
      unfolding save_ok_def
    proof (intro conjI)
      show "v_files s2 \<noteq> []" "v_count s2 = int (length (snd (last (v_files s2))))"
        by (simp_all add: s2_def)
      have k: "v_nfile s1 = int (length (v_files s1))" "map fst (v_files s1) = map (file_name (v_name s)) [0 ..< length (v_files s1)]"
        using assms(2) s1 app by (simp_all add: save_ok_def)
      have "v_files s1 \<noteq> []"
        using s1(2) app(1) by simp
      then have "file_name (Some n) (length (v_files s1)) = next_name n (v_nfile s1 + 1)"
        by (simp add: file_name_def k(1))
      then show "v_nfile s2 = int (length (v_files s2))" "map fst (v_files s2) = map (file_name (v_name s2)) [0 ..< length (v_files s2)]"
        using k s1(5) n(1) by (simp_all add: s2_def)
      have "splits s2" "v_count s2 < MAXSIZE"
        using True s1(4,5) by (simp_all add: splits_def s2_def MAXSIZE_def)
      moreover have "\<forall>f\<in>set (v_files s1). MAXSIZE \<le> int (length (snd f)) \<and> int (length (snd f)) < MAXSIZE + m"
      proof -
        have last1: "MAXSIZE \<le> int (length (snd (last (v_files s1)))) \<and> int (length (snd (last (v_files s1)))) < MAXSIZE + m"
          using assms(2,3) True s1(2,3) app(3) by (auto simp: save_ok_def)
        have "\<forall>f\<in>set (butlast (v_files s1)). MAXSIZE \<le> int (length (snd f)) \<and> int (length (snd f)) < MAXSIZE + m"
          using assms(2) True s1(2) app(2) by (simp add: save_ok_def)
        with last1 append_butlast_last_id [OF \<open>v_files s1 \<noteq> []\<close>] show ?thesis
          by (metis Un_iff empty_iff insert_iff list.set(1) list.simps(15) set_append)
      qed
      ultimately show "if splits s2 then v_count s2 < MAXSIZE \<and> (\<forall>f\<in>set (butlast (v_files s2)). MAXSIZE \<le> int (length (snd f)) \<and> int (length (snd f)) < MAXSIZE + m)
          else length (v_files s2) = 1"
        by (simp add: s2_def)
    qed
    ultimately show thesis
      using p app s1 by (intro that [of s2]) (simp_all add: s2_def bytes_of_def)
  next
    case False
    then have "save_next_file w s1 = Inr s1"
      using s1(4,5) by (auto simp: save_next_file_def splits_def split: option.splits)
    moreover have "save_ok m s1"
      using assms(2) False s1 app by (auto simp: save_ok_def splits_def)
    ultimately show thesis
      using p app s1 by (intro that [of s1]) simp_all
  qed
qed

lemma save_loop_full:
  assumes "list_all2 (full_io (v_opts s)) ws bs" and "save_ok m s" and "\<forall>b\<in>set bs. int (length (stored (v_opts s) b)) \<le> m" and "0 \<le> o_bsize (v_opts s)"
  shows "\<exists>s'. save_loop l ws s = Inr s' \<and> save_ok m s' \<and> v_opts s' = v_opts s \<and> v_name s' = v_name s \<and>
    bytes_of (v_files s') = bytes_of (v_files s) @ concat (map (stored (v_opts s)) bs)"
  using assms
proof (induction ws arbitrary: bs s)
  case (Cons w ws)
  then obtain b bs' where b: "bs = b # bs'" "full_io (v_opts s) w b" "list_all2 (full_io (v_opts s)) ws bs'"
    by (auto simp: list_all2_Cons1)
  have m: "int (length (stored (v_opts s) b)) \<le> m"
    using Cons.prems(3) b(1) by simp
  obtain s1 where s1: "save_pass l w s = Inr s1" "save_ok m s1" "v_opts s1 = v_opts s" "v_name s1 = v_name s"
    "bytes_of (v_files s1) = bytes_of (v_files s) @ stored (v_opts s) b"
    by (rule save_pass_full [OF b(2) Cons.prems(2) m Cons.prems(4)])
  have "\<exists>s'. save_loop l ws s1 = Inr s' \<and> save_ok m s' \<and> v_opts s' = v_opts s1 \<and> v_name s' = v_name s1 \<and>
    bytes_of (v_files s') = bytes_of (v_files s1) @ concat (map (stored (v_opts s1)) bs')"
    using Cons.IH [of s1 bs'] Cons.prems(3,4) b s1(2,3) by simp
  with s1 b(1) show ?case
    by auto
qed auto

lemma save_start_ok:
  assumes "save_start opts name True True = Inr s"
  shows "save_ok m s" "v_opts s = opts" "v_name s = name" "bytes_of (v_files s) = []"
  using assms by (cases name; auto simp: save_start_def save_ok_def bytes_of_def file_name_def MAXSIZE_def)+

section \<open>Reading back\<close>

text \<open>A file that can be read without errors, in any pieces; an empty piece is the end of the file.\<close>

definition no_wr_error :: "rd list \<Rightarrow> bool" where
  "no_wr_error rs \<longleftrightarrow> Eintr \<notin> set rs \<and> Fail \<notin> set rs"

definition pieces :: "rd list \<Rightarrow> byte list" where
  "pieces rs = concat (map (\<lambda>r. case r of Data d \<Rightarrow> d | _ \<Rightarrow> []) rs)"

lemma write_fill_no_error:
  "no_wr_error rs \<Longrightarrow> k \<le> length (pieces rs) \<Longrightarrow>
   \<exists>rs'. write_fill k rs = Some (take k (pieces rs), rs') \<and> no_wr_error rs' \<and> pieces rs' = drop k (pieces rs)"
proof (induction k rs rule: write_fill.induct)
  case (6 k b bs rs)
  show ?case
  proof (cases "Suc k \<le> length (b # bs)")
    case True
    then show ?thesis
      using "6.prems" by (auto simp: Let_def no_wr_error_def pieces_def)
  next
    case False
    then have "drop (Suc k) (b # bs) = []" "take (Suc k) (b # bs) = b # bs"
      by simp_all
    with "6.IH" [OF refl refl] "6.prems" False show ?thesis
      by (auto simp: Let_def no_wr_error_def pieces_def)
  qed
qed (auto simp: no_wr_error_def pieces_def)

lemma write_fill_end:
  "no_wr_error rs \<Longrightarrow> length (pieces rs) < k \<Longrightarrow> write_fill k rs = None"
proof (induction k rs rule: write_fill.induct)
  case (6 k b bs rs)
  then have "drop (Suc k) (b # bs) = []" "take (Suc k) (b # bs) = b # bs"
    by (simp_all add: pieces_def)
  with "6.IH" [OF refl refl] "6.prems" show ?case
    by (auto simp: Let_def no_wr_error_def pieces_def)
qed (auto simp: no_wr_error_def pieces_def)

lemma write_loop_blocks:
  assumes "no_wr_error (w_input s)" and "pieces (w_input s) = concat bs @ rest" and "\<forall>b\<in>set bs. length b = nat bufsize"
    and "length bs \<le> length (w_grants s)" and "\<forall>g\<in>set (w_grants s). g = (True, True, True)"
  shows "\<exists>s'. write_loop (length bs) bufsize s = Some (Inr s') \<and> w_out s' = w_out s @ bs \<and> no_wr_error (w_input s') \<and>
    pieces (w_input s') = rest \<and> w_grants s' = drop (length bs) (w_grants s)"
  using assms
proof (induction bs arbitrary: s)
  case (Cons b bs)
  then obtain gs where g: "w_grants s = (True, True, True) # gs"
    by (cases "w_grants s") auto
  have nb: "length b = nat bufsize"
    using Cons.prems(3) by simp
  have "nat bufsize \<le> length (pieces (w_input s))"
    using Cons.prems(2) nb by simp
  from write_fill_no_error [OF Cons.prems(1) this] obtain rs where
    rs: "write_fill (nat bufsize) (w_input s) = Some (b, rs)" "no_wr_error rs" "pieces rs = concat bs @ rest"
    unfolding Cons.prems(2) by (auto simp flip: nb)
  define s1 where "s1 = s\<lparr>w_grants := gs, w_input := rs, w_out := w_out s @ [b], w_count := w_count s + int (length b)\<rparr>"
  have "write_pass bufsize s = Some (Inr s1)"
    using g rs(1) nb by (simp add: write_pass_def s1_def)
  moreover have "\<exists>s'. write_loop (length bs) bufsize s1 = Some (Inr s') \<and> w_out s' = w_out s1 @ bs \<and> no_wr_error (w_input s') \<and>
    pieces (w_input s') = rest \<and> w_grants s' = drop (length bs) (w_grants s1)"
  proof (rule Cons.IH)
    show "no_wr_error (w_input s1)" "pieces (w_input s1) = concat bs @ rest"
      using rs(2,3) by (simp_all add: s1_def)
    show "\<forall>b\<in>set bs. length b = nat bufsize"
      using Cons.prems(3) by simp
    have "w_grants s1 = gs"
      by (simp add: s1_def)
    then show "length bs \<le> length (w_grants s1)" "\<forall>g\<in>set (w_grants s1). g = (True, True, True)"
      using Cons.prems(4,5) unfolding g by simp_all
  qed
  then obtain s' where "write_loop (length bs) bufsize s1 = Some (Inr s')" "w_out s' = w_out s1 @ bs" "no_wr_error (w_input s')"
    "pieces (w_input s') = rest" "w_grants s' = drop (length bs) (w_grants s1)"
    by blast
  ultimately show ?case
    using g by (intro exI [of _ s']) (simp add: s1_def)
qed auto

lemma write_loop_add:
  "write_loop m bufsize s = Some (Inr s') \<Longrightarrow> write_loop (m + n) bufsize s = write_loop n bufsize s'"
  by (induction m arbitrary: s) (simp_all split: option.splits sum.splits)

section \<open>Properties\<close>

text \<open>Everything a router hands to router-save while the files can be written is in the files, in order, whatever the block size and
  the options; with -c every file that was closed has reached the limit and exceeds it by less than a block, and the files have the
  names that are promised.\<close>

theorem saved_files_hold_blocks:
  assumes "save_start opts name True True = Inr s" and "list_all2 (full_io opts) ws bs" and "0 \<le> o_bsize opts"
    and "\<forall>b\<in>set bs. int (length (stored opts b)) \<le> m"
  shows "\<exists>s'. save_loop little ws s = Inr s' \<and> concat (map snd (v_files s')) = concat (map (stored opts) bs) \<and>
    map fst (v_files s') = map (file_name name) [0 ..< length (v_files s')] \<and>
    (if o_cflag opts \<and> name \<noteq> None
     then int (length (snd (last (v_files s')))) < MAXSIZE \<and>
       (\<forall>f\<in>set (butlast (v_files s')). MAXSIZE \<le> int (length (snd f)) \<and> int (length (snd f)) < MAXSIZE + m)
     else length (v_files s') = 1)"
proof -
  note s = save_start_ok [OF assms(1)]
  from save_loop_full [of s ws bs m little] assms(2-4) s obtain s' where
    "save_loop little ws s = Inr s'" "save_ok m s'" "v_opts s' = opts" "v_name s' = name"
    "bytes_of (v_files s') = concat (map (stored opts) bs)"
    by auto
  then show ?thesis
    by (intro exI [of _ s']) (auto simp: save_ok_def splits_def bytes_of_def)
qed

definition demo_opts :: save_opts where
  "demo_opts = \<lparr>o_vflag = False, o_sflag = False, o_cflag = True, o_bsize = 4\<rparr>"

definition demo_io :: "byte list \<Rightarrow> save_io" where
  "demo_io b = \<lparr>i_buf = Some b, i_took1 = 9, i_took2 = 9, i_release = True, i_open = True\<rparr>"

theorem saved_files_hold_blocks_witness:
  "\<exists>s s'. save_start demo_opts (Some ''run'') True True = Inr s \<and> save_loop True [demo_io [1, 2], demo_io [3, 4, 5, 6, 7]] s = Inr s' \<and>
     concat (map snd (v_files s')) = [1, 2, 0, 0, 3, 4, 5, 6]"
proof -
  obtain s where s: "save_start demo_opts (Some ''run'') True True = Inr s"
    by (simp add: save_start_def)
  from saved_files_hold_blocks [OF s, of "[demo_io [1, 2], demo_io [3, 4, 5, 6, 7]]" "[[1, 2], [3, 4, 5, 6, 7]]" 4 True] s show ?thesis
    by (auto simp: full_io_def demo_io_def demo_opts_def stored_def numeral_2_eq_2)
qed

text \<open>C34: A file written with a fixed block size and given to router-write with the same block size puts every block, cut or filled to that
  size, into the router in the same order, however the file is read; but after the last block the program never ends, since it does
  not notice the end of the file.\<close>

theorem saved_file_can_be_replayed:
  assumes "save_start opts (Some name) True True = Inr s" and "list_all2 (full_io opts) ws bs" and "\<not> o_vflag opts \<and> \<not> o_cflag opts"
    and "0 < o_bsize opts" and "no_wr_error (w_input r)" and "\<forall>g\<in>set (w_grants r). g = (True, True, True)" and "length bs < length (w_grants r)"
  shows "\<exists>s' content. save_loop little ws s = Inr s' \<and> v_files s' = [(name, content)] \<and>
    (pieces (w_input r) = content \<longrightarrow>
       (\<exists>r'. write_loop (length bs) (o_bsize opts) r = Some (Inr r') \<and> w_out r' = w_out r @ map (stored opts) bs) \<and>
       (\<forall>k. write_loop (length bs + Suc k) (o_bsize opts) r = None))"
proof -
  have len: "\<forall>b\<in>set bs. int (length (stored opts b)) \<le> o_bsize opts" "\<forall>b\<in>set (map (stored opts) bs). length b = nat (o_bsize opts)"
    using assms(3,4) by (auto simp: stored_def)
  note s = save_start_ok [OF assms(1)]
  from save_loop_full [of s ws bs "o_bsize opts" little] assms(2,4) len(1) s obtain s' where s': "save_loop little ws s = Inr s'"
    "save_ok (o_bsize opts) s'" "v_opts s' = opts" "v_name s' = Some name" "bytes_of (v_files s') = concat (map (stored opts) bs)"
    by auto
  then have "length (v_files s') = 1" "map fst (v_files s') = map (file_name (Some name)) [0 ..< length (v_files s')]"
    using assms(3) by (simp_all add: save_ok_def splits_def)
  then have f: "v_files s' = [(name, concat (map (stored opts) bs))]"
    using s'(5) by (cases "v_files s'") (auto simp: file_name_def bytes_of_def)
  have "(\<exists>r'. write_loop (length bs) (o_bsize opts) r = Some (Inr r') \<and> w_out r' = w_out r @ map (stored opts) bs) \<and>
       (\<forall>k. write_loop (length bs + Suc k) (o_bsize opts) r = None)" if p: "pieces (w_input r) = concat (map (stored opts) bs)"
  proof -
    from write_loop_blocks [of r "map (stored opts) bs" "[]" "o_bsize opts"] assms(5-7) len(2) p obtain r' where
      r': "write_loop (length bs) (o_bsize opts) r = Some (Inr r')" "w_out r' = w_out r @ map (stored opts) bs"
      "no_wr_error (w_input r')" "pieces (w_input r') = []" "w_grants r' = drop (length bs) (w_grants r)"
      by auto
    from r'(5) assms(6,7) have "w_grants r' \<noteq> []" "\<forall>g\<in>set (w_grants r'). g = (True, True, True)"
      by (auto dest: in_set_dropD)
    then obtain gs where "w_grants r' = (True, True, True) # gs"
      by (cases "w_grants r'") auto
    then have "write_pass (o_bsize opts) r' = None"
      using write_fill_end [OF r'(3), of "nat (o_bsize opts)"] r'(4) assms(4) by (simp add: write_pass_def)
    then show ?thesis
      using r'(1,2) write_loop_add [OF r'(1), of "Suc _"] by simp
  qed
  with s'(1) f show ?thesis
    by blast
qed

theorem saved_file_can_be_replayed_witness:
  "\<exists>s s' c. save_start (demo_opts\<lparr>o_cflag := False\<rparr>) (Some ''run'') True True = Inr s \<and>
     save_loop True [demo_io [1, 2], demo_io [3, 4, 5, 6, 7]] s = Inr s' \<and> v_files s' = [(''run'', c)] \<and>
     (\<exists>r'. write_loop 2 4 \<lparr>w_input = [Data [1, 2, 0], Data [0, 3, 4, 5, 6], Data []], w_grants = replicate 3 (True, True, True), w_out = [], w_count = 0\<rparr>
        = Some (Inr r') \<and> w_out r' = [[1, 2, 0, 0], [3, 4, 5, 6]])"
proof -
  let ?o = "demo_opts\<lparr>o_cflag := False\<rparr>" and ?ws = "[demo_io [1, 2], demo_io [3, 4, 5, 6, 7]]" and ?bs = "[[1, 2], [3, 4, 5, 6, 7]] :: byte list list"
  let ?r = "\<lparr>w_input = [Data [1, 2, 0], Data [0, 3, 4, 5, 6], Data []], w_grants = replicate 3 (True, True, True), w_out = [], w_count = 0\<rparr>"
  obtain s where s: "save_start ?o (Some ''run'') True True = Inr s"
    by (simp add: save_start_def)
  have l: "list_all2 (full_io ?o) ?ws ?bs" and st: "map (stored ?o) ?bs = [[1, 2, 0, 0], [3, 4, 5, 6]]"
    by (auto simp: full_io_def demo_io_def demo_opts_def stored_def numeral_2_eq_2)
  from saved_file_can_be_replayed [OF s l, of ?r True] obtain s' c where c: "save_loop True ?ws s = Inr s'" "v_files s' = [(''run'', c)]"
    and w: "pieces (w_input ?r) = c \<Longrightarrow> \<exists>r'. write_loop (length ?bs) (o_bsize ?o) ?r = Some (Inr r') \<and> w_out r' = w_out ?r @ map (stored ?o) ?bs"
    by (auto simp: demo_opts_def no_wr_error_def)
  have "c = [1, 2, 0, 0, 3, 4, 5, 6]"
  proof -
    from save_loop_full [of s ?ws ?bs 4 True] l s have "bytes_of (v_files s') = concat (map (stored ?o) ?bs)"
      using c(1) save_start_ok(1) [OF s, of 4] save_start_ok(2-4) [OF s] by (auto simp: demo_opts_def stored_def numeral_2_eq_2)
    then show ?thesis
      unfolding st using c(2) by (simp add: bytes_of_def)
  qed
  then have "\<exists>r'. write_loop 2 4 ?r = Some (Inr r') \<and> w_out r' = [[1, 2, 0, 0], [3, 4, 5, 6]]"
    using w unfolding st by (simp add: pieces_def demo_opts_def numeral_2_eq_2)
  with s c show ?thesis
    by blast
qed

text \<open>router-fread writes byte for byte what router-save writes with a fixed block size of 64 kB, for the same blocks.\<close>

definition fread_full :: "fread_io \<Rightarrow> byte list \<Rightarrow> bool" where
  "fread_full w b \<longleftrightarrow> fi_buf w = Some b \<and> (\<exists>k. fi_took1 w = Some k \<and> length b \<le> k) \<and> (\<exists>k. fi_took2 w = Some k \<and> FREAD_BUFSIZE \<le> k) \<and> fi_release w"

definition fread_opts :: save_opts where
  "fread_opts = \<lparr>o_vflag = False, o_sflag = True, o_cflag = False, o_bsize = int FREAD_BUFSIZE\<rparr>"

lemma fread_pass_full: "fread_full w b \<Longrightarrow> fread_pass w out = Inr (out @ stored fread_opts b)"
  by (auto simp: fread_pass_def fread_full_def stored_def fread_opts_def Let_def min_def split: if_splits)

lemma fread_loop_full:
  assumes "list_all2 fread_full ws bs"
  shows "fread_loop ws out = Inr (out @ concat (map (stored fread_opts) bs))"
  using assms by (induction ws bs arbitrary: out rule: list_all2_induct) (simp_all add: fread_pass_full)

theorem fread_agrees_with_save:
  assumes "save_start fread_opts name True True = Inr s" and "list_all2 (full_io fread_opts) ws bs" and "list_all2 fread_full fs bs"
  shows "\<exists>s'. save_loop little ws s = Inr s' \<and> fread_loop fs [] = Inr (concat (map snd (v_files s')))"
proof -
  have len: "\<forall>b\<in>set bs. int (length (stored fread_opts b)) \<le> int FREAD_BUFSIZE" "v_opts s = fread_opts"
    using save_start_ok(2) [OF assms(1)] by (auto simp: stored_def fread_opts_def)
  from save_loop_full [of s ws bs "int FREAD_BUFSIZE" little] assms(2) len save_start_ok(1) [OF assms(1)] save_start_ok(4) [OF assms(1)] obtain s' where
    "save_loop little ws s = Inr s'" "bytes_of (v_files s') = concat (map (stored fread_opts) bs)"
    by (auto simp: fread_opts_def)
  then show ?thesis
    using fread_loop_full [OF assms(3), of "[]"] by (auto simp: bytes_of_def)
qed

text \<open>A disk that takes nothing is not noticed: the program goes on and counts the bytes as recorded.\<close>

theorem full_disk_is_not_noticed:
  assumes "i_buf w = Some b" and "i_took1 w = 0" and "i_release w" and "o_vflag (v_opts s)" and "\<not> o_cflag (v_opts s)" and "v_files s \<noteq> []"
  shows "\<exists>s'. save_pass little w s = Inr s' \<and> v_count s' = v_count s + int (length b) \<and> bytes_of (v_files s') = bytes_of (v_files s)"
  using assms append_file_facts(6) [OF assms(6), of "[]"]
  by (simp add: save_pass_def save_variable_def save_next_file_def option.case_eq_if)

theorem full_disk_is_not_noticed_witness:
  "\<exists>s s'. save_start (demo_opts\<lparr>o_cflag := False, o_vflag := True\<rparr>) None True True = Inr s \<and>
     save_pass True ((demo_io [1, 2, 3])\<lparr>i_took1 := 0\<rparr>) s = Inr s' \<and> v_count s' = v_count s + 3 \<and> bytes_of (v_files s') = []"
proof -
  obtain s where s: "save_start (demo_opts\<lparr>o_cflag := False, o_vflag := True\<rparr>) None True True = Inr s"
    by (simp add: save_start_def)
  then have "v_opts s = demo_opts\<lparr>o_cflag := False, o_vflag := True\<rparr>" "v_files s \<noteq> []" "bytes_of (v_files s) = []"
    using save_start_ok [OF s] by (simp_all add: save_ok_def)
  with full_disk_is_not_noticed [of "(demo_io [1, 2, 3])\<lparr>i_took1 := 0\<rparr>" "[1, 2, 3]" s True] s show ?thesis
    by (auto simp: demo_io_def demo_opts_def)
qed

end
