(* ===== verification/Camac.thy ===== *)
theory Camac
  imports Vme_Windows
begin

text \<open>
  Access to CAMAC modules through the crate controller K2917 (\<^verbatim>\<open>camlib/camlib.c\<close>): opening and closing of its window, and the
  function \<^verbatim>\<open>CNAF\<close> that makes one CAMAC cycle. The registers are 16 bit words; what the reads of one call deliver is an
  argument, the writes are a list. \<open>command_of\<close> says which cycle the controller makes for such a list.
\<close>

section \<open>Registers\<close>

definition K2917_CMR :: nat where "K2917_CMR = 0x31"
definition K2917_CMA :: nat where "K2917_CMA = 0x32"
definition K2917_DLR :: nat where "K2917_DLR = 0x35"
definition K2917_DHR :: nat where "K2917_DHR = 0x36"
definition K2917_CSR :: nat where "K2917_CSR = 0x37"
definition K2917_CMR_WS24 :: "16 word" where "K2917_CMR_WS24 = 0"
definition K2917_CMR_HALT :: "16 word" where "K2917_CMR_HALT = 0x0080"
definition K2917_CSR_ERR :: "16 word" where "K2917_CSR_ERR = 0x8000"
definition K2917_CSR_RDY :: "16 word" where "K2917_CSR_RDY = 0x0100"
definition K2917_CSR_DONE :: "16 word" where "K2917_CSR_DONE = 0x0080"
definition K2917_CSR_DIR :: "16 word" where "K2917_CSR_DIR = 0x0020"
definition K2917_CSR_NOX :: "16 word" where "K2917_CSR_NOX = 0x0004"
definition K2917_CSR_NOQ :: "16 word" where "K2917_CSR_NOQ = 0x0002"
definition K2917_CSR_GO :: "16 word" where "K2917_CSR_GO = 1"
definition MAX_RETRY :: nat where "MAX_RETRY = 10"

text \<open>What the reads of a call deliver: the successive reads of the control register, and the two data registers.\<close>

record k2917 =
  csr :: "nat \<Rightarrow> 16 word"
  dhr :: "16 word"
  dlr :: "16 word"

record cam_res =
  r_status :: int
  r_dat :: "64 word"
  r_q :: "64 word"
  r_x :: "64 word"

type_synonym writes = "(nat \<times> 16 word) list"

section \<open>One cycle\<close>

text \<open>
  The loops that wait for a bit of the control register, at most \<open>n\<close> reads from the \<open>k\<close>-th one on. An error bit in \<open>err\<close> ends the
  wait too. The result is the value that had the bit, or nothing, and the number of the next read.
\<close>

datatype polled = Got "16 word" | Bad | Late

fun poll :: "(nat \<Rightarrow> 16 word) \<Rightarrow> 16 word \<Rightarrow> 16 word \<Rightarrow> nat \<Rightarrow> nat \<Rightarrow> polled \<times> nat" where
  "poll c msk err 0 k = (Late, k)"
| "poll c msk err (Suc n) k =
     (if c k AND msk \<noteq> 0 then (Got (c k), Suc k)
      else if c k AND err \<noteq> 0 then (Bad, Suc k)
      else poll c msk err n (Suc k))"

definition cnaf_setup :: "16 word \<Rightarrow> 64 word \<Rightarrow> 64 word \<Rightarrow> 64 word \<Rightarrow> 64 word \<Rightarrow> writes" where
  "cnaf_setup c0 C N A F =
     [(K2917_CSR, c0 AND NOT K2917_CSR_GO), (K2917_CMA, 0), (K2917_CMR, ucast (push_bit 8 C) + K2917_CMR_WS24),
      (K2917_CMR, ucast (push_bit 9 N + push_bit 5 A + F)), (K2917_CMR, K2917_CMR_HALT), (K2917_CMA, 0), (K2917_CMA, 0)]"

definition no_qx :: "16 word \<Rightarrow> 16 word \<Rightarrow> 64 word" where
  "no_qx c b = (if c AND b \<noteq> 0 then 0 else 1)"

definition cnaf_ok :: "16 word \<Rightarrow> 64 word \<Rightarrow> cam_res" where
  "cnaf_ok c dat = \<lparr>r_status = 0, r_dat = dat, r_q = no_qx c K2917_CSR_NOQ, r_x = no_qx c K2917_CSR_NOX\<rparr>"

definition cnaf_error :: "64 word \<Rightarrow> cam_res" where
  "cnaf_error dat = \<lparr>r_status = -1, r_dat = dat, r_q = 0, r_x = 0\<rparr>"

text \<open>The three kinds of cycle. The values of the control register a read depends on are those of the wait for \<^verbatim>\<open>RDY\<close>.\<close>

definition cnaf_read :: "k2917 \<Rightarrow> 16 word \<Rightarrow> 64 word \<Rightarrow> cam_res \<times> writes" where
  "cnaf_read d c1 dat =
     (let go = (K2917_CSR, (c1 AND NOT K2917_CSR_DIR) OR K2917_CSR_GO)
      in case poll (csr d) K2917_CSR_RDY K2917_CSR_ERR MAX_RETRY 2 of
           (Got c, k) \<Rightarrow>
             (cnaf_ok c (ucast (dlr d) + push_bit 16 (ucast (dhr d AND 0x00ff))), [go, (K2917_CSR, csr d k AND NOT K2917_CSR_GO)])
         | (_, k) \<Rightarrow> (cnaf_error dat, [go]))"

definition cnaf_write :: "k2917 \<Rightarrow> 16 word \<Rightarrow> 64 word \<Rightarrow> cam_res \<times> writes" where
  "cnaf_write d c1 dat =
     (let go = (K2917_CSR, (c1 OR K2917_CSR_DIR) OR K2917_CSR_GO)
      in case poll (csr d) K2917_CSR_RDY 0 MAX_RETRY 2 of
           (Got c, k) \<Rightarrow>
             (let ws = [go, (K2917_DHR, ucast (drop_bit 16 dat)), (K2917_DLR, ucast (dat AND 0xffff)), (K2917_CSR, csr d k AND NOT K2917_CSR_GO)]
              in case poll (csr d) K2917_CSR_DONE K2917_CSR_ERR MAX_RETRY (Suc k) of
                   (Got c', k') \<Rightarrow> (cnaf_ok c' dat, ws)
                 | _ \<Rightarrow> (cnaf_error dat, ws))
         | _ \<Rightarrow> (cnaf_error dat, [go]))"

definition cnaf_other :: "k2917 \<Rightarrow> 16 word \<Rightarrow> 64 word \<Rightarrow> cam_res \<times> writes" where
  "cnaf_other d c1 dat =
     (let ws = [(K2917_CSR, c1 OR K2917_CSR_GO), (K2917_CSR, csr d 2 AND NOT K2917_CSR_GO)]
      in case poll (csr d) K2917_CSR_DONE K2917_CSR_ERR MAX_RETRY 3 of
           (Got c, k) \<Rightarrow> (cnaf_ok c dat, ws)
         | _ \<Rightarrow> (cnaf_error dat, ws))"

definition cnaf :: "k2917 \<Rightarrow> 64 word \<Rightarrow> 64 word \<Rightarrow> 64 word \<Rightarrow> 64 word \<Rightarrow> 64 word \<Rightarrow> cam_res \<times> writes" where
  "cnaf d C N A F dat =
     (let c1 = csr d 1
      in map_prod id (\<lambda>ws. cnaf_setup (csr d 0) C N A F @ ws)
           (if F AND 0x18 = 0 then cnaf_read d c1 dat
            else if F AND 0x18 = 0x10 then cnaf_write d c1 dat
            else cnaf_other d c1 dat))"

section \<open>A program that uses the controller\<close>

text \<open>\<open>k_ans i\<close>: what the registers deliver in the \<open>i\<close>-th call of \<^verbatim>\<open>CNAF\<close>; \<open>k_log\<close>: the writes of every call.\<close>

record camac =
  k_ans :: "nat \<Rightarrow> k2917"
  k_log :: "writes list"

definition CNAF :: "64 word \<Rightarrow> 64 word \<Rightarrow> 64 word \<Rightarrow> 64 word \<Rightarrow> 64 word \<Rightarrow> camac \<Rightarrow> cam_res \<times> camac" where
  "CNAF C N A F dat s =
     (case cnaf (k_ans s (length (k_log s))) C N A F dat of (r, ws) \<Rightarrow> (r, s\<lparr>k_log := k_log s @ [ws]\<rparr>))"

definition cSetClear :: "64 word \<Rightarrow> camac \<Rightarrow> cam_res \<times> camac" where
  "cSetClear C s = CNAF C 30 0 17 0 s"

section \<open>The window\<close>

definition K2917_BASE :: nat where "K2917_BASE = 0xFF00"
definition K2917_SIZE :: nat where "K2917_SIZE = 256"

text \<open>\<open>i\<close>: whether \<^verbatim>\<open>vme_init\<close> succeeds.\<close>

definition camOpen :: "bool \<Rightarrow> vme_ans \<Rightarrow> bool \<times> (vme_call \<times> bool) list" where
  "camOpen i a =
     (if \<not> i then (False, [(VInit, False)])
      else if \<not> a_create a then (False, [(VInit, True), (WCreate 0 K2917_BASE K2917_SIZE, False), (VTerm, a_term a)])
      else if a_map a = None then
        (False, [(VInit, True), (WCreate 0 K2917_BASE K2917_SIZE, True), (WMap 0, False), (WRelease 0, a_release a), (VTerm, a_term a)])
      else (True, [(VInit, True), (WCreate 0 K2917_BASE K2917_SIZE, True), (WMap 0, True)]))"

definition camClose :: "vme_ans \<Rightarrow> int \<times> (vme_call \<times> bool) list" where
  "camClose a =
     (if \<not> a_unmap a then (-1, [(WUnmap 0, False), (WRelease 0, a_release_err a), (VTerm, a_term a)])
      else if \<not> a_release a then (-1, [(WUnmap 0, True), (WRelease 0, False), (VTerm, a_term a)])
      else if \<not> a_term a then (-1, [(WUnmap 0, True), (WRelease 0, True), (VTerm, False)])
      else (0, [(WUnmap 0, True), (WRelease 0, True), (VTerm, True)]))"

section \<open>Commands\<close>

text \<open>
  The cycle that a list of register writes asks for: crate, station, subaddress, function, and the data of a write function. The
  command list is written from address 0 on, ends with \<^verbatim>\<open>HALT\<close> and is started by the \<^verbatim>\<open>GO\<close> bit; the data are the two words
  written behind it.
\<close>

definition naf_of :: "16 word \<Rightarrow> nat \<times> nat \<times> nat" where
  "naf_of w = (unat (drop_bit 9 w), unat (drop_bit 5 w AND 0xf), unat (w AND 0x1f))"

type_synonym command = "nat \<times> nat \<times> nat \<times> nat \<times> nat option"

definition data_of :: "nat \<Rightarrow> writes \<Rightarrow> nat option option" where
  "data_of f ws =
     (if f AND 0x18 = 0x10 then
        (case ws of
           (r1, h) # (r2, l) # _ \<Rightarrow> if r1 = K2917_DHR \<and> r2 = K2917_DLR then Some (Some (unat h * 2 ^ 16 + unat l)) else None
         | _ \<Rightarrow> None)
      else Some None)"

definition command_of :: "writes \<Rightarrow> command option" where
  "command_of ws =
     (if map fst (take 8 ws) = [K2917_CSR, K2917_CMA, K2917_CMR, K2917_CMR, K2917_CMR, K2917_CMA, K2917_CMA, K2917_CSR] \<and>
         snd (ws ! 1) = 0 \<and> snd (ws ! 4) = K2917_CMR_HALT \<and> snd (ws ! 6) = 0 \<and> snd (ws ! 7) AND K2917_CSR_GO \<noteq> 0
      then
        (case naf_of (snd (ws ! 3)) of (n, a, f) \<Rightarrow>
           map_option (\<lambda>d. (unat (drop_bit 8 (snd (ws ! 2))), n, a, f, d)) (data_of f (drop 8 ws)))
      else None)"

section \<open>What a cycle does\<close>

lemma poll_found:
  assumes "i < n" and "c (k + i) AND msk \<noteq> 0" and "\<forall>j < i. c (k + j) AND msk = 0 \<and> c (k + j) AND err = 0"
  shows "poll c msk err n k = (Got (c (k + i)), k + i + 1)"
  using assms
proof (induction i arbitrary: n k)
  case 0
  then show ?case
    by (cases n) simp_all
next
  case (Suc i)
  then obtain m where n: "n = Suc m"
    by (cases n) auto
  have "c k AND msk = 0" "c k AND err = 0"
    using Suc.prems(3) by force+
  moreover have "poll c msk err m (Suc k) = (Got (c (Suc k + i)), Suc k + i + 1)"
  proof (rule Suc.IH)
    show "\<forall>j < i. c (Suc k + j) AND msk = 0 \<and> c (Suc k + j) AND err = 0"
    proof (intro allI impI)
      fix j
      assume "j < i"
      then show "c (Suc k + j) AND msk = 0 \<and> c (Suc k + j) AND err = 0"
        using Suc.prems(3) [THEN spec, of "Suc j"] by simp
    qed
  qed (use Suc.prems n in simp_all)
  ultimately show ?case
    by (simp add: n)
qed

lemma naf_arith:
  fixes n a f :: int
  assumes "0 \<le> a" "a < 16" "0 \<le> f" "f < 32"
  shows "(n * 512 + a * 32 + f) div 512 = n" "(n * 512 + a * 32 + f) div 32 mod 16 = a" "(n * 512 + a * 32 + f) mod 32 = f"
proof -
  show "(n * 512 + a * 32 + f) div 512 = n"
    using assms by (intro int_div_pos_eq [of _ _ _ "a * 32 + f"]) auto
  have "(n * 512 + a * 32 + f) div 32 = n * 16 + a"
    using assms by (intro int_div_pos_eq [of _ _ _ f]) auto
  moreover have "(n * 16 + a) mod 16 = a"
    using assms by (intro int_mod_pos_eq [of _ _ n]) auto
  ultimately show "(n * 512 + a * 32 + f) div 32 mod 16 = a"
    by simp
  show "(n * 512 + a * 32 + f) mod 32 = f"
    using assms by (intro int_mod_pos_eq [of _ _ "n * 16 + a"]) auto
qed

lemma uint_fields:
  fixes x :: "16 word"
  shows "uint (drop_bit 9 x) = uint x div 512" "uint (drop_bit 5 x AND 0xf) = uint x div 32 mod 16" "uint (x AND 0x1f) = uint x mod 32"
    "uint (drop_bit 8 x) = uint x div 256"
proof -
  have m: "y AND 0xf = take_bit 4 y" "y AND 0x1f = take_bit 5 y" for y :: "16 word"
    using take_bit_eq_mask [of 4 y] take_bit_eq_mask [of 5 y] by (simp_all add: mask_eq_exp_minus_1)
  have d: "uint (drop_bit n y) = uint y div 2 ^ n" for n and y :: "16 word"
    using take_bit_int_eq_self [of "uint y" 16] uint_lt2p [of y]
    by (simp only: unsigned_drop_bit_eq) (simp add: drop_bit_eq_div)
  have e: "uint (take_bit n y) = uint y mod 2 ^ n" for n and y :: "16 word"
    by (simp only: unsigned_take_bit_eq) (simp add: take_bit_eq_mod)
  show "uint (drop_bit 9 x) = uint x div 512" "uint (drop_bit 8 x) = uint x div 256"
    by (simp_all only: d) simp_all
  show "uint (drop_bit 5 x AND 0xf) = uint x div 32 mod 16" "uint (x AND 0x1f) = uint x mod 32"
    by (simp_all only: m e d) simp_all
qed

text \<open>The words of a command and the controller that reads them; all values in the ranges of CAMAC.\<close>

lemma naf_fields:
  fixes N A F :: "64 word"
  assumes "N < 128" "A < 16" "F < 32"
  shows "naf_of (ucast (push_bit 9 N + push_bit 5 A + F)) = (unat N, unat A, unat F)"
proof -
  have b: "uint N < 128" "uint A < 16" "uint F < 32"
    using assms by (simp_all add: word_less_def)
  let ?v = "uint N * 512 + uint A * 32 + uint F"
  have v: "0 \<le> ?v" "?v < 65536"
    using b uint_ge_0 [of N] uint_ge_0 [of A] uint_ge_0 [of F] by auto
  have u: "uint (ucast (push_bit 9 N + push_bit 5 A + F) :: 16 word) = ?v"
    using v by (simp add: unsigned_ucast_eq uint_word_ariths push_bit_eq_mult take_bit_eq_mod mod_simps)
  have d: "?v div 512 = uint N" "?v div 32 mod 16 = uint A" "?v mod 32 = uint F"
    using b by (intro naf_arith; simp)+
  show ?thesis
    unfolding naf_of_def unat_eq_nat_uint uint_fields u d by simp
qed

lemma crate_field:
  assumes "(C :: 64 word) < 256"
  shows "unat (drop_bit 8 (ucast (push_bit 8 C) + K2917_CMR_WS24)) = unat C"
proof -
  from assms have b: "uint C < 256"
    by (simp add: word_less_def)
  have u: "uint (ucast (push_bit 8 C) :: 16 word) = uint C * 256"
    using b by (simp add: unsigned_ucast_eq push_bit_eq_mult uint_word_ariths take_bit_eq_mod mod_simps)
  show ?thesis
    unfolding unat_eq_nat_uint uint_fields K2917_CMR_WS24_def add_0_right u by simp
qed

lemma go_bit: "(c OR K2917_CSR_GO) AND K2917_CSR_GO \<noteq> 0" "(c AND NOT K2917_CSR_GO) AND K2917_CSR_GO = 0"
proof -
  have "(c OR K2917_CSR_GO) AND K2917_CSR_GO = K2917_CSR_GO"
    by (rule bit_word_eqI) (auto simp: bit_simps)
  then show "(c OR K2917_CSR_GO) AND K2917_CSR_GO \<noteq> 0"
    by (simp add: K2917_CSR_GO_def)
  show "(c AND NOT K2917_CSR_GO) AND K2917_CSR_GO = 0"
    by (rule bit_word_eqI) (auto simp: bit_simps)
qed

lemma data_words: "unat (ucast (drop_bit 16 v) :: 16 word) * 2 ^ 16 + unat (ucast (v AND 0xffff) :: 16 word) = unat v mod 2 ^ 32"
  for v :: "64 word"
proof -
  have m: "v AND 0xffff = take_bit 16 v"
    using take_bit_eq_mask [of 16 v] by (simp add: mask_eq_exp_minus_1)
  have "unat (ucast (drop_bit 16 v) :: 16 word) = unat v div 2 ^ 16 mod 2 ^ 16"
    by (simp only: unsigned_ucast_eq unat_drop_bit_eq) (simp add: drop_bit_eq_div take_bit_eq_mod)
  moreover have "unat (ucast (v AND 0xffff) :: 16 word) = unat v mod 2 ^ 16"
    by (simp only: m unsigned_ucast_eq unsigned_take_bit_eq) (simp add: take_bit_eq_mod)
  moreover have "unat v mod 2 ^ 32 = unat v div 2 ^ 16 mod 2 ^ 16 * 2 ^ 16 + unat v mod 2 ^ 16"
    using mod_mult2_eq [of "unat v" "2 ^ 16" "2 ^ 16"] by simp
  ultimately show ?thesis
    by simp
qed

lemma function_kind: "unat F AND 0x18 = 0x10 \<longleftrightarrow> F AND 0x18 = 0x10" for F :: "64 word"
proof -
  have "unat (F AND 0x18) = unat F AND 0x18"
    by (simp add: unsigned_and_eq)
  then show ?thesis
    by (simp add: word_unat_eq_iff [of "F AND 0x18" "0x10"])
qed

text \<open>Whether the controller answers within the retries of the cycle.\<close>

fun got :: "polled \<times> nat \<Rightarrow> bool" where
  "got (Got c, k) = True"
| "got _ = False"

definition responds :: "k2917 \<Rightarrow> 64 word \<Rightarrow> bool" where
  "responds d F =
     (if F AND 0x18 = 0 then got (poll (csr d) K2917_CSR_RDY K2917_CSR_ERR MAX_RETRY 2)
      else if F AND 0x18 = 0x10 then
        got (poll (csr d) K2917_CSR_RDY 0 MAX_RETRY 2) \<and>
        got (poll (csr d) K2917_CSR_DONE K2917_CSR_ERR MAX_RETRY (Suc (snd (poll (csr d) K2917_CSR_RDY 0 MAX_RETRY 2))))
      else got (poll (csr d) K2917_CSR_DONE K2917_CSR_ERR MAX_RETRY 3))"

text \<open>The value of the control register that ended the last wait of the cycle; it holds Q and X of the answer.\<close>

definition final_csr :: "k2917 \<Rightarrow> 64 word \<Rightarrow> 16 word" where
  "final_csr d F =
     (case (if F AND 0x18 = 0 then poll (csr d) K2917_CSR_RDY K2917_CSR_ERR MAX_RETRY 2
            else if F AND 0x18 = 0x10 then
              poll (csr d) K2917_CSR_DONE K2917_CSR_ERR MAX_RETRY (Suc (snd (poll (csr d) K2917_CSR_RDY 0 MAX_RETRY 2)))
            else poll (csr d) K2917_CSR_DONE K2917_CSR_ERR MAX_RETRY 3) of
        (Got c, k) \<Rightarrow> c
      | _ \<Rightarrow> 0)"

lemma no_qx_bits: "no_qx c K2917_CSR_NOQ = (if bit c 1 then 0 else 1)" "no_qx c K2917_CSR_NOX = (if bit c 2 then 0 else 1)"
proof -
  have "c AND push_bit n 1 \<noteq> 0 \<longleftrightarrow> bit c n" for n
    by (simp add: bit_iff_and_push_bit_not_eq_0)
  from this [of 1] this [of 2] show "no_qx c K2917_CSR_NOQ = (if bit c 1 then 0 else 1)" "no_qx c K2917_CSR_NOX = (if bit c 2 then 0 else 1)"
    by (simp_all add: no_qx_def K2917_CSR_NOQ_def K2917_CSR_NOX_def)
qed

lemma got_cases: "got p \<Longrightarrow> \<exists>c k. p = (Got c, k)" "\<not> got p \<Longrightarrow> \<exists>k. p = (Bad, k) \<or> p = (Late, k)"
  by (cases p rule: got.cases; auto)+

lemma poll_reads: "poll c msk err n k = (Got v, k') \<Longrightarrow> \<exists>i. v = c i"
  by (induction c msk err n k rule: poll.induct) (auto split: if_splits)

lemma final_csr_read:
  assumes "responds d F"
  obtains i where "final_csr d F = csr d i"
proof -
  let ?p = "if F AND 0x18 = 0 then poll (csr d) K2917_CSR_RDY K2917_CSR_ERR MAX_RETRY 2
    else if F AND 0x18 = 0x10 then poll (csr d) K2917_CSR_DONE K2917_CSR_ERR MAX_RETRY (Suc (snd (poll (csr d) K2917_CSR_RDY 0 MAX_RETRY 2)))
    else poll (csr d) K2917_CSR_DONE K2917_CSR_ERR MAX_RETRY 3"
  obtain c k where p: "?p = (Got c, k)"
    using assms got_cases(1) [of ?p] by (auto simp: responds_def split: if_splits)
  then have "final_csr d F = c" "\<exists>i. c = csr d i"
    by (simp only: final_csr_def prod.case polled.case) (use p poll_reads in \<open>auto split: if_splits\<close>)
  then show thesis
    using that by blast
qed

lemma command_of_setup:
  assumes "C < 256" and "N < 128" and "A < 16" and "F < 32"
  shows "command_of (cnaf_setup c0 C N A F @ (K2917_CSR, c OR K2917_CSR_GO) # ws) =
    map_option (\<lambda>d. (unat C, unat N, unat A, unat F, d)) (data_of (unat F) ws)"
  using crate_field [OF assms(1)] naf_fields [OF assms(2-4)]
    go_bit(1) [of c]
  by (simp add: command_of_def cnaf_setup_def numeral_eq_Suc)

lemma cnaf_command:
  assumes "C < 256" and "N < 128" and "A < 16" and "F < 32" and "responds d F"
  obtains r ws where "cnaf d C N A F dat = (r, ws)" and "r_status r = 0" and "snd (last ws) AND K2917_CSR_GO = 0"
    and "command_of ws = Some (unat C, unat N, unat A, unat F, if F AND 0x18 = 0x10 then Some (unat dat mod 2 ^ 32) else None)"
    and "r_dat r = (if F AND 0x18 = 0 then ucast (dlr d) + push_bit 16 (ucast (dhr d AND 0x00ff)) else dat)"
    and "r_q r = no_qx (final_csr d F) K2917_CSR_NOQ" and "r_x r = no_qx (final_csr d F) K2917_CSR_NOX"
proof -
  note cmd = command_of_setup [OF assms(1-4)]
  consider (rd) "F AND 0x18 = 0" | (wr) "F AND 0x18 = 0x10" | (other) "F AND 0x18 \<noteq> 0" "F AND 0x18 \<noteq> 0x10"
    by blast
  then show thesis
  proof cases
    case rd
    then obtain c k where p: "poll (csr d) K2917_CSR_RDY K2917_CSR_ERR MAX_RETRY 2 = (Got c, k)"
      using assms(5) got_cases(1) by (fastforce simp: responds_def)
    have "data_of (unat F) ws = Some None" for ws
      using rd function_kind [of F] by (simp add: data_of_def)
    then show thesis
      using rd p
      by (intro that) (auto simp: cnaf_def cnaf_read_def Let_def cmd go_bit cnaf_ok_def final_csr_def)
  next
    case wr
    with assms(5) have g: "got (poll (csr d) K2917_CSR_RDY 0 MAX_RETRY 2)"
      "got (poll (csr d) K2917_CSR_DONE K2917_CSR_ERR MAX_RETRY (Suc (snd (poll (csr d) K2917_CSR_RDY 0 MAX_RETRY 2))))"
      by (simp_all add: responds_def)
    from got_cases(1) [OF g(1)] got_cases(1) [OF g(2)] obtain c k c' k' where
      p: "poll (csr d) K2917_CSR_RDY 0 MAX_RETRY 2 = (Got c, k)" "poll (csr d) K2917_CSR_DONE K2917_CSR_ERR MAX_RETRY (Suc k) = (Got c', k')"
      by auto
    have "data_of (unat F) ((K2917_DHR, ucast (drop_bit 16 dat)) # (K2917_DLR, ucast (dat AND 0xffff)) # ws) = Some (Some (unat dat mod 2 ^ 32))" for ws
      using wr function_kind [of F] data_words [of dat] by (simp add: data_of_def)
    then show thesis
      using wr p
      by (intro that) (auto simp: cnaf_def cnaf_write_def Let_def cmd go_bit cnaf_ok_def final_csr_def)
  next
    case other
    then obtain c k where p: "poll (csr d) K2917_CSR_DONE K2917_CSR_ERR MAX_RETRY 3 = (Got c, k)"
      using assms(5) got_cases(1) by (fastforce simp: responds_def)
    have "data_of (unat F) ws = Some None" for ws
      using other function_kind [of F] by (simp add: data_of_def)
    then show thesis
      using other p
      by (intro that) (auto simp: cnaf_def cnaf_other_def Let_def cmd go_bit cnaf_ok_def final_csr_def)
  qed
qed

lemma cnaf_no_answer: "\<not> responds d F \<Longrightarrow> fst (cnaf d C N A F dat) = cnaf_error dat"
  by (auto simp: cnaf_def responds_def cnaf_read_def cnaf_write_def cnaf_other_def Let_def split: prod.splits polled.splits)

section \<open>Properties\<close>

text \<open>C35: \<^verbatim>\<open>CNAF\<close> makes exactly the CAMAC cycle it is asked for: if the controller answers within ten reads of its control register, the
  register writes are a command list for the crate, station, subaddress and function of the call, with the data of a write
  function, and leave the \<^verbatim>\<open>GO\<close> bit off; Q is 1 exactly when bit 1 (\<^verbatim>\<open>NOQ\<close>) and X exactly when bit 2 (\<^verbatim>\<open>NOX\<close>) of the control
  register is off in the read that ended the wait; a read function returns the 24 bits of the two data registers. If it does not answer the
  result is -1, Q and X are 0 and the data of the caller are kept.\<close>

theorem cnaf_makes_the_cycle:
  assumes "C < 256" and "N < 128" and "A < 16" and "F < 32" and "cnaf d C N A F dat = (r, ws)"
  shows "if responds d F
    then r_status r = 0 \<and> r_q r = (if bit (final_csr d F) 1 then 0 else 1) \<and> r_x r = (if bit (final_csr d F) 2 then 0 else 1) \<and> snd (last ws) AND K2917_CSR_GO = 0 \<and>
      command_of ws = Some (unat C, unat N, unat A, unat F, if F AND 0x18 = 0x10 then Some (unat dat mod 2 ^ 32) else None) \<and>
      (if F AND 0x18 = 0 then unat (r_dat r) = unat (dhr d) mod 2 ^ 8 * 2 ^ 16 + unat (dlr d) else r_dat r = dat)
    else r_status r = -1 \<and> r_q r = 0 \<and> r_x r = 0 \<and> r_dat r = dat"
proof (cases "responds d F")
  case True
  obtain r' ws' where r: "cnaf d C N A F dat = (r', ws')" "r_status r' = 0" "snd (last ws') AND K2917_CSR_GO = 0"
    "command_of ws' = Some (unat C, unat N, unat A, unat F, if F AND 0x18 = 0x10 then Some (unat dat mod 2 ^ 32) else None)"
    "r_dat r' = (if F AND 0x18 = 0 then ucast (dlr d) + push_bit 16 (ucast (dhr d AND 0x00ff)) else dat)"
    "r_q r' = no_qx (final_csr d F) K2917_CSR_NOQ" "r_x r' = no_qx (final_csr d F) K2917_CSR_NOX"
    by (rule cnaf_command [OF assms(1-4) True])
  have "unat (ucast (dlr d) + push_bit 16 (ucast (dhr d AND 0x00ff)) :: 64 word) = unat (dhr d) mod 2 ^ 8 * 2 ^ 16 + unat (dlr d)"
  proof -
    have m: "dhr d AND 0x00ff = take_bit 8 (dhr d)"
      using take_bit_eq_mask [of 8 "dhr d"] by (simp add: mask_eq_exp_minus_1)
    have h: "unat (dhr d AND 0x00ff) = unat (dhr d) mod 2 ^ 8"
      by (simp only: m unsigned_take_bit_eq) (simp add: take_bit_eq_mod)
    have "unat (dlr d) < 2 ^ 16" "unat (dhr d) mod 2 ^ 8 < 2 ^ 8"
      using unsigned_less [of "dlr d"] by simp_all
    then have "(unat (dlr d) + unat (dhr d) mod 2 ^ 8 * 2 ^ 16) mod 2 ^ 64 = unat (dlr d) + unat (dhr d) mod 2 ^ 8 * 2 ^ 16"
      by (intro mod_less) auto
    then show ?thesis
      unfolding h [symmetric]
      by (simp add: unat_word_ariths push_bit_eq_mult unsigned_ucast_eq take_bit_eq_mod mod_simps mult.commute)
  qed
  with r assms(5) True show ?thesis
    by (simp add: no_qx_bits)
next
  case False
  with cnaf_no_answer [OF False, of C N A dat] assms(5) show ?thesis
    by (simp add: cnaf_error_def)
qed

definition demo_k2917 :: k2917 where
  "demo_k2917 = \<lparr>csr = (\<lambda>i. if i < 5 then 0 else 0x0182), dhr = 0xab12, dlr = 0x3456\<rparr>"

theorem cnaf_makes_the_cycle_witness:
  "\<exists>r ws. cnaf demo_k2917 6 14 2 0 99 = (r, ws) \<and> command_of ws = Some (6, 14, 2, 0, None) \<and> unat (r_dat r) = 0x123456 \<and>
     r_q r = 0 \<and> r_x r = 1"
proof -
  obtain r ws where c: "cnaf demo_k2917 6 14 2 0 99 = (r, ws)"
    by fastforce
  have "responds demo_k2917 0" "final_csr demo_k2917 0 = 0x0182" "bit (0x0182 :: 16 word) 1" "\<not> bit (0x0182 :: 16 word) 2"
    by code_simp+
  with cnaf_makes_the_cycle [OF _ _ _ _ c] c show ?thesis
    by (simp add: demo_k2917_def)
qed

end
