(* ===== verification/Camac_Tools.thy ===== *)
theory Camac_Tools
  imports Camac Config Net_IO
begin

text \<open>
  The programs that set up CAMAC modules: the PCOS III systems (\<^verbatim>\<open>pcos/pcos_setaddress.c\<close>, \<^verbatim>\<open>pcos_threshold.c\<close>,
  \<^verbatim>\<open>pcos_delay.c\<close>), the memory look up units (\<^verbatim>\<open>mlu/mluLoad2372_uv.c\<close>, \<^verbatim>\<open>mluLoad2372_xuv.c\<close>, \<^verbatim>\<open>mluDump.c\<close>) and the gate
  arrays of the LeCroy 2366 (\<^verbatim>\<open>xilinx/Xilinxload.c\<close>). Every CAMAC cycle goes through the model of \<^verbatim>\<open>CNAF\<close>. A result is the
  exit status and the controller with what was written to it.
\<close>

section \<open>Commands of a program\<close>

definition bus_cycles :: "camac \<Rightarrow> command option list" where
  "bus_cycles s = map command_of (k_log s)"

text \<open>A controller that is always ready, with a module that answers: every read of the control register says so.\<close>

definition ready :: "k2917 \<Rightarrow> bool" where
  "ready d \<longleftrightarrow> (\<forall>i. csr d i AND K2917_CSR_RDY \<noteq> 0 \<and> csr d i AND K2917_CSR_DONE \<noteq> 0 \<and>
     csr d i AND K2917_CSR_NOX = 0 \<and> csr d i AND K2917_CSR_NOQ = 0)"

definition all_ready :: "camac \<Rightarrow> bool" where
  "all_ready s \<longleftrightarrow> (\<forall>i. ready (k_ans s i))"

definition naf_ok :: "64 word \<Rightarrow> 64 word \<Rightarrow> 64 word \<Rightarrow> 64 word \<Rightarrow> bool" where
  "naf_ok C N A F \<longleftrightarrow> C < 256 \<and> N < 128 \<and> A < 16 \<and> F < 32"

definition asked :: "64 word \<Rightarrow> 64 word \<Rightarrow> 64 word \<Rightarrow> 64 word \<Rightarrow> 64 word \<Rightarrow> command option" where
  "asked C N A F dat = Some (unat C, unat N, unat A, unat F, if F AND 0x18 = 0x10 then Some (unat dat mod 2 ^ 32) else None)"

section \<open>PCOS III\<close>

definition ulong :: "string \<Rightarrow> 64 word" where
  "ulong str = word_of_int (c_int (atoi str))"

text \<open>\<^verbatim>\<open>sscanf(p,"0x%lx",&addr)\<close> behind the two characters of the format.\<close>

definition is_hex :: "char \<Rightarrow> bool" where
  "is_hex c \<longleftrightarrow> is_digit c \<or> CHR ''a'' \<le> c \<and> c \<le> CHR ''f'' \<or> CHR ''A'' \<le> c \<and> c \<le> CHR ''F''"

definition hex_prefix :: "string \<Rightarrow> string" where
  "hex_prefix str = (if take 2 str = ''0x'' \<or> take 2 str = ''0X'' then drop 2 str else str)"

definition scan_hex :: "string \<Rightarrow> 64 word option" where
  "scan_hex str =
     (let s1 = dropWhile (\<lambda>c. c = CHR '' '' \<or> c = CHR 0x09) str;
          neg = (s1 \<noteq> [] \<and> hd s1 = CHR ''-'');
          s2 = (if s1 \<noteq> [] \<and> (hd s1 = CHR ''-'' \<or> hd s1 = CHR ''+'') then tl s1 else s1);
          ds = takeWhile is_hex (hex_prefix s2);
          v = min (num_val 16 ds) (2 ^ 64 - 1)
      in if ds = [] then None else Some (word_of_int (if neg then - v else v)))"

definition parse_address :: "string \<Rightarrow> 64 word option" where
  "parse_address p =
     (case p of
        [] \<Rightarrow> Some (ulong p)
      | c # cs \<Rightarrow>
          if c = CHR ''0'' then
            (case cs of
               [] \<Rightarrow> Some (ulong p)
             | d # ds \<Rightarrow> if d = CHR ''x'' then scan_hex ds else if is_digit d then Some (ulong p) else None)
          else Some (ulong p))"

definition pcos_ranges :: "64 word \<Rightarrow> 64 word \<Rightarrow> 64 word \<Rightarrow> 64 word \<Rightarrow> bool" where
  "pcos_ranges C N np nd \<longleftrightarrow> C < 8 \<and> 1 \<le> N \<and> N < 24 \<and> np < 16 \<and> 1 \<le> nd \<and> nd < 24"

text \<open>The cycles the three programs have in common: clear inhibit, clear of the 4299, and the three words.\<close>

definition pcos_send :: "64 word \<Rightarrow> 64 word \<Rightarrow> 64 word \<Rightarrow> 64 word \<Rightarrow> 64 word \<Rightarrow> camac \<Rightarrow> int \<times> camac" where
  "pcos_send C N w1 w2 w3 s =
     (case CNAF C 30 0 17 0 s of (r1, s1) \<Rightarrow>
      case CNAF C N 0 9 (r_dat r1) s1 of (r2, s2) \<Rightarrow>
      case CNAF C N 0 16 w1 s2 of (r3, s3) \<Rightarrow>
      case CNAF C N 0 16 w2 s3 of (r4, s4) \<Rightarrow>
      case CNAF C N 0 16 w3 s4 of (r5, s5) \<Rightarrow>
        (if r_status r1 \<noteq> 0 \<or> r_status r2 \<noteq> 0 \<or> r_status r3 \<noteq> 0 \<or> r_status r4 \<noteq> 0 \<or> r_status r5 \<noteq> 0 then -1 else 0, s5))"

definition SET_ADDRESS :: "64 word" where "SET_ADDRESS = 0x02"
definition SET_THRESHOLD :: "64 word" where "SET_THRESHOLD = 0x04"
definition SET_DELAY :: "64 word" where "SET_DELAY = 0x0c"

definition pcos_setaddress :: "string list \<Rightarrow> bool \<Rightarrow> camac \<Rightarrow> int \<times> camac" where
  "pcos_setaddress args opened s =
     (if length args \<noteq> 5 then (-1, s)
      else
        let C = ulong (args ! 0); N = ulong (args ! 1); np = ulong (args ! 2); nd = ulong (args ! 3)
        in case parse_address (args ! 4) of
             None \<Rightarrow> (-1, s)
           | Some addr \<Rightarrow>
               if \<not> pcos_ranges C N np nd \<or> 0x01FF < addr \<or> \<not> opened then (-1, s)
               else pcos_send C N (push_bit 10 np OR SET_ADDRESS) (0x8000 OR (addr AND 0x00ff))
                      ((0x8000 OR push_bit 3 nd) OR (drop_bit 8 addr AND 0x0001)) s)"

text \<open>
  The conversion of the voltage or time, with its range test, is floating point arithmetic on the result of \<^verbatim>\<open>atof\<close> and a
  parameter: \<open>None\<close> is out of range.
\<close>

definition pcos_threshold :: "(string \<Rightarrow> 64 word option) \<Rightarrow> string list \<Rightarrow> bool \<Rightarrow> camac \<Rightarrow> int \<times> camac" where
  "pcos_threshold conv args opened s =
     (if length args \<noteq> 5 then (1, s)
      else
        let C = ulong (args ! 0); N = ulong (args ! 1); np = ulong (args ! 2); nd = ulong (args ! 3)
        in if \<not> pcos_ranges C N np nd then (-1, s)
           else
             (case conv (args ! 4) of
                None \<Rightarrow> (-1, s)
              | Some v \<Rightarrow>
                  let ithr = v AND 0x00FF
                  in if \<not> opened then (-1, s)
                     else pcos_send C N (push_bit 10 np OR SET_THRESHOLD) (0x8000 OR ithr) (0x8001 OR push_bit 3 nd) s))"

definition pcos_delay :: "(string \<Rightarrow> 64 word option) \<Rightarrow> string list \<Rightarrow> bool \<Rightarrow> camac \<Rightarrow> int \<times> camac" where
  "pcos_delay conv args opened s =
     (if length args \<noteq> 5 then (1, s)
      else
        let C = ulong (args ! 0); N = ulong (args ! 1); np = ulong (args ! 2); nd = ulong (args ! 3)
        in if \<not> pcos_ranges C N np nd then (-1, s)
           else
             (case conv (args ! 4) of
                None \<Rightarrow> (-1, s)
              | Some v \<Rightarrow>
                  let idelay = v AND 0x00FF
                  in if \<not> opened then (-1, s)
                     else pcos_send C N (push_bit 10 np OR SET_DELAY) (0x8000 OR idelay) (0x8000 OR push_bit 3 nd) s))"

section \<open>Memory look up units\<close>

definition Dim16 :: "64 word" where "Dim16 = 0x00"
definition Dim12 :: "64 word" where "Dim12 = 0x04"
definition UV_ModeStrobe :: "64 word" where "UV_ModeStrobe = 0x40"
definition UV_ModeInhibit :: "64 word" where "UV_ModeInhibit = 0x50"
definition XUV_ModeStrobe :: "64 word" where "XUV_ModeStrobe = 0x00"
definition XUV_ModeInhibit :: "64 word" where "XUV_ModeInhibit = 0x10"

text \<open>\<^verbatim>\<open>short\<close> arithmetic.\<close>

definition c_short :: "int \<Rightarrow> int" where
  "c_short i = sint (word_of_int i :: 16 word)"

definition getDataFromWindow :: "int \<Rightarrow> int \<Rightarrow> int \<Rightarrow> bool" where
  "getDataFromWindow r2 x1 x2 \<longleftrightarrow> c_int (x1 * x1 + x2 * x2) \<ge> r2"

text \<open>The table of the \<open>uv\<close> program, the offsets of the \<open>xuv\<close> program and its table.\<close>

definition uv_getData :: "int \<Rightarrow> int \<Rightarrow> int \<Rightarrow> int \<Rightarrow> int \<Rightarrow> bool" where
  "uv_getData r2 ofs1 ofs2 x1 x2 =
     (let y1 = (x1 - ofs1) AND 0x00FF; y2 = (x2 - ofs2) AND 0x00FF;
          z1 = (if y1 \<ge> 128 then y1 - 256 else y1); z2 = (if y2 \<ge> 128 then y2 - 256 else y2)
      in getDataFromWindow r2 z1 z2)"

definition table_word :: "(nat \<Rightarrow> bool) \<Rightarrow> 64 word" where
  "table_word g = fold (\<lambda>j data. if g j then data OR push_bit j 1 else data) [0 ..< 16] 0"

definition uv_word :: "int \<Rightarrow> int \<Rightarrow> int \<Rightarrow> nat \<Rightarrow> 64 word" where
  "uv_word r2 ofs1 ofs2 i =
     table_word (\<lambda>j. uv_getData r2 ofs1 ofs2 (int i AND 0x00FF) ((drop_bit 8 (int i) AND 0x000F) OR push_bit 4 (int j)))"

text \<open>Offsets between \<open>X=7\<close> (index 7) and \<open>X=-8\<close> (index 8).\<close>

definition xuv_offsets :: "int \<Rightarrow> int \<Rightarrow> nat \<Rightarrow> int" where
  "xuv_offsets o8 o7 k =
     (if k \<le> 7 then o7 - c_div ((o7 - o8) * int (7 - k)) 15 else o8 + c_div ((o7 - o8) * int (k - 8)) 15)"

definition xuv_getData :: "int \<Rightarrow> (nat \<Rightarrow> int) \<Rightarrow> (nat \<Rightarrow> int) \<Rightarrow> int \<Rightarrow> int \<Rightarrow> nat \<Rightarrow> bool" where
  "xuv_getData r2 du dv u3 v3 x = getDataFromWindow r2 (c_short (u3 - du x)) (c_short (v3 - dv x))"

definition signed6 :: "int \<Rightarrow> int" where
  "signed6 u = (if u \<ge> 0x20 then u - 0x40 else u)"

definition xuv_word :: "int \<Rightarrow> (nat \<Rightarrow> int) \<Rightarrow> (nat \<Rightarrow> int) \<Rightarrow> nat \<Rightarrow> 64 word" where
  "xuv_word r2 du dv i =
     table_word (\<lambda>j. xuv_getData r2 du dv (signed6 (int i AND 0x3f)) (signed6 (drop_bit 6 (int i) AND 0x3f)) j)"

text \<open>
  The loop that loads the table calls \<^verbatim>\<open>CNAF(mem, C, N, F, A, ...)\<close> with \<open>F=16\<close> and \<open>A=0\<close>: the subaddress is 16 and the function 0.
  It stops at the first error.
\<close>

fun mlu_load_loop :: "64 word \<Rightarrow> 64 word \<Rightarrow> (nat \<Rightarrow> 64 word) \<Rightarrow> nat list \<Rightarrow> camac \<Rightarrow> camac" where
  "mlu_load_loop C N tab [] s = s"
| "mlu_load_loop C N tab (i # is) s =
     (case CNAF C N 16 0 (tab i) s of (r, s') \<Rightarrow> if r_status r \<noteq> 0 then s' else mlu_load_loop C N tab is s')"

text \<open>Both programs: inhibit, address register, table, end of the inhibit.\<close>

definition mlu_load :: "64 word \<Rightarrow> 64 word \<Rightarrow> (nat \<Rightarrow> 64 word) \<Rightarrow> 64 word \<Rightarrow> 64 word \<Rightarrow> camac \<Rightarrow> int \<times> camac" where
  "mlu_load inhibit mode tab C N s =
     (case CNAF C N 2 16 (inhibit OR Dim12) s of (r1, s1) \<Rightarrow>
        if r_status r1 \<noteq> 0 then (-1, s1)
        else
          case CNAF C N 1 16 0 s1 of (r2, s2) \<Rightarrow>
            if r_status r2 \<noteq> 0 then (-1, s2)
            else
              case CNAF C N 2 16 (mode OR Dim16) (mlu_load_loop C N tab [0 ..< 0x1000] s2) of (r3, s3) \<Rightarrow>
                (if r_status r3 \<noteq> 0 then -1 else 0, s3))"

definition mlu_main :: "(64 word \<Rightarrow> 64 word \<Rightarrow> camac \<Rightarrow> int \<times> camac) \<Rightarrow> string list \<Rightarrow> bool \<Rightarrow> camac \<Rightarrow> int \<times> camac" where
  "mlu_main load args opened s =
     (if length args \<noteq> 2 then (-1, s)
      else if \<not> opened then (-1, s)
      else load (ulong (args ! 0)) (ulong (args ! 1)) s)"

text \<open>The radius is squared in an \<^verbatim>\<open>int\<close>.\<close>

definition mlu_uv :: "int \<Rightarrow> int \<Rightarrow> int \<Rightarrow> string list \<Rightarrow> bool \<Rightarrow> camac \<Rightarrow> int \<times> camac" where
  "mlu_uv r ofs1 ofs2 = mlu_main (mlu_load UV_ModeInhibit UV_ModeStrobe (uv_word (c_int (r * r)) ofs1 ofs2))"

definition mlu_xuv :: "int \<Rightarrow> int \<times> int \<Rightarrow> int \<times> int \<Rightarrow> string list \<Rightarrow> bool \<Rightarrow> camac \<Rightarrow> int \<times> camac" where
  "mlu_xuv r u v =
     mlu_main (mlu_load XUV_ModeInhibit XUV_ModeStrobe
       (xuv_word (c_int (r * r)) (xuv_offsets (fst u) (snd u)) (xuv_offsets (fst v) (snd v))))"

text \<open>
  The program that prints the memory. After an error it closes the window and still makes the cycle that ends the inhibit:
  \<open>None\<close> is this access to a window that is no longer mapped.
\<close>

fun mlu_dump_loop :: "64 word \<Rightarrow> 64 word \<Rightarrow> nat \<Rightarrow> 64 word \<Rightarrow> camac \<Rightarrow> (64 word list \<times> camac) option" where
  "mlu_dump_loop C N 0 data s = Some ([], s)"
| "mlu_dump_loop C N (Suc n) data s =
     (case CNAF C N 0 0 data s of (r, s') \<Rightarrow>
        if r_status r \<noteq> 0 then None
        else map_option (\<lambda>(xs, s''). ((r_dat r AND 0xFFFF) # xs, s'')) (mlu_dump_loop C N n (r_dat r) s'))"

definition mlu_dump :: "64 word \<Rightarrow> 64 word \<Rightarrow> camac \<Rightarrow> (int \<times> 64 word list \<times> camac) option" where
  "mlu_dump C N s =
     (case CNAF C N 2 16 (XUV_ModeInhibit OR Dim16) s of (r1, s1) \<Rightarrow>
        if r_status r1 \<noteq> 0 then Some (-1, [], s1)
        else
          case CNAF C N 1 16 0 s1 of (r2, s2) \<Rightarrow>
            if r_status r2 \<noteq> 0 then Some (-1, [], s2)
            else
              (case mlu_dump_loop C N 0x10000 (r_dat r2) s2 of
                 None \<Rightarrow> None
               | Some (xs, s3) \<Rightarrow>
                   case CNAF C N 2 16 (XUV_ModeStrobe OR Dim16) s3 of (r4, s4) \<Rightarrow>
                     Some (if r_status r4 \<noteq> 0 then -1 else 0, xs, s4)))"

section \<open>LeCroy 2366\<close>

text \<open>
  The bytes that are loaded: the 16 first bytes are skipped, then everything up to the first byte 0xff, and the position goes back
  by one; without such a byte this is the last byte of the file.
\<close>

definition bit_file :: "byte list \<Rightarrow> byte list" where
  "bit_file bs =
     (let rest = drop 16 bs
      in case dropWhile (\<lambda>b. b \<noteq> 0xff) rest of
           [] \<Rightarrow> drop (max 16 (length bs) - 1) bs
         | c # cs \<Rightarrow> c # cs)"

fun xilinx_bytes :: "64 word \<Rightarrow> 64 word \<Rightarrow> byte list \<Rightarrow> camac \<Rightarrow> camac" where
  "xilinx_bytes C N [] s = s"
| "xilinx_bytes C N (b # bs) s =
     (let s1 = snd (CNAF C N 0 16 (ucast b) s); s2 = snd (CNAF C N 0 12 1 s1) in xilinx_bytes C N bs s2)"

text \<open>
  \<open>file\<close> is the file, \<open>None\<close> when it cannot be opened. Of all results only X of the cycle that starts the programming is looked at.
\<close>

definition xilinx_load :: "string list \<Rightarrow> bool \<Rightarrow> byte list option \<Rightarrow> camac \<Rightarrow> int \<times> camac" where
  "xilinx_load args opened file s =
     (if length args < 3 then (-1, s)
      else if \<not> opened then (1, s)
      else
        (case file of
           None \<Rightarrow> (-1, s)
         | Some bs \<Rightarrow>
             let C = word_of_int (c_short (atoi (args ! 0))); N = word_of_int (c_short (atoi (args ! 1)));
                 s1 = snd (cSetClear C s); s2 = snd (CNAF C N 0 9 1 s1); s3 = snd (CNAF C N 0 30 1 s2); s4 = snd (CNAF C N 0 28 1 s3)
             in case CNAF C N 0 25 1 s4 of (r, s5) \<Rightarrow>
                  if r_x r = 0 then (-1, s5)
                  else (0, xilinx_bytes C N (bit_file bs) (snd (CNAF C N 0 14 1 s5)))))"

section \<open>Cycles of a ready controller\<close>

lemma ready_polls:
  assumes "ready d"
  shows "poll (csr d) K2917_CSR_RDY err MAX_RETRY k = (Got (csr d k), k + 1)" "poll (csr d) K2917_CSR_DONE err MAX_RETRY k = (Got (csr d k), k + 1)"
  using assms poll_found [of 0 MAX_RETRY "csr d" k] by (simp_all add: ready_def MAX_RETRY_def)

lemma CNAF_ready:
  assumes "all_ready s" and "naf_ok C N A F"
  obtains r s' where "CNAF C N A F dat s = (r, s')" and "r_status r = 0" and "r_q r = 1" and "r_x r = 1"
    and "bus_cycles s' = bus_cycles s @ [asked C N A F dat]" and "all_ready s'"
    and "F AND 0x18 \<noteq> 0 \<longrightarrow> r_dat r = dat"
proof -
  let ?d = "k_ans s (length (k_log s))"
  have rd: "ready ?d"
    using assms(1) by (simp add: all_ready_def)
  have resp: "responds ?d F"
    by (simp add: responds_def ready_polls [OF rd])
  obtain r ws where r: "cnaf ?d C N A F dat = (r, ws)" "r_status r = 0" "command_of ws = asked C N A F dat"
    "r_dat r = (if F AND 0x18 = 0 then ucast (dlr ?d) + push_bit 16 (ucast (dhr ?d AND 0x00ff)) else dat)"
    "r_q r = no_qx (final_csr ?d F) K2917_CSR_NOQ" "r_x r = no_qx (final_csr ?d F) K2917_CSR_NOX"
    using assms(2) resp unfolding naf_ok_def asked_def
    by (elim conjE) (rule cnaf_command [of C N A F ?d dat]; blast)
  obtain i where "final_csr ?d F = csr ?d i"
    by (rule final_csr_read [OF resp])
  then have "r_q r = 1" "r_x r = 1"
    using r(5,6) rd by (simp_all add: no_qx_def ready_def)
  with r assms(1) show thesis
    by (intro that [of r "s\<lparr>k_log := k_log s @ [ws]\<rparr>"]) (simp_all add: CNAF_def bus_cycles_def all_ready_def)
qed

text \<open>Sums of words whose bits do not overlap.\<close>

lemma unat_or_add:
  fixes a b :: "64 word"
  assumes "a AND b = 0" and "unat a + unat b < 2 ^ 64"
  shows "unat (a OR b) = unat a + unat b"
proof -
  have "a OR b = a + b"
    using word_plus_and_or [of a b] assms(1) by simp
  then have "unat (a OR b) = (unat a + unat b) mod 2 ^ 64"
    by (simp add: unat_word_ariths)
  then show ?thesis
    using assms(2) by simp
qed

lemma unat_push_or:
  fixes x y :: "64 word"
  assumes "unat y < 2 ^ n" and "unat x * 2 ^ n + 2 ^ n \<le> 2 ^ 64"
  shows "unat (push_bit n x OR y) = unat x * 2 ^ n + unat y"
proof -
  have "take_bit n (unat y) = unat y"
    using assms(1) by (simp add: take_bit_nat_eq_self)
  then have y: "take_bit n y = y"
    by (simp only: word_unat_eq_iff unsigned_take_bit_eq)
  have "push_bit n x AND take_bit n y = 0"
    by (rule bit_word_eqI) (auto simp: bit_simps)
  moreover have "unat (push_bit n x) = unat x * 2 ^ n"
  proof -
    have "unat x * 2 ^ n < 2 ^ 64"
      using assms by (meson add_strict_left_mono le_less_trans less_le_trans not_add_less1 not_le zero_less_power zero_less_numeral less_add_same_cancel1)
    then show ?thesis
      by (simp only: unsigned_push_bit_eq) (simp add: push_bit_eq_mult take_bit_eq_mod)
  qed
  ultimately show ?thesis
    using unat_or_add [of "push_bit n x" y] assms y by simp
qed

lemma unat_and_ff: "unat (v AND 0xff) = unat v mod 256" "unat (v AND 1) = unat v mod 2" for v :: "64 word"
proof -
  have m: "v AND 0xff = take_bit 8 v" "v AND 1 = take_bit 1 v"
    using take_bit_eq_mask [of 8 v] take_bit_eq_mask [of 1 v] by (simp_all add: mask_eq_exp_minus_1)
  show "unat (v AND 0xff) = unat v mod 256" "unat (v AND 1) = unat v mod 2"
    by (simp_all only: m unsigned_take_bit_eq) (simp_all add: take_bit_eq_mod)
qed

lemma word_8000: "(0x8000 :: 64 word) = push_bit 15 1"
  by simp

lemma unat_less_numeral: "v < numeral k \<Longrightarrow> unat v < unat (numeral k :: 64 word)" for v :: "64 word"
  by (simp only: word_less_nat_alt)

section \<open>What the programs do\<close>

lemma pcos_send_ready:
  assumes "all_ready s" and "C < 8" and "N < 24"
  shows "\<exists>s'. pcos_send C N w1 w2 w3 s = (0, s') \<and>
    bus_cycles s' = bus_cycles s @ [asked C 30 0 17 0, asked C N 0 9 0, asked C N 0 16 w1, asked C N 0 16 w2, asked C N 0 16 w3]"
proof -
  have ok: "naf_ok C 30 0 17" "naf_ok C N 0 9" "naf_ok C N 0 16"
    using less_trans [OF assms(2), of 256] less_trans [OF assms(3), of 128] by (simp_all add: naf_ok_def)
  obtain r1 s1 where 1: "CNAF C 30 0 17 0 s = (r1, s1)" "r_status r1 = 0" "bus_cycles s1 = bus_cycles s @ [asked C 30 0 17 0]" "all_ready s1"
    and d: "(17 :: 64 word) AND 0x18 \<noteq> 0 \<longrightarrow> r_dat r1 = 0"
    by (rule CNAF_ready [OF assms(1) ok(1), of 0])
  from d have r1: "r_dat r1 = 0"
    by simp
  obtain r2 s2 where 2: "CNAF C N 0 9 0 s1 = (r2, s2)" "r_status r2 = 0" "bus_cycles s2 = bus_cycles s1 @ [asked C N 0 9 0]" "all_ready s2"
    by (rule CNAF_ready [OF 1(4) ok(2), of 0])
  obtain r3 s3 where 3: "CNAF C N 0 16 w1 s2 = (r3, s3)" "r_status r3 = 0" "bus_cycles s3 = bus_cycles s2 @ [asked C N 0 16 w1]" "all_ready s3"
    by (rule CNAF_ready [OF 2(4) ok(3), of w1])
  obtain r4 s4 where 4: "CNAF C N 0 16 w2 s3 = (r4, s4)" "r_status r4 = 0" "bus_cycles s4 = bus_cycles s3 @ [asked C N 0 16 w2]" "all_ready s4"
    by (rule CNAF_ready [OF 3(4) ok(3), of w2])
  obtain r5 s5 where 5: "CNAF C N 0 16 w3 s4 = (r5, s5)" "r_status r5 = 0" "bus_cycles s5 = bus_cycles s4 @ [asked C N 0 16 w3]"
    by (rule CNAF_ready [OF 4(4) ok(3), of w3])
  show ?thesis
    using 1 2 3 4 5 r1 by (simp add: pcos_send_def)
qed

text \<open>The words of the three programs.\<close>

lemma pcos_word1:
  fixes np k :: "64 word"
  assumes "np < 16" and "unat k < 1024"
  shows "unat (push_bit 10 np OR k) = unat np * 1024 + unat k"
  using unat_push_or [of k 10 np] unat_less_numeral [OF assms(1)] assms(2) by simp

lemma pcos_word2: "unat (0x8000 OR (v AND 0x00ff)) = 0x8000 + unat v mod 256" for v :: "64 word"
  unfolding word_8000 using unat_push_or [of "v AND 0xff" 15 1] by (simp add: unat_and_ff)

lemma pcos_word3:
  fixes nd v :: "64 word"
  assumes "nd < 24"
  shows "unat ((0x8000 OR push_bit 3 nd) OR (drop_bit 8 v AND 1)) = 0x8000 + unat nd * 8 + unat v div 256 mod 2"
proof -
  have n: "unat nd < 24"
    using unat_less_numeral [OF assms] by simp
  have b: "unat (drop_bit 8 v AND 1) = unat v div 256 mod 2"
    by (simp only: unat_and_ff unat_drop_bit_eq) (simp add: drop_bit_eq_div)
  have i: "unat (push_bit 3 nd OR (drop_bit 8 v AND 1)) = unat nd * 8 + unat v div 256 mod 2"
    using unat_push_or [of "drop_bit 8 v AND 1" 3 nd] n by (simp only: b) simp
  then have "unat (push_bit 3 nd OR (drop_bit 8 v AND 1)) < 2 ^ 15"
    using n by simp
  from unat_push_or [OF this, of 1] i show ?thesis
    unfolding word_8000 or.assoc by simp
qed

lemma asked_write: "F AND 0x18 = 0x10 \<Longrightarrow> unat w < 2 ^ 32 \<Longrightarrow> asked C N A F w = Some (unat C, unat N, unat A, unat F, Some (unat w))"
  by (simp add: asked_def)

text \<open>A call with subaddress 16 and function 0 is one for the next station.\<close>

lemma cnaf_sixteen: "cnaf d C N 16 0 dat = cnaf d C (N + 1) 0 0 dat"
proof -
  have "push_bit 9 N + push_bit 5 16 + 0 = push_bit 9 (N + 1) + push_bit 5 0 + 0"
    by (simp add: push_bit_eq_mult algebra_simps)
  then show ?thesis
    by (simp only: cnaf_def cnaf_setup_def)
qed

lemma mlu_load_loop_ready:
  assumes "all_ready s" and "C < 8" and "N < 24"
  shows "all_ready (mlu_load_loop C N tab is s) \<and>
    bus_cycles (mlu_load_loop C N tab is s) = bus_cycles s @ replicate (length is) (asked C (N + 1) 0 0 0)"
  using assms(1)
proof (induction "is" arbitrary: s)
  case (Cons i "is")
  have "unat (N + 1) < 128"
    using unat_less_numeral [OF assms(3)] by (simp add: unat_word_ariths)
  then have ok: "naf_ok C (N + 1) 0 0"
    using less_trans [OF assms(2), of 256] by (simp add: naf_ok_def word_less_nat_alt)
  obtain r s' where r: "CNAF C (N + 1) 0 0 (tab i) s = (r, s')" "r_status r = 0"
    "bus_cycles s' = bus_cycles s @ [asked C (N + 1) 0 0 (tab i)]" "all_ready s'"
    by (rule CNAF_ready [OF Cons.prems ok, of "tab i"])
  have "CNAF C N 16 0 (tab i) s = (r, s')"
    using r(1) by (simp only: CNAF_def cnaf_sixteen)
  moreover have "asked C (N + 1) 0 0 (tab i) = asked C (N + 1) 0 0 0"
    by (simp add: asked_def)
  ultimately show ?case
    using r Cons.IH [OF r(4)] by simp
qed simp

lemma xilinx_bytes_ready:
  assumes "all_ready s" and "C < 8" and "N < 24"
  shows "all_ready (xilinx_bytes C N bs s) \<and>
    bus_cycles (xilinx_bytes C N bs s) = bus_cycles s @ concat (map (\<lambda>b. [asked C N 0 16 (ucast b), asked C N 0 12 1]) bs)"
  using assms(1)
proof (induction bs arbitrary: s)
  case (Cons b bs)
  have ok: "naf_ok C N 0 16" "naf_ok C N 0 12"
    using less_trans [OF assms(2), of 256] less_trans [OF assms(3), of 128] by (simp_all add: naf_ok_def)
  obtain r1 s1 where 1: "CNAF C N 0 16 (ucast b) s = (r1, s1)" "bus_cycles s1 = bus_cycles s @ [asked C N 0 16 (ucast b)]" "all_ready s1"
    by (rule CNAF_ready [OF Cons.prems ok(1), of "ucast b"])
  obtain r2 s2 where 2: "CNAF C N 0 12 1 s1 = (r2, s2)" "bus_cycles s2 = bus_cycles s1 @ [asked C N 0 12 1]" "all_ready s2"
    by (rule CNAF_ready [OF 1(3) ok(2), of 1])
  show ?case
    using 1 2 Cons.IH [OF 2(3)] by simp
qed simp

section \<open>Properties\<close>

text \<open>An accepted call of pcos-setaddress makes five CAMAC cycles, clear inhibit, clear and three writes, whose words carry the number of
  the PCOS III system with the code for an address, and the logical address and the station in their places.\<close>

theorem pcos_address_is_sent:
  assumes "parse_address a = Some addr" and "pcos_ranges (ulong c) (ulong n) (ulong p) (ulong d)" and "addr \<le> 0x1ff" and "all_ready s"
  shows "\<exists>s'. pcos_setaddress [c, n, p, d, a] True s = (0, s') \<and> bus_cycles s' = bus_cycles s @
    map (\<lambda>(n', f, dat). Some (unat (ulong c), n', 0, f, dat))
      [(30, 17, Some 0), (unat (ulong n), 9, None), (unat (ulong n), 16, Some (unat (ulong p) * 2 ^ 10 + 2)),
       (unat (ulong n), 16, Some (0x8000 + unat addr mod 256)), (unat (ulong n), 16, Some (0x8000 + unat (ulong d) * 2 ^ 3 + unat addr div 256))]"
proof -
  have r: "ulong c < 8" "ulong n < 24" "ulong p < 16" "ulong d < 24"
    using assms(2) by (simp_all add: pcos_ranges_def)
  have "unat addr \<le> 511"
    using assms(3) by (simp add: word_le_nat_alt)
  then have "unat addr div 256 mod 2 = unat addr div 256"
    by auto
  then have w: "unat (push_bit 10 (ulong p) OR SET_ADDRESS) = unat (ulong p) * 2 ^ 10 + 2"
    "unat ((0x8000 OR push_bit 3 (ulong d)) OR (drop_bit 8 addr AND 0x0001)) = 0x8000 + unat (ulong d) * 2 ^ 3 + unat addr div 256"
    using pcos_word1 [OF r(3), of SET_ADDRESS] pcos_word3 [OF r(4), of addr] by (simp_all add: SET_ADDRESS_def)
  have b: "unat (ulong p) < 16" "unat (ulong d) < 24"
    using unat_less_numeral [OF r(3)] unat_less_numeral [OF r(4)] by simp_all
  have "asked (ulong c) (ulong n) 0 16 (push_bit 10 (ulong p) OR SET_ADDRESS) = Some (unat (ulong c), unat (ulong n), 0, 16, Some (unat (ulong p) * 2 ^ 10 + 2))"
    "asked (ulong c) (ulong n) 0 16 (0x8000 OR (addr AND 0x00ff)) = Some (unat (ulong c), unat (ulong n), 0, 16, Some (0x8000 + unat addr mod 256))"
    "asked (ulong c) (ulong n) 0 16 ((0x8000 OR push_bit 3 (ulong d)) OR (drop_bit 8 addr AND 0x0001))
      = Some (unat (ulong c), unat (ulong n), 0, 16, Some (0x8000 + unat (ulong d) * 2 ^ 3 + unat addr div 256))"
    using b \<open>unat addr \<le> 511\<close> by (simp_all add: asked_def w pcos_word2)
  moreover have "asked (ulong c) 30 0 17 0 = Some (unat (ulong c), 30, 0, 17, Some 0)" "asked (ulong c) (ulong n) 0 9 0 = Some (unat (ulong c), unat (ulong n), 0, 9, None)"
    by (simp_all add: asked_def)
  moreover obtain s' where "pcos_send (ulong c) (ulong n) (push_bit 10 (ulong p) OR SET_ADDRESS) (0x8000 OR (addr AND 0x00ff))
      ((0x8000 OR push_bit 3 (ulong d)) OR (drop_bit 8 addr AND 0x0001)) s = (0, s')"
    "bus_cycles s' = bus_cycles s @ [asked (ulong c) 30 0 17 0, asked (ulong c) (ulong n) 0 9 0, asked (ulong c) (ulong n) 0 16 (push_bit 10 (ulong p) OR SET_ADDRESS),
      asked (ulong c) (ulong n) 0 16 (0x8000 OR (addr AND 0x00ff)),
      asked (ulong c) (ulong n) 0 16 ((0x8000 OR push_bit 3 (ulong d)) OR (drop_bit 8 addr AND 0x0001))]"
    using pcos_send_ready [OF assms(4) r(1,2)] by blast
  ultimately show ?thesis
    using assms(1-3) by (intro exI [of _ s']) (simp add: pcos_setaddress_def Let_def not_less)
qed

definition demo_camac :: camac where
  "demo_camac = \<lparr>k_ans = (\<lambda>i. \<lparr>csr = (\<lambda>j. 0x0180), dhr = 0, dlr = 0x1234\<rparr>), k_log = []\<rparr>"

lemma demo_camac_ready: "all_ready demo_camac"
  by (simp add: all_ready_def ready_def demo_camac_def K2917_CSR_RDY_def K2917_CSR_DONE_def K2917_CSR_NOX_def K2917_CSR_NOQ_def)

lemma demo_camac_bus_cycles [simp]: "bus_cycles demo_camac = []"
  by (simp add: bus_cycles_def demo_camac_def)

theorem pcos_address_is_sent_witness:
  "\<exists>s'. pcos_setaddress [''6'', ''14'', ''3'', ''23'', ''0x1a5''] True demo_camac = (0, s') \<and>
     bus_cycles s' ! 2 = Some (6, 14, 0, 16, Some 0xc02) \<and> bus_cycles s' ! 3 = Some (6, 14, 0, 16, Some 0x80a5) \<and> bus_cycles s' ! 4 = Some (6, 14, 0, 16, Some 0x80b9)"
proof -
  have u: "ulong ''6'' = 6" "ulong ''14'' = 14" "ulong ''3'' = 3" "ulong ''23'' = 23" "parse_address ''0x1a5'' = Some 0x1a5"
    by code_simp+
  have "pcos_ranges (ulong ''6'') (ulong ''14'') (ulong ''3'') (ulong ''23'')"
    by (simp add: u pcos_ranges_def)
  from pcos_address_is_sent [OF u(5) this _ demo_camac_ready] show ?thesis
    by (auto simp: u)
qed

text \<open>C36: The programs that load a memory look up unit never write to it: whatever the table, the 4096 cycles of the load are reads of the
  next station in the crate, because subaddress and function are exchanged in the call.\<close>

theorem mlu_table_is_never_written:
  assumes "all_ready s" and "C < 8" and "N < 24"
  shows "\<exists>s'. mlu_load inhibit mode tab C N s = (0, s') \<and>
    bus_cycles s' = bus_cycles s @ [asked C N 2 16 (inhibit OR Dim12), asked C N 1 16 0] @
      replicate 4096 (Some (unat C, unat N + 1, 0, 0, None)) @ [asked C N 2 16 (mode OR Dim16)]"
proof -
  have ok: "naf_ok C N 2 16" "naf_ok C N 1 16"
    using less_trans [OF assms(2), of 256] less_trans [OF assms(3), of 128] by (simp_all add: naf_ok_def)
  obtain r1 s1 where 1: "CNAF C N 2 16 (inhibit OR Dim12) s = (r1, s1)" "r_status r1 = 0" "bus_cycles s1 = bus_cycles s @ [asked C N 2 16 (inhibit OR Dim12)]" "all_ready s1"
    by (rule CNAF_ready [OF assms(1) ok(1), of "inhibit OR Dim12"])
  obtain r2 s2 where 2: "CNAF C N 1 16 0 s1 = (r2, s2)" "r_status r2 = 0" "bus_cycles s2 = bus_cycles s1 @ [asked C N 1 16 0]" "all_ready s2"
    by (rule CNAF_ready [OF 1(4) ok(2), of 0])
  define s3 where "s3 = mlu_load_loop C N tab [0 ..< 0x1000] s2"
  have 3: "all_ready s3" "bus_cycles s3 = bus_cycles s2 @ replicate 4096 (asked C (N + 1) 0 0 0)"
    using mlu_load_loop_ready [OF 2(4) assms(2,3), of tab "[0 ..< 0x1000]"] by (simp_all add: s3_def del: upt_rec_numeral)
  obtain r4 s4 where 4: "CNAF C N 2 16 (mode OR Dim16) s3 = (r4, s4)" "r_status r4 = 0" "bus_cycles s4 = bus_cycles s3 @ [asked C N 2 16 (mode OR Dim16)]"
    by (rule CNAF_ready [OF 3(1) ok(1), of "mode OR Dim16"])
  have "asked C (N + 1) 0 0 0 = Some (unat C, unat N + 1, 0, 0, None)"
    using unat_less_numeral [OF assms(3)] by (simp add: asked_def unat_word_ariths)
  with 1 2 3 4 show ?thesis
    by (simp add: mlu_load_def s3_def [symmetric])
qed

theorem mlu_table_is_never_written_witness:
  "\<exists>s'. mlu_load UV_ModeInhibit UV_ModeStrobe (uv_word 100 3 4) 6 20 demo_camac = (0, s') \<and> length (bus_cycles s') = 4099 \<and>
     set (take 4096 (drop 2 (bus_cycles s'))) = {Some (6, 21, 0, 0, None)}"
proof -
  have "(6 :: 64 word) < 8" "(20 :: 64 word) < 24"
    by simp_all
  from mlu_table_is_never_written [OF demo_camac_ready this, of UV_ModeInhibit UV_ModeStrobe "uv_word 100 3 4"] obtain s' where
    s': "mlu_load UV_ModeInhibit UV_ModeStrobe (uv_word 100 3 4) 6 20 demo_camac = (0, s')" "bus_cycles s' = [asked 6 20 2 16 (UV_ModeInhibit OR Dim12), asked 6 20 1 16 0] @
      replicate 4096 (Some (6, 21, 0, 0, None)) @ [asked 6 20 2 16 (UV_ModeStrobe OR Dim16)]"
    by auto
  then show ?thesis
    by (intro exI [of _ s']) simp
qed

text \<open>The threshold and delay programs differ from it in the code and in the lowest bit of the last word.\<close>

theorem pcos_values_are_sent:
  assumes "conv a = Some v" and "pcos_ranges (ulong c) (ulong n) (ulong p) (ulong d)" and "all_ready s"
  shows "\<exists>s1 s2. pcos_threshold conv [c, n, p, d, a] True s = (0, s1) \<and> pcos_delay conv [c, n, p, d, a] True s = (0, s2) \<and>
    drop (length (bus_cycles s) + 2) (bus_cycles s1) =
      [asked (ulong c) (ulong n) 0 16 (push_bit 10 (ulong p) OR 4), asked (ulong c) (ulong n) 0 16 (0x8000 OR (v AND 0xff)),
       asked (ulong c) (ulong n) 0 16 (0x8001 OR push_bit 3 (ulong d))] \<and>
    drop (length (bus_cycles s) + 2) (bus_cycles s2) =
      [asked (ulong c) (ulong n) 0 16 (push_bit 10 (ulong p) OR 0xc), asked (ulong c) (ulong n) 0 16 (0x8000 OR (v AND 0xff)),
       asked (ulong c) (ulong n) 0 16 (0x8000 OR push_bit 3 (ulong d))]"
proof -
  have r: "ulong c < 8" "ulong n < 24"
    using assms(2) by (simp_all add: pcos_ranges_def)
  obtain s1 where "pcos_send (ulong c) (ulong n) (push_bit 10 (ulong p) OR SET_THRESHOLD) (0x8000 OR (v AND 0x00ff)) (0x8001 OR push_bit 3 (ulong d)) s = (0, s1)"
    "bus_cycles s1 = bus_cycles s @ [asked (ulong c) 30 0 17 0, asked (ulong c) (ulong n) 0 9 0, asked (ulong c) (ulong n) 0 16 (push_bit 10 (ulong p) OR SET_THRESHOLD),
      asked (ulong c) (ulong n) 0 16 (0x8000 OR (v AND 0x00ff)), asked (ulong c) (ulong n) 0 16 (0x8001 OR push_bit 3 (ulong d))]"
    using pcos_send_ready [OF assms(3) r] by blast
  moreover obtain s2 where "pcos_send (ulong c) (ulong n) (push_bit 10 (ulong p) OR SET_DELAY) (0x8000 OR (v AND 0x00ff)) (0x8000 OR push_bit 3 (ulong d)) s = (0, s2)"
    "bus_cycles s2 = bus_cycles s @ [asked (ulong c) 30 0 17 0, asked (ulong c) (ulong n) 0 9 0, asked (ulong c) (ulong n) 0 16 (push_bit 10 (ulong p) OR SET_DELAY),
      asked (ulong c) (ulong n) 0 16 (0x8000 OR (v AND 0x00ff)), asked (ulong c) (ulong n) 0 16 (0x8000 OR push_bit 3 (ulong d))]"
    using pcos_send_ready [OF assms(3) r] by blast
  ultimately show ?thesis
    using assms(1,2) by (intro exI [of _ s1] exI [of _ s2]) (simp add: pcos_threshold_def pcos_delay_def Let_def SET_THRESHOLD_def SET_DELAY_def)
qed

theorem pcos_values_are_sent_witness:
  "\<exists>s1 s2. pcos_threshold (\<lambda>a. Some 100) [''6'', ''14'', ''3'', ''23'', ''3.0''] True demo_camac = (0, s1) \<and>
     pcos_delay (\<lambda>a. Some 100) [''6'', ''14'', ''3'', ''23'', ''450''] True demo_camac = (0, s2) \<and>
     tl (tl (bus_cycles s1)) ! 1 = Some (6, 14, 0, 16, Some 0x8064) \<and> tl (tl (bus_cycles s2)) ! 2 = Some (6, 14, 0, 16, Some 0x80b8)"
proof -
  have u: "ulong ''6'' = 6" "ulong ''14'' = 14" "ulong ''3'' = 3" "ulong ''23'' = 23"
    by code_simp+
  have "pcos_ranges (ulong ''6'') (ulong ''14'') (ulong ''3'') (ulong ''23'')"
    by (simp add: u pcos_ranges_def)
  from pcos_values_are_sent [of "\<lambda>a. Some 100" "''3.0''" 100, OF _ this demo_camac_ready]
    pcos_values_are_sent [of "\<lambda>a. Some 100" "''450''" 100, OF _ this demo_camac_ready] show ?thesis
    by (auto simp: u asked_def drop_Suc)
qed

text \<open>The loader of the gate arrays sends exactly the bytes of the file from the first byte 0xff behind the 16 first bytes on, in order and
  each with one write cycle followed by a cycle of function 12, after the six cycles that start the programming.\<close>

theorem xilinx_file_is_sent:
  assumes "all_ready s" and "C < 8" and "N < 24" and "ulong16 = (\<lambda>str. word_of_int (c_short (atoi str)) :: 64 word)"
    and "ulong16 c = C" and "ulong16 n = N" and "bs = hdr @ comment @ 0xff # data" and "length hdr = 16" and "0xff \<notin> set comment"
  shows "\<exists>s'. xilinx_load (c # n # rest # xs) True (Some bs) s = (0, s') \<and> bus_cycles s' = bus_cycles s @
    [asked C 30 0 17 0, asked C N 0 9 1, asked C N 0 30 1, asked C N 0 28 1, asked C N 0 25 1, asked C N 0 14 1] @
    concat (map (\<lambda>b. [Some (unat C, unat N, 0, 16, Some (unat b)), Some (unat C, unat N, 0, 12, None)]) (0xff # data))"
proof -
  have ok: "naf_ok C 30 0 17" "naf_ok C N 0 9" "naf_ok C N 0 30" "naf_ok C N 0 28" "naf_ok C N 0 25" "naf_ok C N 0 14"
    using less_trans [OF assms(2), of 256] less_trans [OF assms(3), of 128] by (simp_all add: naf_ok_def)
  obtain r1 s1 where 1: "CNAF C 30 0 17 0 s = (r1, s1)" "bus_cycles s1 = bus_cycles s @ [asked C 30 0 17 0]" "all_ready s1"
    by (rule CNAF_ready [OF assms(1) ok(1), of 0])
  obtain r2 s2 where 2: "CNAF C N 0 9 1 s1 = (r2, s2)" "bus_cycles s2 = bus_cycles s1 @ [asked C N 0 9 1]" "all_ready s2"
    by (rule CNAF_ready [OF 1(3) ok(2), of 1])
  obtain r3 s3 where 3: "CNAF C N 0 30 1 s2 = (r3, s3)" "bus_cycles s3 = bus_cycles s2 @ [asked C N 0 30 1]" "all_ready s3"
    by (rule CNAF_ready [OF 2(3) ok(3), of 1])
  obtain r4 s4 where 4: "CNAF C N 0 28 1 s3 = (r4, s4)" "bus_cycles s4 = bus_cycles s3 @ [asked C N 0 28 1]" "all_ready s4"
    by (rule CNAF_ready [OF 3(3) ok(4), of 1])
  obtain r5 s5 where 5: "CNAF C N 0 25 1 s4 = (r5, s5)" "r_x r5 = 1" "bus_cycles s5 = bus_cycles s4 @ [asked C N 0 25 1]" "all_ready s5"
    by (rule CNAF_ready [OF 4(3) ok(5), of 1])
  obtain r6 s6 where 6: "CNAF C N 0 14 1 s5 = (r6, s6)" "bus_cycles s6 = bus_cycles s5 @ [asked C N 0 14 1]" "all_ready s6"
    by (rule CNAF_ready [OF 5(4) ok(6), of 1])
  have "bit_file bs = 0xff # data"
    using assms(7-9) by (simp add: bit_file_def dropWhile_append)
  moreover have "asked C N 0 16 (ucast b) = Some (unat C, unat N, 0, 16, Some (unat b))" "asked C N 0 12 1 = Some (unat C, unat N, 0, 12, None)" for b :: byte
  proof -
    have "unat b < 2 ^ LENGTH(8)"
      by (rule unsigned_less)
    then show "asked C N 0 16 (ucast b) = Some (unat C, unat N, 0, 16, Some (unat b))"
      by (simp add: asked_def unsigned_ucast_eq take_bit_eq_mod)
  qed (simp add: asked_def)
  ultimately show ?thesis
    using 1 2 3 4 5 6 xilinx_bytes_ready [OF 6(3) assms(2,3), of "0xff # data"] assms(4-6)
    by (simp add: xilinx_load_def cSetClear_def Let_def del: xilinx_bytes.simps)
qed

theorem xilinx_file_is_sent_witness:
  "\<exists>s'. xilinx_load [''6'', ''14'', ''file''] True (Some (replicate 16 0 @ [1, 2] @ [0xff, 7])) demo_camac = (0, s') \<and>
     drop 6 (bus_cycles s') = [Some (6, 14, 0, 16, Some 255), Some (6, 14, 0, 12, None), Some (6, 14, 0, 16, Some 7), Some (6, 14, 0, 12, None)]"
proof -
  have u: "word_of_int (c_short (atoi ''6'')) = (6 :: 64 word)" "word_of_int (c_short (atoi ''14'')) = (14 :: 64 word)"
    by code_simp+
  have c: "(6 :: 64 word) < 8" "(14 :: 64 word) < 24"
    by simp_all
  from xilinx_file_is_sent [OF demo_camac_ready c refl u refl, where hdr = "replicate 16 0" and comment = "[1, 2]" and data = "[7]" and rest = "''file''" and xs = "[]"] show ?thesis
    by auto
qed

text \<open>After a read error mlu-dump uses the window it has closed.\<close>

theorem mlu_dump_uses_closed_window:
  assumes "ready (k_ans s (length (k_log s)))" and "ready (k_ans s (length (k_log s) + 1))"
    and "\<not> responds (k_ans s (length (k_log s) + 2)) 0"
  shows "mlu_dump C N s = None"
proof -
  have ok: "r_status (fst (cnaf d C N A 16 dat)) = 0" if "ready d" for d A dat
    by (simp add: cnaf_def cnaf_write_def ready_polls [OF that] cnaf_ok_def Let_def)
  have st: "k_ans (snd (CNAF C N A F dat t)) = k_ans t"
    "length (k_log (snd (CNAF C N A F dat t))) = length (k_log t) + 1"
    "fst (CNAF C N A F dat t) = fst (cnaf (k_ans t (length (k_log t))) C N A F dat)" for A F dat t
    by (simp_all add: CNAF_def case_prod_unfold)
  define s1 where "s1 = snd (CNAF C N 2 16 (XUV_ModeInhibit OR Dim16) s)"
  define s2 where "s2 = snd (CNAF C N 1 16 0 s1)"
  have 1: "r_status (fst (CNAF C N 2 16 (XUV_ModeInhibit OR Dim16) s)) = 0" "length (k_log s1) = length (k_log s) + 1" "k_ans s1 = k_ans s"
    using ok [OF assms(1)] by (simp_all add: st s1_def)
  have 2: "r_status (fst (CNAF C N 1 16 0 s1)) = 0" "length (k_log s2) = length (k_log s) + 2" "k_ans s2 = k_ans s"
    using ok [OF assms(2)] 1(2,3) by (simp_all add: st s2_def)
  have "r_status (fst (CNAF C N 0 0 dat s2)) = -1" for dat
    using cnaf_no_answer [OF assms(3), of C N 0 dat] 2(2,3) by (simp add: st cnaf_error_def)
  then have "mlu_dump_loop C N (Suc n) dat s2 = None" for n dat
    by (simp add: case_prod_unfold)
  then have "mlu_dump_loop C N (Suc 65535) dat s2 = None" for dat
    by blast
  moreover have "Suc 65535 = 0x10000"
    by simp
  ultimately have "mlu_dump_loop C N 0x10000 dat s2 = None" for dat
    by (metis (no_types))
  then show ?thesis
    using 1(1) 2(1) by (simp add: mlu_dump_def case_prod_unfold flip: s1_def s2_def)
qed

theorem mlu_dump_uses_closed_window_witness:
  "mlu_dump 6 14 \<lparr>k_ans = (\<lambda>i. if i < 2 then k_ans demo_camac 0 else \<lparr>csr = (\<lambda>j. 0), dhr = 0, dlr = 0\<rparr>), k_log = []\<rparr> = None"
proof (rule mlu_dump_uses_closed_window)
  have "\<not> responds \<lparr>csr = (\<lambda>j. 0), dhr = 0, dlr = 0\<rparr> 0"
    by code_simp
  then show "\<not> responds (k_ans \<lparr>k_ans = (\<lambda>i. if i < 2 then k_ans demo_camac 0 else \<lparr>csr = (\<lambda>j. 0), dhr = 0, dlr = 0\<rparr>), k_log = []\<rparr>
      (length (k_log \<lparr>k_ans = (\<lambda>i. if i < 2 then k_ans demo_camac 0 else \<lparr>csr = (\<lambda>j. 0), dhr = 0, dlr = 0\<rparr>), k_log = []\<rparr>) + 2)) 0"
    by simp
qed (use demo_camac_ready in \<open>simp_all add: all_ready_def\<close>)

end
