(* ===== verification/Init3377.thy ===== *)
theory Init3377
  imports Camac_Tools
begin

text \<open>
  The program that sets up the drift chamber TDCs LeCroy 3377 over CAMAC (\<^verbatim>\<open>init3377/init3377.c\<close>): the dialogue about the
  parameters, the register words made from them and the cycles for every module.
\<close>

section \<open>Parameters\<close>

record prm =
  stop :: int
  word2 :: int
  hdr :: int
  mbuf :: int
  ecl :: int
  edge :: int
  res :: int
  mpi :: int
  trcu :: int
  trdel :: int
  trwid :: int
  hits :: int
  dly :: int
  tmo :: int
  test :: int
  tclk :: int
  npul :: int
  scl :: int
  ofs :: int

text \<open>The initial values, with those of \<^verbatim>\<open>gr.c\<close> for the full scale and the offset.\<close>

definition prm_init :: prm where
  "prm_init = \<lparr>stop = 1, word2 = 0, hdr = 1, mbuf = 0, ecl = 1, edge = 0, res = 1, mpi = 3, trcu = 2, trdel = 15, trwid = 1,
     hits = 3, dly = 0, tmo = 1023, test = 0, tclk = 0, npul = 0, scl = 1023, ofs = 0\<rparr>"

section \<open>The dialogue\<close>

text \<open>
  \<open>g_str\<close> is the array into which \<^verbatim>\<open>fgets\<close> reads, as a string; at the end of the input it keeps what it has. \<open>g_inp\<close> are the
  lines of the input as the calls of \<^verbatim>\<open>fgets\<close> deliver them.
\<close>

record dialogue =
  g_prm :: prm
  g_str :: string
  g_inp :: "string list"

definition getline :: "dialogue \<Rightarrow> dialogue" where
  "getline g = (case g_inp g of [] \<Rightarrow> g | l # ls \<Rightarrow> g\<lparr>g_str := l, g_inp := ls\<rparr>)"

definition char0 :: "string \<Rightarrow> char" where
  "char0 str = (case str of [] \<Rightarrow> CHR 0x00 | c # cs \<Rightarrow> c)"

text \<open>A question with a digit from 1 to \<open>n\<close>, a question answered by y or n, and one with a number.\<close>

definition ask_digit :: "nat \<Rightarrow> (int \<Rightarrow> prm \<Rightarrow> prm) \<Rightarrow> dialogue \<Rightarrow> dialogue" where
  "ask_digit n upd g =
     (let g1 = getline g; c = (of_char (char0 (g_str g1)) :: nat)
      in if 49 \<le> c \<and> c \<le> 48 + n then g1\<lparr>g_prm := upd (int c - 49) (g_prm g1)\<rparr> else g1)"

definition ask_yes :: "(prm \<Rightarrow> int) \<Rightarrow> (int \<Rightarrow> prm \<Rightarrow> prm) \<Rightarrow> dialogue \<Rightarrow> dialogue" where
  "ask_yes old upd g =
     (let g1 = getline (g\<lparr>g_str := (if old (g_prm g) \<noteq> 0 then ''y'' else ''n'')\<rparr>); c = char0 (g_str g1)
      in g1\<lparr>g_prm := upd (if c = CHR ''y'' \<or> c = CHR ''Y'' then 1 else if c = CHR ''n'' \<or> c = CHR ''N'' then 0 else old (g_prm g)) (g_prm g1)\<rparr>)"

definition ask_number :: "(string \<Rightarrow> bool) \<Rightarrow> (int \<Rightarrow> bool) \<Rightarrow> (int \<Rightarrow> prm \<Rightarrow> prm) \<Rightarrow> dialogue \<Rightarrow> dialogue" where
  "ask_number given good upd g =
     (let g1 = getline g; tmp = c_int (atoi (g_str g1))
      in if given (g_str g1) \<and> good tmp then g1\<lparr>g_prm := upd tmp (g_prm g1)\<rparr> else g1)"

definition digit_given :: "string \<Rightarrow> bool" where
  "digit_given str \<longleftrightarrow> is_digit (char0 str)"

definition any_given :: "string \<Rightarrow> bool" where
  "any_given str \<longleftrightarrow> char0 str \<noteq> CHR 0x00"

text \<open>The first part of \<^verbatim>\<open>setprm\<close>, up to the number of hits.\<close>

definition set_modes :: "dialogue \<Rightarrow> dialogue" where
  "set_modes g =
     (let g1 = ask_digit 2 (\<lambda>v p. p\<lparr>stop := v\<rparr>) g;
          g2 = ask_digit 2 (\<lambda>v p. p\<lparr>word2 := v\<rparr>) g1;
          g3 = ask_yes hdr (\<lambda>v p. p\<lparr>hdr := v\<rparr>) g2;
          g4 = ask_yes mbuf (\<lambda>v p. p\<lparr>mbuf := v\<rparr>) g3;
          g5 = ask_yes ecl (\<lambda>v p. p\<lparr>ecl := v\<rparr>) g4;
          g6 = ask_yes edge (\<lambda>v p. p\<lparr>edge := v\<rparr>) g5
      in if word2 (g_prm g6) \<noteq> 0 then getline (g6\<lparr>g_prm := (g_prm g6)\<lparr>res := 0\<rparr>\<rparr>)
         else ask_digit 4 (\<lambda>v p. p\<lparr>res := v\<rparr>) g6)"

definition set_trigger :: "dialogue \<Rightarrow> dialogue" where
  "set_trigger g =
     (let g1 = ask_digit 4 (\<lambda>v p. p\<lparr>mpi := v\<rparr>) g;
          g2 = ask_digit 4 (\<lambda>v p. p\<lparr>trcu := v\<rparr>) g1;
          g3 = ask_number digit_given (\<lambda>v. 0 \<le> v \<and> v \<le> 15) (\<lambda>v p. p\<lparr>trwid := v\<rparr>) g2;
          g4 = ask_number digit_given (\<lambda>v. 0 \<le> v \<and> v \<le> 15) (\<lambda>v p. p\<lparr>trdel := v\<rparr>) g3
      in ask_number (\<lambda>_. True) (\<lambda>v. 1 \<le> v \<and> v \<le> 16) (\<lambda>v p. p\<lparr>hits := v\<rparr>) g4)"

text \<open>The smallest offset, less one, for the window of the module.\<close>

definition min_offset :: "prm \<Rightarrow> int" where
  "min_offset p = scl p - (if word2 p \<noteq> 0 then 32768 else push_bit (nat (res p)) (if edge p \<noteq> 0 then 256 else 512))"

definition fit_offset :: "prm \<Rightarrow> prm" where
  "fit_offset p =
     (let p1 = (if ofs p \<le> min_offset p then p\<lparr>ofs := min_offset p + 1\<rparr> else p)
      in if ofs p1 > scl p1 then p1\<lparr>ofs := scl p1\<rparr> else p1)"

definition fit_timeout :: "prm \<Rightarrow> prm" where
  "fit_timeout p =
     (let p1 = (if tmo p < 0 then p\<lparr>tmo := 0\<rparr> else p)
      in if tmo p1 \<ge> scl p1 then p1\<lparr>tmo := scl p1 - 1\<rparr> else p1)"

text \<open>
  The rest: full scale, offset, delay, and for common start the time out and the test mode. The closing brace of the question for the offset
  stands at the end of the function: the number that is typed is not used, and everything behind it is skipped for an empty string.
\<close>

definition set_test :: "dialogue \<Rightarrow> dialogue" where
  "set_test g =
     (let g1 = g\<lparr>g_prm := fit_timeout (g_prm g)\<rparr>;
          g2 = ask_number any_given (\<lambda>v. 0 \<le> v \<and> v \<le> scl (g_prm g1)) (\<lambda>v p. p\<lparr>tmo := c_div v 50 * 50\<rparr>) g1;
          g3 = ask_yes test (\<lambda>v p. p\<lparr>test := v\<rparr>) g2
      in if test (g_prm g3) \<noteq> 0
         then ask_number any_given (\<lambda>v. 0 \<le> v \<and> v \<le> 31) (\<lambda>v p. p\<lparr>npul := v\<rparr>) (ask_digit 4 (\<lambda>v p. p\<lparr>tclk := v\<rparr>) g3)
         else g3)"

definition set_times :: "dialogue \<Rightarrow> dialogue" where
  "set_times g =
     (let g1 = ask_number any_given (\<lambda>v. 0 \<le> v \<and> v < 32768) (\<lambda>v p. p\<lparr>scl := v\<rparr>) g;
          m = min_offset (g_prm g1);
          g2 = getline (g1\<lparr>g_prm := fit_offset (g_prm g1)\<rparr>)
      in if any_given (g_str g2) then
           (let g3 = ask_number any_given (\<lambda>v. m \<le> v \<and> v \<le> 30) (\<lambda>v p. p\<lparr>dly := v AND 0x1e\<rparr>) g2
            in if stop (g_prm g3) = 0 then set_test g3 else g3)
         else g2)"

definition setprm :: "dialogue \<Rightarrow> dialogue" where
  "setprm g = set_times (set_trigger (set_modes g))"

text \<open>
  \<^verbatim>\<open>checkprm\<close>: the answer to the last question is read until it is y, n or q; with n the dialogue is repeated. The result says whether
  q was chosen. At the end of the input the loop never ends unless the array already holds y or q (\<open>None\<close>). The array of \<^verbatim>\<open>setprm\<close>
  is a variable of its own, whose first contents are \<open>junk\<close>.
\<close>

definition shorter :: "dialogue \<Rightarrow> dialogue \<Rightarrow> bool" where
  "shorter g h \<longleftrightarrow> length (g_inp g) \<le> length (g_inp h)"

lemma shorter_steps:
  "shorter g g"
  "shorter g h \<Longrightarrow> shorter (getline g) h"
  "shorter g h \<Longrightarrow> shorter (g\<lparr>g_prm := p\<rparr>) h"
  "shorter g h \<Longrightarrow> shorter (ask_digit n u g) h"
  "shorter g h \<Longrightarrow> shorter (ask_yes old u g) h"
  "shorter g h \<Longrightarrow> shorter (ask_number gv gd u g) h"
  "(c \<Longrightarrow> shorter g h) \<Longrightarrow> (\<not> c \<Longrightarrow> shorter g' h) \<Longrightarrow> shorter (if c then g else g') h"
  by (auto simp: shorter_def getline_def ask_digit_def ask_yes_def ask_number_def Let_def split: list.splits)

lemma setprm_shorter: "shorter (setprm g) g"
  unfolding setprm_def set_times_def set_test_def set_trigger_def set_modes_def Let_def
  by (intro shorter_steps)

function checkprm :: "bool \<Rightarrow> string \<Rightarrow> dialogue \<Rightarrow> (bool \<times> dialogue) option" where
  "checkprm silent junk g =
     (if silent then Some (False, g)
      else if g_inp g = [] then
        (let c = char0 (g_str g)
         in if c = CHR ''q'' \<or> c = CHR ''Q'' then Some (True, g) else if c = CHR ''y'' \<or> c = CHR ''Y'' then Some (False, g) else None)
      else
        (let g1 = getline g; c = char0 (g_str g1)
         in if c = CHR ''q'' \<or> c = CHR ''Q'' then Some (True, g1)
            else if c = CHR ''y'' \<or> c = CHR ''Y'' then Some (False, g1)
            else if c = CHR ''n'' \<or> c = CHR ''N'' then
              (let g2 = setprm (g1\<lparr>g_str := junk\<rparr>) in checkprm silent junk (g2\<lparr>g_str := g_str g1\<rparr>))
            else checkprm silent junk g1))"
  by pat_completeness auto
termination
proof (relation "measure (\<lambda>(silent, junk, g). length (g_inp g))", goal_cases)
  case (2 silent junk g g1 c g2)
  then show ?case
    using setprm_shorter [of "g1\<lparr>g_str := junk\<rparr>"] by (cases "g_inp g") (auto simp: shorter_def getline_def)
next
  case (3 silent junk g g1 c)
  then show ?case
    by (cases "g_inp g") (auto simp: getline_def)
qed simp

section \<open>Register words\<close>

definition code0 :: "int \<Rightarrow> int \<Rightarrow> int \<Rightarrow> int \<Rightarrow> int \<Rightarrow> int \<Rightarrow> int" where
  "code0 a b c d e f =
     (((((push_bit 13 (a AND 1) OR push_bit 12 (b AND 1)) OR push_bit 11 (c AND 1)) OR push_bit 10 (d AND 1)) OR push_bit 8 (e AND 3)) OR (f AND 0x00ff))"

definition code1 :: "int \<Rightarrow> int \<Rightarrow> int \<Rightarrow> int \<Rightarrow> int \<Rightarrow> int \<Rightarrow> int" where
  "code1 a b c d e f =
     (((((push_bit 13 (a AND 3) OR push_bit 12 (b AND 1)) OR push_bit 10 (c AND 3)) OR push_bit 8 (d AND 3)) OR push_bit 4 (e AND 0x000f)) OR (f AND 0x000f))"

definition code2 :: "int \<Rightarrow> int \<Rightarrow> int" where
  "code2 a b = (push_bit 4 (a AND 0x0fff) OR (b AND 0x000f))"

definition code3 :: "int \<Rightarrow> int \<Rightarrow> int" where
  "code3 a b = (push_bit 4 (a AND 0x0fff) OR (b AND 0x000f))"

definition code4 :: "int \<Rightarrow> int" where
  "code4 a = (a AND 0x01ff)"

definition code5 :: "int \<Rightarrow> int \<Rightarrow> int \<Rightarrow> int" where
  "code5 a b c = ((push_bit 8 (a AND 1) OR push_bit 5 (b AND 3)) OR (c AND 0x001f))"

text \<open>\<^verbatim>\<open>code\<close> is an \<^verbatim>\<open>unsigned short\<close>, which is then assigned to \<^verbatim>\<open>data\<close>.\<close>

definition as_code :: "int \<Rightarrow> 64 word" where
  "as_code v = ucast (word_of_int v :: 16 word)"

section \<open>Set up of the modules\<close>

record module =
  m_c :: int
  m_n :: int
  m_id :: int

text \<open>
  The loops that repeat a cycle until Q, or the write of register 0 until X, is there. They may never end; \<open>fuel\<close> is the number of
  cycles that are looked at.
\<close>

fun wait_q :: "nat \<Rightarrow> 64 word \<Rightarrow> 64 word \<Rightarrow> 64 word \<Rightarrow> 64 word \<Rightarrow> camac \<Rightarrow> (64 word \<times> camac) option" where
  "wait_q 0 C N F data s = None"
| "wait_q (Suc n) C N F data s =
     (case CNAF C N 0 F data s of (r, s') \<Rightarrow> if r_q r = 1 then Some (r_dat r, s') else wait_q n C N F (r_dat r) s')"

fun write_x :: "nat \<Rightarrow> 64 word \<Rightarrow> 64 word \<Rightarrow> 64 word \<Rightarrow> camac \<Rightarrow> (64 word \<times> camac) option" where
  "write_x 0 C N code s = None"
| "write_x (Suc n) C N code s =
     (case CNAF C N 0 17 code s of (r, s') \<Rightarrow> if r_x r = 1 then Some (r_dat r, s') else write_x n C N code s')"

text \<open>A cycle whose result is only the data, and the write of a register with its verification: the numbers of the registers that do not
  hold what was written are kept, where the program prints a message.\<close>

definition cycle :: "64 word \<Rightarrow> 64 word \<Rightarrow> 64 word \<Rightarrow> 64 word \<Rightarrow> 64 word \<times> camac \<Rightarrow> 64 word \<times> camac" where
  "cycle C N F A ds = (case CNAF C N A F (fst ds) (snd ds) of (r, s') \<Rightarrow> (r_dat r, s'))"

definition verify :: "64 word \<Rightarrow> 64 word \<Rightarrow> 64 word \<Rightarrow> 64 word \<Rightarrow> 64 word list \<times> 64 word \<times> camac \<Rightarrow> 64 word list \<times> 64 word \<times> camac" where
  "verify C N A code bds =
     (case cycle C N 1 A (snd bds) of (data, s') \<Rightarrow> (if code \<noteq> data then fst bds @ [A] else fst bds, data, s'))"

definition set_reg :: "64 word \<Rightarrow> 64 word \<Rightarrow> 64 word \<Rightarrow> 64 word \<Rightarrow> 64 word list \<times> 64 word \<times> camac \<Rightarrow> 64 word list \<times> 64 word \<times> camac" where
  "set_reg C N A code bds = verify C N A code (fst bds, cycle C N 17 A (code, snd (snd bds)))"

text \<open>The choice of the program in the memory of the module.\<close>

definition set_eprom :: "prm \<Rightarrow> 64 word \<Rightarrow> 64 word \<Rightarrow> 64 word \<times> camac \<Rightarrow> 64 word \<times> camac" where
  "set_eprom p C N ds =
     (if stop p \<noteq> 0 then (if word2 p \<noteq> 0 then cycle C N 22 0 ds else ds)
      else if word2 p \<noteq> 0 then cycle C N 21 0 ds else cycle C N 23 0 ds)"

definition load_program :: "nat \<Rightarrow> prm \<Rightarrow> 64 word \<Rightarrow> 64 word \<Rightarrow> 64 word \<times> camac \<Rightarrow> (64 word \<times> camac) option" where
  "load_program fuel p C N ds =
     Option.bind (wait_q fuel C N 12 (fst ds) (snd ds)) (\<lambda>ds1.
     let ds2 = cycle C N 25 0 (set_eprom p C N ds1) in
     Option.bind (wait_q fuel C N 13 (fst ds2) (snd ds2)) (\<lambda>ds3.
     Some (cycle C N 9 0 (cycle C N 28 0 ds3))))"

definition set_registers :: "nat \<Rightarrow> prm \<Rightarrow> module \<Rightarrow> 64 word \<Rightarrow> 64 word \<Rightarrow> 64 word \<times> camac \<Rightarrow> (64 word list \<times> 64 word \<times> camac) option" where
  "set_registers fuel p m C N ds =
     (let k0 = as_code (code0 (if m_id m = 0 then 0 else hdr p) (mbuf p) (ecl p) (edge p) (res p) (m_id m)) in
      Option.bind (write_x fuel C N k0 (snd ds)) (\<lambda>ds1.
      Some (set_reg C N 3 (as_code (code3 (c_div (ofs p) 8) 0))
           (set_reg C N 2 (as_code (code2 (c_div (scl p) 8) (hits p AND 0x0f)))
           (set_reg C N 1 (as_code (code1 0 0 (mpi p) (trcu p) (trdel p) (trwid p)))
           (verify C N 0 k0 ([], ds1)))))))"

text \<open>
  One module. \<open>err\<close> is the variable \<^verbatim>\<open>error\<close>, which is never set; in common start mode it is tested. \<open>Inl\<close> is an \<^verbatim>\<open>exit\<close>.
\<close>

definition start_registers :: "prm \<Rightarrow> 64 word \<Rightarrow> 64 word \<Rightarrow> 64 word \<times> camac \<Rightarrow> 64 word \<times> camac" where
  "start_registers p C N ds =
     (let ds1 = cycle C N 17 4 (as_code (code4 (c_div (tmo p) 50)), snd ds)
      in cycle C N 17 5 (as_code (code5 (test p) (tclk p) (npul p)), snd ds1))"

definition setup_module :: "nat \<Rightarrow> int \<Rightarrow> prm \<Rightarrow> module \<Rightarrow> camac \<Rightarrow> (int \<times> camac + 64 word list \<times> camac) option" where
  "setup_module fuel err p m s =
     (let C = word_of_int (c_short (m_c m)); N = word_of_int (c_short (m_n m)) in
      case CNAF C N 0 1 0 (snd (cSetClear C s)) of (r1, s1) \<Rightarrow>
      if r_x r1 = 0 then Some (Inl (1, s1))
      else case CNAF C N 0 30 (r_dat r1) s1 of (r2, s2) \<Rightarrow>
      if r_x r2 = 0 then Some (Inl (1, s2))
      else Option.bind (load_program fuel p C N (r_dat r2, s2)) (\<lambda>ds3.
        Option.bind (set_registers fuel p m C N ds3) (\<lambda>(bad, ds4).
          let ds5 = (if stop p = 0 then start_registers p C N ds4 else ds4)
          in if stop p = 0 \<and> err \<noteq> 0 then Some (Inl (1, snd ds5))
             else Some (Inr (bad, snd (cycle C N 26 0 (cycle C N 26 1 (cycle C N 9 0 ds5))))))))"

text \<open>The loop over the modules, which ends with \<^verbatim>\<open>exit\<close>. Behind the end of the table nothing is known.\<close>

fun setup3377 :: "nat \<Rightarrow> int \<Rightarrow> prm \<Rightarrow> module list \<Rightarrow> camac \<Rightarrow> (int \<times> camac) option" where
  "setup3377 fuel err p [] s = None"
| "setup3377 fuel err p (m # ms) s =
     (if c_short (m_c m) = -1 then Some (0, s)
      else if c_short (m_c m) < -1 then Some (1, s)
      else
        (case setup_module fuel err p m s of
           None \<Rightarrow> None
         | Some (Inl e) \<Rightarrow> Some e
         | Some (Inr (bad, s')) \<Rightarrow> setup3377 fuel err p ms s'))"

text \<open>\<^verbatim>\<open>main\<close>: the window, the dialogue, and the set up. Since \<^verbatim>\<open>setup\<close> never returns, the question whether to try again is never asked.\<close>

definition init3377_main :: "nat \<Rightarrow> int \<Rightarrow> string \<Rightarrow> string list \<Rightarrow> bool \<Rightarrow> prm \<Rightarrow> module list \<Rightarrow> string list \<Rightarrow> camac \<Rightarrow> (int \<times> camac) option" where
  "init3377_main fuel err junk args opened p ms inp s =
     (if args \<noteq> [] \<and> args ! 0 = ''-h'' then Some (0, s)
      else if \<not> opened then Some (1, s)
      else
        (case checkprm (args \<noteq> [] \<and> args ! 0 = ''-y'') junk \<lparr>g_prm = p, g_str = junk, g_inp = inp\<rparr> of
           None \<Rightarrow> None
         | Some (quit, g) \<Rightarrow> if quit then Some (0, s) else setup3377 fuel err (g_prm g) ms s))"

section \<open>The parameters stay in their ranges\<close>

definition flag :: "int \<Rightarrow> bool" where
  "flag v \<longleftrightarrow> v = 0 \<or> v = 1"

definition prm_ok :: "prm \<Rightarrow> bool" where
  "prm_ok p \<longleftrightarrow> flag (stop p) \<and> flag (word2 p) \<and> flag (hdr p) \<and> flag (mbuf p) \<and> flag (ecl p) \<and> flag (edge p) \<and> flag (test p) \<and>
     0 \<le> res p \<and> res p < 4 \<and> 0 \<le> mpi p \<and> mpi p < 4 \<and> 0 \<le> trcu p \<and> trcu p < 4 \<and> 0 \<le> tclk p \<and> tclk p < 4 \<and>
     0 \<le> trwid p \<and> trwid p < 16 \<and> 0 \<le> trdel p \<and> trdel p < 16 \<and> 1 \<le> hits p \<and> hits p \<le> 16 \<and>
     0 \<le> scl p \<and> scl p < 32768 \<and> 0 \<le> ofs p \<and> ofs p < 32768 \<and> 0 \<le> dly p \<and> dly p \<le> 30 \<and> 0 \<le> npul p \<and> npul p < 32 \<and>
     -1 \<le> tmo p \<and> tmo p < 32768"


lemma getline_prm [simp]: "g_prm (getline g) = g_prm g"
  by (simp add: getline_def split: list.splits)














section \<open>Cycles of the set up\<close>

text \<open>The words of the registers in terms of the parameters.\<close>

lemma or_add: "0 \<le> b \<Longrightarrow> b < 2 ^ n \<Longrightarrow> push_bit n a OR b = a * 2 ^ n + b" for a b :: int
proof -
  assume b: "0 \<le> b" "b < 2 ^ n"
  then have t: "take_bit n b = b"
    by (simp add: take_bit_int_eq_self)
  have "push_bit n a AND take_bit n b = 0"
    by (rule bit_eqI) (auto simp: bit_simps)
  then show ?thesis
    using t plus_and_or [of "push_bit n a" b] by (simp add: push_bit_eq_mult)
qed

lemma and_masks:
  fixes v :: int
  shows "v AND 1 = v mod 2" "v AND 3 = v mod 4" "v AND 0xf = v mod 16" "v AND 0x1f = v mod 32" "v AND 0xff = v mod 256" "v AND 0xfff = v mod 4096"
  using take_bit_eq_mask [of 1 v] take_bit_eq_mask [of 2 v] take_bit_eq_mask [of 4 v] take_bit_eq_mask [of 5 v] take_bit_eq_mask [of 8 v]
    take_bit_eq_mask [of 12 v]
  by (simp_all add: mask_eq_exp_minus_1 take_bit_eq_mod)

lemma or_add_left: "0 \<le> b \<Longrightarrow> b < 2 ^ n \<Longrightarrow> 2 ^ n dvd a \<Longrightarrow> a OR b = a + b" for a b :: int
  using or_add [of b n "a div 2 ^ n"] by (simp add: push_bit_eq_mult)

lemma code0_sum:
  "code0 a b c d e f = a mod 2 * 8192 + b mod 2 * 4096 + c mod 2 * 2048 + d mod 2 * 1024 + e mod 4 * 256 + f mod 256"
proof -
  have "push_bit 13 (a AND 1) OR push_bit 12 (b AND 1) = a mod 2 * 8192 + b mod 2 * 4096"
    unfolding and_masks by (subst or_add_left [of _ 13]) (auto simp: push_bit_eq_mult)
  moreover have "(a mod 2 * 8192 + b mod 2 * 4096) OR push_bit 11 (c AND 1) = a mod 2 * 8192 + b mod 2 * 4096 + c mod 2 * 2048"
    unfolding and_masks by (subst or_add_left [of _ 12]) (auto simp: push_bit_eq_mult intro!: dvd_add)
  moreover have "(a mod 2 * 8192 + b mod 2 * 4096 + c mod 2 * 2048) OR push_bit 10 (d AND 1) = a mod 2 * 8192 + b mod 2 * 4096 + c mod 2 * 2048 + d mod 2 * 1024"
    unfolding and_masks by (subst or_add_left [of _ 11]) (auto simp: push_bit_eq_mult intro!: dvd_add)
  moreover have "(a mod 2 * 8192 + b mod 2 * 4096 + c mod 2 * 2048 + d mod 2 * 1024) OR push_bit 8 (e AND 3)
      = a mod 2 * 8192 + b mod 2 * 4096 + c mod 2 * 2048 + d mod 2 * 1024 + e mod 4 * 256"
    unfolding and_masks by (subst or_add_left [of _ 10]) (auto simp: push_bit_eq_mult intro!: dvd_add)
  moreover have "(a mod 2 * 8192 + b mod 2 * 4096 + c mod 2 * 2048 + d mod 2 * 1024 + e mod 4 * 256) OR (f AND 0xff)
      = a mod 2 * 8192 + b mod 2 * 4096 + c mod 2 * 2048 + d mod 2 * 1024 + e mod 4 * 256 + f mod 256"
    unfolding and_masks by (subst or_add_left [of _ 8]) (auto intro!: dvd_add)
  ultimately show ?thesis
    by (simp add: code0_def)
qed

lemma code1_sum: "code1 0 0 c d e f = c mod 4 * 1024 + d mod 4 * 256 + e mod 16 * 16 + f mod 16"
proof -
  have "(c mod 4 * 1024) OR push_bit 8 (d AND 3) = c mod 4 * 1024 + d mod 4 * 256"
    unfolding and_masks by (subst or_add_left [of _ 10]) (auto simp: push_bit_eq_mult)
  moreover have "(c mod 4 * 1024 + d mod 4 * 256) OR push_bit 4 (e AND 0xf) = c mod 4 * 1024 + d mod 4 * 256 + e mod 16 * 16"
    unfolding and_masks by (subst or_add_left [of _ 8]) (auto simp: push_bit_eq_mult intro!: dvd_add)
  moreover have "(c mod 4 * 1024 + d mod 4 * 256 + e mod 16 * 16) OR (f AND 0xf) = c mod 4 * 1024 + d mod 4 * 256 + e mod 16 * 16 + f mod 16"
    unfolding and_masks by (subst or_add_left [of _ 4]) (auto intro!: dvd_add)
  moreover have "push_bit 10 (c AND 3) = c mod 4 * 1024"
    unfolding and_masks by (simp add: push_bit_eq_mult)
  ultimately show ?thesis
    by (simp add: code1_def)
qed

lemma code2_sum: "code2 a b = a mod 4096 * 16 + b mod 16" "code3 a b = a mod 4096 * 16 + b mod 16"
  unfolding code2_def code3_def and_masks by (simp_all add: or_add)

lemma asked_other: "F AND 0x18 \<noteq> 0x10 \<Longrightarrow> asked C N A F dat = asked C N A F 0"
  by (simp add: asked_def)

lemma cycle_ready:
  assumes "all_ready (snd ds)" and "naf_ok C N A F"
  shows "all_ready (snd (cycle C N F A ds))" "bus_cycles (snd (cycle C N F A ds)) = bus_cycles (snd ds) @ [asked C N A F (fst ds)]"
    "F AND 0x18 \<noteq> 0 \<Longrightarrow> fst (cycle C N F A ds) = fst ds"
proof -
  obtain r s' where "CNAF C N A F (fst ds) (snd ds) = (r, s')" "bus_cycles s' = bus_cycles (snd ds) @ [asked C N A F (fst ds)]" "all_ready s'"
    "F AND 0x18 \<noteq> 0 \<longrightarrow> r_dat r = fst ds"
    by (rule CNAF_ready [OF assms, of "fst ds"]) blast
  then show "all_ready (snd (cycle C N F A ds))" "bus_cycles (snd (cycle C N F A ds)) = bus_cycles (snd ds) @ [asked C N A F (fst ds)]"
    "F AND 0x18 \<noteq> 0 \<Longrightarrow> fst (cycle C N F A ds) = fst ds"
    by (simp_all add: cycle_def)
qed

lemma wait_q_ready:
  assumes "all_ready s" and "naf_ok C N 0 F" and "0 < fuel"
  shows "\<exists>d s'. wait_q fuel C N F data s = Some (d, s') \<and> all_ready s' \<and> bus_cycles s' = bus_cycles s @ [asked C N 0 F data]"
proof -
  obtain n where n: "fuel = Suc n"
    using assms(3) by (cases fuel) auto
  obtain r s' where "CNAF C N 0 F data s = (r, s')" "r_q r = 1" "bus_cycles s' = bus_cycles s @ [asked C N 0 F data]" "all_ready s'"
    by (rule CNAF_ready [OF assms(1,2), of data]) blast
  then show ?thesis
    by (simp add: n)
qed

lemma write_x_ready:
  assumes "all_ready s" and "naf_ok C N 0 17" and "0 < fuel"
  shows "\<exists>d s'. write_x fuel C N code s = Some (d, s') \<and> all_ready s' \<and> bus_cycles s' = bus_cycles s @ [asked C N 0 17 code]"
proof -
  obtain n where n: "fuel = Suc n"
    using assms(3) by (cases fuel) auto
  obtain r s' where "CNAF C N 0 17 code s = (r, s')" "r_x r = 1" "bus_cycles s' = bus_cycles s @ [asked C N 0 17 code]" "all_ready s'"
    by (rule CNAF_ready [OF assms(1,2), of code]) blast
  then show ?thesis
    by (simp add: n)
qed

lemma verify_ready:
  assumes "all_ready (snd (snd x))" and "naf_ok C N A 1"
  shows "all_ready (snd (snd (verify C N A code x)))" "bus_cycles (snd (snd (verify C N A code x))) = bus_cycles (snd (snd x)) @ [asked C N A 1 0]"
  using cycle_ready(1,2) [OF assms] by (simp_all add: verify_def case_prod_unfold asked_def)

lemma set_reg_ready:
  assumes "all_ready (snd (snd x))" and "naf_ok C N A 1" and "naf_ok C N A 17"
  shows "all_ready (snd (snd (set_reg C N A code x)))"
    "bus_cycles (snd (snd (set_reg C N A code x))) = bus_cycles (snd (snd x)) @ [asked C N A 17 code, asked C N A 1 0]"
  using cycle_ready(1,2) [of "(code, snd (snd x))" C N A 17] assms
    verify_ready [of "(fst x, cycle C N 17 A (code, snd (snd x)))" C N A code]
  by (simp_all add: set_reg_def)

lemma as_code_value: "0 \<le> v \<Longrightarrow> v < 65536 \<Longrightarrow> unat (as_code v) = nat v"
  by (simp add: as_code_def unsigned_ucast_eq unat_eq_nat_uint [of "word_of_int v"] uint_word_of_int_eq take_bit_eq_mod)

text \<open>The cycles for a module in common stop mode with single words.\<close>

definition register_words :: "prm \<Rightarrow> module \<Rightarrow> int list" where
  "register_words p m =
     [(if m_id m = 0 then 0 else hdr p) * 8192 + mbuf p * 4096 + ecl p * 2048 + edge p * 1024 + res p * 256 + m_id m mod 256,
      mpi p * 1024 + trcu p * 256 + trdel p * 16 + trwid p,
      scl p div 8 * 16 + hits p mod 16,
      ofs p div 8 * 16]"

definition module_cycles :: "prm \<Rightarrow> module \<Rightarrow> command option list" where
  "module_cycles p m =
     (let cyc = (\<lambda>(a, f, d). Some (nat (m_c m), nat (m_n m), a, f, d)); ws = map (Some \<circ> nat) (register_words p m)
      in Some (nat (m_c m), 30, 0, 17, Some 0) # map cyc
       [(0, 1, None), (0, 30, None), (0, 12, None), (0, 25, None), (0, 13, None), (0, 28, None), (0, 9, None),
        (0, 17, ws ! 0), (0, 1, None), (1, 17, ws ! 1), (1, 1, None), (2, 17, ws ! 2), (2, 1, None), (3, 17, ws ! 3), (3, 1, None),
        (0, 9, None), (1, 26, None), (0, 26, None)])"

definition module_ok :: "module \<Rightarrow> bool" where
  "module_ok m \<longleftrightarrow> 0 \<le> m_c m \<and> m_c m < 8 \<and> 1 \<le> m_n m \<and> m_n m < 24"

lemma flag_bounds: "flag v \<Longrightarrow> 0 \<le> v" "flag v \<Longrightarrow> v \<le> 1" "flag v \<Longrightarrow> v mod 2 = v"
  by (auto simp: flag_def)

lemma code_words:
  assumes "prm_ok p"
  shows "map (\<lambda>v. unat (as_code v)) [code0 (if m_id m = 0 then 0 else hdr p) (mbuf p) (ecl p) (edge p) (res p) (m_id m),
       code1 0 0 (mpi p) (trcu p) (trdel p) (trwid p), code2 (c_div (scl p) 8) (hits p AND 0x0f), code3 (c_div (ofs p) 8) 0]
     = map nat (register_words p m)"
    "\<forall>w\<in>set (register_words p m). 0 \<le> w \<and> w < 65536"
proof -
  have p: "flag (hdr p)" "flag (mbuf p)" "flag (ecl p)" "flag (edge p)" "0 \<le> res p" "res p < 4" "0 \<le> mpi p" "mpi p < 4"
    "0 \<le> trcu p" "trcu p < 4" "0 \<le> trdel p" "trdel p < 16" "0 \<le> trwid p" "trwid p < 16" "0 \<le> scl p" "scl p < 32768" "0 \<le> ofs p" "ofs p < 32768"
    using assms by (simp_all add: prm_ok_def)
  have b: "0 \<le> hdr p" "hdr p \<le> 1" "0 \<le> mbuf p" "mbuf p \<le> 1" "0 \<le> ecl p" "ecl p \<le> 1" "0 \<le> edge p" "edge p \<le> 1"
    using flag_bounds(1,2) p(1-4) by blast+
  have f: "hdr p mod 2 = hdr p" "mbuf p mod 2 = mbuf p" "ecl p mod 2 = ecl p" "edge p mod 2 = edge p" "res p mod 4 = res p" "mpi p mod 4 = mpi p"
    "trcu p mod 4 = trcu p" "trdel p mod 16 = trdel p" "trwid p mod 16 = trwid p" "c_div (scl p) 8 mod 4096 = scl p div 8" "c_div (ofs p) 8 mod 4096 = ofs p div 8"
    using p by (simp_all add: flag_bounds c_div_nonneg pos_imp_zdiv_nonneg_iff)
  have m: "0 \<le> scl p div 8" "scl p div 8 < 4096" "0 \<le> ofs p div 8" "ofs p div 8 < 4096"
    using p(15-18) by (simp_all add: pos_imp_zdiv_nonneg_iff)
  show r: "\<forall>w\<in>set (register_words p m). 0 \<le> w \<and> w < 65536"
  proof -
    define i where "i = m_id m mod 256"
    define h where "h = hits p mod 16"
    have "0 \<le> i" "i < 256" "0 \<le> h" "h < 16"
      by (simp_all add: i_def h_def)
    then show ?thesis
      using m b p(5-14) by (simp add: register_words_def flip: i_def h_def)
  qed
  have e: "[code0 (if m_id m = 0 then 0 else hdr p) (mbuf p) (ecl p) (edge p) (res p) (m_id m),
       code1 0 0 (mpi p) (trcu p) (trdel p) (trwid p), code2 (c_div (scl p) 8) (hits p AND 0x0f), code3 (c_div (ofs p) 8) 0] = register_words p m"
    by (simp add: code0_sum code1_sum code2_sum f register_words_def and_masks)
  have "map (\<lambda>v. unat (as_code v)) (register_words p m) = map nat (register_words p m)"
    using r by (auto simp: as_code_value)
  then show "map (\<lambda>v. unat (as_code v)) [code0 (if m_id m = 0 then 0 else hdr p) (mbuf p) (ecl p) (edge p) (res p) (m_id m),
       code1 0 0 (mpi p) (trcu p) (trdel p) (trwid p), code2 (c_div (scl p) 8) (hits p AND 0x0f), code3 (c_div (ofs p) 8) 0]
     = map nat (register_words p m)"
    by (simp only: e)
qed

lemma asked_codes:
  assumes "prm_ok p"
  shows "asked C N 0 17 (as_code (code0 (if m_id m = 0 then 0 else hdr p) (mbuf p) (ecl p) (edge p) (res p) (m_id m)))
      = Some (unat C, unat N, 0, 17, Some (nat (register_words p m ! 0)))"
    "asked C N 1 17 (as_code (code1 0 0 (mpi p) (trcu p) (trdel p) (trwid p))) = Some (unat C, unat N, 1, 17, Some (nat (register_words p m ! 1)))"
    "asked C N 2 17 (as_code (code2 (c_div (scl p) 8) (hits p AND 0x0f))) = Some (unat C, unat N, 2, 17, Some (nat (register_words p m ! 2)))"
    "asked C N 3 17 (as_code (code3 (c_div (ofs p) 8) 0)) = Some (unat C, unat N, 3, 17, Some (nat (register_words p m ! 3)))"
proof -
  obtain a b c d where r: "register_words p m = [a, b, c, d]"
    by (simp add: register_words_def)
  have w: "a < 65536" "b < 65536" "c < 65536" "d < 65536"
    using code_words(2) [OF assms, of m] by (simp_all add: r)
  have k: "asked C N A 17 v = Some (unat C, unat N, unat A, 17, Some (nat x))" if "unat v = nat x" "x < 65536" for A v x
    using that by (simp add: asked_def)
  note u = code_words(1) [OF assms, of m, unfolded r list.map list.inject]
  show "asked C N 0 17 (as_code (code0 (if m_id m = 0 then 0 else hdr p) (mbuf p) (ecl p) (edge p) (res p) (m_id m)))
      = Some (unat C, unat N, 0, 17, Some (nat (register_words p m ! 0)))"
    "asked C N 1 17 (as_code (code1 0 0 (mpi p) (trcu p) (trdel p) (trwid p))) = Some (unat C, unat N, 1, 17, Some (nat (register_words p m ! 1)))"
    "asked C N 2 17 (as_code (code2 (c_div (scl p) 8) (hits p AND 0x0f))) = Some (unat C, unat N, 2, 17, Some (nat (register_words p m ! 2)))"
    "asked C N 3 17 (as_code (code3 (c_div (ofs p) 8) 0)) = Some (unat C, unat N, 3, 17, Some (nat (register_words p m ! 3)))"
    using k [of _ a 0] k [of _ b 1] k [of _ c 2] k [of _ d 3] u w by (simp_all add: r)
qed

lemma load_program_ready:
  assumes "all_ready (snd ds)" and "naf_ok C N 0 12" and "naf_ok C N 0 25" and "naf_ok C N 0 13" and "naf_ok C N 0 28" and "naf_ok C N 0 9"
    and "stop p \<noteq> 0" and "word2 p = 0" and "0 < fuel"
  shows "\<exists>ds'. load_program fuel p C N ds = Some ds' \<and> all_ready (snd ds') \<and>
    bus_cycles (snd ds') = bus_cycles (snd ds) @ [asked C N 0 12 0, asked C N 0 25 0, asked C N 0 13 0, asked C N 0 28 0, asked C N 0 9 0]"
proof -
  obtain d1 s1 where 1: "wait_q fuel C N 12 (fst ds) (snd ds) = Some (d1, s1)" "all_ready s1" "bus_cycles s1 = bus_cycles (snd ds) @ [asked C N 0 12 (fst ds)]"
    using wait_q_ready [OF assms(1,2,9)] by blast
  define ds2 where "ds2 = cycle C N 25 0 (d1, s1)"
  have 2: "all_ready (snd ds2)" "bus_cycles (snd ds2) = bus_cycles s1 @ [asked C N 0 25 d1]"
    using cycle_ready(1,2) [of "(d1, s1)" C N 0 25] 1(2) assms(3) by (simp_all add: ds2_def)
  obtain d3 s3 where 3: "wait_q fuel C N 13 (fst ds2) (snd ds2) = Some (d3, s3)" "all_ready s3" "bus_cycles s3 = bus_cycles (snd ds2) @ [asked C N 0 13 (fst ds2)]"
    using wait_q_ready [OF 2(1) assms(4,9)] by blast
  define ds4 where "ds4 = cycle C N 28 0 (d3, s3)"
  have 4: "all_ready (snd ds4)" "bus_cycles (snd ds4) = bus_cycles s3 @ [asked C N 0 28 d3]"
    using cycle_ready(1,2) [of "(d3, s3)" C N 0 28] 3(2) assms(5) by (simp_all add: ds4_def)
  have 5: "all_ready (snd (cycle C N 9 0 ds4))" "bus_cycles (snd (cycle C N 9 0 ds4)) = bus_cycles (snd ds4) @ [asked C N 0 9 (fst ds4)]"
    using cycle_ready(1,2) [OF 4(1) assms(6)] by simp_all
  have z: "asked C N 0 12 (fst ds) = asked C N 0 12 0" "asked C N 0 25 d1 = asked C N 0 25 0" "asked C N 0 13 (fst ds2) = asked C N 0 13 0"
    "asked C N 0 28 d3 = asked C N 0 28 0" "asked C N 0 9 (fst ds4) = asked C N 0 9 0"
    by (simp_all add: asked_def)
  have "load_program fuel p C N ds = Some (cycle C N 9 0 ds4)"
    using 1(1) 3(1) assms(7,8) by (simp add: load_program_def set_eprom_def Let_def flip: ds2_def ds4_def)
  then show ?thesis
    using 1 2 3 4 5 by (simp add: z)
qed

lemma set_registers_ready:
  assumes "all_ready (snd ds)" and "\<And>A F. A < 16 \<Longrightarrow> F < 32 \<Longrightarrow> naf_ok C N A F" and "0 < fuel" and "prm_ok p"
  shows "\<exists>bad ds'. set_registers fuel p m C N ds = Some (bad, ds') \<and> all_ready (snd ds') \<and>
    bus_cycles (snd ds') = bus_cycles (snd ds) @
      concat (map (\<lambda>A. [Some (unat C, unat N, A, 17, Some (nat (register_words p m ! A))), Some (unat C, unat N, A, 1, None)]) [0, 1, 2, 3])"
proof -
  define k0 k1 k2 k3 where k: "k0 = as_code (code0 (if m_id m = 0 then 0 else hdr p) (mbuf p) (ecl p) (edge p) (res p) (m_id m))"
    "k1 = as_code (code1 0 0 (mpi p) (trcu p) (trdel p) (trwid p))"
    "k2 = as_code (code2 (c_div (scl p) 8) (hits p AND 0x0f))" "k3 = as_code (code3 (c_div (ofs p) 8) 0)"
  note a = asked_codes [OF assms(4), where C = C and N = N and m = m, folded k]
  have n: "naf_ok C N 0 17" "naf_ok C N 0 1" "naf_ok C N 1 17" "naf_ok C N 1 1" "naf_ok C N 2 17" "naf_ok C N 2 1" "naf_ok C N 3 17" "naf_ok C N 3 1"
    by (simp_all add: assms(2))
  obtain d1 s1 where 1: "write_x fuel C N k0 (snd ds) = Some (d1, s1)" "all_ready s1" "bus_cycles s1 = bus_cycles (snd ds) @ [asked C N 0 17 k0]"
    using write_x_ready [OF assms(1) n(1) assms(3)] by blast
  define x0 x1 x2 x3 where x: "x0 = verify C N 0 k0 ([], (d1, s1))" "x1 = set_reg C N 1 k1 x0" "x2 = set_reg C N 2 k2 x1" "x3 = set_reg C N 3 k3 x2"
  have v: "all_ready (snd (snd x0))" "bus_cycles (snd (snd x0)) = bus_cycles s1 @ [asked C N 0 1 0]"
    using verify_ready [of "([], (d1, s1))" C N 0 k0] 1(2) n(2) by (simp_all add: x)
  note w1 = set_reg_ready [OF v(1) n(4,3), of k1, folded x]
  note w2 = set_reg_ready [OF w1(1) n(6,5), of k2, folded x]
  note w3 = set_reg_ready [OF w2(1) n(8,7), of k3, folded x]
  have r: "set_registers fuel p m C N ds = Some x3"
    using 1(1) by (simp only: set_registers_def Let_def k [symmetric] Option.bind.simps x [symmetric])
  have c: "asked C N 0 1 0 = Some (unat C, unat N, 0, 1, None)" "asked C N 1 1 0 = Some (unat C, unat N, 1, 1, None)"
    "asked C N 2 1 0 = Some (unat C, unat N, 2, 1, None)" "asked C N 3 1 0 = Some (unat C, unat N, 3, 1, None)"
    by (simp_all add: asked_def)
  have "bus_cycles (snd (snd x3)) = bus_cycles (snd ds) @
      concat (map (\<lambda>A. [Some (unat C, unat N, A, 17, Some (nat (register_words p m ! A))), Some (unat C, unat N, A, 1, None)]) [0, 1, 2, 3])"
    by (simp only: w3 w2 w1 v 1(3) a c append_assoc append.simps list.map concat.simps)
  then show ?thesis
    using r w3(1) by (cases x3) auto
qed

lemma c_short_small: "0 \<le> v \<Longrightarrow> v < 32768 \<Longrightarrow> c_short v = v"
  by (simp add: c_short_def signed_of_int signed_take_bit_int_eq_self)

lemma module_words:
  assumes "module_ok m" and "A < 16" and "F < 32"
  defines "C \<equiv> word_of_int (c_short (m_c m)) :: 64 word" and "N \<equiv> word_of_int (c_short (m_n m)) :: 64 word"
  shows "naf_ok C N A F" "naf_ok C 30 0 17" "unat C = nat (m_c m)" "unat N = nat (m_n m)"
proof -
  have m: "0 \<le> m_c m" "m_c m < 8" "1 \<le> m_n m" "m_n m < 24"
    using assms(1) by (simp_all add: module_ok_def)
  have u: "uint C = m_c m" "uint N = m_n m"
    using m by (simp_all add: C_def N_def c_short_small uint_word_of_int_eq take_bit_eq_mod)
  show "unat C = nat (m_c m)" "unat N = nat (m_n m)"
    by (simp_all add: unat_eq_nat_uint u)
  have "C < 256" "N < 128"
    using m by (simp_all add: word_less_def u)
  then show "naf_ok C N A F" "naf_ok C 30 0 17"
    using assms(2,3) by (simp_all add: naf_ok_def)
qed

lemma setup_module_ready:
  assumes "all_ready s" and "module_ok m" and "0 < fuel" and "prm_ok p" and "stop p \<noteq> 0" and "word2 p = 0"
  shows "\<exists>bad s'. setup_module fuel err p m s = Some (Inr (bad, s')) \<and> all_ready s' \<and> bus_cycles s' = bus_cycles s @ module_cycles p m"
proof -
  define C N where "C = (word_of_int (c_short (m_c m)) :: 64 word)" and "N = (word_of_int (c_short (m_n m)) :: 64 word)"
  note w = module_words [OF assms(2), folded C_def N_def]
  have n: "naf_ok C N A F" if "A < 16" "F < 32" for A F
    using w(1) that by simp
  have n1: "naf_ok C N 0 1" "naf_ok C N 0 30" "naf_ok C N 0 9" "naf_ok C N 1 26" "naf_ok C N 0 26"
    by (simp_all add: n)
  have n2: "naf_ok C N 0 12" "naf_ok C N 0 25" "naf_ok C N 0 13" "naf_ok C N 0 28"
    by (simp_all add: n)
  have cn: "unat C = nat (m_c m)" "unat N = nat (m_n m)" "naf_ok C 30 0 17"
    using w(2-4) [of 0 0] by simp_all
  obtain r0 s0 where 0: "CNAF C 30 0 17 0 s = (r0, s0)" "bus_cycles s0 = bus_cycles s @ [asked C 30 0 17 0]" "all_ready s0"
    by (rule CNAF_ready [OF assms(1) cn(3), of 0]) blast
  obtain r1 s1 where 1: "CNAF C N 0 1 0 s0 = (r1, s1)" "r_x r1 = 1" "bus_cycles s1 = bus_cycles s0 @ [asked C N 0 1 0]" "all_ready s1"
    by (rule CNAF_ready [OF 0(3) n1(1), of 0]) blast
  obtain r2 s2 where 2: "CNAF C N 0 30 (r_dat r1) s1 = (r2, s2)" "r_x r2 = 1" "bus_cycles s2 = bus_cycles s1 @ [asked C N 0 30 (r_dat r1)]" "all_ready s2"
    by (rule CNAF_ready [OF 1(4) n1(2), of "r_dat r1"]) blast
  obtain d3 where 3: "load_program fuel p C N (r_dat r2, s2) = Some d3" "all_ready (snd d3)"
    "bus_cycles (snd d3) = bus_cycles s2 @ [asked C N 0 12 0, asked C N 0 25 0, asked C N 0 13 0, asked C N 0 28 0, asked C N 0 9 0]"
    using load_program_ready [of "(r_dat r2, s2)" C N, OF _ n2(1-4) n1(3) assms(5,6,3)] 2(4) by auto
  obtain bad d4 where 4: "set_registers fuel p m C N d3 = Some (bad, d4)" "all_ready (snd d4)"
    "bus_cycles (snd d4) = bus_cycles (snd d3) @
      concat (map (\<lambda>A. [Some (unat C, unat N, A, 17, Some (nat (register_words p m ! A))), Some (unat C, unat N, A, 1, None)]) [0, 1, 2, 3])"
    using set_registers_ready [OF 3(2) n assms(3,4)] by blast
  define d5 d6 d7 where d: "d5 = cycle C N 9 0 d4" "d6 = cycle C N 26 1 d5" "d7 = cycle C N 26 0 d6"
  have 5: "all_ready (snd d5)" "bus_cycles (snd d5) = bus_cycles (snd d4) @ [asked C N 0 9 (fst d4)]"
    using cycle_ready(1,2) [OF 4(2) n1(3)] by (simp_all add: d)
  have 6: "all_ready (snd d6)" "bus_cycles (snd d6) = bus_cycles (snd d5) @ [asked C N 1 26 (fst d5)]"
    using cycle_ready(1,2) [OF 5(1) n1(4)] by (simp_all add: d(2))
  have 7: "all_ready (snd d7)" "bus_cycles (snd d7) = bus_cycles (snd d6) @ [asked C N 0 26 (fst d6)]"
    using cycle_ready(1,2) [OF 6(1) n1(5)] by (simp_all add: d(3))
  have r: "setup_module fuel err p m s = Some (Inr (bad, snd d7))"
    using 0(1) 1(1,2) 2(1,2) 3(1) 4(1) assms(5)
    by (simp add: setup_module_def cSetClear_def Let_def d flip: C_def N_def)
  have "bus_cycles (snd d7) = bus_cycles s @ module_cycles p m"
    by (simp add: 7 6 5 4(3) 3(3) 2(3) 1(3) 0(2) asked_def module_cycles_def cn register_words_def)
  then show ?thesis
    using r 7(1) by blast
qed

section \<open>Properties of the program\<close>



lemma prm_init_ok: "prm_ok prm_init"
  by (simp add: prm_ok_def prm_init_def flag_def)



text \<open>The question for the time out takes 30000 ns below a full scale of 32000 ns, and the register gets 88 in place of 600.\<close>

theorem long_timeout_is_cut:
  "tmo (g_prm (set_test \<lparr>g_prm = prm_init\<lparr>scl := 32000\<rparr>, g_str = [], g_inp = [''30000'']\<rparr>)) = 30000 \<and> code4 (c_div 30000 50) = 88"
proof -
  have a: "atoi ''30000'' = 30000"
    by code_simp
  have c: "c_div 30000 50 = 600" "c_div 30000 50 * 50 = 30000" "code4 600 = 88"
    by code_simp+
  show ?thesis
    by (simp add: set_test_def fit_timeout_def prm_init_def ask_number_def ask_yes_def getline_def any_given_def char0_def Let_def a c c_int_id)
qed

text \<open>At the question for the full scale the end of line counts as an answer: the test is for an empty string, but
  \<^verbatim>\<open>fgets\<close> leaves the end of line in the array. The full scale becomes 0.\<close>

theorem enter_clears_full_scale: "scl (g_prm (ask_number any_given (\<lambda>v. 0 \<le> v \<and> v < 32768) (\<lambda>v p. p\<lparr>scl := v\<rparr>) \<lparr>g_prm = p, g_str = s, g_inp = [CHR 0x0a] # ls\<rparr>)) = 0"
proof -
  have "atoi [CHR 0x0a] = 0"
    by code_simp
  then show ?thesis
    by (simp add: ask_number_def getline_def any_given_def char0_def Let_def c_int_id)
qed

text \<open>C37: In common stop mode with single words the set up of a list of modules succeeds on a crate that answers, and the cycles on the bus are,
  module by module, the inhibit, the reset, the load of the program, the four control registers with the parameters packed into their fields,
  each read back, and the start of the acquisition.\<close>

theorem init3377_programs_every_module:
  assumes "all_ready s" and "list_all module_ok ms" and "m_c e = -1" and "prm_ok p" and "stop p \<noteq> 0" and "word2 p = 0" and "0 < fuel"
  shows "\<exists>s'. setup3377 fuel err p (ms @ [e]) s = Some (0, s') \<and> bus_cycles s' = bus_cycles s @ concat (map (module_cycles p) ms)"
  using assms(1,2)
proof (induction ms arbitrary: s)
  case Nil
  have "c_short (- 1) = - 1"
    by (simp add: c_short_def signed_of_int signed_take_bit_int_eq_self)
  then show ?case
    by (simp add: assms(3))
next
  case (Cons m ms)
  have m: "module_ok m"
    using Cons.prems(2) by simp
  obtain bad s1 where 1: "setup_module fuel err p m s = Some (Inr (bad, s1))" "all_ready s1" "bus_cycles s1 = bus_cycles s @ module_cycles p m"
    using setup_module_ready [OF Cons.prems(1) m assms(7,4,5,6)] by blast
  have "0 \<le> c_short (m_c m)"
    using m by (simp add: module_ok_def c_short_small)
  moreover obtain s' where "setup3377 fuel err p (ms @ [e]) s1 = Some (0, s')" "bus_cycles s' = bus_cycles s1 @ concat (map (module_cycles p) ms)"
    using Cons.IH [OF 1(2)] Cons.prems(2) by auto
  ultimately show ?case
    by (simp add: 1)
qed

theorem init3377_programs_every_module_witness:
  "\<exists>s'. setup3377 1 0 prm_init [\<lparr>m_c = 1, m_n = 5, m_id = 7\<rparr>, \<lparr>m_c = 1, m_n = 8, m_id = 0\<rparr>, \<lparr>m_c = -1, m_n = 0, m_id = 0\<rparr>] demo_camac = Some (0, s') \<and>
     length (bus_cycles s') = 38 \<and> bus_cycles s' ! 8 = Some (1, 5, 0, 17, Some 0x2907)"
proof -
  have "\<exists>s'. setup3377 1 0 prm_init ([\<lparr>m_c = 1, m_n = 5, m_id = 7\<rparr>, \<lparr>m_c = 1, m_n = 8, m_id = 0\<rparr>] @ [\<lparr>m_c = -1, m_n = 0, m_id = 0\<rparr>]) demo_camac = Some (0, s') \<and>
      bus_cycles s' = bus_cycles demo_camac @ concat (map (module_cycles prm_init) [\<lparr>m_c = 1, m_n = 5, m_id = 7\<rparr>, \<lparr>m_c = 1, m_n = 8, m_id = 0\<rparr>])"
    by (rule init3377_programs_every_module [OF demo_camac_ready _ _ prm_init_ok]) (simp_all add: module_ok_def prm_init_def)
  then show ?thesis
    by (auto simp: module_cycles_def register_words_def prm_init_def)
qed

end
