(* ===== verification/Daq_Info.thy ===== *)
theory Daq_Info
  imports Scaler_Show Kernel_IPC
begin

text \<open>
  \<^verbatim>\<open>router/tools/router_daqinfo.c\<close>, which keeps the counters of the scalers and the state of the run in a shared memory segment,
  and \<^verbatim>\<open>router/tools/daqinfo.c\<close>, which prints it. The header \<^verbatim>\<open>daqinfo.h\<close> is not in the repository: its constants are the record
  \<open>di_conf\<close>, a parameter. \<open>little\<close> is the variable \<^verbatim>\<open>swap\<close>.
\<close>

record di_conf =
  DI_MAXNSCLRS :: nat
  DI_MAXCOMLEN :: nat
  DI_SHMSIZE :: int
  DI_SIZEOF :: int

definition NSCLRS :: nat where "NSCLRS = 6"
definition NCHS :: nat where "NCHS = 16"
definition BLKSIZE :: int where "BLKSIZE = 0x4000"

section \<open>The counters\<close>

text \<open>
  The counters are one array, \<^verbatim>\<open>info->scaler\<close>, of \<open>mx\<close> elements; scaler \<open>scl\<close> starts at \<open>scl * NCHS\<close>. \<open>None\<close> is a store behind
  the array.
\<close>

type_synonym counters = "nat \<Rightarrow> 32 word"

fun di_channels :: "nat \<Rightarrow> memory \<Rightarrow> int \<Rightarrow> nat \<Rightarrow> nat \<Rightarrow> int \<Rightarrow> counters \<Rightarrow> (int \<times> counters) option" where
  "di_channels mx m p2 k 0 p t = Some (p, t)"
| "di_channels mx m p2 k (Suc n) p t =
     (if p2 \<le> p then Some (p, t)
      else if mx \<le> k then None
      else di_channels mx m p2 (Suc k) n (p + 2) (t(k := t k + scl_value m p)))"

definition di_region :: "nat \<Rightarrow> memory \<Rightarrow> int \<Rightarrow> nat \<Rightarrow> int \<Rightarrow> counters \<Rightarrow> (int \<times> nat \<times> counters) option" where
  "di_region mx m p2 scl p t =
     (let len = unat (m p AND DataLengthMask)
      in if m p AND ModuleIDMask \<noteq> ID_Scaler then Some (p + 1 + int len, scl, t)
         else map_option (\<lambda>(p', t'). (p', Suc scl, t')) (di_channels mx m p2 (scl * NCHS) (min (len div 2) NCHS) (p + 1) t))"

lemma di_channels_mono: "di_channels mx m p2 k n p t = Some (p', t') \<Longrightarrow> p \<le> p'"
  by (induction mx m p2 k n p t rule: di_channels.induct) (auto split: if_splits)

lemma di_region_mono: "di_region mx m p2 scl p t = Some (p', scl', t') \<Longrightarrow> p < p'"
  by (auto simp: di_region_def Let_def pos_add_strict zero_less_one uint_ge_0 add_pos_nonneg dest: di_channels_mono split: if_splits)

function di_regions :: "nat \<Rightarrow> memory \<Rightarrow> int \<Rightarrow> nat \<Rightarrow> int \<Rightarrow> counters \<Rightarrow> (int \<times> nat \<times> counters) option" where
  "di_regions mx m p2 scl p t =
     (if p < p2 then
        (case di_region mx m p2 scl p t of
           None \<Rightarrow> None
         | Some (p', scl', t') \<Rightarrow> di_regions mx m p2 scl' p' t')
      else Some (p, scl, t))"
  by pat_completeness auto
termination
  by (relation "measure (\<lambda>(mx, m, p2, scl, p, t). nat (p2 - p))") (auto dest: di_region_mono)

declare di_regions.simps [simp del]

lemma di_regions_mono: "di_regions mx m p2 scl p t = Some (p', scl', t') \<Longrightarrow> p \<le> p'"
proof (induction mx m p2 scl p t rule: di_regions.induct)
  case (1 mx m p2 scl p t)
  show ?case
  proof (cases "p < p2")
    case True
    with "1.prems" obtain q s u where "di_region mx m p2 scl p t = Some (q, s, u)" "di_regions mx m p2 s q u = Some (p', scl', t')"
      by (auto simp: di_regions.simps [of mx m p2 scl p t] split: option.splits)
    with "1.IH" [OF True] di_region_mono show ?thesis
      by (metis order.strict_implies_order order_trans)
  next
    case False
    with "1.prems" show ?thesis
      by (simp add: di_regions.simps [of mx m p2 scl p t])
  qed
qed

text \<open>One pass of the search for an event header: \<open>Inl\<close> is the \<^verbatim>\<open>break\<close>.\<close>

definition di_pass :: "nat \<Rightarrow> memory \<Rightarrow> int \<Rightarrow> nat \<Rightarrow> int \<Rightarrow> counters \<Rightarrow> (unit + int \<times> nat \<times> counters) option" where
  "di_pass mx m e scl p t =
     (if m p \<noteq> EvtHeaderID then Some (Inr (p, scl, t))
      else if p + S_EH > e then Some (Inl ())
      else if uint (m (p + 1)) < S_EH \<or> S_EH < uint (m (p + 1)) then Some (Inr (p, scl, t))
      else if m (p + 2) \<noteq> BlockEndEvent then Some (Inr (p, scl, t))
      else
        let f = p + uint (m (p + 1))
        in if f + S_FH > e then Some (Inl ())
           else if m f \<noteq> FldHeaderID then Some (Inr (f, scl, t))
           else if uint (m (f + 1)) < S_FH \<or> S_FH < uint (m (f + 1)) then Some (Inr (f, scl, t))
           else
             let q = f + uint (m (f + 1)); p2 = q + uint (m (f + 3))
             in map_option Inr (di_regions mx m (if p2 > e then e else p2) scl q t))"

lemma di_pass_mono: "di_pass mx m e scl p t = Some (Inr (p', scl', t')) \<Longrightarrow> p \<le> p'"
  by (auto simp: di_pass_def Let_def S_EH_def S_FH_def dest: di_regions_mono split: if_splits)

function di_search :: "nat \<Rightarrow> memory \<Rightarrow> int \<Rightarrow> nat \<Rightarrow> int \<Rightarrow> counters \<Rightarrow> counters option" where
  "di_search mx m e scl p t =
     (if p < e then
        (case di_pass mx m e scl p t of
           None \<Rightarrow> None
         | Some (Inl u) \<Rightarrow> Some t
         | Some (Inr (p', scl', t')) \<Rightarrow> di_search mx m e scl' (p' + 1) t')
      else Some t)"
  by pat_completeness auto
termination
  by (relation "measure (\<lambda>(mx, m, e, scl, p, t). nat (e - p))") (auto dest: di_pass_mono)

declare di_search.simps [simp del]

definition get_scalers :: "nat \<Rightarrow> memory \<Rightarrow> int \<Rightarrow> counters \<Rightarrow> counters option" where
  "get_scalers mx m sz t =
     (let p = uint (m 1); p2 = p + uint (m 3); e = c_div sz 2
      in di_search mx m (if p2 < e then p2 else e) 0 p t)"

definition get_sum :: "counters \<Rightarrow> counters \<Rightarrow> counters" where
  "get_sum t sm = (\<lambda>j. if j < NCHS then fold (\<lambda>i s. s + t (i * NCHS + j)) [0 ..< NSCLRS] 0 else sm j)"

section \<open>The segment\<close>

text \<open>
  The fields of \<^verbatim>\<open>daq_info_t\<close> that the programs use, and the variables of the program. \<open>di_comment\<close> is the memory from the address
  of \<^verbatim>\<open>info->comment\<close> on; \<open>di_shows\<close> is what \<^verbatim>\<open>show_scalers\<close> has written.
\<close>

record di =
  di_run :: int
  di_comment :: "nat \<Rightarrow> byte"
  di_comlen :: nat
  di_nmodes :: nat
  di_nchs :: nat
  di_nsclrs :: nat
  di_ndata :: int
  di_ndatarun :: int
  di_nblk :: int
  di_nblkrun :: int
  di_scaler :: counters
  di_sum :: counters
  di_fd_out :: int
  di_data_flag :: bool
  di_shows :: "(int \<times> int \<times> int \<times> counters) list"

definition show_di :: "int \<Rightarrow> di \<Rightarrow> di" where
  "show_di fd s = (if fd \<le> 0 then s else s\<lparr>di_shows := di_shows s @ [(fd, di_run s, di_nblkrun s, di_scaler s)]\<rparr>)"

text \<open>\<^verbatim>\<open>k++\<close> stands behind the inner loop.\<close>

definition clear_di :: "di \<Rightarrow> di" where
  "clear_di s =
     s\<lparr>di_scaler := fold (\<lambda>k t. fold (\<lambda>j t. t(k := 0)) [0 ..< NCHS] t) [0 ..< NSCLRS] (di_scaler s), di_ndatarun := 0, di_nblkrun := 0\<rparr>"

definition clear_scalers_di :: "di \<Rightarrow> di" where
  "clear_scalers_di s =
     (let s1 = (if di_data_flag s then show_di (di_fd_out s) (show_di 1 (s\<lparr>di_data_flag := False\<rparr>)) else s)
      in clear_di s1)"

text \<open>
  The copy of the comment, from the array \<^verbatim>\<open>str\<close> of 256 characters into which \<^verbatim>\<open>assign_j11\<close> has put \<open>MaxComLen\<close> of them; a little
  endian host exchanges the bytes again. \<open>z\<close> is where the zero is stored behind it.
\<close>

definition put_bytes :: "byte list \<Rightarrow> (nat \<Rightarrow> byte) \<Rightarrow> nat \<Rightarrow> byte" where
  "put_bytes bs c = (\<lambda>i. if i < length bs then bs ! i else c i)"

definition text_length :: "(nat \<Rightarrow> byte) \<Rightarrow> nat \<Rightarrow> nat" where
  "text_length c z = length (takeWhile (\<lambda>b. b \<noteq> 0) (map c [0 ..< z]))"

definition put_comment :: "di_conf \<Rightarrow> bool \<Rightarrow> byte list \<Rightarrow> byte list \<Rightarrow> nat \<Rightarrow> di \<Rightarrow> di" where
  "put_comment cf little junk com z s =
     (let str = com @ drop (length com) junk;
          bs = (if little then swab (take (DI_MAXCOMLEN cf) str) else copy_text str (DI_MAXCOMLEN cf));
          c = (put_bytes bs (di_comment s))(z := 0)
      in s\<lparr>di_comment := c, di_comlen := text_length c z\<rparr>)"

definition di_start_block :: "di_conf \<Rightarrow> bool \<Rightarrow> byte list \<Rightarrow> int \<times> byte list \<Rightarrow> di \<Rightarrow> di" where
  "di_start_block cf little junk c s =
     clear_scalers_di ((put_comment cf little junk (snd c) (MaxComLen + 1) s)\<lparr>di_run := fst c, di_nblkrun := 0\<rparr>)"

definition di_end_block :: "di_conf \<Rightarrow> bool \<Rightarrow> byte list \<Rightarrow> int \<times> byte list \<Rightarrow> di \<Rightarrow> di" where
  "di_end_block cf little junk c s =
     (let s1 = put_comment cf little junk (snd c) (DI_MAXCOMLEN cf + 1) (s\<lparr>di_run := fst c\<rparr>)
      in (show_di (di_fd_out s1) (show_di 1 s1))\<lparr>di_data_flag := False\<rparr>)"

definition di_data_block :: "di_conf \<Rightarrow> memory \<Rightarrow> int \<Rightarrow> di \<Rightarrow> di option" where
  "di_data_block cf m sz s =
     map_option (\<lambda>t. (show_di 1 (s\<lparr>di_nblk := di_nblk s + 1, di_nblkrun := di_nblkrun s + 1, di_scaler := t, di_sum := get_sum t (di_sum s)\<rparr>))
         \<lparr>di_data_flag := True\<rparr>)
       (get_scalers (DI_MAXNSCLRS cf) m sz (di_scaler s))"

definition read_buf_di :: "di_conf \<Rightarrow> bool \<Rightarrow> byte list \<Rightarrow> memory \<Rightarrow> int \<Rightarrow> di \<Rightarrow> di option" where
  "read_buf_di cf little junk m sz s =
     (case assign_j11 little m sz of (kind, com) \<Rightarrow>
        if kind AND BLK_UNKNOWN \<noteq> 0 then Some s
        else
          let s1 = (if kind AND BLK_START \<noteq> 0 then di_start_block cf little junk (the com) s else s);
              s2 = (if kind AND BLK_END \<noteq> 0 then di_end_block cf little junk (the com) s1 else s1)
          in if kind AND (BLK_DATA OR BLK_SCALER) \<noteq> 0 then di_data_block cf m sz s2 else Some s2)"

text \<open>The main loop: after each buffer the data are counted by a fixed block size.\<close>

fun di_loop :: "di_conf \<Rightarrow> bool \<Rightarrow> byte list \<Rightarrow> byte list list \<Rightarrow> di \<Rightarrow> di option" where
  "di_loop cf little junk [] s = Some s"
| "di_loop cf little junk (b # bs) s =
     Option.bind (read_buf_di cf little junk (scl_view little b) (int (length b)) s) (\<lambda>s'.
     di_loop cf little junk bs (s'\<lparr>di_ndata := di_ndata s' + BLKSIZE, di_ndatarun := di_ndatarun s' + BLKSIZE\<rparr>))"

section \<open>The shared memory\<close>

text \<open>\<open>att\<close>: whether \<^verbatim>\<open>shmat\<close> succeeds. The segment has whatever contents \<open>s\<close> says before it is cleared.\<close>

definition clear_shm :: "di_conf \<Rightarrow> bool \<Rightarrow> di \<Rightarrow> int \<times> di" where
  "clear_shm cf att s =
     (if \<not> att then (-1, s)
      else
        let s1 = s\<lparr>di_run := 0, di_comment := (di_comment s)(0 := 0), di_comlen := 0\<rparr>
        in if NSCLRS * NCHS > DI_MAXNSCLRS cf then (-1, s1\<lparr>di_nmodes := 0, di_nchs := 0, di_nsclrs := 0\<rparr>)
           else (0, s1\<lparr>di_nmodes := NSCLRS, di_nchs := NCHS, di_nsclrs := NSCLRS * NCHS, di_ndata := 0, di_ndatarun := 0, di_nblk := 0,
             di_nblkrun := 0, di_scaler := fold (\<lambda>i t. t(i := 0)) [0 ..< NSCLRS * NCHS] (di_scaler s)\<rparr>))"

definition create_shm_di :: "di_conf \<Rightarrow> bool \<Rightarrow> key \<Rightarrow> kernel \<times> di \<Rightarrow> int \<times> kernel \<times> di" where
  "create_shm_di cf att key ks =
     (if DI_SHMSIZE cf < DI_SIZEOF cf then (-1, ks)
      else
        (case shmget_excl key (DI_SHMSIZE cf) (fst ks) of
           Inl e \<Rightarrow> (-1, ks)
         | Inr K \<Rightarrow> (case clear_shm cf att (snd ks) of (r, s) \<Rightarrow> (if r < 0 then -1 else 0, K, s))))"

definition remove_shm_di :: "key \<Rightarrow> kernel \<Rightarrow> kernel" where
  "remove_shm_di key K = (case shmget key K of None \<Rightarrow> K | Some k \<Rightarrow> shm_rmid k K)"

text \<open>
  \<^verbatim>\<open>main\<close> behind the options and the connection: the old segment is removed with \<^verbatim>\<open>-r\<close>, and the own one at the end. \<open>Inl\<close> is the
  code of \<^verbatim>\<open>exit\<close>.
\<close>

definition di_main :: "di_conf \<Rightarrow> bool \<Rightarrow> bool \<Rightarrow> key \<Rightarrow> bool \<Rightarrow> byte list \<Rightarrow> byte list list \<Rightarrow> kernel \<times> di \<Rightarrow> (int \<times> kernel + kernel \<times> di) option" where
  "di_main cf little rflag key att junk bufs ks =
     (let K = (if rflag then remove_shm_di key (fst ks) else fst ks)
      in case create_shm_di cf att key (K, snd ks) of
           (r, K1, s1) \<Rightarrow>
             if r < 0 then Some (Inl (1, K1))
             else map_option (\<lambda>s2. Inr (remove_shm_di key K1, s2)) (di_loop cf little junk bufs (clear_scalers_di s1)))"

text \<open>\<^verbatim>\<open>daqinfo.c\<close>: what it prints of the segment, if there is one: run, counters of the data, scalers and sums.\<close>

definition daqinfo :: "key \<Rightarrow> bool \<Rightarrow> kernel \<times> di \<Rightarrow> (int \<times> int list \<times> (nat \<times> 32 word) list \<times> (nat \<times> 32 word) list) option" where
  "daqinfo key att ks =
     (case shmget key (fst ks) of
        None \<Rightarrow> None
      | Some k \<Rightarrow>
          if \<not> att then None
          else
            let s = snd ks
            in Some (di_run s, [di_ndata s, di_nblk s, di_ndatarun s, di_nblkrun s, int (di_nmodes s), int (di_nchs s), int (di_nsclrs s)],
                 map (\<lambda>i. (i, di_scaler s i)) [0 ..< di_nsclrs s], map (\<lambda>i. (i, di_sum s i)) [0 ..< di_nchs s]))"

section \<open>Both displays count the same\<close>

text \<open>The counters of a table, in the order of the array.\<close>

definition flat :: "table \<Rightarrow> counters" where
  "flat t = (\<lambda>k. t (k div NCHS) (k mod NCHS))"

lemma flat_update:
  assumes "i < NCHS"
  shows "flat (t(scl := (t scl)(i := v))) = (flat t)(scl * NCHS + i := v)"
proof
  fix k
  have "k div NCHS = scl \<and> k mod NCHS = i \<longleftrightarrow> k = scl * NCHS + i"
    using assms by (auto simp: NCHS_def)
  then show "flat (t(scl := (t scl)(i := v))) k = ((flat t)(scl * NCHS + i := v)) k"
    by (auto simp: flat_def)
qed

lemma flat_at: "i < NCHS \<Longrightarrow> flat t (scl * NCHS + i) = t scl i"
  by (simp add: flat_def NCHS_def)

lemma di_channels_sim:
  assumes "scl_channels m p2 scl i n p t = Some (p', t')" and "i + n \<le> NCHS" and "MNOSCLRS * NCHS \<le> mx"
  shows "di_channels mx m p2 (scl * NCHS + i) n p (flat t) = Some (p', flat t')"
  using assms(1,2)
proof (induction m p2 scl i n p t rule: scl_channels.induct)
  case (2 m p2 scl i n p t)
  show ?case
  proof (cases "p2 \<le> p")
    case False
    with "2.prems" have s: "scl < MNOSCLRS"
      by (auto split: if_splits)
    with "2.prems"(2) assms(3) have "\<not> mx \<le> scl * NCHS + i"
      by (simp add: MNOSCLRS_def NCHS_def)
    moreover have "di_channels mx m p2 (scl * NCHS + Suc i) n (p + 2) (flat (t(scl := (t scl)(i := t scl i + scl_value m p)))) = Some (p', flat t')"
    proof (rule "2.IH" [OF False])
      show "scl_channels m p2 scl (Suc i) n (p + 2) (t(scl := (t scl)(i := t scl i + scl_value m p))) = Some (p', t')"
        using False s "2.prems"(1) by simp
    qed (use s "2.prems"(2) in simp_all)
    moreover have "i < NCHS"
      using "2.prems"(2) by simp
    ultimately show ?thesis
      using False by (simp add: flat_update flat_at)
  qed (use "2.prems" in simp)
qed simp

lemma di_region_sim:
  assumes "scl_region m p2 scl p t = Some (p', scl', t')" and "MNOSCLRS * NCHS \<le> mx"
  shows "di_region mx m p2 scl p (flat t) = Some (p', scl', flat t')"
proof (cases "m p AND ModuleIDMask = ID_Scaler")
  case True
  have "MAXCH = NCHS"
    by (simp add: MAXCH_def NCHS_def)
  moreover from assms(1) True obtain q where "scl_channels m p2 scl 0 (min (unat (m p AND DataLengthMask) div 2) MAXCH) (p + 1) t = Some (q, t')"
    "p' = q" "scl' = Suc scl"
    by (auto simp: scl_region_def Let_def)
  ultimately show ?thesis
    using di_channels_sim [of m p2 scl 0 _ "p + 1" t q t' mx] assms(2) True by (simp add: di_region_def Let_def)
qed (use assms in \<open>simp add: scl_region_def di_region_def Let_def\<close>)

lemma di_regions_sim:
  assumes "scl_regions m p2 scl p t = Some (p', scl', t')" and "MNOSCLRS * NCHS \<le> mx"
  shows "di_regions mx m p2 scl p (flat t) = Some (p', scl', flat t')"
  using assms(1)
proof (induction m p2 scl p t rule: scl_regions.induct)
  case (1 m p2 scl p t)
  show ?case
  proof (cases "p < p2")
    case True
    with "1.prems" obtain q s u where r: "scl_region m p2 scl p t = Some (q, s, u)" "scl_regions m p2 s q u = Some (p', scl', t')"
      by (auto simp: scl_regions.simps [of m p2 scl p t] split: option.splits)
    have "di_regions mx m p2 s q (flat u) = Some (p', scl', flat t')"
      by (rule "1.IH" [OF True r(1) refl refl r(2)])
    then show ?thesis
      using True di_region_sim [OF r(1) assms(2)] by (simp add: di_regions.simps [of mx m p2 scl p])
  next
    case False
    with "1.prems" show ?thesis
      by (auto simp: scl_regions.simps [of m p2 scl p t] di_regions.simps [of mx m p2 scl' p'])
  qed
qed

lemma di_pass_sim:
  assumes "scl_pass m e scl p t = Some r" and "MNOSCLRS * NCHS \<le> mx"
  shows "di_pass mx m e scl p (flat t) = Some (map_sum id (map_prod id (map_prod id flat)) r)"
  using assms by (auto simp: scl_pass_def di_pass_def Let_def dest: di_regions_sim [where mx = mx] split: if_splits)

lemma di_search_sim:
  assumes "scl_search m e scl p t = Some t'" and "MNOSCLRS * NCHS \<le> mx"
  shows "di_search mx m e scl p (flat t) = Some (flat t')"
  using assms(1)
proof (induction m e scl p t rule: scl_search.induct)
  case (1 m e scl p t)
  show ?case
  proof (cases "p < e")
    case True
    with "1.prems" obtain r where r: "scl_pass m e scl p t = Some r"
      by (auto simp: scl_search.simps [of m e scl p t] split: option.splits)
    note d = di_pass_sim [OF r assms(2)]
    show ?thesis
    proof (cases r)
      case (Inl u)
      with True "1.prems" r d show ?thesis
        by (simp add: scl_search.simps [of m e scl p t] di_search.simps [of mx m e scl p])
    next
      case (Inr x)
      then obtain q s u where x: "r = Inr (q, s, u)"
        by (cases x) auto
      with True "1.prems" r have "scl_search m e s (q + 1) u = Some t'"
        by (simp add: scl_search.simps [of m e scl p t])
      from "1.IH" [OF True r x refl refl this] show ?thesis
        using True d x by (simp add: di_search.simps [of mx m e scl p])
    qed
  next
    case False
    with "1.prems" show ?thesis
      by (simp add: scl_search.simps [of m e scl p t] di_search.simps [of mx m e scl p])
  qed
qed

text \<open>On every block on which the display \<^verbatim>\<open>router_scaler\<close> stays in its table, \<^verbatim>\<open>router_daqinfo\<close> counts the same.\<close>

lemma daqinfo_agrees_with_display:
  assumes "get_scaler m sz t = Some t'" and "MNOSCLRS * NCHS \<le> mx"
  shows "get_scalers mx m sz (flat t) = Some (flat t')"
  using di_search_sim [OF _ assms(2)] assms(1) by (simp add: get_scaler_def get_scalers_def Let_def)

text \<open>One block that does not start or end a run, in both programs.\<close>

definition same_counts :: "scl \<Rightarrow> di \<Rightarrow> bool" where
  "same_counts s d \<longleftrightarrow> di_scaler d = flat (sc_scaler s) \<and> di_nblkrun d = sc_blk_cnt s"

definition sums_ok :: "di \<Rightarrow> bool" where
  "sums_ok d \<longleftrightarrow> (\<forall>j < NCHS. di_sum d j = (\<Sum>i < NSCLRS. di_scaler d (i * NCHS + j)))"

lemma fold_add: "fold (\<lambda>i s. s + f i) [0 ..< n] a = a + (\<Sum>i < n. f i)" for f :: "nat \<Rightarrow> 32 word"
  by (induction n) (simp_all add: add.assoc)

lemma get_sum_ok: "j < NCHS \<Longrightarrow> get_sum t sm j = (\<Sum>i < NSCLRS. t (i * NCHS + j))"
  by (simp add: get_sum_def fold_add)

lemma show_fields:
  "di_scaler (show_di fd d) = di_scaler d" "di_sum (show_di fd d) = di_sum d" "di_nblkrun (show_di fd d) = di_nblkrun d" "di_ndata (show_di fd d) = di_ndata d"
  "sc_scaler (show_scalers fd s) = sc_scaler s" "sc_blk_cnt (show_scalers fd s) = sc_blk_cnt s" "sc_clear_flag (show_scalers fd s) = sc_clear_flag s"
  by (simp_all add: show_di_def show_scalers_def)

lemma data_block_same:
  assumes "scl_data m sz s = Some s'" and "\<not> sc_clear_flag s" and "same_counts s d" and "MNOSCLRS * NCHS \<le> DI_MAXNSCLRS cf"
  obtains d' where "di_data_block cf m sz d = Some d'" and "same_counts s' d'" and "sums_ok d'" and "di_ndata d' = di_ndata d" and "\<not> sc_clear_flag s'"
proof -
  from assms(1) obtain t where t: "get_scaler m sz (sc_scaler s) = Some t"
    by (auto simp: scl_data_def)
  then have d: "get_scalers (DI_MAXNSCLRS cf) m sz (di_scaler d) = Some (flat t)"
    using daqinfo_agrees_with_display [OF t assms(4)] assms(3) by (simp add: same_counts_def)
  have "sc_scaler s' = t \<and> sc_blk_cnt s' = sc_blk_cnt s + 1 \<and> \<not> sc_clear_flag s'"
    using assms(1,2) t by (cases "sc_interval s \<le> sc_out_count s + 1") (auto simp: scl_data_def Let_def show_scalers_def)
  moreover define d' where "d' = (show_di 1 (d\<lparr>di_nblk := di_nblk d + 1, di_nblkrun := di_nblkrun d + 1, di_scaler := flat t, di_sum := get_sum (flat t) (di_sum d)\<rparr>))
    \<lparr>di_data_flag := True\<rparr>"
  ultimately have "same_counts s' d'" "sums_ok d'" "di_ndata d' = di_ndata d"
    using assms(3) by (simp_all add: same_counts_def sums_ok_def show_fields get_sum_ok)
  moreover have "di_data_block cf m sz d = Some d'"
    by (simp add: di_data_block_def d d'_def)
  ultimately show thesis
    using \<open>sc_scaler s' = t \<and> sc_blk_cnt s' = sc_blk_cnt s + 1 \<and> \<not> sc_clear_flag s'\<close> by (intro that [of d']) simp_all
qed

lemma read_buf_same:
  assumes "read_buf little m sz s = Some s'" and "\<not> sc_clear_flag s" and "same_counts s d" and "sums_ok d" and "MNOSCLRS * NCHS \<le> DI_MAXNSCLRS cf"
    and "fst (assign_j11 little m sz) \<notin> {BLK_START, BLK_END}"
  obtains d' where "read_buf_di cf little junk m sz d = Some d'" and "same_counts s' d'" and "sums_ok d'" and "di_ndata d' = di_ndata d" and "\<not> sc_clear_flag s'"
proof -
  obtain kind com where k: "assign_j11 little m sz = (kind, com)"
    by fastforce
  have "fst (run_comment little m sz kd) \<in> {BLK_UNKNOWN, kd}" for kd
    by (simp add: run_comment_def Let_def)
  then have "kind \<in> {BLK_UNKNOWN, BLK_DATA, BLK_SCALER, BLK_MIDDLE}"
    using assms(6) k unfolding assign_j11_def by (auto split: if_splits) (metis fst_conv)+
  then consider "kind AND BLK_UNKNOWN \<noteq> 0" | "kind = BLK_MIDDLE" | "kind = BLK_DATA \<or> kind = BLK_SCALER"
    by (auto simp: BLK_UNKNOWN_def)
  then show thesis
  proof cases
    case 1
    then show thesis
      using assms(1-4) k by (intro that [of d]) (simp_all add: read_buf_def read_buf_di_def)
  next
    case 2
    then show thesis
      using assms(1-4) k by (intro that [of d])
        (simp_all add: read_buf_def read_buf_di_def BLK_UNKNOWN_def BLK_START_def BLK_END_def BLK_MIDDLE_def BLK_DATA_def BLK_SCALER_def)
  next
    case 3
    then have e: "read_buf little m sz s = scl_data m sz s" "read_buf_di cf little junk m sz d = di_data_block cf m sz d"
      using k by (auto simp: read_buf_def read_buf_di_def BLK_UNKNOWN_def BLK_START_def BLK_END_def BLK_DATA_def BLK_SCALER_def)
    obtain d' where "di_data_block cf m sz d = Some d'" "same_counts s' d'" "sums_ok d'" "di_ndata d' = di_ndata d" "\<not> sc_clear_flag s'"
      by (rule data_block_same [OF assms(1) [unfolded e(1)] assms(2,3,5)])
    then show thesis
      by (intro that [of d']) (simp_all add: e(2))
  qed
qed

text \<open>C39: Along any sequence of buffers of a run that the display \<^verbatim>\<open>router_scaler\<close> can take without clearing, \<^verbatim>\<open>router_daqinfo\<close> keeps
  the same counters and block count in its segment, the sums there are the sums over the scalers, and the amount of data is a fixed size
  for each buffer.\<close>

theorem segment_follows_display:
  assumes "scl_main little bs s = Some s'" and "\<not> sc_clear_flag s" and "same_counts s d" and "sums_ok d" and "MNOSCLRS * NCHS \<le> DI_MAXNSCLRS cf"
    and "\<forall>b\<in>set bs. fst (assign_j11 little (scl_view little b) (int (length b))) \<notin> {BLK_START, BLK_END}"
  shows "\<exists>d'. di_loop cf little junk bs d = Some d' \<and> same_counts s' d' \<and> sums_ok d' \<and> di_ndata d' = di_ndata d + BLKSIZE * int (length bs)"
  using assms(1-4,6)
proof (induction bs arbitrary: s d)
  case (Cons b bs)
  from Cons.prems(1) obtain s1 where s1: "read_buf little (scl_view little b) (int (length b)) s = Some s1" "scl_main little bs s1 = Some s'"
    by (auto simp: bind_eq_Some_conv)
  obtain d1 where d1: "read_buf_di cf little junk (scl_view little b) (int (length b)) d = Some d1" "same_counts s1 d1" "sums_ok d1"
    "di_ndata d1 = di_ndata d" "\<not> sc_clear_flag s1"
    by (rule read_buf_same [OF s1(1) Cons.prems(2-4) assms(5), where junk = junk]) (use Cons.prems(5) in auto)
  let ?d = "d1\<lparr>di_ndata := di_ndata d1 + BLKSIZE, di_ndatarun := di_ndatarun d1 + BLKSIZE\<rparr>"
  have "same_counts s1 ?d" "sums_ok ?d"
    using d1(2,3) by (simp_all add: same_counts_def sums_ok_def)
  from Cons.IH [OF s1(2) d1(5) this] Cons.prems(5) d1 show ?case
    by (auto simp: algebra_simps)
qed simp

definition demo_di :: di where
  "demo_di = \<lparr>di_run = 0, di_comment = (\<lambda>i. 0), di_comlen = 0, di_nmodes = 6, di_nchs = 16, di_nsclrs = 96, di_ndata = 0, di_ndatarun = 0,
     di_nblk = 0, di_nblkrun = 0, di_scaler = (\<lambda>k. 0), di_sum = (\<lambda>j. 0), di_fd_out = 0, di_data_flag = False, di_shows = []\<rparr>"

definition demo_conf :: di_conf where
  "demo_conf = \<lparr>DI_MAXNSCLRS = 128, DI_MAXCOMLEN = 124, DI_SHMSIZE = 4096, DI_SIZEOF = 2048\<rparr>"

theorem segment_follows_display_witness:
  "\<exists>d'. di_loop demo_conf True [] (map (\<lambda>(g, c). be_bytes (scaler_words g c)) [(\<lambda>i j. 7, 1), (\<lambda>i j. word_of_nat i, 2)]) demo_di = Some d' \<and>
     di_nblkrun d' = 2 \<and> di_scaler d' 63 = 10 \<and> di_ndata d' = 32768"
proof -
  let ?s = "demo_scl\<lparr>sc_clear_flag := False\<rparr>" and ?gs = "[(\<lambda>i j. 7, 1), (\<lambda>i j. word_of_nat i, 2)] :: ((nat \<Rightarrow> nat \<Rightarrow> 32 word) \<times> 16 word) list"
  let ?bs = "map (\<lambda>(g, c). be_bytes (scaler_words g c)) ?gs"
  have r: "read_buf True (memory_of (scaler_words g c)) 308 s = Some (let t = plus_gates g (sc_scaler s); out = (sc_out_count s + 1 \<ge> sc_interval s)
     in s\<lparr>sc_scaler := (if out \<and> sc_clear_flag s then clear_table t else t), sc_blk_cnt := sc_blk_cnt s + 1,
          sc_data_flag := True, sc_out_count := (if out then 0 else sc_out_count s + 1),
          sc_shows := sc_shows s @ (if out then [(1, sc_run s, sc_blk_cnt s + 1, t)] else [])\<rparr>)" for g c s
    by (rule read_buf_scaler [OF memory_of_at]) simp_all
  obtain s' where s': "scl_main True ?bs ?s = Some s'" "sc_blk_cnt s' = 2" "sc_scaler s' 3 15 = 10"
    by (simp add: r Let_def plus_gates_def demo_scl_def)
  have "same_counts ?s demo_di" "sums_ok demo_di" "MNOSCLRS * NCHS \<le> DI_MAXNSCLRS demo_conf"
    by (simp_all add: same_counts_def sums_ok_def flat_def demo_di_def demo_scl_def demo_conf_def MNOSCLRS_def NCHS_def)
  moreover have "\<forall>b\<in>set ?bs. fst (assign_j11 True (scl_view True b) (int (length b))) \<notin> {BLK_START, BLK_END}"
    using run_boundaries_are_never_seen [of True] by blast
  ultimately obtain d' where d': "di_loop demo_conf True [] ?bs demo_di = Some d'" "same_counts s' d'" "di_ndata d' = di_ndata demo_di + BLKSIZE * int (length ?bs)"
    using segment_follows_display [OF s'(1), of demo_di demo_conf "[]"] by auto
  then have "di_scaler d' 63 = 10" "di_nblkrun d' = 2" "di_ndata d' = 32768"
    using s'(2,3) by (simp_all add: same_counts_def flat_def NCHS_def demo_di_def BLKSIZE_def)
  then show ?thesis
    using d'(1) by blast
qed

section \<open>How it fails\<close>

text \<open>At the start of a run only the first six of the 96 counters are cleared, because the index is advanced behind the inner
  loop; the others and the sums keep what the previous run left.\<close>

theorem run_start_keeps_most_counters:
  "di_scaler (di_start_block cf little junk c s) k = (if k < 6 then 0 else di_scaler s k)"
  "di_sum (di_start_block cf little junk c s) = di_sum s"
proof -
  have "fold (\<lambda>j t. t(k := 0)) [0 ..< n] t = (\<lambda>a. if a = k \<and> n \<noteq> 0 then 0 else t a)" for k n and t :: counters
    by (induction n) (auto simp: fun_eq_iff)
  then have "fold (\<lambda>k t. fold (\<lambda>j t. t(k := 0)) [0 ..< NCHS] t) [0 ..< n] t = (\<lambda>k. if k < n then 0 else t k)" for n and t :: counters
    by (induction n) (auto simp: NCHS_def fun_eq_iff)
  then show "di_scaler (di_start_block cf little junk c s) k = (if k < 6 then 0 else di_scaler s k)"
    by (simp add: di_start_block_def clear_scalers_di_def clear_di_def show_di_def put_comment_def Let_def NSCLRS_def)
  show "di_sum (di_start_block cf little junk c s) = di_sum s"
    by (simp add: di_start_block_def clear_scalers_di_def clear_di_def show_di_def put_comment_def Let_def)
qed

text \<open>When the segment can be made but not attached, the program ends without removing it, and it cannot be started again without
  \<^verbatim>\<open>-r\<close>.\<close>

theorem failed_start_leaves_segment:
  assumes "kshm K key = None" and "DI_SIZEOF cf \<le> DI_SHMSIZE cf" and "DI_SHMSIZE cf \<le> kshm_max K"
  shows "\<exists>K'. di_main cf little r key False junk bufs (K, s) = Some (Inl (1, K')) \<and> kshm K' key \<noteq> None \<and>
    di_main cf little False key att junk' bufs' (K', s') = Some (Inl (1, K')) \<and> daqinfo key True (K', s) \<noteq> None"
  using assms by (simp add: di_main_def remove_shm_di_def create_shm_di_def shmget_def shmget_excl_def clear_shm_def daqinfo_def Let_def not_less)

theorem failed_start_leaves_segment_witness:
  "\<exists>K'. di_main demo_conf True False 5 False [] [] (\<lparr>kshm = (\<lambda>k. None), kmsg = (\<lambda>k. None), kshm_max = 65536, kmsg_cap = 64\<rparr>, demo_di) = Some (Inl (1, K')) \<and>
     di_main demo_conf True False 5 True [] [] (K', demo_di) = Some (Inl (1, K'))"
proof -
  let ?K = "\<lparr>kshm = (\<lambda>k. None), kmsg = (\<lambda>k. None), kshm_max = 65536, kmsg_cap = 64\<rparr> :: kernel"
  have "kshm ?K 5 = None" "DI_SIZEOF demo_conf \<le> DI_SHMSIZE demo_conf" "DI_SHMSIZE demo_conf \<le> kshm_max ?K"
    by (simp_all add: demo_conf_def)
  from failed_start_leaves_segment [OF this, of True False "[]" "[]" demo_di True "[]" "[]" demo_di] show ?thesis
    by auto
qed

end
