(* ===== verification/Tcp_Tools.thy ===== *)
theory Tcp_Tools
  imports Block_Transfer Scaler_Show
begin

text \<open>
  More programs of \<^verbatim>\<open>router/tools\<close> at the ends of a connection: \<^verbatim>\<open>tcp_send.c\<close>, which sends a file to a client of the first
  version of the protocol, its clients \<^verbatim>\<open>tcp_cat_v1.c\<close> and \<^verbatim>\<open>tcp_read.c\<close>, and \<^verbatim>\<open>tcp_dump.c\<close>, a client of the second version that
  prints. Connections and files are lists of what the calls of \<^verbatim>\<open>read\<close> deliver, as in \<open>Block_Transfer\<close>.
\<close>

section \<open>The server for a file\<close>

definition SEND_BLKSIZE :: int where "SEND_BLKSIZE = 0x4000"
definition sizeof_info1 :: nat where "sizeof_info1 = 64"

text \<open>The options: block size and name of the file; \<open>Inl\<close> is an exit.\<close>

definition snd_args :: "string list \<Rightarrow> int + int \<times> string option" where
  "snd_args args =
     (if args \<noteq> [] \<and> hd args = ''-h'' then Inl 1
      else
        let (n, rest) = (if 2 \<le> length args \<and> hd args = ''-b'' then (c_int (atoi (args ! 1)), drop 2 args) else (SEND_BLKSIZE, args))
        in if 2 \<le> length rest then Inl 1
           else Inr (n, case rest of [] \<Rightarrow> None | f # fs \<Rightarrow> Some f))"

text \<open>One call of \<^verbatim>\<open>read\<close> for \<open>k > 0\<close> bytes: \<open>None\<close> inside is an error. The outer \<open>None\<close> is a wait.\<close>

fun read1 :: "nat \<Rightarrow> rd list \<Rightarrow> (byte list option \<times> rd list) option" where
  "read1 k [] = None"
| "read1 k (Eintr # rs) = Some (None, rs)"
| "read1 k (Fail # rs) = Some (None, rs)"
| "read1 k (Data d # rs) = Some (Some (take k d), if drop k d = [] then rs else Data (drop k d) # rs)"

text \<open>At the end of the file \<^verbatim>\<open>read\<close> is tried a second time.\<close>

definition read_twice :: "nat \<Rightarrow> rd list \<Rightarrow> (byte list option \<times> rd list) option" where
  "read_twice k rs =
     (case read1 k rs of
        None \<Rightarrow> None
      | Some (d, rs1) \<Rightarrow> if d = Some [] then map_option (map_prod (\<lambda>d. case d of Some (b # bs) \<Rightarrow> d | _ \<Rightarrow> None) id) (read1 k rs1) else Some (d, rs1))"

text \<open>\<^verbatim>\<open>get_buf\<close>: the function returns at the end of the file and after an error, so that the fill with zeros is never reached.\<close>

definition store_at :: "nat \<Rightarrow> byte list \<Rightarrow> byte list \<Rightarrow> byte list" where
  "store_at n d buf = take n buf @ d @ drop (n + length d) buf"

function get_file_buf :: "nat \<Rightarrow> nat \<Rightarrow> byte list \<Rightarrow> rd list \<Rightarrow> (nat \<times> byte list \<times> rd list) option" where
  "get_file_buf blk n buf rs =
     (if n < blk then
        (case read_twice (blk - n) rs of
           None \<Rightarrow> None
         | Some (None, rs1) \<Rightarrow> Some (n, buf, rs1)
         | Some (Some [], rs1) \<Rightarrow> Some (n, buf, rs1)
         | Some (Some (b # bs), rs1) \<Rightarrow> get_file_buf blk (n + length (b # bs)) (store_at n (b # bs) buf) rs1)
      else Some (n, store_at n (replicate (blk - n) 0) buf, rs))"
  by pat_completeness auto
termination
  by (relation "measure (\<lambda>(blk, n, buf, rs). blk - n)") auto

declare get_file_buf.simps [simp del]

text \<open>\<open>n_take\<close> is how much a write takes, as in \<open>Block_Transfer\<close>; a write that fails is only reported.\<close>

record sender =
  n_file :: "rd list"
  n_blk :: nat
  n_buf :: "byte list"
  n_input :: "rd list"
  n_take :: "nat \<Rightarrow> nat \<Rightarrow> nat option"
  n_writes :: nat
  n_out :: "byte list"

definition snd_write :: "byte list \<Rightarrow> sender \<Rightarrow> bool \<times> sender" where
  "snd_write b s =
     (n_take s (n_writes s) (length b) \<noteq> None,
      s\<lparr>n_writes := n_writes s + 1, n_out := n_out s @ (case n_take s (n_writes s) (length b) of None \<Rightarrow> [] | Some k \<Rightarrow> take k b)\<rparr>)"

text \<open>The request of the client and the answer; \<open>Inl\<close> is the return of \<^verbatim>\<open>send_data\<close>.\<close>

definition snd_request :: "byte list \<Rightarrow> sender \<Rightarrow> (sender + sender) option" where
  "snd_request junk s =
     (case recv True sizeof_info1 (n_input s) of
        None \<Rightarrow> None
      | Some (Inl u) \<Rightarrow> Some (Inl s)
      | Some (Inr (ps, e, rs)) \<Rightarrow>
          let s1 = s\<lparr>n_input := rs\<rparr>
          in Some
            (if e then Inl s1
             else if ntohl (take 4 (concat ps)) \<noteq> ROUTER_INET_VERSION_1 then Inl (snd (snd_write (htonl E_VERSION @ junk) s1))
             else
               case snd_write (htonl E_NOERR @ htonl (int (n_blk s1)) @ replicate 8 0) s1 of
                 (ok, s2) \<Rightarrow> if ok then Inr s2 else Inl s2))"

text \<open>One pass of the loop over the blocks: the whole buffer is sent, whatever the size; the value of the reply is only reported.\<close>

definition snd_pass :: "sender \<Rightarrow> (sender + sender) option" where
  "snd_pass s =
     (case get_file_buf (n_blk s) 0 (n_buf s) (n_file s) of
        None \<Rightarrow> None
      | Some (n, buf, fs) \<Rightarrow>
          let s1 = s\<lparr>n_buf := buf, n_file := fs\<rparr>
          in if n = 0 then Some (Inl s1)
             else
               let s2 = snd (snd_write buf s1)
               in map_option (\<lambda>(got, rs). Inr (s2\<lparr>n_input := rs\<rparr>)) (reply_loop 4 (n_input s2)))"

fun snd_loop :: "nat \<Rightarrow> sender \<Rightarrow> (sender + sender) option" where
  "snd_loop 0 s = Some (Inr s)"
| "snd_loop (Suc k) s =
     (case snd_pass s of
        None \<Rightarrow> None
      | Some (Inl s') \<Rightarrow> Some (Inl s')
      | Some (Inr s') \<Rightarrow> snd_loop k s')"

definition send_file :: "nat \<Rightarrow> byte list \<Rightarrow> sender \<Rightarrow> (sender + sender) option" where
  "send_file k junk s =
     (case snd_request junk s of
        None \<Rightarrow> None
      | Some (Inl s') \<Rightarrow> Some (Inl s')
      | Some (Inr s') \<Rightarrow> snd_loop k s')"

section \<open>Clients of the first version\<close>

text \<open>The answer to the connection: result and block size; the pieces of the answer are stored over each other.\<close>

definition v1_info2 :: "byte list \<Rightarrow> rd list \<Rightarrow> (unit + int \<times> int \<times> rd list) option" where
  "v1_info2 junk rs =
     map_option (\<lambda>r. case r of
         Inl u \<Rightarrow> Inl ()
       | Inr (ps, e, rs') \<Rightarrow>
           let m = overwrite junk ps in if e then Inl () else Inr (ntohl (take 4 m), ntohl (take 4 (drop 4 m)), rs'))
       (recv True sizeof_info2 rs)"

record v1 =
  v_input :: "rd list"
  v_bufsize :: nat
  v_acks :: nat
  v_ack_ok :: "nat \<Rightarrow> bool"
  v_out :: "byte list"

text \<open>\<open>mok\<close>: whether \<^verbatim>\<open>malloc\<close> succeeds.\<close>

definition v1_connect :: "(nat \<Rightarrow> bool) \<Rightarrow> byte list \<Rightarrow> v1 \<Rightarrow> (ending \<times> v1 + v1) option" where
  "v1_connect mok junk s =
     map_option (\<lambda>r. case r of
         Inl u \<Rightarrow> Inl (Leave, s)
       | Inr (res, n, rs) \<Rightarrow>
           let s1 = s\<lparr>v_input := rs\<rparr>
           in if res \<noteq> E_NOERR then Inl (Exit 1, s1)
              else if n < 0 \<or> \<not> mok (nat n) then Inl (Exit 1, s1)
              else Inr (s1\<lparr>v_bufsize := nat n\<rparr>))
       (v1_info2 junk (v_input s))"

definition v1_pass :: "v1 \<Rightarrow> (ending \<times> v1 + v1) option" where
  "v1_pass s =
     map_option (\<lambda>r. case r of
         Inl u \<Rightarrow> Inl (Exit 1, s)
       | Inr (ds, e, rs) \<Rightarrow>
           if e then Inl (Leave, s\<lparr>v_input := rs\<rparr>)
           else
             let s1 = s\<lparr>v_input := rs, v_out := v_out s @ concat ds\<rparr>
             in if v_ack_ok s1 (v_acks s1) then Inr (s1\<lparr>v_acks := v_acks s1 + 1\<rparr>) else Inl (Exit 1, s1))
       (recv_loop True (v_bufsize s) (v_input s))"

fun v1_loop :: "nat \<Rightarrow> v1 \<Rightarrow> (ending \<times> v1 + v1) option" where
  "v1_loop 0 s = Some (Inr s)"
| "v1_loop (Suc k) s =
     (case v1_pass s of
        None \<Rightarrow> None
      | Some (Inl r) \<Rightarrow> Some (Inl r)
      | Some (Inr s') \<Rightarrow> v1_loop k s')"

definition tcp_cat_v1 :: "nat \<Rightarrow> (nat \<Rightarrow> bool) \<Rightarrow> byte list \<Rightarrow> v1 \<Rightarrow> (ending \<times> v1 + v1) option" where
  "tcp_cat_v1 k mok junk s =
     (case v1_connect mok junk s of
        None \<Rightarrow> None
      | Some (Inl r) \<Rightarrow> Some (Inl r)
      | Some (Inr s') \<Rightarrow> v1_loop k s')"

text \<open>
  \<^verbatim>\<open>tcp_read\<close> with the client library: \<open>tcp_open\<close> is the end of \<^verbatim>\<open>tcp_open\<close> behind the connection. A block that is cut off is
  written with what the buffer held before. \<open>outok k\<close>: whether the \<open>k\<close>-th write succeeds.
\<close>

definition tcp_open :: "byte list \<Rightarrow> rd list \<Rightarrow> (int \<times> int \<times> rd list) option" where
  "tcp_open junk rs =
     map_option (\<lambda>r. case r of
         Inl u \<Rightarrow> (-1, 0, [])
       | Inr (res, n, rs') \<Rightarrow> if res \<noteq> E_NOERR then (-1, 0, rs') else (0, n, rs'))
       (v1_info2 junk rs)"

fun tcp_read_loop :: "nat \<Rightarrow> (nat \<Rightarrow> bool) \<Rightarrow> (nat \<Rightarrow> bool) \<Rightarrow> nat \<Rightarrow> byte list \<Rightarrow> rd list \<Rightarrow> byte list \<Rightarrow> (byte list \<times> bool) option" where
  "tcp_read_loop 0 ackok outok n buf rs out = Some (out, False)"
| "tcp_read_loop (Suc k) ackok outok n buf rs out =
     (case tcp_get_buf (ackok k) n buf rs of
        None \<Rightarrow> None
      | Some (r, b, rs') \<Rightarrow>
          if r \<noteq> 0 then Some (out, True)
          else if outok k then tcp_read_loop k ackok outok n b rs' (out @ b)
          else Some (out, True))"

definition tcp_read :: "nat \<Rightarrow> (nat \<Rightarrow> bool) \<Rightarrow> (nat \<Rightarrow> bool) \<Rightarrow> (nat \<Rightarrow> byte list option) \<Rightarrow> byte list \<Rightarrow> rd list \<Rightarrow> (int \<times> byte list) option" where
  "tcp_read k ackok outok alloc junk rs =
     (case tcp_open junk rs of
        None \<Rightarrow> None
      | Some (r, n, rs') \<Rightarrow>
          if r < 0 then Some (1, [])
          else if n < 0 then Some (1, [])
          else
            (case alloc (nat n) of
               None \<Rightarrow> Some (1, [])
             | Some buf \<Rightarrow> map_option (\<lambda>(out, e). (0, out)) (tcp_read_loop k ackok outok (nat n) buf rs' [])))"

section \<open>The client that prints\<close>

definition DEF_NBYTES :: int where "DEF_NBYTES = 16"

text \<open>The words that are printed of a block; \<open>x\<close> is the byte behind it, which is read when its size is odd.\<close>

definition dump :: "int \<Rightarrow> byte \<Rightarrow> byte list \<Rightarrow> 16 word list" where
  "dump nbytes x b =
     (let n = (if nbytes \<le> int (length b) then nbytes else int (length b)) + 1
      in take (nat (n div 2)) (words_of False (b @ [x])))"

record td =
  d_input :: "rd list"
  d_info3 :: "byte list"
  d_acks :: nat
  d_ack_ok :: "nat \<Rightarrow> bool"
  d_mok :: "nat \<Rightarrow> bool"
  d_shown :: "16 word list list"

definition td_pass :: "int \<Rightarrow> byte \<Rightarrow> td \<Rightarrow> (ending \<times> td + td) option" where
  "td_pass nbytes x s =
     (case recv True (nat sizeof_info3) (d_input s) of
        None \<Rightarrow> None
      | Some (Inl u) \<Rightarrow> Some (Inl (Exit 1, s))
      | Some (Inr (ps, e, rs)) \<Rightarrow>
          let s1 = s\<lparr>d_input := rs, d_info3 := overwrite (d_info3 s) ps\<rparr>; n = blk_size_of (d_info3 s1) in
          if e \<or> n < 0 \<or> \<not> d_mok s1 (nat n) then Some (Inl (Leave, s1))
          else
            (case recv_loop True (nat n) rs of
               None \<Rightarrow> None
             | Some (Inl u) \<Rightarrow> Some (Inl (Exit 1, s1))
             | Some (Inr (ds, e', rs')) \<Rightarrow>
                 if e' then Some (Inl (Leave, s1\<lparr>d_input := rs'\<rparr>))
                 else
                   let s2 = s1\<lparr>d_input := rs', d_shown := d_shown s1 @ [dump nbytes x (concat ds)]\<rparr>
                   in Some (if d_ack_ok s2 (d_acks s2) then Inr (s2\<lparr>d_acks := d_acks s2 + 1\<rparr>) else Inl (Exit 1, s2))))"

fun td_loop :: "nat \<Rightarrow> int \<Rightarrow> byte \<Rightarrow> td \<Rightarrow> (ending \<times> td + td) option" where
  "td_loop 0 nbytes x s = Some (Inr s)"
| "td_loop (Suc k) nbytes x s =
     (case td_pass nbytes x s of
        None \<Rightarrow> None
      | Some (Inl r) \<Rightarrow> Some (Inl r)
      | Some (Inr s') \<Rightarrow> td_loop k nbytes x s')"

section \<open>A file that is sent\<close>

text \<open>What is sent of a file \<open>f\<close> when the buffer holds \<open>buf\<close>: the last block keeps the end of what was there before.\<close>

function sent_bytes :: "nat \<Rightarrow> byte list \<Rightarrow> byte list \<Rightarrow> byte list" where
  "sent_bytes blk buf f =
     (if f = [] \<or> blk = 0 then []
      else let b = take blk f @ drop (length (take blk f)) buf in b @ sent_bytes blk b (drop blk f))"
  by pat_completeness auto
termination
  by (relation "measure (\<lambda>(blk, buf, f). length f)") auto

declare sent_bytes.simps [simp del]

lemma sent_bytes_prefix:
  assumes "0 < blk" and "length buf = blk"
  shows "take (length f) (sent_bytes blk buf f) = f \<and> length f \<le> length (sent_bytes blk buf f)"
  using assms
proof (induction blk buf f rule: sent_bytes.induct)
  case (1 blk buf f)
  show ?case
  proof (cases "f = []")
    case False
    define b where "b = take blk f @ drop (length (take blk f)) buf"
    have s: "sent_bytes blk buf f = b @ sent_bytes blk b (drop blk f)"
      using False 1(2) by (simp add: sent_bytes.simps [of blk buf f] b_def Let_def)
    have l: "length b = blk"
      using 1(3) by (simp add: b_def)
    have i: "take (length f - blk) (sent_bytes blk b (drop blk f)) = drop blk f \<and> length f - blk \<le> length (sent_bytes blk b (drop blk f))"
      using "1.IH" [OF _ b_def] False 1(2) l by simp
    have "take (length f) b = take blk f"
      using 1(3) by (cases "length f \<le> blk") (simp_all add: b_def)
    then have "take (length f) (b @ sent_bytes blk b (drop blk f)) = take blk f @ drop blk f"
      using i by (simp add: l)
    moreover have "length f \<le> blk + length (sent_bytes blk b (drop blk f))"
      using i by linarith
    ultimately show ?thesis
      using i by (simp add: s l)
  qed (simp add: sent_bytes.simps)
qed

lemma read_twice_clean:
  assumes "clean rs" and "0 < k" and "stream_of rs \<noteq> []"
  obtains d rs' where "read_twice k (rs @ es) = Some (Some d, rs' @ es)" and "clean rs'" and "stream_of rs = d @ stream_of rs'" and "d \<noteq> []" and "length d \<le> k"
proof -
  obtain b bs rs0 where r: "rs = Data (b # bs) # rs0" "clean rs0"
    using assms(1,3) by (cases rs) (auto elim: clean_cases)
  show thesis
  proof (cases "drop k (b # bs) = []")
    case True
    then have "take k (b # bs) = b # bs"
      by simp
    then show thesis
      using r True by (intro that [of "b # bs" rs0]) (auto simp: read_twice_def simp del: take_Cons drop_Cons)
  next
    case False
    then have "clean (Data (drop k (b # bs)) # rs0)" "stream_of (Data (drop k (b # bs)) # rs0) = drop k (b # bs) @ stream_of rs0"
      using r(2) by (cases "drop k (b # bs)"; simp)+
    moreover have "b # bs = take k (b # bs) @ drop k (b # bs)"
      by simp
    moreover have "take k (b # bs) \<noteq> []"
      using assms(2) by (cases k) auto
    ultimately show thesis
      using r False assms(2) by (intro that [of "take k (b # bs)" "Data (drop k (b # bs)) # rs0"])
        (auto simp: read_twice_def simp del: take_Cons drop_Cons append_take_drop_id)
  qed
qed

lemma get_file_buf_clean:
  assumes "clean rs" and "n \<le> blk" and "length buf = blk" and "2 \<le> z"
  shows "\<exists>rs' z'. get_file_buf blk n buf (rs @ replicate z (Data [])) =
      Some (n + length (take (blk - n) (stream_of rs)), store_at n (take (blk - n) (stream_of rs)) buf, rs' @ replicate z' (Data [])) \<and>
    clean rs' \<and> stream_of rs' = drop (blk - n) (stream_of rs) \<and> (z' = z \<or> stream_of rs' = [] \<and> z' = z - 2)"
  using assms(1-3)
proof (induction "blk - n" arbitrary: n buf rs rule: less_induct)
  case less
  show ?case
  proof (cases "n < blk")
    case True
    show ?thesis
    proof (cases "stream_of rs = []")
      case e: True
      then have "rs = []"
        using less.prems(1) by (cases rs) (auto elim: clean_cases)
      moreover obtain y where "z = Suc (Suc y)"
        using assms(4) by (metis One_nat_def Suc_1 Suc_le_D Suc_le_mono)
      ultimately have "get_file_buf blk n buf (rs @ replicate z (Data [])) = Some (n, buf, replicate (z - 2) (Data []))"
        using True by (simp add: get_file_buf.simps [of blk n] read_twice_def)
      then show ?thesis
        using e by (intro exI [of _ "[]"] exI [of _ "z - 2"]) (simp add: store_at_def)
    next
      case ne: False
      obtain d rs1 where d: "read_twice (blk - n) (rs @ replicate z (Data [])) = Some (Some d, rs1 @ replicate z (Data []))" "clean rs1"
        "stream_of rs = d @ stream_of rs1" "d \<noteq> []" "length d \<le> blk - n"
        using read_twice_clean [OF less.prems(1) _ ne, of "blk - n"] True by (metis zero_less_diff)
      have g: "get_file_buf blk n buf (rs @ replicate z (Data [])) = get_file_buf blk (n + length d) (store_at n d buf) (rs1 @ replicate z (Data []))"
        using True d(1,4) by (cases d) (simp_all add: get_file_buf.simps [of blk n])
      have l: "length (store_at n d buf) = blk"
        using less.prems(2,3) d(5) by (simp add: store_at_def)
      have "blk - (n + length d) < blk - n"
        using True d(4) by (cases d) auto
      have nd: "n + length d \<le> blk"
        using d(5) True by linarith
      from less.hyps [OF \<open>blk - (n + length d) < blk - n\<close> d(2) nd l] obtain rs' z' where
        r: "get_file_buf blk (n + length d) (store_at n d buf) (rs1 @ replicate z (Data [])) =
          Some (n + length d + length (take (blk - (n + length d)) (stream_of rs1)),
            store_at (n + length d) (take (blk - (n + length d)) (stream_of rs1)) (store_at n d buf), rs' @ replicate z' (Data []))"
        "clean rs'" "stream_of rs' = drop (blk - (n + length d)) (stream_of rs1)" "z' = z \<or> stream_of rs' = [] \<and> z' = z - 2"
        by blast
      have t: "take (blk - n) (stream_of rs) = d @ take (blk - (n + length d)) (stream_of rs1)" "drop (blk - n) (stream_of rs) = drop (blk - (n + length d)) (stream_of rs1)"
        using d(3,5) by simp_all
      have "store_at (n + length d) u (store_at n d buf) = store_at n (d @ u) buf" for u
        using less.prems(2,3) d(5) by (simp add: store_at_def ac_simps)
      then show ?thesis
        using r by (intro exI [of _ rs'] exI [of _ z']) (simp add: g t add.assoc)
    qed
  next
    case False
    then have "get_file_buf blk n buf (rs @ replicate z (Data [])) = Some (n, buf, rs @ replicate z (Data []))"
      using less.prems(2,3) by (subst get_file_buf.simps) (simp add: store_at_def)
    then show ?thesis
      using less.prems False by (intro exI [of _ rs] exI [of _ z]) (simp add: store_at_def)
  qed
qed

text \<open>One pass with a file that still holds bytes: one block more is sent, and one reply is taken.\<close>

lemma snd_pass_block:
  assumes "n_file s = fs @ replicate z (Data [])" and "clean fs" and "stream_of fs \<noteq> []" and "2 \<le> z"
    and "length (n_buf s) = n_blk s" and "0 < n_blk s" and "\<And>i l. n_take s i l = Some l"
    and "clean (n_input s)" and "4 \<le> length (stream_of (n_input s))"
  shows "\<exists>fs' z' rs b. b = take (n_blk s) (stream_of fs) @ drop (length (take (n_blk s) (stream_of fs))) (n_buf s) \<and>
    snd_pass s = Some (Inr (s\<lparr>n_buf := b, n_file := fs' @ replicate z' (Data []), n_writes := n_writes s + 1, n_out := n_out s @ b, n_input := rs\<rparr>)) \<and>
    clean fs' \<and> stream_of fs' = drop (n_blk s) (stream_of fs) \<and> (z' = z \<or> stream_of fs' = [] \<and> z' = z - 2) \<and>
    clean rs \<and> stream_of rs = drop 4 (stream_of (n_input s))"
proof -
  from get_file_buf_clean [OF assms(2) _ assms(5,4), of 0] obtain fs' z' where
    g: "get_file_buf (n_blk s) 0 (n_buf s) (n_file s) = Some (length (take (n_blk s) (stream_of fs)), store_at 0 (take (n_blk s) (stream_of fs)) (n_buf s), fs' @ replicate z' (Data []))"
      "clean fs'" "stream_of fs' = drop (n_blk s) (stream_of fs)" "z' = z \<or> stream_of fs' = [] \<and> z' = z - 2"
    unfolding assms(1) by auto
  from recv_clean [OF assms(8,9), of True] obtain ps rs where
    r: "recv True 4 (n_input s) = Some (Inr (ps, False, rs))" "stream_of rs = drop 4 (stream_of (n_input s))" "clean rs"
    by blast
  have l: "reply_loop 4 (n_input s) = Some (concat ps, rs)"
    by (rule reply_loop_recv [OF r(1) assms(8)])
  have "length (take (n_blk s) (stream_of fs)) \<noteq> 0"
    using assms(3,6) by simp
  then have "snd_pass s = Some (Inr (s\<lparr>n_buf := store_at 0 (take (n_blk s) (stream_of fs)) (n_buf s), n_file := fs' @ replicate z' (Data []),
      n_writes := n_writes s + 1, n_out := n_out s @ store_at 0 (take (n_blk s) (stream_of fs)) (n_buf s), n_input := rs\<rparr>))"
    using g(1) l assms(7) by (simp add: snd_pass_def snd_write_def Let_def del: length_take)
  then show ?thesis
    using g r by (intro exI [of _ fs'] exI [of _ z'] exI [of _ rs]) (simp add: store_at_def)
qed

lemma snd_loop_sends:
  assumes "n_file s = fs @ replicate z (Data [])" and "clean fs" and "4 \<le> z \<or> stream_of fs = [] \<and> 2 \<le> z"
    and "length (n_buf s) = n_blk s" and "0 < n_blk s" and "\<And>i l. n_take s i l = Some l"
    and "clean (n_input s)" and "4 * (length (sent_bytes (n_blk s) (n_buf s) (stream_of fs)) div n_blk s) \<le> length (stream_of (n_input s))"
    and "length (stream_of fs) < k"
  shows "\<exists>s'. snd_loop k s = Some (Inl s') \<and> n_out s' = n_out s @ sent_bytes (n_blk s) (n_buf s) (stream_of fs)"
  using assms
proof (induction k arbitrary: s fs z)
  case (Suc k)
  show ?case
  proof (cases "stream_of fs = []")
    case True
    have z2: "2 \<le> z"
      using Suc.prems(3) by auto
    from get_file_buf_clean [OF Suc.prems(2) _ Suc.prems(4) z2, of 0] obtain fs' z' where
      "get_file_buf (n_blk s) 0 (n_buf s) (n_file s) = Some (0, store_at 0 [] (n_buf s), fs' @ replicate z' (Data []))"
      unfolding Suc.prems(1) True by auto
    then show ?thesis
      using True by (simp add: snd_pass_def Let_def sent_bytes.simps)
  next
    case False
    have z2: "4 \<le> z"
      using Suc.prems(3) False by auto
    let ?b = "take (n_blk s) (stream_of fs) @ drop (length (take (n_blk s) (stream_of fs))) (n_buf s)"
    have sb: "sent_bytes (n_blk s) (n_buf s) (stream_of fs) = ?b @ sent_bytes (n_blk s) ?b (drop (n_blk s) (stream_of fs))"
      using False Suc.prems(5) by (simp add: sent_bytes.simps [of "n_blk s" "n_buf s" "stream_of fs"] Let_def)
    have lb: "length ?b = n_blk s"
      using Suc.prems(4) by simp
    have dv: "length (sent_bytes (n_blk s) (n_buf s) (stream_of fs)) div n_blk s =
        Suc (length (sent_bytes (n_blk s) ?b (drop (n_blk s) (stream_of fs))) div n_blk s)"
      unfolding sb length_append [of ?b] lb using Suc.prems(5) div_add_self1 [of "n_blk s"] by (metis Suc_eq_plus1 less_numeral_extra(3) add.commute)
    have z3: "2 \<le> z" and i4: "4 \<le> length (stream_of (n_input s))"
      using z2 Suc.prems(8) dv by simp_all
    from snd_pass_block [OF Suc.prems(1,2) False z3 Suc.prems(4-7) i4] obtain fs' z' rs where
      p: "snd_pass s = Some (Inr (s\<lparr>n_buf := ?b, n_file := fs' @ replicate z' (Data []), n_writes := n_writes s + 1, n_out := n_out s @ ?b, n_input := rs\<rparr>))"
        "clean fs'" "stream_of fs' = drop (n_blk s) (stream_of fs)" "z' = z \<or> stream_of fs' = [] \<and> z' = z - 2"
        "clean rs" "stream_of rs = drop 4 (stream_of (n_input s))"
      by blast
    let ?s = "s\<lparr>n_buf := ?b, n_file := fs' @ replicate z' (Data []), n_writes := n_writes s + 1, n_out := n_out s @ ?b, n_input := rs\<rparr>"
    have "4 \<le> z' \<or> stream_of fs' = [] \<and> 2 \<le> z'"
      using p(4) z2 by auto
    moreover have "4 * (length (sent_bytes (n_blk s) ?b (stream_of fs')) div n_blk s) \<le> length (stream_of rs)"
      using Suc.prems(8) dv p(3,6) by simp
    moreover have "length (stream_of fs') < k"
    proof -
      have "length (stream_of fs) \<noteq> 0"
        using False by simp
      then show ?thesis
        using Suc.prems(5,9) unfolding p(3) length_drop by linarith
    qed
    ultimately have "\<exists>s'. snd_loop k ?s = Some (Inl s') \<and> n_out s' = (n_out s @ ?b) @ sent_bytes (n_blk s) ?b (stream_of fs')"
      using Suc.IH [of ?s fs' z'] p(2,5) lb Suc.prems(5,6) by simp
    then show ?thesis
      using p(1) by (simp add: sb p(3))
  qed
qed simp

text \<open>What comes behind the bytes that are asked for does not matter.\<close>

lemma map_sum_InrE:
  assumes "map_sum f g x = Inr y"
  obtains z where "x = Inr z" and "y = g z"
  using assms by (cases x) auto

lemma recv_append:
  "recv stop n rs = Some (Inr (ps, False, rs')) \<Longrightarrow> recv stop n (rs @ es) = Some (Inr (ps, False, rs' @ es))"
proof (induction stop n rs arbitrary: ps rule: recv.induct)
  case (6 stop k b bs rs)
  define ds where "ds = take (Suc k) (b # bs)"
  define rest where "rest = drop (Suc k) (b # bs)"
  define rs1 where "rs1 = (if rest = [] then rs else Data rest # rs)"
  have step: "recv stop (Suc k) (Data (b # bs) # rs) = map_option (map_sum id (\<lambda>(ps, e, rs'). (ds # ps, e, rs'))) (recv stop (Suc k - length ds) rs1)"
    "recv stop (Suc k) (Data (b # bs) # rs @ es) = map_option (map_sum id (\<lambda>(ps, e, rs'). (ds # ps, e, rs'))) (recv stop (Suc k - length ds) (rs1 @ es))"
    unfolding recv.simps ds_def rest_def rs1_def Let_def by simp_all
  from "6.prems" obtain qs where q: "ps = ds # qs" "recv stop (Suc k - length ds) rs1 = Some (Inr (qs, False, rs'))"
    unfolding step(1) by (auto elim!: map_sum_InrE)
  from "6.IH" [OF ds_def rest_def, folded rs1_def, OF q(2)]
  have "recv stop (Suc k - length ds) (rs1 @ es) = Some (Inr (qs, False, rs' @ es))" .
  then show ?case
    using q(1) step(2) by simp
qed (auto split: if_splits)

lemma recv_loop_clean_end:
  assumes "clean rs" and "0 < n" and "n \<le> length (stream_of rs)"
  shows "\<exists>ps rs'. recv_loop stop n (rs @ es) = Some (Inr (ps, False, rs' @ es)) \<and> concat ps = take n (stream_of rs) \<and>
    stream_of rs' = drop n (stream_of rs) \<and> clean rs'"
  using recv_clean [OF assms(1,3), of stop] recv_append assms(2) by (fastforce simp: recv_loop_def)

text \<open>The client on the other side: whole blocks are written as they are, and the end of the connection ends the loop.\<close>

lemma v1_loop_copies:
  assumes "v_input s = rs @ [Data []]" and "clean rs" and "length (stream_of rs) = m * v_bufsize s" and "0 < v_bufsize s"
    and "\<And>i. v_ack_ok s i" and "m < k"
  shows "\<exists>s'. v1_loop k s = Some (Inl (Leave, s')) \<and> v_out s' = v_out s @ stream_of rs"
  using assms
proof (induction k arbitrary: s rs m)
  case (Suc k)
  show ?case
  proof (cases m)
    case 0
    then have "rs = []"
      using Suc.prems(2,3) by (cases rs) (auto elim: clean_cases)
    then show ?thesis
      using Suc.prems(1,4) by (cases "v_bufsize s") (simp_all add: v1_pass_def recv_loop_def Let_def)
  next
    case (Suc j)
    then have "v_bufsize s \<le> length (stream_of rs)"
      using Suc.prems(3) by simp
    from recv_loop_clean_end [OF Suc.prems(2,4) this] obtain ps rs' where
      r: "recv_loop True (v_bufsize s) (rs @ [Data []]) = Some (Inr (ps, False, rs' @ [Data []]))" "concat ps = take (v_bufsize s) (stream_of rs)"
        "stream_of rs' = drop (v_bufsize s) (stream_of rs)" "clean rs'"
      by blast
    let ?s = "s\<lparr>v_input := rs' @ [Data []], v_out := v_out s @ take (v_bufsize s) (stream_of rs), v_acks := v_acks s + 1\<rparr>"
    have "v1_pass s = Some (Inr ?s)"
      using r(1,2) Suc.prems(1,5) by (simp add: v1_pass_def Let_def)
    moreover have "length (stream_of rs') = j * v_bufsize ?s"
      using r(3) Suc.prems(3) Suc by simp
    ultimately show ?thesis
      using Suc.IH [of ?s rs' j] r(3,4) Suc.prems(4-6) Suc by auto
  qed
qed simp

lemma sent_bytes_blocks:
  assumes "0 < blk" and "length buf = blk"
  shows "\<exists>m. length (sent_bytes blk buf f) = m * blk \<and> m \<le> length f"
  using assms
proof (induction blk buf f rule: sent_bytes.induct)
  case (1 blk buf f)
  show ?case
  proof (cases "f = []")
    case False
    define b where "b = take blk f @ drop (length (take blk f)) buf"
    have s: "sent_bytes blk buf f = b @ sent_bytes blk b (drop blk f)"
      using False 1(2) by (simp add: sent_bytes.simps [of blk buf f] b_def Let_def)
    have l: "length b = blk"
      using 1(3) by (simp add: b_def)
    obtain m where m: "length (sent_bytes blk b (drop blk f)) = m * blk" "m \<le> length f - blk"
      using "1.IH" [OF _ b_def] False 1(2) l by auto
    have "length f \<noteq> 0"
      using False by simp
    then have "Suc m \<le> length f"
      using m(2) 1(2) by linarith
    then show ?thesis
      using m(1) l s by (intro exI [of _ "Suc m"]) simp
  qed (simp add: sent_bytes.simps)
qed

text \<open>The whole exchange on the side of the server.\<close>

lemma send_file_sends:
  assumes "n_file s = fs @ replicate 4 (Data [])" and "clean fs" and "length (n_buf s) = n_blk s" and "0 < n_blk s"
    and "\<And>i l. n_take s i l = Some l" and "clean (n_input s)" and "take 4 (stream_of (n_input s)) = htonl ROUTER_INET_VERSION_1"
    and "sizeof_info1 + 4 * (length (sent_bytes (n_blk s) (n_buf s) (stream_of fs)) div n_blk s) \<le> length (stream_of (n_input s))"
    and "length (stream_of fs) < k"
  shows "\<exists>s'. send_file k junk s = Some (Inl s') \<and>
    n_out s' = n_out s @ htonl E_NOERR @ htonl (int (n_blk s)) @ replicate 8 0 @ sent_bytes (n_blk s) (n_buf s) (stream_of fs)"
proof -
  have n: "sizeof_info1 \<le> length (stream_of (n_input s))"
    using assms(8) by simp
  from recv_clean [OF assms(6) n, of True] obtain ps rs where
    r: "recv True sizeof_info1 (n_input s) = Some (Inr (ps, False, rs))" "concat ps = take sizeof_info1 (stream_of (n_input s))"
      "stream_of rs = drop sizeof_info1 (stream_of (n_input s))" "clean rs"
    by blast
  have v: "ntohl (take 4 (concat ps)) = ROUTER_INET_VERSION_1"
    using assms(7) by (simp add: r(2) sizeof_info1_def ntohl_htonl ROUTER_INET_VERSION_1_def)
  let ?h = "htonl E_NOERR @ htonl (int (n_blk s)) @ replicate 8 0"
  let ?s = "s\<lparr>n_input := rs, n_writes := n_writes s + 1, n_out := n_out s @ ?h\<rparr>"
  have "snd_request junk s = Some (Inr ?s)"
    using r(1) v assms(5) by (simp add: snd_request_def snd_write_def Let_def)
  moreover have "\<exists>s'. snd_loop k ?s = Some (Inl s') \<and> n_out s' = n_out ?s @ sent_bytes (n_blk ?s) (n_buf ?s) (stream_of fs)"
    by (rule snd_loop_sends [where z = 4]) (use assms r(3,4) in simp_all)
  ultimately show ?thesis
    by (auto simp: send_file_def)
qed

lemma recv_one_piece:
  assumes "h \<noteq> []"
  shows "recv stop (length h) (Data h # rs) = Some (Inr ([h], False, rs))"
  using assms by (cases h) simp_all

text \<open>The client: the answer in one piece, then the blocks.\<close>

lemma tcp_cat_v1_copies:
  assumes "v_input c = Data (htonl E_NOERR @ htonl (int blk) @ replicate 8 0) # rs @ [Data []]" and "clean rs"
    and "length (stream_of rs) = m * blk" and "0 < blk" and "blk < 2 ^ 31" and "\<And>i. v_ack_ok c i" and "\<And>n. mok n" and "m < k"
    and "length junk = sizeof_info2"
  shows "\<exists>c'. tcp_cat_v1 k mok junk c = Some (Inl (Leave, c')) \<and> v_out c' = v_out c @ stream_of rs"
proof -
  let ?h = "htonl E_NOERR @ htonl (int blk) @ replicate 8 (0 :: byte)"
  have l: "length ?h = 16"
    by (simp add: length_htonl)
  have "recv True (length ?h) (Data ?h # rs @ [Data []]) = Some (Inr ([?h], False, rs @ [Data []]))"
    by (rule recv_one_piece) (simp add: htonl_def)
  then have "v1_info2 junk (v_input c) = Some (Inr (E_NOERR, int blk, rs @ [Data []]))"
    using assms(1,4,5,9) unfolding v1_info2_def sizeof_info2_def l
    by (simp add: overwrite_def length_htonl ntohl_htonl E_NOERR_def Let_def)
  then have "v1_connect mok junk c = Some (Inr (c\<lparr>v_input := rs @ [Data []], v_bufsize := blk\<rparr>))"
    using assms(7) by (simp add: v1_connect_def Let_def)
  then show ?thesis
    using v1_loop_copies [of "c\<lparr>v_input := rs @ [Data []], v_bufsize := blk\<rparr>" rs m k] assms(2-4,6,8) by (simp add: tcp_cat_v1_def)
qed

text \<open>C40: The server and the client together. Both end; every byte of the file arrives in front, in order, and the client leaves at
  the end of the connection. What it has got is a whole number of blocks: the protocol has no size of a block, so that a file that does not end
  on a block is followed by bytes that do not belong to it.
\<close>

theorem sent_file_arrives:
  assumes "n_file s = fs @ replicate 4 (Data [])" and "clean fs" and "length (n_buf s) = n_blk s" and "0 < n_blk s" and "n_blk s < 2 ^ 31"
    and "\<And>i l. n_take s i l = Some l" and "n_out s = []"
    and "clean (n_input s)" and "take 4 (stream_of (n_input s)) = htonl ROUTER_INET_VERSION_1"
    and "sizeof_info1 + 4 * (length (sent_bytes (n_blk s) (n_buf s) (stream_of fs)) div n_blk s) \<le> length (stream_of (n_input s))"
    and "length (stream_of fs) < k"
    and "v_input c = Data hdr # rs @ [Data []]" and "length hdr = sizeof_info2" and "clean rs" and "v_out c = []"
    and "\<And>i. v_ack_ok c i" and "\<And>n. mok n" and "length junk' = sizeof_info2"
    and "\<And>s'. send_file k junk s = Some (Inl s') \<Longrightarrow> hdr @ stream_of rs = n_out s'"
  shows "\<exists>s' c' m. send_file k junk s = Some (Inl s') \<and> tcp_cat_v1 k mok junk' c = Some (Inl (Leave, c')) \<and> length (v_out c') = m * n_blk s \<and>
    take (length (stream_of fs)) (v_out c') = stream_of fs"
proof -
  let ?h = "htonl E_NOERR @ htonl (int (n_blk s)) @ replicate 8 (0 :: byte)"
  let ?f = "sent_bytes (n_blk s) (n_buf s) (stream_of fs)"
  obtain s' where sf: "send_file k junk s = Some (Inl s')" "n_out s' = ?h @ ?f"
    using send_file_sends [OF assms(1-4,6,8-11), of junk] assms(7) by auto
  then have "hdr @ stream_of rs = ?h @ ?f"
    using assms(19) by simp
  moreover have "length hdr = length ?h"
    using assms(13) by (simp add: length_htonl sizeof_info2_def)
  ultimately have i: "hdr = ?h" "stream_of rs = ?f"
    using append_eq_append_conv [of hdr ?h "stream_of rs" ?f] by blast+
  obtain m where m: "length ?f = m * n_blk s" "m \<le> length (stream_of fs)"
    using sent_bytes_blocks [OF assms(4,3)] by blast
  have "\<exists>c'. tcp_cat_v1 k mok junk' c = Some (Inl (Leave, c')) \<and> v_out c' = v_out c @ stream_of rs"
    by (rule tcp_cat_v1_copies [where blk = "n_blk s" and m = m]) (use assms m i in simp_all)
  then show ?thesis
    using sent_bytes_prefix [OF assms(4,3), of "stream_of fs"] m(1) i(2) assms(15) sf(1) by fastforce
qed

text \<open>Five bytes in blocks of four: the second block ends with three bytes of the first.\<close>

definition demo_snd :: sender where
  "demo_snd = \<lparr>n_file = [Data [1, 2], Data [3, 4, 5], Data [], Data [], Data [], Data []], n_blk = 4, n_buf = [0, 0, 0, 0],
     n_input = [Data ([0, 0, 1, 0] @ replicate 68 0)], n_take = (\<lambda>i l. Some l), n_writes = 0, n_out = []\<rparr>"

definition demo_v1 :: v1 where
  "demo_v1 = \<lparr>v_input = [Data [0, 0, 0, 0, 0, 0, 0, 4, 0, 0, 0, 0, 0, 0, 0, 0], Data [1, 2, 3], Data [4, 5, 2, 3, 4], Data []],
     v_bufsize = 0, v_acks = 0, v_ack_ok = (\<lambda>i. True), v_out = []\<rparr>"

theorem sent_file_arrives_witness:
  "\<exists>s' c' m. send_file 6 [] demo_snd = Some (Inl s') \<and> tcp_cat_v1 6 (\<lambda>n. True) (replicate 16 0) demo_v1 = Some (Inl (Leave, c')) \<and> length (v_out c') = m * 4 \<and>
    take 5 (v_out c') = [1, 2, 3, 4, 5]"
proof -
  let ?fs = "[Data [1, 2], Data [3, 4, 5]] :: rd list"
  have b: "sent_bytes 4 [0, 0, 0, 0] [1, 2, 3, 4, 5] = [1, 2, 3, 4, 5, 2, 3, 4]"
    by (simp add: sent_bytes.simps)
  have h: "htonl ROUTER_INET_VERSION_1 = [0, 0, 1, 0]" "htonl E_NOERR = [0, 0, 0, 0]" "htonl 4 = [0, 0, 0, 4]"
    by code_simp+
  have r: "replicate 8 (0 :: byte) = [0, 0, 0, 0, 0, 0, 0, 0]"
    by code_simp
  have z: "replicate 4 (Data []) = [Data [], Data [], Data [], Data []]"
    by code_simp
  have f: "n_file demo_snd = ?fs @ replicate 4 (Data [])"
    by (simp add: demo_snd_def z)
  have s: "stream_of ?fs = [1, 2, 3, 4, 5]" "stream_of (n_input demo_snd) = [0, 0, 1, 0] @ replicate 68 0"
    "n_blk demo_snd = 4" "n_buf demo_snd = [0, 0, 0, 0]" "n_out demo_snd = []"
    by (simp_all add: demo_snd_def)
  have c: "clean (n_input demo_snd)" "clean ?fs"
    by (simp_all add: demo_snd_def)
  have d: "take 4 (stream_of (n_input demo_snd)) = htonl ROUTER_INET_VERSION_1"
    by (simp add: s h)
  have n: "sizeof_info1 + 4 * (length (sent_bytes (n_blk demo_snd) (n_buf demo_snd) (stream_of ?fs)) div n_blk demo_snd) \<le> length (stream_of (n_input demo_snd))"
    unfolding s b sizeof_info1_def by simp
  have w: "n_take demo_snd i l = Some l" for i l
    by (simp add: demo_snd_def)
  have o: "[0, 0, 0, 0, 0, 0, 0, 4, 0, 0, 0, 0, 0, 0, 0, 0] @ stream_of [Data [1, 2, 3], Data [4, 5, 2, 3, 4]] = n_out s'"
    if "send_file 6 [] demo_snd = Some (Inl s')" for s'
    using send_file_sends [OF f c(2) _ _ w c(1) d n, of 6 "[]"] that by (auto simp: s b h r)
  have "\<exists>s' c' m. send_file 6 [] demo_snd = Some (Inl s') \<and> tcp_cat_v1 6 (\<lambda>n. True) (replicate 16 0) demo_v1 = Some (Inl (Leave, c')) \<and> length (v_out c') = m * n_blk demo_snd \<and>
    take (length (stream_of ?fs)) (v_out c') = stream_of ?fs"
    by (rule sent_file_arrives [OF f c(2) _ _ _ w _ c(1) d n, where hdr = "[0, 0, 0, 0, 0, 0, 0, 4, 0, 0, 0, 0, 0, 0, 0, 0]"
        and rs = "[Data [1, 2, 3], Data [4, 5, 2, 3, 4]]"])
      (use o in \<open>simp_all add: s demo_v1_def sizeof_info2_def\<close>)
  then show ?thesis
    by (simp add: s eval_nat_numeral)
qed

end
