(* ===== verification/Spec2Isabelle.thy ===== *)
theory Spec2Isabelle
  imports Router_Correct Router_Lib Ring_Threads Net_IO GR_Control Vme_Windows Block_Transfer Error_Log Router_Files Init3377 Daq_Info Tcp_Tools
begin

text \<open>
  Verification of udaq, the data acquisition system of the Grand Raiden spectrometer. All file names below are relative
  to \<^verbatim>\<open>src/src\<close>.

  \<^bold>\<open>The program.\<close> A \<^emph>\<open>router\<close> process (\<^verbatim>\<open>router/src\<close>) owns a shared memory segment and two System V message
  queues. Writers ask it for buffers, fill them and give them back; the router announces each filled buffer to every
  reader and takes the memory back when the last of them has released it. Programs talk to the router through
  \<^verbatim>\<open>router_lib.c\<close>. On the front end the \<^emph>\<open>collector\<close> (\<^verbatim>\<open>gr\<close>) reads memory modules and scalers over VME when the
  hardware reports a full buffer, under the control of start and stop commands that arrive over TCP; the blocks go through
  a ring buffer to a thread that sends them to the event builder. The \<^emph>\<open>format checker\<close> (\<^verbatim>\<open>router/tools\<close>) walks
  through the blocks, events, fields and regions of the data. On the other front ends \<^verbatim>\<open>vmedaq\<close> (\<^verbatim>\<open>vmedaq/vmedaq.c\<close>)
  reads its configuration file (\<^verbatim>\<open>config/config.c\<close>), sets up TDCs and ADCs, and in an endless loop reads out the
  modules that have data and sends one block for each to the client that is connected.

  \<^bold>\<open>The theories.\<close>

  \<^item> \<open>Udaq_Prelude\<close>: C arithmetic (\<open>c_div\<close>, \<open>c_mod\<close>, rounding to four), \<open>split_first\<close> for walks over linked lists,
    strings, the collections of rewrite rules.

  \<^item> \<open>Router_Types\<close>, \<open>Router_Alloc\<close>, \<open>Router_Listen\<close>: \<^verbatim>\<open>router_priv.h\<close>, \<^verbatim>\<open>router.h\<close> and \<^verbatim>\<open>listen.c\<close>. The record \<open>rtr\<close>
    has the variables of the listener: the process list \<open>pl\<close> with the buffer lists \<open>bl\<close>, the lists \<open>shm_used\<close> and
    \<open>shm_free\<close>, the overflow queue \<open>que\<close>, the counters and the two queues of the kernel. A buffer node is named by
    \<open>sid\<close>, so that a pointer to a node that was freed is visible: functions that follow one return \<open>None\<close>. \<open>malloc\<close> may
    fail at any call (the stream \<open>mok\<close>). \<open>message\<close> is the dispatcher with all of its cases, \<open>do_listen\<close> and
    \<open>listen_loop\<close> the loops. The locale \<open>byte_allocator\<close> of \<open>Router_Alloc\<close> is what the listener needs of the allocator,
    in terms of the set of free bytes; it is interpreted on \<open>get_shm\<close> and \<open>shm_free_insert\<close>.

  \<^item> \<open>Router_Inv\<close>, \<open>Router_Own\<close>, \<open>Router_System\<close>, \<open>Router_Steps\<close>: the invariant of the listener (memory tiled by used and
    free blocks, reference counts, counters) and its preservation by every operation; which buffers are in whose hands;
    the router together with its clients as a step relation, with requests of clients that follow the protocol of
    \<^verbatim>\<open>router_lib.c\<close> and wait for the replies before they disconnect, and with a \<^verbatim>\<open>malloc\<close> that delivers.

  \<^item> \<open>Kernel_IPC\<close>, \<open>Router_Main\<close>: System V segments and queues, and \<^verbatim>\<open>router.c\<close>: options, creation, removal, clean up.

  \<^item> \<open>Router_Correct\<close>: the properties of the router.

  \<^item> \<open>Router_Lib\<close>: \<^verbatim>\<open>router_lib.c\<close>: descriptors, keys, connection, requests, receiving and releasing buffers.

  \<^item> \<open>Ring_Buffer\<close>, \<open>Ring_Threads\<close>: \<^verbatim>\<open>gr/ring_buf.c\<close>; the locale \<open>bounded_fifo\<close> is the contract, proved of the index
    arithmetic. \<open>Ring_Threads\<close> has the mutex, the two condition variables and any number of threads as a step function.

  \<^item> \<open>Net_IO\<close>: \<^verbatim>\<open>net/readn.c\<close>, \<^verbatim>\<open>net/writen.c\<close> over sockets that cut transfers up and are interrupted.

  \<^item> \<open>GR_Lib\<close>, \<open>GR_Modules\<close>, \<open>GR_Collect\<close>, \<open>GR_Runs\<close>, \<open>GR_Tcp\<close>: \<^verbatim>\<open>gr/grlib.c\<close>; the module libraries
    \<^verbatim>\<open>vmelib/src/librpv.c\<close>, \<^verbatim>\<open>liblrm.c\<close>, \<^verbatim>\<open>libvts801.c\<close>; \<^verbatim>\<open>gr/collect_data.c\<close> with the command thread of
    \<^verbatim>\<open>gr/grcollect.c\<close>; both threads together; \<^verbatim>\<open>gr/collect_tcp.c\<close>. Accesses to VME are a trace of operations in
    the state, what the hardware answers is a record \<open>hw\<close> given to each pass of the loop. Clients may send any message,
    also one whose comment is not terminated.

  \<^item> \<open>GR_Control\<close>: the run control client \<^verbatim>\<open>grctrl/grctrl.c\<close> and the rest of \<^verbatim>\<open>gr/grcollect.c\<close>: options, threads, test
    mode. The locale \<open>readout_thread\<close> is what a read out loop must keep for the run protocol; it is interpreted on the loop
    of \<^verbatim>\<open>collect_data.c\<close> and on the test mode.

  \<^item> \<open>Format_Modules\<close>, \<open>Format_Check\<close>, \<open>Format_Correct\<close>: \<^verbatim>\<open>router/tools/check_format_lib.c\<close>. The memory is a function
    from addresses to words, pointers are addresses. The locale \<open>keyed_table\<close> is what the tables of the modules have in
    common. \<open>Format_Correct\<close> has an encoder of the data format, against which the checker is proved.

  \<^item> \<open>Config\<close>: \<^verbatim>\<open>config/config.c\<close>. The regular expressions are data, with the relation that says what a match is and a
    greedy matcher that is proved to find the only one; \<open>strtol\<close>, \<open>strtod\<close>, \<open>fgets\<close> and \<open>errno\<close> are written out. The
    locale \<open>last_wins\<close> is the contract of a store in which the last definition counts.

  \<^item> \<open>Vme_Readout\<close>, \<open>Vme_Daq\<close>, \<open>Vme_Init\<close>: \<^verbatim>\<open>vmedaq/vmedaq.c\<close>. \<open>Vme_Readout\<close> has the functions \<^verbatim>\<open>*_check_data\<close>, in which a
    FIFO is the sequence of words that reading it gives; \<open>Vme_Daq\<close> the record \<open>vd\<close> of the global variables, one pass over
    the modules, the transfer to the client and the main loops, with the locale \<open>block_source\<close> as the contract of the
    five read out functions; \<open>Vme_Init\<close> the set up of the modules from the configuration. A \<^verbatim>\<open>long\<close> has 32 bits.

  \<^item> \<open>Vme_Windows\<close>: the libraries that map the modules (\<^verbatim>\<open>v1190/v1190.c\<close>, \<^verbatim>\<open>madc32/madc32.c\<close>, \<^verbatim>\<open>mqdc32/mqdc32.c\<close>,
    \<^verbatim>\<open>myriad/myriad.c\<close>, \<^verbatim>\<open>v830/v830.c\<close>, \<^verbatim>\<open>v977/v977.c\<close>) and the parts of \<^verbatim>\<open>main\<close> in \<^verbatim>\<open>vmedaq.c\<close> that open and close
    them. The calls of the bus library are a trace with results; \<open>vme_step\<close> is the order its documentation asks for, and the
    locale \<open>window_driver\<close> the contract of the libraries.

  \<^item> \<open>Error_Log\<close>: \<^verbatim>\<open>router/errlog/src\<close>: the server that shows and records messages, and the library of its clients.

  \<^item> \<open>Block_Transfer\<close>: the programs of \<^verbatim>\<open>router/tools\<close> that carry blocks over a connection: \<^verbatim>\<open>router_tcp.c\<close> (the server, for a
    router and for run files), \<^verbatim>\<open>tcp_router.c\<close>, \<^verbatim>\<open>tcp_save.c\<close>, \<^verbatim>\<open>tcp_cat.c\<close> and \<^verbatim>\<open>tcplib.c\<close> (the clients). \<open>recv\<close> is the
    loop around \<^verbatim>\<open>read\<close> in its variants; \<open>link_step\<close> is a server and a client at the two ends of a connection, in any
    order of their steps; a grant of the router is a function of the size asked for, and \<open>listener_grants\<close> below ties the one used in
    the examples to \<open>get_buf\<close>. The frames of \<^verbatim>\<open>vmedaq\<close>, of the collector and of \<^verbatim>\<open>router_tcp\<close> are proved to be the same.

  \<^item> \<open>Scaler_Show\<close>: \<^verbatim>\<open>router/tools/assign_j11.c\<close>, which tells the kind of a block, and \<^verbatim>\<open>router_scaler.c\<close>, which adds up the
    counters in the blocks; blocks are memories as in \<open>Format_Modules\<close>.

  \<^item> \<open>Daq_Info\<close>: \<^verbatim>\<open>router/tools/router_daqinfo.c\<close>, which keeps counters and run in a shared memory segment, and \<^verbatim>\<open>daqinfo.c\<close>,
    which prints it. The header \<^verbatim>\<open>daqinfo.h\<close> is not in the repository: its constants are the parameter \<open>di_conf\<close>.

  \<^item> \<open>Tcp_Tools\<close>: \<^verbatim>\<open>router/tools/tcp_send.c\<close>, which serves a file, and the clients \<^verbatim>\<open>tcp_cat_v1.c\<close>, \<^verbatim>\<open>tcp_read.c\<close> and \<^verbatim>\<open>tcp_dump.c\<close>.

  \<^item> \<open>Router_Files\<close>: the recorders \<^verbatim>\<open>router/tools/router_save.c\<close> and \<^verbatim>\<open>router_fread.c\<close> and the replay \<^verbatim>\<open>router_write.c\<close>. What
    the router, the disk and the input deliver is given to each pass.

  \<^item> \<open>Camac\<close>: \<^verbatim>\<open>camlib/camlib.c\<close>, the library for the crate controller of \<^verbatim>\<open>k2917.h\<close>. A call is the list of its register
    writes with a result; \<open>command_of\<close> reads the bus cycle off the writes.

  \<^item> \<open>Camac_Tools\<close>, \<open>Init3377\<close>: the programs that use it: \<^verbatim>\<open>pcos\<close>, \<^verbatim>\<open>mlu\<close>, \<^verbatim>\<open>xilinx/Xilinxload.c\<close> and
    \<^verbatim>\<open>init3377/init3377.c\<close> with its dialogue and its set up of the modules, over the record \<open>camac\<close>.

  \<^bold>\<open>What the theorems show.\<close> For the router: no use of freed nodes and no endless loop in any reachable state, exclusive
  use of buffers, exact reference counts, limits, no leak, delivery to every reader in order, a disconnection that touches nobody
  else, waiting only when full, statistics, start and end; and, with clients outside of the protocol, how it fails. For the client library:
  receive and release are inverse, descriptors, keys, and that its requests are accepted by the listener. For the
  collector: blocks are described, kept in order and sent completely, no wake-up of the threads at the ring buffer is lost, the output of any interleaving of commands and loop
  passes is a sequence of runs, a memory is read only while the hardware does not write to it, an overflow is read out
  completely; the comment that is typed at the control client reaches the run start block; the test mode keeps the same
  protocol. For the format checker: well formed blocks pass and are counted exactly, it ends exactly when no empty field
  occurs, and its tables stay in their arrays. For the configuration: what a file of definitions means is what the getters
  return and what the modules are set to, until one number overflows. For \<^verbatim>\<open>vmedaq\<close>: TDC data is handed over completely,
  ADC events without a header get one, blocks are whole and numbered without a gap, and data taking is inhibited exactly
  while nobody is connected; on a bus without faults every module is mapped where its number says and every window, that of
  the MyRIAD too, is released.
  For the error log: lines have fixed columns and fit their arrays, messages keep their order, and a second server takes the
  queue of the first one away. For the transfer: two linked routers pass blocks on unchanged and in order, a bounded number
  ahead and without a deadlock; a file saved is what a router would get; the blocks of \<^verbatim>\<open>vmedaq\<close> reach a router.
  For the files: what was recorded can be replayed block by block, padded to the block size; the display of the scalers loses no
  count, and the segment of \<^verbatim>\<open>router_daqinfo\<close> holds the same counters; a file that is served arrives, followed by the rest of its last block. For CAMAC: a call makes exactly the cycle it is asked for; the programs send the words that the modules expect, with the
  exception of those that load a memory look up unit, and the parameters of the TDCs stay in the fields of their registers, the time out excepted.

  \<^bold>\<open>Bounds and fuel.\<close> Machine words are words where the code computes with bits (16 bit data, 32 bit registers) and
  integers where it counts; \<open>int\<close> counters of the router are integers, since they count objects in a memory of at most
  \<open>2 ^ 31\<close> bytes. Loops are total functions with a measure. The loops that may not end are written with \<open>partial_function\<close>
  over options or with a number of steps (\<open>flds_loop\<close>, \<open>reply_loop\<close>); the theorems about them say when they end and for
  how many steps.

  \<^bold>\<open>Not modelled.\<close> Text for terminals and logs; the system calls behind \<open>hw\<close>, \<open>ipc\<close> and the sockets, which are
  parameters or small models of their documented behaviour; the tools around the router that only print data; floating
  point, so that the conversion of volts and nanoseconds in \<^verbatim>\<open>pcos\<close> is a parameter; in \<^verbatim>\<open>vmedaq.c\<close> the options, the DMA buffer, the set up of
  the MyRIAD and the handler of \<^verbatim>\<open>SIGHUP\<close>; old versions of modelled files that are kept in the tree.
\<close>

section \<open>The router that the transfer programs talk to\<close>

text \<open>
  What \<open>Block_Transfer\<close> assumes of a grant is what the listener does: a buffer that is handed out for a request of \<open>n\<close> bytes has the
  size of \<open>router_grant\<close>, the request rounded up to a multiple of four, and no call changes the state without handing one out.
\<close>

lemma listener_grants:
  assumes "rtr_inv s" and "\<forall>k. mok s k" and "0 < n" and "Router_Listen.get_buf pd n s = (r, ob, s')"
  shows "(r = 0 \<and> (\<exists>b. ob = Some b \<and> b \<in> set (shm_used s') \<and> ssize b = get_size (router_grant n) \<and> n \<le> ssize b)) \<or>
    (r \<noteq> 0 \<and> ob = None \<and> s' = s)"
  using get_buf_held [OF assms] by (auto simp: router_grant_def round4_ge)

end
